(* ===== verification/Prelude.thy ===== *)
theory Prelude
  imports Main "HOL-Library.Word"
begin

text \<open>
  Prelude of the development: the machine types, the outcome type that carries every way a
  kernel routine can end, the memory of aligned 32-bit cells with byte access on top of it, the
  I/O port log, and the generic lemmas on words and lists that the component theories share.

  Memory. \<open>cells\<close> gives the 32-bit cell at each 4-aligned address; a byte access reads or
  writes the byte of its cell, little-endian, as x86 does. Every 32-bit access of the modelled
  code goes to an aligned address, which the well-formedness predicates of the components state.

  Outcomes. A routine returns \<open>None\<close> when it never returns, \<open>Some (Inl e)\<close> when the
  machine stops (a panic, an unresolved page fault) or when the C program has no defined
  behaviour, and \<open>Some (Inr v)\<close> when it returns \<open>v\<close>.
\<close>

unbundle bit_operations_syntax

section \<open>Machine types\<close>

type_synonym u8 = "8 word"
type_synonym u16 = "16 word"
type_synonym u32 = "32 word"

type_synonym cells = "u32 \<Rightarrow> u32"

named_theorems cell_simps \<open>reads and writes of memory cells\<close>
named_theorems outcome_simps \<open>evaluation of outcomes\<close>

section \<open>Outcomes\<close>

text \<open>
  \<open>Panic\<close> carries the message of \<open>panic\<close> (panic.c), which stops the processor;
  \<open>PageFault\<close> the address of an access with no translation; \<open>Undefined\<close> marks an
  access outside an array or another operation without meaning in C.
\<close>

datatype kerr = Panic string | PageFault u32 | DivideError | Undefined

type_synonym 'a outcome = "(kerr + 'a) option"

definition ret :: "'a \<Rightarrow> 'a outcome" where
  "ret x = Some (Inr x)"

definition fail :: "kerr \<Rightarrow> 'a outcome" where
  "fail e = Some (Inl e)"

definition bnd :: "'a outcome \<Rightarrow> ('a \<Rightarrow> 'b outcome) \<Rightarrow> 'b outcome" where
  "bnd x f = Option.bind x (\<lambda>r. case r of Inl e \<Rightarrow> Some (Inl e) | Inr v \<Rightarrow> f v)"

lemma bnd_ret [simp, outcome_simps]: "bnd (ret x) f = f x"
  by (simp add: bnd_def ret_def)

lemma bnd_fail [simp, outcome_simps]: "bnd (fail e) f = fail e"
  by (simp add: bnd_def fail_def)

lemma bnd_None [simp, outcome_simps]: "bnd None f = None"
  by (simp add: bnd_def)

lemma bnd_assoc: "bnd (bnd x f) g = bnd x (\<lambda>v. bnd (f v) g)"
  by (auto simp: bnd_def split: option.splits sum.splits Option.bind_splits)

lemma ret_inject [simp, outcome_simps]: "ret x = ret y \<longleftrightarrow> x = y"
  by (simp add: ret_def)

lemma fail_inject [simp, outcome_simps]: "fail d = fail e \<longleftrightarrow> d = e"
  by (simp add: fail_def)

lemma ret_not_fail [simp, outcome_simps]:
  "ret x \<noteq> fail e" "fail e \<noteq> ret x" "ret x \<noteq> None" "None \<noteq> ret x" "fail e \<noteq> None" "None \<noteq> fail e"
  by (simp_all add: ret_def fail_def)

lemma bnd_eq_ret: "bnd x f = ret r \<longleftrightarrow> (\<exists>v. x = ret v \<and> f v = ret r)"
  by (auto simp: bnd_def ret_def split: Option.bind_splits sum.splits option.splits)

lemma bnd_cong [fundef_cong]:
  "x = x' \<Longrightarrow> (\<And>v. x' = ret v \<Longrightarrow> f v = f' v) \<Longrightarrow> bnd x f = bnd x' f'"
  by (cases x') (auto simp: bnd_def ret_def split: sum.splits)

lemma outcome_cases:
  obtains "x = None" | e where "x = fail e" | v where "x = ret v"
  by (metis fail_def ret_def option.exhaust sum.exhaust)

text \<open>\<open>partial_function (option)\<close> needs to know that \<open>bnd\<close> is monotone.\<close>

lemma bnd_mono [partial_function_mono]:
  assumes f: "mono_option f" and g: "\<And>y. mono_option (\<lambda>h. g y h)"
  shows "mono_option (\<lambda>h. bnd (f h) (\<lambda>y. g y h))"
proof -
  have "mono_option (\<lambda>h. Option.bind (f h) (\<lambda>r. case r of Inl e \<Rightarrow> Some (Inl e) | Inr v \<Rightarrow> g v h))"
  proof (rule bind_mono [OF f])
    fix r
    show "mono_option (\<lambda>h. case r of Inl e \<Rightarrow> Some (Inl e) | Inr v \<Rightarrow> g v h)"
      using g by (cases r) (simp_all add: option.const_mono)
  qed
  then show ?thesis by (simp add: bnd_def)
qed

section \<open>Words as naturals\<close>

lemma unat_and_mask: "unat (x AND mask k) = unat x mod 2 ^ k" for x :: "'a::len word"
proof -
  have "unat (take_bit k x) = take_bit k (unat x)"
    by (rule unsigned_take_bit_eq)
  then show ?thesis
    by (simp only: take_bit_eq_mask [symmetric]) (simp only: take_bit_eq_mod)
qed

lemma unat_and_not_mask: "unat (x AND NOT (mask k)) = unat x - unat x mod 2 ^ k" for x :: "'a::len word"
proof -
  have "(x AND NOT (mask k)) + (x AND mask k) = (x AND NOT (mask k)) OR (x AND mask k)"
    by (rule disjunctive_add) (auto simp: bit_simps)
  also have "\<dots> = x"
    by (rule bit_word_eqI) (auto simp: bit_simps)
  finally have "x AND NOT (mask k) = x - (x AND mask k)"
    by (simp add: eq_diff_eq)
  moreover have "x AND mask k \<le> x"
    by (simp add: word_le_nat_alt unat_and_mask)
  ultimately show ?thesis
    by (simp only: unat_sub unat_and_mask)
qed

text \<open>The masks of the source: 3 (cells), 0xF (allocation size), 0x1F (page bit), 0x3FF and 0xFFF
  (page-table index and page offset).\<close>

lemma unat_and_3: "unat (x AND 3) = unat x mod 4" for x :: u32
  using unat_and_mask [of x 2] by (simp add: mask_eq_exp_minus_1)

lemma unat_and_15: "unat (x AND 15) = unat x mod 16" for x :: u32
  using unat_and_mask [of x 4] by (simp add: mask_eq_exp_minus_1)

lemma unat_and_31: "unat (x AND 31) = unat x mod 32" for x :: u32
  using unat_and_mask [of x 5] by (simp add: mask_eq_exp_minus_1)

lemma unat_and_1023: "unat (x AND 1023) = unat x mod 1024" for x :: u32
  using unat_and_mask [of x 10] by (simp add: mask_eq_exp_minus_1)

lemma unat_and_4095: "unat (x AND 4095) = unat x mod 4096" for x :: u32
  using unat_and_mask [of x 12] by (simp add: mask_eq_exp_minus_1)

lemma unat_and_not_3: "unat (x AND NOT 3) = unat x - unat x mod 4" for x :: u32
  using unat_and_not_mask [of x 2] by (simp add: mask_eq_exp_minus_1)

lemma unat_and_not_15: "unat (x AND NOT 15) = unat x - unat x mod 16" for x :: u32
  using unat_and_not_mask [of x 4] by (simp add: mask_eq_exp_minus_1)

lemma unat_and_not_4095: "unat (x AND NOT 4095) = unat x - unat x mod 4096" for x :: u32
  using unat_and_not_mask [of x 12] by (simp add: mask_eq_exp_minus_1)

lemma unat_add_small: "unat x + unat y < 2 ^ 32 \<Longrightarrow> unat (x + y) = unat x + unat y" for x y :: u32
  using unat_add_lem [of x y] by simp

lemma unat_lt_32: "unat (x :: u32) < 4294967296"
  using unsigned_less [of x] by simp

lemma page_div_mod: "k < 4096 \<Longrightarrow> (4096 * a + k) div 4096 = a" "k < 4096 \<Longrightarrow> (4096 * a + k) mod 4096 = k" for a k :: nat
  by simp_all

end
