(* ===== verification/Memory.thy ===== *)
theory Memory
  imports Prelude
begin

text \<open>
  Byte access to the memory of 32-bit cells, and the locale \<open>byte_store\<close> of a store with
  independent bytes, in which the loops over bytes of common.c are reasoned about once.
\<close>

section \<open>Bytes of a cell\<close>

definition cell_of :: "u32 \<Rightarrow> u32" where
  "cell_of a = a AND NOT 3"

definition lane :: "u32 \<Rightarrow> nat" where
  "lane a = 8 * unat (a AND 3)"

definition load8 :: "cells \<Rightarrow> u32 \<Rightarrow> u8" where
  "load8 m a = ucast (drop_bit (lane a) (m (cell_of a)))"

definition store8 :: "cells \<Rightarrow> u32 \<Rightarrow> u8 \<Rightarrow> cells" where
  "store8 m a v = m(cell_of a :=
     (m (cell_of a) AND NOT (push_bit (lane a) 255)) OR push_bit (lane a) (ucast v))"

definition aligned :: "u32 \<Rightarrow> bool" where
  "aligned a \<longleftrightarrow> a AND 3 = 0"

lemma lane_le: "lane a \<le> 24"
proof -
  have "unat (a AND 3) \<le> unat (3 :: u32)"
    by (rule word_and_le1 [THEN word_le_nat_alt [THEN iffD1]])
  then show ?thesis by (simp add: lane_def)
qed

lemma lane_dvd: "8 dvd lane a"
  by (simp add: lane_def)

lemma cell_lane_inject:
  assumes "cell_of a = cell_of b" and "lane a = lane b"
  shows "a = b"
proof -
  have "a AND 3 = b AND 3"
    using assms(2) by (simp add: lane_def word_unat_eq_iff)
  moreover have "x = (x AND NOT 3) OR (x AND 3)" for x :: u32
    by (rule bit_word_eqI) (auto simp: bit_simps)
  ultimately show ?thesis
    using assms(1) unfolding cell_of_def by metis
qed

lemma bit_255: "bit (255 :: int) n \<longleftrightarrow> n < 8"
proof -
  have "(255 :: int) = mask 8" by (simp add: mask_eq_exp_minus_1)
  then show ?thesis by (simp only: bit_mask_iff) simp
qed

lemma lane_disjoint:
  assumes "lane a \<noteq> lane b" and "n < 8" and "lane a \<le> lane b + n"
  shows "8 \<le> lane b + n - lane a"
  using assms lane_dvd [of a] lane_dvd [of b] by (auto simp: lane_def)

lemma load8_store8 [cell_simps]:
  "load8 (store8 m a v) b = (if a = b then v else load8 m b)"
proof (cases "cell_of a = cell_of b")
  case False
  then show ?thesis by (auto simp: load8_def store8_def)
next
  case cell: True
  show ?thesis
  proof (rule bit_word_eqI)
    fix n assume "n < LENGTH(8)"
    then have n: "n < 8" by simp
    have la: "lane a \<le> 24" "lane b \<le> 24" by (rule lane_le)+
    show "bit (load8 (store8 m a v) b) n = bit (if a = b then v else load8 m b) n"
    proof (cases "a = b")
      case True
      then show ?thesis
        using n la by (auto simp: load8_def store8_def bit_simps bit_255)
    next
      case False
      with cell have "lane a \<noteq> lane b"
        using cell_lane_inject by blast
      then show ?thesis
        using False n la cell lane_disjoint [of a b n]
        by (auto simp: load8_def store8_def bit_simps bit_255 dest: bit_imp_le_length)
    qed
  qed
qed

lemma store8_other_cell: "cell_of a \<noteq> c \<Longrightarrow> store8 m a v c = m c"
  by (auto simp: store8_def)

lemma load8_cong: "m (cell_of a) = m' (cell_of a) \<Longrightarrow> load8 m a = load8 m' a"
  by (simp add: load8_def)

lemma aligned_unat: "aligned a \<longleftrightarrow> unat a mod 4 = 0"
  by (simp add: aligned_def unat_and_3 flip: unat_eq_zero)

lemma aligned_bound: "aligned a \<Longrightarrow> unat a + 3 < 2 ^ 32"
  using unat_lt_32 [of a] by (simp add: aligned_unat mod_eq_0_iff_dvd) presburger

lemma cell_of_unat: "unat (cell_of a) = unat a - unat a mod 4"
  unfolding cell_of_def by (rule unat_and_not_3)

lemma lane_unat: "lane a = 8 * (unat a mod 4)"
  by (simp add: lane_def unat_and_3)

lemma unat_aligned_add:
  assumes "aligned a" and "i < 4"
  shows "unat (a + of_nat i) = unat a + i"
proof -
  have i: "unat (of_nat i :: u32) = i"
    using assms(2) by (simp add: unat_of_nat)
  show ?thesis
    using aligned_bound [OF assms(1)] assms(2) unat_add_small [of a "of_nat i"] by (simp add: i)
qed

lemma cell_of_aligned_add:
  assumes "aligned a" and "i < 4"
  shows "cell_of (a + of_nat i) = a"
proof -
  have "(unat a + i) mod 4 = i"
    using assms unfolding aligned_unat by presburger
  then show ?thesis
    by (simp only: word_unat_eq_iff cell_of_unat unat_aligned_add [OF assms])
qed

lemma lane_aligned_add:
  assumes "aligned a" and "i < 4"
  shows "lane (a + of_nat i) = 8 * i"
proof -
  have "(unat a + i) mod 4 = i"
    using assms unfolding aligned_unat by presburger
  then show ?thesis
    by (simp only: lane_unat unat_aligned_add [OF assms])
qed

text \<open>A cell is determined by its four bytes.\<close>

lemma cell_eq_bytes:
  assumes "aligned a" and bytes: "\<And>i. i < 4 \<Longrightarrow> load8 m (a + of_nat i) = load8 m' (a + of_nat i)"
  shows "m a = m' a"
proof (rule bit_word_eqI)
  fix n assume "n < LENGTH(32)"
  then have n: "n div 8 < 4" by simp
  have "bit (load8 m (a + of_nat (n div 8))) (n mod 8) = bit (load8 m' (a + of_nat (n div 8))) (n mod 8)"
    using bytes [OF n] by simp
  then show "bit (m a) n = bit (m' a) n"
    using \<open>n < LENGTH(32)\<close>
    by (simp add: load8_def cell_of_aligned_add [OF assms(1) n] lane_aligned_add [OF assms(1) n] bit_simps)
qed

section \<open>Sequences of bytes\<close>

text \<open>Writing a list of bytes upwards from an address, one at a time.\<close>

primrec write_seq :: "('m \<Rightarrow> u32 \<Rightarrow> u8 \<Rightarrow> 'm) \<Rightarrow> 'm \<Rightarrow> u32 \<Rightarrow> u8 list \<Rightarrow> 'm" where
  "write_seq st m d [] = m"
| "write_seq st m d (x # xs) = write_seq st (st m d x) (d + 1) xs"

lemma write_seq_snoc: "write_seq st m d (xs @ [x]) = st (write_seq st m d xs) (d + of_nat (length xs)) x"
  by (induction xs arbitrary: m d) (simp_all add: add.assoc add.commute)

lemma offset_Suc:
  fixes a d :: u32
  assumes "a \<noteq> d"
  shows "unat (a - d) = Suc (unat (a - (d + 1)))"
proof -
  have "a - d \<noteq> 0" using assms by simp
  then have "unat (a - d - 1) = unat (a - d) - 1" and "unat (a - d) \<noteq> 0"
    by (simp_all add: unat_minus_one unat_eq_zero)
  then show ?thesis by (simp add: diff_diff_add)
qed

lemma unat_minus_1 [simp]: "unat (- 1 :: u32) = 4294967295"
  by (simp add: unsigned_minus_1_eq_mask mask_eq_exp_minus_1)

lemma offset_wrap: "unat (d - (d + 1)) = 2 ^ 32 - 1" for d :: u32
  by simp

text \<open>A store whose bytes are independent of each other.\<close>

locale byte_store =
  fixes ld :: "'m \<Rightarrow> u32 \<Rightarrow> u8"
    and st :: "'m \<Rightarrow> u32 \<Rightarrow> u8 \<Rightarrow> 'm"
  assumes ld_st: "ld (st m a v) b = (if a = b then v else ld m b)"
begin

lemma ld_write_seq:
  assumes "length xs \<le> 2 ^ 32"
  shows "ld (write_seq st m d xs) a =
    (if unat (a - d) < length xs then xs ! unat (a - d) else ld m a)"
  using assms
proof (induction xs arbitrary: m d)
  case Nil
  then show ?case by simp
next
  case (Cons x xs)
  then have IH: "ld (write_seq st (st m d x) (d + 1) xs) a =
      (if unat (a - (d + 1)) < length xs then xs ! unat (a - (d + 1)) else ld (st m d x) a)"
    by simp
  show ?case
  proof (cases "a = d")
    case True
    moreover have "\<not> unat (d - (d + 1)) < length xs"
      using Cons.prems by simp
    ultimately show ?thesis using IH by (simp add: ld_st)
  next
    case False
    then show ?thesis using IH by (simp add: ld_st offset_Suc)
  qed
qed

lemma ld_write_seq_outside:
  assumes "length xs \<le> unat (a - d)"
  shows "ld (write_seq st m d xs) a = ld m a"
proof -
  have "length xs \<le> 2 ^ 32"
    using assms unat_lt_32 [of "a - d"] by simp
  then show ?thesis using assms by (simp add: ld_write_seq)
qed

end

interpretation cells: byte_store load8 store8
  by unfold_locales (rule load8_store8)

end
