(* ===== verification/Common.thy ===== *)
theory Common
  imports Memory
begin

text \<open>
  common.c: the byte loops \<open>memcpy\<close> and \<open>memset\<close>, the string routines
  \<open>strlen\<close>, \<open>strcmp\<close>, \<open>strcpy\<close>, \<open>strcat\<close>, and the port access
  \<open>outb\<close>, \<open>inb\<close>, \<open>inw\<close>. A string routine walks memory until a NUL byte, so it is a
  partial function: \<open>None\<close> when there is none. \<open>cstr m p xs\<close> says that the bytes
  \<open>xs\<close>, none of them NUL, and then a NUL byte stand at \<open>p\<close>.
\<close>

section \<open>Machine state and ports\<close>

text \<open>
  The memory of the kernel's address space and the log of port accesses. What a device answers is
  the parameter \<open>env\<close>: it maps the port accesses made so far and a port to the value read.
\<close>

datatype io_event = OutB u16 u8 | InB u16 u8 | InW u16 u16

record machine =
  mem :: cells
  io :: "io_event list"

type_synonym 'v env = "io_event list \<Rightarrow> u16 \<Rightarrow> 'v"

definition outb :: "u16 \<Rightarrow> u8 \<Rightarrow> 'a machine_scheme \<Rightarrow> 'a machine_scheme" where
  "outb port value s = s\<lparr>io := io s @ [OutB port value]\<rparr>"

definition inb :: "u8 env \<Rightarrow> u16 \<Rightarrow> 'a machine_scheme \<Rightarrow> u8 \<times> 'a machine_scheme" where
  "inb env port s = (let r = env (io s) port in (r, s\<lparr>io := io s @ [InB port r]\<rparr>))"

definition inw :: "u16 env \<Rightarrow> u16 \<Rightarrow> 'a machine_scheme \<Rightarrow> u16 \<times> 'a machine_scheme" where
  "inw env port s = (let r = env (io s) port in (r, s\<lparr>io := io s @ [InW port r]\<rparr>))"

section \<open>memcpy and memset\<close>

function memcpy :: "cells \<Rightarrow> u32 \<Rightarrow> u32 \<Rightarrow> u32 \<Rightarrow> cells" where
  "memcpy m dest src len =
     (if len \<noteq> 0 then memcpy (store8 m dest (load8 m src)) (dest + 1) (src + 1) (len - 1) else m)"
  by pat_completeness auto
termination
  by (relation "measure (\<lambda>(m, dest, src, len). unat len)") (auto simp: measure_unat)

function memset :: "cells \<Rightarrow> u32 \<Rightarrow> u8 \<Rightarrow> u32 \<Rightarrow> cells" where
  "memset m dest val len =
     (if len \<noteq> 0 then memset (store8 m dest val) (dest + 1) val (len - 1) else m)"
  by pat_completeness auto
termination
  by (relation "measure (\<lambda>(m, dest, val, len). unat len)") (auto simp: measure_unat)

declare memcpy.simps [simp del] memset.simps [simp del]

section \<open>Strings\<close>

text \<open>\<open>int i = 0; while (*src++) i++; return i;\<close>\<close>

partial_function (option) strlen_loop :: "cells \<Rightarrow> u32 \<Rightarrow> u32 \<Rightarrow> u32 option" where
  "strlen_loop m src i = (if load8 m src \<noteq> 0 then strlen_loop m (src + 1) (i + 1) else Some i)"

definition strlen :: "cells \<Rightarrow> u32 \<Rightarrow> u32 option" where
  "strlen m src = strlen_loop m src 0"

text \<open>
  The loop of \<open>strcmp\<close> advances both pointers in the comparison itself, whether the two
  characters agree or not; the test after the loop reads the characters that follow.
\<close>

definition strcmp_result :: "u8 \<Rightarrow> u8 \<Rightarrow> int" where
  "strcmp_result c1 c2 = (if c1 = 0 \<and> c2 = 0 then 0 else if c1 = 0 then -1 else 1)"

partial_function (option) strcmp :: "cells \<Rightarrow> u32 \<Rightarrow> u32 \<Rightarrow> int option" where
  "strcmp m str1 str2 =
     (let c1 = load8 m str1; c2 = load8 m str2
      in if c1 \<noteq> 0 \<and> c2 \<noteq> 0
         then (if c1 = c2 then strcmp m (str1 + 1) (str2 + 1)
               else Some (strcmp_result (load8 m (str1 + 1)) (load8 m (str2 + 1))))
         else Some (strcmp_result c1 c2))"

text \<open>\<open>strcpy\<close> has no return statement, so only the memory it leaves is modelled.\<close>

partial_function (option) strcpy :: "cells \<Rightarrow> u32 \<Rightarrow> u32 \<Rightarrow> cells option" where
  "strcpy m dest src =
     (if load8 m src \<noteq> 0 then strcpy (store8 m dest (load8 m src)) (dest + 1) (src + 1)
      else Some (store8 m dest 0))"

text \<open>
  The first loop of \<open>strcat\<close> assigns \<open>*dest = *dest++\<close>, which has no defined meaning in
  C; it is reached when the destination string is not empty. Otherwise the source is copied and
  the address of the final NUL is returned.
\<close>

partial_function (option) strcat_copy :: "cells \<Rightarrow> u32 \<Rightarrow> u32 \<Rightarrow> (u32 \<times> cells) outcome" where
  "strcat_copy m dest src =
     (if load8 m src \<noteq> 0 then strcat_copy (store8 m dest (load8 m src)) (dest + 1) (src + 1)
      else ret (dest, store8 m dest 0))"

definition strcat :: "cells \<Rightarrow> u32 \<Rightarrow> u32 \<Rightarrow> (u32 \<times> cells) outcome" where
  "strcat m dest src = (if load8 m dest \<noteq> 0 then fail Undefined else strcat_copy m dest src)"

primrec cstr :: "cells \<Rightarrow> u32 \<Rightarrow> u8 list \<Rightarrow> bool" where
  "cstr m p [] \<longleftrightarrow> load8 m p = 0"
| "cstr m p (x # xs) \<longleftrightarrow> x \<noteq> 0 \<and> load8 m p = x \<and> cstr m (p + 1) xs"

section \<open>The byte loops as sequences of writes\<close>

lemma memset_write_seq: "memset m d v len = write_seq store8 m d (replicate (unat len) v)"
proof (induction m d v len rule: memset.induct)
  case (1 m d v len)
  show ?case
  proof (cases "len = 0")
    case True
    then show ?thesis by (simp add: memset.simps)
  next
    case False
    then have "unat len = Suc (unat (len - 1))"
      using offset_Suc [of len 0] by simp
    with False 1 show ?thesis by (simp add: memset.simps [of m d v len])
  qed
qed

lemma memcpy_write_seq:
  assumes "\<And>i. 0 < i \<Longrightarrow> i < unat len \<Longrightarrow> s + of_nat i \<noteq> d"
  shows "memcpy m d s len = write_seq store8 m d (map (\<lambda>i. load8 m (s + of_nat i)) [0..<unat len])"
  using assms
proof (induction m d s len rule: memcpy.induct)
  case (1 m d s len)
  show ?case
  proof (cases "len = 0")
    case True
    then show ?thesis by (simp add: memcpy.simps)
  next
    case False
    let ?m = "store8 m d (load8 m s)"
    have len: "unat len = Suc (unat (len - 1))"
      using False offset_Suc [of len 0] by simp
    have read: "load8 ?m (s + 1 + of_nat i) = load8 m (s + of_nat (Suc i))" if "i < unat (len - 1)" for i
      using "1.prems" [of "Suc i"] that len by (auto simp: load8_store8 add.commute add.left_commute)
    have "memcpy m d s len = memcpy ?m (d + 1) (s + 1) (len - 1)"
      using False by (simp add: memcpy.simps [of m d s len])
    also have "\<dots> = write_seq store8 ?m (d + 1) (map (\<lambda>i. load8 ?m (s + 1 + of_nat i)) [0..<unat (len - 1)])"
    proof (rule "1.IH" [OF False])
      fix i :: nat assume "0 < i" "i < unat (len - 1)"
      then show "s + 1 + of_nat i \<noteq> d + 1"
        using "1.prems" [of i] len by (simp add: add.commute add.left_commute)
    qed
    also have "map (\<lambda>i. load8 ?m (s + 1 + of_nat i)) [0..<unat (len - 1)]
        = map (\<lambda>i. load8 m (s + of_nat (Suc i))) [0..<unat (len - 1)]"
      using read by (intro map_cong) auto
    also have "write_seq store8 ?m (d + 1) \<dots>
        = write_seq store8 m d (load8 m s # map (\<lambda>i. load8 m (s + of_nat (Suc i))) [0..<unat (len - 1)])"
      by simp
    also have "load8 m s # map (\<lambda>i. load8 m (s + of_nat (Suc i))) [0..<unat (len - 1)]
        = map (\<lambda>i. load8 m (s + of_nat i)) [0..<unat len]"
      unfolding len by (simp add: upt_conv_Cons map_Suc_upt [symmetric] del: upt_Suc)
    finally show ?thesis .
  qed
qed

lemma offset_of_nat: "n < 2 ^ 32 \<Longrightarrow> unat (d + of_nat n - d :: u32) = n"
  by (simp add: unat_of_nat)

lemma memset_correct:
  "load8 (memset m dest val len) a = (if unat (a - dest) < unat len then val else load8 m a)"
proof -
  have "unat len \<le> 2 ^ 32" using unat_lt_32 [of len] by simp
  then show ?thesis
    by (simp add: memset_write_seq cells.ld_write_seq)
qed

lemma memcpy_correct:
  assumes "dest = src \<or> unat len \<le> unat (dest - src)"
  shows "load8 (memcpy m dest src len) a =
    (if unat (a - dest) < unat len then load8 m (src + (a - dest)) else load8 m a)"
proof -
  have "src + of_nat i \<noteq> dest" if "0 < i" "i < unat len" for i
  proof
    assume "src + of_nat i = dest"
    then have d: "dest - src = of_nat i" by auto
    have "i < 2 ^ 32" using that unat_lt_32 [of len] by simp
    then have "unat (dest - src) = i" unfolding d by (simp add: unat_of_nat)
    then show False using assms that by auto
  qed
  moreover have "unat len \<le> 2 ^ 32" using unat_lt_32 [of len] by simp
  ultimately show ?thesis
    by (simp add: memcpy_write_seq cells.ld_write_seq)
qed

text \<open>Clearing whole cells, as the kernel does with structures and page tables.\<close>

lemma aligned_dvd: "aligned a \<longleftrightarrow> 4 dvd unat a"
  by (simp add: aligned_unat mod_eq_0_iff_dvd)

lemma aligned_add: "aligned a \<Longrightarrow> aligned b \<Longrightarrow> aligned (a + b)"
  by (simp add: aligned_dvd unat_word_ariths dvd_mod_iff)

lemma aligned_minus:
  assumes "aligned a" and "aligned b"
  shows "aligned (a - b)"
proof -
  have dvd: "4 dvd unat a" "4 dvd unat b" "4 dvd unat a + 4294967296"
    using assms by (simp_all add: aligned_dvd dvd_add)
  show ?thesis
  proof (cases "unat b \<le> unat a")
    case True
    then show ?thesis using dvd by (simp add: aligned_dvd unat_sub_if' dvd_diff_nat)
  next
    case False
    then show ?thesis using dvd by (simp add: aligned_dvd unat_sub_if' dvd_diff_nat)
  qed
qed

lemma memset_zero_cell:
  assumes "aligned dest" and "aligned c" and "aligned len"
  shows "memset m dest 0 len c = (if unat (c - dest) < unat len then 0 else m c)"
proof -
  have off: "unat (c + of_nat i - dest) = unat (c - dest) + i" if "i < 4" for i
    using unat_aligned_add [of "c - dest" i] aligned_minus [OF assms(2,1)] that by (simp add: algebra_simps)
  have range: "unat (c - dest) + i < unat len \<longleftrightarrow> unat (c - dest) < unat len" if "i < 4" for i
    using aligned_minus [OF assms(2,1)] assms(3) that unfolding aligned_unat by presburger
  define m' where "m' = (if unat (c - dest) < unat len then \<lambda>_. 0 else m)"
  have "memset m dest 0 len c = m' c"
    by (rule cell_eq_bytes [OF assms(2)])
      (simp add: memset_correct off range m'_def, simp add: load8_def)
  then show ?thesis by (simp add: m'_def)
qed

section \<open>Strings in memory\<close>

lemma strlen_loop_cstr: "cstr m p xs \<Longrightarrow> strlen_loop m p i = Some (i + of_nat (length xs))"
proof (induction xs arbitrary: p i)
  case Nil
  then show ?case by (simp add: strlen_loop.simps)
next
  case (Cons x xs)
  then have "strlen_loop m (p + 1) (i + 1) = Some (i + 1 + of_nat (length xs))" by simp
  with Cons.prems show ?case
    by (simp add: strlen_loop.simps [of m p] algebra_simps)
qed

lemma strlen_correct: "cstr m p xs \<Longrightarrow> strlen m p = Some (of_nat (length xs))"
  by (simp add: strlen_def strlen_loop_cstr)

text \<open>What \<open>strcmp\<close> computes on the two strings.\<close>

fun strcmp_seq :: "u8 list \<Rightarrow> u8 list \<Rightarrow> int" where
  "strcmp_seq [] [] = 0"
| "strcmp_seq [] (y # ys) = -1"
| "strcmp_seq (x # xs) [] = 1"
| "strcmp_seq (x # xs) (y # ys) =
     (if x = y then strcmp_seq xs ys
      else if xs = [] \<and> ys = [] then 0 else if xs = [] then -1 else 1)"

lemma cstr_first: "cstr m p xs \<Longrightarrow> load8 m p = 0 \<longleftrightarrow> xs = []"
  by (cases xs) auto

lemma cstr_Nil_strcmp: "cstr m q ys \<Longrightarrow> strcmp_result 0 (load8 m q) = strcmp_seq [] ys"
  by (cases ys) (auto simp: strcmp_result_def)

lemma strcmp_strcmp_seq:
  "cstr m p xs \<Longrightarrow> cstr m q ys \<Longrightarrow> strcmp m p q = Some (strcmp_seq xs ys)"
proof (induction xs ys arbitrary: p q rule: strcmp_seq.induct)
  case (4 x xs y ys)
  note first = cstr_first [of m "p + 1" xs] cstr_first [of m "q + 1" ys]
  from 4 first show ?case
    by (auto simp: strcmp.simps [of m p] strcmp_result_def Let_def)
qed (auto simp: strcmp.simps [of m p for p] strcmp_result_def)

lemma strcmp_seq_zero:
  "strcmp_seq xs ys = 0 \<longleftrightarrow> length xs = length ys \<and> butlast xs = butlast ys"
  by (induction xs ys rule: strcmp_seq.induct) auto

lemma strcmp_zero_iff:
  assumes "cstr m p xs" and "cstr m q ys"
  shows "strcmp m p q = Some 0 \<longleftrightarrow> length xs = length ys \<and> butlast xs = butlast ys"
  using assms by (simp add: strcmp_strcmp_seq strcmp_seq_zero)

text \<open>Copying: the bytes of the source and the NUL arrive, every other byte is kept.\<close>

lemma cstr_nth: "cstr m p xs \<Longrightarrow> i < length xs \<Longrightarrow> load8 m (p + of_nat i) = xs ! i"
  by (induction xs arbitrary: p i) (auto simp: nth_Cons add.assoc [symmetric] split: nat.split)

lemma cstr_end: "cstr m p xs \<Longrightarrow> load8 m (p + of_nat (length xs)) = 0"
  by (induction xs arbitrary: p) (auto simp: add.assoc [symmetric])

lemma cstr_nonzero: "cstr m p xs \<Longrightarrow> x \<in> set xs \<Longrightarrow> x \<noteq> 0"
  by (induction xs arbitrary: p) auto

lemma cstrI:
  assumes "\<And>x. x \<in> set xs \<Longrightarrow> x \<noteq> 0"
    and "\<And>i. i < length xs \<Longrightarrow> load8 m (p + of_nat i) = xs ! i"
    and "load8 m (p + of_nat (length xs)) = 0"
  shows "cstr m p xs"
  using assms
proof (induction xs arbitrary: p)
  case Nil
  then show ?case by simp
next
  case (Cons x xs)
  have "cstr m (p + 1) xs"
  proof (rule Cons.IH)
    show "y \<in> set xs \<Longrightarrow> y \<noteq> 0" for y using Cons.prems(1) by simp
    show "i < length xs \<Longrightarrow> load8 m (p + 1 + of_nat i) = xs ! i" for i
      using Cons.prems(2) [of "Suc i"] by (simp add: algebra_simps)
    show "load8 m (p + 1 + of_nat (length xs)) = 0"
      using Cons.prems(3) by (simp add: algebra_simps)
  qed
  moreover have "load8 m p = x"
    using Cons.prems(2) [of 0] by simp
  moreover have "x \<noteq> 0"
    by (rule Cons.prems(1)) simp
  ultimately show ?case by simp
qed

lemma cstr_store_outside:
  assumes "cstr m p xs" and "\<And>i. i \<le> length xs \<Longrightarrow> p + of_nat i \<noteq> d"
  shows "cstr (store8 m d v) p xs"
  using assms
proof (induction xs arbitrary: p)
  case Nil
  then show ?case by (auto simp: load8_store8 dest: spec [of _ 0])
next
  case (Cons x xs)
  have "cstr (store8 m d v) (p + 1) xs"
    using Cons.prems Cons.prems(2) [of "Suc i" for i] by (intro Cons.IH) (auto simp: algebra_simps)
  with Cons.prems(1) Cons.prems(2) [of 0] show ?case by (auto simp: load8_store8)
qed

lemma strcpy_write_seq:
  assumes "cstr m s xs" and "\<And>i. 0 < i \<Longrightarrow> i \<le> length xs \<Longrightarrow> s + of_nat i \<noteq> d"
  shows "strcpy m d s = Some (write_seq store8 m d (xs @ [0]))"
  using assms
proof (induction xs arbitrary: m d s)
  case Nil
  then show ?case by (simp add: strcpy.simps)
next
  case (Cons x xs)
  let ?m = "store8 m d x"
  have tail: "cstr ?m (s + 1) xs"
    using Cons.prems Cons.prems(2) [of "Suc i" for i] by (intro cstr_store_outside) (auto simp: algebra_simps)
  have "strcpy ?m (d + 1) (s + 1) = Some (write_seq store8 ?m (d + 1) (xs @ [0]))"
    using Cons.prems(2) by (intro Cons.IH [OF tail]) (auto simp: algebra_simps)
  with Cons.prems(1) show ?case by (simp add: strcpy.simps [of m d])
qed

lemma strcpy_correct:
  assumes src: "cstr m src xs" and len: "length xs < 2 ^ 32 - 1"
    and apart: "length xs < unat (dest - src)" "length xs < unat (src - dest)"
  shows "\<exists>m'. strcpy m dest src = Some m' \<and> cstr m' dest xs \<and> cstr m' src xs \<and>
    (\<forall>a. length xs < unat (a - dest) \<longrightarrow> load8 m' a = load8 m a)"
proof -
  let ?m = "write_seq store8 m dest (xs @ [0])"
  have off: "unat (of_nat i :: u32) = i" if "i \<le> length xs" for i
    using that len by (simp add: unat_of_nat)
  have neq: "src + of_nat i \<noteq> dest" if "i \<le> length xs" for i
    using apart(1) off [OF that] that by auto
  have keep: "load8 ?m a = load8 m a" if "length xs < unat (a - dest)" for a
    using that by (simp add: cells.ld_write_seq_outside)
  have "cstr ?m dest xs"
    using len by (intro cstrI) (auto simp: cells.ld_write_seq off nth_append cstr_nonzero [OF src])
  moreover have "cstr ?m src xs"
  proof (rule cstrI)
    have far: "length xs < unat (src + of_nat i - dest)" if "i \<le> length xs" for i
    proof -
      have "unat (dest - src) = 2 ^ 32 - unat (src - dest)"
        using apart unat_sub_if' [of 0 "src - dest"] by simp
      then have "unat (src - dest) + i < 2 ^ 32"
        using apart that by linarith
      then have "unat (src - dest + of_nat i) = unat (src - dest) + i"
        using unat_add_small [of "src - dest" "of_nat i"] off [OF that] by simp
      then show ?thesis using apart by (simp add: algebra_simps)
    qed
    show "x \<noteq> 0" if "x \<in> set xs" for x using src that by (rule cstr_nonzero)
    show "load8 ?m (src + of_nat i) = xs ! i" if "i < length xs" for i
      using keep [OF far] cstr_nth [OF src] that by simp
    show "load8 ?m (src + of_nat (length xs)) = 0"
      using keep [OF far] cstr_end [OF src] by simp
  qed
  ultimately show ?thesis
    using strcpy_write_seq [OF src] neq keep by auto
qed

section \<open>Properties\<close>

text \<open>\<open>memcpy\<close> moves the bytes of the source to the destination and changes no other byte, when the
  destination does not begin inside the source; \<open>memset\<close> fills exactly the bytes it is given.\<close>

lemma memcpy_memset_bytes:
  assumes "dest = src \<or> unat len \<le> unat (dest - src)"
  shows "load8 (memcpy m dest src len) a =
      (if unat (a - dest) < unat len then load8 m (src + (a - dest)) else load8 m a) \<and>
    load8 (memset m dest val len) a = (if unat (a - dest) < unat len then val else load8 m a)"
  using memcpy_correct [OF assms] memset_correct by blast

text \<open>C31. On two strings \<open>strcmp\<close> returns, and it returns 0 exactly when they have the same length and agree
  in all characters but the last: the loop steps over the differing characters before it tests for the end.\<close>

theorem strcmp_zero:
  assumes "cstr m p xs" and "cstr m q ys"
  shows "\<exists>r. strcmp m p q = Some r \<and> (r = 0 \<longleftrightarrow> length xs = length ys \<and> butlast xs = butlast ys)"
  using strcmp_strcmp_seq [OF assms] strcmp_seq_zero by blast

theorem strcmp_zero_witness:
  "\<exists>r. strcmp (\<lambda>a. if a < 0x200 then 0x61 else 0x62) 0x100 0x200 = Some r \<and> r = 0"
proof -
  have "cstr (\<lambda>a. if a < 0x200 then 0x61 else 0x62) 0x100 [0x61]" "cstr (\<lambda>a. if a < 0x200 then 0x61 else 0x62) 0x200 [0x62]"
    by (simp_all add: load8_def lane_def cell_of_def)
  from strcmp_zero [OF this] show ?thesis by simp
qed

text \<open>\<open>strcpy\<close> returns and leaves a copy of the source string at the destination, keeps the source,
  and changes no byte outside the destination, when the two do not overlap.\<close>

lemma strcpy_copies:
  assumes "cstr m src xs" and "length xs < 2 ^ 32 - 1"
    and "length xs < unat (dest - src)" and "length xs < unat (src - dest)"
  shows "\<exists>m'. strcpy m dest src = Some m' \<and> cstr m' dest xs \<and> cstr m' src xs \<and>
    strlen m' dest = Some (of_nat (length xs)) \<and>
    (\<forall>a. length xs < unat (a - dest) \<longrightarrow> load8 m' a = load8 m a)"
  using strcpy_correct [OF assms] strlen_correct by blast

end
