(* ===== verification/KList.thy ===== *)
theory KList
  imports Common
begin

text \<open>
  list.c: the Amiga-style doubly linked lists. A node at \<open>n\<close> has its \<open>next\<close> link in cell
  \<open>n\<close>, its \<open>prev\<close> link in cell \<open>n + 4\<close> and its priority in cell \<open>n + 12\<close>. A list header
  at \<open>L\<close> has \<open>head\<close> in cell \<open>L\<close>, \<open>tail\<close> (always NULL) in \<open>L + 4\<close> and \<open>tailPrev\<close>
  in \<open>L + 8\<close>; the code reads the header as two overlapping sentinel nodes, one at \<open>L\<close> whose
  \<open>prev\<close> is \<open>tail\<close>, one at \<open>L + 4\<close> whose \<open>next\<close> is \<open>tail\<close>.

  \<open>dll m L ns\<close> says that the header at \<open>L\<close> and the nodes \<open>ns\<close>, in this order, form such a
  list in memory \<open>m\<close>. Each operation is the corresponding operation on the sequence \<open>ns\<close> and
  writes only link cells of the list (\<open>foot\<close>).
\<close>

section \<open>The operations\<close>

definition add_head :: "cells \<Rightarrow> u32 \<Rightarrow> u32 \<Rightarrow> cells" where
  "add_head m list node =
    (let m = m(node := m list);
         m = m(node + 4 := list);
         m = m(m list + 4 := node)
     in m(list := node))"

definition add_tail :: "cells \<Rightarrow> u32 \<Rightarrow> u32 \<Rightarrow> cells" where
  "add_tail m list node =
    (let m = m(node := list + 4);
         m = m(node + 4 := m (list + 8));
         m = m(m (list + 8) := node)
     in m(list + 8 := node))"

definition remove_head :: "cells \<Rightarrow> u32 \<Rightarrow> u32 \<times> cells" where
  "remove_head m list =
    (let node = m (m list)
     in if node \<noteq> 0
        then (let m = m(node + 4 := list);
                  node = m list
              in (node, m(list := m node)))
        else (node, m))"

definition remove_node :: "cells \<Rightarrow> u32 \<Rightarrow> cells" where
  "remove_node m node =
    (let m = m(m (node + 4) := m node)
     in m(m node + 4 := m (node + 4)))"

definition remove_tail :: "cells \<Rightarrow> u32 \<Rightarrow> u32 \<times> cells" where
  "remove_tail m list =
    (let node = m (list + 8)
     in if node \<noteq> 0
        then (let m = m(m (node + 4) := m node)
              in (node, m(m node + 4 := m (node + 4))))
        else (node, m))"

definition new_list :: "cells \<Rightarrow> u32 \<Rightarrow> cells" where
  "new_list m list =
    (let m = m(list := list + 4);
         m = m(list + 4 := 0)
     in m(list + 8 := list))"

definition get_next :: "cells \<Rightarrow> u32 \<Rightarrow> u32" where
  "get_next m node = (if node \<noteq> 0 \<and> m node \<noteq> 0 \<and> m (m node) \<noteq> 0 then m node else 0)"

definition get_prev :: "cells \<Rightarrow> u32 \<Rightarrow> u32" where
  "get_prev m node =
    (if node \<noteq> 0 \<and> m (node + 4) \<noteq> 0 \<and> m (m (node + 4) + 4) \<noteq> 0 then m node else 0)"

definition get_head :: "cells \<Rightarrow> u32 \<Rightarrow> u32" where
  "get_head m list = (if list \<noteq> 0 \<and> m (m list) \<noteq> 0 then m list else 0)"

definition get_tail :: "cells \<Rightarrow> u32 \<Rightarrow> u32" where
  "get_tail m list = (if list \<noteq> 0 \<and> m (m list) \<noteq> 0 then m (list + 8) else 0)"

definition node_pri :: "cells \<Rightarrow> u32 \<Rightarrow> int" where
  "node_pri m node = sint (m (node + 12))"

text \<open>
  \<open>enqueue\<close>: the loop looks for the first node of lower priority (the priority is a signed
  integer); without one the node goes to the end.
\<close>

definition insert_before :: "cells \<Rightarrow> u32 \<Rightarrow> u32 \<Rightarrow> cells" where
  "insert_before m node next =
    (let m = m(node := next);
         m = m(node + 4 := m (next + 4));
         m = m(m (next + 4) := node)
     in m(next + 4 := node))"

partial_function (option) enqueue_loop :: "cells \<Rightarrow> u32 \<Rightarrow> u32 \<Rightarrow> u32 \<Rightarrow> cells option" where
  "enqueue_loop m list node next =
    (if next \<noteq> 0
     then (if node_pri m node > node_pri m next then Some (insert_before m node next)
           else enqueue_loop m list node (get_next m next))
     else Some (add_tail m list node))"

definition enqueue :: "cells \<Rightarrow> u32 \<Rightarrow> u32 \<Rightarrow> cells option" where
  "enqueue m list node = enqueue_loop m list node (get_head m list)"

section \<open>Linked sequences\<close>

fun links :: "cells \<Rightarrow> u32 list \<Rightarrow> bool" where
  "links m (a # b # xs) \<longleftrightarrow> m a = b \<and> m (b + 4) = a \<and> links m (b # xs)"
| "links m [a] \<longleftrightarrow> True"
| "links m [] \<longleftrightarrow> True"

definition foot :: "u32 \<Rightarrow> u32 list \<Rightarrow> u32 list" where
  "foot list ns = list # (list + 4) # (list + 8) # ns @ map (\<lambda>n. n + 4) ns"

definition dll :: "cells \<Rightarrow> u32 \<Rightarrow> u32 list \<Rightarrow> bool" where
  "dll m list ns \<longleftrightarrow> links m (list # ns @ [list + 4]) \<and> m (list + 4) = 0 \<and>
     distinct (foot list ns) \<and> 0 \<notin> set (foot list ns) \<and> (\<forall>a \<in> set (list # ns). aligned a)"

lemma links_append: "links m (xs @ a # ys) \<longleftrightarrow> links m (xs @ [a]) \<and> links m (a # ys)"
proof (induction xs)
  case Nil
  then show ?case by simp
next
  case (Cons x xs)
  then show ?case by (cases xs) auto
qed

lemma links_frame:
  assumes "\<And>a. a \<in> set (butlast xs) \<Longrightarrow> m' a = m a" and "\<And>b. b \<in> set (tl xs) \<Longrightarrow> m' (b + 4) = m (b + 4)"
  shows "links m' xs = links m xs"
  using assms by (induction m xs rule: links.induct) auto

lemma dll_links: "dll m list ns \<Longrightarrow> links m (list # ns @ [list + 4])"
  by (simp add: dll_def)

text \<open>The neighbours of a position: \<open>a\<close> is the node or header before it, \<open>b\<close> the one after.\<close>

lemma dll_split:
  assumes "dll m list (xs @ ys)"
  shows "m (last (list # xs)) = hd (ys @ [list + 4])"
    and "m (hd (ys @ [list + 4]) + 4) = last (list # xs)"
proof -
  obtain us a where us: "list # xs = us @ [a]" by (metis append_butlast_last_id list.distinct(1))
  obtain b vs where vs: "ys @ [list + 4] = b # vs" by (cases ys) auto
  have "list # (xs @ ys) @ [list + 4] = us @ a # b # vs"
    using us vs by (metis append.assoc append_Cons append_Nil)
  then have "links m (a # b # vs)"
    using dll_links [OF assms] links_append [of m us a "b # vs"] by metis
  then show "m (last (list # xs)) = hd (ys @ [list + 4])" "m (hd (ys @ [list + 4]) + 4) = last (list # xs)"
    unfolding us vs by simp_all
qed

lemma set_foot: "set (foot list ns) = {list, list + 4, list + 8} \<union> set ns \<union> (\<lambda>n. n + 4) ` set ns"
  by (auto simp: foot_def)

lemma distinct_header_nodes:
  assumes "inj f" and "l \<noteq> f l" and "l \<noteq> f (f l)"
  shows "distinct (l # f l # f (f l) # ns @ map f ns) \<longleftrightarrow> distinct ns \<and>
   (\<forall>n \<in> set ns. f n \<notin> set ns \<and> n \<noteq> l \<and> n \<noteq> f l \<and> n \<noteq> f (f l) \<and> f n \<noteq> l \<and> f n \<noteq> f (f l))"
proof -
  have "inj_on f (set ns)" using assms(1) by (rule inj_on_subset) simp
  moreover have "f l \<noteq> f (f l)" using assms by (simp add: inj_eq)
  moreover have im: "x \<in> f ` set ns \<longleftrightarrow> (\<exists>n\<in>set ns. x = f n)" for x by blast
  moreover have "f l = f n \<longleftrightarrow> l = n" "f (f l) = f n \<longleftrightarrow> f l = n" for n using assms(1) by (simp_all add: inj_eq)
  ultimately show ?thesis
    using assms(2,3) by (simp add: distinct_map disjoint_iff im) (intro iffI; elim conjE; intro conjI ballI allI impI notI; metis)
qed

lemma distinct_foot: "distinct (foot list ns) \<longleftrightarrow> distinct ns \<and>
   (\<forall>n \<in> set ns. n + 4 \<notin> set ns \<and> n \<noteq> list \<and> n \<noteq> list + 4 \<and> n \<noteq> list + 8 \<and>
      n + 4 \<noteq> list \<and> n + 4 \<noteq> list + 8)"
  using distinct_header_nodes [of "\<lambda>n. n + 4" list ns] by (simp add: foot_def add.assoc)

lemma foot_sep:
  assumes "distinct (foot list ns)" and "x \<in> insert list (set ns)" and "y \<in> insert (list + 4) (set ns)"
  shows "x \<noteq> y + 4"
proof -
  have "\<forall>n \<in> set ns. n + 4 \<notin> set ns \<and> n \<noteq> list + 8 \<and> n + 4 \<noteq> list"
    using assms(1) by (simp add: distinct_foot)
  moreover have "list \<noteq> list + 4 + 4" "list + 4 + 4 = list + 8" by simp_all
  ultimately show ?thesis
    using assms(2,3) by (metis insert_iff)
qed

lemma set_snoc_eq: "xs = us @ [a] \<Longrightarrow> set us \<union> {a} = set xs"
  by simp

lemma set_Cons_eq: "xs = b # vs \<Longrightarrow> set vs \<union> {b} = set xs"
  by simp

text \<open>Splicing a node in between two neighbours, and cutting one out.\<close>

definition link_in :: "cells \<Rightarrow> u32 \<Rightarrow> u32 \<Rightarrow> u32 \<Rightarrow> cells" where
  "link_in m a n b = m(n := b, n + 4 := a, a := n, b + 4 := n)"

definition fresh :: "u32 \<Rightarrow> u32 list \<Rightarrow> u32 \<Rightarrow> bool" where
  "fresh list ns n \<longleftrightarrow> n \<notin> set (foot list ns) \<and> n + 4 \<notin> set (foot list ns) \<and>
     n \<noteq> 0 \<and> n + 4 \<noteq> 0 \<and> aligned n"

lemma dll_link_in:
  assumes dll: "dll m list (xs @ ys)" and fresh: "fresh list (xs @ ys) n"
    and a: "a = last (list # xs)" and b: "b = hd (ys @ [list + 4])"
  shows "dll (link_in m a n b) list (xs @ n # ys)"
proof -
  let ?m = "link_in m a n b"
  obtain us where us: "list # xs = us @ [a]" using a by (metis append_butlast_last_id list.distinct(1))
  obtain vs where vs: "ys @ [list + 4] = b # vs" using b by (cases ys) auto
  have seq: "list # (xs @ ys) @ [list + 4] = us @ a # b # vs"
    using us vs by (metis append.assoc append_Cons append_Nil)
  have seq': "list # (xs @ n # ys) @ [list + 4] = us @ a # n # b # vs"
    using us vs by (metis append.assoc append_Cons append_Nil)
  have P: "distinct (xs @ ys)" "list + 4 \<notin> set xs \<union> set ys" "list \<notin> set xs \<union> set ys"
    using dll by (auto simp: dll_def distinct_foot)
  have us': "set us \<union> {a} = insert list (set xs)" "distinct (us @ [a])" "tl (us @ [a]) = xs"
    using P set_snoc_eq [OF us] unfolding us [symmetric] by simp_all
  have vs': "set vs \<union> {b} = insert (list + 4) (set ys)" "distinct (b # vs)" "butlast (b # vs) = ys"
    using P set_Cons_eq [OF vs] unfolding vs [symmetric] by simp_all
  have nxt: "x \<noteq> n \<and> x \<noteq> n + 4" and prv: "y + 4 \<noteq> n \<and> y \<noteq> n" and sep: "x \<noteq> y + 4"
    if "x \<in> insert list (set xs \<union> set ys)" "y \<in> insert (list + 4) (set xs \<union> set ys)" for x y
  proof -
    have D: "distinct (foot list (xs @ ys))" using dll by (simp add: dll_def)
    have F: "n \<notin> set (foot list (xs @ ys))" "n + 4 \<notin> set (foot list (xs @ ys))"
      using fresh by (simp_all add: fresh_def)
    show "x \<noteq> n \<and> x \<noteq> n + 4" using F that(1) by (auto simp: set_foot)
    show "y + 4 \<noteq> n \<and> y \<noteq> n" using F that(2) by (auto simp: set_foot)
    show "x \<noteq> y + 4" using D that by (rule_tac foot_sep) auto
  qed
  have ab: "a \<in> insert list (set xs)" "b \<in> insert (list + 4) (set ys)" "a \<notin> set us" "b \<notin> set vs"
    using us' vs' by auto
  have "links ?m (us @ a # n # b # vs) \<longleftrightarrow> links ?m (us @ [a]) \<and> ?m a = n \<and> ?m (n + 4) = a \<and>
      ?m n = b \<and> ?m (b + 4) = n \<and> links ?m (b # vs)"
    by (subst links_append) auto
  moreover have "links ?m (us @ [a]) = links m (us @ [a])"
  proof (rule links_frame)
    fix c assume "c \<in> set (butlast (us @ [a]))"
    then have c: "c \<in> set us" by simp
    then have "c \<in> insert list (set xs)" using us' by auto
    with c ab show "?m c = m c"
      using nxt [of c "list + 4"] sep [of c b] by (auto simp: link_in_def)
  next
    fix d assume "d \<in> set (tl (us @ [a]))"
    then have d: "d \<in> set xs" using us' by simp
    moreover have "d \<noteq> b" using d ab P by auto
    ultimately show "?m (d + 4) = m (d + 4)"
      using prv [of list d] sep [of a d] ab by (auto simp: link_in_def)
  qed
  moreover have "links ?m (b # vs) = links m (b # vs)"
  proof (rule links_frame)
    fix c assume "c \<in> set (butlast (b # vs))"
    then have c: "c \<in> set ys" using vs' by simp
    moreover have "c \<noteq> a" using c ab P by auto
    ultimately show "?m c = m c"
      using nxt [of c "list + 4"] sep [of c b] ab by (auto simp: link_in_def)
  next
    fix d assume "d \<in> set (tl (b # vs))"
    then have d: "d \<in> insert (list + 4) (set ys)" "d \<noteq> b" using vs' by auto
    then show "?m (d + 4) = m (d + 4)"
      using prv [of list d] sep [of a d] ab by (auto simp: link_in_def)
  qed
  moreover have "links m (us @ a # b # vs)" using dll_links [OF dll] seq by simp
  then have "links m (us @ [a])" "links m (b # vs)"
    using links_append [of m us a "b # vs"] by simp_all
  moreover have "?m a = n" "?m (n + 4) = a" "?m n = b" "?m (b + 4) = n"
    using nxt [of a b] prv [of a b] sep [of a b] ab by (auto simp: link_in_def)
  ultimately have "links ?m (list # (xs @ n # ys) @ [list + 4])"
    unfolding seq' by simp
  moreover have "?m (list + 4) = 0"
  proof -
    have "list + 4 \<noteq> n" "list + 4 \<noteq> n + 4" "list + 4 \<noteq> a" "list + 4 \<noteq> b + 4"
      using fresh P ab sep [of b] nxt [of list] by (auto simp: fresh_def set_foot)
    then show ?thesis using dll by (simp add: link_in_def dll_def)
  qed
  moreover have "distinct (foot list (xs @ n # ys))" "0 \<notin> set (foot list (xs @ n # ys))"
    "\<forall>x \<in> set (list # xs @ n # ys). aligned x"
    using dll fresh unfolding dll_def fresh_def by (auto simp: foot_def)
  ultimately show ?thesis unfolding dll_def by simp
qed

lemma link_in_frame:
  assumes "a \<in> insert list (set ns)" and "b \<in> insert (list + 4) (set ns)" and "c \<notin> set (foot list (n # ns))"
  shows "link_in m a n b c = m c"
proof -
  have "c \<noteq> n" "c \<noteq> n + 4" "c \<noteq> a" using assms(1,3) by (auto simp: set_foot)
  moreover have "c \<noteq> b + 4"
    using assms(2,3) by (auto simp: set_foot add.assoc)
  ultimately show ?thesis by (simp add: link_in_def)
qed

definition unlink :: "cells \<Rightarrow> u32 \<Rightarrow> u32 \<Rightarrow> cells" where
  "unlink m a b = m(a := b, b + 4 := a)"

lemma dll_unlink:
  assumes dll: "dll m list (xs @ n # ys)" and a: "a = last (list # xs)" and b: "b = hd (ys @ [list + 4])"
  shows "dll (unlink m a b) list (xs @ ys)"
proof -
  let ?m = "unlink m a b"
  obtain us where us: "list # xs = us @ [a]" using a by (metis append_butlast_last_id list.distinct(1))
  obtain vs where vs: "ys @ [list + 4] = b # vs" using b by (cases ys) auto
  have seq: "list # (xs @ n # ys) @ [list + 4] = us @ a # n # b # vs"
    using us vs by (metis append.assoc append_Cons append_Nil)
  have seq': "list # (xs @ ys) @ [list + 4] = us @ a # b # vs"
    using us vs by (metis append.assoc append_Cons append_Nil)
  have D: "distinct (foot list (xs @ n # ys))" using dll by (simp add: dll_def)
  then have P: "distinct (xs @ ys)" "list + 4 \<notin> set xs \<union> set ys" "list \<notin> set xs \<union> set ys"
    by (auto simp: distinct_foot)
  have us': "set us \<union> {a} = insert list (set xs)" "distinct (us @ [a])" "tl (us @ [a]) = xs"
    using P set_snoc_eq [OF us] unfolding us [symmetric] by simp_all
  have vs': "set vs \<union> {b} = insert (list + 4) (set ys)" "distinct (b # vs)" "butlast (b # vs) = ys"
    using P set_Cons_eq [OF vs] unfolding vs [symmetric] by simp_all
  have sep: "x \<noteq> y + 4" if "x \<in> insert list (set xs \<union> set ys)" "y \<in> insert (list + 4) (set xs \<union> set ys)" for x y
    using D that by (rule_tac foot_sep) auto
  have ab: "a \<in> insert list (set xs)" "b \<in> insert (list + 4) (set ys)" "a \<notin> set us" "b \<notin> set vs"
    using us' vs' by auto
  have "links ?m (us @ a # b # vs) \<longleftrightarrow> links ?m (us @ [a]) \<and> ?m a = b \<and> ?m (b + 4) = a \<and> links ?m (b # vs)"
    by (subst links_append) auto
  moreover have "links ?m (us @ [a]) = links m (us @ [a])"
  proof (rule links_frame)
    fix c assume "c \<in> set (butlast (us @ [a]))"
    then have c: "c \<in> set us" by simp
    then have "c \<in> insert list (set xs)" using us' by auto
    with c ab show "?m c = m c"
      using sep [of c b] by (auto simp: unlink_def)
  next
    fix d assume "d \<in> set (tl (us @ [a]))"
    then have d: "d \<in> set xs" using us' by simp
    moreover have "d \<noteq> b" using d ab P by auto
    ultimately show "?m (d + 4) = m (d + 4)"
      using sep [of a d] ab by (auto simp: unlink_def)
  qed
  moreover have "links ?m (b # vs) = links m (b # vs)"
  proof (rule links_frame)
    fix c assume "c \<in> set (butlast (b # vs))"
    then have c: "c \<in> set ys" using vs' by simp
    moreover have "c \<noteq> a" using c ab P by auto
    ultimately show "?m c = m c"
      using sep [of c b] ab by (auto simp: unlink_def)
  next
    fix d assume "d \<in> set (tl (b # vs))"
    then have d: "d \<in> insert (list + 4) (set ys)" "d \<noteq> b" using vs' by auto
    then show "?m (d + 4) = m (d + 4)"
      using sep [of a d] ab by (auto simp: unlink_def)
  qed
  moreover have "links m (us @ a # n # b # vs)" using dll_links [OF dll] seq by simp
  then have "links m (us @ [a])" "links m (b # vs)"
    using links_append [of m us a "n # b # vs"] by simp_all
  moreover have "?m a = b" "?m (b + 4) = a"
    using sep [of a b] ab by (auto simp: unlink_def)
  ultimately have "links ?m (list # (xs @ ys) @ [list + 4])"
    unfolding seq' by simp
  moreover have "?m (list + 4) = 0"
  proof -
    have "list + 4 \<noteq> a" "list + 4 \<noteq> b + 4"
      using P ab by auto
    then show ?thesis using dll by (simp add: unlink_def dll_def)
  qed
  moreover have "distinct (foot list (xs @ ys))" "0 \<notin> set (foot list (xs @ ys))"
    "\<forall>x \<in> set (list # xs @ ys). aligned x"
    using dll unfolding dll_def by (auto simp: foot_def)
  ultimately show ?thesis unfolding dll_def by simp
qed

lemma unlink_frame:
  assumes "a \<in> insert list (set ns)" and "b \<in> insert (list + 4) (set ns)" and "c \<notin> set (foot list ns)"
  shows "unlink m a b c = m c"
proof -
  have "c \<noteq> a" using assms(1,3) by (auto simp: set_foot)
  moreover have "c \<noteq> b + 4"
    using assms(2,3) by (auto simp: set_foot add.assoc)
  ultimately show ?thesis by (simp add: unlink_def)
qed

section \<open>The operations on sequences\<close>

text \<open>Memory that agrees on the link cells has the same list.\<close>

lemma dll_frame:
  assumes "dll m list ns" and "\<And>k. k \<in> set (foot list ns) \<Longrightarrow> m' k = m k"
  shows "dll m' list ns"
proof -
  have "links m' (list # ns @ [list + 4]) = links m (list # ns @ [list + 4])"
  proof (rule links_frame)
    fix a assume "a \<in> set (butlast (list # ns @ [list + 4]))"
    then have "a \<in> insert list (set ns)" by (simp add: butlast_append)
    then show "m' a = m a" using assms(2) by (auto simp: set_foot)
  next
    fix b assume "b \<in> set (tl (list # ns @ [list + 4]))"
    then have "b \<in> insert (list + 4) (set ns)" by simp
    then show "m' (b + 4) = m (b + 4)" using assms(2) [of "b + 4"] by (auto simp: set_foot add.assoc)
  qed
  moreover have "m' (list + 4) = m (list + 4)" using assms(2) by (simp add: set_foot)
  ultimately show ?thesis using assms(1) by (simp add: dll_def)
qed

lemma dll_facts:
  assumes "dll m list ns"
  shows "m (list + 4) = 0" "list \<noteq> 0" "list + 4 \<noteq> 0" "distinct ns" "0 \<notin> set ns" "list \<notin> set ns" "list + 4 \<notin> set ns"
  using assms by (auto simp: dll_def distinct_foot set_foot)

lemma dll_next:
  assumes "dll m list (xs @ n # ys)"
  shows "m n = hd (ys @ [list + 4])" and "m (n + 4) = last (list # xs)"
proof -
  show "m n = hd (ys @ [list + 4])" using dll_split(1) [of m list "xs @ [n]" ys] assms by simp
  show "m (n + 4) = last (list # xs)" using dll_split(2) [of m list xs "n # ys"] assms by simp
qed

lemma dll_first: "dll m list ns \<Longrightarrow> m list = hd (ns @ [list + 4])"
  using dll_split(1) [of m list "[]" ns] by simp

lemma dll_last: "dll m list ns \<Longrightarrow> m (list + 8) = last (list # ns)"
  using dll_split(2) [of m list ns "[]"] by (simp add: add.assoc)

lemma hd_sentinel_nonzero: "dll m list (xs @ ys) \<Longrightarrow> hd (ys @ [list + 4]) \<noteq> 0"
  using dll_facts [of m list "xs @ ys"] by (cases ys) auto

lemma hd_sentinel_in: "hd (ys @ [list + 4]) \<in> insert (list + 4) (set ys)"
  by (cases ys) auto

lemma last_header_in: "last (list # xs) \<in> insert list (set xs)"
  by auto

lemma fresh_neqs:
  assumes "fresh list ns n"
  shows "list \<noteq> n" "list \<noteq> n + 4" "list + 8 \<noteq> n" "list + 8 \<noteq> n + 4"
  using assms by (auto simp: fresh_def set_foot)

lemma new_list_dll:
  assumes "aligned list" and "0 \<notin> {list, list + 4, list + 8}"
  shows "dll (new_list m list) list []"
  using assms by (simp add: dll_def new_list_def foot_def Let_def add.assoc)

lemma add_head_link_in:
  assumes dll: "dll m list ns" and fresh: "fresh list ns n"
  shows "add_head m list n = link_in m list n (hd (ns @ [list + 4]))"
proof -
  have "list \<noteq> hd (ns @ [list + 4]) + 4"
    using dll hd_sentinel_in [of ns list] by (intro foot_sep [of list ns]) (auto simp: dll_def)
  then show ?thesis
    using fresh_neqs [OF fresh] dll_first [OF dll] by (simp add: add_head_def link_in_def fun_upd_twist)
qed

lemma add_tail_link_in:
  assumes dll: "dll m list ns" and fresh: "fresh list ns n"
  shows "add_tail m list n = link_in m (last (list # ns)) n (list + 4)"
  using fresh_neqs [OF fresh] dll_last [OF dll]
  by (simp add: add_tail_def link_in_def add.assoc)

lemma add_head_dll: "dll m list ns \<Longrightarrow> fresh list ns n \<Longrightarrow> dll (add_head m list n) list (n # ns)"
  using dll_link_in [of m list "[]" ns n list] by (simp add: add_head_link_in)

lemma add_tail_dll: "dll m list ns \<Longrightarrow> fresh list ns n \<Longrightarrow> dll (add_tail m list n) list (ns @ [n])"
  using dll_link_in [of m list ns "[]" n "last (list # ns)"] by (simp add: add_tail_link_in)

lemma add_head_frame:
  "dll m list ns \<Longrightarrow> fresh list ns n \<Longrightarrow> c \<notin> set (foot list (n # ns)) \<Longrightarrow> add_head m list n c = m c"
  unfolding add_head_link_in using hd_sentinel_in by (intro link_in_frame) auto

lemma add_tail_frame:
  "dll m list ns \<Longrightarrow> fresh list ns n \<Longrightarrow> c \<notin> set (foot list (n # ns)) \<Longrightarrow> add_tail m list n c = m c"
  using link_in_frame [OF last_header_in, of "list + 4" list ns c n m]
  by (simp add: add_tail_link_in del: last.simps)

lemma remove_node_unlink:
  assumes dll: "dll m list (xs @ n # ys)"
  shows "remove_node m n = unlink m (last (list # xs)) (hd (ys @ [list + 4]))"
proof -
  have "n \<noteq> last (list # xs)" "n + 4 \<noteq> last (list # xs)"
    using dll last_header_in [of list xs] foot_sep [of list "xs @ n # ys" "last (list # xs)" n]
    by (auto simp: dll_def distinct_foot simp del: last.simps)
  then show ?thesis
    using dll_next [OF dll] by (simp add: remove_node_def unlink_def)
qed

lemma remove_node_dll: "dll m list (xs @ n # ys) \<Longrightarrow> dll (remove_node m n) list (xs @ ys)"
  using dll_unlink [of m list xs n ys] by (simp add: remove_node_unlink)

lemma remove_node_frame:
  assumes "dll m list (xs @ n # ys)" and "c \<notin> set (foot list (xs @ ys))"
  shows "remove_node m n c = m c"
  using assms last_header_in [of list xs] hd_sentinel_in [of ys list]
  unfolding remove_node_unlink [OF assms(1)]
  by (intro unlink_frame [where list = list and ns = "xs @ ys"]) auto

lemma remove_head_dll:
  assumes dll: "dll m list (n # ns)"
  shows "remove_head m list = (n, remove_node m n)" "dll (remove_node m n) list ns"
proof -
  have first: "m list = n" "m n = hd (ns @ [list + 4])" "hd (ns @ [list + 4]) \<noteq> 0"
    using dll_first [OF dll] dll_next [of m list "[]" n ns] hd_sentinel_nonzero [of m list "[n]" ns] dll by simp_all
  have neq: "list \<noteq> hd (ns @ [list + 4]) + 4" "n \<noteq> hd (ns @ [list + 4]) + 4"
    using dll hd_sentinel_in [of ns list] by (intro foot_sep [of list "n # ns"]; auto simp: dll_def)+
  show "remove_head m list = (n, remove_node m n)"
    using remove_node_unlink [of m list "[]" n ns] dll first neq
    by (simp add: remove_head_def unlink_def fun_upd_twist Let_def)
  show "dll (remove_node m n) list ns"
    using remove_node_dll [of m list "[]" n ns] dll by simp
qed

lemma remove_head_empty: "dll m list [] \<Longrightarrow> remove_head m list = (0, m)"
  using dll_first [of m list "[]"] dll_facts(1) [of m list "[]"] by (simp add: remove_head_def)

lemma remove_tail_dll:
  assumes dll: "dll m list (ns @ [n])"
  shows "remove_tail m list = (n, remove_node m n)" "dll (remove_node m n) list ns"
proof -
  have "m (list + 8) = n" "n \<noteq> 0"
    using dll_last [OF dll] dll_facts [OF dll] by auto
  then show "remove_tail m list = (n, remove_node m n)"
    by (simp add: remove_tail_def remove_node_def)
  show "dll (remove_node m n) list ns"
    using remove_node_dll [of m list ns n "[]"] dll by simp
qed

lemma get_head_dll: "dll m list ns \<Longrightarrow> get_head m list = (case ns of [] \<Rightarrow> 0 | n # _ \<Rightarrow> n)"
  using dll_first [of m list ns] dll_facts [of m list ns] dll_next(1) [of m list "[]"] hd_sentinel_nonzero [of m list "[hd ns]" "tl ns"]
  by (cases ns) (auto simp: get_head_def)

lemma get_tail_dll: "dll m list ns \<Longrightarrow> get_tail m list = (case ns of [] \<Rightarrow> 0 | n # _ \<Rightarrow> last ns)"
  using dll_first [of m list ns] dll_facts [of m list ns] dll_next(1) [of m list "[]"] hd_sentinel_nonzero [of m list "[hd ns]" "tl ns"]
    dll_last [of m list ns]
  by (cases ns) (auto simp: get_tail_def)

lemma get_next_dll:
  assumes dll: "dll m list (xs @ n # ys)"
  shows "get_next m n = (case ys of [] \<Rightarrow> 0 | y # _ \<Rightarrow> y)"
proof (cases ys)
  case Nil
  then show ?thesis using dll_next(1) [OF dll] dll_facts [OF dll] by (auto simp: get_next_def)
next
  case (Cons y zs)
  then have "m y = hd (zs @ [list + 4])" "m y \<noteq> 0"
    using dll_next(1) [of m list "xs @ [n]" y zs] hd_sentinel_nonzero [of m list "xs @ [n, y]" zs] dll by simp_all
  then show ?thesis using Cons dll_next(1) [OF dll] dll_facts [OF dll] by (auto simp: get_next_def)
qed

lemma get_prev_dll:
  assumes dll: "dll m list (xs @ n # ys)"
  shows "get_prev m n = (if xs = [] then 0 else hd (ys @ [list + 4]))"
proof -
  have n: "n \<noteq> 0" "list \<noteq> 0" "m (list + 4) = 0" using dll_facts [OF dll] by auto
  have l: "m n = hd (ys @ [list + 4])" "m (n + 4) = last (list # xs)" by (rule dll_next [OF dll])+
  have "m (last xs + 4) \<noteq> 0 \<and> last xs \<noteq> 0" if "xs \<noteq> []"
  proof -
    have xs: "xs = butlast xs @ [last xs]" using that by simp
    then have "dll m list (butlast xs @ last xs # n # ys)" using dll by (metis append_assoc append_Cons append_Nil)
    note d = dll_next(2) [OF this] dll_facts [OF this]
    have "last (list # butlast xs) \<noteq> 0" using d(3,6) last_header_in [of list "butlast xs"] by auto
    then show ?thesis using d(1,6) by auto
  qed
  then show ?thesis using n l by (simp add: get_prev_def)
qed

text \<open>In the empty list the header is its own last node.\<close>

lemma remove_tail_empty:
  assumes "dll m list []"
  shows "remove_tail m list = (list, m(0 := list + 4, list + 8 := 0))"
proof -
  have "m (list + 8) = list" "m list = list + 4" "m (list + 4) = 0" "list \<noteq> 0" "list + 4 \<noteq> 0"
    using dll_first [OF assms] dll_last [OF assms] dll_facts [OF assms] by simp_all
  then show ?thesis by (simp add: remove_tail_def Let_def add.assoc)
qed

section \<open>Insertion by priority\<close>

text \<open>What \<open>enqueue\<close> does to the sequence: the node goes before the first one of lower priority.\<close>

primrec ins_pri :: "('a \<Rightarrow> int) \<Rightarrow> 'a \<Rightarrow> 'a list \<Rightarrow> 'a list" where
  "ins_pri p n [] = [n]"
| "ins_pri p n (x # xs) = (if p n > p x then n # x # xs else x # ins_pri p n xs)"

lemma set_ins_pri [simp]: "set (ins_pri p n xs) = insert n (set xs)"
  by (induction xs) auto

lemma length_ins_pri [simp]: "length (ins_pri p n xs) = Suc (length xs)"
  by (induction xs) auto

lemma distinct_ins_pri [simp]: "distinct (ins_pri p n xs) \<longleftrightarrow> n \<notin> set xs \<and> distinct xs"
  by (induction xs) auto

definition by_pri :: "('a \<Rightarrow> int) \<Rightarrow> 'a list \<Rightarrow> bool" where
  "by_pri p xs \<longleftrightarrow> sorted_wrt (\<lambda>x y. p x \<ge> p y) xs"

lemma by_pri_ins_pri: "by_pri p xs \<Longrightarrow> by_pri p (ins_pri p n xs)"
  unfolding by_pri_def by (induction xs) auto

text \<open>Among nodes of one priority the newcomer is last.\<close>

lemma ins_pri_stable:
  "by_pri p xs \<Longrightarrow> filter (\<lambda>x. p x = k) (ins_pri p n xs) = filter (\<lambda>x. p x = k) (xs @ [n])"
  unfolding by_pri_def
proof (induction xs)
  case Nil
  then show ?case by simp
next
  case (Cons x xs)
  have "filter (\<lambda>z. p z = p n) xs = []" if "p x < p n"
    using that Cons.prems by (auto simp: filter_empty_conv)
  with Cons show ?case by auto
qed

lemma ins_pri_split:
  "\<exists>us vs. xs = us @ vs \<and> ins_pri p n xs = us @ n # vs \<and> (\<forall>u \<in> set us. p u \<ge> p n) \<and>
     (\<forall>v vs'. vs = v # vs' \<longrightarrow> p v < p n)"
proof (induction xs)
  case Nil
  then show ?case by simp
next
  case (Cons x xs)
  show ?case
  proof (cases "p n > p x")
    case True
    then show ?thesis by (intro exI [of _ "[]"] exI [of _ "x # xs"]) auto
  next
    case False
    obtain us vs where "xs = us @ vs" "ins_pri p n xs = us @ n # vs" "\<forall>u \<in> set us. p u \<ge> p n"
      "\<forall>v vs'. vs = v # vs' \<longrightarrow> p v < p n" using Cons.IH by blast
    with False show ?thesis by (intro exI [of _ "x # us"] exI [of _ vs]) auto
  qed
qed

lemma ins_pri_cong: "(\<And>x. x \<in> insert n (set xs) \<Longrightarrow> p x = q x) \<Longrightarrow> ins_pri p n xs = ins_pri q n xs"
  by (induction xs) auto

lemma insert_before_link_in:
  assumes dll: "dll m list (xs @ y # ys)" and fresh: "fresh list (xs @ y # ys) n"
  shows "insert_before m n y = link_in m (last (list # xs)) n y"
proof -
  have "y + 4 \<noteq> n" "y + 4 \<noteq> n + 4"
    using fresh by (auto simp: fresh_def set_foot)
  moreover have "last (list # xs) \<noteq> y + 4"
    using dll last_header_in [of list xs] by (intro foot_sep [of list "xs @ y # ys"]) (auto simp: dll_def)
  ultimately show ?thesis
    using dll_next(2) [OF dll] by (simp add: insert_before_def link_in_def Let_def)
qed

text \<open>The loop stands before the rest \<open>ys\<close> of the list when every node of \<open>xs\<close> was passed.\<close>

lemma enqueue_loop_dll:
  assumes dll: "dll m list (xs @ ys)" and fresh: "fresh list (xs @ ys) n"
  shows "\<exists>us vs. ys = us @ vs \<and> ins_pri (node_pri m) n ys = us @ n # vs \<and>
    enqueue_loop m list n (case ys of [] \<Rightarrow> 0 | y # _ \<Rightarrow> y) =
      Some (link_in m (last (list # xs @ us)) n (hd (vs @ [list + 4])))"
  using assms
proof (induction ys arbitrary: xs)
  case Nil
  then have "enqueue_loop m list n 0 = Some (link_in m (last (list # xs)) n (list + 4))"
    using add_tail_link_in [of m list xs n] by (simp add: enqueue_loop.simps)
  then show ?case by simp
next
  case (Cons y ys)
  have y: "y \<noteq> 0" using dll_facts(5) [OF Cons.prems(1)] by auto
  show ?case
  proof (cases "node_pri m n > node_pri m y")
    case True
    then have "enqueue_loop m list n y = Some (link_in m (last (list # xs)) n y)"
      using y insert_before_link_in [OF Cons.prems] by (simp add: enqueue_loop.simps [of m list n y])
    with True show ?thesis by (intro exI [of _ "[]"] exI [of _ "y # ys"]) simp
  next
    case False
    have next_y: "get_next m y = (case ys of [] \<Rightarrow> 0 | y # _ \<Rightarrow> y)"
      using get_next_dll [of m list xs y ys] Cons.prems(1) by simp
    obtain us vs where "ys = us @ vs" "ins_pri (node_pri m) n ys = us @ n # vs"
      "enqueue_loop m list n (get_next m y) =
        Some (link_in m (last (list # (xs @ [y]) @ us)) n (hd (vs @ [list + 4])))"
      using Cons.IH [of "xs @ [y]"] Cons.prems next_y by auto
    with False y show ?thesis
      by (intro exI [of _ "y # us"] exI [of _ vs]) (simp add: enqueue_loop.simps [of m list n y])
  qed
qed

lemma enqueue_dll:
  assumes dll: "dll m list ns" and fresh: "fresh list ns n"
  shows "\<exists>m'. enqueue m list n = Some m' \<and> dll m' list (ins_pri (node_pri m) n ns) \<and>
    (\<forall>c. c \<notin> set (foot list (n # ns)) \<longrightarrow> m' c = m c)"
proof -
  obtain us vs where ns: "ns = us @ vs" "ins_pri (node_pri m) n ns = us @ n # vs"
    and loop: "enqueue_loop m list n (case ns of [] \<Rightarrow> 0 | y # _ \<Rightarrow> y) =
      Some (link_in m (last (list # us)) n (hd (vs @ [list + 4])))"
    using enqueue_loop_dll [of m list "[]" ns n] dll fresh by auto
  let ?m = "link_in m (last (list # us)) n (hd (vs @ [list + 4]))"
  have "enqueue m list n = Some ?m"
    using loop by (simp add: enqueue_def get_head_dll [OF dll])
  moreover have "dll ?m list (ins_pri (node_pri m) n ns)"
    using dll_link_in [of m list us vs n] dll fresh ns by simp
  moreover have "?m c = m c" if "c \<notin> set (foot list (n # ns))" for c
    using last_header_in [of list us] hd_sentinel_in [of vs list] that ns(1)
    by (intro link_in_frame [where list = list and ns = ns]) (auto simp del: last.simps)
  ultimately show ?thesis by blast
qed

section \<open>Interfaces: a FIFO store and a priority store\<close>

primrec push_all :: "('m \<Rightarrow> 'a \<Rightarrow> 'm) \<Rightarrow> 'm \<Rightarrow> 'a list \<Rightarrow> 'm" where
  "push_all push m [] = m"
| "push_all push m (x # xs) = push_all push (push m x) xs"

primrec pop_many :: "('m \<Rightarrow> 'a \<times> 'm) \<Rightarrow> nat \<Rightarrow> 'm \<Rightarrow> 'a list \<times> 'm" where
  "pop_many pop 0 m = ([], m)"
| "pop_many pop (Suc k) m = (let (x, m) = pop m; (xs, m) = pop_many pop k m in (x # xs, m))"

primrec rooms :: "('a list \<Rightarrow> 'a \<Rightarrow> bool) \<Rightarrow> 'a list \<Rightarrow> 'a list \<Rightarrow> bool" where
  "rooms room ns [] \<longleftrightarrow> True"
| "rooms room ns (x # xs) \<longleftrightarrow> room ns x \<and> rooms room (x # ns) xs"

text \<open>A store to which elements are pushed at one end and from which they are taken at the other,
  as queue.c uses a list: \<open>rep m ns\<close> says that \<open>m\<close> holds the sequence \<open>ns\<close>, newest first.\<close>

locale fifo_store =
  fixes rep :: "'m \<Rightarrow> 'a list \<Rightarrow> bool"
    and room :: "'a list \<Rightarrow> 'a \<Rightarrow> bool"
    and push :: "'m \<Rightarrow> 'a \<Rightarrow> 'm"
    and pop :: "'m \<Rightarrow> 'a \<times> 'm"
  assumes push_rep: "rep m ns \<Longrightarrow> room ns n \<Longrightarrow> rep (push m n) (n # ns)"
    and pop_rep: "rep m (ns @ [n]) \<Longrightarrow> \<exists>m'. pop m = (n, m') \<and> rep m' ns"
begin

lemma push_all_rep: "rep m ns \<Longrightarrow> rooms room ns xs \<Longrightarrow> rep (push_all push m xs) (rev xs @ ns)"
  by (induction xs arbitrary: m ns) (auto dest: push_rep)

lemma pop_many_rep: "rep m (ys @ rev xs) \<Longrightarrow> \<exists>m'. pop_many pop (length xs) m = (xs, m') \<and> rep m' ys"
proof (induction xs arbitrary: m)
  case Nil
  then show ?case by simp
next
  case (Cons x xs)
  then obtain m1 where "pop m = (x, m1)" "rep m1 (ys @ rev xs)"
    using pop_rep [of m "ys @ rev xs" x] by auto
  with Cons.IH show ?case by fastforce
qed

lemma fifo:
  assumes "rep m []" and "rooms room [] xs"
  shows "\<exists>m'. pop_many pop (length xs) (push_all push m xs) = (xs, m') \<and> rep m' []"
  using push_all_rep [OF assms] pop_many_rep [of "push_all push m xs" "[]" xs] by simp

end

interpretation list_fifo: fifo_store "\<lambda>m ns. dll m list ns" "fresh list"
    "\<lambda>m n. add_head m list n" "\<lambda>m. remove_tail m list" for list
  by unfold_locales (auto simp: add_head_dll remove_tail_dll)

text \<open>Nodes that can stand in one list together: no two link cells coincide.\<close>

definition nodes_ok :: "u32 \<Rightarrow> u32 list \<Rightarrow> bool" where
  "nodes_ok list ns \<longleftrightarrow> distinct (foot list ns) \<and> 0 \<notin> set (foot list ns) \<and> (\<forall>n \<in> set ns. aligned n)"

lemma nodes_ok_fresh:
  assumes "nodes_ok list (xs @ n # ys)"
  shows "fresh list xs n" and "nodes_ok list xs" and "nodes_ok list ((n # xs) @ ys)"
  using assms by (auto simp: nodes_ok_def fresh_def set_foot distinct_foot)

lemma nodes_ok_rooms: "nodes_ok list (ns @ xs) \<Longrightarrow> rooms (fresh list) ns xs"
  by (induction xs arbitrary: ns) (auto dest: nodes_ok_fresh(1,3))

text \<open>A store in which the elements are kept by priority: \<open>pri\<close> is what the priorities are.\<close>

primrec drain :: "('m \<Rightarrow> 'a \<times> 'm) \<Rightarrow> nat \<Rightarrow> 'm \<Rightarrow> 'a list" where
  "drain grab 0 m = []"
| "drain grab (Suc k) m = (let (x, m) = grab m in x # drain grab k m)"

primrec enq_all :: "('m \<Rightarrow> 'a \<Rightarrow> 'm option) \<Rightarrow> 'm \<Rightarrow> 'a list \<Rightarrow> 'm option" where
  "enq_all enq m [] = Some m"
| "enq_all enq m (x # xs) = Option.bind (enq m x) (\<lambda>m. enq_all enq m xs)"

locale pri_store =
  fixes rep :: "'m \<Rightarrow> 'a list \<Rightarrow> bool"
    and pri :: "'a \<Rightarrow> int"
    and room :: "'a list \<Rightarrow> 'a \<Rightarrow> bool"
    and enq :: "'m \<Rightarrow> 'a \<Rightarrow> 'm option"
    and grab :: "'m \<Rightarrow> 'a \<times> 'm"
  assumes enq_rep: "rep m ns \<Longrightarrow> room ns n \<Longrightarrow> \<exists>m'. enq m n = Some m' \<and> rep m' (ins_pri pri n ns)"
    and grab_rep: "rep m (n # ns) \<Longrightarrow> \<exists>m'. grab m = (n, m') \<and> rep m' ns"
    and room_cong: "set ns = set ns' \<Longrightarrow> room ns n = room ns' n"
begin

lemma rooms_cong: "set ns = set ns' \<Longrightarrow> rooms room ns xs = rooms room ns' xs"
proof (induction xs arbitrary: ns ns')
  case (Cons x xs)
  have "rooms room (x # ns) xs = rooms room (x # ns') xs"
    using Cons.prems by (intro Cons.IH) simp
  then show ?case using room_cong [OF Cons.prems] by simp
qed simp

lemma enq_all_rep:
  "rep m ns \<Longrightarrow> rooms room ns xs \<Longrightarrow> \<exists>m'. enq_all enq m xs = Some m' \<and> rep m' (fold (ins_pri pri) xs ns)"
proof (induction xs arbitrary: m ns)
  case (Cons x xs)
  then obtain m1 where "enq m x = Some m1" "rep m1 (ins_pri pri x ns)"
    using enq_rep [of m ns x] by auto
  then show ?case
    using Cons.IH [of m1 "ins_pri pri x ns"] Cons.prems rooms_cong [of "x # ns" "ins_pri pri x ns" xs] by simp
qed simp

lemma drain_rep: "rep m ns \<Longrightarrow> drain grab (length ns) m = ns"
proof (induction ns arbitrary: m)
  case (Cons n ns)
  then show ?case using grab_rep [of m n ns] by auto
qed simp

lemma fold_ins_pri:
  "by_pri pri ns \<Longrightarrow> by_pri pri (fold (ins_pri pri) xs ns) \<and>
    length (fold (ins_pri pri) xs ns) = length ns + length xs \<and>
    filter (\<lambda>x. pri x = k) (fold (ins_pri pri) xs ns) = filter (\<lambda>x. pri x = k) (ns @ xs)"
proof (induction xs arbitrary: ns)
  case (Cons x xs)
  then show ?case
    using Cons.IH [of "ins_pri pri x ns"] by (simp add: by_pri_ins_pri ins_pri_stable)
qed simp

lemma pri_order:
  assumes "rep m []" and "rooms room [] xs"
  shows "\<exists>m' ys. enq_all enq m xs = Some m' \<and> drain grab (length xs) m' = ys \<and> by_pri pri ys \<and>
    (\<forall>k. filter (\<lambda>x. pri x = k) ys = filter (\<lambda>x. pri x = k) xs)"
proof -
  obtain m' where m': "enq_all enq m xs = Some m'" "rep m' (fold (ins_pri pri) xs [])"
    using enq_all_rep [OF assms] by blast
  have "by_pri pri ([] :: 'a list)" by (simp add: by_pri_def)
  note sorted = fold_ins_pri [OF this, of xs]
  then have "drain grab (length xs) m' = fold (ins_pri pri) xs []"
    using drain_rep [OF m'(2)] by simp
  then show ?thesis using m'(1) sorted by auto
qed

end

text \<open>
  The lists of list.c are such a store for nodes whose priority cells lie outside the link cells:
  \<open>take_first\<close> is the way the dispatcher takes the next task, \<open>get_head\<close> and then \<open>remove\<close>.
\<close>

definition take_first :: "u32 \<Rightarrow> cells \<Rightarrow> u32 \<times> cells" where
  "take_first list m = (let n = get_head m list in (n, remove_node m n))"

definition pri_cells_apart :: "u32 \<Rightarrow> u32 set \<Rightarrow> bool" where
  "pri_cells_apart list U \<longleftrightarrow> (\<forall>x \<in> U. x + 12 \<notin> {list, list + 4, list + 8} \<union> U \<union> (\<lambda>n. n + 4) ` U)"

definition pri_rep :: "u32 \<Rightarrow> u32 set \<Rightarrow> (u32 \<Rightarrow> int) \<Rightarrow> cells \<Rightarrow> u32 list \<Rightarrow> bool" where
  "pri_rep list U p m ns \<longleftrightarrow> dll m list ns \<and> pri_cells_apart list U \<and> set ns \<subseteq> U \<and>
     (\<forall>x \<in> U. node_pri m x = p x)"

lemma pri_cell_outside:
  "pri_cells_apart list U \<Longrightarrow> set ns \<subseteq> U \<Longrightarrow> x \<in> U \<Longrightarrow> x + 12 \<notin> set (foot list ns)"
  by (auto simp: pri_cells_apart_def set_foot)

lemma pri_rep_enqueue:
  assumes rep: "pri_rep list U p m ns" and room: "fresh list ns n \<and> n \<in> U"
  shows "\<exists>m'. enqueue m list n = Some m' \<and> pri_rep list U p m' (ins_pri p n ns)"
proof -
  have dll: "dll m list ns" and U: "pri_cells_apart list U" "set (n # ns) \<subseteq> U"
    and p: "\<forall>x \<in> U. node_pri m x = p x"
    using rep room by (auto simp: pri_rep_def)
  obtain m' where m': "enqueue m list n = Some m'" "dll m' list (ins_pri (node_pri m) n ns)"
    and frame: "\<forall>c. c \<notin> set (foot list (n # ns)) \<longrightarrow> m' c = m c"
    using enqueue_dll [OF dll] room by blast
  have "ins_pri (node_pri m) n ns = ins_pri p n ns"
    using U p by (intro ins_pri_cong) auto
  moreover have "node_pri m' x = node_pri m x" if "x \<in> U" for x
    using frame pri_cell_outside [OF U that] by (simp add: node_pri_def)
  ultimately show ?thesis
    using m' U p by (auto simp: pri_rep_def)
qed

lemma pri_rep_take:
  assumes rep: "pri_rep list U p m (n # ns)"
  shows "\<exists>m'. take_first list m = (n, m') \<and> pri_rep list U p m' ns"
proof -
  have dll: "dll m list ([] @ n # ns)" using rep by (simp add: pri_rep_def)
  have "node_pri (remove_node m n) x = node_pri m x" if "x \<in> U" for x
    using rep that remove_node_frame [OF dll] pri_cell_outside [of list U "[] @ ns" x]
    by (simp add: pri_rep_def node_pri_def)
  then show ?thesis
    using rep remove_node_dll [OF dll] get_head_dll [of m list "n # ns"]
    by (simp add: take_first_def pri_rep_def)
qed

interpretation list_pri: pri_store "pri_rep list U p" p "\<lambda>ns n. fresh list ns n \<and> n \<in> U"
    "\<lambda>m n. enqueue m list n" "take_first list" for list U p
proof unfold_locales
  show "fresh list ns n \<and> n \<in> U \<longleftrightarrow> fresh list ns' n \<and> n \<in> U" if "set ns = set ns'" for ns ns' n
    using that by (simp add: fresh_def set_foot)
qed (auto intro: pri_rep_enqueue pri_rep_take)

section \<open>Properties\<close>


lemma one_node_list:
  "dll (add_head (new_list (\<lambda>a. 0) 0x1000) 0x1000 0x2000) 0x1000 [0x2000]"
proof -
  have "dll (new_list (\<lambda>a. 0) 0x1000) 0x1000 []"
    by (rule new_list_dll) (simp_all add: aligned_def)
  moreover have "fresh 0x1000 [] 0x2000" by (simp add: fresh_def foot_def aligned_def)
  ultimately show ?thesis by (rule add_head_dll)
qed


text \<open>A list used as the message list of a queue is first-in first-out: after any nodes are added with
  \<open>add_head\<close> to an empty list, \<open>remove_tail\<close> takes them out in the order they were added, and leaves
  the list empty.\<close>

lemma list_fifo_order:
  assumes "dll m list []" and "nodes_ok list ns"
  shows "\<exists>m'. pop_many (\<lambda>m. remove_tail m list) (length ns) (push_all (\<lambda>m n. add_head m list n) m ns) = (ns, m') \<and>
    dll m' list []"
  using assms nodes_ok_rooms [of list "[]" ns] by (intro list_fifo.fifo) simp_all

text \<open>C24. Tasks entered with \<open>enqueue\<close> and taken with \<open>get_head\<close> and \<open>remove\<close>, as the dispatcher does,
  come out by descending priority, and among equal priorities in the order they were entered. \<open>U\<close> is the set
  of task nodes and \<open>p\<close> their priorities, which the lists do not change; every \<open>enqueue\<close> returns.\<close>

theorem enqueue_priority_order:
  assumes rep: "pri_rep list U p m []" and nodes: "nodes_ok list ns" and U: "set ns \<subseteq> U"
  shows "\<exists>m' ys. enq_all (\<lambda>m n. enqueue m list n) m ns = Some m' \<and> drain (take_first list) (length ns) m' = ys \<and>
    by_pri p ys \<and> (\<forall>k. filter (\<lambda>x. p x = k) ys = filter (\<lambda>x. p x = k) ns)"
proof (rule list_pri.pri_order [OF rep])
  have "rooms (fresh list) ms ns \<Longrightarrow> rooms (\<lambda>ns n. fresh list ns n \<and> n \<in> U) ms ns" for ms
    using U by (induction ns arbitrary: ms) auto
  then show "rooms (\<lambda>ns n. fresh list ns n \<and> n \<in> U) [] ns"
    using nodes_ok_rooms [of list "[]" ns] nodes by simp
qed

theorem enqueue_priority_order_witness:
  "\<exists>m' ys. enq_all (\<lambda>m n. enqueue m 0x1000 n) (new_list ((\<lambda>a. 0)(0x300C := 5)) 0x1000) [0x2000, 0x3000] = Some m' \<and>
    drain (take_first 0x1000) 2 m' = ys \<and> by_pri (\<lambda>x. if x = 0x3000 then 5 else 0) ys"
proof -
  let ?m = "new_list ((\<lambda>a. 0)(0x300C := 5)) 0x1000"
  have "dll ?m 0x1000 []" by (rule new_list_dll) (simp_all add: aligned_def)
  then have "pri_rep 0x1000 {0x2000, 0x3000} (\<lambda>x. if x = 0x3000 then 5 else 0) ?m []"
    by (simp add: pri_rep_def pri_cells_apart_def node_pri_def new_list_def Let_def)
  moreover have "nodes_ok 0x1000 [0x2000, 0x3000]" by (simp add: nodes_ok_def foot_def aligned_def)
  ultimately show ?thesis
    using enqueue_priority_order [of "0x1000" "{0x2000, 0x3000}" _ ?m "[0x2000, 0x3000]"] by (force simp: eval_nat_numeral)
qed

end
