(* ===== verification/Cpu.thy ===== *)
theory Cpu
  imports Common
begin

text \<open>
  cpu.c: the global descriptor table, the task state segment and the first interrupt table. The
  addresses of the tables are chosen by the linker: \<open>symbols\<close> collects what the linker script and the
  assembler files fix. What the assembler routines \<open>gdt_flush\<close>, \<open>tss_flush\<close> and \<open>idt_flush\<close> load into the
  processor is kept in \<open>gdtr\<close>, \<open>tr\<close> and \<open>idtr\<close>; \<open>iflag\<close> is the interrupt flag.
\<close>

section \<open>State\<close>

record gdt_entry =
  limit_low :: u16
  base_low :: u16
  base_middle :: u8
  access :: u8
  granularity :: u8
  base_high :: u8

record idt_entry =
  offset_1 :: u16
  selector :: u16
  zero_byte :: u8
  type_attr :: u8
  offset_2 :: u16

record table_ptr =
  tbl_limit :: u16
  tbl_base :: u32

record tss_entry =
  prev_tss :: u32
  esp0 :: u32
  ss0 :: u32
  esp1 :: u32
  ss1 :: u32
  esp2 :: u32
  ss2 :: u32
  tss_cr3 :: u32
  tss_regs :: "u32 list"
  tss_es :: u32
  tss_cs :: u32
  tss_ss :: u32
  tss_ds :: u32
  tss_fs :: u32
  tss_gs :: u32
  tss_ldt :: u32
  tss_trap :: u16
  iomap_base :: u16

record symbols =
  gdt_addr :: u32
  idt_addr :: u32
  tss_addr :: u32
  idt_entries_addr :: u32
  isr :: "nat \<Rightarrow> u32"
  irq :: "nat \<Rightarrow> u32"
  kernelpagedir_addr :: u32
  lowpagetable_addr :: u32
  end_addr :: u32

record cpu_state = machine +
  gdt :: "gdt_entry list"
  gp :: table_ptr
  idt :: "idt_entry list"
  iptr :: table_ptr
  tss :: tss_entry
  gdtr :: table_ptr
  tr :: u16
  idtr :: table_ptr
  iflag :: bool

definition enable :: "'a cpu_state_scheme \<Rightarrow> 'a cpu_state_scheme" where
  "enable s = s\<lparr>iflag := True\<rparr>"

definition disable :: "'a cpu_state_scheme \<Rightarrow> 'a cpu_state_scheme" where
  "disable s = s\<lparr>iflag := False\<rparr>"

section \<open>Descriptors\<close>

definition gate_of :: "u32 \<Rightarrow> u32 \<Rightarrow> u8 \<Rightarrow> u8 \<Rightarrow> gdt_entry" where
  "gate_of base limit acc gran =
    \<lparr>limit_low = ucast (limit AND 0xFFFF), base_low = ucast (base AND 0xFFFF),
     base_middle = ucast (drop_bit 16 base AND 0xFF), access = acc,
     granularity = ucast (drop_bit 16 limit AND 0x0F) OR (gran AND 0xF0),
     base_high = ucast (drop_bit 24 base AND 0xFF)\<rparr>"

definition gdt_set_gate :: "nat \<Rightarrow> u32 \<Rightarrow> u32 \<Rightarrow> u8 \<Rightarrow> u8 \<Rightarrow> 'a cpu_state_scheme \<Rightarrow> 'a cpu_state_scheme" where
  "gdt_set_gate num base limit acc gran s = s\<lparr>gdt := (gdt s)[num := gate_of base limit acc gran]\<rparr>"

definition zero_tss :: tss_entry where
  "zero_tss = \<lparr>prev_tss = 0, esp0 = 0, ss0 = 0, esp1 = 0, ss1 = 0, esp2 = 0, ss2 = 0, tss_cr3 = 0,
    tss_regs = replicate 10 0, tss_es = 0, tss_cs = 0, tss_ss = 0, tss_ds = 0, tss_fs = 0, tss_gs = 0,
    tss_ldt = 0, tss_trap = 0, iomap_base = 0\<rparr>"

definition sizeof_tss :: u32 where
  "sizeof_tss = 104"

definition write_tss :: "symbols \<Rightarrow> nat \<Rightarrow> u16 \<Rightarrow> u32 \<Rightarrow> 'a cpu_state_scheme \<Rightarrow> 'a cpu_state_scheme" where
  "write_tss sy num kss kesp s =
    (let base = tss_addr sy;
         limit = base + sizeof_tss;
         s = gdt_set_gate num base limit 0xE9 0x00 s;
         s = s\<lparr>tss := zero_tss\<rparr>;
         s = s\<lparr>tss := (tss s)\<lparr>ss0 := ucast kss, esp0 := kesp\<rparr>\<rparr>
     in s\<lparr>tss := (tss s)\<lparr>tss_cs := 0x0b, tss_ss := 0x13, tss_ds := 0x13, tss_es := 0x13, tss_fs := 0x13,
            tss_gs := 0x13\<rparr>\<rparr>)"

definition set_kernel_stack :: "u32 \<Rightarrow> 'a cpu_state_scheme \<Rightarrow> 'a cpu_state_scheme" where
  "set_kernel_stack stack s = s\<lparr>tss := (tss s)\<lparr>esp0 := stack\<rparr>\<rparr>"

text \<open>boot.asm and idt\_s.asm: \<open>lgdt [gp]\<close>, and \<open>ltr\<close> with the selector of entry 5, RPL 3.\<close>

definition gdt_flush :: "'a cpu_state_scheme \<Rightarrow> 'a cpu_state_scheme" where
  "gdt_flush s = s\<lparr>gdtr := gp s\<rparr>"

definition tss_flush :: "'a cpu_state_scheme \<Rightarrow> 'a cpu_state_scheme" where
  "tss_flush s = s\<lparr>tr := 0x2B\<rparr>"

definition gdt_install :: "symbols \<Rightarrow> 'a cpu_state_scheme \<Rightarrow> 'a cpu_state_scheme" where
  "gdt_install sy s =
    (let s = s\<lparr>gp := \<lparr>tbl_limit = 8 * 6 - 1, tbl_base = gdt_addr sy\<rparr>\<rparr>;
         s = gdt_set_gate 0 0 0 0 0 s;
         s = gdt_set_gate 1 0 0xFFFFFFFF 0x9A 0xCF s;
         s = gdt_set_gate 2 0 0xFFFFFFFF 0x92 0xCF s;
         s = gdt_set_gate 3 0 0xFFFFFFFF 0xFA 0xCF s;
         s = gdt_set_gate 4 0 0xFFFFFFFF 0xF2 0xCF s;
         s = write_tss sy 5 0x10 0x0 s
     in tss_flush (gdt_flush s))"

text \<open>\<open>idt_install\<close> prepares the table of cpu.c, which \<open>init_idt\<close> of idt.c does not use.\<close>

definition idt_install :: "symbols \<Rightarrow> 'a cpu_state_scheme \<Rightarrow> 'a cpu_state_scheme" where
  "idt_install sy s =
    (let s = s\<lparr>iptr := \<lparr>tbl_limit = 8 * 256 - 1, tbl_base = idt_addr sy\<rparr>\<rparr>
     in s\<lparr>idt := map (\<lambda>e. e\<lparr>offset_1 := 0, selector := 0, zero_byte := 0, type_attr := 0, offset_2 := 0\<rparr>) (idt s)\<rparr>)"

section \<open>What the processor reads\<close>

text \<open>The fields of a descriptor as the processor puts them together (Intel SDM 3A, 3.4.5).\<close>

definition desc_base :: "gdt_entry \<Rightarrow> u32" where
  "desc_base e = ucast (base_low e) OR push_bit 16 (ucast (base_middle e)) OR push_bit 24 (ucast (base_high e))"

definition desc_limit :: "gdt_entry \<Rightarrow> u32" where
  "desc_limit e = ucast (limit_low e) OR push_bit 16 (ucast (granularity e AND 0x0F))"

definition desc_dpl :: "gdt_entry \<Rightarrow> u8" where
  "desc_dpl e = drop_bit 5 (access e) AND 3"

definition desc_present :: "gdt_entry \<Rightarrow> bool" where
  "desc_present e \<longleftrightarrow> bit (access e) 7"

definition desc_page_granular :: "gdt_entry \<Rightarrow> bool" where
  "desc_page_granular e \<longleftrightarrow> bit (granularity e) 7"

lemma masks: "(0xFFFF :: u32) = mask 16" "(0xFF :: u32) = mask 8" "(0x0F :: u32) = mask 4"
  "(0x0F :: u8) = mask 4" "(0xF0 :: u8) = push_bit 4 (mask 4)" "(0xFFFFF :: u32) = mask 20"
  by (simp_all add: mask_eq_exp_minus_1)

lemma desc_base_gate: "desc_base (gate_of base limit acc gran) = base"
proof (rule bit_word_eqI)
  fix n assume "n < LENGTH(32)"
  then show "bit (desc_base (gate_of base limit acc gran)) n = bit base n"
    unfolding desc_base_def gate_of_def masks by (cases "24 \<le> n") (auto simp: bit_simps)
qed

lemma desc_limit_gate: "desc_limit (gate_of base limit acc gran) = limit AND 0xFFFFF"
  unfolding desc_limit_def gate_of_def masks
  by (rule bit_word_eqI) (auto simp: bit_simps)

lemma desc_granular_gate: "desc_page_granular (gate_of base limit acc gran) = bit gran 7"
  unfolding desc_page_granular_def gate_of_def masks by (auto simp: bit_simps)

lemma desc_access_gate: "access (gate_of base limit acc gran) = acc"
  by (simp add: gate_of_def)

lemmas gate_simps = desc_base_gate desc_limit_gate desc_granular_gate desc_access_gate

lemma gdt_install_gdt:
  assumes "length (gdt s) = 6"
  shows "gdt (gdt_install sy s) =
    [gate_of 0 0 0 0, gate_of 0 0xFFFFFFFF 0x9A 0xCF, gate_of 0 0xFFFFFFFF 0x92 0xCF,
     gate_of 0 0xFFFFFFFF 0xFA 0xCF, gate_of 0 0xFFFFFFFF 0xF2 0xCF,
     gate_of (tss_addr sy) (tss_addr sy + sizeof_tss) 0xE9 0x00]"
proof -
  obtain a b c d e f where "gdt s = [a, b, c, d, e, f]"
    using assms by (auto simp: eval_nat_numeral length_Suc_conv)
  then show ?thesis
    by (simp add: gdt_install_def write_tss_def gdt_set_gate_def gdt_flush_def tss_flush_def Let_def)
qed

lemma gdt_install_loaded:
  "gdtr (gdt_install sy s) = \<lparr>tbl_limit = 47, tbl_base = gdt_addr sy\<rparr>" "tr (gdt_install sy s) = 0x2B"
  "mem (gdt_install sy s) = mem s" "io (gdt_install sy s) = io s"
  "tss (gdt_install sy s) = zero_tss\<lparr>ss0 := 0x10, esp0 := 0, tss_cs := 0x0b, tss_ss := 0x13, tss_ds := 0x13, tss_es := 0x13,
     tss_fs := 0x13, tss_gs := 0x13\<rparr>"
  "cpu_state.more (gdt_install sy s) = cpu_state.more s"
  by (simp_all add: gdt_install_def write_tss_def gdt_set_gate_def gdt_flush_def tss_flush_def Let_def)

text \<open>Bits of small constants, for the access bytes.\<close>

lemma access_bytes: "bit (0x9A :: u8) 7" "bit (0x92 :: u8) 7" "bit (0xFA :: u8) 7" "bit (0xF2 :: u8) 7"
  "bit (0xE9 :: u8) 7" "bit (0xCF :: u8) 7"
  by (simp_all add: bit_iff_odd)

end
