(* ===== verification/Idt.thy ===== *)
theory Idt
  imports Cpu
begin

text \<open>
  idt.c, the tables: the interrupt descriptor table that the processor reads, the remapping of the
  two interrupt controllers, and the array of handler functions. The handlers the kernel
  registers are named by \<open>handler\<close>, a NULL entry is \<open>None\<close>. The common handlers that call
  them are in the theory of the tasks, which they may switch.
\<close>

section \<open>State\<close>

text \<open>mm.c, syscalls.c, timer.c and console.c register these functions.\<close>

datatype handler = Page_fault | Protection_fault | Syscall | Timer_callback | Keypress_isr

record gate =
  base_lo :: u16
  sel :: u16
  always0 :: u8
  gate_flags :: u8
  base_hi :: u16

record idt_state = cpu_state +
  idt_entries :: "gate list"
  idt_ptr :: table_ptr
  interrupt_handlers :: "handler option list"

section \<open>Operations\<close>

definition zero_gate :: gate where
  "zero_gate = \<lparr>base_lo = 0, sel = 0, always0 = 0, gate_flags = 0, base_hi = 0\<rparr>"

definition int_gate :: "u32 \<Rightarrow> u16 \<Rightarrow> u8 \<Rightarrow> gate" where
  "int_gate base sl flgs =
    \<lparr>base_lo = ucast (base AND 0xFFFF), sel = sl, always0 = 0, gate_flags = flgs OR 0x60,
     base_hi = ucast (drop_bit 16 base AND 0xFFFF)\<rparr>"

definition idt_set_gate :: "u8 \<Rightarrow> u32 \<Rightarrow> u16 \<Rightarrow> u8 \<Rightarrow> 'a idt_state_scheme \<Rightarrow> 'a idt_state_scheme" where
  "idt_set_gate num base sl flgs s = s\<lparr>idt_entries := (idt_entries s)[unat num := int_gate base sl flgs]\<rparr>"

definition register_interrupt_handler :: "u8 \<Rightarrow> handler \<Rightarrow> 'a idt_state_scheme \<Rightarrow> 'a idt_state_scheme" where
  "register_interrupt_handler n h s = s\<lparr>interrupt_handlers := (interrupt_handlers s)[unat n := Some h]\<rparr>"

text \<open>The consecutive calls of \<open>idt_set_gate\<close> for vectors \<open>n\<close>, \<open>n + 1\<close>, ...\<close>

primrec set_gates :: "nat \<Rightarrow> u32 list \<Rightarrow> 'a idt_state_scheme \<Rightarrow> 'a idt_state_scheme" where
  "set_gates n [] s = s"
| "set_gates n (f # fs) s = set_gates (Suc n) fs (idt_set_gate (of_nat n) f 0x08 0x8E s)"

primrec outb_all :: "(u16 \<times> u8) list \<Rightarrow> 'a machine_scheme \<Rightarrow> 'a machine_scheme" where
  "outb_all [] s = s"
| "outb_all (p # ps) s = outb_all ps (outb (fst p) (snd p) s)"

definition pic_remap :: "(u16 \<times> u8) list" where
  "pic_remap = [(0x20, 0x11), (0xA0, 0x11), (0x21, 0x20), (0xA1, 0x28), (0x21, 0x04), (0xA1, 0x02),
     (0x21, 0x01), (0xA1, 0x01), (0x21, 0x0), (0xA1, 0x0)]"

definition idt_flush :: "'a idt_state_scheme \<Rightarrow> 'a idt_state_scheme" where
  "idt_flush s = s\<lparr>idtr := idt_ptr s\<rparr>"

text \<open>\<open>memset(&idt_entries, 0, sizeof (idt_entry_t) * 255)\<close> clears all entries but the last.\<close>

definition init_idt :: "symbols \<Rightarrow> 'a idt_state_scheme \<Rightarrow> 'a idt_state_scheme" where
  "init_idt sy s =
    (let s = s\<lparr>interrupt_handlers := replicate 256 None\<rparr>;
         s = s\<lparr>idt_ptr := \<lparr>tbl_limit = 8 * 256 - 1, tbl_base = idt_entries_addr sy\<rparr>\<rparr>;
         s = s\<lparr>idt_entries := replicate 255 zero_gate @ List.drop 255 (idt_entries s)\<rparr>;
         s = outb_all pic_remap s;
         s = set_gates 0 (map (isr sy) [0..<32]) s;
         s = set_gates 32 (map (irq sy) [0..<16]) s;
         s = idt_set_gate 255 (isr sy 255) 0x08 0x8E s
     in idt_flush s)"

section \<open>What the processor reads\<close>

definition gate_target :: "gate \<Rightarrow> u32" where
  "gate_target g = ucast (base_lo g) OR push_bit 16 (ucast (base_hi g))"

definition gate_present :: "gate \<Rightarrow> bool" where
  "gate_present g \<longleftrightarrow> bit (gate_flags g) 7"

lemma gate_target_int_gate: "gate_target (int_gate base sl flgs) = base"
proof -
  have m: "(0xFFFF :: u32) = mask 16" by (simp add: mask_eq_exp_minus_1)
  show ?thesis
    unfolding gate_target_def int_gate_def m by (rule bit_word_eqI) (auto simp: bit_simps)
qed

lemma gate_present_int_gate: "gate_present (int_gate base sl 0x8E)"
  by (simp add: gate_present_def int_gate_def)

lemma gate_present_zero: "\<not> gate_present zero_gate"
  by (simp add: gate_present_def zero_gate_def)

lemma idt_set_gate_nth:
  "n < 256 \<Longrightarrow> length (idt_entries s) = 256 \<Longrightarrow>
   idt_entries (idt_set_gate (of_nat n) f sl fl s) ! k = (if k = n then int_gate f sl fl else idt_entries s ! k)"
  by (simp add: idt_set_gate_def unat_of_nat)

lemma set_gates_nth:
  "n + length fs \<le> 256 \<Longrightarrow> length (idt_entries s) = 256 \<Longrightarrow>
   length (idt_entries (set_gates n fs s)) = 256 \<and>
   idt_entries (set_gates n fs s) ! k =
     (if n \<le> k \<and> k < n + length fs then int_gate (fs ! (k - n)) 0x08 0x8E else idt_entries s ! k)"
proof (induction fs arbitrary: n s)
  case Nil
  then show ?case by auto
next
  case (Cons f fs)
  let ?s = "idt_set_gate (of_nat n) f 0x08 0x8E s"
  have "length (idt_entries ?s) = 256" using Cons.prems by (simp add: idt_set_gate_def)
  then have IH: "length (idt_entries (set_gates (Suc n) fs ?s)) = 256"
    "idt_entries (set_gates (Suc n) fs ?s) ! k =
      (if Suc n \<le> k \<and> k < Suc n + length fs then int_gate (fs ! (k - Suc n)) 0x08 0x8E else idt_entries ?s ! k)"
    using Cons.IH [of "Suc n" ?s] Cons.prems by auto
  moreover have "idt_entries ?s ! k = (if k = n then int_gate f 0x08 0x8E else idt_entries s ! k)"
    using Cons.prems by (simp add: idt_set_gate_nth)
  ultimately show ?case by (auto simp: nth_Cons' Suc_diff_Suc)
qed

lemma set_gates_rest:
  "interrupt_handlers (set_gates n fs s) = interrupt_handlers s" "io (set_gates n fs s) = io s"
  "mem (set_gates n fs s) = mem s" "idt_ptr (set_gates n fs s) = idt_ptr s" "gdt (set_gates n fs s) = gdt s"
  "idt_state.more (set_gates n fs s) = idt_state.more s"
  by (induction fs arbitrary: n s) (simp_all add: idt_set_gate_def)

lemma outb_all_io: "outb_all ps s = s\<lparr>io := io s @ map (\<lambda>p. OutB (fst p) (snd p)) ps\<rparr>"
  by (induction ps arbitrary: s) (simp_all add: outb_def)

lemma init_idt_entries:
  assumes "length (idt_entries s) = 256" and "k < 256"
  shows "idt_entries (init_idt sy s) ! k =
    (if k < 32 \<or> k = 255 then int_gate (isr sy k) 0x08 0x8E
     else if k < 48 then int_gate (irq sy (k - 32)) 0x08 0x8E else zero_gate)"
proof -
  define s1 where "s1 = outb_all pic_remap (s\<lparr>interrupt_handlers := replicate 256 None,
     idt_ptr := \<lparr>tbl_limit = 8 * 256 - 1, tbl_base = idt_entries_addr sy\<rparr>,
     idt_entries := replicate 255 zero_gate @ List.drop 255 (idt_entries s)\<rparr>)"
  define s2 where "s2 = set_gates 0 (map (isr sy) [0..<32]) s1"
  define s3 where "s3 = set_gates 32 (map (irq sy) [0..<16]) s2"
  have k: "k < 255 \<or> k = 255" using assms(2) by linarith
  have s1: "length (idt_entries s1) = 256" "idt_entries s1 ! k = (if k < 255 then zero_gate else idt_entries s ! k)"
    using k assms(1) by (elim disjE; simp add: s1_def outb_all_io nth_append)+
  have s2: "length (idt_entries s2) = 256"
    "idt_entries s2 ! k = (if k < 32 then int_gate (isr sy k) 0x08 0x8E else idt_entries s1 ! k)"
    using set_gates_nth [of 0 "map (isr sy) [0..<32]" s1 k] s1(1) by (auto simp: s2_def)
  have s3: "length (idt_entries s3) = 256"
    "idt_entries s3 ! k = (if 32 \<le> k \<and> k < 48 then int_gate (irq sy (k - 32)) 0x08 0x8E else idt_entries s2 ! k)"
    using set_gates_nth [of 32 "map (irq sy) [0..<16]" s2 k] s2(1) by (auto simp: s3_def)
  have "idt_entries (init_idt sy s) = idt_entries (idt_set_gate (of_nat 255) (isr sy 255) 0x08 0x8E s3)"
    by (simp add: init_idt_def idt_flush_def s1_def s2_def s3_def Let_def)
  then have "idt_entries (init_idt sy s) ! k =
      (if k = 255 then int_gate (isr sy 255) 0x08 0x8E else idt_entries s3 ! k)"
    using idt_set_gate_nth [of 255 s3] s3(1) by (simp del: of_nat_numeral)
  then show ?thesis using s1 s2 s3 assms(2) by auto
qed

lemma init_idt_rest:
  "interrupt_handlers (init_idt sy s) = replicate 256 None"
  "idtr (init_idt sy s) = \<lparr>tbl_limit = 2047, tbl_base = idt_entries_addr sy\<rparr>"
  "io (init_idt sy s) = io s @ map (\<lambda>p. OutB (fst p) (snd p)) pic_remap"
  "mem (init_idt sy s) = mem s" "gdt (init_idt sy s) = gdt s"
  "idt_state.more (init_idt sy s) = idt_state.more s"
  by (simp_all add: init_idt_def idt_flush_def idt_set_gate_def set_gates_rest outb_all_io Let_def)

section \<open>The machine before boot\<close>

text \<open>A concrete state, with every field zero, on which the properties are exercised.\<close>

definition cold_idt :: idt_state where
  "cold_idt = \<lparr>mem = (\<lambda>a. 0), io = [],
     gdt = replicate 6 (gate_of 0 0 0 0), gp = \<lparr>tbl_limit = 0, tbl_base = 0\<rparr>, idt = [],
     iptr = \<lparr>tbl_limit = 0, tbl_base = 0\<rparr>, tss = zero_tss, gdtr = \<lparr>tbl_limit = 0, tbl_base = 0\<rparr>, tr = 0,
     idtr = \<lparr>tbl_limit = 0, tbl_base = 0\<rparr>, iflag = False,
     idt_entries = replicate 256 zero_gate, idt_ptr = \<lparr>tbl_limit = 0, tbl_base = 0\<rparr>,
     interrupt_handlers = replicate 256 None\<rparr>"

section \<open>Properties\<close>

text \<open>After \<open>gdt_install\<close> the processor's table has six entries: the null descriptor, flat code and
  data segments of 4 GiB for the kernel (privilege 0) and for the tasks (privilege 3), and the task state
  segment, whose base is the structure the kernel filled, with the kernel stack segment 0x10.\<close>

lemma gdt_install_segments:
  assumes "length (gdt s) = 6"
  shows "map desc_base (gdt (gdt_install sy s)) = [0, 0, 0, 0, 0, tss_addr sy] \<and>
    map desc_limit (List.take 5 (gdt (gdt_install sy s))) = [0, 0xFFFFF, 0xFFFFF, 0xFFFFF, 0xFFFFF] \<and>
    map desc_page_granular (gdt (gdt_install sy s)) = [False, True, True, True, True, False] \<and>
    map desc_dpl (gdt (gdt_install sy s)) = [0, 0, 0, 3, 3, 3] \<and>
    map desc_present (gdt (gdt_install sy s)) = [False, True, True, True, True, True] \<and>
    gdtr (gdt_install sy s) = \<lparr>tbl_limit = 47, tbl_base = gdt_addr sy\<rparr> \<and>
    ss0 (tss (gdt_install sy s)) = 0x10"
  unfolding gdt_install_gdt [OF assms]
  by (simp add: gate_simps access_bytes desc_dpl_def desc_present_def gdt_install_loaded)

text \<open>C30. After \<open>init_idt\<close> every vector of a processor exception (0 to 31), of a hardware interrupt (32 to 47,
  to which the interrupt controllers are remapped) and of the system call (255) has a present gate to its own
  assembler stub in segment 8, every other vector is not present, and no C handler is registered.\<close>

theorem init_idt_vectors:
  assumes "length (idt_entries s) = 256" and "k < 256"
  shows "let g = idt_entries (init_idt sy s) ! k in
    (gate_present g \<longleftrightarrow> k < 48 \<or> k = 255) \<and>
    (gate_present g \<longrightarrow> gate_target g = (if 32 \<le> k \<and> k < 48 then irq sy (k - 32) else isr sy k) \<and> sel g = 8) \<and>
    interrupt_handlers (init_idt sy s) ! k = None \<and>
    io (init_idt sy s) = io s @ map (\<lambda>p. OutB (fst p) (snd p)) pic_remap"
  using assms(2)
  by (auto simp: init_idt_entries [OF assms] init_idt_rest gate_target_int_gate gate_present_int_gate
      gate_present_zero Let_def) (simp_all add: int_gate_def)

theorem init_idt_vectors_witness:
  "gate_present (idt_entries (init_idt \<lparr>gdt_addr = 0, idt_addr = 0, tss_addr = 0, idt_entries_addr = 0xC0103000,
     isr = \<lambda>n. of_nat n, irq = \<lambda>n. 0, kernelpagedir_addr = 0, lowpagetable_addr = 0, end_addr = 0\<rparr> cold_idt) ! 255)"
  using init_idt_vectors [of cold_idt 255] by (simp add: cold_idt_def Let_def)

end
