(* ===== verification/PageAlloc.thy ===== *)
theory PageAlloc
  imports Idt
begin

text \<open>
  mm.c, the low-memory page allocator: the bitmap \<open>LowRamBitF\<close> of 120 words holds one bit for
  each 4 KiB page of the first 15 MiB, set when the page is free; \<open>LowRamFreeCount\<close> counts the
  free pages. \<open>set_page_bit\<close> clears a bit, \<open>clr_page_bit\<close> sets it (the names speak of the page,
  which becomes used or unused). An index outside the array is \<open>Undefined\<close>.

  \<open>free_pages\<close> is the abstract state, the set of free page numbers, and \<open>pa_wf\<close> the invariant
  that the counter is its size.
\<close>

section \<open>State and operations\<close>

record pa_state = idt_state +
  LowRamBitF :: "u32 list"
  LowRamFreeCount :: u32
  HighRamFreeCount :: u32

text \<open>Everything below the allocator: memory, ports, descriptor and interrupt tables.\<close>

definition idt_part :: "'a pa_state_scheme \<Rightarrow> idt_state" where
  "idt_part s = idt_state.truncate s"

lemma idt_part_upd [simp]: "idt_part (s\<lparr>LowRamBitF := b\<rparr>) = idt_part s" "idt_part (s\<lparr>LowRamFreeCount := c\<rparr>) = idt_part s"
  "idt_part (s\<lparr>HighRamFreeCount := c\<rparr>) = idt_part s"
  by (simp_all add: idt_part_def idt_state.truncate_def)

lemma idt_part_handlers: "idt_part s' = idt_part s \<Longrightarrow> interrupt_handlers s' = interrupt_handlers s \<and>
   idt_entries s' = idt_entries s \<and> gdt s' = gdt s \<and> io s' = io s \<and> mem s' = mem s"
  by (simp add: idt_part_def idt_state.truncate_def)

definition PM_LOW_PAGE_COUNT :: nat where
  "PM_LOW_PAGE_COUNT = 120"

definition page_no :: "u32 \<Rightarrow> u32" where
  "page_no paddr = drop_bit 12 paddr"

definition bf_idx :: "u32 \<Rightarrow> nat" where
  "bf_idx paddr = unat (drop_bit 5 (page_no paddr))"

definition bit_mask :: "u32 \<Rightarrow> u32" where
  "bit_mask paddr = push_bit (unat (page_no paddr AND 0x1F)) 1"

definition set_page_bit :: "u32 \<Rightarrow> 'a pa_state_scheme \<Rightarrow> 'a pa_state_scheme outcome" where
  "set_page_bit paddr s =
    (let i = bf_idx paddr in
     if i < length (LowRamBitF s)
     then ret (s\<lparr>LowRamBitF := (LowRamBitF s)[i := LowRamBitF s ! i AND NOT (bit_mask paddr)],
                 LowRamFreeCount := LowRamFreeCount s - 1\<rparr>)
     else fail Undefined)"

definition tst_page_bit :: "u32 \<Rightarrow> 'a pa_state_scheme \<Rightarrow> u32 outcome" where
  "tst_page_bit paddr s =
    (let i = bf_idx paddr in
     if i < length (LowRamBitF s) then ret (LowRamBitF s ! i AND bit_mask paddr) else fail Undefined)"

definition clr_page_bit :: "u32 \<Rightarrow> 'a pa_state_scheme \<Rightarrow> 'a pa_state_scheme outcome" where
  "clr_page_bit paddr s =
    (let i = bf_idx paddr in
     if i < length (LowRamBitF s)
     then ret (s\<lparr>LowRamBitF := (LowRamBitF s)[i := LowRamBitF s ! i OR bit_mask paddr],
                 LowRamFreeCount := LowRamFreeCount s + 1\<rparr>)
     else fail Undefined)"

text \<open>\<open>while (LowRamBitF[idx] == 0) idx++\<close> and \<open>while ((LowRamBitF[idx] & bitmask) == 0) ...\<close>\<close>

function find_zone :: "u32 list \<Rightarrow> nat \<Rightarrow> nat outcome" where
  "find_zone bf idx =
     (if idx < length bf then (if bf ! idx = 0 then find_zone bf (Suc idx) else ret idx)
      else fail Undefined)"
  by pat_completeness auto
termination
  by (relation "measure (\<lambda>(bf, idx). length bf - idx)") auto

declare find_zone.simps [simp del]

partial_function (option) find_bit :: "u32 \<Rightarrow> u32 \<Rightarrow> u32 \<Rightarrow> u32 outcome" where
  "find_bit w bitmask bit_no =
     (if w AND bitmask = 0 then find_bit w (push_bit 1 bitmask) (bit_no + 1) else ret bit_no)"

definition pa_alloc :: "'a pa_state_scheme \<Rightarrow> (u32 \<times> 'a pa_state_scheme) outcome" where
  "pa_alloc s =
    (if LowRamFreeCount s \<le> 0 then fail (Panic ''out of memory.'')
     else bnd (find_zone (LowRamBitF s) 0) (\<lambda>idx.
          bnd (find_bit (LowRamBitF s ! idx) 1 0) (\<lambda>bit_no.
          let paddr = push_bit 12 (of_nat idx * 32 + bit_no)
          in bnd (set_page_bit paddr s) (\<lambda>s. ret (paddr, s)))))"

definition pa_free :: "u32 \<Rightarrow> 'a pa_state_scheme \<Rightarrow> 'a pa_state_scheme outcome" where
  "pa_free paddr s =
    bnd (tst_page_bit paddr s) (\<lambda>t. if t = 0 then clr_page_bit paddr s else ret s)"

section \<open>The set of free pages\<close>

definition page_free :: "'a pa_state_scheme \<Rightarrow> nat \<Rightarrow> bool" where
  "page_free s p \<longleftrightarrow> bit (LowRamBitF s ! (p div 32)) (p mod 32)"

definition free_pages :: "'a pa_state_scheme \<Rightarrow> nat set" where
  "free_pages s = Set.filter (page_free s) {..<32 * PM_LOW_PAGE_COUNT}"

definition pa_wf :: "'a pa_state_scheme \<Rightarrow> bool" where
  "pa_wf s \<longleftrightarrow> length (LowRamBitF s) = PM_LOW_PAGE_COUNT \<and> unat (LowRamFreeCount s) = card (free_pages s)"

text \<open>The page a physical address lies in.\<close>

definition page_of :: "u32 \<Rightarrow> nat" where
  "page_of paddr = unat paddr div 4096"

lemma in_free_pages: "p \<in> free_pages s \<longleftrightarrow> p < 3840 \<and> bit (LowRamBitF s ! (p div 32)) (p mod 32)"
  by (auto simp: free_pages_def page_free_def PM_LOW_PAGE_COUNT_def)

lemma finite_free_pages [simp]: "finite (free_pages s)"
  by (rule finite_subset [of _ "{..<3840}"]) (auto simp: in_free_pages)

lemma unat_page_no: "unat (page_no paddr) = page_of paddr"
  unfolding page_no_def page_of_def unat_drop_bit_eq by (simp add: drop_bit_eq_div)

lemma bf_idx_page: "bf_idx paddr = page_of paddr div 32"
  unfolding bf_idx_def unat_drop_bit_eq by (simp add: drop_bit_eq_div unat_page_no)

lemma bit_mask_page: "bit (bit_mask paddr) k \<longleftrightarrow> k = page_of paddr mod 32"
proof -
  have "unat (page_no paddr AND 31) = page_of paddr mod 32"
    by (simp add: unat_and_31 unat_page_no)
  then show ?thesis
    by (auto simp: bit_mask_def bit_simps)
qed

lemma bit_mask_and: "w AND bit_mask paddr = 0 \<longleftrightarrow> \<not> bit w (page_of paddr mod 32)"
proof
  assume z: "w AND bit_mask paddr = 0"
  have "bit (w AND bit_mask paddr) (page_of paddr mod 32) \<longleftrightarrow> bit w (page_of paddr mod 32)"
    by (simp add: bit_and_iff bit_mask_page)
  then show "\<not> bit w (page_of paddr mod 32)" unfolding z by simp
next
  assume "\<not> bit w (page_of paddr mod 32)"
  then show "w AND bit_mask paddr = 0"
    by (intro bit_word_eqI) (auto simp: bit_and_iff bit_mask_page)
qed

lemma page_index_inject: "p div 32 = q div 32 \<Longrightarrow> p mod 32 = q mod 32 \<Longrightarrow> p = (q :: nat)"
  by (metis div_mult_mod_eq)

lemma bf_idx_bound: "page_of paddr < 3840 \<longleftrightarrow> bf_idx paddr < PM_LOW_PAGE_COUNT"
  by (auto simp: bf_idx_page PM_LOW_PAGE_COUNT_def)

lemma page_of_bound: "unat paddr < 0xF00000 \<Longrightarrow> page_of paddr < 3840"
  by (simp add: page_of_def less_mult_imp_div_less)

section \<open>The operations on the set of free pages\<close>

definition mark_used :: "u32 \<Rightarrow> 'a pa_state_scheme \<Rightarrow> 'a pa_state_scheme" where
  "mark_used paddr s = s\<lparr>LowRamBitF := (LowRamBitF s)[bf_idx paddr := LowRamBitF s ! bf_idx paddr AND NOT (bit_mask paddr)],
     LowRamFreeCount := LowRamFreeCount s - 1\<rparr>"

definition mark_free :: "u32 \<Rightarrow> 'a pa_state_scheme \<Rightarrow> 'a pa_state_scheme" where
  "mark_free paddr s = s\<lparr>LowRamBitF := (LowRamBitF s)[bf_idx paddr := LowRamBitF s ! bf_idx paddr OR bit_mask paddr],
     LowRamFreeCount := LowRamFreeCount s + 1\<rparr>"

lemma free_pages_mark_used:
  assumes "length (LowRamBitF s) = PM_LOW_PAGE_COUNT" and "page_of paddr < 3840"
  shows "free_pages (mark_used paddr s) = free_pages s - {page_of paddr}"
proof -
  have i: "bf_idx paddr < length (LowRamBitF s)" using assms by (simp add: bf_idx_bound)
  have "p \<in> free_pages (mark_used paddr s) \<longleftrightarrow> p \<in> free_pages s - {page_of paddr}" for p
    using i page_index_inject [of p "page_of paddr"]
    by (auto simp: in_free_pages mark_used_def bf_idx_page nth_list_update bit_and_iff bit_not_iff bit_mask_page)
  then show ?thesis by blast
qed

lemma free_pages_mark_free:
  assumes "length (LowRamBitF s) = PM_LOW_PAGE_COUNT" and "page_of paddr < 3840"
  shows "free_pages (mark_free paddr s) = insert (page_of paddr) (free_pages s)"
proof -
  have i: "bf_idx paddr < length (LowRamBitF s)" using assms by (simp add: bf_idx_bound)
  have "p \<in> free_pages (mark_free paddr s) \<longleftrightarrow> p \<in> insert (page_of paddr) (free_pages s)" for p
    using i assms(2) page_index_inject [of p "page_of paddr"]
    by (auto simp: in_free_pages mark_free_def bf_idx_page nth_list_update bit_or_iff bit_mask_page)
  then show ?thesis by blast
qed

lemma card_free_pages: "card (free_pages s) \<le> 3840"
proof -
  have "free_pages s \<subseteq> {..<3840}" by (auto simp: in_free_pages)
  then have "card (free_pages s) \<le> card {..<3840 :: nat}" by (rule card_mono [rotated]) simp
  then show ?thesis by simp
qed

lemma pa_wf_mark_used:
  assumes "pa_wf s" and "page_of paddr \<in> free_pages s"
  shows "pa_wf (mark_used paddr s)"
proof -
  have p: "page_of paddr < 3840" using assms(2) by (simp add: in_free_pages)
  have pos: "0 < card (free_pages s)" using assms(2) by (auto simp: card_gt_0_iff)
  then have "unat (LowRamFreeCount s - 1) = card (free_pages s) - 1"
    using assms(1) by (subst unat_minus_one) (auto simp: pa_wf_def)
  then show ?thesis
    using assms p by (simp add: pa_wf_def free_pages_mark_used) (simp add: mark_used_def)
qed

lemma pa_wf_mark_free:
  assumes "pa_wf s" and "page_of paddr < 3840" and "page_of paddr \<notin> free_pages s"
  shows "pa_wf (mark_free paddr s)"
proof -
  have "unat (LowRamFreeCount s + 1) = card (free_pages s) + 1"
    using assms(1) card_free_pages [of s] unat_add_small [of "LowRamFreeCount s" 1] by (simp add: pa_wf_def)
  then show ?thesis
    using assms by (simp add: pa_wf_def free_pages_mark_free) (simp add: mark_free_def)
qed

lemma set_page_bit_eq:
  "pa_wf s \<Longrightarrow> page_of paddr < 3840 \<Longrightarrow> set_page_bit paddr s = ret (mark_used paddr s)"
  by (simp add: set_page_bit_def pa_wf_def bf_idx_bound mark_used_def Let_def)

lemma pa_free_eq:
  assumes "pa_wf s" and "page_of paddr < 3840"
  shows "pa_free paddr s = ret (if page_of paddr \<in> free_pages s then s else mark_free paddr s)"
proof -
  have i: "bf_idx paddr < length (LowRamBitF s)" using assms by (simp add: pa_wf_def bf_idx_bound)
  moreover have "page_of paddr \<in> free_pages s \<longleftrightarrow> LowRamBitF s ! bf_idx paddr AND bit_mask paddr \<noteq> 0"
    using assms(2) by (simp add: in_free_pages bit_mask_and bf_idx_page)
  ultimately show ?thesis
    by (simp add: pa_free_def tst_page_bit_def clr_page_bit_def mark_free_def Let_def)
qed

text \<open>The two search loops find the lowest set bit.\<close>

lemma find_zone_least:
  assumes "i < length bf" and "bf ! i \<noteq> 0" and "\<And>j. idx \<le> j \<Longrightarrow> j < i \<Longrightarrow> bf ! j = 0" and "idx \<le> i"
  shows "find_zone bf idx = ret i"
  using assms
proof (induction bf idx rule: find_zone.induct)
  case (1 bf idx)
  show ?case
  proof (cases "idx = i")
    case True
    with 1 show ?thesis by (simp add: find_zone.simps)
  next
    case False
    with 1 have "bf ! idx = 0" "idx < length bf" by simp_all
    with 1 False show ?thesis by (simp add: find_zone.simps [of bf idx])
  qed
qed

lemma find_bit_least:
  assumes "k < 32" and "bit w k" and "\<And>j. n \<le> j \<Longrightarrow> j < k \<Longrightarrow> \<not> bit w j" and "n \<le> k"
  shows "find_bit w (2 ^ n) (of_nat n) = ret (of_nat k)"
  using assms
proof (induction "k - n" arbitrary: n)
  case 0
  then have "w AND 2 ^ n \<noteq> 0"
    by (simp add: and_exp_eq_0_iff_not_bit)
  with 0 show ?case by (simp add: find_bit.simps)
next
  case (Suc d)
  then have "\<not> bit w n" by auto
  then have "w AND 2 ^ n = 0"
    by (simp add: and_exp_eq_0_iff_not_bit)
  moreover have "find_bit w (2 ^ Suc n) (of_nat (Suc n)) = ret (of_nat k)"
    using Suc.hyps(2) Suc.prems by (intro Suc.hyps(1)) auto
  ultimately show ?case
    by (simp add: find_bit.simps [of w "2 ^ n"] add.commute mult.commute)
qed

lemma pa_alloc_Min:
  assumes wf: "pa_wf s" and ne: "free_pages s \<noteq> {}"
  defines "p \<equiv> Min (free_pages s)"
  shows "pa_alloc s = ret (of_nat (4096 * p), mark_used (of_nat (4096 * p)) s)"
    and "page_of (of_nat (4096 * p)) = p"
proof -
  have p: "p \<in> free_pages s" and least: "\<And>q. q \<in> free_pages s \<Longrightarrow> p \<le> q"
    using ne by (auto simp: p_def Min_in)
  then have p': "p < 3840" "bit (LowRamBitF s ! (p div 32)) (p mod 32)"
    by (simp_all add: in_free_pages)
  have len: "length (LowRamBitF s) = 3840 div 32" using wf by (simp add: pa_wf_def PM_LOW_PAGE_COUNT_def)
  have unat: "unat (of_nat (4096 * p) :: u32) = 4096 * p"
    using p'(1) by (simp only: unat_of_nat) simp
  then show page: "page_of (of_nat (4096 * p)) = p" by (simp add: page_of_def)
  have zone: "find_zone (LowRamBitF s) 0 = ret (p div 32)"
  proof (rule find_zone_least)
    show "p div 32 < length (LowRamBitF s)" using p'(1) len by simp
    show "LowRamBitF s ! (p div 32) \<noteq> 0" using p'(2) by auto
    show "LowRamBitF s ! j = 0" if "j < p div 32" for j
    proof (rule bit_word_eqI)
      fix n assume n: "n < LENGTH(32)"
      have "32 * j + n < p" using that n by simp
      then have "32 * j + n \<notin> free_pages s" using least [of "32 * j + n"] by auto
      moreover have "(32 * j + n) div 32 = j" "(32 * j + n) mod 32 = n" "32 * j + n < 3840"
        using n \<open>32 * j + n < p\<close> p'(1) by simp_all
      ultimately show "bit (LowRamBitF s ! j) n = bit 0 n" by (simp add: in_free_pages)
    qed
  qed simp
  have nobit: "\<not> bit (LowRamBitF s ! (p div 32)) j" if "j < p mod 32" for j
  proof -
    let ?q = "32 * (p div 32) + j"
    have "j < 32" using that by (meson less_trans mod_less_divisor zero_less_numeral)
    moreover have "?q < p" using that by (metis add_less_cancel_left mult_div_mod_eq)
    ultimately have "?q \<notin> free_pages s" "?q div 32 = p div 32" "?q mod 32 = j" "?q < 3840"
      using least [of ?q] p'(1) by auto
    then show ?thesis by (simp add: in_free_pages)
  qed
  have bitno: "find_bit (LowRamBitF s ! (p div 32)) 1 0 = ret (of_nat (p mod 32))"
    using find_bit_least [of "p mod 32" "LowRamBitF s ! (p div 32)" 0] p'(2) nobit by simp
  have addr: "push_bit 12 (of_nat (p div 32) * 32 + of_nat (p mod 32)) = (of_nat (4096 * p) :: u32)"
  proof -
    have "of_nat (p div 32) * 32 + of_nat (p mod 32) = (of_nat (p div 32 * 32 + p mod 32) :: u32)"
      by (simp only: of_nat_add of_nat_mult of_nat_numeral)
    then have "of_nat (p div 32) * 32 + of_nat (p mod 32) = (of_nat p :: u32)"
      by (simp only: div_mult_mod_eq)
    then show ?thesis by (simp add: push_bit_eq_mult mult.commute)
  qed
  have "LowRamFreeCount s \<noteq> 0"
    using wf ne by (auto simp: pa_wf_def)
  then show "pa_alloc s = ret (of_nat (4096 * p), mark_used (of_nat (4096 * p)) s)"
    using wf page p'(1) by (simp add: pa_alloc_def zone bitno addr set_page_bit_eq Let_def)
qed

section \<open>The contract of the allocator\<close>

primrec alloc_many :: "('s \<Rightarrow> ('p \<times> 's) outcome) \<Rightarrow> nat \<Rightarrow> 's \<Rightarrow> ('p list \<times> 's) outcome" where
  "alloc_many alloc 0 s = ret ([], s)"
| "alloc_many alloc (Suc k) s =
     bnd (alloc s) (\<lambda>(p, s). bnd (alloc_many alloc k s) (\<lambda>(ps, s). ret (p # ps, s)))"

text \<open>
  What the clients (mm.c's mapping code, and the kernel heap through it) rely on: \<open>avail s\<close> is the
  set of pages that can still be handed out, \<open>num\<close> the page of an address.
\<close>

locale page_allocator =
  fixes wf :: "'s \<Rightarrow> bool"
    and avail :: "'s \<Rightarrow> nat set"
    and num :: "'p \<Rightarrow> nat"
    and alloc :: "'s \<Rightarrow> ('p \<times> 's) outcome"
    and release :: "'p \<Rightarrow> 's \<Rightarrow> 's outcome"
    and full :: kerr
  assumes finite_avail: "finite (avail s)"
    and alloc_ok: "wf s \<Longrightarrow> avail s \<noteq> {} \<Longrightarrow>
      \<exists>p s'. alloc s = ret (p, s') \<and> wf s' \<and> num p \<in> avail s \<and> avail s' = avail s - {num p} \<and> release p s' = ret s"
    and alloc_full: "wf s \<Longrightarrow> avail s = {} \<Longrightarrow> alloc s = fail full"
begin

lemma alloc_cases:
  assumes "wf s" and "alloc s = ret (p, s')"
  shows "wf s' \<and> num p \<in> avail s \<and> avail s' = avail s - {num p} \<and> release p s' = ret s"
  using alloc_ok [OF assms(1)] alloc_full [OF assms(1)] assms(2) by (cases "avail s = {}") auto

lemma alloc_many_distinct:
  assumes "wf s" and "k \<le> card (avail s)"
  shows "\<exists>ps s'. alloc_many alloc k s = ret (ps, s') \<and> wf s' \<and> length ps = k \<and> distinct (map num ps) \<and>
    num ` set ps \<subseteq> avail s \<and> avail s' = avail s - num ` set ps"
  using assms
proof (induction k arbitrary: s)
  case 0
  then show ?case by simp
next
  case (Suc k)
  then have "avail s \<noteq> {}" by auto
  then obtain p s1 where s1: "alloc s = ret (p, s1)" "wf s1" "num p \<in> avail s" "avail s1 = avail s - {num p}"
    using alloc_ok Suc.prems by blast
  then have "k \<le> card (avail s1)" using Suc.prems by simp
  then obtain ps s2 where "alloc_many alloc k s1 = ret (ps, s2)" "wf s2" "length ps = k" "distinct (map num ps)"
    "num ` set ps \<subseteq> avail s1" "avail s2 = avail s1 - num ` set ps"
    using Suc.IH s1(2) by blast
  with s1 show ?case by (intro exI [of _ "p # ps"] exI [of _ s2]) auto
qed

end

lemma mark_used_free:
  assumes "pa_wf s" and "page_of paddr \<in> free_pages s"
  shows "mark_free paddr (mark_used paddr s) = s"
proof -
  have p: "page_of paddr < 3840" "bit (LowRamBitF s ! bf_idx paddr) (page_of paddr mod 32)"
    using assms(2) by (auto simp: in_free_pages bf_idx_page)
  then have i: "bf_idx paddr < length (LowRamBitF s)" using assms(1) by (simp add: pa_wf_def bf_idx_bound)
  have "(LowRamBitF s ! bf_idx paddr AND NOT (bit_mask paddr)) OR bit_mask paddr = LowRamBitF s ! bf_idx paddr"
    using p(2) by (intro bit_word_eqI) (auto simp: bit_and_iff bit_or_iff bit_not_iff bit_mask_page)
  then have "LowRamBitF (mark_free paddr (mark_used paddr s)) = LowRamBitF s"
    using i by (simp add: mark_free_def mark_used_def)
  then show ?thesis by (simp add: mark_free_def mark_used_def)
qed

lemma pa_alloc_correct:
  assumes wf: "pa_wf s"
  shows "if free_pages s = {} then pa_alloc s = fail (Panic ''out of memory.'')
    else \<exists>paddr s'. pa_alloc s = ret (paddr, s') \<and> paddr = of_nat (4096 * Min (free_pages s)) \<and>
      page_of paddr = Min (free_pages s) \<and> free_pages s' = free_pages s - {page_of paddr} \<and> pa_wf s' \<and>
      mem s' = mem s \<and> io s' = io s \<and> pa_state.more s' = pa_state.more s \<and> idt_part s' = idt_part s"
proof (cases "free_pages s = {}")
  case True
  then show ?thesis using wf by (simp add: pa_alloc_def pa_wf_def unat_eq_zero)
next
  case False
  define p :: u32 where "p = of_nat (4096 * Min (free_pages s))"
  have alloc: "pa_alloc s = ret (p, mark_used p s)" and page: "page_of p = Min (free_pages s)"
    using pa_alloc_Min [OF wf False] by (simp_all add: p_def)
  have "page_of p \<in> free_pages s" using False by (simp add: page)
  then have "pa_wf (mark_used p s)" "free_pages (mark_used p s) = free_pages s - {page_of p}"
    using pa_wf_mark_used [OF wf] free_pages_mark_used [of s p] wf
    by (simp_all add: in_free_pages pa_wf_def)
  then show ?thesis
    using False alloc page by (auto simp: p_def mark_used_def)
qed

lemma pa_free_correct:
  assumes "pa_wf s" and "unat paddr < 0xF00000"
  shows "\<exists>s'. pa_free paddr s = ret s' \<and> pa_wf s' \<and> free_pages s' = insert (page_of paddr) (free_pages s) \<and>
    pa_free paddr s' = ret s' \<and> mem s' = mem s \<and> io s' = io s \<and> pa_state.more s' = pa_state.more s \<and> idt_part s' = idt_part s"
proof (cases "page_of paddr \<in> free_pages s")
  case True
  then show ?thesis using assms page_of_bound [OF assms(2)] by (auto simp: pa_free_eq)
next
  case False
  let ?s = "mark_free paddr s"
  have p: "page_of paddr < 3840" using assms(2) by (rule page_of_bound)
  have "pa_wf ?s" using assms(1) p False by (rule pa_wf_mark_free)
  moreover have "free_pages ?s = insert (page_of paddr) (free_pages s)"
    using assms(1) p by (simp add: free_pages_mark_free pa_wf_def)
  ultimately show ?thesis
    using assms(1) p False by (simp add: pa_free_eq) (simp add: mark_free_def)
qed

lemma pa_alloc_free_roundtrip:
  assumes wf: "pa_wf s" and alloc: "pa_alloc s = ret (paddr, s')"
  shows "pa_free paddr s' = ret s"
proof -
  have ne: "free_pages s \<noteq> {}" using pa_alloc_correct [OF wf] alloc by auto
  then have s': "s' = mark_used paddr s" and page: "page_of paddr = Min (free_pages s)"
    using pa_alloc_Min [OF wf ne] alloc by auto
  have "page_of paddr \<in> free_pages s" using ne by (simp add: page)
  then show ?thesis
    using wf pa_wf_mark_used [OF wf] free_pages_mark_used [of s paddr]
    by (simp add: s' pa_free_eq mark_used_free in_free_pages pa_wf_def)
qed

interpretation low_ram: page_allocator pa_wf free_pages page_of pa_alloc pa_free "Panic ''out of memory.''"
proof unfold_locales
  fix s :: "'a pa_state_scheme"
  assume wf: "pa_wf s"
  show "\<exists>p s'. pa_alloc s = ret (p, s') \<and> pa_wf s' \<and> page_of p \<in> free_pages s \<and>
      free_pages s' = free_pages s - {page_of p} \<and> pa_free p s' = ret s" if ne: "free_pages s \<noteq> {}"
  proof -
    obtain p s' where a: "pa_alloc s = ret (p, s')" "page_of p = Min (free_pages s)"
      "free_pages s' = free_pages s - {page_of p}" "pa_wf s'"
      using pa_alloc_correct [OF wf] ne by auto
    have "page_of p \<in> free_pages s" unfolding a(2) using ne by (rule Min_in [OF finite_free_pages])
    then show ?thesis using a pa_alloc_free_roundtrip [OF wf a(1)] by blast
  qed
  show "pa_alloc s = fail (Panic ''out of memory.'')" if "free_pages s = {}"
    using pa_alloc_correct [OF wf] that by simp
qed simp

section \<open>Building the bitmap from the memory map\<close>

text \<open>
  \<open>mm_init\<close> frees the pages of every usable region of the multiboot memory map, up to 15 MiB:
  \<open>for (j = base; j < base + length; j += 0x1000) { if (j >= 0xF00000) break; pa_free(j); }\<close>.
  An entry (\<open>mmap_entry_t\<close> of multiboot.h) holds \<open>size\<close>, \<open>base_addr_low\<close>,
  \<open>base_addr_high\<close>, \<open>length_low\<close>, \<open>length_high\<close>, \<open>type\<close> in six cells; the loop reads
  four of them and the next entry stands \<open>size + 4\<close> bytes further.
\<close>

lemma unat_next_page: "unat j < 0xF00000 \<Longrightarrow> unat (j + 0x1000) = unat j + 4096" for j :: u32
  using unat_add_small [of j "0x1000"] by simp

function free_region :: "u32 \<Rightarrow> u32 \<Rightarrow> 'a pa_state_scheme \<Rightarrow> 'a pa_state_scheme outcome" where
  "free_region j limit s =
    (if j < limit
     then (if j \<ge> 0xF00000 then ret s
           else bnd (pa_free j s) (\<lambda>s. free_region (j + 0x1000) limit s))
     else ret s)"
  by pat_completeness auto
termination
proof (relation "measure (\<lambda>(j, limit, s). 0xF00000 - unat j)")
  fix j limit :: u32 and s v :: "'a pa_state_scheme"
  assume "\<not> j \<ge> 0xF00000"
  then have "unat j < 0xF00000" by (simp add: word_le_nat_alt)
  then show "((j + 0x1000, limit, v), (j, limit, s)) \<in> measure (\<lambda>(j, limit, s). 0xF00000 - unat j)"
    using unat_next_page by simp
qed simp

declare free_region.simps [simp del]

partial_function (option) mmap_loop :: "u32 \<Rightarrow> u32 \<Rightarrow> 'a pa_state_scheme \<Rightarrow> 'a pa_state_scheme outcome" where
  "mmap_loop i mmap_end s =
    (if i < mmap_end
     then bnd (if mem s (i + 20) = 1
               then free_region (mem s (i + 4)) (mem s (i + 4) + mem s (i + 12)) s else ret s)
            (\<lambda>s. mmap_loop (i + (mem s i + 4)) mmap_end s)
     else ret s)"

text \<open>\<open>for (i = 0x100000; i < kernel_end; i += 0x1000) set_page_bit(i);\<close>\<close>

partial_function (option) reserve_loop :: "u32 \<Rightarrow> u32 \<Rightarrow> 'a pa_state_scheme \<Rightarrow> 'a pa_state_scheme outcome" where
  "reserve_loop i kernel_end s =
    (if i < kernel_end then bnd (set_page_bit i s) (\<lambda>s. reserve_loop (i + 0x1000) kernel_end s) else ret s)"

text \<open>The allocator part of \<open>mm_init\<close>, after the interrupt tables are installed.\<close>

definition init_low_ram :: "u32 \<Rightarrow> u32 \<Rightarrow> u32 \<Rightarrow> 'a pa_state_scheme \<Rightarrow> 'a pa_state_scheme outcome" where
  "init_low_ram mmap_addr mmap_length kernel_end s =
    (let s = s\<lparr>LowRamBitF := replicate PM_LOW_PAGE_COUNT 0, LowRamFreeCount := 0\<rparr>
     in bnd (mmap_loop mmap_addr (mmap_addr + mmap_length) s) (\<lambda>s.
        bnd (set_page_bit 0 s) (\<lambda>s.
        reserve_loop 0x100000 kernel_end (s\<lparr>HighRamFreeCount := 0\<rparr>))))"

definition region_pages :: "u32 \<Rightarrow> u32 \<Rightarrow> nat set" where
  "region_pages j limit = {page_of j + k | k. unat j + 4096 * k < min (unat limit) 0xF00000}"

lemma region_pages_empty: "\<not> unat j < min (unat limit) 0xF00000 \<Longrightarrow> region_pages j limit = {}"
  by (auto simp: region_pages_def)

lemma region_pages_step:
  assumes "unat j < min (unat limit) 0xF00000"
  shows "region_pages j limit = insert (page_of j) (region_pages (j + 0x1000) limit)"
proof -
  have next_j: "unat (j + 0x1000) = unat j + 4096" using assms by (intro unat_next_page) simp
  then have page: "page_of (j + 0x1000) = Suc (page_of j)" by (simp add: page_of_def)
  have "(\<exists>k. p = page_of j + k \<and> unat j + 4096 * k < min (unat limit) 0xF00000) \<longleftrightarrow>
    p = page_of j \<or> (\<exists>k. p = Suc (page_of j) + k \<and> unat j + 4096 + 4096 * k < min (unat limit) 0xF00000)" for p
  proof
    assume "\<exists>k. p = page_of j + k \<and> unat j + 4096 * k < min (unat limit) 0xF00000"
    then obtain k where k: "p = page_of j + k" "unat j + 4096 * k < min (unat limit) 0xF00000" by blast
    show "p = page_of j \<or> (\<exists>k. p = Suc (page_of j) + k \<and> unat j + 4096 + 4096 * k < min (unat limit) 0xF00000)"
    proof (cases k)
      case 0
      with k show ?thesis by simp
    next
      case (Suc k')
      with k show ?thesis by (intro disjI2 exI [of _ k']) simp
    qed
  next
    assume "p = page_of j \<or> (\<exists>k. p = Suc (page_of j) + k \<and> unat j + 4096 + 4096 * k < min (unat limit) 0xF00000)"
    then show "\<exists>k. p = page_of j + k \<and> unat j + 4096 * k < min (unat limit) 0xF00000"
    proof
      assume "p = page_of j"
      with assms show ?thesis by (intro exI [of _ 0]) simp
    next
      assume "\<exists>k. p = Suc (page_of j) + k \<and> unat j + 4096 + 4096 * k < min (unat limit) 0xF00000"
      then obtain k where "p = Suc (page_of j) + k" "unat j + 4096 + 4096 * k < min (unat limit) 0xF00000" by blast
      then show ?thesis by (intro exI [of _ "Suc k"]) simp
    qed
  qed
  then show ?thesis by (auto simp: region_pages_def next_j page)
qed

lemma free_region_correct:
  assumes "pa_wf s"
  shows "\<exists>s'. free_region j limit s = ret s' \<and> pa_wf s' \<and>
    free_pages s' = free_pages s \<union> region_pages j limit \<and> mem s' = mem s \<and> io s' = io s \<and> pa_state.more s' = pa_state.more s \<and> idt_part s' = idt_part s"
  using assms
proof (induction j limit s rule: free_region.induct)
  case (1 j limit s)
  show ?case
  proof (cases "unat j < min (unat limit) 0xF00000")
    case False
    then show ?thesis
      using "1.prems" by (auto simp: free_region.simps region_pages_empty word_less_nat_alt word_le_nat_alt)
  next
    case True
    then have guard: "j < limit" "\<not> j \<ge> 0xF00000" by (simp_all add: word_less_nat_alt word_le_nat_alt)
    obtain s1 where s1: "pa_free j s = ret s1" "pa_wf s1" "free_pages s1 = insert (page_of j) (free_pages s)"
      "mem s1 = mem s" "io s1 = io s" "pa_state.more s1 = pa_state.more s" "idt_part s1 = idt_part s"
      using pa_free_correct [OF "1.prems", of j] True by auto
    then show ?thesis
      using "1.IH" [OF guard s1(1,2)] guard
      by (auto simp: free_region.simps [of j limit s] region_pages_step [OF True])
  qed
qed

text \<open>The entries of a memory map, as base, length and type, in memory from \<open>i\<close> to \<open>e\<close>.\<close>

fun mmap_list :: "cells \<Rightarrow> u32 \<Rightarrow> u32 \<Rightarrow> (u32 \<times> u32 \<times> u32) list \<Rightarrow> bool" where
  "mmap_list m i e [] \<longleftrightarrow> \<not> i < e"
| "mmap_list m i e ((base, len, type) # es) \<longleftrightarrow> i < e \<and> m (i + 4) = base \<and> m (i + 12) = len \<and>
     m (i + 20) = type \<and> mmap_list m (i + (m i + 4)) e es"

definition usable_pages :: "(u32 \<times> u32 \<times> u32) list \<Rightarrow> nat set" where
  "usable_pages es = (\<Union>(base, len, type) \<in> set es. if type = 1 then region_pages base (base + len) else {})"

lemma mmap_loop_correct:
  assumes "pa_wf s" and "mmap_list (mem s) i e es"
  shows "\<exists>s'. mmap_loop i e s = ret s' \<and> pa_wf s' \<and>
    free_pages s' = free_pages s \<union> usable_pages es \<and> mem s' = mem s \<and> io s' = io s \<and> pa_state.more s' = pa_state.more s \<and> idt_part s' = idt_part s"
  using assms
proof (induction es arbitrary: i s)
  case Nil
  then show ?case by (simp add: mmap_loop.simps usable_pages_def)
next
  case (Cons en es)
  obtain base len type where en: "en = (base, len, type)" by (cases en)
  have entry: "i < e" "mem s (i + 4) = base" "mem s (i + 12) = len" "mem s (i + 20) = type"
    "mmap_list (mem s) (i + (mem s i + 4)) e es"
    using Cons.prems(2) unfolding en by auto
  obtain s1 where s1: "(if type = 1 then free_region base (base + len) s else ret s) = ret s1" "pa_wf s1"
    "free_pages s1 = free_pages s \<union> (if type = 1 then region_pages base (base + len) else {})"
    "mem s1 = mem s" "io s1 = io s" "pa_state.more s1 = pa_state.more s" "idt_part s1 = idt_part s"
    using free_region_correct [OF Cons.prems(1), of base "base + len"] Cons.prems(1) by (cases "type = 1") auto
  moreover have "mmap_loop i e s = mmap_loop (i + (mem s i + 4)) e s1"
    using entry s1 by (cases "type = 1") (simp_all add: mmap_loop.simps [of i])
  ultimately show ?case
    using Cons.IH [of s1 "i + (mem s i + 4)"] entry(5) by (auto simp: en usable_pages_def)
qed

text \<open>The pages of the kernel image, from 1 MiB up to its end.\<close>

lemma reserve_loop_correct:
  assumes "pa_wf s" and "unat kernel_end \<le> 0xF00000" and "region_pages i kernel_end \<subseteq> free_pages s"
  shows "\<exists>s'. reserve_loop i kernel_end s = ret s' \<and> pa_wf s' \<and>
    free_pages s' = free_pages s - region_pages i kernel_end \<and> mem s' = mem s \<and> io s' = io s \<and> pa_state.more s' = pa_state.more s \<and> idt_part s' = idt_part s"
  using assms
proof (induction "unat kernel_end - unat i" arbitrary: i s rule: less_induct)
  case less
  show ?case
  proof (cases "i < kernel_end")
    case False
    then show ?thesis
      using less.prems by (auto simp: reserve_loop.simps region_pages_empty word_less_nat_alt)
  next
    case True
    then have i: "unat i < min (unat kernel_end) 0xF00000" "unat i < 0xF00000"
      using less.prems(2) by (simp_all add: word_less_nat_alt)
    let ?s = "mark_used i s"
    have step: "region_pages i kernel_end = insert (page_of i) (region_pages (i + 0x1000) kernel_end)"
      using i(1) by (rule region_pages_step)
    have p: "page_of i < 3840" "page_of i \<in> free_pages s"
      using page_of_bound [OF i(2)] less.prems(3) step by auto
    have "page_of i < page_of i + 1 + k" for k by simp
    moreover have "page_of (i + 0x1000) = page_of i + 1"
      using unat_next_page [OF i(2)] by (simp add: page_of_def)
    ultimately have new: "page_of i \<notin> region_pages (i + 0x1000) kernel_end"
      by (auto simp: region_pages_def)
    have s1: "set_page_bit i s = ret ?s" "pa_wf ?s" "free_pages ?s = free_pages s - {page_of i}"
      using less.prems(1) p free_pages_mark_used [of s i] by (simp_all add: set_page_bit_eq pa_wf_mark_used) (simp add: pa_wf_def)
    have "unat kernel_end - unat (i + 0x1000) < unat kernel_end - unat i"
      using i unat_next_page [OF i(2)] by simp
    moreover have "region_pages (i + 0x1000) kernel_end \<subseteq> free_pages ?s"
      using less.prems(3) step new s1(3) by auto
    ultimately obtain s' where "reserve_loop (i + 0x1000) kernel_end ?s = ret s'" "pa_wf s'"
      "free_pages s' = free_pages ?s - region_pages (i + 0x1000) kernel_end" "mem s' = mem ?s" "io s' = io ?s" "pa_state.more s' = pa_state.more ?s" "idt_part s' = idt_part ?s"
      using less.hyps [OF _ s1(2) less.prems(2)] by blast
    then show ?thesis
      using True s1 step by (auto simp: reserve_loop.simps [of i] mark_used_def)
  qed
qed

lemma free_pages_blank: "LowRamBitF s = replicate PM_LOW_PAGE_COUNT 0 \<Longrightarrow> free_pages s = {}"
  by (auto simp: in_free_pages PM_LOW_PAGE_COUNT_def)

lemma page_of_0: "page_of 0 = 0"
  by (simp add: page_of_def)

lemma init_low_ram_correct:
  assumes map: "mmap_list (mem s) mmap_addr (mmap_addr + mmap_length) es"
    and kernel: "unat kernel_end \<le> 0xF00000"
    and usable: "insert 0 (region_pages 0x100000 kernel_end) \<subseteq> usable_pages es"
  shows "\<exists>s'. init_low_ram mmap_addr mmap_length kernel_end s = ret s' \<and> pa_wf s' \<and>
    free_pages s' = usable_pages es - insert 0 (region_pages 0x100000 kernel_end) \<and> mem s' = mem s \<and> io s' = io s \<and> pa_state.more s' = pa_state.more s \<and> idt_part s' = idt_part s"
proof -
  let ?s0 = "s\<lparr>LowRamBitF := replicate PM_LOW_PAGE_COUNT 0, LowRamFreeCount := 0\<rparr>"
  have blank: "free_pages ?s0 = {}" by (simp add: free_pages_blank)
  then have "pa_wf ?s0" by (simp add: pa_wf_def)
  then obtain s1 where s1: "mmap_loop mmap_addr (mmap_addr + mmap_length) ?s0 = ret s1" "pa_wf s1"
    "free_pages s1 = usable_pages es" "mem s1 = mem s" "io s1 = io s" "pa_state.more s1 = pa_state.more s" "idt_part s1 = idt_part s"
    using mmap_loop_correct [of ?s0 mmap_addr "mmap_addr + mmap_length" es] map blank by auto
  let ?s2 = "mark_used 0 s1" let ?s3 = "?s2\<lparr>HighRamFreeCount := 0\<rparr>"
  have "page_of 0 \<in> free_pages s1" using usable s1(3) by (simp add: page_of_0)
  then have s2: "set_page_bit 0 s1 = ret ?s2" "pa_wf ?s2" "free_pages ?s2 = usable_pages es - {0}"
    using s1 free_pages_mark_used [of s1 0] by (simp_all add: set_page_bit_eq pa_wf_mark_used page_of_0) (simp add: pa_wf_def)
  have eq: "free_pages ?s3 = free_pages ?s2" "pa_wf ?s3 = pa_wf ?s2"
    by (simp_all add: free_pages_def page_free_def [abs_def] pa_wf_def)
  have "0 \<notin> region_pages 0x100000 kernel_end"
    by (auto simp: region_pages_def page_of_def)
  then have "region_pages 0x100000 kernel_end \<subseteq> free_pages ?s3"
    using usable s2(3) eq(1) by auto
  then obtain s' where "reserve_loop 0x100000 kernel_end ?s3 = ret s'" "pa_wf s'"
    "free_pages s' = free_pages ?s3 - region_pages 0x100000 kernel_end" "mem s' = mem ?s3" "io s' = io ?s3" "pa_state.more s' = pa_state.more ?s3" "idt_part s' = idt_part ?s3"
    using reserve_loop_correct [of ?s3 kernel_end "0x100000"] s2(2) eq(2) kernel by auto
  then show ?thesis
    using s1 s2 eq by (auto simp: init_low_ram_def mark_used_def)
qed

section \<open>Properties\<close>

text \<open>A concrete machine whose bitmap is empty, and one with the pages 3 and 5 free.\<close>

definition cold_pa :: pa_state where
  "cold_pa = idt_state.extend cold_idt (pa_state.fields (replicate PM_LOW_PAGE_COUNT 0) 0 0)"

definition two_pages :: pa_state where
  "two_pages = mark_free 0x5000 (mark_free 0x3000 cold_pa)"

lemma cold_pa_simps: "LowRamBitF cold_pa = replicate PM_LOW_PAGE_COUNT 0" "LowRamFreeCount cold_pa = 0" "mem cold_pa = (\<lambda>a. 0)"
  by (simp_all add: cold_pa_def idt_state.extend_def pa_state.fields_def cold_idt_def)

lemma cold_pa_wf: "pa_wf cold_pa" "free_pages cold_pa = {}"
proof -
  show "free_pages cold_pa = {}" by (simp add: free_pages_blank cold_pa_simps)
  then show "pa_wf cold_pa" by (simp add: pa_wf_def cold_pa_simps)
qed

lemma two_pages_free: "pa_wf two_pages" "free_pages two_pages = {3, 5}"
proof -
  let ?s = "mark_free 0x3000 cold_pa"
  have p: "page_of 0x3000 = 3" "page_of 0x5000 = 5" by (simp_all add: page_of_def)
  have s: "pa_wf ?s" "free_pages ?s = {3}"
    using pa_wf_mark_free [of cold_pa "0x3000"] free_pages_mark_free [of cold_pa "0x3000"] cold_pa_wf p
    by (simp_all add: pa_wf_def)
  show "pa_wf two_pages" using pa_wf_mark_free [of ?s "0x5000"] s p by (simp add: two_pages_def)
  show "free_pages two_pages = {3, 5}"
    using free_pages_mark_free [of ?s "0x5000"] s p by (auto simp: two_pages_def pa_wf_def)
qed

text \<open>C1. The page allocator. With no free page \<open>pa_alloc\<close> panics. Otherwise it returns the address of the
  lowest free page, takes exactly that page out of the free pages, keeps the count right, changes nothing else,
  and \<open>pa_free\<close> of the page restores the state. Both searches of the bitmap terminate.\<close>

theorem pa_alloc_lowest_page:
  assumes "pa_wf s"
  shows "if free_pages s = {} then pa_alloc s = fail (Panic ''out of memory.'')
    else \<exists>paddr s'. pa_alloc s = ret (paddr, s') \<and> paddr = of_nat (4096 * Min (free_pages s)) \<and>
      free_pages s' = free_pages s - {Min (free_pages s)} \<and> pa_wf s' \<and> pa_free paddr s' = ret s \<and>
      idt_part s' = idt_part s \<and> pa_state.more s' = pa_state.more s"
proof (cases "free_pages s = {}")
  case True
  then show ?thesis using pa_alloc_correct [OF assms] by simp
next
  case False
  then show ?thesis using pa_alloc_correct [OF assms] pa_alloc_free_roundtrip [OF assms] by auto
qed

theorem pa_alloc_lowest_page_witness:
  "\<exists>s'. pa_alloc two_pages = ret (0x3000, s') \<and> free_pages s' = {5} \<and> pa_free 0x3000 s' = ret two_pages"
proof -
  have "Min {3, 5 :: nat} = 3" by simp
  moreover have "{3, 5} - {3} = {5 :: nat}" by auto
  ultimately show ?thesis
    using pa_alloc_lowest_page [of two_pages] two_pages_free by auto
qed

text \<open>As many allocations in a row as there are free pages succeed, and they hand out different pages, all
  of which were free.\<close>

lemma pa_alloc_distinct_pages:
  assumes "pa_wf s" and "k \<le> card (free_pages s)"
  shows "\<exists>ps s'. alloc_many pa_alloc k s = ret (ps, s') \<and> pa_wf s' \<and> length ps = k \<and> distinct (map page_of ps) \<and>
    page_of ` set ps \<subseteq> free_pages s \<and> free_pages s' = free_pages s - page_of ` set ps"
  using assms by (rule low_ram.alloc_many_distinct)

text \<open>\<open>pa_free\<close> of an address below 15 MiB makes its page free, once: it returns, keeps the count right, and
  a second \<open>pa_free\<close> of the same page changes nothing.\<close>

lemma pa_free_idempotent:
  assumes "pa_wf s" and "unat paddr < 0xF00000"
  shows "\<exists>s'. pa_free paddr s = ret s' \<and> pa_wf s' \<and> free_pages s' = insert (page_of paddr) (free_pages s) \<and>
    pa_free paddr s' = ret s'"
  using pa_free_correct [OF assms] by blast

end
