(* ===== verification/Paging.thy ===== *)
theory Paging
  imports PageAlloc
begin

text \<open>
  mm.c, the page tables. \<open>phys\<close> holds the cells of physical memory that contain the page
  directory and the page tables, \<open>cr3\<close> the address of the active directory, and \<open>translate\<close> is
  the two-level walk of the processor (32-bit paging, 4 KiB pages, no 4 MiB pages). The kernel edits the tables through
  the recursive entry 1023 of the directory: virtual addresses from 0xFFC00000 on. An access
  without a translation is a page fault; the handler of mm.c panics, so it ends the run.

  \<open>pg_inv\<close> is the invariant of the mapping operations: the directory is its own last table, and
  neither the directory nor a page table lies in a free page. \<open>mm_map\<close> keeps it and changes
  the translation of the mapped page only; \<open>get_physaddr\<close> is the processor's translation.
\<close>

section \<open>State, translation and access\<close>

record paging_state = pa_state +
  phys :: cells
  cr3 :: u32
  kernelpagedirPtr :: u32
  invlpg_log :: "u32 list"

definition PAGE_PRESENT :: u32 where
  "PAGE_PRESENT = 1"

definition PAGE_WRITE :: u32 where
  "PAGE_WRITE = 2"

definition PAGE_USER :: u32 where
  "PAGE_USER = 4"

definition pdindex :: "u32 \<Rightarrow> u32" where
  "pdindex virtualaddr = drop_bit 22 virtualaddr"

definition ptindex :: "u32 \<Rightarrow> u32" where
  "ptindex virtualaddr = drop_bit 12 virtualaddr AND 0x3FF"

definition frame :: "u32 \<Rightarrow> u32" where
  "frame e = e AND NOT 0xFFF"

definition present :: "u32 \<Rightarrow> bool" where
  "present e \<longleftrightarrow> e AND 0x01 \<noteq> 0"

definition translate :: "cells \<Rightarrow> u32 \<Rightarrow> u32 \<Rightarrow> u32 option" where
  "translate ph pdir va =
    (let pde = ph (frame pdir + 4 * pdindex va) in
     if present pde
     then (let pte = ph (frame pde + 4 * ptindex va) in
           if present pte then Some (frame pte + (va AND 0xFFF)) else None)
     else None)"

definition vread :: "u32 \<Rightarrow> 'a paging_state_scheme \<Rightarrow> u32 outcome" where
  "vread va s = (case translate (phys s) (cr3 s) va of None \<Rightarrow> fail (PageFault va) | Some pa \<Rightarrow> ret (phys s pa))"

definition vwrite :: "u32 \<Rightarrow> u32 \<Rightarrow> 'a paging_state_scheme \<Rightarrow> 'a paging_state_scheme outcome" where
  "vwrite va v s = (case translate (phys s) (cr3 s) va of None \<Rightarrow> fail (PageFault va)
     | Some pa \<Rightarrow> ret (s\<lparr>phys := (phys s)(pa := v)\<rparr>))"

definition vstore8 :: "u32 \<Rightarrow> u8 \<Rightarrow> 'a paging_state_scheme \<Rightarrow> 'a paging_state_scheme outcome" where
  "vstore8 va v s = (case translate (phys s) (cr3 s) va of None \<Rightarrow> fail (PageFault va)
     | Some pa \<Rightarrow> ret (s\<lparr>phys := store8 (phys s) pa v\<rparr>))"

text \<open>\<open>memset\<close> (common.c) on the window of the page tables: each byte is translated.\<close>

function vmemset :: "u32 \<Rightarrow> u8 \<Rightarrow> u32 \<Rightarrow> 'a paging_state_scheme \<Rightarrow> 'a paging_state_scheme outcome" where
  "vmemset dest val len s =
     (if len \<noteq> 0 then bnd (vstore8 dest val s) (\<lambda>s. vmemset (dest + 1) val (len - 1) s) else ret s)"
  by pat_completeness auto
termination
  by (relation "measure (\<lambda>(dest, val, len, s). unat len)") (auto simp: measure_unat)

declare vmemset.simps [simp del]

section \<open>The operations\<close>

text \<open>The window on the page tables: \<open>pd\<close> is at 0xFFFFF000, table \<open>i\<close> at 0xFFC00000 + 0x1000 i.\<close>

definition pd_va :: "u32 \<Rightarrow> u32" where
  "pd_va i = 0xFFFFF000 + 4 * i"

definition pt_va :: "u32 \<Rightarrow> u32 \<Rightarrow> u32" where
  "pt_va i j = 0xFFC00000 + 4 * (0x400 * i) + 4 * j"

definition flush_tlb :: "u32 \<Rightarrow> 'a paging_state_scheme \<Rightarrow> 'a paging_state_scheme" where
  "flush_tlb virtualaddr s = s\<lparr>invlpg_log := invlpg_log s @ [virtualaddr]\<rparr>"

definition switch_page_directory :: "u32 \<Rightarrow> 'a paging_state_scheme \<Rightarrow> 'a paging_state_scheme" where
  "switch_page_directory pagetabledir_ptr s = s\<lparr>cr3 := pagetabledir_ptr\<rparr>"

definition get_physaddr :: "u32 \<Rightarrow> 'a paging_state_scheme \<Rightarrow> u32 outcome" where
  "get_physaddr virtualaddr s =
    bnd (vread (pd_va (pdindex virtualaddr)) s) (\<lambda>pde.
    if pde AND 0x01 = 0 then ret 0
    else bnd (vread (pt_va (pdindex virtualaddr) (ptindex virtualaddr)) s) (\<lambda>pte.
    if pte AND 0x01 = 0 then ret 0
    else ret ((pte AND NOT 0xFFF) + (virtualaddr AND 0xFFF))))"

text \<open>Adding a page table: \<open>pd[pdindex] = pa_alloc() | (flags & 0xFFF) | 0x01; memset(pt, 0, 4096)\<close>.\<close>

definition add_page_table :: "u32 \<Rightarrow> u32 \<Rightarrow> 'a paging_state_scheme \<Rightarrow> 'a paging_state_scheme outcome" where
  "add_page_table i flags s =
    bnd (pa_alloc s) (\<lambda>(p, s).
    bnd (vwrite (pd_va i) (p OR (flags AND 0xFFF) OR 0x01) s) (\<lambda>s.
    vmemset (pt_va i 0) 0 4096 s))"

definition mm_map :: "u32 \<Rightarrow> u32 \<Rightarrow> u32 \<Rightarrow> 'a paging_state_scheme \<Rightarrow> (u32 \<times> 'a paging_state_scheme) outcome" where
  "mm_map physaddr virtualaddr flags s =
    (if physaddr = 0 then ret (0, s)
     else bnd (vread (pd_va (pdindex virtualaddr)) s) (\<lambda>pde.
          bnd (if pde AND 0x01 = 0 then add_page_table (pdindex virtualaddr) flags s else ret s) (\<lambda>s.
          bnd (vwrite (pt_va (pdindex virtualaddr) (ptindex virtualaddr))
                 (physaddr OR (flags AND 0xFFF) OR 0x01) s) (\<lambda>s.
          ret (virtualaddr, flush_tlb virtualaddr s)))))"

definition mm_unmap :: "u32 \<Rightarrow> 'a paging_state_scheme \<Rightarrow> 'a paging_state_scheme outcome" where
  "mm_unmap virtualaddr s =
    bnd (vwrite (pt_va (pdindex virtualaddr) (ptindex virtualaddr)) 0 s) (\<lambda>s.
    ret (flush_tlb virtualaddr s))"

section \<open>Indices and frames\<close>

lemma unat_pdindex: "unat (pdindex va) = unat va div 4194304"
  unfolding pdindex_def unat_drop_bit_eq by (simp add: drop_bit_eq_div)

lemma unat_ptindex: "unat (ptindex va) = unat va div 4096 mod 1024"
proof -
  have "unat (drop_bit 12 va) = unat va div 4096"
    unfolding unat_drop_bit_eq by (simp add: drop_bit_eq_div)
  then show ?thesis unfolding ptindex_def unat_and_1023 by simp
qed

lemma pdindex_bound: "unat (pdindex va) < 1024"
  using unat_lt_32 [of va] by (simp add: unat_pdindex less_mult_imp_div_less)

lemma ptindex_bound: "unat (ptindex va) < 1024"
  by (simp add: unat_ptindex)

lemma unat_frame: "unat (frame e) = unat e - unat e mod 4096"
  unfolding frame_def by (rule unat_and_not_4095)

lemma frame_mod: "unat (frame e) mod 4096 = 0"
  by (simp add: unat_frame minus_mod_eq_mult_div)

lemma page_aligned_obtain:
  fixes f :: u32
  assumes "unat f mod 4096 = 0"
  obtains n where "unat f = 4096 * n" "n < 1048576"
proof
  show "unat f = 4096 * (unat f div 4096)" using assms by (metis add.right_neutral mult_div_mod_eq)
  show "unat f div 4096 < 1048576" using unat_lt_32 [of f] by (simp add: less_mult_imp_div_less)
qed

lemma unat_slot:
  fixes f i :: u32
  assumes f: "unat f mod 4096 = 0" and i: "unat i < 1024"
  shows "unat (f + 4 * i) = unat f + 4 * unat i"
proof -
  have "unat (4 * i) = 4 * unat i"
    using i by (simp add: unat_word_ariths)
  moreover obtain n where "unat f = 4096 * n" "n < 1048576"
    using f by (rule page_aligned_obtain)
  ultimately show ?thesis
    using unat_add_small [of f "4 * i"] i by simp
qed

lemma slot_inject:
  fixes f g i j :: u32
  assumes f: "unat f mod 4096 = 0" and g: "unat g mod 4096 = 0" and ij: "unat i < 1024" "unat j < 1024"
  shows "f + 4 * i = g + 4 * j \<longleftrightarrow> f = g \<and> i = j"
proof
  assume "f + 4 * i = g + 4 * j"
  then have "unat f + 4 * unat i = unat g + 4 * unat j"
    using assms by (metis unat_slot)
  moreover obtain n where n: "unat f = 4096 * n" using f by (rule page_aligned_obtain)
  moreover obtain k where k: "unat g = 4096 * k" using g by (rule page_aligned_obtain)
  ultimately have eq: "4096 * n + 4 * unat i = 4096 * k + 4 * unat j" by simp
  then have "\<not> n < k" "\<not> k < n" using ij by linarith+
  then have "n = k" by simp
  then show "f = g \<and> i = j"
    using eq n k by (simp add: word_unat_eq_iff)
qed simp

lemma frame_slot:
  fixes f i :: u32
  assumes f: "unat f mod 4096 = 0" and i: "unat i < 1024"
  shows "frame (f + 4 * i) = f"
proof -
  obtain n where n: "unat f = 4096 * n" using f by (rule page_aligned_obtain)
  have "(4096 * n + 4 * unat i) mod 4096 = 4 * unat i"
    using i by simp
  then show ?thesis
    by (simp add: word_unat_eq_iff unat_frame unat_slot [OF f i] n)
qed

lemma frame_frame [simp]: "frame (frame e) = frame e"
  using frame_mod [of e] by (simp add: word_unat_eq_iff unat_frame)

section \<open>The recursive window\<close>

definition self_map :: "cells \<Rightarrow> u32 \<Rightarrow> bool" where
  "self_map ph pdir \<longleftrightarrow> present (ph (frame pdir + 4 * 1023)) \<and> frame (ph (frame pdir + 4 * 1023)) = frame pdir"

text \<open>\<open>in_window va i k\<close>: \<open>va\<close> is byte \<open>k\<close> of the page through which table \<open>i\<close> is seen.\<close>

definition in_window :: "u32 \<Rightarrow> u32 \<Rightarrow> nat \<Rightarrow> bool" where
  "in_window va i k \<longleftrightarrow> unat i < 1024 \<and> k < 4096 \<and> unat va = 4290772992 + 4096 * unat i + k"

lemma window_indices:
  assumes "in_window va i k"
  shows "pdindex va = 1023" "ptindex va = i" "va AND 0xFFF = of_nat k"
proof -
  have va: "unat va = 4096 * (1047552 + unat i) + k" and i: "unat i < 1024" and k: "k < 4096"
    using assms by (auto simp: in_window_def)
  have div4096: "unat va div 4096 = 1047552 + unat i" and mod4096: "unat va mod 4096 = k"
    using k by (simp_all only: va page_div_mod)
  have "unat va div 4194304 = unat va div 4096 div 1024" by (simp add: div_mult2_eq [symmetric])
  also have "\<dots> = 1023" using i by (simp add: div4096)
  finally show "pdindex va = 1023" by (simp add: word_unat_eq_iff unat_pdindex)
  have "(1047552 + unat i) mod 1024 = unat i"
    using i mod_mult_self1 [of "unat i" 1023 1024] by (simp add: add.commute)
  then show "ptindex va = i" by (simp add: word_unat_eq_iff unat_ptindex div4096)
  show "va AND 0xFFF = of_nat k"
    using k by (simp add: word_unat_eq_iff unat_and_4095 mod4096 unat_of_nat)
qed

lemma translate_window:
  assumes "self_map ph pdir" and "in_window va i k"
  shows "translate ph pdir va =
    (if present (ph (frame pdir + 4 * i)) then Some (frame (ph (frame pdir + 4 * i)) + of_nat k) else None)"
  using assms by (simp add: translate_def window_indices self_map_def Let_def)

lemma pt_va_unat:
  assumes "unat i < 1024" and "unat j < 1024"
  shows "unat (pt_va i j) = 4290772992 + 4096 * unat i + 4 * unat j"
proof -
  have i: "unat (4 * (0x400 * i)) = 4096 * unat i"
    using assms(1) by (simp add: unat_word_ariths)
  have a: "unat (0xFFC00000 + 4 * (0x400 * i)) = 4290772992 + 4096 * unat i"
    using assms(1) i unat_add_small [of "0xFFC00000" "4 * (0x400 * i)"] by simp
  then have "unat (0xFFC00000 + 4 * (0x400 * i)) mod 4096 = 0"
    by (simp add: mod_simps)
  from unat_slot [OF this assms(2)] show ?thesis
    unfolding pt_va_def a by simp
qed

lemma pt_va_window: "unat i < 1024 \<Longrightarrow> unat j < 1024 \<Longrightarrow> in_window (pt_va i j) i (4 * unat j)"
  by (simp add: in_window_def pt_va_unat)

lemma pd_va_window: "unat i < 1024 \<Longrightarrow> in_window (pd_va i) 1023 (4 * unat i)"
  by (simp add: in_window_def pd_va_def unat_slot)

lemma of_nat_slot: "of_nat (4 * unat i) = 4 * i" for i :: u32
  by simp

lemma translate_pd:
  assumes "self_map ph pdir" and "unat i < 1024"
  shows "translate ph pdir (pd_va i) = Some (frame pdir + 4 * i)"
  using translate_window [OF assms(1) pd_va_window [OF assms(2)]] assms(1)
  by (simp add: self_map_def)

lemma translate_pt:
  assumes "self_map ph pdir" and "unat i < 1024" and "unat j < 1024"
  shows "translate ph pdir (pt_va i j) =
    (if present (ph (frame pdir + 4 * i)) then Some (frame (ph (frame pdir + 4 * i)) + 4 * j) else None)"
  using translate_window [OF assms(1) pt_va_window [OF assms(2,3)]] by simp

lemma get_physaddr_translate:
  assumes "self_map (phys s) (cr3 s)"
  shows "get_physaddr va s = ret (case translate (phys s) (cr3 s) va of None \<Rightarrow> 0 | Some pa \<Rightarrow> pa)"
  using assms
  by (simp add: get_physaddr_def vread_def translate_pd translate_pt pdindex_bound ptindex_bound)
    (auto simp: translate_def present_def frame_def Let_def)

section \<open>The invariant\<close>

definition pde :: "cells \<Rightarrow> u32 \<Rightarrow> u32 \<Rightarrow> u32" where
  "pde ph pdir i = ph (frame pdir + 4 * i)"

definition tables :: "cells \<Rightarrow> u32 \<Rightarrow> u32 set" where
  "tables ph pdir = {frame (pde ph pdir i) | i. unat i < 1024 \<and> present (pde ph pdir i)}"

definition page_addr :: "nat \<Rightarrow> u32" where
  "page_addr p = of_nat (4096 * p)"

definition pg_inv :: "'a paging_state_scheme \<Rightarrow> bool" where
  "pg_inv s \<longleftrightarrow> pa_wf s \<and> 0 \<notin> free_pages s \<and> self_map (phys s) (cr3 s) \<and>
     (\<forall>i. unat i < 1023 \<and> present (pde (phys s) (cr3 s) i) \<longrightarrow> frame (pde (phys s) (cr3 s) i) \<noteq> frame (cr3 s)) \<and>
     (\<forall>p \<in> free_pages s. page_addr p \<notin> tables (phys s) (cr3 s))"

text \<open>The directory is read through \<open>pde\<close> only, so writes elsewhere do not change it.\<close>

lemma dir_unchanged:
  assumes "\<And>i. unat i < 1024 \<Longrightarrow> pde ph' pdir i = pde ph pdir i"
  shows "self_map ph' pdir = self_map ph pdir" and "tables ph' pdir = tables ph pdir"
proof -
  show "self_map ph' pdir = self_map ph pdir"
    using assms [of 1023] by (simp add: self_map_def pde_def)
  show "tables ph' pdir = tables ph pdir"
    unfolding tables_def by (rule Collect_cong, rule ex_cong1) (auto simp: assms)
qed

lemma translate_pde: "translate ph pdir va =
   (if present (pde ph pdir (pdindex va))
    then (let pte = ph (frame (pde ph pdir (pdindex va)) + 4 * ptindex va)
          in if present pte then Some (frame pte + (va AND 0xFFF)) else None)
    else None)"
  by (simp add: translate_def pde_def Let_def)

lemma pde_upd_elsewhere:
  assumes "unat f mod 4096 = 0" and "f \<noteq> frame pdir" and "unat i < 1024" and "unat j < 1024"
  shows "pde (ph(f + 4 * j := v)) pdir i = pde ph pdir i"
  using slot_inject [OF assms(1) frame_mod assms(4,3), of pdir] assms(2) by (simp add: pde_def)

lemma translate_upd_pte:
  assumes f: "unat f mod 4096 = 0" "f \<noteq> frame pdir" and j: "unat j < 1024"
  shows "translate (ph(f + 4 * j := v)) pdir va =
    (if present (pde ph pdir (pdindex va)) \<and> frame (pde ph pdir (pdindex va)) = f \<and> ptindex va = j
     then (if present v then Some (frame v + (va AND 0xFFF)) else None)
     else translate ph pdir va)"
proof -
  have "pde (ph(f + 4 * j := v)) pdir (pdindex va) = pde ph pdir (pdindex va)"
    using f pdindex_bound j by (rule pde_upd_elsewhere)
  moreover have "frame (pde ph pdir (pdindex va)) + 4 * ptindex va = f + 4 * j \<longleftrightarrow>
      frame (pde ph pdir (pdindex va)) = f \<and> ptindex va = j"
    using frame_mod f(1) ptindex_bound j by (rule slot_inject)
  ultimately show ?thesis
    by (simp add: translate_pde Let_def)
qed

text \<open>The entries the kernel writes: an aligned address with twelve flag bits, bit 0 set.\<close>

lemma entry_present: "present (a OR (flags AND 0xFFF) OR 0x01)"
proof -
  have "bit ((a OR (flags AND 0xFFF) OR 0x01) AND 0x01) 0"
    by (simp add: bit_simps)
  then show ?thesis unfolding present_def by (metis bit_0_eq bot_apply bot_bool_def)
qed

lemma entry_frame: "frame (a OR (flags AND 0xFFF) OR 0x01) = frame a"
proof -
  have m: "(0xFFF :: u32) = mask 12" by (simp add: mask_eq_exp_minus_1)
  have o: "(0x01 :: u32) = mask 1" by simp
  show ?thesis unfolding frame_def m o
    by (rule bit_word_eqI) (auto simp: bit_simps)
qed

section \<open>Clearing a new page table through the window\<close>

lemma unat_in_page:
  fixes f :: u32
  assumes "unat f mod 4096 = 0" and "k < 4096"
  shows "unat (f + of_nat k) = unat f + k"
proof -
  obtain n where n: "unat f = 4096 * n" "n < 1048576" using assms(1) by (rule page_aligned_obtain)
  have "unat (of_nat k :: u32) = k" using assms(2) by (simp add: unat_of_nat)
  then show ?thesis using unat_add_small [of f "of_nat k"] n assms(2) by simp
qed

lemma cell_in_page:
  fixes f :: u32
  assumes f: "unat f mod 4096 = 0" and k: "k < 4096"
  shows "cell_of (f + of_nat k) = f + 4 * of_nat (k div 4)"
proof -
  obtain n where n: "unat f = 4096 * n" using f by (rule page_aligned_obtain)
  have q: "unat (of_nat (k div 4) :: u32) = k div 4" "k div 4 < 1024"
    using k by (simp_all add: unat_of_nat)
  have "(4096 * n + k) mod 4 = k mod 4"
    using mod_mult_self1 [of k "1024 * n" 4] by (simp add: algebra_simps)
  moreover have "4096 * n + k - k mod 4 = 4096 * n + 4 * (k div 4)"
    using minus_mod_eq_mult_div [of k 4] mod_less_eq_dividend [of k 4] by linarith
  ultimately show ?thesis
    using unat_slot [OF f, of "of_nat (k div 4)"] q
    by (simp add: word_unat_eq_iff cell_of_unat unat_in_page [OF f k] n)
qed

lemma pde_store8_elsewhere:
  assumes "unat f mod 4096 = 0" "f \<noteq> frame pdir" "k < 4096" "unat i < 1024"
  shows "pde (store8 ph (f + of_nat k) v) pdir i = pde ph pdir i"
proof -
  have "unat (of_nat (k div 4) :: u32) < 1024" using assms(3) by (simp add: unat_of_nat)
  then have "cell_of (f + of_nat k) \<noteq> frame pdir + 4 * i"
    using slot_inject [OF assms(1) frame_mod _ assms(4), of "of_nat (k div 4)" pdir] assms(2)
    by (simp add: cell_in_page [OF assms(1,3)])
  then show ?thesis by (simp add: pde_def store8_other_cell)
qed

lemma vmemset_window:
  assumes "self_map (phys s) (cr3 s)" and "in_window dest i k" and "k + unat len \<le> 4096"
    and "present (pde (phys s) (cr3 s) i)" and "f = frame (pde (phys s) (cr3 s) i)" and "f \<noteq> frame (cr3 s)"
  shows "vmemset dest v len s = ret (s\<lparr>phys := memset (phys s) (f + of_nat k) v len\<rparr>)"
  using assms
proof (induction dest v len s arbitrary: k rule: vmemset.induct)
  case (1 dest v len s)
  show ?case
  proof (cases "len = 0")
    case True
    then show ?thesis by (simp add: vmemset.simps [of dest] memset.simps)
  next
    case False
    let ?s = "s\<lparr>phys := store8 (phys s) (f + of_nat k) v\<rparr>"
    have len: "unat len = Suc (unat (len - 1))" using False offset_Suc [of len 0] by simp
    have k: "k < 4096" using "1.prems"(2) by (simp add: in_window_def)
    have f: "unat f mod 4096 = 0" using "1.prems"(5) by (simp add: frame_mod)
    have i: "unat i < 1024" using "1.prems"(2) by (simp add: in_window_def)
    have step: "vstore8 dest v s = ret ?s"
      using translate_window [OF "1.prems"(1,2)] "1.prems"(4,5) by (simp add: vstore8_def pde_def)
    have dir: "pde (phys ?s) (cr3 s) j = pde (phys s) (cr3 s) j" if "unat j < 1024" for j
      using pde_store8_elsewhere [OF f "1.prems"(6) k that] by simp
    have rest: "vmemset (dest + 1) v (len - 1) ?s = ret (?s\<lparr>phys := memset (phys ?s) (f + of_nat (k + 1)) v (len - 1)\<rparr>)"
    proof (cases "len - 1 = 0")
      case True
      then show ?thesis by (simp add: vmemset.simps [of "dest + 1"] memset.simps)
    next
      case False
      then have "0 < unat (len - 1)" by (simp add: unat_gt_0)
      then have k1: "k + 1 < 4096" using "1.prems"(3) len by linarith
      have "unat dest = 4290772992 + 4096 * unat i + k" using "1.prems"(2) by (simp add: in_window_def)
      then have "unat dest + 1 < 2 ^ 32" using i k1 by simp
      then have "unat (dest + 1) = unat dest + 1"
        using unat_add_small [of dest 1] by simp
      then have win: "in_window (dest + 1) i (k + 1)"
        using "1.prems"(2) k1 by (simp add: in_window_def)
      have self: "self_map (phys ?s) (cr3 ?s)"
        using "1.prems"(1) dir dir_unchanged(1) [of "phys ?s" "cr3 s" "phys s"] by auto
      show ?thesis
        by (rule "1.IH" [OF \<open>len \<noteq> 0\<close> step self win])
          (use "1.prems"(3-6) len dir [OF i] in auto)
    qed
    then show ?thesis
      using False step
      by (simp add: vmemset.simps [of dest v len] memset.simps [of "phys s" _ v len] ac_simps)
  qed
qed

text \<open>A whole page cleared: its cells are 0, every other aligned cell is kept.\<close>

lemma aligned_slot: "unat f mod 4096 = 0 \<Longrightarrow> unat i < 1024 \<Longrightarrow> aligned (f + 4 * i)" for f i :: u32
proof -
  assume f: "unat f mod 4096 = 0" and i: "unat i < 1024"
  obtain n where n: "unat f = 4096 * n" using f by (rule page_aligned_obtain)
  have "4 dvd 4096 * n + 4 * unat i" by (intro dvd_add dvd_mult2) simp_all
  then show ?thesis by (simp add: aligned_dvd unat_slot [OF f i] n)
qed

lemma memset_page_slot:
  assumes f: "unat f mod 4096 = 0" and g: "unat g mod 4096 = 0" and i: "unat i < 1024"
  shows "memset ph f 0 4096 (g + 4 * i) = (if g = f then 0 else ph (g + 4 * i))"
proof -
  obtain n where n: "unat f = 4096 * n" "n < 1048576" using f by (rule page_aligned_obtain)
  obtain k where k: "unat g = 4096 * k" "k < 1048576" using g by (rule page_aligned_obtain)
  have "unat (g + 4 * i - f) < 4096 \<longleftrightarrow> g = f"
  proof
    assume "g = f"
    then show "unat (g + 4 * i - f) < 4096" using i by (simp add: unat_word_ariths)
  next
    assume less: "unat (g + 4 * i - f) < 4096"
    have slot: "unat (g + 4 * i) = 4096 * k + 4 * unat i" using unat_slot [OF g i] k by simp
    have "\<not> k < n"
    proof
      assume "k < n"
      then have "4096 * k + 4096 \<le> 4096 * n" by linarith
      then have "\<not> 4096 * n \<le> 4096 * k + 4 * unat i" using i by linarith
      then have "unat (g + 4 * i - f) = 4096 * k + 4 * unat i + 4294967296 - 4096 * n"
        by (simp add: unat_sub_if' slot n)
      then show False using less n(2) by linarith
    qed
    moreover have "\<not> n < k"
    proof
      assume "n < k"
      then have "4096 * n + 4096 \<le> 4096 * k" by linarith
      then have "unat (g + 4 * i - f) = 4096 * k + 4 * unat i - 4096 * n"
        by (simp add: unat_sub_if' slot n)
      then show False using less \<open>4096 * n + 4096 \<le> 4096 * k\<close> by linarith
    qed
    ultimately have "n = k" by simp
    then show "g = f" using n k by (simp add: word_unat_eq_iff)
  qed
  moreover have "aligned f" using aligned_slot [OF f, of 0] by simp
  moreover have "aligned (4096 :: u32)" by (simp add: aligned_dvd)
  ultimately show ?thesis
    using memset_zero_cell [of f "g + 4 * i" 4096 ph] aligned_slot [OF g i] by simp
qed

section \<open>Mapping keeps the invariant\<close>

lemma frame_aligned: "frame f = f \<longleftrightarrow> unat f mod 4096 = 0"
proof
  show "frame f = f \<Longrightarrow> unat f mod 4096 = 0" using frame_mod [of f] by simp
  show "unat f mod 4096 = 0 \<Longrightarrow> frame f = f" using frame_slot [of f 0] by simp
qed

lemma page_addr_props:
  assumes "p < 3840"
  shows "unat (page_addr p) = 4096 * p" "frame (page_addr p) = page_addr p" "page_of (page_addr p) = p"
proof -
  show unat: "unat (page_addr p) = 4096 * p"
    using assms unfolding page_addr_def by (simp only: unat_of_nat) simp
  then show "frame (page_addr p) = page_addr p" by (simp add: frame_aligned)
  show "page_of (page_addr p) = p" by (simp add: page_of_def unat)
qed

lemma free_pages_phys: "free_pages (s\<lparr>phys := p\<rparr>) = free_pages s" "free_pages (s\<lparr>invlpg_log := l\<rparr>) = free_pages s"
  by (simp_all add: free_pages_def page_free_def [abs_def])

lemma pa_wf_phys: "pa_wf (s\<lparr>phys := p\<rparr>) = pa_wf s" "pa_wf (s\<lparr>invlpg_log := l\<rparr>) = pa_wf s"
  by (simp_all add: pa_wf_def free_pages_phys)

lemma vread_pd:
  "self_map (phys s) (cr3 s) \<Longrightarrow> unat i < 1024 \<Longrightarrow> vread (pd_va i) s = ret (pde (phys s) (cr3 s) i)"
  by (simp add: vread_def translate_pd pde_def)

lemma vwrite_pt:
  "self_map (phys s) (cr3 s) \<Longrightarrow> unat i < 1024 \<Longrightarrow> unat j < 1024 \<Longrightarrow> present (pde (phys s) (cr3 s) i) \<Longrightarrow>
   vwrite (pt_va i j) v s = ret (s\<lparr>phys := (phys s)(frame (pde (phys s) (cr3 s) i) + 4 * j := v)\<rparr>)"
  by (simp add: vwrite_def translate_pt pde_def)

text \<open>Writing an entry of a page table that is present.\<close>

lemma pg_inv_upd_pte:
  assumes inv: "pg_inv s" and i: "unat i < 1023" and j: "unat j < 1024"
    and present: "present (pde (phys s) (cr3 s) i)"
    and ph'_def: "ph' = (phys s)(frame (pde (phys s) (cr3 s) i) + 4 * j := v)"
  shows "pg_inv (s\<lparr>phys := ph'\<rparr>)" and "\<And>k. unat k < 1024 \<Longrightarrow> pde ph' (cr3 s) k = pde (phys s) (cr3 s) k"
proof -
  have apart: "frame (pde (phys s) (cr3 s) i) \<noteq> frame (cr3 s)"
    using inv i present by (simp add: pg_inv_def)
  show dir: "pde ph' (cr3 s) k = pde (phys s) (cr3 s) k" if "unat k < 1024" for k
    unfolding ph'_def using frame_mod apart that j by (rule pde_upd_elsewhere)
  then have "pde ph' (cr3 s) k = pde (phys s) (cr3 s) k" if "unat k < 1023" for k using that by simp
  then show "pg_inv (s\<lparr>phys := ph'\<rparr>)"
    using inv dir dir_unchanged [of ph' "cr3 s" "phys s"]
    by (auto simp: pg_inv_def free_pages_phys pa_wf_phys)
qed

text \<open>
  The memory after a new table for entry \<open>i\<close> is entered (\<open>w\<close>, in the fresh frame \<open>p\<close>) and cleared:
  the directory changes at \<open>i\<close> only, the new table is empty, the other tables are kept.
\<close>

lemma new_table_cells:
  fixes p i w :: u32
  assumes p: "unat p mod 4096 = 0" "p \<noteq> frame pdir" and i: "unat i < 1024" and k: "unat k < 1024"
    and ph2: "ph2 = ph(frame pdir + 4 * i := w)" and ph3: "ph3 = memset ph2 p 0 4096"
  shows "pde ph2 pdir k = (if k = i then w else pde ph pdir k)"
    and "pde ph3 pdir k = (if k = i then w else pde ph pdir k)"
    and "ph3 (frame e + 4 * k) =
      (if frame e = p then 0 else if frame e = frame pdir \<and> k = i then w else ph (frame e + 4 * k))"
proof -
  have slot2: "ph2 (frame e + 4 * k) = (if frame e = frame pdir \<and> k = i then w else ph (frame e + 4 * k))" for e
    using slot_inject [OF frame_mod frame_mod k i, of e pdir] by (simp add: ph2)
  then show slot3: "ph3 (frame e + 4 * k) =
      (if frame e = p then 0 else if frame e = frame pdir \<and> k = i then w else ph (frame e + 4 * k))" for e
    using memset_page_slot [OF p(1) frame_mod k, of ph2 e] by (simp add: ph3)
  show "pde ph2 pdir k = (if k = i then w else pde ph pdir k)" using slot2 [of pdir] by (simp add: pde_def)
  show "pde ph3 pdir k = (if k = i then w else pde ph pdir k)" using slot3 [of pdir] p(2) by (simp add: pde_def)
qed

lemma new_table_translate:
  fixes p i w :: u32
  assumes p: "unat p mod 4096 = 0" "p \<noteq> frame pdir" and i: "unat i < 1024" and w: "frame w = p"
    and ph2: "ph2 = ph(frame pdir + 4 * i := w)" and ph3: "ph3 = memset ph2 p 0 4096"
    and absent: "\<not> present (pde ph pdir i)"
    and other: "present (pde ph pdir (pdindex va)) \<Longrightarrow>
      frame (pde ph pdir (pdindex va)) \<noteq> p \<and> frame (pde ph pdir (pdindex va)) \<noteq> frame pdir"
  shows "translate ph3 pdir va = translate ph pdir va"
proof (cases "pdindex va = i")
  case True
  then show ?thesis
    using new_table_cells(2) [OF p i pdindex_bound ph2 ph3, of va] absent w
      new_table_cells(3) [OF p i ptindex_bound ph2 ph3, of w va]
    by (simp add: translate_pde present_def)
next
  case False
  then show ?thesis
    using new_table_cells(2) [OF p i pdindex_bound ph2 ph3, of va] other
      new_table_cells(3) [OF p i ptindex_bound ph2 ph3, of "pde ph pdir (pdindex va)" va]
    by (simp add: translate_pde)
qed

lemma pg_inv_table_frame:
  assumes inv: "pg_inv s" and va: "unat i < 1023" and present: "present (pde (phys s) (cr3 s) i)"
    and n: "n \<in> free_pages s"
  shows "frame (pde (phys s) (cr3 s) i) \<noteq> page_addr n \<and> frame (pde (phys s) (cr3 s) i) \<noteq> frame (cr3 s)"
proof -
  have "frame (pde (phys s) (cr3 s) i) \<in> tables (phys s) (cr3 s)"
    using present va by (auto simp: tables_def)
  then show ?thesis using inv va present n by (auto simp: pg_inv_def)
qed

lemma pdir_not_free:
  assumes inv: "pg_inv s" and n: "n \<in> free_pages s"
  shows "page_addr n \<noteq> frame (cr3 s)"
proof -
  have "frame (cr3 s) \<in> tables (phys s) (cr3 s)"
    using inv by (auto simp: pg_inv_def tables_def self_map_def pde_def intro!: exI [of _ 1023])
  then show ?thesis using inv n by (auto simp: pg_inv_def)
qed

lemma pdindex_below: "pdindex va \<noteq> 1023 \<Longrightarrow> unat (pdindex va) < 1023"
  using pdindex_bound [of va] by (simp add: word_unat_eq_iff)

text \<open>The allocated page \<open>n\<close> becomes the table of entry \<open>i\<close>.\<close>

lemma new_table_inv:
  assumes inv: "pg_inv s" and i: "unat i < 1023" and n: "n \<in> free_pages s"
    and w: "frame w = page_addr n" "present w"
    and s': "s' = (mark_used (page_addr n) s)\<lparr>phys := ph3\<rparr>"
    and pde3: "\<And>k. unat k < 1024 \<Longrightarrow> pde ph3 (cr3 s) k = (if k = i then w else pde (phys s) (cr3 s) k)"
  shows "pg_inv s'" and "free_pages s' = free_pages s - {n}"
proof -
  have p: "page_of (page_addr n) = n" "n < 3840"
    using n page_addr_props(3) [of n] by (auto simp: in_free_pages)
  have wf: "pa_wf s" using inv by (simp add: pg_inv_def)
  have cr3: "cr3 s' = cr3 s" "phys s' = ph3" by (simp_all add: s' mark_used_def)
  show free: "free_pages s' = free_pages s - {n}"
    using free_pages_mark_used [of s "page_addr n"] wf p by (simp add: s' free_pages_phys pa_wf_def)
  have wf': "pa_wf s'" using pa_wf_mark_used [of s "page_addr n"] wf n p by (simp add: s' pa_wf_phys)
  have "i \<noteq> 1023" using i by auto
  then have self: "self_map ph3 (cr3 s)"
    using pde3 [of 1023] inv by (simp add: pg_inv_def self_map_def pde_def)
  have "tables ph3 (cr3 s) \<subseteq> insert (page_addr n) (tables (phys s) (cr3 s))"
    using pde3 w by (force simp: tables_def)
  moreover have "page_addr q \<noteq> page_addr n" if "q \<in> free_pages s'" for q
    using that free p page_addr_props(3) [of q] by (metis Diff_iff in_free_pages insertI1)
  ultimately have "page_addr q \<notin> tables ph3 (cr3 s)" if "q \<in> free_pages s'" for q
    using that free inv unfolding pg_inv_def by blast
  moreover have "frame (pde ph3 (cr3 s) k) \<noteq> frame (cr3 s)" if "unat k < 1023" "present (pde ph3 (cr3 s) k)" for k
    using pde3 [of k] pg_inv_table_frame [OF inv that(1) _ n] that w pdir_not_free [OF inv n]
    by (auto split: if_splits)
  ultimately show "pg_inv s'" using wf' self free inv by (simp add: pg_inv_def cr3)
qed

text \<open>Adding an empty page table to an absent entry of the directory.\<close>

lemma add_page_table_correct:
  assumes inv: "pg_inv s" and i: "unat i < 1023" and absent: "\<not> present (pde (phys s) (cr3 s) i)"
    and free: "free_pages s \<noteq> {}"
  shows "\<exists>s'. add_page_table i flags s = ret s' \<and> pg_inv s' \<and> cr3 s' = cr3 s \<and>
    free_pages s' = free_pages s - {Min (free_pages s)} \<and> mem s' = mem s \<and> io s' = io s \<and> idt_part s' = idt_part s \<and>
    paging_state.more s' = paging_state.more s \<and>
    invlpg_log s' = invlpg_log s \<and>
    present (pde (phys s') (cr3 s) i) \<and> frame (pde (phys s') (cr3 s) i) = page_addr (Min (free_pages s)) \<and>
    (\<forall>va. pdindex va \<noteq> 1023 \<longrightarrow> translate (phys s') (cr3 s) va = translate (phys s) (cr3 s) va) \<and>
    (\<forall>k. unat k < 1024 \<longrightarrow> k \<noteq> i \<longrightarrow> pde (phys s') (cr3 s) k = pde (phys s) (cr3 s) k)"
proof -
  define n where "n = Min (free_pages s)"
  define p where "p = page_addr n"
  define w where "w = p OR (flags AND 0xFFF) OR 0x01"
  define s1 where "s1 = mark_used p s"
  define ph2 where "ph2 = (phys s)(frame (cr3 s) + 4 * i := w)"
  define ph3 where "ph3 = memset ph2 p 0 4096"
  have wf: "pa_wf s" and self: "self_map (phys s) (cr3 s)" using inv by (auto simp: pg_inv_def)
  have n: "n \<in> free_pages s" "n < 3840" using free Min_in [of "free_pages s"] by (auto simp: n_def in_free_pages)
  have p: "unat p mod 4096 = 0" "p \<noteq> frame (cr3 s)"
    using page_addr_props [OF n(2)] pdir_not_free [OF inv n(1)] by (simp_all add: p_def)
  have wframe: "frame w = p" "present w"
    unfolding w_def using page_addr_props(2) [OF n(2)] by (simp_all only: entry_frame entry_present p_def)
  have i': "unat i < 1024" "i \<noteq> 1023" using i by auto
  note cells = new_table_cells [OF p i'(1) _ ph2_def ph3_def]
  have s1: "phys s1 = phys s" "cr3 s1 = cr3 s" by (simp_all add: s1_def mark_used_def)
  have alloc: "pa_alloc s = ret (p, s1)"
    using pa_alloc_Min(1) [OF wf free] by (simp add: p_def n_def s1_def page_addr_def)
  have wr: "vwrite (pd_va i) w s1 = ret (s1\<lparr>phys := ph2\<rparr>)"
    using self i' by (simp add: vwrite_def translate_pd s1 ph2_def)
  have "self_map ph2 (cr3 s)"
    using cells(1) [of 1023] i' self by (simp add: self_map_def pde_def)
  then have "vmemset (pt_va i 0) 0 4096 (s1\<lparr>phys := ph2\<rparr>) = ret (s1\<lparr>phys := ph3\<rparr>)"
    using vmemset_window [of "s1\<lparr>phys := ph2\<rparr>" "pt_va i 0" i 0 4096 p 0] pt_va_window [OF i'(1), of 0]
      cells(1) [OF i'(1)] wframe p by (simp add: s1 ph3_def)
  then have add: "add_page_table i flags s = ret (s1\<lparr>phys := ph3\<rparr>)"
    using alloc wr by (simp add: add_page_table_def w_def)
  have inv': "pg_inv (s1\<lparr>phys := ph3\<rparr>)" "free_pages (s1\<lparr>phys := ph3\<rparr>) = free_pages s - {n}"
    using new_table_inv [OF inv i n(1) wframe [unfolded p_def] refl cells(2)] by (simp_all add: s1_def p_def)
  have trans: "translate ph3 (cr3 s) va = translate (phys s) (cr3 s) va" if "pdindex va \<noteq> 1023" for va
    using pg_inv_table_frame [OF inv pdindex_below [OF that] _ n(1)]
    by (intro new_table_translate [OF p i'(1) wframe(1) ph2_def ph3_def absent]) (simp add: p_def)
  have "mem s1 = mem s" "io s1 = io s" "idt_part s1 = idt_part s" "paging_state.more s1 = paging_state.more s" "invlpg_log s1 = invlpg_log s" by (simp_all add: s1_def mark_used_def)
  moreover have "idt_part (s1\<lparr>phys := ph3\<rparr>) = idt_part s1" by (simp add: idt_part_def idt_state.truncate_def)
  ultimately show ?thesis
    using add inv' trans cells(2) i' wframe s1
    by (intro exI [of _ "s1\<lparr>phys := ph3\<rparr>"]) (simp add: n_def p_def)
qed

section \<open>Mapping and unmapping\<close>

text \<open>Two addresses whose pages are described by the same entry of the same table.\<close>

definition aliases :: "cells \<Rightarrow> u32 \<Rightarrow> u32 \<Rightarrow> u32 \<Rightarrow> bool" where
  "aliases ph pdir va va' \<longleftrightarrow> frame (pde ph pdir (pdindex va')) = frame (pde ph pdir (pdindex va)) \<and>
     ptindex va' = ptindex va"

definition entry_written :: "u32 \<Rightarrow> u32 \<Rightarrow> 'a paging_state_scheme \<Rightarrow> 'a paging_state_scheme" where
  "entry_written va v s = s\<lparr>phys := (phys s)(frame (pde (phys s) (cr3 s) (pdindex va)) + 4 * ptindex va := v),
     invlpg_log := invlpg_log s @ [va]\<rparr>"

lemma flush_vwrite_pt:
  assumes "pg_inv s" and "present (pde (phys s) (cr3 s) (pdindex va))"
  shows "bnd (vwrite (pt_va (pdindex va) (ptindex va)) v s) (\<lambda>s. ret (flush_tlb va s)) = ret (entry_written va v s)"
  using assms
  by (simp add: vwrite_pt pdindex_bound ptindex_bound pg_inv_def flush_tlb_def entry_written_def)

lemma entry_written_props:
  assumes inv: "pg_inv s" and va: "pdindex va \<noteq> 1023" and present: "present (pde (phys s) (cr3 s) (pdindex va))"
  shows "pg_inv (entry_written va v s)"
    and "unat k < 1024 \<Longrightarrow> pde (phys (entry_written va v s)) (cr3 s) k = pde (phys s) (cr3 s) k"
    and "translate (phys (entry_written va v s)) (cr3 s) va' =
      (if present (pde (phys s) (cr3 s) (pdindex va')) \<and> aliases (phys s) (cr3 s) va va'
       then (if present v then Some (frame v + (va' AND 0xFFF)) else None)
       else translate (phys s) (cr3 s) va')"
proof -
  let ?ph = "(phys s)(frame (pde (phys s) (cr3 s) (pdindex va)) + 4 * ptindex va := v)"
  have phys: "phys (entry_written va v s) = ?ph" by (simp add: entry_written_def)
  note upd = pg_inv_upd_pte [OF inv pdindex_below [OF va] ptindex_bound [of va] present refl]
  have "pg_inv (s\<lparr>phys := ?ph\<rparr>)" using upd by simp
  then show "pg_inv (entry_written va v s)"
    by (simp add: pg_inv_def entry_written_def free_pages_phys pa_wf_phys)
  show "unat k < 1024 \<Longrightarrow> pde (phys (entry_written va v s)) (cr3 s) k = pde (phys s) (cr3 s) k"
    using upd(2) by (simp add: phys)
  have "frame (pde (phys s) (cr3 s) (pdindex va)) \<noteq> frame (cr3 s)"
    using inv present pdindex_below [OF va] by (simp add: pg_inv_def)
  then show "translate (phys (entry_written va v s)) (cr3 s) va' =
      (if present (pde (phys s) (cr3 s) (pdindex va')) \<and> aliases (phys s) (cr3 s) va va'
       then (if present v then Some (frame v + (va' AND 0xFFF)) else None)
       else translate (phys s) (cr3 s) va')"
    unfolding phys aliases_def by (rule translate_upd_pte [OF frame_mod _ ptindex_bound])
qed

lemma entry_written_frame [simp]:
  "cr3 (entry_written va v s) = cr3 s" "mem (entry_written va v s) = mem s" "io (entry_written va v s) = io s"
  "free_pages (entry_written va v s) = free_pages s" "invlpg_log (entry_written va v s) = invlpg_log s @ [va]"
  "idt_part (entry_written va v s) = idt_part s" "paging_state.more (entry_written va v s) = paging_state.more s"
  by (simp_all add: entry_written_def free_pages_phys idt_part_def idt_state.truncate_def)

text \<open>Where the page table exists, \<open>mm_map\<close> writes one entry; otherwise it first adds a table.\<close>

lemma mm_map_entry:
  assumes inv: "pg_inv s" and va: "pdindex va \<noteq> 1023" and phys: "physaddr \<noteq> 0"
    and room: "present (pde (phys s) (cr3 s) (pdindex va)) \<or> free_pages s \<noteq> {}"
  shows "\<exists>s1. mm_map physaddr va flags s = ret (va, entry_written va (physaddr OR (flags AND 0xFFF) OR 0x01) s1) \<and>
    pg_inv s1 \<and> cr3 s1 = cr3 s \<and> mem s1 = mem s \<and> io s1 = io s \<and> idt_part s1 = idt_part s \<and>
    paging_state.more s1 = paging_state.more s \<and> invlpg_log s1 = invlpg_log s \<and>
    present (pde (phys s1) (cr3 s) (pdindex va)) \<and>
    frame (pde (phys s1) (cr3 s) (pdindex va)) =
      (if present (pde (phys s) (cr3 s) (pdindex va)) then frame (pde (phys s) (cr3 s) (pdindex va)) else page_addr (Min (free_pages s))) \<and>
    free_pages s1 = free_pages s - (if present (pde (phys s) (cr3 s) (pdindex va)) then {} else {Min (free_pages s)}) \<and>
    (\<forall>va'. pdindex va' \<noteq> 1023 \<longrightarrow> translate (phys s1) (cr3 s) va' = translate (phys s) (cr3 s) va') \<and>
    (\<forall>k. unat k < 1024 \<longrightarrow> k \<noteq> pdindex va \<longrightarrow> pde (phys s1) (cr3 s) k = pde (phys s) (cr3 s) k)"
proof -
  let ?e = "physaddr OR (flags AND 0xFFF) OR 0x01"
  have rd: "vread (pd_va (pdindex va)) s = ret (pde (phys s) (cr3 s) (pdindex va))"
    using inv by (simp add: vread_pd pdindex_bound pg_inv_def)
  have map: "mm_map physaddr va flags s = ret (va, entry_written va ?e s1)"
    if "pg_inv s1" "present (pde (phys s1) (cr3 s1) (pdindex va))"
      "(if pde (phys s) (cr3 s) (pdindex va) AND 0x01 = 0 then add_page_table (pdindex va) flags s else ret s) = ret s1" for s1
    using flush_vwrite_pt [OF that(1,2), of ?e] that(3) phys
    by (simp add: mm_map_def rd bnd_eq_ret)
  show ?thesis
  proof (cases "present (pde (phys s) (cr3 s) (pdindex va))")
    case True
    then have "mm_map physaddr va flags s = ret (va, entry_written va ?e s)"
      using map [of s] inv by (simp add: present_def)
    then show ?thesis using True inv by (intro exI [of _ s]) simp
  next
    case False
    obtain s1 where s1: "add_page_table (pdindex va) flags s = ret s1" "pg_inv s1" "cr3 s1 = cr3 s"
      "free_pages s1 = free_pages s - {Min (free_pages s)}" "mem s1 = mem s" "io s1 = io s" "idt_part s1 = idt_part s" "paging_state.more s1 = paging_state.more s" "invlpg_log s1 = invlpg_log s"
      "present (pde (phys s1) (cr3 s) (pdindex va))"
      "frame (pde (phys s1) (cr3 s) (pdindex va)) = page_addr (Min (free_pages s))"
      "\<forall>va. pdindex va \<noteq> 1023 \<longrightarrow> translate (phys s1) (cr3 s) va = translate (phys s) (cr3 s) va"
      "\<forall>k. unat k < 1024 \<longrightarrow> k \<noteq> pdindex va \<longrightarrow> pde (phys s1) (cr3 s) k = pde (phys s) (cr3 s) k"
      using add_page_table_correct [OF inv pdindex_below [OF va] False, of flags] False room by auto
    then show ?thesis
      using map [of s1] False by (intro exI [of _ s1]) (simp add: present_def)
  qed
qed

lemma mm_map_maps:
  assumes inv: "pg_inv s" and va: "pdindex va \<noteq> 1023" and phys: "physaddr \<noteq> 0"
    and room: "present (pde (phys s) (cr3 s) (pdindex va)) \<or> free_pages s \<noteq> {}"
  shows "\<exists>s'. mm_map physaddr va flags s = ret (va, s') \<and> pg_inv s' \<and>
    translate (phys s') (cr3 s') va = Some (frame physaddr + (va AND 0xFFF)) \<and>
    (\<forall>va'. pdindex va' \<noteq> 1023 \<longrightarrow> \<not> aliases (phys s') (cr3 s') va va' \<longrightarrow>
       translate (phys s') (cr3 s') va' = translate (phys s) (cr3 s) va') \<and>
    free_pages s' = free_pages s - (if present (pde (phys s) (cr3 s) (pdindex va)) then {} else {Min (free_pages s)}) \<and>
    cr3 s' = cr3 s \<and> mem s' = mem s \<and> io s' = io s \<and> idt_part s' = idt_part s \<and>
    paging_state.more s' = paging_state.more s \<and> invlpg_log s' = invlpg_log s @ [va] \<and>
    present (pde (phys s') (cr3 s) (pdindex va)) \<and>
    frame (pde (phys s') (cr3 s) (pdindex va)) =
      (if present (pde (phys s) (cr3 s) (pdindex va)) then frame (pde (phys s) (cr3 s) (pdindex va)) else page_addr (Min (free_pages s))) \<and>
    (\<forall>k. unat k < 1024 \<longrightarrow> k \<noteq> pdindex va \<longrightarrow> pde (phys s') (cr3 s) k = pde (phys s) (cr3 s) k)"
proof -
  let ?e = "physaddr OR (flags AND 0xFFF) OR 0x01"
  obtain s1 where s1: "mm_map physaddr va flags s = ret (va, entry_written va ?e s1)"
    "pg_inv s1" "cr3 s1 = cr3 s" "mem s1 = mem s" "io s1 = io s" "idt_part s1 = idt_part s" "paging_state.more s1 = paging_state.more s" "invlpg_log s1 = invlpg_log s"
    "present (pde (phys s1) (cr3 s1) (pdindex va))"
    "frame (pde (phys s1) (cr3 s1) (pdindex va)) =
      (if present (pde (phys s) (cr3 s) (pdindex va)) then frame (pde (phys s) (cr3 s) (pdindex va)) else page_addr (Min (free_pages s)))"
    "free_pages s1 = free_pages s - (if present (pde (phys s) (cr3 s) (pdindex va)) then {} else {Min (free_pages s)})"
    "\<forall>va'. pdindex va' \<noteq> 1023 \<longrightarrow> translate (phys s1) (cr3 s1) va' = translate (phys s) (cr3 s) va'"
    "\<forall>k. unat k < 1024 \<longrightarrow> k \<noteq> pdindex va \<longrightarrow> pde (phys s1) (cr3 s1) k = pde (phys s) (cr3 s) k"
    using mm_map_entry [OF inv va phys room, of flags] by (metis (no_types, lifting))
  note wr = entry_written_props [OF s1(2) va s1(9), where v = ?e]
  have ali: "aliases (phys (entry_written va ?e s1)) (cr3 s1) va va' = aliases (phys s1) (cr3 s1) va va'" for va'
    using wr(2) by (simp add: aliases_def pdindex_bound)
  have self: "aliases (phys s1) (cr3 s1) va va" by (simp add: aliases_def)
  have "translate (phys (entry_written va ?e s1)) (cr3 s1) va = Some (frame physaddr + (va AND 0xFFF))"
    unfolding wr(3) by (simp only: s1(9) self entry_present entry_frame simp_thms if_True)
  moreover have "translate (phys (entry_written va ?e s1)) (cr3 s1) va' = translate (phys s1) (cr3 s1) va'"
    if "\<not> aliases (phys (entry_written va ?e s1)) (cr3 s1) va va'" for va'
    using that unfolding wr(3) ali by simp
  ultimately show ?thesis
    using s1 wr(1,2) pdindex_bound [of va] by (intro exI [of _ "entry_written va ?e s1"]) simp
qed

lemma mm_map_null: "mm_map 0 va flags s = ret (0, s)"
  by (simp add: mm_map_def)

lemma mm_map_no_memory:
  assumes inv: "pg_inv s" and phys: "physaddr \<noteq> 0"
    and absent: "\<not> present (pde (phys s) (cr3 s) (pdindex va))" and free: "free_pages s = {}"
  shows "mm_map physaddr va flags s = fail (Panic ''out of memory.'')"
proof -
  have "pa_alloc s = fail (Panic ''out of memory.'')"
    using inv free by (simp add: pa_alloc_def pg_inv_def pa_wf_def unat_eq_zero)
  then show ?thesis
    using inv phys absent by (simp add: mm_map_def vread_pd pdindex_bound pg_inv_def present_def add_page_table_def)
qed

lemma mm_unmap_unmaps:
  assumes inv: "pg_inv s" and va: "pdindex va \<noteq> 1023" and present: "present (pde (phys s) (cr3 s) (pdindex va))"
  shows "\<exists>s'. mm_unmap va s = ret s' \<and> pg_inv s' \<and> translate (phys s') (cr3 s') va = None \<and>
    (\<forall>va'. \<not> aliases (phys s') (cr3 s') va va' \<longrightarrow> translate (phys s') (cr3 s') va' = translate (phys s) (cr3 s) va') \<and>
    free_pages s' = free_pages s \<and> cr3 s' = cr3 s \<and> mem s' = mem s \<and> io s' = io s \<and> idt_part s' = idt_part s \<and>
    paging_state.more s' = paging_state.more s \<and>
    invlpg_log s' = invlpg_log s @ [va] \<and>
    (\<forall>k. unat k < 1024 \<longrightarrow> pde (phys s') (cr3 s) k = pde (phys s) (cr3 s) k)"
proof -
  have eq: "mm_unmap va s = ret (entry_written va 0 s)"
    using flush_vwrite_pt [OF inv present, of 0] by (simp add: mm_unmap_def)
  note wr = entry_written_props [OF inv va present, where v = 0]
  have ali: "aliases (phys (entry_written va 0 s)) (cr3 s) va va' = aliases (phys s) (cr3 s) va va'" for va'
    using wr(2) by (simp add: aliases_def pdindex_bound)
  have "\<not> present 0" by (simp add: present_def)
  then have "translate (phys (entry_written va 0 s)) (cr3 s) va = None"
    unfolding wr(3) using present by (simp add: aliases_def)
  then show ?thesis
    using wr(1,2) eq by (intro exI [of _ "entry_written va 0 s"]) (simp add: ali, simp add: wr(3))
qed

lemma mm_unmap_fault:
  assumes inv: "pg_inv s" and absent: "\<not> present (pde (phys s) (cr3 s) (pdindex va))"
  shows "mm_unmap va s = fail (PageFault (pt_va (pdindex va) (ptindex va)))"
  using inv absent
  by (simp add: mm_unmap_def vwrite_def translate_pt pdindex_bound ptindex_bound pg_inv_def pde_def)

section \<open>Starting paging\<close>

text \<open>
  \<open>init_paging\<close> runs before paging is on, with the segment base that boot.asm sets up, so the
  arrays are written at their physical addresses, the virtual ones plus 0x40000000. The
  addresses of the two arrays are chosen by the linker and are arguments.
\<close>

definition init_entry :: "u32 \<Rightarrow> u32 \<Rightarrow> u32 \<Rightarrow> cells \<Rightarrow> cells" where
  "init_entry pd pt k ph =
    (let ph = ph(pt + 4 * k := (k * 4096) OR 0x7)
     in ph(pd + 4 * k := 0))"

primrec init_entries :: "u32 \<Rightarrow> u32 \<Rightarrow> nat \<Rightarrow> cells \<Rightarrow> cells" where
  "init_entries pd pt 0 ph = ph"
| "init_entries pd pt (Suc k) ph = init_entry pd pt (of_nat k) (init_entries pd pt k ph)"

definition init_paging :: "u32 \<Rightarrow> u32 \<Rightarrow> 'a paging_state_scheme \<Rightarrow> 'a paging_state_scheme" where
  "init_paging kernelpagedir lowpagetable s =
    (let kernelpagedirPtr = kernelpagedir + 0x40000000;
         lowpagetablePtr = lowpagetable + 0x40000000;
         ph = init_entries kernelpagedirPtr lowpagetablePtr 1024 (phys s);
         ph = ph(kernelpagedirPtr + 4 * 0 := lowpagetablePtr OR 0x7);
         ph = ph(kernelpagedirPtr + 4 * 768 := lowpagetablePtr OR 0x7);
         ph = ph(kernelpagedirPtr + 4 * 1023 := kernelpagedirPtr OR 0x7)
     in s\<lparr>phys := ph, kernelpagedirPtr := kernelpagedirPtr, cr3 := kernelpagedirPtr\<rparr>)"

lemma init_entries_slot:
  assumes pd: "unat pd mod 4096 = 0" and pt: "unat pt mod 4096 = 0" and apart: "pd \<noteq> pt"
    and n: "n \<le> 1024" and i: "unat i < 1024"
  shows "init_entries pd pt n ph (pd + 4 * i) = (if unat i < n then 0 else ph (pd + 4 * i))"
    and "init_entries pd pt n ph (pt + 4 * i) = (if unat i < n then (i * 4096) OR 0x7 else ph (pt + 4 * i))"
proof -
  have "init_entries pd pt n ph (pd + 4 * i) = (if unat i < n then 0 else ph (pd + 4 * i)) \<and>
    init_entries pd pt n ph (pt + 4 * i) = (if unat i < n then (i * 4096) OR 0x7 else ph (pt + 4 * i))"
    using n
  proof (induction n)
    case (Suc n)
    have k: "unat (of_nat n :: u32) = n" "unat (of_nat n :: u32) < 1024"
      using Suc.prems by (simp_all add: unat_of_nat)
    have eq: "i = of_nat n \<longleftrightarrow> unat i = n" by (simp add: word_unat_eq_iff k(1))
    note slots = slot_inject [OF pd pt i k(2)] slot_inject [OF pt pd i k(2)]
      slot_inject [OF pd pd i k(2)] slot_inject [OF pt pt i k(2)]
    have step: "init_entries pd pt (Suc n) ph (pd + 4 * i) = (if unat i = n then 0 else init_entries pd pt n ph (pd + 4 * i))"
      "init_entries pd pt (Suc n) ph (pt + 4 * i) =
        (if unat i = n then (of_nat n * 4096) OR 0x7 else init_entries pd pt n ph (pt + 4 * i))"
      unfolding init_entries.simps init_entry_def Let_def fun_upd_apply slots eq
      using apart by simp_all
    show ?case
    proof (cases "unat i = n")
      case True
      then show ?thesis unfolding step using eq by simp
    next
      case False
      then show ?thesis unfolding step using Suc by (simp add: less_Suc_eq)
    qed
  qed simp
  then show "init_entries pd pt n ph (pd + 4 * i) = (if unat i < n then 0 else ph (pd + 4 * i))"
    and "init_entries pd pt n ph (pt + 4 * i) = (if unat i < n then (i * 4096) OR 0x7 else ph (pt + 4 * i))"
    by blast+
qed

lemma entry_7: "frame (a OR 0x7) = frame a" "present (a OR 0x7)"
proof -
  have m: "(0xFFF :: u32) = mask 12" "(0x7 :: u32) = mask 3" by (simp_all add: mask_eq_exp_minus_1)
  show "frame (a OR 0x7) = frame a" unfolding frame_def m
    by (rule bit_word_eqI) (auto simp: bit_simps)
  have "bit ((a OR 0x7) AND 0x01) 0" unfolding m by (simp add: bit_simps)
  then show "present (a OR 0x7)" unfolding present_def by (metis bit_0_eq bot_apply bot_bool_def)
qed

lemma frame_page_number: "unat k < 1048576 \<Longrightarrow> frame (k * 4096) = k * 4096" for k :: u32
  by (simp add: frame_aligned unat_word_ariths)

lemma page_number_offset:
  "ptindex va * 4096 + (va AND 0xFFF) = va AND 0x3FFFFF"
proof -
  have va: "unat (va AND 0x3FFFFF) = unat va mod 4194304"
    using unat_and_mask [of va 22] by (simp add: mask_eq_exp_minus_1)
  have t: "unat (ptindex va * 4096) = 4096 * (unat va div 4096 mod 1024)"
    using ptindex_bound [of va] by (simp add: unat_word_ariths unat_ptindex)
  have "unat va mod 4194304 = 4096 * (unat va div 4096 mod 1024) + unat va mod 4096"
    using mod_mult2_eq [of "unat va" 4096 1024] by simp
  moreover have "unat va div 4096 mod 1024 < 1024" "unat va mod 4096 < 4096" by simp_all
  then have "4096 * (unat va div 4096 mod 1024) + unat va mod 4096 < 4294967296" by linarith
  ultimately show ?thesis
    using unat_add_small [of "ptindex va * 4096" "va AND 0xFFF"]
    by (simp add: word_unat_eq_iff va t unat_and_4095)
qed

text \<open>After \<open>init_paging\<close>: 4 MiB at 0 and at 0xC0000000, the window, and nothing else.\<close>

lemma init_paging_tables:
  assumes pd: "unat (kernelpagedir + 0x40000000) mod 4096 = 0" and pt: "unat (lowpagetable + 0x40000000) mod 4096 = 0"
    and apart: "kernelpagedir \<noteq> lowpagetable" and s': "s' = init_paging kernelpagedir lowpagetable s"
  shows "cr3 s' = kernelpagedir + 0x40000000"
    and "unat i < 1024 \<Longrightarrow> pde (phys s') (cr3 s') i =
      (if i = 1023 then (kernelpagedir + 0x40000000) OR 0x7
       else if i = 0 \<or> i = 768 then (lowpagetable + 0x40000000) OR 0x7 else 0)"
    and "unat i < 1024 \<Longrightarrow> phys s' (lowpagetable + 0x40000000 + 4 * i) = (i * 4096) OR 0x7"
proof -
  define d where "d = kernelpagedir + 0x40000000"
  define l where "l = lowpagetable + 0x40000000"
  have dl: "unat d mod 4096 = 0" "unat l mod 4096 = 0" "d \<noteq> l"
    using pd pt apart by (simp_all add: d_def l_def)
  have st: "cr3 s' = d" "phys s' = (init_entries d l 1024 (phys s))
    (d + 4 * 0 := l OR 0x7, d + 4 * 768 := l OR 0x7, d + 4 * 1023 := d OR 0x7)"
    by (simp_all add: s' init_paging_def Let_def d_def l_def)
  then show "cr3 s' = kernelpagedir + 0x40000000" by (simp add: d_def)
  have f: "frame d = d" using dl by (simp add: frame_aligned)
  have eqd: "d + 4 * i = d + 4 * 1023 \<longleftrightarrow> i = 1023" "d + 4 * i = d + 4 * 768 \<longleftrightarrow> i = 768" "d + 4 * i = d + 4 * 0 \<longleftrightarrow> i = 0"
    if "unat i < 1024" for i
    using slot_inject [OF dl(1) dl(1) that, of 1023] slot_inject [OF dl(1) dl(1) that, of 768]
      slot_inject [OF dl(1) dl(1) that, of 0] by (simp_all del: mult_zero_right)
  show "pde (phys s') (cr3 s') i = (if i = 1023 then (kernelpagedir + 0x40000000) OR 0x7
       else if i = 0 \<or> i = 768 then (lowpagetable + 0x40000000) OR 0x7 else 0)" if i: "unat i < 1024"
    unfolding d_def [symmetric] l_def [symmetric] pde_def st f fun_upd_def eqd [OF i]
    using init_entries_slot(1) [OF dl le_refl i] i by simp
  have neq: "l + 4 * i \<noteq> d + 4 * 1023" "l + 4 * i \<noteq> d + 4 * 768" "l + 4 * i \<noteq> d + 4 * 0"
    if "unat i < 1024" for i
    using slot_inject [OF dl(2) dl(1) that, of 1023] slot_inject [OF dl(2) dl(1) that, of 768]
      slot_inject [OF dl(2) dl(1) that, of 0] dl(3) by (simp_all del: mult_zero_right)
  show "phys s' (lowpagetable + 0x40000000 + 4 * i) = (i * 4096) OR 0x7" if i: "unat i < 1024"
    unfolding l_def [symmetric] st
    using init_entries_slot(2) [OF dl le_refl i] i neq [OF i] by simp
qed

lemma init_paging_translate:
  assumes pd: "unat (kernelpagedir + 0x40000000) mod 4096 = 0" and pt: "unat (lowpagetable + 0x40000000) mod 4096 = 0"
    and apart: "kernelpagedir \<noteq> lowpagetable" and s': "s' = init_paging kernelpagedir lowpagetable s"
  shows "self_map (phys s') (cr3 s')"
    and "pdindex va \<noteq> 1023 \<Longrightarrow> translate (phys s') (cr3 s') va =
      (if pdindex va = 0 \<or> pdindex va = 768 then Some (va AND 0x3FFFFF) else None)"
proof -
  note t = init_paging_tables [OF pd pt apart s']
  have f: "frame (kernelpagedir + 0x40000000) = kernelpagedir + 0x40000000"
    "frame (lowpagetable + 0x40000000) = lowpagetable + 0x40000000"
    using pd pt by (simp_all add: frame_aligned)
  show "self_map (phys s') (cr3 s')"
    using t(2) [of 1023] t(1) f by (simp add: self_map_def pde_def entry_7)
  have entry: "frame (ptindex va * 4096) = ptindex va * 4096"
    using ptindex_bound [of va] by (intro frame_page_number) simp
  have "\<not> present 0" by (simp add: present_def)
  then show "translate (phys s') (cr3 s') va =
      (if pdindex va = 0 \<or> pdindex va = 768 then Some (va AND 0x3FFFFF) else None)" if "pdindex va \<noteq> 1023"
    unfolding translate_pde t(2) [OF pdindex_bound] using that
    by (auto simp: entry_7 f t(3) [OF ptindex_bound] entry page_number_offset Let_def)
qed

section \<open>Properties\<close>

text \<open>A concrete machine: the directory at 0x100000 with its recursive entry, one page table at 0x101000 for the
  addresses from 0xC0400000, and the pages 3 and 5 free.\<close>

definition small_paging :: paging_state where
  "small_paging = pa_state.extend two_pages
     (paging_state.fields ((\<lambda>a. 0)(0x100000 + 4 * 1023 := 0x100007, 0x100000 + 4 * 769 := 0x101007)) 0x100000 0x100000 [])"

lemma small_paging_simps:
  "phys small_paging = (\<lambda>a. 0)(0x100000 + 4 * 1023 := 0x100007, 0x100000 + 4 * 769 := 0x101007)"
  "cr3 small_paging = 0x100000" "pa_wf small_paging" "free_pages small_paging = {3, 5}"
  using two_pages_free
  by (simp_all add: small_paging_def pa_state.extend_def paging_state.fields_def pa_wf_def free_pages_def page_free_def [abs_def])

lemma small_paging_pde:
  assumes "unat i < 1024"
  shows "pde (phys small_paging) (cr3 small_paging) i = (if i = 769 then 0x101007 else if i = 1023 then 0x100007 else 0)"
proof -
  have f: "frame 0x100000 = 0x100000" by (simp add: frame_def)
  have "0x100000 + 4 * i = 0x100000 + 4 * (1023 :: u32) \<longleftrightarrow> i = 1023" "0x100000 + 4 * i = 0x100000 + 4 * (769 :: u32) \<longleftrightarrow> i = 769"
    using slot_inject [of "0x100000" "0x100000" i 1023] slot_inject [of "0x100000" "0x100000" i 769] assms by simp_all
  then show ?thesis unfolding pde_def small_paging_simps f fun_upd_apply by simp
qed

lemma small_paging_inv: "pg_inv small_paging"
proof -
  have fr: "frame 0x101007 = 0x101000" "frame 0x100007 = 0x100000" "frame 0x100000 = 0x100000"
    "present 0x101007" "present 0x100007" "\<not> present 0"
    by (simp_all add: frame_def present_def)
  have "self_map (phys small_paging) (cr3 small_paging)"
    using small_paging_pde [of 1023] by (simp add: self_map_def pde_def fr small_paging_simps)
  moreover have tabs: "t \<in> {0x101000, 0x100000}" if t: "t \<in> tables (phys small_paging) (cr3 small_paging)" for t
  proof -
    obtain i where "unat i < 1024" "present (pde (phys small_paging) (cr3 small_paging) i)"
      "t = frame (pde (phys small_paging) (cr3 small_paging) i)"
      using t unfolding tables_def by blast
    then show ?thesis using small_paging_pde [of i] fr by (auto split: if_splits)
  qed
  have "page_addr p \<notin> tables (phys small_paging) (cr3 small_paging)" if "p \<in> {3, 5}" for p
  proof
    assume "page_addr p \<in> tables (phys small_paging) (cr3 small_paging)"
    then have "page_addr p \<in> {0x101000, 0x100000}" by (rule tabs)
    then show False using that by (auto simp: page_addr_def)
  qed
  then have "\<forall>p \<in> {3, 5}. page_addr p \<notin> tables (phys small_paging) (cr3 small_paging)" by blast
  moreover have "frame (pde (phys small_paging) (cr3 small_paging) i) \<noteq> frame (cr3 small_paging)"
    if "unat i < 1023" "present (pde (phys small_paging) (cr3 small_paging) i)" for i
  proof -
    have "i \<noteq> 1023" using that(1) by auto
    then show ?thesis using that small_paging_pde [of i] fr by (auto simp: small_paging_simps split: if_splits)
  qed
  ultimately show ?thesis by (simp add: pg_inv_def small_paging_simps)
qed

text \<open>C2. \<open>mm_map\<close> of a physical page at a virtual address outside the window of the page tables: it returns the
  address, the processor then translates the address to the page, every address not served by the same table
  entry keeps its translation, the invariant is kept, the translation buffer is flushed, and pages are taken from
  the allocator only when the address had no page table. A missing table and no free page panic.\<close>

theorem mm_map_correct:
  assumes inv: "pg_inv s" and va: "pdindex va \<noteq> 1023" and phys: "physaddr \<noteq> 0"
  shows "if present (pde (phys s) (cr3 s) (pdindex va)) \<or> free_pages s \<noteq> {} then
    \<exists>s'. mm_map physaddr va flags s = ret (va, s') \<and> pg_inv s' \<and>
      translate (phys s') (cr3 s') va = Some (frame physaddr + (va AND 0xFFF)) \<and>
      (\<forall>va'. pdindex va' \<noteq> 1023 \<longrightarrow> \<not> aliases (phys s') (cr3 s') va va' \<longrightarrow>
         translate (phys s') (cr3 s') va' = translate (phys s) (cr3 s) va') \<and>
      free_pages s' = free_pages s - (if present (pde (phys s) (cr3 s) (pdindex va)) then {} else {Min (free_pages s)}) \<and>
      cr3 s' = cr3 s \<and> invlpg_log s' = invlpg_log s @ [va]
    else mm_map physaddr va flags s = fail (Panic ''out of memory.'')"
proof (cases "present (pde (phys s) (cr3 s) (pdindex va)) \<or> free_pages s \<noteq> {}")
  case True
  then show ?thesis using mm_map_maps [OF inv va phys True, of flags] by auto
next
  case False
  then show ?thesis using mm_map_no_memory [OF inv phys, of va flags] by simp
qed

theorem mm_map_correct_witness:
  "\<exists>s'. mm_map 0x7000 0x80000000 6 small_paging = ret (0x80000000, s') \<and>
    translate (phys s') (cr3 s') 0x80000000 = Some 0x7000 \<and> free_pages s' = {5}"
proof -
  have "pdindex 0x80000000 = 512" by (simp add: pdindex_def drop_bit_eq_div)
  moreover have "Min {3, 5 :: nat} = 3" "{3, 5} - {3} = {5 :: nat}" by auto
  ultimately show ?thesis
    using mm_map_correct [of small_paging "0x80000000" "0x7000" 6] small_paging_inv small_paging_pde [of 512]
    by (auto simp: small_paging_simps present_def frame_def)
qed

text \<open>\<open>mm_unmap\<close> of an address with a page table removes its translation, and no other but those served by
  the same table entry; without a page table it faults on the entry it would write.\<close>

lemma mm_unmap_correct:
  assumes inv: "pg_inv s" and va: "pdindex va \<noteq> 1023"
  shows "if present (pde (phys s) (cr3 s) (pdindex va)) then
    \<exists>s'. mm_unmap va s = ret s' \<and> pg_inv s' \<and> translate (phys s') (cr3 s') va = None \<and>
      (\<forall>va'. \<not> aliases (phys s') (cr3 s') va va' \<longrightarrow> translate (phys s') (cr3 s') va' = translate (phys s) (cr3 s) va') \<and>
      free_pages s' = free_pages s \<and> invlpg_log s' = invlpg_log s @ [va]
    else mm_unmap va s = fail (PageFault (pt_va (pdindex va) (ptindex va)))"
proof (cases "present (pde (phys s) (cr3 s) (pdindex va))")
  case True
  then show ?thesis using mm_unmap_unmaps [OF inv va True] by auto
next
  case False
  then show ?thesis using mm_unmap_fault [OF inv False] by simp
qed

text \<open>C29. With the recursive directory entry in place \<open>get_physaddr\<close> computes the processor's translation, and
  NULL for an address that has none.\<close>

theorem get_physaddr_is_translation:
  assumes "self_map (phys s) (cr3 s)"
  shows "get_physaddr va s = ret (case translate (phys s) (cr3 s) va of None \<Rightarrow> 0 | Some pa \<Rightarrow> pa)"
  using assms by (rule get_physaddr_translate)

theorem get_physaddr_is_translation_witness:
  "get_physaddr 0xC0400123 small_paging = ret 0"
proof -
  have "pdindex 0xC0400123 = 769" "ptindex 0xC0400123 = 0" by (simp_all add: pdindex_def ptindex_def drop_bit_eq_div)
  then have "translate (phys small_paging) (cr3 small_paging) 0xC0400123 = None"
    using small_paging_pde [of 769] by (simp add: translate_pde small_paging_simps frame_def present_def)
  then show ?thesis
    using get_physaddr_is_translation [of small_paging "0xC0400123"] small_paging_inv by (simp add: pg_inv_def)
qed

text \<open>\<open>init_paging\<close> on page-aligned arrays: the directory maps itself, the first 4 MiB of memory appear at 0 and
  at 0xC0000000, and no other address outside the window is mapped.\<close>

lemma init_paging_maps:
  assumes "unat (kernelpagedir + 0x40000000) mod 4096 = 0" and "unat (lowpagetable + 0x40000000) mod 4096 = 0"
    and "kernelpagedir \<noteq> lowpagetable" and "pdindex va \<noteq> 1023"
  shows "let s' = init_paging kernelpagedir lowpagetable s in
    self_map (phys s') (cr3 s') \<and> cr3 s' = kernelpagedir + 0x40000000 \<and>
    translate (phys s') (cr3 s') va = (if pdindex va = 0 \<or> pdindex va = 768 then Some (va AND 0x3FFFFF) else None)"
  using init_paging_translate [OF assms(1-3) refl, where s = s] init_paging_tables(1) [OF assms(1-3) refl, where s = s] assms(4)
  by (simp add: Let_def)

end
