(* ===== verification/MmInit.thy ===== *)
theory MmInit
  imports Paging
begin

text \<open>
  mm.c, the bootstrap: \<open>mm_init\<close> runs \<open>init_paging\<close>, installs the descriptor and interrupt tables, fills
  the page bitmap from the multiboot memory map and removes the mapping of page 0. What holds
  afterwards is the invariant \<open>pg_inv\<close> on which every later mapping relies.
\<close>

definition mm_init :: "symbols \<Rightarrow> u32 \<Rightarrow> 'a paging_state_scheme \<Rightarrow> 'a paging_state_scheme outcome" where
  "mm_init sy mboot_ptr s =
    (let kernel_end = end_addr sy - 0xC0000000;
         s = init_paging (kernelpagedir_addr sy) (lowpagetable_addr sy) s;
         s = gdt_install sy s;
         s = init_idt sy s;
         s = register_interrupt_handler 14 Page_fault s;
         s = register_interrupt_handler 13 Protection_fault s
     in bnd (init_low_ram (mem s (mboot_ptr + 48)) (mem s (mboot_ptr + 44)) kernel_end s) (\<lambda>s.
        mm_unmap 0x0 s))"

section \<open>What the other steps leave alone\<close>

lemma same_more_paging:
  "pa_state.more s' = pa_state.more s \<Longrightarrow> phys s' = phys s \<and> cr3 s' = cr3 s \<and>
     invlpg_log s' = invlpg_log s \<and> kernelpagedirPtr s' = kernelpagedirPtr s \<and> paging_state.more s' = paging_state.more s"
  by (cases s, cases s') simp

lemma same_more_idt: "idt_state.more s' = idt_state.more s \<Longrightarrow> pa_state.more s' = pa_state.more s"
  by (cases s, cases s') simp

lemma same_more_cpu: "cpu_state.more s' = cpu_state.more s \<Longrightarrow> idt_state.more s' = idt_state.more s"
  by (cases s, cases s') simp

section \<open>What the bootloader and the linker provide\<close>

definition kernel_end_of :: "symbols \<Rightarrow> u32" where
  "kernel_end_of sy = end_addr sy - 0xC0000000"

definition boot_ok :: "symbols \<Rightarrow> u32 \<Rightarrow> cells \<Rightarrow> (u32 \<times> u32 \<times> u32) list \<Rightarrow> bool" where
  "boot_ok sy mboot_ptr m es \<longleftrightarrow>
     (let pd = kernelpagedir_addr sy + 0x40000000; pt = lowpagetable_addr sy + 0x40000000;
          kernel = region_pages 0x100000 (kernel_end_of sy)
      in unat pd mod 4096 = 0 \<and> unat pt mod 4096 = 0 \<and> kernelpagedir_addr sy \<noteq> lowpagetable_addr sy \<and>
         page_of pd \<in> kernel \<and> page_of pt \<in> kernel \<and> unat (kernel_end_of sy) \<le> 0xF00000 \<and>
         mmap_list m (m (mboot_ptr + 48)) (m (mboot_ptr + 48) + m (mboot_ptr + 44)) es \<and>
         insert 0 kernel \<subseteq> usable_pages es)"

lemma init_paging_rest:
  "idt_entries (init_paging pd pt s) = idt_entries s" "mem (init_paging pd pt s) = mem s" "io (init_paging pd pt s) = io s"
  "gdt (init_paging pd pt s) = gdt s"
  by (simp_all add: init_paging_def Let_def)

lemma gdt_install_idt: "idt_entries (gdt_install sy s) = idt_entries s" "phys (gdt_install sy t) = phys t"
  "cr3 (gdt_install sy t) = cr3 t"
  using same_more_cpu [OF gdt_install_loaded(6), of sy s] same_more_cpu [OF gdt_install_loaded(6), of sy t]
    same_more_paging [OF same_more_idt, of "gdt_install sy t" t]
  by (simp_all add: gdt_install_def write_tss_def gdt_set_gate_def gdt_flush_def tss_flush_def Let_def)

definition mm_tables :: "symbols \<Rightarrow> 'a paging_state_scheme \<Rightarrow> 'a paging_state_scheme" where
  "mm_tables sy s =
    register_interrupt_handler 13 Protection_fault (register_interrupt_handler 14 Page_fault
      (init_idt sy (gdt_install sy (init_paging (kernelpagedir_addr sy) (lowpagetable_addr sy) s))))"

lemma mm_tables_rest:
  "phys (mm_tables sy s) = phys (init_paging (kernelpagedir_addr sy) (lowpagetable_addr sy) s)"
  "cr3 (mm_tables sy s) = cr3 (init_paging (kernelpagedir_addr sy) (lowpagetable_addr sy) s)"
  "mem (mm_tables sy s) = mem s"
  "io (mm_tables sy s) = io s @ map (\<lambda>p. OutB (fst p) (snd p)) pic_remap"
  "interrupt_handlers (mm_tables sy s) = (replicate 256 None)[14 := Some Page_fault, 13 := Some Protection_fault]"
  "paging_state.more (mm_tables sy s) = paging_state.more s"
proof -
  let ?g = "gdt_install sy (init_paging (kernelpagedir_addr sy) (lowpagetable_addr sy) s)"
  have i: "phys (init_idt sy ?g) = phys ?g" "cr3 (init_idt sy ?g) = cr3 ?g" "paging_state.more (init_idt sy ?g) = paging_state.more ?g"
    using same_more_paging [OF same_more_idt [OF init_idt_rest(6) [of sy ?g]]] by simp_all
  have "paging_state.more ?g = paging_state.more (init_paging (kernelpagedir_addr sy) (lowpagetable_addr sy) s)"
    by (rule same_more_paging [OF same_more_idt, OF same_more_cpu [OF gdt_install_loaded(6)], THEN conjunct2, THEN conjunct2, THEN conjunct2, THEN conjunct2])
  then show "paging_state.more (mm_tables sy s) = paging_state.more s"
    using i(3) by (simp add: mm_tables_def register_interrupt_handler_def init_paging_def Let_def)
  show "phys (mm_tables sy s) = phys (init_paging (kernelpagedir_addr sy) (lowpagetable_addr sy) s)"
    "cr3 (mm_tables sy s) = cr3 (init_paging (kernelpagedir_addr sy) (lowpagetable_addr sy) s)"
    using i by (simp_all add: mm_tables_def register_interrupt_handler_def gdt_install_idt)
  show "mem (mm_tables sy s) = mem s" "io (mm_tables sy s) = io s @ map (\<lambda>p. OutB (fst p) (snd p)) pic_remap"
    "interrupt_handlers (mm_tables sy s) = (replicate 256 None)[14 := Some Page_fault, 13 := Some Protection_fault]"
    by (simp_all add: mm_tables_def register_interrupt_handler_def init_idt_rest gdt_install_loaded init_paging_rest)
qed

text \<open>The two tables of \<open>init_paging\<close> belong to the kernel image, so they are never free.\<close>

lemma boot_pg_inv:
  assumes ok: "boot_ok sy mboot_ptr m es" and wf: "pa_wf s"
    and boot: "phys s = phys (init_paging (kernelpagedir_addr sy) (lowpagetable_addr sy) t)"
      "cr3 s = cr3 (init_paging (kernelpagedir_addr sy) (lowpagetable_addr sy) t)"
    and free: "free_pages s \<inter> insert 0 (region_pages 0x100000 (kernel_end_of sy)) = {}"
  shows "pg_inv s"
proof -
  define d where "d = kernelpagedir_addr sy + 0x40000000"
  define l where "l = lowpagetable_addr sy + 0x40000000"
  have al: "unat d mod 4096 = 0" "unat l mod 4096 = 0" "d \<noteq> l"
    "page_of d \<in> region_pages 0x100000 (kernel_end_of sy)" "page_of l \<in> region_pages 0x100000 (kernel_end_of sy)"
    using ok by (auto simp: boot_ok_def Let_def d_def l_def)
  then have ne: "kernelpagedir_addr sy \<noteq> lowpagetable_addr sy" by (auto simp: d_def l_def)
  note tab = init_paging_tables [OF al(1,2) [unfolded d_def l_def] ne refl, where s = t]
  have f: "frame d = d" "frame l = l" using al by (simp_all add: frame_aligned)
  have cr3: "cr3 s = d" using tab(1) boot by (simp add: d_def)
  have pde: "pde (phys s) (cr3 s) i = (if i = 1023 then d OR 0x7 else if i = 0 \<or> i = 768 then l OR 0x7 else 0)"
    if "unat i < 1024" for i
    using tab(2) [OF that] unfolding boot d_def l_def by simp
  have "self_map (phys s) (cr3 s)"
    using init_paging_translate(1) [OF al(1,2) [unfolded d_def l_def] ne refl, where s = t] boot by simp
  moreover have "\<not> present 0" by (simp add: present_def)
  have tables: "g = d \<or> g = l" if g: "g \<in> tables (phys s) (cr3 s)" for g
  proof -
    obtain i where "unat i < 1024" "present (pde (phys s) (cr3 s) i)" "g = frame (pde (phys s) (cr3 s) i)"
      using g unfolding tables_def by blast
    then show ?thesis using pde [of i] f \<open>\<not> present 0\<close> by (auto simp: entry_7 split: if_splits)
  qed
  moreover have "page_addr p \<noteq> d \<and> page_addr p \<noteq> l" if "p \<in> free_pages s" for p
    using that free al(4,5) page_addr_props(3) [of p] by (auto simp: in_free_pages)
  then have "page_addr p \<notin> tables (phys s) (cr3 s)" if "p \<in> free_pages s" for p
    using tables that by blast
  moreover have "frame (pde (phys s) (cr3 s) i) \<noteq> frame (cr3 s)" if "unat i < 1023" "present (pde (phys s) (cr3 s) i)" for i
  proof -
    have "i \<noteq> 1023" using that(1) by auto
    then show ?thesis using that pde [of i] f al(3) \<open>\<not> present 0\<close> by (auto simp: cr3 entry_7 split: if_splits)
  qed
  ultimately show ?thesis using wf free by (auto simp: pg_inv_def)
qed

lemma mm_init_boot:
  assumes ok: "boot_ok sy mboot_ptr (mem s) es"
  shows "\<exists>s'. mm_init sy mboot_ptr s = ret s' \<and> pg_inv s' \<and>
    free_pages s' = usable_pages es - insert 0 (region_pages 0x100000 (kernel_end_of sy)) \<and>
    (\<forall>va. pdindex va \<noteq> 1023 \<longrightarrow> translate (phys s') (cr3 s') va =
      (if (pdindex va = 0 \<or> pdindex va = 768) \<and> ptindex va \<noteq> 0 then Some (va AND 0x3FFFFF) else None)) \<and>
    interrupt_handlers s' = (replicate 256 None)[14 := Some Page_fault, 13 := Some Protection_fault] \<and> mem s' = mem s \<and>
    (\<forall>i. 768 < unat i \<longrightarrow> unat i < 1023 \<longrightarrow> \<not> present (pde (phys s') (cr3 s') i)) \<and> paging_state.more s' = paging_state.more s"
proof -
  let ?K = "region_pages 0x100000 (kernel_end_of sy)"
  let ?t = "mm_tables sy s"
  have al: "unat (kernelpagedir_addr sy + 0x40000000) mod 4096 = 0" "unat (lowpagetable_addr sy + 0x40000000) mod 4096 = 0"
    "kernelpagedir_addr sy \<noteq> lowpagetable_addr sy" "unat (kernel_end_of sy) \<le> 0xF00000" "insert 0 ?K \<subseteq> usable_pages es"
    "mmap_list (mem ?t) (mem ?t (mboot_ptr + 48)) (mem ?t (mboot_ptr + 48) + mem ?t (mboot_ptr + 44)) es"
    using ok by (simp_all add: boot_ok_def Let_def mm_tables_rest)
  obtain s2 where s2: "init_low_ram (mem ?t (mboot_ptr + 48)) (mem ?t (mboot_ptr + 44)) (kernel_end_of sy) ?t = ret s2"
    "pa_wf s2" "free_pages s2 = usable_pages es - insert 0 ?K" "mem s2 = mem ?t" "pa_state.more s2 = pa_state.more ?t"
    "interrupt_handlers s2 = interrupt_handlers ?t"
    using init_low_ram_correct [OF al(6) al(4) al(5)] idt_part_handlers by blast
  have s2': "phys s2 = phys (init_paging (kernelpagedir_addr sy) (lowpagetable_addr sy) s)"
    "cr3 s2 = cr3 (init_paging (kernelpagedir_addr sy) (lowpagetable_addr sy) s)"
    using same_more_paging [OF s2(5)] by (simp_all add: mm_tables_rest)
  have inv: "pg_inv s2"
    by (rule boot_pg_inv [OF ok s2(2) s2']) (auto simp: s2(3))
  note tab = init_paging_tables [OF al(1,2,3) refl, where s = s, folded s2']
  note tr = init_paging_translate [OF al(1,2,3) refl, where s = s, folded s2']
  have p0: "pdindex 0 = 0" "ptindex 0 = 0" by (simp_all add: pdindex_def ptindex_def)
  have pr: "present (pde (phys s2) (cr3 s2) (pdindex 0))" using tab(2) [of 0] by (simp add: p0 entry_7)
  let ?s = "entry_written 0 0 s2"
  have un: "mm_unmap 0 s2 = ret ?s" using flush_vwrite_pt [OF inv pr, of 0] by (simp add: mm_unmap_def)
  have p0': "pdindex 0 \<noteq> (1023 :: u32)" by (simp add: p0)
  note wr = entry_written_props [OF inv p0' pr, where v = 0]
  have np: "\<not> present 0" by (simp add: present_def)
  have pdes: "present (pde (phys s2) (cr3 s2) (pdindex va)) \<and> aliases (phys s2) (cr3 s2) 0 va \<longleftrightarrow>
      (pdindex va = 0 \<or> pdindex va = 768) \<and> ptindex va = 0" if "pdindex va \<noteq> 1023" for va
    using that np tab(2) [OF pdindex_bound, of va] tab(2) [of 0]
    by (auto simp: aliases_def p0 entry_7 split: if_splits)
  have "translate (phys ?s) (cr3 s2) va =
      (if (pdindex va = 0 \<or> pdindex va = 768) \<and> ptindex va \<noteq> 0 then Some (va AND 0x3FFFFF) else None)"
    if "pdindex va \<noteq> 1023" for va
    unfolding wr(3) pdes [OF that] tr(2) [OF that] using np by auto
  moreover have "mm_init sy mboot_ptr s = ret ?s"
    using s2(1) un by (simp add: mm_init_def mm_tables_def kernel_end_of_def Let_def)
  moreover have "interrupt_handlers ?s = interrupt_handlers s2" by (simp add: entry_written_def)
  moreover have "\<not> present (pde (phys ?s) (cr3 s2) i)" if "768 < unat i" "unat i < 1023" for i
    using wr(2) [of i] tab(2) [of i] that np by auto
  ultimately show ?thesis
    using wr(1) s2 same_more_paging [OF s2(5)] by (intro exI [of _ ?s]) (simp add: mm_tables_rest)
qed

section \<open>Properties\<close>

text \<open>C18. Booting the memory manager. With a kernel image of whole pages that contains the two page tables, inside
  the usable memory that the bootloader reports, \<open>mm_init\<close> returns; then the invariant of the mapping operations
  holds, the free pages are the usable pages below 15 MiB except page 0 and the kernel image, the memory below
  4 MiB is mapped at 0 and at 0xC0000000 except the first page of each, and the two fault handlers are registered.\<close>

theorem mm_init_correct:
  assumes "boot_ok sy mboot_ptr (mem s) es"
  shows "\<exists>s'. mm_init sy mboot_ptr s = ret s' \<and> pg_inv s' \<and>
    free_pages s' = usable_pages es - insert 0 (region_pages 0x100000 (kernel_end_of sy)) \<and>
    (\<forall>va. pdindex va \<noteq> 1023 \<longrightarrow> translate (phys s') (cr3 s') va =
      (if (pdindex va = 0 \<or> pdindex va = 768) \<and> ptindex va \<noteq> 0 then Some (va AND 0x3FFFFF) else None)) \<and>
    interrupt_handlers s' = (replicate 256 None)[14 := Some Page_fault, 13 := Some Protection_fault] \<and> mem s' = mem s"
  using mm_init_boot [OF assms] by blast

definition pc_symbols :: symbols where
  "pc_symbols = \<lparr>gdt_addr = 0xC0103000, idt_addr = 0xC0104000, tss_addr = 0xC0105000, idt_entries_addr = 0xC0106000,
     isr = (\<lambda>n. 0xC0107000 + of_nat n), irq = (\<lambda>n. 0xC0108000 + of_nat n),
     kernelpagedir_addr = 0xC0101000, lowpagetable_addr = 0xC0102000, end_addr = 0xC0110000\<rparr>"

definition pc_state :: paging_state where
  "pc_state = small_paging\<lparr>mem := (\<lambda>a. 0)(0x9000 + 44 := 24, 0x9000 + 48 := 0xA000, 0xA000 := 20,
     0xA000 + 12 := 0x1000000, 0xA000 + 20 := 1)\<rparr>"

lemma region_pagesI: "page_of j \<le> p \<Longrightarrow> unat j mod 4096 = 0 \<Longrightarrow> 4096 * p < min (unat limit) 0xF00000 \<Longrightarrow> p \<in> region_pages j limit"
  by (auto simp: region_pages_def page_of_def intro!: exI [of _ "p - unat j div 4096"] elim!: dvdE)

lemma pc_boot_ok: "boot_ok pc_symbols 0x9000 (mem pc_state) [(0, 0x1000000, 1)]"
proof -
  have kernel: "region_pages 0x100000 0x110000 = {256..<272}"
  proof -
    have "p \<in> region_pages 0x100000 0x110000 \<longleftrightarrow> p \<in> {256..<272}" for p
    proof
      show "p \<in> region_pages 0x100000 0x110000 \<Longrightarrow> p \<in> {256..<272}"
        by (auto simp: region_pages_def page_of_def)
      show "p \<in> {256..<272} \<Longrightarrow> p \<in> region_pages 0x100000 0x110000"
        by (rule region_pagesI) (auto simp: page_of_def)
    qed
    then show ?thesis by blast
  qed
  have "p \<in> region_pages 0 0x1000000" if "p < 272" for p
    using that by (intro region_pagesI) (auto simp: page_of_def)
  then have "insert 0 {256..<272} \<subseteq> usable_pages [(0, 0x1000000, 1)]"
    by (auto simp: usable_pages_def)
  moreover have "mmap_list (mem pc_state) 0xA000 0xA018 [(0, 0x1000000, 1)]"
    by (simp add: pc_state_def)
  moreover have "mem pc_state (0x9000 + 48) = 0xA000" "mem pc_state (0x9000 + 44) = 24"
    by (simp_all add: pc_state_def)
  ultimately show ?thesis
    by (simp add: boot_ok_def pc_symbols_def kernel_end_of_def kernel page_of_def Let_def)
qed

theorem mm_init_correct_witness:
  "\<exists>s'. mm_init pc_symbols 0x9000 pc_state = ret s' \<and> pg_inv s' \<and> translate (phys s') (cr3 s') 0xC0001234 = Some 0x1234 \<and>
    translate (phys s') (cr3 s') 0 = None"
proof -
  have "pdindex 0xC0001234 = 768" "ptindex 0xC0001234 = 1" "pdindex 0 = 0" "ptindex 0 = 0"
    by (simp_all add: pdindex_def ptindex_def drop_bit_eq_div)
  then show ?thesis using mm_init_correct [OF pc_boot_ok] by fastforce
qed

end
