(* ===== verification/Kmalloc.thy ===== *)
theory Kmalloc
  imports MmInit KList
begin

text \<open>
  kmalloc.c: the kernel heap. A chunk at address \<open>c\<close> has its list links in cells \<open>c\<close> and \<open>c + 4\<close>, its size in
  \<open>c + 8\<close> and the magic number in \<open>c + 12\<close>; the memory it stands for follows its 16-byte header. The free
  chunks form a list of list.c, by address, whose header \<open>k_heap_start\<close> is at the address \<open>hp\<close> that the linker
  chooses. The heap grows and shrinks at \<open>k_heap_end\<close> by whole pages of mm.c.

  The file holds the operations, as the code has them, and the free list they work on: \<open>heap_cells hp m fl\<close> says
  that the chunks \<open>fl\<close>, as pairs of address and size, are the free list in memory \<open>m\<close>.
\<close>

section \<open>State and constants\<close>

record heap_state = paging_state +
  k_heap_end :: u32

definition HEAP_START :: u32 where
  "HEAP_START = 0xC0400000"

definition CHUNK_MAGIC :: u32 where
  "CHUNK_MAGIC = 0xABADBABE"

definition PAGE_SIZE :: u32 where
  "PAGE_SIZE = 4096"

definition sizeof_chunk :: u32 where
  "sizeof_chunk = 16"

definition chunk_size :: "cells \<Rightarrow> u32 \<Rightarrow> u32" where
  "chunk_size m c = m (c + 8)"

definition chunk_magic :: "cells \<Rightarrow> u32 \<Rightarrow> u32" where
  "chunk_magic m c = m (c + 12)"

definition heap_corrupt :: kerr where
  "heap_corrupt = Panic ''kernel heap corruption detected''"

definition set_mem :: "cells \<Rightarrow> 'a machine_scheme \<Rightarrow> 'a machine_scheme" where
  "set_mem m s = s\<lparr>mem := m\<rparr>"

section \<open>The operations\<close>

definition kheap_init :: "u32 \<Rightarrow> 'a heap_state_scheme \<Rightarrow> 'a heap_state_scheme" where
  "kheap_init hp s = (set_mem (new_list (mem s) hp) s)\<lparr>k_heap_end := HEAP_START\<rparr>"

partial_function (option) insert_pos :: "cells \<Rightarrow> u32 \<Rightarrow> u32 \<Rightarrow> u32 option" where
  "insert_pos m chunk aux = (if aux \<noteq> 0 \<and> aux < chunk then insert_pos m chunk (get_next m aux) else Some aux)"

definition insert_chunk :: "u32 \<Rightarrow> cells \<Rightarrow> u32 \<Rightarrow> cells option" where
  "insert_chunk hp m chunk =
    Option.bind (insert_pos m chunk (get_head m hp)) (\<lambda>aux.
      if aux = 0 then Some (add_tail m hp chunk)
      else (let m = m(chunk := aux);
                m = m(chunk + 4 := m (aux + 4));
                m = m(aux + 4 := chunk)
            in Some (m(m (chunk + 4) := chunk))))"

text \<open>The loop at the end of \<open>merge_heap\<close>: pages at the end of the heap go back to the page allocator.\<close>

partial_function (option) shrink_loop :: "u32 \<Rightarrow> 'a heap_state_scheme \<Rightarrow> 'a heap_state_scheme outcome" where
  "shrink_loop tail s =
    (if tail \<noteq> 0 \<and> chunk_size (mem s) tail > PAGE_SIZE
     then (let s = set_mem ((mem s)(tail + 8 := chunk_size (mem s) tail - PAGE_SIZE)) s;
               s = s\<lparr>k_heap_end := k_heap_end s - PAGE_SIZE\<rparr>
           in bnd (get_physaddr (k_heap_end s) s) (\<lambda>free_addr.
              bnd (mm_unmap (k_heap_end s) s) (\<lambda>s.
              bnd (pa_free free_addr s) (\<lambda>s. shrink_loop tail s))))
     else ret s)"

partial_function (option) merge_heap :: "u32 \<Rightarrow> u32 \<Rightarrow> 'a heap_state_scheme \<Rightarrow> 'a heap_state_scheme outcome" where
  "merge_heap hp aux s =
    (if aux = 0 then ret s
     else if chunk_magic (mem s) aux \<noteq> CHUNK_MAGIC then fail heap_corrupt
     else (let aux_next = get_next (mem s) aux
           in bnd (if aux_next = aux + chunk_size (mem s) aux + sizeof_chunk
                   then merge_heap hp aux
                     (set_mem (remove_node ((mem s)(aux + 8 := chunk_size (mem s) aux +
                        (chunk_size (mem s) aux_next + sizeof_chunk))) aux_next) s)
                   else merge_heap hp (get_next (mem s) aux) s) (\<lambda>s.
              shrink_loop (get_tail (mem s) hp) s)))"

definition kern_kfree :: "u32 \<Rightarrow> u32 \<Rightarrow> 'a heap_state_scheme \<Rightarrow> 'a heap_state_scheme outcome" where
  "kern_kfree hp ptr s =
    (let chunk = ptr - sizeof_chunk
     in if chunk_magic (mem s) chunk \<noteq> CHUNK_MAGIC then fail heap_corrupt
        else (let s = disable s
              in Option.bind (insert_chunk hp (mem s) chunk) (\<lambda>m.
                 let s = set_mem m s
                 in bnd (merge_heap hp (get_head (mem s) hp) s) (\<lambda>s. ret (enable s)))))"

definition align_size :: "u32 \<Rightarrow> u32" where
  "align_size alloc_sz = (if alloc_sz AND 0xF \<noteq> 0 then (alloc_sz + 0x10) AND NOT 0xF else alloc_sz)"

text \<open>The search of \<open>_kmalloc\<close> through the free list: the first chunk of at least twice the size, or NULL.\<close>

partial_function (option) find_chunk :: "cells \<Rightarrow> u32 \<Rightarrow> u32 \<Rightarrow> u32 outcome" where
  "find_chunk m alloc_sz chunk =
    (if chunk = 0 then ret 0
     else if chunk_magic m chunk \<noteq> CHUNK_MAGIC then fail heap_corrupt
     else if chunk_size m chunk < alloc_sz * 2 then find_chunk m alloc_sz (get_next m chunk)
     else ret chunk)"

text \<open>Cutting the rest of a chunk off as a new free chunk, when it has room for a header.\<close>

definition split_chunk :: "u32 \<Rightarrow> u32 \<Rightarrow> u32 \<Rightarrow> cells \<Rightarrow> cells option" where
  "split_chunk hp alloc_sz chunk m =
    (if alloc_sz \<ge> chunk_size m chunk - sizeof_chunk then Some m
     else (let new_chunk = chunk + sizeof_chunk + alloc_sz;
               m = m(new_chunk + 8 := chunk_size m chunk - alloc_sz - sizeof_chunk);
               m = m(new_chunk + 12 := CHUNK_MAGIC)
           in Option.bind (insert_chunk hp m new_chunk) (\<lambda>m. Some (m(chunk + 8 := alloc_sz)))))"

definition take_chunk :: "u32 \<Rightarrow> u32 \<Rightarrow> u32 \<Rightarrow> 'a heap_state_scheme \<Rightarrow> (u32 \<times> 'a heap_state_scheme) outcome" where
  "take_chunk hp alloc_sz chunk s =
    (let s = disable s; next_chunk = get_next (mem s) chunk
     in if next_chunk \<noteq> 0 \<and> chunk_magic (mem s) next_chunk \<noteq> CHUNK_MAGIC then fail heap_corrupt
        else Option.bind (split_chunk hp alloc_sz chunk (mem s)) (\<lambda>m.
             ret (chunk + sizeof_chunk, enable (set_mem (remove_node m chunk) s))))"

text \<open>One more page at the end of the heap, given to the last free chunk.\<close>

definition grow_heap :: "u32 \<Rightarrow> 'a heap_state_scheme \<Rightarrow> 'a heap_state_scheme outcome" where
  "grow_heap hp s =
    (let heap_end_addr = k_heap_end s; s = disable s
     in bnd (pa_alloc s) (\<lambda>(p, s).
        bnd (mm_map p heap_end_addr (PAGE_WRITE OR PAGE_USER) s) (\<lambda>(va, s).
        let s = s\<lparr>k_heap_end := k_heap_end s + PAGE_SIZE\<rparr>;
            new_chunk = get_tail (mem s) hp
        in if new_chunk \<noteq> 0
           then ret (enable (set_mem ((mem s)(new_chunk + 8 := chunk_size (mem s) new_chunk + PAGE_SIZE)) s))
           else (let m = (mem s)(heap_end_addr + 8 := k_heap_end s - heap_end_addr - sizeof_chunk);
                     m = m(heap_end_addr + 12 := CHUNK_MAGIC)
                 in ret (enable (set_mem (add_tail m hp heap_end_addr) s))))))"

partial_function (option) kern_kmalloc :: "u32 \<Rightarrow> u32 \<Rightarrow> 'a heap_state_scheme \<Rightarrow> (u32 \<times> 'a heap_state_scheme) outcome" where
  "kern_kmalloc hp alloc_sz s =
    bnd (find_chunk (mem s) (align_size alloc_sz) (get_head (mem s) hp)) (\<lambda>chunk.
      if chunk \<noteq> 0 then take_chunk hp (align_size alloc_sz) chunk s
      else bnd (grow_heap hp s) (\<lambda>s. kern_kmalloc hp (align_size alloc_sz) s))"

section \<open>Chunk addresses\<close>

lemma notin_set: "(\<And>n. n \<in> A \<Longrightarrow> f n \<noteq> x) \<Longrightarrow> x \<notin> f ` A"
  by blast

definition chunk_ok :: "u32 \<Rightarrow> bool" where
  "chunk_ok a \<longleftrightarrow> 16 dvd unat a \<and> 0xC0400000 \<le> unat a"

definition hp_ok :: "u32 \<Rightarrow> bool" where
  "hp_ok hp \<longleftrightarrow> aligned hp \<and> hp \<noteq> 0 \<and> unat hp + 12 \<le> 0xC0400000"

lemma unat_in_chunk:
  assumes "chunk_ok a" and "k < 16"
  shows "unat (a + of_nat k) = unat a + k"
proof -
  obtain n where n: "unat a = 16 * n" using assms(1) by (auto simp: chunk_ok_def)
  then have "n < 268435456" using unat_lt_32 [of a] by linarith
  then have "unat a + k < 2 ^ 32" using n assms(2) by simp
  then show ?thesis using unat_add_small [of a "of_nat k"] assms(2) by (simp add: unat_of_nat)
qed

lemma chunk_cell_inject:
  assumes "chunk_ok a" "chunk_ok b" "i < 16" "j < 16"
  shows "a + of_nat i = b + of_nat j \<longleftrightarrow> a = b \<and> i = j"
proof
  assume eq: "a + of_nat i = b + of_nat j"
  obtain n k where nk: "unat a = 16 * n" "unat b = 16 * k" using assms(1,2) by (auto simp: chunk_ok_def elim!: dvdE)
  have "unat a + i = unat b + j" using eq unat_in_chunk assms by metis
  then have "16 * n + i = 16 * k + j" using nk by simp
  then have "\<not> n < k" "\<not> k < n" using assms(3,4) by linarith+
  then have "n = k" by simp
  then show "a = b \<and> i = j" using \<open>16 * n + i = 16 * k + j\<close> nk by (simp add: word_unat_eq_iff)
qed simp

lemma chunk_neqs:
  assumes "chunk_ok a" "chunk_ok b"
  shows "a + 4 \<noteq> b" "a + 8 \<noteq> b" "a + 12 \<noteq> b" "a + 8 \<noteq> b + 4" "a + 12 \<noteq> b + 4" "a + 12 \<noteq> b + 8"
    "b \<noteq> a + 4" "b \<noteq> a + 8" "b \<noteq> a + 12" "b + 4 \<noteq> a + 8" "b + 4 \<noteq> a + 12" "b + 8 \<noteq> a + 12"
  using chunk_cell_inject [OF assms, of 4 0] chunk_cell_inject [OF assms, of 8 0] chunk_cell_inject [OF assms, of 12 0]
    chunk_cell_inject [OF assms, of 8 4] chunk_cell_inject [OF assms, of 12 4] chunk_cell_inject [OF assms, of 12 8]
  by auto

lemma header_neq:
  assumes "hp_ok hp" "chunk_ok a" "k < 16" "j \<le> 8"
  shows "a + of_nat k \<noteq> hp + of_nat j"
proof -
  have "unat (hp + of_nat j) = unat hp + j"
    using unat_add_small [of hp "of_nat j"] assms(1,4) by (simp add: hp_ok_def unat_of_nat)
  then have "unat (hp + of_nat j) < unat (a + of_nat k)"
    using assms unat_in_chunk [OF assms(2,3)] by (simp add: hp_ok_def chunk_ok_def)
  then show ?thesis by auto
qed

lemma header_neqs:
  assumes "hp_ok hp" "chunk_ok a"
  shows "a \<noteq> hp" "a \<noteq> hp + 4" "a \<noteq> hp + 8" "a + 4 \<noteq> hp" "a + 4 \<noteq> hp + 8" "a + 8 \<noteq> hp" "a + 8 \<noteq> hp + 4"
    "a + 12 \<noteq> hp" "a + 12 \<noteq> hp + 4" "a + 12 \<noteq> hp + 8"
  using header_neq [OF assms, of 0 0] header_neq [OF assms, of 0 4] header_neq [OF assms, of 0 8] header_neq [OF assms, of 4 0]
    header_neq [OF assms, of 4 8] header_neq [OF assms, of 8 0] header_neq [OF assms, of 8 4]
    header_neq [OF assms, of 12 0] header_neq [OF assms, of 12 4] header_neq [OF assms, of 12 8]
  by simp_all

lemma chunk_not_null: "chunk_ok a \<Longrightarrow> a \<noteq> 0 \<and> a + 4 \<noteq> 0 \<and> aligned a"
proof -
  assume a: "chunk_ok a"
  have "4 dvd unat a" using a dvd_trans [of 4 16 "unat a"] by (simp add: chunk_ok_def)
  moreover have "unat (a + 4) = unat a + 4" using unat_in_chunk [OF a, of 4] by simp
  ultimately show ?thesis using a by (auto simp: chunk_ok_def aligned_dvd)
qed

lemma chunks_fresh:
  assumes "hp_ok hp" "\<And>a. a \<in> set as \<Longrightarrow> chunk_ok a" "chunk_ok c" "c \<notin> set as"
  shows "fresh hp as c"
proof -
  have "n + 4 \<noteq> c \<and> c + 4 \<noteq> n" if "n \<in> set as" for n
    using chunk_neqs(1) [OF assms(2) [OF that] assms(3)] chunk_neqs(1) [OF assms(3) assms(2) [OF that]] by blast
  then have "c \<notin> (\<lambda>n. n + 4) ` set as" "c + 4 \<notin> set as" by blast+
  moreover have "c + 4 \<notin> (\<lambda>n. n + 4) ` set as" using assms(4) by auto
  ultimately show ?thesis
    using assms(4) header_neqs [OF assms(1,3)] chunk_not_null [OF assms(3)] by (simp add: fresh_def set_foot)
qed

lemma size_cells_outside:
  assumes "hp_ok hp" "\<And>a. a \<in> set as \<Longrightarrow> chunk_ok a" "chunk_ok c"
  shows "c + 8 \<notin> set (foot hp as)" "c + 12 \<notin> set (foot hp as)"
proof -
  have "n \<noteq> c + 8 \<and> n + 4 \<noteq> c + 8 \<and> n \<noteq> c + 12 \<and> n + 4 \<noteq> c + 12" if "n \<in> set as" for n
    using chunk_neqs [OF assms(3) assms(2) [OF that]] by blast
  then have "c + 8 \<notin> set as" "c + 8 \<notin> (\<lambda>n. n + 4) ` set as" "c + 12 \<notin> set as" "c + 12 \<notin> (\<lambda>n. n + 4) ` set as"
    using notin_set [of "set as" "\<lambda>n. n" "c + 8"] notin_set [of "set as" "\<lambda>n. n" "c + 12"]
      notin_set [of "set as" "\<lambda>n. n + 4" "c + 8"] notin_set [of "set as" "\<lambda>n. n + 4" "c + 12"] by simp_all
  moreover have "c + 8 \<noteq> hp + 8" using header_neqs(1) [OF assms(1,3)] by simp
  ultimately show "c + 8 \<notin> set (foot hp as)" "c + 12 \<notin> set (foot hp as)"
    using header_neqs(6,7,8,9,10) [OF assms(1,3)] unfolding set_foot by blast+
qed

section \<open>Insertion by address\<close>

definition first_of :: "u32 list \<Rightarrow> u32" where
  "first_of xs = (case xs of [] \<Rightarrow> 0 | x # _ \<Rightarrow> x)"

lemma first_of_simps [simp]: "first_of [] = 0" "first_of (x # xs) = x"
  by (simp_all add: first_of_def)

lemma get_next_first: "dll m hp (xs @ n # ys) \<Longrightarrow> get_next m n = first_of ys"
  by (simp add: get_next_dll first_of_def)

lemma get_head_first: "dll m hp ns \<Longrightarrow> get_head m hp = first_of ns"
  by (simp add: get_head_dll first_of_def)

lemma insert_pos_dll:
  assumes "dll m hp (xs @ us @ vs)" and "\<And>u. u \<in> set us \<Longrightarrow> u < c" and "vs = [] \<or> \<not> hd vs < c"
  shows "insert_pos m c (first_of (us @ vs)) = Some (first_of vs)"
  using assms
proof (induction us arbitrary: xs)
  case Nil
  then show ?case by (cases vs) (auto simp: insert_pos.simps)
next
  case (Cons u us)
  have "u \<noteq> 0" using dll_facts(5) [of m hp "xs @ u # us @ vs"] Cons.prems(1) by auto
  moreover have "get_next m u = first_of (us @ vs)"
    using get_next_first [of m hp xs u "us @ vs"] Cons.prems(1) by simp
  moreover have "insert_pos m c (first_of (us @ vs)) = Some (first_of vs)"
    using Cons.IH [of "xs @ [u]"] Cons.prems by simp
  ultimately show ?case using Cons.prems(2) by (simp add: insert_pos.simps [of m c u])
qed

lemma insert_chunk_dll:
  assumes dll: "dll m hp (us @ vs)" and less: "\<And>u. u \<in> set us \<Longrightarrow> u < c" and vs: "vs = [] \<or> \<not> hd vs < c"
    and fresh: "fresh hp (us @ vs) c"
  shows "\<exists>m'. insert_chunk hp m c = Some m' \<and> dll m' hp (us @ c # vs) \<and>
    (\<forall>k. k \<notin> set (foot hp (c # us @ vs)) \<longrightarrow> m' k = m k)"
proof -
  let ?m = "link_in m (last (hp # us)) c (hd (vs @ [hp + 4]))"
  have pos: "insert_pos m c (get_head m hp) = Some (first_of vs)"
    using insert_pos_dll [of m hp "[]" us vs c] dll less vs by (simp add: get_head_first)
  have "insert_chunk hp m c = Some ?m"
  proof (cases vs)
    case Nil
    then show ?thesis using pos dll fresh add_tail_link_in [of m hp us c] by (simp add: insert_chunk_def)
  next
    case (Cons v vs')
    have "v \<noteq> 0" using dll_facts(5) [of m hp "us @ v # vs'"] dll Cons by auto
    moreover have "m (v + 4) = last (hp # us)" using dll_next(2) [of m hp us v vs'] dll Cons by simp
    moreover have "c + 4 \<noteq> v + 4" "v + 4 \<noteq> c" using fresh Cons by (auto simp: fresh_def set_foot)
    moreover have "last (hp # us) \<noteq> v + 4"
      using dll last_header_in [of hp us] Cons by (intro foot_sep [of hp "us @ vs"]) (auto simp: dll_def)
    ultimately show ?thesis using pos Cons
      by (simp add: insert_chunk_def Let_def link_in_def fun_eq_iff del: last.simps)
  qed
  moreover have "dll ?m hp (us @ c # vs)" by (rule dll_link_in [OF dll fresh refl refl])
  moreover have "?m k = m k" if "k \<notin> set (foot hp (c # us @ vs))" for k
    using last_header_in [of hp us] hd_sentinel_in [of vs hp] that
    by (intro link_in_frame [where list = hp and ns = "us @ vs"]) (auto simp del: last.simps)
  ultimately show ?thesis by blast
qed

end
