(* ===== verification/HeapPages.thy ===== *)
theory HeapPages
  imports Paging
begin

text \<open>
  The pages of the kernel heap. The heap of kmalloc.c is a range of virtual pages from 0xC0400000 that
  grows by mapping a new page at its end (\<open>pa_alloc\<close>, \<open>mm_map\<close>) and shrinks by unmapping its last page
  (\<open>get_physaddr\<close>, \<open>mm_unmap\<close>, \<open>pa_free\<close>). \<open>pages_ok s np\<close> is what both rely on: the \<open>np\<close> pages are mapped
  to different frames, none of them free and none of them a page table. The frames lie below 15 MiB, so the
  heap never has more than 3840 pages.
\<close>

definition heap_va :: "nat \<Rightarrow> u32" where
  "heap_va k = 0xC0400000 + of_nat (4096 * k)"

definition heap_frames :: "'a paging_state_scheme \<Rightarrow> (nat \<Rightarrow> nat) \<Rightarrow> nat \<Rightarrow> bool" where
  "heap_frames s fr np \<longleftrightarrow> inj_on fr {..<np} \<and>
     (\<forall>k<np. 0 < fr k \<and> fr k < 3840 \<and> fr k \<notin> free_pages s \<and> page_addr (fr k) \<notin> tables (phys s) (cr3 s) \<and>
        translate (phys s) (cr3 s) (heap_va k) = Some (page_addr (fr k)))"

definition tables_inj :: "'a paging_state_scheme \<Rightarrow> bool" where
  "tables_inj s \<longleftrightarrow> (\<forall>i j. 769 \<le> unat i \<longrightarrow> unat i < 1023 \<longrightarrow> 769 \<le> unat j \<longrightarrow> unat j < 1023 \<longrightarrow>
     present (pde (phys s) (cr3 s) i) \<longrightarrow> present (pde (phys s) (cr3 s) j) \<longrightarrow>
     frame (pde (phys s) (cr3 s) i) = frame (pde (phys s) (cr3 s) j) \<longrightarrow> i = j)"

definition pages_ok :: "'a paging_state_scheme \<Rightarrow> nat \<Rightarrow> bool" where
  "pages_ok s np \<longleftrightarrow> pg_inv s \<and> tables_inj s \<and> (\<exists>fr. heap_frames s fr np)"

section \<open>Heap addresses\<close>

lemma heap_va_props:
  assumes "k \<le> 3840"
  shows "unat (heap_va k) = 0xC0400000 + 4096 * k" "unat (pdindex (heap_va k)) = 769 + k div 1024"
    "unat (ptindex (heap_va k)) = k mod 1024" "heap_va k AND 0xFFF = 0" "pdindex (heap_va k) \<noteq> 1023"
proof -
  have "unat (of_nat (4096 * k) :: u32) = 4096 * k"
    using assms by (simp only: unat_of_nat) simp
  then show u: "unat (heap_va k) = 0xC0400000 + 4096 * k"
    using assms unat_add_small [of "0xC0400000" "of_nat (4096 * k)"] unfolding heap_va_def by simp
  have d: "unat (heap_va k) div 4096 = 787456 + k"
    unfolding u by simp
  have "unat (heap_va k) div 4194304 = unat (heap_va k) div 4096 div 1024" by (simp add: div_mult2_eq [symmetric])
  also have "\<dots> = 769 + k div 1024" unfolding d by simp
  finally show pd: "unat (pdindex (heap_va k)) = 769 + k div 1024" by (simp only: unat_pdindex)
  show "unat (ptindex (heap_va k)) = k mod 1024" unfolding unat_ptindex d
    using mod_mult_self1 [of k 769 1024] by (simp add: add.commute)
  have "unat (heap_va k) mod 4096 = 0" unfolding u by simp
  then show "heap_va k AND 0xFFF = 0" by (simp add: word_unat_eq_iff unat_and_4095)
  have "k div 1024 \<le> 3" using assms by simp
  then show "pdindex (heap_va k) \<noteq> 1023" using pd by auto
qed

lemma heap_va_Suc: "heap_va (Suc k) = heap_va k + 4096"
  by (simp add: heap_va_def algebra_simps)

lemma heap_pd_range: "k \<le> 3840 \<Longrightarrow> 769 \<le> unat (pdindex (heap_va k)) \<and> unat (pdindex (heap_va k)) < 1023"
  using heap_va_props(2) [of k] by (simp add: less_mult_imp_div_less)

lemma heap_pages_bound:
  assumes "heap_frames s fr np"
  shows "np + card (free_pages s) \<le> 3840"
proof -
  have "fr ` {..<np} \<inter> free_pages s = {}" using assms by (auto simp: heap_frames_def)
  then have "card (fr ` {..<np} \<union> free_pages s) = np + card (free_pages s)"
    using assms by (simp add: card_Un_disjoint card_image heap_frames_def)
  moreover have "fr ` {..<np} \<union> free_pages s \<subseteq> {..<3840}"
    using assms by (auto simp: heap_frames_def in_free_pages)
  then have "card (fr ` {..<np} \<union> free_pages s) \<le> card {..<3840 :: nat}" by (rule card_mono [rotated]) simp
  ultimately show ?thesis by simp
qed

text \<open>Different heap pages are not served by one table entry.\<close>

lemma heap_not_alias:
  assumes inj: "tables_inj s" and k: "k \<le> 3840" "j \<le> 3840" "j \<noteq> k"
    and present: "present (pde (phys s) (cr3 s) (pdindex (heap_va k)))" "present (pde (phys s) (cr3 s) (pdindex (heap_va j)))"
  shows "\<not> aliases (phys s) (cr3 s) (heap_va k) (heap_va j)"
proof
  assume a: "aliases (phys s) (cr3 s) (heap_va k) (heap_va j)"
  then have "pdindex (heap_va j) = pdindex (heap_va k)"
    using inj heap_pd_range [OF k(1)] heap_pd_range [OF k(2)] present unfolding tables_inj_def aliases_def by metis
  then have "769 + j div 1024 = 769 + k div 1024" using heap_va_props(2) k by metis
  moreover have "j mod 1024 = k mod 1024" using a heap_va_props(3) k unfolding aliases_def by metis
  ultimately show False using k(3) by (metis add_left_cancel div_mod_decomp)
qed

section \<open>One more page\<close>

lemma page_addr_inj: "p < 3840 \<Longrightarrow> q < 3840 \<Longrightarrow> page_addr p = page_addr q \<longleftrightarrow> p = q"
  using page_addr_props(3) by metis

lemma pa_alloc_inv:
  assumes inv: "pg_inv s" and free: "free_pages s \<noteq> {}"
  shows "\<exists>s1. pa_alloc s = ret (page_addr (Min (free_pages s)), s1) \<and> pg_inv s1 \<and>
    free_pages s1 = free_pages s - {Min (free_pages s)} \<and> phys s1 = phys s \<and> cr3 s1 = cr3 s \<and>
    mem s1 = mem s \<and> io s1 = io s \<and> idt_part s1 = idt_part s \<and> pa_state.more s1 = pa_state.more s"
proof -
  have wf: "pa_wf s" using inv by (simp add: pg_inv_def)
  obtain p s1 where s1: "pa_alloc s = ret (p, s1)" "p = of_nat (4096 * Min (free_pages s))" "page_of p = Min (free_pages s)"
    "free_pages s1 = free_pages s - {page_of p}" "pa_wf s1" "mem s1 = mem s" "io s1 = io s"
    "pa_state.more s1 = pa_state.more s" "idt_part s1 = idt_part s"
    using pa_alloc_correct [OF wf] free by auto
  have "phys s1 = phys s \<and> cr3 s1 = cr3 s" using s1(8) by (cases s, cases s1) simp
  then show ?thesis
    using s1 inv by (intro exI [of _ s1]) (auto simp: pg_inv_def page_addr_def)
qed

lemma translate_present: "translate ph pdir va = Some pa \<Longrightarrow> present (pde ph pdir (pdindex va))"
  by (auto simp: translate_pde split: if_splits)

text \<open>What the new directory entry may change: only the entry of the new page, to a table that was free.\<close>

lemma new_entry_tables:
  assumes inv: "pg_inv s" and n: "n \<in> free_pages s"
    and same: "\<And>k. unat k < 1024 \<Longrightarrow> k \<noteq> i \<Longrightarrow> pde ph' (cr3 s) k = pde (phys s) (cr3 s) k"
    and entry: "present (pde (phys s) (cr3 s) i) \<Longrightarrow> frame (pde ph' (cr3 s) i) = frame (pde (phys s) (cr3 s) i)"
      "\<not> present (pde (phys s) (cr3 s) i) \<Longrightarrow> frame (pde ph' (cr3 s) i) = page_addr m"
    and m: "\<not> present (pde (phys s) (cr3 s) i) \<Longrightarrow> m \<in> free_pages s"
    and i: "unat i < 1024"
  shows "tables ph' (cr3 s) \<subseteq> tables (phys s) (cr3 s) \<union> (if present (pde (phys s) (cr3 s) i) then {} else {page_addr m})"
    and "tables_inj s \<Longrightarrow> present (pde ph' (cr3 s) i) \<Longrightarrow> tables_inj (s\<lparr>phys := ph'\<rparr>)"
proof -
  let ?d = "pde (phys s) (cr3 s)" let ?e = "pde ph' (cr3 s)"
  show "tables ph' (cr3 s) \<subseteq> tables (phys s) (cr3 s) \<union> (if present (?d i) then {} else {page_addr m})"
  proof
    fix t assume "t \<in> tables ph' (cr3 s)"
    then obtain k where k: "unat k < 1024" "present (?e k)" "t = frame (?e k)" unfolding tables_def by blast
    show "t \<in> tables (phys s) (cr3 s) \<union> (if present (?d i) then {} else {page_addr m})"
    proof (cases "k = i")
      case False
      then have "t \<in> tables (phys s) (cr3 s)" using k same [OF k(1)] unfolding tables_def by auto
      then show ?thesis by simp
    next
      case True
      then show ?thesis using k entry unfolding tables_def by (cases "present (?d i)") auto
    qed
  qed
  assume inj: "tables_inj s" and pr: "present (?e i)"
  have old: "a = b" if "769 \<le> unat a" "unat a < 1023" "769 \<le> unat b" "unat b < 1023" "present (?d a)" "present (?d b)"
    "frame (?d a) = frame (?d b)" for a b
    using inj that unfolding tables_inj_def by blast
  have no: "frame (?d a) \<noteq> page_addr m" if "unat a < 1023" "present (?d a)" "\<not> present (?d i)" for a
    using pg_inv_table_frame [OF inv that(1,2) m [OF that(3)]] by blast
  have "a = b" if r: "769 \<le> unat a" "unat a < 1023" "769 \<le> unat b" "unat b < 1023" and p: "present (?e a)" "present (?e b)"
    and fr: "frame (?e a) = frame (?e b)" for a b
  proof (cases "present (?d i)")
    case True
    have "present (?d k)" "frame (?e k) = frame (?d k)" if "unat k < 1023" "present (?e k)" for k
      using that True entry(1) same [of k] by (cases "k = i"; simp)+
    then show ?thesis using old [OF r] p fr r by metis
  next
    case False
    have "present (?d k)" "frame (?e k) = frame (?d k)" if "unat k < 1023" "present (?e k)" "k \<noteq> i" for k
      using that same [of k] by simp_all
    then show ?thesis
      using old [OF r] no [of a] no [of b] p fr r entry(2) [OF False] False by metis
  qed
  then show "tables_inj (s\<lparr>phys := ph'\<rparr>)" unfolding tables_inj_def by simp
qed

lemma extend_ok:
  assumes ok: "pages_ok s np"
  shows "pa_alloc s = fail (Panic ''out of memory.'') \<or>
    (\<exists>p s1. pa_alloc s = ret (p, s1) \<and>
      (mm_map p (heap_va np) fl s1 = fail (Panic ''out of memory.'') \<or>
       (\<exists>s2. mm_map p (heap_va np) fl s1 = ret (heap_va np, s2) \<and> pages_ok s2 (Suc np) \<and>
          card (free_pages s2) < card (free_pages s) \<and> card (free_pages s) \<le> card (free_pages s2) + 2 \<and>
          mem s2 = mem s \<and> io s2 = io s \<and> idt_part s2 = idt_part s \<and> paging_state.more s2 = paging_state.more s)))"
proof (cases "free_pages s = {}")
  case True
  then show ?thesis using ok pa_alloc_correct [of s] by (simp add: pages_ok_def pg_inv_def)
next
  case False
  obtain fr where fr: "heap_frames s fr np" and inv: "pg_inv s" and inj: "tables_inj s"
    using ok by (auto simp: pages_ok_def)
  define n where "n = Min (free_pages s)"
  obtain s1 where s1: "pa_alloc s = ret (page_addr n, s1)" "pg_inv s1" "free_pages s1 = free_pages s - {n}"
    "phys s1 = phys s" "cr3 s1 = cr3 s" "mem s1 = mem s" "io s1 = io s" "idt_part s1 = idt_part s" "pa_state.more s1 = pa_state.more s"
    using pa_alloc_inv [OF inv False] by (auto simp: n_def)
  have n: "n \<in> free_pages s" "n < 3840" "0 < n"
    using False Min_in [of "free_pages s"] inv by (auto simp: n_def in_free_pages pg_inv_def intro: gr0I)
  have "0 < card (free_pages s)" using False by (simp add: card_gt_0_iff)
  then have np: "np < 3840" using heap_pages_bound [OF fr] by linarith
  let ?va = "heap_va np" let ?i = "pdindex (heap_va np)"
  have p0: "page_addr n \<noteq> 0" using page_addr_props(1) [OF n(2)] n(3) by auto
  have va: "?i \<noteq> 1023" using heap_va_props(5) np by simp
  show ?thesis
  proof (cases "present (pde (phys s1) (cr3 s1) ?i) \<or> free_pages s1 \<noteq> {}")
    case False
    then show ?thesis using s1 mm_map_no_memory [OF s1(2) p0, of ?va fl] by auto
  next
    case True
    obtain s2 where s2: "mm_map (page_addr n) ?va fl s1 = ret (?va, s2)" "pg_inv s2"
      "translate (phys s2) (cr3 s2) ?va = Some (frame (page_addr n) + (?va AND 0xFFF))"
      "\<forall>va'. pdindex va' \<noteq> 1023 \<longrightarrow> \<not> aliases (phys s2) (cr3 s2) ?va va' \<longrightarrow>
         translate (phys s2) (cr3 s2) va' = translate (phys s1) (cr3 s1) va'"
      "free_pages s2 = free_pages s1 - (if present (pde (phys s1) (cr3 s1) ?i) then {} else {Min (free_pages s1)})"
      "cr3 s2 = cr3 s1" "mem s2 = mem s1" "io s2 = io s1" "idt_part s2 = idt_part s1" "paging_state.more s2 = paging_state.more s1"
      "present (pde (phys s2) (cr3 s1) ?i)"
      "frame (pde (phys s2) (cr3 s1) ?i) =
        (if present (pde (phys s1) (cr3 s1) ?i) then frame (pde (phys s1) (cr3 s1) ?i) else page_addr (Min (free_pages s1)))"
      "\<forall>k. unat k < 1024 \<longrightarrow> k \<noteq> ?i \<longrightarrow> pde (phys s2) (cr3 s1) k = pde (phys s1) (cr3 s1) k"
      using mm_map_maps [OF s1(2) va p0 True, of fl] by blast
    define m where "m = Min (free_pages s1)"
    have m: "m \<in> free_pages s" "m \<noteq> n" if "\<not> present (pde (phys s) (cr3 s) ?i)"
      using that True s1(3-5) Min_in [of "free_pages s1"] by (auto simp: m_def)
    have tab: "tables (phys s2) (cr3 s) \<subseteq> tables (phys s) (cr3 s) \<union> (if present (pde (phys s) (cr3 s) ?i) then {} else {page_addr m})"
      "tables_inj (s\<lparr>phys := phys s2\<rparr>)"
      using new_entry_tables [OF inv n(1), of ?i "phys s2" m] s2(11-13) m(1) inj pdindex_bound [of ?va]
      by (simp_all add: s1(4,5) m_def)
    have inj2: "tables_inj s2" using tab(2) s2(6) s1(5) unfolding tables_inj_def by simp
    have pres: "present (pde (phys s2) (cr3 s2) (pdindex (heap_va k)))" if "k < np" for k
    proof -
      have "present (pde (phys s) (cr3 s) (pdindex (heap_va k)))"
        using fr that translate_present unfolding heap_frames_def by metis
      then show ?thesis using s2(6,11,13) s1(4,5) pdindex_bound [of "heap_va k"] by (cases "pdindex (heap_va k) = ?i") auto
    qed
    have trans: "translate (phys s2) (cr3 s2) (heap_va k) = Some (page_addr ((fr(np := n)) k))" if "k < Suc np" for k
    proof (cases "k = np")
      case True
      then show ?thesis using s2(3) page_addr_props(2) [OF n(2)] heap_va_props(4) [of np] np by simp
    next
      case False
      then have "k < np" using that by simp
      then have "\<not> aliases (phys s2) (cr3 s2) ?va (heap_va k)"
        using pres s2(6,11) s1(5) np by (intro heap_not_alias [OF inj2]) auto
      moreover have "pdindex (heap_va k) \<noteq> 1023" using heap_va_props(5) [of k] \<open>k < np\<close> np by simp
      ultimately show ?thesis using s2(4) s1(4,5) fr \<open>k < np\<close> by (simp add: heap_frames_def)
    qed
    have sub: "free_pages s2 \<subseteq> free_pages s - {n}" using s2(5) s1(3) by auto
    have "page_addr ((fr(np := n)) k) \<notin> tables (phys s2) (cr3 s2) \<and> 0 < (fr(np := n)) k \<and> (fr(np := n)) k < 3840 \<and>
        (fr(np := n)) k \<notin> free_pages s2" if "k < Suc np" for k
    proof -
      let ?f = "(fr(np := n)) k"
      have f: "0 < ?f" "?f < 3840" "?f \<notin> free_pages s - {n}" "page_addr ?f \<notin> tables (phys s) (cr3 s)"
        using fr that n inv by (auto simp: heap_frames_def pg_inv_def)
      moreover have "page_addr ?f \<noteq> page_addr m" if "\<not> present (pde (phys s) (cr3 s) ?i)"
        using m [OF that] f page_addr_inj [of ?f m] by (auto simp: in_free_pages)
      ultimately show ?thesis using tab(1) sub s2(6) s1(5) by (auto split: if_splits)
    qed
    moreover have "inj_on (fr(np := n)) {..<Suc np}"
      using fr n(1) unfolding heap_frames_def lessThan_Suc by (auto simp: inj_on_def)
    ultimately have "heap_frames s2 (fr(np := n)) (Suc np)" using trans unfolding heap_frames_def by blast
    then have "pages_ok s2 (Suc np)" using s2(2) inj2 unfolding pages_ok_def by blast
    moreover have "card (free_pages s2) < card (free_pages s)"
      using sub n(1) by (intro psubset_card_mono) auto
    moreover have "card (free_pages s) \<le> card (free_pages s2) + 2"
    proof -
      have "finite (free_pages s2)" using sub by (rule finite_subset) simp
      moreover have "free_pages s \<subseteq> insert n (insert m (free_pages s2))" using s2(5) s1(3) by (auto simp: m_def)
      ultimately have "card (free_pages s) \<le> card (insert n (insert m (free_pages s2)))" by (intro card_mono) simp_all
      then show ?thesis using \<open>finite (free_pages s2)\<close> by (simp add: card_insert_if split: if_splits)
    qed
    moreover have "paging_state.more s2 = paging_state.more s"
      using s2(10) s1(9) by (cases s, cases s1) simp
    ultimately show ?thesis using s1 s2(1,7,8,9) by auto
  qed
qed

section \<open>One page less\<close>

lemma retract_ok:
  assumes ok: "pages_ok s (Suc np)"
  shows "\<exists>pa s1 s2. get_physaddr (heap_va np) s = ret pa \<and> mm_unmap (heap_va np) s = ret s1 \<and> pa_free pa s1 = ret s2 \<and>
    pages_ok s2 np \<and> mem s2 = mem s \<and> io s2 = io s \<and> idt_part s2 = idt_part s \<and>
    paging_state.more s2 = paging_state.more s \<and> card (free_pages s2) = Suc (card (free_pages s))"
proof -
  obtain fr where fr: "heap_frames s fr (Suc np)" and inv: "pg_inv s" and inj: "tables_inj s"
    using ok by (auto simp: pages_ok_def)
  let ?va = "heap_va np" let ?i = "pdindex (heap_va np)"
  have np: "Suc np \<le> 3840" using heap_pages_bound [OF fr] by simp
  have f: "0 < fr np" "fr np < 3840" "fr np \<notin> free_pages s" "page_addr (fr np) \<notin> tables (phys s) (cr3 s)"
    "translate (phys s) (cr3 s) ?va = Some (page_addr (fr np))"
    using fr by (auto simp: heap_frames_def)
  have get: "get_physaddr ?va s = ret (page_addr (fr np))"
    using get_physaddr_translate [of s ?va] inv f(5) by (simp add: pg_inv_def)
  have pres: "present (pde (phys s) (cr3 s) (pdindex (heap_va k)))" if "k < Suc np" for k
    using fr that translate_present unfolding heap_frames_def by metis
  have va: "?i \<noteq> 1023" using heap_va_props(5) [of np] np by simp
  obtain s1 where s1: "mm_unmap ?va s = ret s1" "pg_inv s1"
    "\<forall>va'. \<not> aliases (phys s1) (cr3 s1) ?va va' \<longrightarrow> translate (phys s1) (cr3 s1) va' = translate (phys s) (cr3 s) va'"
    "free_pages s1 = free_pages s" "cr3 s1 = cr3 s" "mem s1 = mem s" "io s1 = io s" "idt_part s1 = idt_part s"
    "paging_state.more s1 = paging_state.more s"
    "\<forall>k. unat k < 1024 \<longrightarrow> pde (phys s1) (cr3 s) k = pde (phys s) (cr3 s) k"
    using mm_unmap_unmaps [OF inv va pres] by blast
  have tab: "tables (phys s1) (cr3 s) = tables (phys s) (cr3 s)"
    using dir_unchanged(2) s1(10) by blast
  have "unat (page_addr (fr np)) < 0xF00000" using page_addr_props(1) [OF f(2)] f(2) by simp
  then obtain s2 where s2: "pa_free (page_addr (fr np)) s1 = ret s2" "pa_wf s2"
    "free_pages s2 = insert (fr np) (free_pages s1)" "mem s2 = mem s1" "io s2 = io s1"
    "pa_state.more s2 = pa_state.more s1" "idt_part s2 = idt_part s1"
    using pa_free_correct [of s1 "page_addr (fr np)"] s1(2) page_addr_props(3) [OF f(2)] by (auto simp: pg_inv_def)
  have ph: "phys s2 = phys s1 \<and> cr3 s2 = cr3 s1 \<and> paging_state.more s2 = paging_state.more s1"
    using s2(6) by (cases s1, cases s2) simp
  have inv2: "pg_inv s2"
    using s1(2,5) s2(2,3) ph f(1,4) tab by (auto simp: pg_inv_def)
  have inj2: "tables_inj s2"
    using inj ph s1(5,10) unfolding tables_inj_def by simp
  have trans: "translate (phys s2) (cr3 s2) (heap_va k) = translate (phys s) (cr3 s) (heap_va k)" if "k < np" for k
  proof -
    have "present (pde (phys s2) (cr3 s2) (pdindex (heap_va j)))" if "j < Suc np" for j
      using pres [OF that] ph s1(5,10) pdindex_bound by simp
    then have "\<not> aliases (phys s2) (cr3 s2) ?va (heap_va k)"
      using that np by (intro heap_not_alias [OF inj2]) auto
    then show ?thesis using s1(3) ph by simp
  qed
  have "heap_frames s2 fr np"
    unfolding heap_frames_def
  proof (intro conjI allI impI)
    show "inj_on fr {..<np}" using fr by (auto simp: heap_frames_def inj_on_def)
    fix k assume k: "k < np"
    then have fk: "0 < fr k" "fr k < 3840" "fr k \<notin> free_pages s" "page_addr (fr k) \<notin> tables (phys s) (cr3 s)"
      "translate (phys s) (cr3 s) (heap_va k) = Some (page_addr (fr k))" "fr k \<noteq> fr np"
      using fr by (auto simp: heap_frames_def inj_on_def)
    then show "0 < fr k" "fr k < 3840" "fr k \<notin> free_pages s2" "page_addr (fr k) \<notin> tables (phys s2) (cr3 s2)"
      "translate (phys s2) (cr3 s2) (heap_va k) = Some (page_addr (fr k))"
      using s2(3) s1(4,5) ph tab trans [OF k] by auto
  qed
  then have "pages_ok s2 np" using inv2 inj2 unfolding pages_ok_def by blast
  then show ?thesis using get s1 s2 ph f(3) by auto
qed

text \<open>Two free pages are enough: one for the heap, one for a page table.\<close>

lemma extend_two:
  assumes ok: "pages_ok s np" and two: "2 \<le> card (free_pages s)"
  shows "\<exists>p s1. pa_alloc s = ret (p, s1) \<and> mm_map p (heap_va np) fl s1 \<noteq> fail e"
proof -
  obtain fr where fr: "heap_frames s fr np" and inv: "pg_inv s" using ok by (auto simp: pages_ok_def)
  have ne: "free_pages s \<noteq> {}" using two by auto
  define n where "n = Min (free_pages s)"
  obtain s1 where s1: "pa_alloc s = ret (page_addr n, s1)" "pg_inv s1" "free_pages s1 = free_pages s - {n}"
    using pa_alloc_inv [OF inv ne] by (auto simp: n_def)
  have n: "n \<in> free_pages s" "n < 3840" "0 < n"
    using ne Min_in [of "free_pages s"] inv by (auto simp: n_def in_free_pages pg_inv_def intro: gr0I)
  have "card (free_pages s1) = card (free_pages s) - 1" using s1(3) n(1) by simp
  then have "free_pages s1 \<noteq> {}" using two by auto
  moreover have "page_addr n \<noteq> 0" using page_addr_props(1) [OF n(2)] n(3) by auto
  moreover have "pdindex (heap_va np) \<noteq> 1023"
    using heap_va_props(5) heap_pages_bound [OF fr] by simp
  ultimately have "\<exists>s2. mm_map (page_addr n) (heap_va np) fl s1 = ret (heap_va np, s2)"
    using mm_map_maps [OF s1(2)] by blast
  then show ?thesis using s1(1) by auto
qed

end
