(* ===== verification/HeapLayout.thy ===== *)
theory HeapLayout
  imports Kmalloc HeapPages
begin

text \<open>
  The layout of the kernel heap. A block is its address, the size of its memory and whether it is free;
  \<open>tiles lo bl hi\<close> says that the blocks lie one after the other, each with its header of 16 bytes, and
  fill the addresses from \<open>lo\<close> to \<open>hi\<close>. \<open>heap_mem\<close> ties the blocks to the memory: every header holds
  its size and the magic number, and the free list is the free blocks in this order.

  The code gives new pages to the last chunk of the free list and takes pages from it, so it relies on that chunk
  being the last block of the heap; \<open>end_free\<close> states it. On such layouts \<open>_kmalloc\<close> and \<open>_kfree\<close>
  are the operations on the layout proved here.
\<close>

section \<open>Blocks that tile the heap\<close>

type_synonym block = "u32 \<times> u32 \<times> bool"

fun tiles :: "nat \<Rightarrow> block list \<Rightarrow> nat \<Rightarrow> bool" where
  "tiles lo [] hi \<longleftrightarrow> lo = hi"
| "tiles lo ((a, n, f) # bl) hi \<longleftrightarrow> unat a = lo \<and> 16 dvd unat n \<and> tiles (lo + 16 + unat n) bl hi"

fun frees :: "block list \<Rightarrow> u32 list" where
  "frees [] = []"
| "frees ((a, n, f) # bl) = (if f then a # frees bl else frees bl)"

lemma frees_append [simp]: "frees (xs @ ys) = frees xs @ frees ys"
  by (induction xs rule: frees.induct) auto

lemma set_frees: "set (frees bl) = {a. \<exists>n. (a, n, True) \<in> set bl}"
  by (induction bl rule: frees.induct) auto

lemma tiles_append: "tiles lo (xs @ ys) hi \<longleftrightarrow> (\<exists>mid. tiles lo xs mid \<and> tiles mid ys hi)"
  by (induction lo xs hi rule: tiles.induct) auto

lemma tiles_le: "tiles lo bl hi \<Longrightarrow> lo \<le> hi"
  by (induction lo bl hi rule: tiles.induct) auto

lemma tiles_block: "tiles lo bl hi \<Longrightarrow> (a, n, f) \<in> set bl \<Longrightarrow> lo \<le> unat a \<and> unat a + 16 + unat n \<le> hi \<and> 16 dvd unat n"
  by (induction lo bl hi rule: tiles.induct) (auto dest: tiles_le)

lemma tiles_aligned: "tiles lo bl hi \<Longrightarrow> 16 dvd lo \<Longrightarrow> (a, n, f) \<in> set bl \<Longrightarrow> 16 dvd unat a"
  by (induction lo bl hi rule: tiles.induct) auto

lemma tiles_chunk_ok: "tiles lo bl hi \<Longrightarrow> 16 dvd lo \<Longrightarrow> 0xC0400000 \<le> lo \<Longrightarrow> (a, n, f) \<in> set bl \<Longrightarrow> chunk_ok a"
  using tiles_aligned [of lo bl hi a n f] tiles_block [of lo bl hi a n f] by (simp add: chunk_ok_def)

text \<open>Blocks before a block lie below it, blocks after it above its end.\<close>

lemma tiles_order:
  assumes "tiles lo (xs @ (a, n, f) # ys) hi"
  shows "(b, k, g) \<in> set xs \<Longrightarrow> unat b + 16 + unat k \<le> unat a"
    and "(b, k, g) \<in> set ys \<Longrightarrow> unat a + 16 + unat n \<le> unat b"
    and "tiles lo xs (unat a)" and "tiles (unat a + 16 + unat n) ys hi"
proof -
  show t: "tiles lo xs (unat a)" "tiles (unat a + 16 + unat n) ys hi" using assms by (auto simp: tiles_append)
  show "(b, k, g) \<in> set xs \<Longrightarrow> unat b + 16 + unat k \<le> unat a" using tiles_block [OF t(1)] by blast
  show "(b, k, g) \<in> set ys \<Longrightarrow> unat a + 16 + unat n \<le> unat b" using tiles_block [OF t(2)] by blast
qed

lemma tiles_frees_order:
  assumes "tiles lo (xs @ (a, n, f) # ys) hi"
  shows "u \<in> set (frees xs) \<Longrightarrow> u < a" and "v \<in> set (frees ys) \<Longrightarrow> a < v"
proof -
  show "u < a" if "u \<in> set (frees xs)"
  proof -
    obtain k where "(u, k, True) \<in> set xs" using \<open>u \<in> set (frees xs)\<close> by (auto simp: set_frees)
    from tiles_order(1) [OF assms this] show ?thesis by (simp add: word_less_nat_alt)
  qed
  show "a < v" if "v \<in> set (frees ys)"
  proof -
    obtain k where "(v, k, True) \<in> set ys" using \<open>v \<in> set (frees ys)\<close> by (auto simp: set_frees)
    from tiles_order(2) [OF assms this] show ?thesis by (simp add: word_less_nat_alt)
  qed
qed

text \<open>Any two blocks are the same or lie apart.\<close>

lemma tiles_apart:
  assumes "tiles lo bl hi" and "(a, n, f) \<in> set bl" and "(b, k, g) \<in> set bl"
  shows "(a, n, f) = (b, k, g) \<or> unat a + 16 + unat n \<le> unat b \<or> unat b + 16 + unat k \<le> unat a"
  using assms
proof (induction lo bl hi rule: tiles.induct)
  case (2 lo a' n' f' bl hi)
  then have "\<And>x m h. (x, m, h) \<in> set bl \<Longrightarrow> unat a' + 16 + unat n' \<le> unat x"
    using tiles_block [of "lo + 16 + unat n'" bl hi] by auto
  with 2 show ?case by auto
qed simp

section \<open>The layout in memory\<close>

definition heap_mem :: "u32 \<Rightarrow> cells \<Rightarrow> block list \<Rightarrow> bool" where
  "heap_mem hp m bl \<longleftrightarrow> dll m hp (frees bl) \<and>
     (\<forall>(a, n, f) \<in> set bl. chunk_size m a = n \<and> chunk_magic m a = CHUNK_MAGIC)"

definition layout :: "u32 \<Rightarrow> cells \<Rightarrow> u32 \<Rightarrow> block list \<Rightarrow> bool" where
  "layout hp m e bl \<longleftrightarrow> hp_ok hp \<and> tiles 0xC0400000 bl (unat e) \<and> heap_mem hp m bl"

lemma layout_block:
  assumes "layout hp m e bl" and "(a, n, f) \<in> set bl"
  shows "chunk_ok a" "chunk_size m a = n" "chunk_magic m a = CHUNK_MAGIC"
    "0xC0400000 \<le> unat a" "unat a + 16 + unat n \<le> unat e" "16 dvd unat n"
proof -
  have t: "tiles 0xC0400000 bl (unat e)" using assms(1) by (simp add: layout_def)
  show "chunk_ok a" using tiles_chunk_ok [OF t _ _ assms(2)] by simp
  show "chunk_size m a = n" "chunk_magic m a = CHUNK_MAGIC" using assms by (auto simp: layout_def heap_mem_def)
  show "0xC0400000 \<le> unat a" "unat a + 16 + unat n \<le> unat e" "16 dvd unat n" using tiles_block [OF t assms(2)] by auto
qed

lemma layout_free_ok: "layout hp m e bl \<Longrightarrow> a \<in> set (frees bl) \<Longrightarrow> chunk_ok a"
  using layout_block(1) by (auto simp: set_frees)

lemma layout_block_end:
  assumes "layout hp m e bl" and "(a, n, f) \<in> set bl"
  shows "unat (a + n + 16) = unat a + 16 + unat n"
proof -
  have b: "unat a + 16 + unat n \<le> unat e" using layout_block(5) [OF assms] .
  have an: "unat (a + n) = unat a + unat n" using b unat_lt_32 [of e] by (intro unat_add_small) simp
  then show ?thesis using b unat_lt_32 [of e] unat_add_small [of "a + n" 16] by simp
qed

text \<open>A change of memory outside the headers keeps the layout; inside, only links change.\<close>

lemma heap_mem_frame:
  assumes "heap_mem hp m bl" and "dll m' hp (frees bl')" and "set bl' \<subseteq> set bl \<union> new"
    and "\<And>a n f. (a, n, f) \<in> set bl \<Longrightarrow> (a, n, f) \<in> set bl' \<Longrightarrow> m' (a + 8) = m (a + 8) \<and> m' (a + 12) = m (a + 12)"
    and "\<And>a n f. (a, n, f) \<in> new \<Longrightarrow> m' (a + 8) = n \<and> m' (a + 12) = CHUNK_MAGIC"
  shows "heap_mem hp m' bl'"
  using assms by (fastforce simp: heap_mem_def chunk_size_def chunk_magic_def)

text \<open>The cells that heap operations may write: the list header and the block headers.\<close>

definition heap_cells :: "u32 \<Rightarrow> block list \<Rightarrow> u32 set" where
  "heap_cells hp bl = {hp, hp + 4, hp + 8} \<union> (\<Union>(a, n, f) \<in> set bl. {a, a + 4, a + 8, a + 12})"

lemma foot_heap_cells: "set (foot hp (frees bl)) \<subseteq> heap_cells hp bl"
  by (fastforce simp: heap_cells_def set_foot set_frees)

lemma heap_cells_append: "heap_cells hp (xs @ ys) = heap_cells hp xs \<union> heap_cells hp ys"
  by (auto simp: heap_cells_def)

lemma headers_kept:
  assumes lay: "layout hp m e bl" and frame: "\<And>k. k \<notin> set (foot hp as) \<Longrightarrow> m' k = m k"
    and as: "\<And>a. a \<in> set as \<Longrightarrow> chunk_ok a" and bl: "(a, n, f) \<in> set bl"
  shows "chunk_size m' a = n" "chunk_magic m' a = CHUNK_MAGIC"
proof -
  have "a + 8 \<notin> set (foot hp as)" "a + 12 \<notin> set (foot hp as)"
    using size_cells_outside [of hp as a] layout_block(1) [OF lay bl] lay as by (auto simp: layout_def)
  then have "m' (a + 8) = m (a + 8)" "m' (a + 12) = m (a + 12)" using frame by blast+
  then show "chunk_size m' a = n" "chunk_magic m' a = CHUNK_MAGIC"
    using layout_block(2,3) [OF lay bl] by (simp_all add: chunk_size_def chunk_magic_def)
qed

lemma layoutI:
  assumes "hp_ok hp" and "tiles 0xC0400000 bl (unat e)" and "dll m hp (frees bl)"
    and "\<And>a n f. (a, n, f) \<in> set bl \<Longrightarrow> chunk_size m a = n \<and> chunk_magic m a = CHUNK_MAGIC"
  shows "layout hp m e bl"
  using assms by (auto simp: layout_def heap_mem_def)

lemma layout_parts:
  assumes "layout hp m e bl"
  shows "hp_ok hp" "tiles 0xC0400000 bl (unat e)" "dll m hp (frees bl)"
  using assms by (auto simp: layout_def heap_mem_def)

text \<open>A used block enters the free list at its place.\<close>

lemma layout_insert:
  assumes lay: "layout hp m e (xs @ (c, n, False) # ys)"
  shows "\<exists>m'. insert_chunk hp m c = Some m' \<and> layout hp m' e (xs @ (c, n, True) # ys) \<and>
    (\<forall>k. k \<notin> heap_cells hp (xs @ (c, n, True) # ys) \<longrightarrow> m' k = m k)"
proof -
  note parts = layout_parts [OF lay]
  have c: "chunk_ok c" using layout_block(1) [OF lay, of c n False] by simp
  have ok: "\<And>a. a \<in> set (frees xs @ frees ys) \<Longrightarrow> chunk_ok a" using layout_free_ok [OF lay] by simp
  have "c \<notin> set (frees xs @ frees ys)" using tiles_frees_order [OF parts(2)] by force
  then have fresh: "fresh hp (frees xs @ frees ys) c" using chunks_fresh [of hp "frees xs @ frees ys" c] parts(1) ok c by simp
  have "frees ys = [] \<or> \<not> hd (frees ys) < c"
    using tiles_frees_order(2) [OF parts(2), of "hd (frees ys)"] by (cases "frees ys") auto
  then obtain m' where m': "insert_chunk hp m c = Some m'" "dll m' hp (frees xs @ c # frees ys)"
    "\<forall>k. k \<notin> set (foot hp (c # frees xs @ frees ys)) \<longrightarrow> m' k = m k"
    using insert_chunk_dll [of m hp "frees xs" "frees ys" c] parts(3) tiles_frees_order(1) [OF parts(2)] fresh by auto
  have ok': "\<And>a. a \<in> set (c # frees xs @ frees ys) \<Longrightarrow> chunk_ok a" using ok c by auto
  have "layout hp m' e (xs @ (c, n, True) # ys)"
  proof (rule layoutI)
    show "tiles 0xC0400000 (xs @ (c, n, True) # ys) (unat e)" using parts(2) by (simp add: tiles_append)
    fix a k f assume "(a, k, f) \<in> set (xs @ (c, n, True) # ys)"
    then obtain g where "(a, k, g) \<in> set (xs @ (c, n, False) # ys)" by auto
    then show "chunk_size m' a = k \<and> chunk_magic m' a = CHUNK_MAGIC"
      using headers_kept [OF lay _ ok'] m'(3) by blast
  qed (use parts m' in auto)
  moreover have "set (foot hp (c # frees xs @ frees ys)) \<subseteq> heap_cells hp (xs @ (c, n, True) # ys)"
    using foot_heap_cells [of hp "xs @ (c, n, True) # ys"] by (auto simp: set_foot)
  ultimately show ?thesis using m' by blast
qed

text \<open>A free block leaves the free list.\<close>

lemma layout_remove:
  assumes lay: "layout hp m e (xs @ (c, n, True) # ys)"
  shows "layout hp (remove_node m c) e (xs @ (c, n, False) # ys)"
    and "k \<notin> heap_cells hp (xs @ (c, n, True) # ys) \<Longrightarrow> remove_node m c k = m k"
proof -
  note parts = layout_parts [OF lay]
  have dll: "dll m hp (frees xs @ c # frees ys)" using parts(3) by simp
  have ok: "\<And>a. a \<in> set (frees xs @ frees ys) \<Longrightarrow> chunk_ok a" using layout_free_ok [OF lay] by simp
  have frame: "\<And>k. k \<notin> set (foot hp (frees xs @ frees ys)) \<Longrightarrow> remove_node m c k = m k"
    by (rule remove_node_frame [OF dll])
  show "layout hp (remove_node m c) e (xs @ (c, n, False) # ys)"
  proof (rule layoutI)
    show "tiles 0xC0400000 (xs @ (c, n, False) # ys) (unat e)" using parts(2) by (simp add: tiles_append)
    fix a k f assume "(a, k, f) \<in> set (xs @ (c, n, False) # ys)"
    then obtain g where "(a, k, g) \<in> set (xs @ (c, n, True) # ys)" by auto
    then show "chunk_size (remove_node m c) a = k \<and> chunk_magic (remove_node m c) a = CHUNK_MAGIC"
      using headers_kept [OF lay frame ok] by blast
  qed (use parts remove_node_dll [OF dll] in auto)
  have "set (foot hp (frees xs @ frees ys)) \<subseteq> heap_cells hp (xs @ (c, n, True) # ys)"
    using foot_heap_cells [of hp "xs @ (c, n, True) # ys"] by (auto simp: set_foot)
  then show "k \<notin> heap_cells hp (xs @ (c, n, True) # ys) \<Longrightarrow> remove_node m c k = m k" using frame by blast
qed

text \<open>Writing the size of a free block does not disturb the free list.\<close>

lemma size_write_dll:
  assumes "layout hp m e bl" and "chunk_ok a"
  shows "dll (m(a + 8 := v)) hp (frees bl)" "dll (m(a + 8 := v, a + 12 := w)) hp (frees bl)"
proof -
  have "a + 8 \<notin> set (foot hp (frees bl))" "a + 12 \<notin> set (foot hp (frees bl))"
    using size_cells_outside [of hp "frees bl" a] layout_parts(1) [OF assms(1)] layout_free_ok [OF assms(1)] assms(2) by auto
  then show "dll (m(a + 8 := v)) hp (frees bl)" "dll (m(a + 8 := v, a + 12 := w)) hp (frees bl)"
    by (intro dll_frame [OF layout_parts(3) [OF assms(1)]]; auto)+
qed

lemma size_cell_eq: "chunk_ok a \<Longrightarrow> chunk_ok b \<Longrightarrow>
   chunk_size (m(a + 8 := v)) b = (if a = b then v else chunk_size m b) \<and> chunk_magic (m(a + 8 := v)) b = chunk_magic m b"
  using chunk_neqs(12) [of b a] chunk_neqs(6) [of b a] by (auto simp: chunk_size_def chunk_magic_def)

text \<open>The free block after a given one.\<close>

lemma layout_next:
  assumes lay: "layout hp m e (xs @ (a, n, True) # ys)"
  shows "get_next m a = first_of (frees ys)"
  using get_next_first [of m hp "frees xs" a "frees ys"] layout_parts(3) [OF lay] by simp

lemma layout_head: "layout hp m e bl \<Longrightarrow> get_head m hp = first_of (frees bl)"
  by (rule get_head_first [OF layout_parts(3)])

lemma layout_tail: "layout hp m e bl \<Longrightarrow> get_tail m hp = (if frees bl = [] then 0 else last (frees bl))"
  using get_tail_dll [OF layout_parts(3)] by (auto split: list.splits)

text \<open>The next free block begins at the end of this one exactly when it is the next block.\<close>

lemma layout_adjacent:
  assumes lay: "layout hp m e (xs @ (a, n, True) # (b, k, True) # ys)"
  shows "b = a + n + 16"
proof -
  have "unat b = unat a + 16 + unat n" using layout_parts(2) [OF lay] by (auto simp: tiles_append)
  then show ?thesis using layout_block_end [OF lay, of a n True] by (simp add: word_unat_eq_iff)
qed

lemma layout_not_adjacent:
  assumes lay: "layout hp m e (xs @ (a, n, True) # ys)" and ys: "ys = [] \<or> (\<exists>b k zs. ys = (b, k, False) # zs)"
  shows "first_of (frees ys) \<noteq> a + n + 16"
proof (cases "frees ys = []")
  case True
  then show ?thesis using layout_block_end [OF lay, of a n True] by (auto simp: first_of_def)
next
  case False
  then obtain b k zs where z: "ys = (b, k, False) # zs" using ys by auto
  have "hd (frees ys) \<in> set (frees zs)" using False z by (cases "frees zs") auto
  then obtain j where j: "(hd (frees ys), j, True) \<in> set zs" by (auto simp: set_frees)
  have t: "tiles 0xC0400000 (xs @ (a, n, True) # (b, k, False) # zs) (unat e)" using layout_parts(2) [OF lay] z by simp
  have "unat b = unat a + 16 + unat n" using t by (auto simp: tiles_append)
  moreover have "unat b + 16 + unat k \<le> unat (hd (frees ys))"
    using tiles_order(2) [of _ "xs @ [(a, n, True)]" b k False zs "unat e"] t j by simp
  ultimately have "hd (frees ys) \<noteq> a + n + 16"
    using layout_block_end [OF lay, of a n True] by auto
  then show ?thesis using False by (cases "frees ys") auto
qed

text \<open>Merging a free block with the free block behind it.\<close>

lemma tiles_join:
  assumes "tiles lo (xs @ (a, n, f) # (b, k, g) # ys) hi" and "unat (n + (k + 16)) = unat n + unat k + 16"
  shows "tiles lo (xs @ (a, n + (k + 16), f) # ys) hi"
proof -
  have "16 dvd unat n + unat k + 16" if "16 dvd unat n" "16 dvd unat k" using that by (intro dvd_add) simp_all
  then show ?thesis using assms by (auto simp: tiles_append algebra_simps)
qed

lemma layout_join:
  assumes lay: "layout hp m e (xs @ (a, n, True) # (b, k, True) # ys)"
  defines "m' \<equiv> remove_node (m(a + 8 := n + (k + 16))) b"
  shows "layout hp m' e (xs @ (a, n + (k + 16), True) # ys)"
    and "c \<notin> heap_cells hp (xs @ (a, n, True) # (b, k, True) # ys) \<Longrightarrow> m' c = m c"
proof -
  let ?bl = "xs @ (a, n, True) # (b, k, True) # ys"
  note parts = layout_parts [OF lay]
  have a: "chunk_ok a" "(a, n, True) \<in> set ?bl" using layout_block(1) [OF lay, of a n True] by simp_all
  have dll: "dll (m(a + 8 := n + (k + 16))) hp ((frees xs @ [a]) @ b # frees ys)"
    using size_write_dll(1) [OF lay a(1)] by simp
  have ok: "\<And>c. c \<in> set ((frees xs @ [a]) @ frees ys) \<Longrightarrow> chunk_ok c"
    using layout_free_ok [OF lay] by auto
  have frame: "\<And>c. c \<notin> set (foot hp ((frees xs @ [a]) @ frees ys)) \<Longrightarrow> m' c = (m(a + 8 := n + (k + 16))) c"
    unfolding m'_def by (rule remove_node_frame [OF dll])
  have hdr: "chunk_size m' c = (if c = a then n + (k + 16) else chunk_size m c) \<and> chunk_magic m' c = chunk_magic m c"
    if c: "chunk_ok c" for c
  proof -
    have "c + 8 \<notin> set (foot hp ((frees xs @ [a]) @ frees ys))" "c + 12 \<notin> set (foot hp ((frees xs @ [a]) @ frees ys))"
      using size_cells_outside [of hp "(frees xs @ [a]) @ frees ys" c] parts(1) ok c by auto
    then have "m' (c + 8) = (m(a + 8 := n + (k + 16))) (c + 8)" "m' (c + 12) = (m(a + 8 := n + (k + 16))) (c + 12)"
      using frame by blast+
    then show ?thesis
      using size_cell_eq [OF a(1) c, of m "n + (k + 16)"] unfolding chunk_size_def chunk_magic_def by (simp only: eq_commute [of a c])
  qed
  have "unat a + 16 + unat n + 16 + unat k \<le> unat e"
    using parts(2) tiles_le by (fastforce simp: tiles_append)
  then have sz: "unat n + unat k + 16 < 2 ^ 32" using unat_lt_32 [of e] by simp
  then have "unat (k + 16) = unat k + 16" by (intro unat_add_small [of k 16, simplified]) simp
  then have sum: "unat (n + (k + 16)) = unat n + unat k + 16" using sz unat_add_small [of n "k + 16"] by simp
  show "layout hp m' e (xs @ (a, n + (k + 16), True) # ys)"
  proof (rule layoutI [OF parts(1) tiles_join [OF parts(2) sum]])
    show "dll m' hp (frees (xs @ (a, n + (k + 16), True) # ys))"
      unfolding m'_def using remove_node_dll [OF dll] by simp
    fix c l f assume c: "(c, l, f) \<in> set (xs @ (a, n + (k + 16), True) # ys)"
    show "chunk_size m' c = l \<and> chunk_magic m' c = CHUNK_MAGIC"
    proof (cases "c = a")
      case True
      have "(c, l, f) \<notin> set xs" using tiles_order(1) [OF parts(2), of c l f] True by auto
      moreover have "(c, l, f) \<notin> set ys" using tiles_order(2) [OF parts(2), of c l f] True by auto
      ultimately have "l = n + (k + 16)" using c by auto
      then show ?thesis using hdr [OF a(1)] layout_block(3) [OF lay a(2)] True by simp
    next
      case False
      then have "(c, l, f) \<in> set ?bl" using c by auto
      then show ?thesis using hdr [of c] layout_block(1-3) [OF lay] False by auto
    qed
  qed
  have "set (foot hp ((frees xs @ [a]) @ frees ys)) \<union> {a + 8} \<subseteq> heap_cells hp ?bl"
    using foot_heap_cells [of hp ?bl] by (auto simp: set_foot heap_cells_def)
  moreover assume "c \<notin> heap_cells hp ?bl"
  ultimately have "c \<notin> set (foot hp ((frees xs @ [a]) @ frees ys))" "c \<noteq> a + 8" by auto
  then show "m' c = m c" using frame [of c] by simp
qed

section \<open>Coalescing\<close>

fun coalesce :: "block list \<Rightarrow> block list" where
  "coalesce ((a, n, True) # (b, k, True) # bl) = coalesce ((a, n + (k + 16), True) # bl)"
| "coalesce ((a, n, False) # bl) = (a, n, False) # coalesce bl"
| "coalesce [(a, n, True)] = [(a, n, True)]"
| "coalesce ((a, n, True) # (b, k, False) # bl) = (a, n, True) # coalesce ((b, k, False) # bl)"
| "coalesce [] = []"

lemma coalesce_used: "frees bl = [] \<Longrightarrow> coalesce bl = bl"
  by (induction bl rule: coalesce.induct) (auto split: if_splits)

lemma merge_heap_null [simp]: "merge_heap hp 0 s = ret s"
  by (simp add: merge_heap.simps)

lemma set_mem_simps [simp]: "mem (set_mem m s) = m" "set_mem m' (set_mem m s) = set_mem m' s" "set_mem (mem s) s = s"
  "io (set_mem m s) = io s"
  by (simp_all add: set_mem_def)

lemma merge_heap_step:
  assumes lay: "layout hp (mem s) e (xs @ (a, n, True) # ys)" and ys: "ys = [] \<or> (\<exists>b k zs. ys = (b, k, False) # zs)"
  shows "merge_heap hp a s = bnd (merge_heap hp (first_of (frees ys)) s) (\<lambda>s. shrink_loop (get_tail (mem s) hp) s)"
proof -
  have a: "a \<noteq> 0" "chunk_size (mem s) a = n" "chunk_magic (mem s) a = CHUNK_MAGIC"
    using layout_block [OF lay, of a n True] chunk_not_null [of a] by auto
  then show ?thesis
    using layout_next [OF lay] layout_not_adjacent [OF lay ys] by (subst merge_heap.simps) (simp add: sizeof_chunk_def)
qed

lemma merge_heap_join:
  assumes lay: "layout hp (mem s) e (xs @ (a, n, True) # (b, k, True) # ys)"
  shows "merge_heap hp a s =
    bnd (merge_heap hp a (set_mem (remove_node ((mem s)(a + 8 := n + (k + 16))) b) s)) (\<lambda>s. shrink_loop (get_tail (mem s) hp) s)"
proof -
  have a: "a \<noteq> 0" "chunk_size (mem s) a = n" "chunk_magic (mem s) a = CHUNK_MAGIC" "chunk_size (mem s) b = k"
    using layout_block [OF lay, of a n True] layout_block [OF lay, of b k True] chunk_not_null [of a] by auto
  have "get_next (mem s) a = b" using layout_next [OF lay] by simp
  then show ?thesis
    using a layout_adjacent [OF lay] by (subst merge_heap.simps) (simp add: sizeof_chunk_def)
qed

lemma merge_heap_layout:
  assumes "layout hp (mem s) e (xs @ ys)" and "frees ys \<noteq> []"
  shows "\<exists>m'. layout hp m' e (xs @ coalesce ys) \<and> (\<forall>c. c \<notin> heap_cells hp (xs @ ys) \<longrightarrow> m' c = mem s c) \<and>
    (\<forall>s'. shrink_loop (get_tail m' hp) (set_mem m' s) = ret s' \<longrightarrow> shrink_loop (get_tail (mem s') hp) s' = ret s' \<longrightarrow>
       merge_heap hp (first_of (frees ys)) s = ret s')"
  using assms
proof (induction ys arbitrary: xs s rule: coalesce.induct)
  case (1 a n b k bl)
  let ?m = "remove_node ((mem s)(a + 8 := n + (k + 16))) b"
  have lay: "layout hp (mem (set_mem ?m s)) e (xs @ (a, n + (k + 16), True) # bl)"
    using layout_join(1) [OF "1.prems"(1)] by simp
  obtain m' where m': "layout hp m' e (xs @ coalesce ((a, n + (k + 16), True) # bl))"
    "\<forall>c. c \<notin> heap_cells hp (xs @ (a, n + (k + 16), True) # bl) \<longrightarrow> m' c = ?m c"
    "\<forall>s'. shrink_loop (get_tail m' hp) (set_mem m' s) = ret s' \<longrightarrow> shrink_loop (get_tail (mem s') hp) s' = ret s' \<longrightarrow>
       merge_heap hp a (set_mem ?m s) = ret s'"
    using "1.IH" [OF lay] by auto
  have "heap_cells hp (xs @ (a, n + (k + 16), True) # bl) \<subseteq> heap_cells hp (xs @ (a, n, True) # (b, k, True) # bl)"
    by (auto simp: heap_cells_def)
  then have "m' c = mem s c" if "c \<notin> heap_cells hp (xs @ (a, n, True) # (b, k, True) # bl)" for c
    using that m'(2) layout_join(2) [OF "1.prems"(1) that] by auto
  then show ?case
    using m'(1,3) merge_heap_join [OF "1.prems"(1)] by (intro exI [of _ m']) auto
next
  case (2 a n bl)
  then show ?case using "2.IH" [of s "xs @ [(a, n, False)]"] by auto
next
  case (3 a n)
  then show ?case using merge_heap_step [of hp s e xs a n "[]"] by (intro exI [of _ "mem s"]) auto
next
  case (4 a n b k bl)
  let ?ys = "(b, k, False) # bl" and ?x = "(a, n, True)"
  have IH: "\<exists>m'. layout hp m' e ((xs @ [?x]) @ coalesce ?ys) \<and> (\<forall>c. c \<notin> heap_cells hp ((xs @ [?x]) @ ?ys) \<longrightarrow> m' c = mem s c) \<and>
    (\<forall>s'. shrink_loop (get_tail m' hp) (set_mem m' s) = ret s' \<longrightarrow> shrink_loop (get_tail (mem s') hp) s' = ret s' \<longrightarrow>
       merge_heap hp (first_of (frees ?ys)) s = ret s')" if "frees ?ys \<noteq> []"
    using "4.IH" [of s "xs @ [?x]"] "4.prems"(1) that by simp
  have step: "merge_heap hp a s = bnd (merge_heap hp (first_of (frees ?ys)) s) (\<lambda>s. shrink_loop (get_tail (mem s) hp) s)"
    using merge_heap_step [of hp s e xs a n ?ys] "4.prems"(1) by simp
  show ?case
  proof (cases "frees ?ys = []")
    case True
    then show ?thesis
      using "4.prems"(1) step coalesce_used [OF True] by (intro exI [of _ "mem s"]) simp
  next
    case False
    obtain m' where m': "layout hp m' e ((xs @ [?x]) @ coalesce ?ys)"
      "\<forall>c. c \<notin> heap_cells hp ((xs @ [?x]) @ ?ys) \<longrightarrow> m' c = mem s c"
      "\<forall>s'. shrink_loop (get_tail m' hp) (set_mem m' s) = ret s' \<longrightarrow> shrink_loop (get_tail (mem s') hp) s' = ret s' \<longrightarrow>
        merge_heap hp (first_of (frees ?ys)) s = ret s'"
      using IH [OF False] by blast
    then show ?thesis using step by (intro exI [of _ m']) simp
  qed
qed simp

section \<open>Giving pages back\<close>

definition heap_inv :: "u32 \<Rightarrow> 'a heap_state_scheme \<Rightarrow> block list \<Rightarrow> bool" where
  "heap_inv hp s bl \<longleftrightarrow> layout hp (mem s) (k_heap_end s) bl \<and> (\<exists>np. pages_ok s np \<and> k_heap_end s = heap_va np)"

text \<open>The size that is left of the last free block: at most one page.\<close>

definition trim :: "u32 \<Rightarrow> u32" where
  "trim n = (if n = 0 then 0 else of_nat ((unat n - 1) mod 4096 + 1))"

lemma trim_small: "\<not> n > PAGE_SIZE \<Longrightarrow> trim n = n"
proof (cases "n = 0")
  case False
  assume "\<not> n > PAGE_SIZE"
  then have "unat n - 1 < 4096" "unat n \<noteq> 0" using False by (simp_all add: PAGE_SIZE_def word_less_nat_alt unat_eq_zero)
  then have "(unat n - 1) mod 4096 + 1 = unat n" by simp
  then show ?thesis using False unfolding trim_def by (simp only: if_False) simp
qed (simp add: trim_def)

lemma page_minus:
  assumes "n > PAGE_SIZE"
  shows "unat (n - PAGE_SIZE) = unat n - 4096" "unat n > 4096" "n - PAGE_SIZE \<noteq> 0"
proof -
  show n: "unat n > 4096" using assms by (simp add: PAGE_SIZE_def word_less_nat_alt)
  then show u: "unat (n - PAGE_SIZE) = unat n - 4096" by (simp add: PAGE_SIZE_def unat_sub_if')
  show "n - PAGE_SIZE \<noteq> 0" using u n by auto
qed

lemma trim_step: "n > PAGE_SIZE \<Longrightarrow> trim (n - PAGE_SIZE) = trim n"
proof -
  assume n: "n > PAGE_SIZE"
  have "unat n - 1 = (unat n - 4096 - 1) + 4096" using page_minus(2) [OF n] by simp
  then have "(unat n - 1) mod 4096 = (unat n - 4096 - 1) mod 4096" by (metis mod_add_self2)
  then show ?thesis using page_minus [OF n] by (auto simp: trim_def)
qed

lemma trim_le: "\<not> trim n > PAGE_SIZE"
proof -
  have "(unat n - 1) mod 4096 + 1 \<le> 4096" by (simp add: Suc_leI)
  then have "unat (of_nat ((unat n - 1) mod 4096 + 1) :: u32) \<le> 4096" by (simp only: unat_of_nat) simp
  then show ?thesis by (simp add: trim_def PAGE_SIZE_def word_less_nat_alt del: of_nat_add of_nat_Suc)
qed

lemma pages_ok_cong:
  assumes "phys s' = phys s" "cr3 s' = cr3 s" "LowRamBitF s' = LowRamBitF s" "LowRamFreeCount s' = LowRamFreeCount s"
  shows "pages_ok s' np = pages_ok s np"
proof -
  have "free_pages s' = free_pages s" using assms(3) by (simp add: free_pages_def page_free_def [abs_def])
  moreover from this have "pa_wf s' = pa_wf s" using assms by (simp add: pa_wf_def)
  ultimately show ?thesis
    using assms by (simp add: pages_ok_def pg_inv_def tables_inj_def heap_frames_def)
qed

lemma same_more_heap: "paging_state.more s' = paging_state.more s \<Longrightarrow> k_heap_end s' = k_heap_end s"
  by (cases s, cases s') simp

lemma layout_shrink:
  assumes lay: "layout hp m e (xs @ [(a, n, True)])" and n: "n > PAGE_SIZE"
  shows "layout hp (m(a + 8 := n - PAGE_SIZE)) (e - PAGE_SIZE) (xs @ [(a, n - PAGE_SIZE, True)])"
    and "unat e > 0xC0400000 + 4096"
proof -
  note parts = layout_parts [OF lay]
  have a: "chunk_ok a" "0xC0400000 \<le> unat a" using layout_block [OF lay, of a n True] by simp_all
  have e: "unat e = unat a + 16 + unat n" "16 dvd unat n" using parts(2) by (auto simp: tiles_append)
  show "unat e > 0xC0400000 + 4096" using e a page_minus [OF n] by linarith
  have e': "unat (e - PAGE_SIZE) = unat e - 4096"
    using e page_minus(2) [OF n] by (simp add: PAGE_SIZE_def unat_sub_if')
  have "16 dvd unat n - 4096" using e(2) by (intro dvd_diff_nat) simp_all
  then have tiles: "tiles 0xC0400000 (xs @ [(a, n - PAGE_SIZE, True)]) (unat (e - PAGE_SIZE))"
    using parts(2) page_minus [OF n] e by (auto simp: tiles_append e')
  show "layout hp (m(a + 8 := n - PAGE_SIZE)) (e - PAGE_SIZE) (xs @ [(a, n - PAGE_SIZE, True)])"
  proof (rule layoutI [OF parts(1) tiles])
    show "dll (m(a + 8 := n - PAGE_SIZE)) hp (frees (xs @ [(a, n - PAGE_SIZE, True)]))"
      using size_write_dll(1) [OF lay a(1), of "n - PAGE_SIZE"] by simp
    fix c k f assume c: "(c, k, f) \<in> set (xs @ [(a, n - PAGE_SIZE, True)])"
    show "chunk_size (m(a + 8 := n - PAGE_SIZE)) c = k \<and> chunk_magic (m(a + 8 := n - PAGE_SIZE)) c = CHUNK_MAGIC"
    proof (cases "(c, k, f) \<in> set xs")
      case True
      then have "c \<noteq> a" using tiles_order(1) [OF parts(2), of c k f] by auto
      then show ?thesis
        using layout_block(1-3) [OF lay, of c k f] True size_cell_eq [OF a(1), of c m] by auto
    next
      case False
      then have "c = a \<and> k = n - PAGE_SIZE" using c by simp
      then show ?thesis using size_cell_eq [OF a(1) a(1), of m] layout_block(3) [OF lay, of a n True] by simp
    qed
  qed
qed

lemma heap_np: "pages_ok s np \<Longrightarrow> np \<le> 3840"
  using heap_pages_bound by (force simp: pages_ok_def)

lemma shrink_loop_small: "\<not> chunk_size (mem s) tail > PAGE_SIZE \<Longrightarrow> shrink_loop tail s = ret s"
  by (simp add: shrink_loop.simps)

lemma shrink_loop_end:
  assumes "heap_inv hp s (xs @ [(a, n, True)])"
  shows "\<exists>s'. shrink_loop a s = ret s' \<and> heap_inv hp s' (xs @ [(a, trim n, True)]) \<and>
    (\<forall>c. c \<noteq> a + 8 \<longrightarrow> mem s' c = mem s c) \<and> iflag s' = iflag s \<and> io s' = io s"
  using assms
proof (induction "unat n" arbitrary: n s rule: less_induct)
  case less
  have lay: "layout hp (mem s) (k_heap_end s) (xs @ [(a, n, True)])" using less.prems by (simp add: heap_inv_def)
  obtain np where np: "pages_ok s np" "k_heap_end s = heap_va np" using less.prems by (auto simp: heap_inv_def)
  have a: "chunk_size (mem s) a = n" "a \<noteq> 0"
    using layout_block(1,2) [OF lay, of a n True] chunk_not_null by auto
  show ?case
  proof (cases "n > PAGE_SIZE")
    case False
    then show ?thesis using less.prems a trim_small [OF False] by (intro exI [of _ s]) (simp add: shrink_loop_small)
  next
    case True
    have "np \<noteq> 0"
      using layout_shrink(2) [OF lay True] np heap_va_props(1) [OF heap_np [OF np(1)]] by auto
    then obtain q where q: "np = Suc q" by (cases np) auto
    have end_q: "k_heap_end s - PAGE_SIZE = heap_va q" using np(2) q by (simp add: heap_va_Suc PAGE_SIZE_def)
    let ?s1 = "(set_mem ((mem s)(a + 8 := n - PAGE_SIZE)) s)\<lparr>k_heap_end := heap_va q\<rparr>"
    have "pages_ok ?s1 (Suc q)"
      using np(1) q pages_ok_cong [of ?s1 s] by (simp add: set_mem_def)
    then obtain pa s2 s3 where s3: "get_physaddr (heap_va q) ?s1 = ret pa" "mm_unmap (heap_va q) ?s1 = ret s2"
      "pa_free pa s2 = ret s3" "pages_ok s3 q" "mem s3 = mem ?s1" "io s3 = io ?s1" "idt_part s3 = idt_part ?s1"
      "paging_state.more s3 = paging_state.more ?s1"
      using retract_ok by blast
    have step: "shrink_loop a s = shrink_loop a s3"
      using True a s3(1-3) end_q by (subst shrink_loop.simps) (simp add: Let_def set_mem_def)
    have e3: "k_heap_end s3 = heap_va q" using same_more_heap [OF s3(8)] by simp
    have m3: "mem s3 = (mem s)(a + 8 := n - PAGE_SIZE)" using s3(5) by (simp add: set_mem_def)
    have "heap_inv hp s3 (xs @ [(a, n - PAGE_SIZE, True)])"
      using layout_shrink(1) [OF lay True] s3(4) by (auto simp: heap_inv_def e3 m3 end_q)
    moreover have "unat (n - PAGE_SIZE) < unat n" using page_minus [OF True] by simp
    ultimately obtain s' where s': "shrink_loop a s3 = ret s'" "heap_inv hp s' (xs @ [(a, trim (n - PAGE_SIZE), True)])"
      "\<forall>c. c \<noteq> a + 8 \<longrightarrow> mem s' c = mem s3 c" "iflag s' = iflag s3" "io s' = io s3"
      using less.hyps by blast
    have "iflag s3 = iflag s" using s3(7) by (simp add: idt_part_def idt_state.truncate_def set_mem_def)
    then show ?thesis using s' step m3 s3(6) trim_step [OF True] by auto
  qed
qed

lemma coalesce_addrs: "set (map fst (coalesce bl)) \<subseteq> set (map fst bl)"
  by (induction bl rule: coalesce.induct) auto

lemma shrink_loop_fix:
  assumes "heap_inv hp s (xs @ [(a, n, True)])" and "\<not> n > PAGE_SIZE"
  shows "shrink_loop (get_tail (mem s) hp) s = ret s"
  using assms layout_block(2) [of hp "mem s" _ "xs @ [(a, n, True)]" a n True] layout_tail [of hp "mem s" _ "xs @ [(a, n, True)]"]
  by (auto simp: heap_inv_def intro!: shrink_loop_small)

lemma shrink_loop_all_small:
  assumes lay: "layout hp (mem s) e bl" and small: "\<And>a n. (a, n, True) \<in> set bl \<Longrightarrow> \<not> n > PAGE_SIZE"
  shows "shrink_loop (get_tail (mem s) hp) s = ret s"
proof (cases "frees bl = []")
  case True
  then show ?thesis using layout_tail [OF lay] by (simp add: shrink_loop.simps)
next
  case False
  then have "last (frees bl) \<in> set (frees bl)" by simp
  then obtain n where n: "(last (frees bl), n, True) \<in> set bl" unfolding set_frees by blast
  then show ?thesis
    using layout_tail [OF lay] False layout_block(2) [OF lay n] small [OF n] by (intro shrink_loop_small) simp
qed

text \<open>\<open>end_free bl\<close>: the last block of the heap is free. \<open>end_trim\<close> gives its whole pages back.\<close>

definition end_free :: "block list \<Rightarrow> bool" where
  "end_free bl \<longleftrightarrow> bl \<noteq> [] \<and> snd (snd (last bl))"

definition end_trim :: "block list \<Rightarrow> block list" where
  "end_trim bl = (if end_free bl then butlast bl @ [(fst (last bl), trim (fst (snd (last bl))), True)] else bl)"

definition can_shrink :: "block list \<Rightarrow> bool" where
  "can_shrink bl \<longleftrightarrow> end_free bl \<or> (\<forall>(a, n, f) \<in> set bl. f \<longrightarrow> n \<le> PAGE_SIZE)"

lemma end_free_split: "end_free bl \<longleftrightarrow> (\<exists>xs a n. bl = xs @ [(a, n, True)])"
proof
  assume "end_free bl"
  then have "bl = butlast bl @ [last bl]" "snd (snd (last bl))" by (simp_all add: end_free_def)
  then show "\<exists>xs a n. bl = xs @ [(a, n, True)]" by (metis prod.collapse)
qed (auto simp: end_free_def)

lemma coalesce_not_Nil: "coalesce bl = [] \<longleftrightarrow> bl = []"
  by (induction bl rule: coalesce.induct) auto

lemma coalesce_end_free: "end_free (coalesce bl) = end_free bl"
  by (induction bl rule: coalesce.induct) (auto simp: end_free_def coalesce_not_Nil)

lemma can_shrink_trim: "end_free bl \<Longrightarrow> can_shrink (end_trim bl) \<and> end_free (end_trim bl)"
  by (auto simp: end_trim_def can_shrink_def end_free_def)

lemma heap_inv_flags [simp]: "heap_inv hp (enable s) bl = heap_inv hp s bl" "heap_inv hp (disable s) bl = heap_inv hp s bl"
  using pages_ok_cong [of "enable s" s] pages_ok_cong [of "disable s" s]
  by (simp_all add: heap_inv_def enable_def disable_def)

lemma heap_inv_set_mem: "heap_inv hp s bl \<Longrightarrow> layout hp m (k_heap_end s) bl' \<Longrightarrow> heap_inv hp (set_mem m s) bl'"
  using pages_ok_cong [of "set_mem m s" s] by (auto simp: heap_inv_def set_mem_def)

text \<open>After merging, the last chunk of the free list is cut down; the calls of the recursion repeat this
  without effect.\<close>

lemma merge_heap_all:
  assumes inv: "heap_inv hp s bl" and ne: "frees bl \<noteq> []" and shrink: "can_shrink (coalesce bl)"
  shows "\<exists>s'. merge_heap hp (get_head (mem s) hp) s = ret s' \<and> heap_inv hp s' (end_trim (coalesce bl)) \<and>
    (\<forall>c. c \<notin> heap_cells hp bl \<longrightarrow> mem s' c = mem s c) \<and> iflag s' = iflag s \<and> io s' = io s"
proof -
  have lay: "layout hp (mem s) (k_heap_end s) bl" using inv by (simp add: heap_inv_def)
  obtain m' where m': "layout hp m' (k_heap_end s) (coalesce bl)" "\<forall>c. c \<notin> heap_cells hp bl \<longrightarrow> m' c = mem s c"
    "\<forall>s'. shrink_loop (get_tail m' hp) (set_mem m' s) = ret s' \<longrightarrow> shrink_loop (get_tail (mem s') hp) s' = ret s' \<longrightarrow>
       merge_heap hp (get_head (mem s) hp) s = ret s'"
    using merge_heap_layout [of hp s "k_heap_end s" "[]" bl] lay ne layout_head [OF lay] by auto
  have inv': "heap_inv hp (set_mem m' s) (coalesce bl)" by (rule heap_inv_set_mem [OF inv m'(1)])
  show ?thesis
  proof (cases "end_free (coalesce bl)")
    case True
    then obtain xs a n where bl: "coalesce bl = xs @ [(a, n, True)]" by (auto simp: end_free_split)
    obtain s' where s': "shrink_loop a (set_mem m' s) = ret s'" "heap_inv hp s' (xs @ [(a, trim n, True)])"
      "\<forall>c. c \<noteq> a + 8 \<longrightarrow> mem s' c = m' c" "iflag s' = iflag s" "io s' = io s"
      using shrink_loop_end [of hp "set_mem m' s" xs a n] inv' bl by (auto simp: set_mem_def)
    have "get_tail m' hp = a" using layout_tail [OF m'(1)] bl by simp
    then have "merge_heap hp (get_head (mem s) hp) s = ret s'"
      using m'(3) s'(1) shrink_loop_fix [OF s'(2) trim_le] by simp
    moreover have "end_trim (coalesce bl) = xs @ [(a, trim n, True)]" using True bl by (simp add: end_trim_def)
    moreover have "mem s' c = mem s c" if "c \<notin> heap_cells hp bl" for c
    proof -
      have "a \<in> set (map fst (coalesce bl))" using bl by simp
      then have "a + 8 \<in> heap_cells hp bl" using coalesce_addrs [of bl] by (fastforce simp: heap_cells_def)
      then have "c \<noteq> a + 8" using that by auto
      then show ?thesis using that s'(3) m'(2) by simp
    qed
    ultimately show ?thesis using s' by auto
  next
    case False
    then have small: "\<And>a n. (a, n, True) \<in> set (coalesce bl) \<Longrightarrow> \<not> n > PAGE_SIZE"
      using shrink by (fastforce simp: can_shrink_def)
    have "shrink_loop (get_tail m' hp) (set_mem m' s) = ret (set_mem m' s)"
      using shrink_loop_all_small [of hp "set_mem m' s", OF _ small] m'(1) by simp
    then have "merge_heap hp (get_head (mem s) hp) s = ret (set_mem m' s)" using m'(3) by simp
    moreover have "end_trim (coalesce bl) = coalesce bl" using False by (simp add: end_trim_def)
    ultimately show ?thesis using inv' m'(2) by (intro exI [of _ "set_mem m' s"]) (simp add: set_mem_def)
  qed
qed

text \<open>\<open>_kfree\<close> of the memory of a used block.\<close>

lemma kfree_layout:
  assumes inv: "heap_inv hp s (xs @ (c, n, False) # ys)" and shrink: "can_shrink (coalesce (xs @ (c, n, True) # ys))"
  shows "\<exists>s'. kern_kfree hp (c + 16) s = ret s' \<and> heap_inv hp s' (end_trim (coalesce (xs @ (c, n, True) # ys))) \<and>
    (\<forall>k. k \<notin> heap_cells hp (xs @ (c, n, False) # ys) \<longrightarrow> mem s' k = mem s k) \<and> iflag s' \<and> io s' = io s"
proof -
  let ?bl = "xs @ (c, n, True) # ys"
  have lay: "layout hp (mem s) (k_heap_end s) (xs @ (c, n, False) # ys)" using inv by (simp add: heap_inv_def)
  obtain m' where m': "insert_chunk hp (mem s) c = Some m'" "layout hp m' (k_heap_end s) ?bl"
    "\<forall>k. k \<notin> heap_cells hp ?bl \<longrightarrow> m' k = mem s k"
    using layout_insert [OF lay] by blast
  have inv': "heap_inv hp (set_mem m' (disable s)) ?bl"
    using heap_inv_set_mem [of hp "disable s" "xs @ (c, n, False) # ys" m' ?bl] m'(2) inv
    by (simp add: heap_inv_flags) (simp add: disable_def)
  obtain s' where s': "merge_heap hp (get_head m' hp) (set_mem m' (disable s)) = ret s'"
    "heap_inv hp s' (end_trim (coalesce ?bl))" "\<forall>k. k \<notin> heap_cells hp ?bl \<longrightarrow> mem s' k = m' k" "io s' = io s"
    using merge_heap_all [OF inv' _ shrink] by (auto simp: set_mem_def disable_def)
  have "chunk_magic (mem s) c = CHUNK_MAGIC" using layout_block(3) [OF lay, of c n False] by simp
  then have "kern_kfree hp (c + 16) s = ret (enable s')"
    using m'(1) s'(1) by (simp add: kern_kfree_def sizeof_chunk_def disable_def Let_def)
  moreover have "heap_cells hp ?bl = heap_cells hp (xs @ (c, n, False) # ys)" by (auto simp: heap_cells_def)
  ultimately show ?thesis
    using s' m'(3) by (intro exI [of _ "enable s'"]) (simp add: enable_def [of s'] heap_inv_flags [unfolded enable_def])
qed

section \<open>Allocation\<close>

lemma align_size_props:
  assumes "0 < unat sz" "unat sz \<le> 0x40000000"
  shows "16 dvd unat (align_size sz)" "unat sz \<le> unat (align_size sz)" "unat (align_size sz) < unat sz + 16"
    "align_size (align_size sz) = align_size sz" "16 \<le> unat (align_size sz)"
proof -
  have zero: "sz AND 0xF = 0 \<longleftrightarrow> unat sz mod 16 = 0"
    using unat_and_15 [of sz] by (simp flip: unat_eq_zero)
  have eq: "unat (align_size sz) = (if unat sz mod 16 = 0 then unat sz else 16 * (unat sz div 16) + 16)"
  proof (cases "unat sz mod 16 = 0")
    case True
    then show ?thesis using zero by (simp add: align_size_def)
  next
    case False
    have "unat (sz + 16) = unat sz + 16" using assms(2) by (intro unat_add_small [of sz 16, simplified]) simp
    moreover have "(unat sz + 16) div 16 = unat sz div 16 + 1" by simp
    then have "unat sz + 16 - (unat sz + 16) mod 16 = 16 * (unat sz div 16) + 16"
      unfolding minus_mod_eq_mult_div by simp
    ultimately have "unat ((sz + 16) AND NOT 15) = 16 * (unat sz div 16) + 16"
      unfolding unat_and_not_15 by simp
    moreover have "sz AND 15 \<noteq> 0" using False zero by simp
    ultimately show ?thesis using False unfolding align_size_def by (simp only: if_True if_False not_False_eq_True)
  qed
  show dvd: "16 dvd unat (align_size sz)"
    unfolding eq by (auto simp: dvd_eq_mod_eq_0)
  have "unat sz = 16 * (unat sz div 16) + unat sz mod 16" "unat sz mod 16 < 16" by simp_all
  then show "unat sz \<le> unat (align_size sz)" "unat (align_size sz) < unat sz + 16"
    unfolding eq by (auto; linarith)+
  have "align_size sz AND 0xF = 0"
    using dvd unat_and_15 [of "align_size sz"] by (simp add: dvd_eq_mod_eq_0 flip: unat_eq_zero)
  then show "align_size (align_size sz) = align_size sz" by (subst align_size_def) simp
  have "unat (align_size sz) \<noteq> 0" using assms(1) \<open>unat sz \<le> unat (align_size sz)\<close> by linarith
  then show "16 \<le> unat (align_size sz)" using dvd by (intro dvd_imp_le) simp_all
qed

text \<open>The first free block that \<open>_kmalloc\<close> accepts: it wants twice the size.\<close>

fun first_fit :: "u32 \<Rightarrow> block list \<Rightarrow> u32" where
  "first_fit sz [] = 0"
| "first_fit sz ((a, n, f) # bl) = (if f \<and> \<not> n < sz * 2 then a else first_fit sz bl)"

lemma find_chunk_layout:
  assumes "layout hp m e (xs @ ys)"
  shows "find_chunk m sz (first_of (frees ys)) = ret (first_fit sz ys)"
  using assms
proof (induction ys arbitrary: xs rule: frees.induct)
  case 1
  then show ?case by (simp add: find_chunk.simps)
next
  case (2 a n f bl)
  then have IH: "find_chunk m sz (first_of (frees bl)) = ret (first_fit sz bl)"
    using "2.IH" [of "xs @ [(a, n, f)]"] by (cases f) simp_all
  show ?case
  proof (cases f)
    case False
    then show ?thesis using IH by simp
  next
    case True
    have "a \<noteq> 0" "chunk_size m a = n" "chunk_magic m a = CHUNK_MAGIC" "get_next m a = first_of (frees bl)"
      using layout_block [OF "2.prems", of a n f] chunk_not_null [of a] layout_next [of hp m e xs a n bl] "2.prems" True
      by auto
    then show ?thesis using True IH by (simp add: find_chunk.simps [of m sz a])
  qed
qed

lemma first_fit_split:
  assumes "first_fit sz bl = a" and "a \<noteq> 0"
  shows "\<exists>xs n ys. bl = xs @ (a, n, True) # ys \<and> \<not> n < sz * 2"
  using assms
proof (induction bl rule: frees.induct)
  case (2 b n f bl)
  show ?case
  proof (cases "f \<and> \<not> n < sz * 2")
    case True
    then show ?thesis using 2 by (intro exI [of _ "[]"]) auto
  next
    case False
    then have "first_fit sz bl = a" using 2 by (simp split: if_splits)
    then obtain xs k ys where "bl = xs @ (a, k, True) # ys" "\<not> k < sz * 2" using 2 False by (auto split: if_splits)
    then show ?thesis by (intro exI [of _ "(b, n, f) # xs"]) auto
  qed
qed simp

text \<open>Cutting a free block in two.\<close>

lemma tiles_split:
  assumes t: "tiles lo (xs @ (a, n, True) # ys) hi" and sz: "16 dvd unat sz" "unat sz + 16 < unat n"
    and hi: "hi < 2 ^ 32"
  shows "tiles lo (xs @ (a, sz, True) # (a + 16 + sz, n - sz - 16, True) # ys) hi"
    and "unat (a + 16 + sz) = unat a + 16 + unat sz" and "unat (n - sz - 16) = unat n - unat sz - 16"
proof -
  have n: "16 dvd unat n" "unat a + 16 + unat n \<le> hi" using tiles_block [OF t, of a n True] by auto
  then have "unat (a + 16) = unat a + 16" using hi sz by (intro unat_add_small [of a 16, simplified]) simp
  then show new: "unat (a + 16 + sz) = unat a + 16 + unat sz" using unat_add_small [of "a + 16" sz] n hi sz by simp
  have "unat (n - sz) = unat n - unat sz" using sz by (simp add: unat_sub_if')
  then show rest: "unat (n - sz - 16) = unat n - unat sz - 16" using sz by (simp add: unat_sub_if')
  have rest_tiles: "tiles (16 + (unat a + unat n)) ys hi" using t by (auto simp: tiles_append ac_simps)
  have "16 dvd unat n - unat sz - 16" using n(1) sz(1) by (intro dvd_diff_nat) simp_all
  then show "tiles lo (xs @ (a, sz, True) # (a + 16 + sz, n - sz - 16, True) # ys) hi"
    using t sz rest_tiles by (auto simp: tiles_append new rest)
qed

lemma header_write:
  assumes b: "chunk_ok b" and c: "chunk_ok c"
  shows "(m(b + 8 := r, b + 12 := w)) (c + 8) = (if c = b then r else m (c + 8))"
    and "(m(b + 8 := r, b + 12 := w)) (c + 12) = (if c = b then w else m (c + 12))"
proof -
  have neq: "c + 8 \<noteq> b + 12" "c + 12 \<noteq> b + 8" using chunk_neqs(6) [OF c b] chunk_neqs(12) [OF b c] by blast+
  show "(m(b + 8 := r, b + 12 := w)) (c + 8) = (if c = b then r else m (c + 8))"
    unfolding fun_upd_apply add_right_cancel if_not_P [OF neq(1)] by simp
  show "(m(b + 8 := r, b + 12 := w)) (c + 12) = (if c = b then w else m (c + 12))"
    unfolding fun_upd_apply add_right_cancel if_not_P [OF neq(2)] by simp
qed

lemma split_layout:
  assumes lay: "layout hp m e (xs @ (a, n, True) # ys)" and sz: "16 dvd unat sz" "unat sz + 16 < unat n"
  defines "bl' \<equiv> xs @ (a, sz, True) # (a + 16 + sz, n - sz - 16, True) # ys"
  shows "\<exists>m'. split_chunk hp sz a m = Some m' \<and> layout hp m' e bl' \<and> (\<forall>c. c \<notin> heap_cells hp bl' \<longrightarrow> m' c = m c)"
proof -
  define b where "b = a + 16 + sz"
  define r where "r = n - sz - 16"
  note parts = layout_parts [OF lay]
  have e: "unat e < 2 ^ 32" using unat_lt_32 [of e] by simp
  have t: "tiles 0xC0400000 bl' (unat e)" and b: "unat b = unat a + 16 + unat sz"
    using tiles_split [OF parts(2) sz e] by (simp_all add: bl'_def b_def)
  have a: "chunk_ok a" "chunk_size m a = n" "chunk_magic m a = CHUNK_MAGIC" using layout_block [OF lay, of a n True] by simp_all
  have ok': "chunk_ok c" if "(c, k, f) \<in> set bl'" for c k f using tiles_chunk_ok [OF t _ _ that] by simp
  from ok' [of b r True] have bok: "chunk_ok b" by (simp add: bl'_def b_def r_def)
  let ?m1 = "m(b + 8 := r, b + 12 := CHUNK_MAGIC)"
  have ok: "\<And>c. c \<in> set ((frees xs @ [a]) @ frees ys) \<Longrightarrow> chunk_ok c" using layout_free_ok [OF lay] by auto
  have dll: "dll ?m1 hp ((frees xs @ [a]) @ frees ys)" using size_write_dll(2) [OF lay bok] by simp
  have t': "tiles 0xC0400000 ((xs @ [(a, sz, True)]) @ (b, r, True) # ys) (unat e)" using t by (simp add: bl'_def b_def r_def)
  note order = tiles_frees_order [OF t']
  have "b \<notin> set ((frees xs @ [a]) @ frees ys)" using order by force
  then have fresh: "fresh hp ((frees xs @ [a]) @ frees ys) b"
    using chunks_fresh [of hp "(frees xs @ [a]) @ frees ys" b] parts(1) ok bok by simp
  have last: "frees ys = [] \<or> \<not> hd (frees ys) < b" using order(2) [of "hd (frees ys)"] by (cases "frees ys") auto
  have less: "\<And>u. u \<in> set (frees xs @ [a]) \<Longrightarrow> u < b" using order(1) by simp
  obtain m2 where m2: "insert_chunk hp ?m1 b = Some m2" "dll m2 hp ((frees xs @ [a]) @ b # frees ys)"
    "\<forall>k. k \<notin> set (foot hp (b # (frees xs @ [a]) @ frees ys)) \<longrightarrow> m2 k = ?m1 k"
    using insert_chunk_dll [OF dll less last fresh] by blast
  let ?m3 = "m2(a + 8 := sz)"
  have foot_ok: "\<And>c. c \<in> set (b # (frees xs @ [a]) @ frees ys) \<Longrightarrow> chunk_ok c" using ok bok by auto
  have dll3: "dll ?m3 hp ((frees xs @ [a]) @ b # frees ys)"
    using size_cells_outside(1) [of hp "(frees xs @ [a]) @ b # frees ys" a] parts(1) foot_ok a(1)
    by (intro dll_frame [OF m2(2)]) auto
  have hdr: "chunk_size ?m3 c = (if c = a then sz else if c = b then r else chunk_size m c) \<and>
      chunk_magic ?m3 c = (if c = b then CHUNK_MAGIC else chunk_magic m c)" if c: "chunk_ok c" for c
  proof -
    have "c + 8 \<notin> set (foot hp (b # (frees xs @ [a]) @ frees ys))" "c + 12 \<notin> set (foot hp (b # (frees xs @ [a]) @ frees ys))"
      using size_cells_outside [of hp "b # (frees xs @ [a]) @ frees ys" c] parts(1) foot_ok c by auto
    then have "m2 (c + 8) = ?m1 (c + 8)" "m2 (c + 12) = ?m1 (c + 12)" using m2(3) by blast+
    then have "chunk_size m2 c = (if c = b then r else chunk_size m c)"
      "chunk_magic m2 c = (if c = b then CHUNK_MAGIC else chunk_magic m c)"
      unfolding chunk_size_def chunk_magic_def using header_write [OF bok c, of m r CHUNK_MAGIC] by simp_all
    then show ?thesis using size_cell_eq [OF a(1) c, of m2 sz] by auto
  qed
  have ab: "a \<noteq> b" using b by auto
  have "layout hp ?m3 e bl'"
  proof (rule layoutI [OF parts(1) t])
    show "dll ?m3 hp (frees bl')" using dll3 by (simp add: bl'_def b_def)
    fix c k f assume c: "(c, k, f) \<in> set bl'"
    consider "(c, k, f) \<in> set xs \<union> set ys" | "c = a" "k = sz" | "c = b" "k = r" using c by (auto simp: bl'_def b_def r_def)
    then show "chunk_size ?m3 c = k \<and> chunk_magic ?m3 c = CHUNK_MAGIC"
    proof cases
      case 1
      have "c \<noteq> a \<and> c \<noteq> b"
        using tiles_order(1,2) [OF t', of c k f] tiles_order(1) [OF parts(2), of c k f] b 1 by auto
      then show ?thesis using hdr [OF ok' [OF c]] layout_block(2,3) [OF lay, of c k f] 1 by auto
    qed (use hdr [OF a(1)] hdr [OF bok] a(3) ab in auto)
  qed
  moreover have "split_chunk hp sz a m = Some ?m3"
  proof -
    have "unat (n - 16) = unat n - 16" using sz by (simp add: unat_sub_if')
    then have "\<not> sz \<ge> n - 16" using sz by (simp add: word_le_nat_alt)
    then show ?thesis using m2(1) a(2) by (simp add: split_chunk_def sizeof_chunk_def b_def r_def Let_def)
  qed
  moreover have "?m3 c = m c" if "c \<notin> heap_cells hp bl'" for c
  proof -
    have "set (foot hp (b # (frees xs @ [a]) @ frees ys)) \<union> {a + 8, b + 8, b + 12} \<subseteq> heap_cells hp bl'"
      using foot_heap_cells [of hp bl'] by (auto simp: set_foot heap_cells_def bl'_def b_def)
    then have "c \<notin> set (foot hp (b # (frees xs @ [a]) @ frees ys))" "c \<noteq> a + 8" "c \<noteq> b + 8" "c \<noteq> b + 12"
      using that by auto
    then show ?thesis using m2(3) by simp
  qed
  ultimately show ?thesis by blast
qed

text \<open>What \<open>_kmalloc\<close> makes of the free block it found: the block alone, or the block cut to size and the rest.\<close>

definition carve :: "u32 \<Rightarrow> u32 \<Rightarrow> u32 \<Rightarrow> block list" where
  "carve sz a n = (if unat sz + 16 < unat n then [(a, sz, False), (a + 16 + sz, n - sz - 16, True)] else [(a, n, False)])"

lemma take_chunk_mem:
  assumes lay: "layout hp (mem s) e (xs @ (a, n, True) # ys)" and sz: "16 dvd unat sz" "16 \<le> unat sz"
    and fit: "\<not> n < sz * 2" "unat sz * 2 < 2 ^ 32"
  shows "\<exists>m. take_chunk hp sz a s = ret (a + 16, enable (set_mem m (disable s))) \<and> layout hp m e (xs @ carve sz a n @ ys) \<and>
    (\<forall>c. c \<notin> heap_cells hp (xs @ carve sz a n @ ys) \<longrightarrow> m c = mem s c)"
proof -
  have "unat (sz * 2) = unat sz * 2" using fit(2) by (simp add: unat_word_ariths)
  then have n: "unat sz * 2 \<le> unat n" using fit(1) by (simp add: word_less_nat_alt)
  have magic: "\<not> (get_next (mem s) a \<noteq> 0 \<and> chunk_magic (mem s) (get_next (mem s) a) \<noteq> CHUNK_MAGIC)"
  proof (cases "frees ys")
    case Nil
    then show ?thesis using layout_next [OF lay] by simp
  next
    case (Cons b bs)
    then have "b \<in> set (frees ys)" by simp
    then obtain k where "(b, k, True) \<in> set ys" by (auto simp: set_frees)
    then show ?thesis using layout_next [OF lay] layout_block(3) [OF lay, of b k True] Cons by simp
  qed
  have take_eq: "take_chunk hp sz a s = ret (a + 16, enable (set_mem (remove_node m' a) (disable s)))"
    if "split_chunk hp sz a (mem s) = Some m'" for m'
    using that magic by (simp add: take_chunk_def sizeof_chunk_def disable_def Let_def)
  show ?thesis
  proof (cases "unat sz + 16 < unat n")
    case True
    then obtain m' where m': "split_chunk hp sz a (mem s) = Some m'"
      "layout hp m' e (xs @ (a, sz, True) # (a + 16 + sz, n - sz - 16, True) # ys)"
      "\<forall>c. c \<notin> heap_cells hp (xs @ (a, sz, True) # (a + 16 + sz, n - sz - 16, True) # ys) \<longrightarrow> m' c = mem s c"
      using split_layout [OF lay sz(1)] by blast
    have "layout hp (remove_node m' a) e (xs @ carve sz a n @ ys)"
      using layout_remove(1) [OF m'(2)] True by (simp add: carve_def)
    moreover have "heap_cells hp (xs @ carve sz a n @ ys) = heap_cells hp (xs @ (a, sz, True) # (a + 16 + sz, n - sz - 16, True) # ys)"
      using True by (auto simp: heap_cells_def carve_def)
    ultimately show ?thesis using take_eq [OF m'(1)] m'(3) layout_remove(2) [OF m'(2)] by auto
  next
    case False
    have "unat (n - 16) = unat n - 16" using n sz by (simp add: unat_sub_if')
    then have "sz \<ge> n - 16" using False by (simp add: word_le_nat_alt)
    then have sp: "split_chunk hp sz a (mem s) = Some (mem s)"
      using layout_block(2) [OF lay, of a n True] by (simp add: split_chunk_def sizeof_chunk_def)
    have "layout hp (remove_node (mem s) a) e (xs @ carve sz a n @ ys)"
      using layout_remove(1) [OF lay] False by (simp add: carve_def)
    moreover have "heap_cells hp (xs @ carve sz a n @ ys) = heap_cells hp (xs @ (a, n, True) # ys)"
      using False by (auto simp: heap_cells_def carve_def)
    ultimately show ?thesis using take_eq [OF sp] layout_remove(2) [OF lay] by auto
  qed
qed

lemma take_chunk_layout:
  assumes inv: "heap_inv hp s (xs @ (a, n, True) # ys)" and sz: "16 dvd unat sz" "16 \<le> unat sz"
    and fit: "\<not> n < sz * 2" "unat sz * 2 < 2 ^ 32"
  shows "\<exists>s'. take_chunk hp sz a s = ret (a + 16, s') \<and> heap_inv hp s' (xs @ carve sz a n @ ys) \<and>
    (\<forall>c. c \<notin> heap_cells hp (xs @ carve sz a n @ ys) \<longrightarrow> mem s' c = mem s c) \<and> iflag s' \<and> io s' = io s"
proof -
  have "layout hp (mem s) (k_heap_end s) (xs @ (a, n, True) # ys)" using inv by (simp add: heap_inv_def)
  from take_chunk_mem [OF this sz fit] obtain m where
    m: "take_chunk hp sz a s = ret (a + 16, enable (set_mem m (disable s)))" "layout hp m (k_heap_end s) (xs @ carve sz a n @ ys)"
    "\<forall>c. c \<notin> heap_cells hp (xs @ carve sz a n @ ys) \<longrightarrow> m c = mem s c" by blast
  let ?s = "enable (set_mem m (disable s))"
  have "heap_inv hp ?s (xs @ carve sz a n @ ys)"
    using m(2) heap_inv_set_mem [of hp "disable s" "xs @ (a, n, True) # ys" m] inv
    by (simp add: heap_inv_flags) (simp add: disable_def)
  moreover have "mem ?s = m" "iflag ?s" "io ?s = io s" by (simp_all add: enable_def disable_def set_mem_def)
  ultimately show ?thesis using m(1,3) by auto
qed

text \<open>Growing: the last free block gets the new page, or a new block is made of it.\<close>

definition grown :: "u32 \<Rightarrow> block list \<Rightarrow> block list" where
  "grown e bl = (if end_free bl then butlast bl @ [(fst (last bl), fst (snd (last bl)) + PAGE_SIZE, True)]
     else bl @ [(e, PAGE_SIZE - sizeof_chunk, True)])"

definition can_grow :: "block list \<Rightarrow> bool" where
  "can_grow bl \<longleftrightarrow> end_free bl \<or> frees bl = []"

lemma layout_grow_last:
  assumes lay: "layout hp m e (xs @ [(a, n, True)])" and e: "unat e + 4096 < 2 ^ 32"
  shows "layout hp (m(a + 8 := n + PAGE_SIZE)) (e + PAGE_SIZE) (xs @ [(a, n + PAGE_SIZE, True)])"
proof -
  note parts = layout_parts [OF lay]
  have a: "chunk_ok a" using layout_block [OF lay, of a n True] by simp
  have e1: "unat e = unat a + 16 + unat n" "16 dvd unat n" using parts(2) by (auto simp: tiles_append)
  have e': "unat (e + PAGE_SIZE) = unat e + 4096" "unat (n + PAGE_SIZE) = unat n + 4096"
    using e e1 unat_add_small [of e PAGE_SIZE] unat_add_small [of n PAGE_SIZE] by (simp_all add: PAGE_SIZE_def)
  have "16 dvd unat n + 4096" using e1(2) by (intro dvd_add) simp_all
  then have tiles: "tiles 0xC0400000 (xs @ [(a, n + PAGE_SIZE, True)]) (unat (e + PAGE_SIZE))"
    using parts(2) by (auto simp: tiles_append e')
  show ?thesis
  proof (rule layoutI [OF parts(1) tiles])
    show "dll (m(a + 8 := n + PAGE_SIZE)) hp (frees (xs @ [(a, n + PAGE_SIZE, True)]))"
      using size_write_dll(1) [OF lay a, of "n + PAGE_SIZE"] by simp
    fix c k f assume c: "(c, k, f) \<in> set (xs @ [(a, n + PAGE_SIZE, True)])"
    show "chunk_size (m(a + 8 := n + PAGE_SIZE)) c = k \<and> chunk_magic (m(a + 8 := n + PAGE_SIZE)) c = CHUNK_MAGIC"
    proof (cases "(c, k, f) \<in> set xs")
      case True
      then have "c \<noteq> a" using tiles_order(1) [OF parts(2), of c k f] by auto
      then show ?thesis
        using layout_block(1-3) [OF lay, of c k f] True size_cell_eq [OF a, of c m] by auto
    next
      case False
      then have "c = a \<and> k = n + PAGE_SIZE" using c by simp
      then show ?thesis using size_cell_eq [OF a a, of m] layout_block(3) [OF lay, of a n True] by simp
    qed
  qed
qed

lemma layout_grow_new:
  assumes lay: "layout hp m e bl" and e: "unat e + 4096 < 2 ^ 32" and full: "frees bl = []"
  defines "m' \<equiv> add_tail (m(e + 8 := PAGE_SIZE - sizeof_chunk, e + 12 := CHUNK_MAGIC)) hp e"
  shows "layout hp m' (e + PAGE_SIZE) (bl @ [(e, PAGE_SIZE - sizeof_chunk, True)])"
    and "c \<notin> heap_cells hp (bl @ [(e, PAGE_SIZE - sizeof_chunk, True)]) \<Longrightarrow> m' c = m c"
proof -
  note parts = layout_parts [OF lay]
  let ?m1 = "m(e + 8 := PAGE_SIZE - sizeof_chunk, e + 12 := CHUNK_MAGIC)"
  let ?bl = "bl @ [(e, PAGE_SIZE - sizeof_chunk, True)]"
  have end_dvd: "16 dvd hi \<and> 0xC0400000 \<le> hi" if "tiles lo bs hi" "16 dvd lo" "0xC0400000 \<le> lo" for lo bs hi
    using that by (induction lo bs hi rule: tiles.induct) auto
  have eok: "chunk_ok e" using end_dvd [OF parts(2)] by (simp add: chunk_ok_def)
  have dll: "dll ?m1 hp []" using size_write_dll(2) [OF lay eok] full by simp
  have fresh: "fresh hp [] e" using chunks_fresh [of hp "[]" e] parts(1) eok by simp
  have frame: "c \<notin> set (foot hp [e]) \<Longrightarrow> m' c = ?m1 c" for c
    unfolding m'_def by (rule add_tail_frame [OF dll fresh])
  have e': "unat (e + PAGE_SIZE) = unat e + 4096" using e unat_add_small [of e PAGE_SIZE] by (simp add: PAGE_SIZE_def)
  have tiles: "tiles 0xC0400000 ?bl (unat (e + PAGE_SIZE))"
    using parts(2) e' by (auto simp: tiles_append PAGE_SIZE_def sizeof_chunk_def)
  show "layout hp m' (e + PAGE_SIZE) ?bl"
  proof (rule layoutI [OF parts(1) tiles])
    show "dll m' hp (frees ?bl)" unfolding m'_def using add_tail_dll [OF dll fresh] full by simp
    fix c k f assume c: "(c, k, f) \<in> set ?bl"
    have cok: "chunk_ok c" using tiles_chunk_ok [OF tiles _ _ c] by simp
    have "c + 8 \<notin> set (foot hp [e])" "c + 12 \<notin> set (foot hp [e])"
      using size_cells_outside [of hp "[e]" c] parts(1) eok cok by auto
    then have "m' (c + 8) = ?m1 (c + 8)" "m' (c + 12) = ?m1 (c + 12)" using frame by blast+
    then have sz: "chunk_size m' c = (if c = e then PAGE_SIZE - sizeof_chunk else chunk_size m c)"
      "chunk_magic m' c = (if c = e then CHUNK_MAGIC else chunk_magic m c)"
      unfolding chunk_size_def chunk_magic_def using header_write [OF eok cok, of m "PAGE_SIZE - sizeof_chunk" CHUNK_MAGIC] by simp_all
    show "chunk_size m' c = k \<and> chunk_magic m' c = CHUNK_MAGIC"
    proof (cases "(c, k, f) \<in> set bl")
      case True
      then have "c \<noteq> e" using layout_block(5) [OF lay True] by auto
      then show ?thesis using sz layout_block(2,3) [OF lay True] by simp
    qed (use sz c in auto)
  qed
  assume c: "c \<notin> heap_cells hp ?bl"
  have "set (foot hp [e]) \<union> {e + 8, e + 12} \<subseteq> heap_cells hp ?bl" by (auto simp: set_foot heap_cells_def)
  then have "c \<notin> set (foot hp [e])" "c \<noteq> e + 8" "c \<noteq> e + 12" using c by auto
  then show "m' c = m c" using frame by simp
qed

lemma grown_addrs: "heap_cells hp bl \<subseteq> heap_cells hp (grown e bl)"
  by (auto simp: heap_cells_def grown_def end_free_split)

lemma grow_heap_inv:
  assumes inv: "heap_inv hp s bl" and grow: "can_grow bl"
  shows "grow_heap hp s = fail (Panic ''out of memory.'') \<or>
    (\<exists>s'. grow_heap hp s = ret s' \<and> heap_inv hp s' (grown (k_heap_end s) bl) \<and> card (free_pages s') < card (free_pages s) \<and>
      card (free_pages s) \<le> card (free_pages s') + 2 \<and>
      (\<forall>c. c \<notin> heap_cells hp (grown (k_heap_end s) bl) \<longrightarrow> mem s' c = mem s c) \<and> iflag s' \<and> io s' = io s)"
proof -
  have lay: "layout hp (mem s) (k_heap_end s) bl" using inv by (simp add: heap_inv_def)
  obtain np where np: "pages_ok s np" "k_heap_end s = heap_va np" using inv by (auto simp: heap_inv_def)
  have e: "unat (k_heap_end s) + 4096 < 2 ^ 32" using np heap_va_props(1) [OF heap_np [OF np(1)]] heap_np [OF np(1)] by simp
  let ?d = "disable s"
  have "pages_ok ?d np" using np(1) pages_ok_cong [of ?d s] by (simp add: disable_def)
  moreover have free_d: "free_pages ?d = free_pages s" by (simp add: disable_def free_pages_def page_free_def [abs_def])
  ultimately have ext: "pa_alloc ?d = fail (Panic ''out of memory.'') \<or>
    (\<exists>p s1. pa_alloc ?d = ret (p, s1) \<and>
      (mm_map p (k_heap_end s) (PAGE_WRITE OR PAGE_USER) s1 = fail (Panic ''out of memory.'') \<or>
       (\<exists>s2. mm_map p (k_heap_end s) (PAGE_WRITE OR PAGE_USER) s1 = ret (k_heap_end s, s2) \<and> pages_ok s2 (Suc np) \<and>
          card (free_pages s2) < card (free_pages s) \<and> card (free_pages s) \<le> card (free_pages s2) + 2 \<and>
          mem s2 = mem ?d \<and> io s2 = io ?d \<and> idt_part s2 = idt_part ?d \<and> paging_state.more s2 = paging_state.more ?d)))"
    using extend_ok [of ?d np "PAGE_WRITE OR PAGE_USER"] np(2) by simp
  show ?thesis
  proof (cases "grow_heap hp s = fail (Panic ''out of memory.'')")
    case False
    then obtain p s1 s2 where s2: "pa_alloc ?d = ret (p, s1)"
      "mm_map p (k_heap_end s) (PAGE_WRITE OR PAGE_USER) s1 = ret (k_heap_end s, s2)" "pages_ok s2 (Suc np)"
      "card (free_pages s2) < card (free_pages s)" "mem s2 = mem s" "io s2 = io s" "paging_state.more s2 = paging_state.more ?d"
      "card (free_pages s) \<le> card (free_pages s2) + 2"
      using ext by (auto simp: grow_heap_def disable_def)
    have end2: "k_heap_end s2 = k_heap_end s" using same_more_heap [OF s2(7)] by (simp add: disable_def)
    let ?e = "k_heap_end s + PAGE_SIZE"
    have va: "?e = heap_va (Suc np)" using np(2) by (simp add: heap_va_Suc PAGE_SIZE_def)
    let ?t = "\<lambda>m. enable (set_mem m (s2\<lparr>k_heap_end := ?e\<rparr>))"
    have t: "heap_inv hp (?t m) bl' \<and> card (free_pages (?t m)) < card (free_pages s) \<and>
        card (free_pages s) \<le> card (free_pages (?t m)) + 2 \<and> mem (?t m) = m \<and> iflag (?t m) \<and> io (?t m) = io s"
      if "layout hp m ?e bl'" for m bl'
      using that s2(3,4,6,8) va pages_ok_cong [of "?t m" s2]
      by (auto simp: heap_inv_def enable_def set_mem_def free_pages_def page_free_def [abs_def])
    show ?thesis
    proof (cases "end_free bl")
      case True
      then obtain xs a n where bl: "bl = xs @ [(a, n, True)]" by (auto simp: end_free_split)
      have a: "chunk_size (mem s) a = n" "a \<noteq> 0" "get_tail (mem s) hp = a"
        using layout_block(1,2) [OF lay, of a n True] chunk_not_null layout_tail [OF lay] bl by auto
      have g: "grown (k_heap_end s) bl = xs @ [(a, n + PAGE_SIZE, True)]" using True bl by (simp add: grown_def)
      have "grow_heap hp s = ret (?t ((mem s)(a + 8 := n + PAGE_SIZE)))"
        using s2(1,2,5) end2 a by (simp add: grow_heap_def disable_def Let_def)
      moreover have "a + 8 \<in> heap_cells hp (xs @ [(a, n + PAGE_SIZE, True)])" by (auto simp: heap_cells_def)
      ultimately show ?thesis
        using t [OF layout_grow_last [OF lay [unfolded bl] e]] unfolding g by (auto simp: bl)
    next
      case False
      then have full: "frees bl = []" using grow by (simp add: can_grow_def)
      have g: "grown (k_heap_end s) bl = bl @ [(k_heap_end s, PAGE_SIZE - sizeof_chunk, True)]" using False by (simp add: grown_def)
      have "get_tail (mem s) hp = 0" using layout_tail [OF lay] full by simp
      then have "grow_heap hp s = ret (?t (add_tail ((mem s)(k_heap_end s + 8 := PAGE_SIZE - sizeof_chunk, k_heap_end s + 12 := CHUNK_MAGIC)) hp (k_heap_end s)))"
        using s2(1,2,5) end2 by (simp add: grow_heap_def disable_def Let_def)
      then show ?thesis
        using t [OF layout_grow_new(1) [OF lay e full]] layout_grow_new(2) [OF lay e full] unfolding g by auto
    qed
  qed simp
qed

text \<open>The used blocks of a layout.\<close>

definition used :: "block list \<Rightarrow> (u32 \<times> u32) set" where
  "used bl = {(a, n). (a, n, False) \<in> set bl}"

lemma used_append [simp]: "used (xs @ ys) = used xs \<union> used ys"
  by (auto simp: used_def)

lemma used_simps [simp]: "used [] = {}" "used ((a, n, f) # bl) = (if f then used bl else insert (a, n) (used bl))"
  by (auto simp: used_def)

lemma used_grown [simp]: "used (grown e bl) = used bl"
  by (auto simp: grown_def end_free_split)

lemma used_coalesce [simp]: "used (coalesce bl) = used bl"
  by (induction bl rule: coalesce.induct) auto

lemma used_end_trim [simp]: "used (end_trim bl) = used bl"
  by (auto simp: end_trim_def end_free_split)

lemma grown_end_free: "end_free (grown e bl)"
  by (simp add: grown_def end_free_def)

text \<open>\<open>_kmalloc\<close>: it takes the first block that fits, growing the heap page by page until there is one.
  The number of free pages bounds the calls.\<close>

lemma kmalloc_layout:
  assumes inv: "heap_inv hp s bl" and grow: "can_grow bl" and sz: "0 < unat sz" "unat sz \<le> 0x40000000"
  shows "kern_kmalloc hp sz s = fail (Panic ''out of memory.'') \<or>
    (\<exists>s' xs a n ys. kern_kmalloc hp sz s = ret (a + 16, s') \<and> heap_inv hp s' (xs @ carve (align_size sz) a n @ ys) \<and>
      used (xs @ (a, n, True) # ys) = used bl \<and> \<not> n < align_size sz * 2 \<and> heap_cells hp bl \<subseteq> heap_cells hp (xs @ (a, n, True) # ys) \<and>
      (ys = [] \<or> end_free ys) \<and> (\<exists>es. xs @ (a, n, True) # ys = fold grown es bl) \<and>
      (\<forall>c. c \<notin> heap_cells hp (xs @ carve (align_size sz) a n @ ys) \<longrightarrow> mem s' c = mem s c) \<and> iflag s' \<and> io s' = io s)"
  using assms
proof (induction "card (free_pages s)" arbitrary: s bl rule: less_induct)
  case less
  let ?z = "align_size sz"
  note al = align_size_props [OF sz]
  have lay: "layout hp (mem s) (k_heap_end s) bl" using less.prems(1) by (simp add: heap_inv_def)
  have find: "find_chunk (mem s) ?z (get_head (mem s) hp) = ret (first_fit ?z bl)"
    using find_chunk_layout [of hp "mem s" _ "[]" bl ?z] lay layout_head [OF lay] by simp
  show ?case
  proof (cases "first_fit ?z bl = 0")
    case False
    define a where "a = first_fit ?z bl"
    have a0: "a \<noteq> 0" using False by (simp add: a_def)
    obtain xs n ys where bl: "bl = xs @ (a, n, True) # ys" "\<not> n < ?z * 2"
      using first_fit_split [OF a_def [symmetric] a0] by blast
    have z: "unat ?z * 2 < 2 ^ 32" using al(3) sz(2) by simp
    obtain s' where s': "take_chunk hp ?z a s = ret (a + 16, s')" "heap_inv hp s' (xs @ carve ?z a n @ ys)"
      "\<forall>c. c \<notin> heap_cells hp (xs @ carve ?z a n @ ys) \<longrightarrow> mem s' c = mem s c" "iflag s'" "io s' = io s"
      using take_chunk_layout [OF less.prems(1) [unfolded bl(1)] al(1) al(5) bl(2) z] by blast
    have "kern_kmalloc hp sz s = ret (a + 16, s')"
      using find a0 s'(1) by (subst kern_kmalloc.simps) (simp add: a_def)
    moreover have "ys = [] \<or> end_free ys"
    proof -
      have "frees bl \<noteq> []" by (subst bl(1)) simp
      then have "end_free bl" using less.prems(2) by (simp add: can_grow_def)
      then have "end_free (xs @ (a, n, True) # ys)" using bl(1) by simp
      then show ?thesis by (cases "ys = []") (simp_all add: end_free_def)
    qed
    moreover have "\<exists>es. xs @ (a, n, True) # ys = fold grown es (xs @ (a, n, True) # ys)" by (rule exI [of _ "[]"]) simp
    ultimately show ?thesis
      using s' bl by (intro disjI2 exI [of _ s'] exI [of _ xs] exI [of _ a] exI [of _ n] exI [of _ ys]) simp
  next
    case True
    have step: "kern_kmalloc hp sz s = bnd (grow_heap hp s) (\<lambda>s. kern_kmalloc hp ?z s)"
      using find True by (subst kern_kmalloc.simps) simp
    have eqz: "kern_kmalloc hp ?z t = kern_kmalloc hp sz t" for t :: "'a heap_state_scheme"
      by (subst (1 2) kern_kmalloc.simps) (simp only: al(4))
    show ?thesis
    proof (cases "grow_heap hp s = fail (Panic ''out of memory.'')")
      case True
      then show ?thesis using step by simp
    next
      case False
      let ?g = "grown (k_heap_end s) bl"
      obtain s1 where s1: "grow_heap hp s = ret s1" "heap_inv hp s1 ?g" "card (free_pages s1) < card (free_pages s)"
        "\<forall>c. c \<notin> heap_cells hp ?g \<longrightarrow> mem s1 c = mem s c" "io s1 = io s"
        using grow_heap_inv [OF less.prems(1,2)] False by blast
      have run: "kern_kmalloc hp sz s = kern_kmalloc hp sz s1" using step s1(1) eqz by simp
      have "can_grow ?g" by (simp add: can_grow_def grown_end_free)
      from less.hyps [OF s1(3) s1(2) this sz] consider "kern_kmalloc hp sz s1 = fail (Panic ''out of memory.'')"
        | s' xs a n ys where "kern_kmalloc hp sz s1 = ret (a + 16, s')" "heap_inv hp s' (xs @ carve ?z a n @ ys)"
          "used (xs @ (a, n, True) # ys) = used ?g" "\<not> n < ?z * 2"
          "heap_cells hp ?g \<subseteq> heap_cells hp (xs @ (a, n, True) # ys)" "ys = [] \<or> end_free ys"
          "\<exists>es. xs @ (a, n, True) # ys = fold grown es ?g" "\<forall>c. c \<notin> heap_cells hp (xs @ carve ?z a n @ ys) \<longrightarrow> mem s' c = mem s1 c" "iflag s'" "io s' = io s1"
        by blast
      then show ?thesis
      proof cases
        case 1
        then show ?thesis using run by simp
      next
        case h: (2 s' xs a n ys)
        have sub: "heap_cells hp (xs @ (a, n, True) # ys) \<subseteq> heap_cells hp (xs @ carve ?z a n @ ys)"
          by (auto simp: heap_cells_def carve_def)
        have "mem s' c = mem s c" if "c \<notin> heap_cells hp (xs @ carve ?z a n @ ys)" for c
        proof -
          have "c \<notin> heap_cells hp ?g" using that h(5) sub by blast
          then show ?thesis using that h(8) s1(4) by simp
        qed
        moreover have "used (xs @ (a, n, True) # ys) = used bl" using h(3) by simp
        moreover have "heap_cells hp bl \<subseteq> heap_cells hp (xs @ (a, n, True) # ys)" using h(5) grown_addrs by blast
        moreover obtain es where "xs @ (a, n, True) # ys = fold grown es ?g" using h(7) by blast
        then have "\<exists>es. xs @ (a, n, True) # ys = fold grown es bl" by (intro exI [of _ "k_heap_end s # es"]) simp
        ultimately show ?thesis
          using h(1,2,4,6,9,10) run s1(5)
          by (intro disjI2 exI [of _ s'] exI [of _ xs] exI [of _ a] exI [of _ n] exI [of _ ys]) simp
      qed
    qed
  qed
qed

section \<open>When allocation succeeds\<close>

lemma grow_heap_two:
  assumes inv: "heap_inv hp s bl" and two: "2 \<le> card (free_pages s)"
  shows "grow_heap hp s \<noteq> fail e"
proof -
  obtain np where np: "pages_ok s np" "k_heap_end s = heap_va np" using inv by (auto simp: heap_inv_def)
  have "pages_ok (disable s) np" using np(1) pages_ok_cong [of "disable s" s] by (simp add: disable_def)
  moreover have "free_pages (disable s) = free_pages s" by (simp add: disable_def free_pages_def page_free_def [abs_def])
  ultimately obtain p s1 where p: "pa_alloc (disable s) = ret (p, s1)" "mm_map p (heap_va np) (PAGE_WRITE OR PAGE_USER) s1 \<noteq> fail e"
    using extend_two [of "disable s" np] two by metis
  then show ?thesis
    using np(2) by (cases "mm_map p (heap_va np) (PAGE_WRITE OR PAGE_USER) s1" rule: outcome_cases)
      (auto simp: grow_heap_def Let_def split: if_splits)
qed

lemma first_fit_found: "(a, n, True) \<in> set bl \<Longrightarrow> \<not> n < sz * 2 \<Longrightarrow> 0 \<notin> set (frees bl) \<Longrightarrow> first_fit sz bl \<noteq> 0"
  by (induction bl rule: frees.induct) (auto split: if_splits)

lemma free_pages_state [simp]:
  "free_pages (disable s) = free_pages s" "free_pages (enable s) = free_pages s" "free_pages (set_mem m s) = free_pages s"
  by (simp_all add: disable_def enable_def set_mem_def free_pages_def page_free_def [abs_def])

lemma take_chunk_pages: "take_chunk hp z a s = ret (p, s') \<Longrightarrow> free_pages s' = free_pages s"
  by (auto simp: take_chunk_def Let_def ret_def fail_def Option.bind_eq_Some_conv split: if_splits)

lemma kmalloc_fits:
  assumes inv: "heap_inv hp s bl" and sz: "0 < unat sz" "unat sz \<le> 0x40000000"
    and fit: "(a, n, True) \<in> set bl" "\<not> n < align_size sz * 2"
  shows "\<exists>p s'. kern_kmalloc hp sz s = ret (p, s') \<and> free_pages s' = free_pages s"
proof -
  let ?z = "align_size sz"
  note al = align_size_props [OF sz]
  have lay: "layout hp (mem s) (k_heap_end s) bl" using inv by (simp add: heap_inv_def)
  have find: "find_chunk (mem s) ?z (get_head (mem s) hp) = ret (first_fit ?z bl)"
    using find_chunk_layout [of hp "mem s" _ "[]" bl ?z] lay layout_head [OF lay] by simp
  have "0 \<notin> set (frees bl)" using layout_parts(3) [OF lay] dll_facts(5) by blast
  then have a0: "first_fit ?z bl \<noteq> 0" using first_fit_found [OF fit] by simp
  define b where "b = first_fit ?z bl"
  obtain xs k ys where bl: "bl = xs @ (b, k, True) # ys" "\<not> k < ?z * 2"
    using first_fit_split [OF b_def [symmetric]] a0 by (auto simp: b_def)
  have z: "unat ?z * 2 < 2 ^ 32" using al(3) sz(2) by simp
  obtain s' where s': "take_chunk hp ?z b s = ret (b + 16, s')"
    using take_chunk_layout [OF inv [unfolded bl(1)] al(1) al(5) bl(2) z] by blast
  then have "kern_kmalloc hp sz s = ret (b + 16, s')" using find a0 by (subst kern_kmalloc.simps) (simp add: b_def)
  then show ?thesis using take_chunk_pages [OF s'] by blast
qed

text \<open>A request of at most 2032 bytes takes at most two pages, one of them for a page table.\<close>

lemma kmalloc_small:
  assumes inv: "heap_inv hp s bl" and grow: "can_grow bl" and sz: "0 < unat sz" "unat sz \<le> 2032"
    and two: "2 \<le> card (free_pages s)"
  shows "\<exists>p s'. kern_kmalloc hp sz s = ret (p, s') \<and> card (free_pages s) \<le> card (free_pages s') + 2"
proof -
  let ?z = "align_size sz"
  have sz': "unat sz \<le> 0x40000000" using sz(2) by simp
  note al = align_size_props [OF sz(1) sz']
  have lay: "layout hp (mem s) (k_heap_end s) bl" using inv by (simp add: heap_inv_def)
  have find: "find_chunk (mem s) ?z (get_head (mem s) hp) = ret (first_fit ?z bl)"
    using find_chunk_layout [of hp "mem s" _ "[]" bl ?z] lay layout_head [OF lay] by simp
  have "unat (?z * 2) = unat ?z * 2" using al(3) sz(2) by (simp add: unat_word_ariths)
  moreover obtain w where w: "unat ?z = 16 * w" using al(1) by blast
  then have "w \<le> 127" using al(3) sz(2) by linarith
  ultimately have z2: "unat (?z * 2) \<le> 4064" using w by linarith
  show ?thesis
  proof (cases "first_fit ?z bl = 0")
    case False
    then obtain xs n ys where "\<not> n < ?z * 2" "(first_fit ?z bl, n, True) \<in> set bl"
      using first_fit_split [OF refl False] by (metis in_set_conv_decomp)
    then show ?thesis using kmalloc_fits [OF inv sz(1) sz'] by fastforce
  next
    case True
    let ?g = "grown (k_heap_end s) bl"
    obtain s1 where s1: "grow_heap hp s = ret s1" "heap_inv hp s1 ?g" "card (free_pages s) \<le> card (free_pages s1) + 2"
      using grow_heap_inv [OF inv grow] grow_heap_two [OF inv two] by blast
    have run: "kern_kmalloc hp sz s = kern_kmalloc hp ?z s1"
      using find True s1(1) by (subst kern_kmalloc.simps) simp
    obtain a n where an: "(a, n, True) \<in> set ?g" "4064 \<le> unat n"
    proof (cases "end_free bl")
      case True
      then obtain xs a n where bl: "bl = xs @ [(a, n, True)]" by (auto simp: end_free_split)
      have e: "unat a + 16 + unat (n + PAGE_SIZE) \<le> unat (k_heap_end s1)" "unat a + 16 + unat n \<le> unat (k_heap_end s)"
        using layout_block(5) [of hp "mem s1" "k_heap_end s1" ?g a "n + PAGE_SIZE" True] s1(2)
          layout_block(5) [OF lay, of a n True] True bl by (simp_all add: heap_inv_def grown_def)
      obtain np where "pages_ok s np" "k_heap_end s = heap_va np" using inv by (auto simp: heap_inv_def)
      then have "unat n + 4096 < 2 ^ 32" using e(2) heap_va_props(1) [of np] heap_np [of s np] by simp
      then have "unat (n + PAGE_SIZE) = unat n + 4096" using unat_add_small [of n PAGE_SIZE] by (simp add: PAGE_SIZE_def)
      then show ?thesis using that [of a "n + PAGE_SIZE"] True bl by (simp add: grown_def)
    next
      case False
      then show ?thesis using that [of "k_heap_end s" "PAGE_SIZE - sizeof_chunk"]
        by (simp add: grown_def PAGE_SIZE_def sizeof_chunk_def)
    qed
    have "\<not> n < align_size ?z * 2" using an(2) z2 al(4) by (simp add: word_less_nat_alt)
    then have "\<exists>p s'. kern_kmalloc hp ?z s1 = ret (p, s') \<and> free_pages s' = free_pages s1"
      using kmalloc_fits [OF s1(2) _ _ an(1), of ?z] al(2,3) sz by simp
    then show ?thesis using run s1(3) by auto
  qed
qed

end
