(* ===== verification/HeapSpec.thy ===== *)
theory HeapSpec
  imports HeapLayout
begin

text \<open>
  What the clients of the kernel heap rely on. \<open>heap_live hp s L\<close>: the heap is well formed and ready to
  grow, and \<open>L\<close> is the set of blocks in use, as address and size of their memory. \<open>heap_store\<close> is the
  interface; the operations of kmalloc.c are an interpretation of it.
\<close>

section \<open>Blocks in use lie apart\<close>

lemma payload_not_header:
  assumes lay: "layout hp m e bl" and b: "(b, k, f) \<in> set bl" and x: "unat b + 16 \<le> unat x" "unat x < unat b + 16 + unat k"
  shows "x \<notin> heap_cells hp bl"
proof
  assume "x \<in> heap_cells hp bl"
  then consider "x \<in> {hp, hp + 4, hp + 8}" | c j g where "(c, j, g) \<in> set bl" "x \<in> {c, c + 4, c + 8, c + 12}"
    unfolding heap_cells_def by blast
  then show False
  proof cases
    case 1
    have hp: "hp_ok hp" using layout_parts(1) [OF lay] .
    have "unat (hp + 4) = unat hp + 4" "unat (hp + 8) = unat hp + 8"
      using hp unat_add_small [of hp 4] unat_add_small [of hp 8] by (simp_all add: hp_ok_def)
    then have "unat x \<le> unat hp + 8" using 1 by auto
    then show False using x(1) layout_block(4) [OF lay b] hp by (simp add: hp_ok_def)
  next
    case (2 c j g)
    have ok: "chunk_ok c" using layout_block(1) [OF lay 2(1)] .
    have "unat (c + 4) = unat c + 4" "unat (c + 8) = unat c + 8" "unat (c + 12) = unat c + 12"
      using unat_in_chunk [OF ok, of 4] unat_in_chunk [OF ok, of 8] unat_in_chunk [OF ok, of 12] by simp_all
    then have u: "unat c \<le> unat x" "unat x < unat c + 16" using 2(2) by auto
    consider "c = b" | "unat c + 16 + unat j \<le> unat b" | "unat b + 16 + unat k \<le> unat c"
      using tiles_apart [OF layout_parts(2) [OF lay] 2(1) b] by auto
    then show False using u x by cases auto
  qed
qed

lemma used_apart:
  assumes lay: "layout hp m e bl" and a: "(a, n) \<in> used bl" and b: "(b, k) \<in> used bl" and ne: "(a, n) \<noteq> (b, k)"
  shows "unat a + 16 + unat n \<le> unat b \<or> unat b + 16 + unat k \<le> unat a"
  using tiles_apart [OF layout_parts(2) [OF lay], of a n False b k False] a b ne by (auto simp: used_def)

definition block_mem :: "u32 \<times> u32 \<Rightarrow> u32 set" where
  "block_mem b = {x. unat (fst b) \<le> unat x \<and> unat x < unat (fst b) + unat (snd b)}"

text \<open>The memory of the used blocks, by the address the client has.\<close>

definition in_use :: "block list \<Rightarrow> (u32 \<times> u32) set" where
  "in_use bl = (\<lambda>(a, n). (a + 16, n)) ` used bl"

definition fresh_block :: "(u32 \<times> u32) set \<Rightarrow> u32 \<times> u32 \<Rightarrow> bool" where
  "fresh_block L b \<longleftrightarrow> (\<forall>c \<in> L. block_mem b \<inter> block_mem c = {})"

lemma unat_payload: "layout hp m e bl \<Longrightarrow> (a, n, f) \<in> set bl \<Longrightarrow> unat (a + 16) = unat a + 16"
  using layout_block(1,5) [of hp m e bl a n f] unat_lt_32 [of e] unat_add_small [of a 16] by simp

lemma in_use_apart:
  assumes lay: "layout hp m e bl" and "b \<in> in_use bl" "c \<in> in_use bl" "b \<noteq> c"
  shows "block_mem b \<inter> block_mem c = {}"
proof -
  obtain a n where b: "b = (a + 16, n)" "(a, n) \<in> used bl" using assms(2) by (auto simp: in_use_def)
  obtain d k where c: "c = (d + 16, k)" "(d, k) \<in> used bl" using assms(3) by (auto simp: in_use_def)
  have "unat (a + 16) = unat a + 16" "unat (d + 16) = unat d + 16"
    using unat_payload [OF lay] b(2) c(2) by (auto simp: used_def)
  moreover have "unat a + 16 + unat n \<le> unat d \<or> unat d + 16 + unat k \<le> unat a"
    using used_apart [OF lay b(2) c(2)] assms(4) b c by auto
  ultimately show ?thesis by (auto simp: block_mem_def b c)
qed

lemma in_use_kept:
  assumes lay: "layout hp m e bl" and b: "b \<in> in_use bl" and frame: "\<And>c. c \<notin> heap_cells hp bl \<Longrightarrow> m' c = m0 c"
    and x: "x \<in> block_mem b"
  shows "m' x = m0 x"
proof -
  obtain a n where a: "b = (a + 16, n)" "(a, n, False) \<in> set bl" using b by (auto simp: in_use_def used_def)
  then have "x \<notin> heap_cells hp bl"
    using payload_not_header [OF lay a(2)] x unat_payload [OF lay a(2)] by (simp add: block_mem_def)
  then show ?thesis by (rule frame)
qed

section \<open>Regular heaps\<close>

text \<open>
  In a regular heap every block has a size of 16 modulo 32, and with its header is a multiple of 32. Requests whose rounded
  size is of this kind keep a heap regular, and always leave a free rest: the last block stays free. All requests that the
  kernel makes are of this kind.
\<close>

definition regular :: "block list \<Rightarrow> bool" where
  "regular bl \<longleftrightarrow> (\<forall>(a, n, f) \<in> set bl. unat n mod 32 = 16)"

lemma regular_simps [simp]:
  "regular []" "regular ((a, n, f) # bl) \<longleftrightarrow> unat n mod 32 = 16 \<and> regular bl" "regular (xs @ ys) \<longleftrightarrow> regular xs \<and> regular ys"
  by (simp_all add: regular_def ball_Un)

lemma unat_mod_32: "unat (x + y) mod 32 = (unat x mod 32 + unat y mod 32) mod 32" for x y :: u32
  by (simp add: unat_word_ariths mod_mod_cancel mod_add_eq)

lemma regular_grown: "regular bl \<Longrightarrow> regular (grown e bl)"
  by (auto simp: grown_def end_free_split unat_mod_32 PAGE_SIZE_def sizeof_chunk_def)

lemma regular_fold_grown: "regular bl \<Longrightarrow> regular (fold grown es bl)"
  by (induction es arbitrary: bl) (simp_all add: regular_grown)

lemma regular_coalesce: "regular bl \<Longrightarrow> regular (coalesce bl)"
  by (induction bl rule: coalesce.induct) (simp_all add: unat_mod_32)

lemma regular_trim: "unat n mod 32 = 16 \<Longrightarrow> unat (trim n) mod 32 = 16"
proof -
  assume n: "unat n mod 32 = 16"
  obtain k where k: "unat n = 32 * k + 16" using n by (metis mult_div_mod_eq)
  have "(unat n - 1) mod 4096 mod 32 = (unat n - 1) mod 32" by (simp add: mod_mod_cancel)
  moreover have "unat n - 1 = 15 + 32 * k" using k by simp
  ultimately have m: "(unat n - 1) mod 4096 mod 32 = 15" by (simp only: mod_mult_self2) simp
  have "((unat n - 1) mod 4096 + 1) mod 32 = 16" by (subst mod_add_left_eq [symmetric]) (simp only: m, simp)
  moreover have "(unat n - 1) mod 4096 + 1 < 4097" by simp
  then have "(unat n - 1) mod 4096 + 1 < 2 ^ 32" by simp
  then have "unat (of_nat ((unat n - 1) mod 4096 + 1) :: u32) = (unat n - 1) mod 4096 + 1" by (simp only: unat_of_nat) simp
  moreover have "n \<noteq> 0" using n by auto
  ultimately show ?thesis unfolding trim_def by (simp only: if_False)
qed

lemma regular_end_trim: "regular bl \<Longrightarrow> regular (end_trim bl)"
  by (auto simp: end_trim_def end_free_split regular_trim)

lemma regular_carve:
  assumes n: "unat n mod 32 = 16" and z: "unat z mod 32 = 16" and fit: "unat z * 2 \<le> unat n"
  shows "carve z a n = [(a, z, False), (a + 16 + z, n - z - 16, True)]" and "regular (carve z a n)"
proof -
  have 1: "unat (n - z - 16) mod 32 = 16"
  proof -
    have "unat (n - z - 16 + (z + 16)) mod 32 = (unat (n - z - 16) mod 32 + unat (z + 16) mod 32) mod 32" by (rule unat_mod_32)
    moreover have "unat (z + 16) mod 32 = 0" using z by (simp add: unat_mod_32)
    ultimately show ?thesis using n by simp
  qed
  have "unat z + 16 < unat n"
  proof (rule ccontr)
    assume no: "\<not> unat z + 16 < unat n"
    obtain i where i: "unat z = 32 * i + 16" using z by (metis mult_div_mod_eq)
    obtain j where j: "unat n = 32 * j + 16" using n by (metis mult_div_mod_eq)
    have "(32 * i + 16) * 2 \<le> 32 * j + 16" using fit unfolding i j .
    moreover have "\<not> 32 * i + 16 + 16 < 32 * j + 16" using no unfolding i j .
    ultimately show False by (cases j) simp_all
  qed
  then show c: "carve z a n = [(a, z, False), (a + 16 + z, n - z - 16, True)]" by (simp add: carve_def)
  show "regular (carve z a n)" using z 1 by (simp add: c)
qed

text \<open>The memory of the heap: the list header and the addresses from its start.\<close>

definition heap_own :: "u32 \<Rightarrow> u32 set" where
  "heap_own hp = {hp, hp + 4, hp + 8} \<union> {x. 0xC0400000 \<le> unat x}"

lemma heap_cells_own: "layout hp m e bl \<Longrightarrow> heap_cells hp bl \<subseteq> heap_own hp"
proof
  fix x assume lay: "layout hp m e bl" and x: "x \<in> heap_cells hp bl"
  show "x \<in> heap_own hp"
  proof (cases "x \<in> {hp, hp + 4, hp + 8}")
    case False
    then obtain c j g where c: "(c, j, g) \<in> set bl" "x \<in> {c, c + 4, c + 8, c + 12}" using x by (auto simp: heap_cells_def)
    have ok: "chunk_ok c" using layout_block(1) [OF lay c(1)] .
    have "unat c \<le> unat x" using c(2) unat_in_chunk [OF ok, of 4] unat_in_chunk [OF ok, of 8] unat_in_chunk [OF ok, of 12] by auto
    then show ?thesis using ok by (simp add: heap_own_def chunk_ok_def)
  qed (auto simp: heap_own_def)
qed

section \<open>Allocation and release\<close>

lemma carve_cases:
  assumes n: "\<not> n < align_size sz * 2" and sz: "0 < unat sz" "unat sz \<le> 0x40000000"
  obtains k rest where "carve (align_size sz) a n = (a, k, False) # rest" "unat sz \<le> unat k" "used rest = {}"
    "16 < unat sz \<Longrightarrow> end_free rest"
proof -
  note al = align_size_props [OF sz]
  have "unat (align_size sz * 2) = unat (align_size sz) * 2" using al(3) sz by (simp add: unat_word_ariths)
  then have n2: "unat (align_size sz) * 2 \<le> unat n" using n by (simp add: word_less_nat_alt)
  obtain w where w: "unat (align_size sz) = 16 * w" using al(1) by blast
  show ?thesis
  proof (cases "unat (align_size sz) + 16 < unat n")
    case True
    then show ?thesis using that [of "align_size sz" "[(a + 16 + align_size sz, n - align_size sz - 16, True)]"] al(2)
      by (simp add: carve_def end_free_def)
  next
    case False
    have "\<not> 16 < unat sz"
    proof
      assume "16 < unat sz"
      then have "2 \<le> w" using w al(2) by linarith
      then show False using False n2 w by linarith
    qed
    then show ?thesis using that [of n "[]"] False al(2) n2 by (simp add: carve_def)
  qed
qed

definition ready :: "block list \<Rightarrow> bool" where
  "ready bl \<longleftrightarrow> bl = [] \<or> end_free bl"

lemma ready_can_grow: "ready bl \<Longrightarrow> can_grow bl"
  by (auto simp: ready_def can_grow_def)

lemma kmalloc_blocks:
  assumes inv: "heap_inv hp s bl" and grow: "can_grow bl" and sz: "0 < unat sz" "unat sz \<le> 0x40000000"
  shows "kern_kmalloc hp sz s = fail (Panic ''out of memory.'') \<or>
    (\<exists>s' bl' p n. kern_kmalloc hp sz s = ret (p, s') \<and> heap_inv hp s' bl' \<and> in_use bl' = insert (p, n) (in_use bl) \<and>
      (p, n) \<notin> in_use bl \<and> fresh_block (in_use bl) (p, n) \<and> unat sz \<le> unat n \<and> 16 dvd unat p \<and>
      unat p + unat n \<le> unat (k_heap_end s') \<and> (\<forall>b \<in> in_use bl. \<forall>x \<in> block_mem b. mem s' x = mem s x) \<and>
      (16 < unat sz \<longrightarrow> ready bl') \<and>
      (regular bl \<and> unat (align_size sz) mod 32 = 16 \<longrightarrow> regular bl' \<and> ready bl') \<and> (\<forall>x. x \<notin> heap_own hp \<longrightarrow> mem s' x = mem s x))"
proof (cases "kern_kmalloc hp sz s = fail (Panic ''out of memory.'')")
  case False
  then obtain s' xs a n ys where h: "kern_kmalloc hp sz s = ret (a + 16, s')" "heap_inv hp s' (xs @ carve (align_size sz) a n @ ys)"
    "used (xs @ (a, n, True) # ys) = used bl" "\<not> n < align_size sz * 2"
    "\<forall>c. c \<notin> heap_cells hp (xs @ carve (align_size sz) a n @ ys) \<longrightarrow> mem s' c = mem s c"
    and ys: "ys = [] \<or> end_free ys" and es: "\<exists>es. xs @ (a, n, True) # ys = fold grown es bl"
    using kmalloc_layout [OF assms] by blast
  obtain k rest where c: "carve (align_size sz) a n = (a, k, False) # rest" "unat sz \<le> unat k" "used rest = {}"
    "16 < unat sz \<Longrightarrow> end_free rest"
    using carve_cases [OF h(4) sz] by metis
  let ?bl = "xs @ (a, k, False) # rest @ ys"
  have inv': "heap_inv hp s' ?bl" using h(2) c(1) by simp
  then have lay: "layout hp (mem s') (k_heap_end s') ?bl" by (simp add: heap_inv_def)
  note t = layout_parts(2) [OF lay]
  have used: "used ?bl = insert (a, k) (used bl)" using h(3) c(3) by auto
  have new: "(a, j) \<notin> used bl" for j
  proof
    assume "(a, j) \<in> used bl"
    then have "(a, j, False) \<in> set xs \<or> (a, j, False) \<in> set (rest @ ys)" using h(3) by (auto simp: used_def)
    then show False using tiles_order(1,2) [OF t, of a j False] by auto
  qed
  have in': "in_use ?bl = insert (a + 16, k) (in_use bl)" using used by (auto simp: in_use_def)
  have notin: "(a + 16, k) \<notin> in_use bl" using new by (auto simp: in_use_def)
  have "fresh_block (in_use bl) (a + 16, k)"
    unfolding fresh_block_def using in_use_apart [OF lay] in' notin by blast
  moreover have "mem s' x = mem s x" if "b \<in> in_use bl" "x \<in> block_mem b" for b x
    using in_use_kept [OF lay _ _ that(2), of "mem s'" "mem s"] h(5) that(1) in' c(1) by auto
  moreover have "ready ?bl" if "16 < unat sz"
    using c(4) [OF that] ys by (cases "ys = []") (auto simp: ready_def end_free_def)
  moreover have "regular ?bl \<and> ready ?bl" if reg: "regular bl" and z: "unat (align_size sz) mod 32 = 16"
  proof -
    have "regular (xs @ (a, n, True) # ys)" using es regular_fold_grown [OF reg] by metis
    moreover have "unat (align_size sz * 2) = unat (align_size sz) * 2"
      using align_size_props(3) [OF sz] sz by (simp add: unat_word_ariths)
    then have "unat (align_size sz) * 2 \<le> unat n" using h(4) by (simp add: word_less_nat_alt)
    moreover note regular_carve [OF _ z this, of a]
    ultimately have "regular ((a, k, False) # rest)" "end_free rest" using c(1) by (auto simp: end_free_def)
    then show ?thesis
      using \<open>regular (xs @ _)\<close> ys by (cases "ys = []") (auto simp: ready_def end_free_def)
  qed
  moreover have "mem s' x = mem s x" if "x \<notin> heap_own hp" for x
  proof -
    have "x \<notin> heap_cells hp ?bl" using that heap_cells_own [OF lay] by blast
    then show ?thesis using h(5) c(1) by simp
  qed
  moreover have "(a, k, False) \<in> set ?bl" by simp
  note b = layout_block [OF lay this] and p = unat_payload [OF lay this]
  moreover have "16 dvd unat (a + 16)" using b(1) p by (simp add: chunk_ok_def)
  ultimately show ?thesis
    using h(1) inv' in' notin c(2)
    by (intro disjI2 exI [of _ s'] exI [of _ ?bl] exI [of _ "a + 16"] exI [of _ k]) auto
qed simp_all

lemma kfree_blocks:
  assumes inv: "heap_inv hp s bl" and ready: "ready bl" and b: "(p, n) \<in> in_use bl"
  shows "\<exists>s' bl'. kern_kfree hp p s = ret s' \<and> heap_inv hp s' bl' \<and> ready bl' \<and> in_use bl' = in_use bl - {(p, n)} \<and>
    (\<forall>b \<in> in_use bl - {(p, n)}. \<forall>x \<in> block_mem b. mem s' x = mem s x) \<and>
    (regular bl \<longrightarrow> regular bl') \<and> (\<forall>x. x \<notin> heap_own hp \<longrightarrow> mem s' x = mem s x)"
proof -
  obtain c where c: "p = c + 16" "(c, n) \<in> used bl" using b by (auto simp: in_use_def)
  then obtain xs ys where bl: "bl = xs @ (c, n, False) # ys" by (auto simp: used_def in_set_conv_decomp)
  let ?bl = "xs @ (c, n, True) # ys"
  have lay: "layout hp (mem s) (k_heap_end s) bl" using inv by (simp add: heap_inv_def)
  have "end_free ?bl" using ready bl by (cases "ys = []") (auto simp: ready_def end_free_def)
  then have ef: "end_free (coalesce ?bl)" by (simp add: coalesce_end_free)
  then have sh: "can_shrink (coalesce ?bl)" by (simp add: can_shrink_def)
  obtain s' where s': "kern_kfree hp (c + 16) s = ret s'" "heap_inv hp s' (end_trim (coalesce ?bl))"
    "\<forall>k. k \<notin> heap_cells hp bl \<longrightarrow> mem s' k = mem s k"
    using kfree_layout [OF inv [unfolded bl] sh] bl by blast
  have t: "tiles 0xC0400000 (xs @ (c, n, False) # ys) (unat (k_heap_end s))" using layout_parts(2) [OF lay] bl by simp
  have no: "(c, j) \<notin> used xs \<union> used ys" for j
    using tiles_order(1,2) [OF t, of c j False] by (auto simp: used_def)
  then have "used (end_trim (coalesce ?bl)) = used bl - {(c, n)}" using bl by auto
  moreover have "(\<lambda>(a, k). (a + 16, k)) ` (used bl - {(c, n)}) = in_use bl - {(p, n)}"
    unfolding in_use_def c(1) by (auto simp: image_iff)
  ultimately have in': "in_use (end_trim (coalesce ?bl)) = in_use bl - {(p, n)}" by (simp add: in_use_def)
  moreover have "mem s' x = mem s x" if "b \<in> in_use bl - {(p, n)}" "x \<in> block_mem b" for b x
    using in_use_kept [OF lay _ _ that(2), of "mem s'" "mem s"] s'(3) that(1) by auto
  moreover have "regular (end_trim (coalesce ?bl))" if "regular bl"
    using that bl by (intro regular_end_trim regular_coalesce) simp
  moreover have "mem s' x = mem s x" if "x \<notin> heap_own hp" for x
    using that s'(3) heap_cells_own [OF lay] by blast
  ultimately show ?thesis
    using s'(1,2) c(1) can_shrink_trim [OF ef] by (auto simp: ready_def)
qed

section \<open>The interface\<close>

text \<open>\<open>live s L\<close>: the blocks \<open>L\<close>, as address and size, are in use; \<open>content\<close> reads memory.\<close>

locale heap_store =
  fixes live :: "'s \<Rightarrow> (u32 \<times> u32) set \<Rightarrow> bool"
    and content :: "'s \<Rightarrow> u32 \<Rightarrow> u32"
    and alloc :: "u32 \<Rightarrow> 's \<Rightarrow> (u32 \<times> 's) outcome"
    and release :: "u32 \<Rightarrow> 's \<Rightarrow> 's outcome"
    and usual :: "u32 \<Rightarrow> bool"
    and full :: kerr
  assumes alloc_live: "live s L \<Longrightarrow> usual sz \<Longrightarrow> alloc sz s = fail full \<or>
      (\<exists>p n s'. alloc sz s = ret (p, s') \<and> live s' (insert (p, n) L) \<and> (p, n) \<notin> L \<and> fresh_block L (p, n) \<and>
        unat sz \<le> unat n \<and> (\<forall>b \<in> L. \<forall>x \<in> block_mem b. content s' x = content s x))"
    and release_live: "live s L \<Longrightarrow> (p, n) \<in> L \<Longrightarrow> \<exists>s'. release p s = ret s' \<and> live s' (L - {(p, n)}) \<and>
        (\<forall>b \<in> L - {(p, n)}. \<forall>x \<in> block_mem b. content s' x = content s x)"
begin

text \<open>A block that is taken and given back leaves the others as they were.\<close>

lemma alloc_release:
  assumes "live s L" and "usual sz" and "alloc sz s = ret (p, s1)"
  shows "\<exists>s2. release p s1 = ret s2 \<and> live s2 L \<and> (\<forall>b \<in> L. \<forall>x \<in> block_mem b. content s2 x = content s x)"
proof -
  obtain n where n: "live s1 (insert (p, n) L)" "(p, n) \<notin> L" "\<forall>b \<in> L. \<forall>x \<in> block_mem b. content s1 x = content s x"
    using alloc_live [OF assms(1,2)] assms(3) by auto
  obtain s2 where s2: "release p s1 = ret s2" "live s2 (insert (p, n) L - {(p, n)})"
    "\<forall>b \<in> insert (p, n) L - {(p, n)}. \<forall>x \<in> block_mem b. content s2 x = content s1 x"
    using release_live [OF n(1), of p n] by blast
  have "insert (p, n) L - {(p, n)} = L" using n(2) by auto
  then show ?thesis using s2 n(3) by auto
qed

text \<open>Any number of blocks taken one after the other lie apart from each other and from those in use.\<close>

lemma alloc_all:
  assumes "live s L" and "\<And>sz. sz \<in> set szs \<Longrightarrow> usual sz"
    and "pairwise (\<lambda>b c. block_mem b \<inter> block_mem c = {}) L"
  shows "case fold (\<lambda>sz r. bnd r (\<lambda>(bs, s). bnd (alloc sz s) (\<lambda>(p, s). ret (p # bs, s)))) szs (ret (ps, s)) of
      None \<Rightarrow> False | Some (Inl e) \<Rightarrow> e = full
    | Some (Inr (qs, s')) \<Rightarrow> length qs = length ps + length szs \<and>
        (\<exists>L'. live s' L' \<and> L \<subseteq> L' \<and> pairwise (\<lambda>b c. block_mem b \<inter> block_mem c = {}) L')"
  using assms
proof (induction szs arbitrary: s L ps)
  case Nil
  then show ?case by (auto simp: ret_def)
next
  case (Cons sz szs)
  let ?step = "\<lambda>sz r. bnd r (\<lambda>(bs, s). bnd (alloc sz s) (\<lambda>(p, s). ret (p # bs, s)))"
  have failed: "fold ?step zs (fail full) = fail full" for zs by (induction zs) simp_all
  show ?case
  proof (cases "alloc sz s = fail full")
    case True
    then have "fold ?step (sz # szs) (ret (ps, s)) = fail full" using failed by simp
    then show ?thesis by (simp add: fail_def)
  next
    case False
    then obtain p n s1 where s1: "alloc sz s = ret (p, s1)" "live s1 (insert (p, n) L)" "fresh_block L (p, n)"
      using alloc_live [OF Cons.prems(1), of sz] Cons.prems(2) by auto
    have "pairwise (\<lambda>b c. block_mem b \<inter> block_mem c = {}) (insert (p, n) L)"
      using Cons.prems(3) s1(3) by (auto simp: pairwise_insert fresh_block_def)
    from Cons.IH [OF s1(2) _ this, of "p # ps"] Cons.prems(2)
    have "case fold ?step szs (ret (p # ps, s1)) of None \<Rightarrow> False | Some (Inl e) \<Rightarrow> e = full
      | Some (Inr (qs, s')) \<Rightarrow> length qs = length (p # ps) + length szs \<and>
          (\<exists>L'. live s' L' \<and> insert (p, n) L \<subseteq> L' \<and> pairwise (\<lambda>b c. block_mem b \<inter> block_mem c = {}) L')" by simp
    then show ?thesis using s1(1) by (auto split: option.splits sum.splits prod.splits)
  qed
qed

end

definition heap_live :: "u32 \<Rightarrow> 'a heap_state_scheme \<Rightarrow> (u32 \<times> u32) set \<Rightarrow> bool" where
  "heap_live hp s L \<longleftrightarrow> (\<exists>bl. heap_inv hp s bl \<and> ready bl \<and> L = in_use bl)"

interpretation kernel_heap: heap_store "heap_live hp" mem "kern_kmalloc hp" "kern_kfree hp"
    "\<lambda>sz. 16 < unat sz \<and> unat sz \<le> 0x40000000" "Panic ''out of memory.''" for hp
proof unfold_locales
  fix s :: "'a heap_state_scheme" and L and sz :: u32
  assume live: "heap_live hp s L" and sz: "16 < unat sz \<and> unat sz \<le> 0x40000000"
  obtain bl where bl: "heap_inv hp s bl" "ready bl" "L = in_use bl" using live by (auto simp: heap_live_def)
  have p: "0 < unat sz" and q: "unat sz \<le> 0x40000000" using sz by simp_all
  from kmalloc_blocks [OF bl(1) ready_can_grow [OF bl(2)] p q] sz
  show "kern_kmalloc hp sz s = fail (Panic ''out of memory.'') \<or>
    (\<exists>p n s'. kern_kmalloc hp sz s = ret (p, s') \<and> heap_live hp s' (insert (p, n) L) \<and> (p, n) \<notin> L \<and> fresh_block L (p, n) \<and>
       unat sz \<le> unat n \<and> (\<forall>b \<in> L. \<forall>x \<in> block_mem b. mem s' x = mem s x))"
    unfolding heap_live_def bl(3) by metis
next
  fix s :: "'a heap_state_scheme" and L p n
  assume live: "heap_live hp s L" and b: "(p, n) \<in> L"
  then show "\<exists>s'. kern_kfree hp p s = ret s' \<and> heap_live hp s' (L - {(p, n)}) \<and>
      (\<forall>b \<in> L - {(p, n)}. \<forall>x \<in> block_mem b. mem s' x = mem s x)"
    using kfree_blocks [of hp s _ p n] unfolding heap_live_def by metis
qed

section \<open>The frame of a heap\<close>

text \<open>A heap that tells where it lies: it hands out aligned memory above a bound, and writes nothing outside its own cells.\<close>

locale framed_heap = heap_store +
  fixes own :: "u32 set" and base :: nat
  assumes alloc_place: "live s L \<Longrightarrow> usual sz \<Longrightarrow> alloc sz s = ret (p, s') \<Longrightarrow>
      16 dvd unat p \<and> base \<le> unat p \<and> unat p + unat sz \<le> 2 ^ 32 \<and> (\<forall>x. x \<notin> own \<longrightarrow> content s' x = content s x)"
    and release_frame: "live s L \<Longrightarrow> (p, n) \<in> L \<Longrightarrow> release p s = ret s' \<Longrightarrow> x \<notin> own \<Longrightarrow> content s' x = content s x"
begin

text \<open>What a client may use for its own data: everything outside the heap, and the blocks it holds.\<close>

definition kept :: "(u32 \<times> u32) set \<Rightarrow> u32 set" where
  "kept L = - own \<union> (\<Union>b \<in> L. block_mem b)"

lemma alloc_kept:
  assumes "live s L" and "usual sz"
  shows "alloc sz s = fail full \<or> (\<exists>p n s'. alloc sz s = ret (p, s') \<and> live s' (insert (p, n) L) \<and> (p, n) \<notin> L \<and>
    fresh_block L (p, n) \<and> unat sz \<le> unat n \<and> 16 dvd unat p \<and> base \<le> unat p \<and> unat p + unat sz \<le> 2 ^ 32 \<and>
    (\<forall>x \<in> kept L. content s' x = content s x))"
proof (cases "alloc sz s = fail full")
  case False
  then obtain p n s' where a: "alloc sz s = ret (p, s')" "live s' (insert (p, n) L)" "(p, n) \<notin> L" "fresh_block L (p, n)"
    "unat sz \<le> unat n" "\<forall>b \<in> L. \<forall>x \<in> block_mem b. content s' x = content s x"
    using alloc_live [OF assms] by blast
  with alloc_place [OF assms a(1)] show ?thesis unfolding kept_def by blast
qed blast

lemma release_kept:
  assumes "live s L" and "(p, n) \<in> L"
  shows "\<exists>s'. release p s = ret s' \<and> live s' (L - {(p, n)}) \<and> (\<forall>x \<in> kept (L - {(p, n)}). content s' x = content s x)"
proof -
  obtain s' where r: "release p s = ret s'" "live s' (L - {(p, n)})"
    "\<forall>b \<in> L - {(p, n)}. \<forall>x \<in> block_mem b. content s' x = content s x"
    using release_live [OF assms] by blast
  with release_frame [OF assms r(1)] show ?thesis unfolding kept_def by blast
qed

end

definition heap_even :: "u32 \<Rightarrow> 'a heap_state_scheme \<Rightarrow> (u32 \<times> u32) set \<Rightarrow> bool" where
  "heap_even hp s L \<longleftrightarrow> (\<exists>bl. heap_inv hp s bl \<and> ready bl \<and> regular bl \<and> L = in_use bl)"

definition even_size :: "u32 \<Rightarrow> bool" where
  "even_size sz \<longleftrightarrow> 0 < unat sz \<and> unat sz \<le> 0x40000000 \<and> unat (align_size sz) mod 32 = 16"

lemma heap_even_live: "heap_even hp s L \<Longrightarrow> heap_live hp s L"
  by (auto simp: heap_even_def heap_live_def)

interpretation even_heap: framed_heap "heap_even hp" mem "kern_kmalloc hp" "kern_kfree hp" even_size "Panic ''out of memory.''"
    "heap_own hp" "0xC0400000" for hp
proof unfold_locales
  fix s :: "'a heap_state_scheme" and L and sz :: u32
  assume live: "heap_even hp s L" and sz: "even_size sz"
  obtain bl where bl: "heap_inv hp s bl" "ready bl" "regular bl" "L = in_use bl" using live by (auto simp: heap_even_def)
  have p: "0 < unat sz" and q: "unat sz \<le> 0x40000000" and e: "unat (align_size sz) mod 32 = 16" using sz by (simp_all add: even_size_def)
  note k = kmalloc_blocks [OF bl(1) ready_can_grow [OF bl(2)] p q]
  show "kern_kmalloc hp sz s = fail (Panic ''out of memory.'') \<or>
    (\<exists>p n s'. kern_kmalloc hp sz s = ret (p, s') \<and> heap_even hp s' (insert (p, n) L) \<and> (p, n) \<notin> L \<and> fresh_block L (p, n) \<and>
       unat sz \<le> unat n \<and> (\<forall>b \<in> L. \<forall>x \<in> block_mem b. mem s' x = mem s x))"
    using k bl(3) e unfolding heap_even_def bl(4) by metis
  fix p s' assume r: "kern_kmalloc hp sz s = ret (p, s')"
  obtain bl' n where b: "heap_inv hp s' bl'" "in_use bl' = insert (p, n) (in_use bl)" "unat sz \<le> unat n" "16 dvd unat p"
    "unat p + unat n \<le> unat (k_heap_end s')" "\<forall>x. x \<notin> heap_own hp \<longrightarrow> mem s' x = mem s x"
    using k r by auto
  have lay: "layout hp (mem s') (k_heap_end s') bl'" using b(1) by (simp add: heap_inv_def)
  have "(p, n) \<in> in_use bl'" using b(2) by blast
  then obtain a where a: "p = a + 16" "(a, n, False) \<in> set bl'" by (auto simp: in_use_def used_def)
  have "0xC0400000 \<le> unat p" using layout_block(4) [OF lay a(2)] unat_payload [OF lay a(2)] a(1) by simp
  moreover have "unat p + unat sz \<le> 2 ^ 32" using b(3,5) unat_lt_32 [of "k_heap_end s'"] by simp
  ultimately show "16 dvd unat p \<and> 0xC0400000 \<le> unat p \<and> unat p + unat sz \<le> 2 ^ 32 \<and> (\<forall>x. x \<notin> heap_own hp \<longrightarrow> mem s' x = mem s x)"
    using b(4,6) by blast
next
  fix s :: "'a heap_state_scheme" and L p n
  assume live: "heap_even hp s L" and b: "(p, n) \<in> L"
  obtain bl where bl: "heap_inv hp s bl" "ready bl" "regular bl" "L = in_use bl" using live by (auto simp: heap_even_def)
  note k = kfree_blocks [OF bl(1,2) b [unfolded bl(4)]]
  show "\<exists>s'. kern_kfree hp p s = ret s' \<and> heap_even hp s' (L - {(p, n)}) \<and>
      (\<forall>b \<in> L - {(p, n)}. \<forall>x \<in> block_mem b. mem s' x = mem s x)"
    using k bl(3) unfolding heap_even_def bl(4) by metis
  fix s' x assume "kern_kfree hp p s = ret s'" "x \<notin> heap_own hp"
  then show "mem s' x = mem s x" using k by auto
qed

text \<open>A write to memory that a client may use does not disturb the heap.\<close>

lemma heap_even_write:
  assumes live: "heap_even hp s L" and same: "\<And>c. c \<notin> even_heap.kept hp L \<Longrightarrow> m c = mem s c"
  shows "heap_even hp (s\<lparr>mem := m\<rparr>) L"
proof -
  obtain bl where bl: "heap_inv hp s bl" "ready bl" "regular bl" "L = in_use bl" using live by (auto simp: heap_even_def)
  have lay: "layout hp (mem s) (k_heap_end s) bl" using bl(1) by (simp add: heap_inv_def)
  have eq: "m c = mem s c" if c: "c \<in> heap_cells hp bl" for c
  proof (rule same, rule notI)
    assume "c \<in> even_heap.kept hp L"
    moreover have "c \<in> heap_own hp" using heap_cells_own [OF lay] c by blast
    ultimately obtain p n where b: "(p, n) \<in> in_use bl" "c \<in> block_mem (p, n)" using bl(4) by (auto simp: even_heap.kept_def)
    then obtain a where a: "p = a + 16" "(a, n, False) \<in> set bl" by (auto simp: in_use_def used_def)
    have "c \<notin> heap_cells hp bl"
      using payload_not_header [OF lay a(2)] b(2) unat_payload [OF lay a(2)] a(1) by (simp add: block_mem_def)
    then show False using c by blast
  qed
  have hm: "heap_mem hp (mem s) bl" using lay by (simp add: layout_def)
  then have "dll (mem s) hp (frees bl)" by (simp add: heap_mem_def)
  moreover have "m k = mem s k" if "k \<in> set (foot hp (frees bl))" for k
    using that foot_heap_cells [of hp bl] by (intro eq) blast
  ultimately have "dll m hp (frees bl)" by (rule dll_frame)
  moreover have "m (a + 8) = mem s (a + 8) \<and> m (a + 12) = mem s (a + 12)" if "(a, n, f) \<in> set bl" for a n f
  proof -
    have "a + 8 \<in> heap_cells hp bl" "a + 12 \<in> heap_cells hp bl" using that by (force simp: heap_cells_def)+
    then show ?thesis using eq by blast
  qed
  ultimately have "heap_mem hp m bl" by (intro heap_mem_frame [OF hm, where new = "{}"]) auto
  then have "layout hp m (k_heap_end s) bl" using lay by (simp add: layout_def)
  then show ?thesis using bl pages_ok_cong [of "s\<lparr>mem := m\<rparr>" s] by (auto simp: heap_even_def heap_inv_def)
qed

end
