(* ===== verification/HeapProps.thy ===== *)
theory HeapProps
  imports HeapSpec
begin

text \<open>
  The properties of the kernel heap as its clients see it, and the one state in which \<open>_kmalloc\<close> breaks them: a
  used block at the end of the heap behind a free one. Such a state arises only from requests of at most 16 bytes,
  after which a block can end the heap with nothing left over.
\<close>

section \<open>Starting the heap\<close>

lemma kheap_init_inv:
  assumes "pages_ok s 0" and "hp_ok hp"
  shows "heap_inv hp (kheap_init hp s) []"
proof -
  have hp: "aligned hp" "hp \<noteq> 0" "unat hp + 12 \<le> 0xC0400000" using assms(2) by (simp_all add: hp_ok_def)
  have "unat (hp + 4) = unat hp + 4" "unat (hp + 8) = unat hp + 8"
    using hp(3) unat_add_small [of hp 4] unat_add_small [of hp 8] by simp_all
  then have "hp + 4 \<noteq> 0" "hp + 8 \<noteq> 0" by auto
  then have dll: "dll (new_list (mem s) hp) hp []" using hp by (intro new_list_dll) simp_all
  have "pages_ok (kheap_init hp s) 0"
    using assms(1) pages_ok_cong [of "kheap_init hp s" s] by (simp add: kheap_init_def set_mem_def)
  moreover have "k_heap_end (kheap_init hp s) = heap_va 0" by (simp add: kheap_init_def HEAP_START_def heap_va_def)
  moreover have "layout hp (mem (kheap_init hp s)) (k_heap_end (kheap_init hp s)) []"
    using dll assms(2) by (intro layoutI) (simp_all add: kheap_init_def set_mem_def HEAP_START_def)
  ultimately show ?thesis unfolding heap_inv_def by blast
qed

lemma no_tables_pages_ok:
  assumes "pg_inv s" and "\<And>i. 768 < unat i \<Longrightarrow> unat i < 1023 \<Longrightarrow> \<not> present (pde (phys s) (cr3 s) i)"
  shows "pages_ok s 0"
  using assms by (simp add: pages_ok_def tables_inj_def heap_frames_def)

section \<open>A used block at the end\<close>

lemma layout_prefix:
  assumes lay: "layout hp m e (xs @ (a, n, True) # (b, k, False) # ys)" and ys: "frees ys = []"
  shows "layout hp m b (xs @ [(a, n, True)])" and "unat b = unat a + 16 + unat n"
proof -
  note parts = layout_parts [OF lay]
  show b: "unat b = unat a + 16 + unat n" using parts(2) by (auto simp: tiles_append)
  show "layout hp m b (xs @ [(a, n, True)])"
  proof (rule layoutI [OF parts(1)])
    show "tiles 0xC0400000 (xs @ [(a, n, True)]) (unat b)" using parts(2) b by (auto simp: tiles_append)
    show "dll m hp (frees (xs @ [(a, n, True)]))" using parts(3) ys by simp
    show "chunk_size m c = j \<and> chunk_magic m c = CHUNK_MAGIC" if "(c, j, f) \<in> set (xs @ [(a, n, True)])" for c j f
      using layout_block(2,3) [OF lay, of c j f] that by auto
  qed
qed

lemma grow_heap_tail:
  assumes inv: "heap_inv hp s bl" and tail: "get_tail (mem s) hp = a" "a \<noteq> 0"
  shows "grow_heap hp s = fail (Panic ''out of memory.'') \<or>
    (\<exists>s'. grow_heap hp s = ret s' \<and> mem s' = (mem s)(a + 8 := chunk_size (mem s) a + PAGE_SIZE))"
proof -
  obtain np where np: "pages_ok s np" "k_heap_end s = heap_va np" using inv by (auto simp: heap_inv_def)
  have "pages_ok (disable s) np" using np(1) pages_ok_cong [of "disable s" s] by (simp add: disable_def)
  from extend_ok [OF this, of "PAGE_WRITE OR PAGE_USER"]
  consider "grow_heap hp s = fail (Panic ''out of memory.'')"
    | p s1 s2 where "pa_alloc (disable s) = ret (p, s1)"
      "mm_map p (k_heap_end s) (PAGE_WRITE OR PAGE_USER) s1 = ret (k_heap_end s, s2)" "mem s2 = mem (disable s)"
    using np(2) by (auto simp: grow_heap_def Let_def)
  then show ?thesis
  proof cases
    case (2 p s1 s2)
    then show ?thesis using tail by (simp add: grow_heap_def Let_def disable_def enable_def set_mem_def)
  qed simp
qed

lemma kmalloc_overlap:
  assumes inv: "heap_inv hp s (xs @ (a, n, True) # (b, k, False) # ys)" and none: "frees xs = []" "frees ys = []"
    and sz: "unat n < unat sz" "2 * unat sz \<le> unat n + 4064" and two: "2 \<le> card (free_pages s)"
  shows "\<exists>s'. kern_kmalloc hp sz s = ret (a + 16, s')"
proof -
  let ?bl = "xs @ (a, n, True) # (b, k, False) # ys"
  define z where "z = align_size sz"
  have lay: "layout hp (mem s) (k_heap_end s) ?bl" using inv by (simp add: heap_inv_def)
  note pre = layout_prefix [OF lay none(2)]
  obtain np where "pages_ok s np" "k_heap_end s = heap_va np" using inv by (auto simp: heap_inv_def)
  then have "unat (k_heap_end s) + 4096 < 2 ^ 32" using heap_va_props(1) [of np] heap_np [of s np] by simp
  then have e: "unat b + 4096 < 2 ^ 32" using layout_block(5) [OF lay, of b k False] by simp
  have sz': "0 < unat sz" "unat sz \<le> 0x40000000" using sz by simp_all
  note al = align_size_props [OF sz', folded z_def]
  have z2: "unat (z * 2) = unat z * 2" using al(3) sz' by (simp add: unat_word_ariths)
  have small: "n < z * 2" using z2 al(2) sz(1) by (simp add: word_less_nat_alt)
  have first: "first_fit z ?bl = 0"
  proof -
    have "first_fit z (us @ vs) = first_fit z vs" if "frees us = []" for us vs
      using that by (induction us rule: frees.induct) (auto split: if_splits)
    moreover have "first_fit z ys = 0" using none(2) by (induction ys rule: frees.induct) (auto split: if_splits)
    ultimately show ?thesis using none(1) small by simp
  qed
  have find: "find_chunk (mem s) z (get_head (mem s) hp) = ret 0"
    using find_chunk_layout [of hp "mem s" _ "[]" ?bl z] lay layout_head [OF lay] first by simp
  have a: "a \<noteq> 0" "chunk_size (mem s) a = n" "get_tail (mem s) hp = a"
    using layout_block(1,2) [OF lay, of a n True] chunk_not_null layout_tail [OF lay] none by auto
  obtain s1 where s1: "grow_heap hp s = ret s1" "mem s1 = (mem s)(a + 8 := n + PAGE_SIZE)"
    using grow_heap_tail [OF inv a(3,1)] grow_heap_two [OF inv two] a(2) by blast
  have run: "kern_kmalloc hp sz s = kern_kmalloc hp z s1"
    using find s1(1) by (subst kern_kmalloc.simps) (simp add: z_def)
  let ?bl1 = "xs @ [(a, n + PAGE_SIZE, True)]"
  have lay1: "layout hp (mem s1) (b + PAGE_SIZE) ?bl1" unfolding s1(2) by (rule layout_grow_last [OF pre(1) e])
  have "unat (n + PAGE_SIZE) = unat n + 4096"
    using pre(2) e unat_add_small [of n PAGE_SIZE] by (simp add: PAGE_SIZE_def)
  then have fit: "\<not> n + PAGE_SIZE < z * 2" using z2 al(3) sz(2) by (simp add: word_less_nat_alt)
  have "first_fit z ?bl1 = a"
  proof -
    have "first_fit z (us @ [(a, n + PAGE_SIZE, True)]) = a" if "frees us = []" for us
      using that fit by (induction us rule: frees.induct) (auto split: if_splits)
    then show ?thesis using none(1) by simp
  qed
  then have find1: "find_chunk (mem s1) z (get_head (mem s1) hp) = ret a"
    using find_chunk_layout [of hp "mem s1" _ "[]" ?bl1 z] lay1 layout_head [OF lay1] by simp
  have "unat z * 2 < 2 ^ 32" using al(3) sz' by simp
  from take_chunk_mem [OF lay1 al(1,5) fit this]
  obtain m where "take_chunk hp z a s1 = ret (a + 16, enable (set_mem m (disable s1)))" by blast
  then show ?thesis using run find1 a(1) al(4) by (subst (asm) kern_kmalloc.simps) simp
qed

section \<open>Example heaps\<close>

text \<open>An empty heap whose list header is at 0xC0110000, with two free pages and a page table for its addresses.\<close>

definition small_heap :: heap_state where
  "small_heap = kheap_init 0xC0110000 (paging_state.extend small_paging (heap_state.fields 0))"

text \<open>One page of heap: a free block of 16 bytes, and a used block up to the end.\<close>

definition full_page_heap :: heap_state where
  "full_page_heap = (paging_state.extend (entry_written 0xC0400000 0x7007 small_paging) (heap_state.fields 0xC0401000))
     \<lparr>mem := (\<lambda>a. 0)(0xC0110000 := 0xC0400000, 0xC0110008 := 0xC0400000, 0xC0400000 := 0xC0110004, 0xC0400004 := 0xC0110000,
       0xC0400008 := 16, 0xC040000C := 0xABADBABE, 0xC0400028 := 4048, 0xC040002C := 0xABADBABE)\<rparr>"

lemma heap_extend:
  "phys (paging_state.extend p (heap_state.fields e)) = phys p" "cr3 (paging_state.extend p (heap_state.fields e)) = cr3 p"
  "LowRamBitF (paging_state.extend p (heap_state.fields e)) = LowRamBitF p"
  "LowRamFreeCount (paging_state.extend p (heap_state.fields e)) = LowRamFreeCount p"
  "k_heap_end (paging_state.extend p (heap_state.fields e)) = e"
  by (simp_all add: paging_state.extend_def heap_state.fields_def)

lemma hp_example: "hp_ok 0xC0110000"
  by (simp add: hp_ok_def aligned_def)

lemma small_tables:
  assumes "768 < unat i" "unat i < 1023" "present (pde (phys small_paging) (cr3 small_paging) i)"
  shows "i = 769"
proof -
  have "i \<noteq> 1023" using assms(2) by auto
  then show ?thesis using assms small_paging_pde [of i] by (auto simp: present_def split: if_splits)
qed

lemma small_heap_inv: "heap_inv 0xC0110000 small_heap []" "card (free_pages small_heap) = 2"
proof -
  let ?s = "paging_state.extend small_paging (heap_state.fields 0)"
  have "i = 769" if "769 \<le> unat i" "unat i < 1023" "present (pde (phys small_paging) (cr3 small_paging) i)" for i
    using small_tables [of i] that by simp
  then have "tables_inj small_paging" unfolding tables_inj_def by metis
  then have "pages_ok small_paging 0"
    using small_paging_inv by (simp add: pages_ok_def heap_frames_def)
  then have "pages_ok ?s 0" using pages_ok_cong [of ?s small_paging] by (simp add: heap_extend)
  then show "heap_inv 0xC0110000 small_heap []" unfolding small_heap_def by (rule kheap_init_inv [OF _ hp_example])
  have "free_pages small_heap = free_pages small_paging"
    by (simp add: small_heap_def kheap_init_def set_mem_def free_pages_def page_free_def [abs_def] heap_extend)
  then show "card (free_pages small_heap) = 2" by (simp add: small_paging_simps)
qed

lemma full_page_heap_inv:
  "heap_inv 0xC0110000 full_page_heap [(0xC0400000, 16, True), (0xC0400020, 4048, False)]" "card (free_pages full_page_heap) = 2"
proof -
  let ?p = "entry_written 0xC0400000 0x7007 small_paging"
  have p: "pdindex 0xC0400000 = 769" "ptindex 0xC0400000 = 0" by (simp_all add: pdindex_def ptindex_def drop_bit_eq_div)
  have pr: "present (pde (phys small_paging) (cr3 small_paging) (pdindex 0xC0400000))" "pdindex 0xC0400000 \<noteq> 1023"
    using small_paging_pde [of 769] by (simp_all add: p present_def)
  have f: "frame 0x7007 = 0x7000" "present 0x7007" by (simp_all add: frame_def present_def)
  note wr = entry_written_props [OF small_paging_inv pr(2,1), where v = "0x7007"]
  have cr3: "cr3 ?p = cr3 small_paging" "LowRamBitF ?p = LowRamBitF small_paging" "free_pages ?p = {3, 5}"
    using small_paging_simps(4) by (simp_all add: entry_written_def free_pages_def page_free_def [abs_def])
  have pdes: "pde (phys ?p) (cr3 ?p) i = pde (phys small_paging) (cr3 small_paging) i" if "unat i < 1024" for i
    using wr(2) [OF that] cr3(1) by simp
  have tab: "t \<in> {0x100000, 0x101000}" if t: "t \<in> tables (phys ?p) (cr3 ?p)" for t
  proof -
    obtain i where "unat i < 1024" "present (pde (phys ?p) (cr3 ?p) i)" "t = frame (pde (phys ?p) (cr3 ?p) i)"
      using t unfolding tables_def by blast
    then show ?thesis using small_paging_pde [of i] pdes [of i] by (auto simp: present_def frame_def split: if_splits)
  qed
  have seven: "page_addr 7 = 0x7000" "heap_va 0 = 0xC0400000" by (simp_all add: page_addr_def heap_va_def)
  have "aliases (phys small_paging) (cr3 small_paging) 0xC0400000 0xC0400000" by (simp add: aliases_def)
  then have "translate (phys ?p) (cr3 ?p) (heap_va 0) = Some (page_addr 7)"
    using wr(3) [of "0xC0400000"] pr(1) by (simp add: cr3 seven f)
  moreover have "page_addr 7 \<notin> tables (phys ?p) (cr3 ?p)" using tab [of "page_addr 7"] by (auto simp: seven)
  ultimately have "heap_frames ?p (\<lambda>k. 7) 1"
    unfolding heap_frames_def by (auto simp: cr3 small_paging_simps(4) inj_on_def)
  moreover have "tables_inj ?p"
  proof -
    have "i = 769" if "769 \<le> unat i" "unat i < 1023" "present (pde (phys ?p) (cr3 ?p) i)" for i
      using small_tables [of i] pdes [of i] that by simp
    then show ?thesis unfolding tables_inj_def by metis
  qed
  ultimately have "pages_ok ?p 1" using wr(1) by (auto simp: pages_ok_def)
  then have "pages_ok full_page_heap 1"
    using pages_ok_cong [of full_page_heap ?p] by (simp add: full_page_heap_def heap_extend)
  moreover have "k_heap_end full_page_heap = heap_va 1"
    by (simp add: full_page_heap_def heap_extend heap_va_def)
  moreover have "layout 0xC0110000 (mem full_page_heap) (k_heap_end full_page_heap) [(0xC0400000, 16, True), (0xC0400020, 4048, False)]"
    by (intro layoutI hp_example) (auto simp: full_page_heap_def heap_extend dll_def foot_def aligned_def chunk_size_def
      chunk_magic_def CHUNK_MAGIC_def)
  ultimately show "heap_inv 0xC0110000 full_page_heap [(0xC0400000, 16, True), (0xC0400020, 4048, False)]"
    unfolding heap_inv_def by blast
  have "free_pages full_page_heap = free_pages ?p"
    by (simp add: full_page_heap_def free_pages_def page_free_def [abs_def] heap_extend)
  then show "card (free_pages full_page_heap) = 2" by (simp add: cr3 small_paging_simps(4))
qed

lemma small_heap_request: "\<exists>p s'. kern_kmalloc 0xC0110000 100 small_heap = ret (p, s')"
  using kmalloc_small [OF small_heap_inv(1), of 100] small_heap_inv(2) by (auto simp: can_grow_def)

section \<open>Properties\<close>

text \<open>C3. \<open>_kmalloc\<close> on a well-formed heap whose last block is free, or without free blocks: it panics for want of
  pages, or returns 16-byte aligned memory of at least the size asked for, which overlaps no block in use, lies
  below the heap's end, and leaves the content of every block in use as it was. The heap stays well formed, and
  for requests above 16 bytes it stays ready for the next request.\<close>

theorem kmalloc_fresh_block:
  assumes "heap_inv hp s bl" and "can_grow bl" and "0 < unat sz" and "unat sz \<le> 0x40000000"
  shows "kern_kmalloc hp sz s = fail (Panic ''out of memory.'') \<or>
    (\<exists>s' bl' p n. kern_kmalloc hp sz s = ret (p, s') \<and> heap_inv hp s' bl' \<and> in_use bl' = insert (p, n) (in_use bl) \<and>
      (p, n) \<notin> in_use bl \<and> fresh_block (in_use bl) (p, n) \<and> unat sz \<le> unat n \<and> 16 dvd unat p \<and>
      unat p + unat n \<le> unat (k_heap_end s') \<and> (\<forall>b \<in> in_use bl. \<forall>x \<in> block_mem b. mem s' x = mem s x) \<and>
      (16 < unat sz \<longrightarrow> ready bl'))"
  using kmalloc_blocks [OF assms] by blast

theorem kmalloc_fresh_block_witness:
  "kern_kmalloc 0xC0110000 100 small_heap = fail (Panic ''out of memory.'') \<or>
    (\<exists>s' p (n :: u32). kern_kmalloc 0xC0110000 100 small_heap = ret (p, s') \<and> 100 \<le> unat n \<and> 16 dvd unat p)"
proof -
  have c: "can_grow []" "0 < unat (100 :: u32)" "unat (100 :: u32) \<le> 0x40000000" by (simp_all add: can_grow_def)
  have u: "unat (100 :: u32) = 100" by simp
  show ?thesis using kmalloc_fresh_block [OF small_heap_inv(1) c] unfolding u by blast
qed

text \<open>C17. A request of at most 2032 bytes succeeds while two pages are free, and takes at most two of them: one for memory, one
  for a page table.\<close>

theorem kmalloc_succeeds:
  assumes "heap_inv hp s bl" and "can_grow bl" and "0 < unat sz" and "unat sz \<le> 2032" and "2 \<le> card (free_pages s)"
  shows "\<exists>p s'. kern_kmalloc hp sz s = ret (p, s') \<and> card (free_pages s) \<le> card (free_pages s') + 2"
  by (rule kmalloc_small [OF assms])

theorem kmalloc_succeeds_witness:
  "\<exists>p s'. kern_kmalloc 0xC0110000 100 small_heap = ret (p, s')"
  using kmalloc_succeeds [OF small_heap_inv(1), of 100] small_heap_inv(2) by (auto simp: can_grow_def)

text \<open>C16. \<open>_kfree\<close> of a block in use returns, takes exactly that block out of use, keeps the heap well formed and
  ready, and leaves the content of the other blocks as it was, also when it merges blocks and gives pages back.\<close>

theorem kfree_releases_block:
  assumes "heap_inv hp s bl" and "ready bl" and "(p, n) \<in> in_use bl"
  shows "\<exists>s' bl'. kern_kfree hp p s = ret s' \<and> heap_inv hp s' bl' \<and> ready bl' \<and> in_use bl' = in_use bl - {(p, n)} \<and>
    (\<forall>b \<in> in_use bl - {(p, n)}. \<forall>x \<in> block_mem b. mem s' x = mem s x)"
  using kfree_blocks [OF assms] by blast

theorem kfree_releases_block_witness:
  "\<exists>s p n bl s' bl'. kern_kmalloc 0xC0110000 100 small_heap = ret (p, s) \<and> in_use bl = {(p, n)} \<and>
    kern_kfree 0xC0110000 p s = ret s' \<and> heap_inv 0xC0110000 s' bl' \<and> in_use bl' = {}"
proof -
  have "kern_kmalloc 0xC0110000 100 small_heap \<noteq> fail (Panic ''out of memory.'')"
    using small_heap_request by auto
  then obtain s p n bl where s: "kern_kmalloc 0xC0110000 100 small_heap = ret (p, s)" "heap_inv 0xC0110000 s bl" "ready bl"
    "in_use bl = insert (p, n) (in_use [])"
    using kmalloc_blocks [OF small_heap_inv(1), of 100] by (auto simp: can_grow_def)
  have "in_use [] = {}" by (simp add: in_use_def)
  then show ?thesis using kfree_releases_block [OF s(2,3), of p n] s(1,4) by auto
qed

text \<open>Requests made one after the other, each above 16 bytes: the run panics for want of pages, or returns one
  address for each, and the blocks lie apart from each other and from every block in use before.\<close>

lemma kmalloc_all_apart:
  assumes "heap_inv hp s bl" and "ready bl" and "\<forall>sz \<in> set szs. 16 < unat sz \<and> unat sz \<le> 0x40000000"
  shows "case fold (\<lambda>sz r. bnd r (\<lambda>(bs, s). bnd (kern_kmalloc hp sz s) (\<lambda>(p, s). ret (p # bs, s)))) szs (ret ([], s)) of
      None \<Rightarrow> False | Some (Inl e) \<Rightarrow> e = Panic ''out of memory.''
    | Some (Inr (qs, s')) \<Rightarrow> length qs = length szs \<and>
        (\<exists>L. heap_live hp s' L \<and> in_use bl \<subseteq> L \<and> pairwise (\<lambda>b c. block_mem b \<inter> block_mem c = {}) L)"
proof -
  have "heap_live hp s (in_use bl)" using assms(1,2) by (auto simp: heap_live_def)
  moreover have "pairwise (\<lambda>b c. block_mem b \<inter> block_mem c = {}) (in_use bl)"
    using in_use_apart [of hp "mem s" "k_heap_end s" bl] assms(1) by (auto simp: pairwise_def heap_inv_def)
  ultimately show ?thesis
    using kernel_heap.alloc_all [of hp s "in_use bl" szs "[]"] assms(3) unfolding list.size(3) add_0 by blast
qed

text \<open>Taking a block and giving it back leaves the set of blocks in use, and their content, as they were.\<close>

lemma kmalloc_kfree_roundtrip:
  assumes "heap_live hp s L" and "16 < unat sz" and "unat sz \<le> 0x40000000" and "kern_kmalloc hp sz s = ret (p, s1)"
  shows "\<exists>s2. kern_kfree hp p s1 = ret s2 \<and> heap_live hp s2 L \<and> (\<forall>b \<in> L. \<forall>x \<in> block_mem b. mem s2 x = mem s x)"
  using kernel_heap.alloc_release [OF assms(1) _ assms(4)] assms(2,3) by simp

text \<open>Booting: after \<open>mm_init\<close>, \<open>kheap_init\<close> makes a well-formed empty heap.\<close>

lemma boot_heap:
  assumes "boot_ok sy mboot_ptr (mem s) es" and "hp_ok hp"
  shows "\<exists>s'. mm_init sy mboot_ptr s = ret s' \<and> heap_live hp (kheap_init hp s') {} \<and>
    free_pages (kheap_init hp s') = usable_pages es - insert 0 (region_pages 0x100000 (kernel_end_of sy))"
proof -
  obtain s' where s': "mm_init sy mboot_ptr s = ret s'" "pg_inv s'"
    "free_pages s' = usable_pages es - insert 0 (region_pages 0x100000 (kernel_end_of sy))"
    "\<forall>i. 768 < unat i \<longrightarrow> unat i < 1023 \<longrightarrow> \<not> present (pde (phys s') (cr3 s') i)"
    using mm_init_boot [OF assms(1)] by blast
  have "heap_inv hp (kheap_init hp s') []"
    using kheap_init_inv [OF no_tables_pages_ok [OF s'(2)] assms(2)] s'(4) by blast
  then have "heap_live hp (kheap_init hp s') {}"
    by (auto simp: heap_live_def ready_def in_use_def intro!: exI [of _ "[]"])
  moreover have "free_pages (kheap_init hp s') = free_pages s'"
    by (simp add: kheap_init_def set_mem_def free_pages_def page_free_def [abs_def])
  ultimately show ?thesis using s'(1,3) by auto
qed

text \<open>C25. When the last free block is followed by a used block, growing the heap adds the new page to the free block
  although the page lies behind the used one: \<open>_kmalloc\<close> then returns memory that overlaps a block in use.\<close>

theorem kmalloc_overlaps_used_block:
  assumes "heap_inv hp s (xs @ (a, n, True) # (b, k, False) # ys)" and "frees xs = []" and "frees ys = []"
    and "unat n + 16 < unat sz" and "2 * unat sz \<le> unat n + 4064" and "2 \<le> card (free_pages s)" and "0 < unat k"
  shows "\<exists>s'. kern_kmalloc hp sz s = ret (a + 16, s') \<and>
    (b + 16, k) \<in> in_use (xs @ (a, n, True) # (b, k, False) # ys) \<and> block_mem (a + 16, sz) \<inter> block_mem (b + 16, k) \<noteq> {}"
proof -
  let ?bl = "xs @ (a, n, True) # (b, k, False) # ys"
  have lay: "layout hp (mem s) (k_heap_end s) ?bl" using assms(1) by (simp add: heap_inv_def)
  have "unat (a + 16) = unat a + 16" "unat (b + 16) = unat b + 16"
    using unat_payload [OF lay, of a n True] unat_payload [OF lay, of b k False] by simp_all
  then have "b + 16 \<in> block_mem (a + 16, sz) \<inter> block_mem (b + 16, k)"
    using layout_prefix(2) [OF lay assms(3)] assms(4,7) by (simp add: block_mem_def)
  moreover have "(b + 16, k) \<in> in_use ?bl" by (simp add: in_use_def)
  moreover have "unat n < unat sz" using assms(4) by simp
  note kmalloc_overlap [OF assms(1-3) this assms(5,6)]
  ultimately show ?thesis by blast
qed

theorem kmalloc_overlaps_used_block_witness:
  "\<exists>s'. kern_kmalloc 0xC0110000 1000 full_page_heap = ret (0xC0400010, s') \<and>
    block_mem (0xC0400010, 1000) \<inter> block_mem (0xC0400030, 4048) \<noteq> {}"
  using kmalloc_overlaps_used_block [of "0xC0110000" full_page_heap "[]" "0xC0400000" 16 "0xC0400020" 4048 "[]" 1000]
    full_page_heap_inv by auto

end
