(* ===== verification/Digits.thy ===== *)
theory Digits
  imports Prelude
begin

text \<open>
  Numbers as text, the reference for the printing loops of monitor.c and vsprintf.c: \<open>numeral_text small b n\<close> is
  the usual notation of \<open>n\<close> in base \<open>b\<close> up to 36, with small or capital letters, and \<open>text_value\<close> reads it back.
\<close>

definition digit_chr :: "bool \<Rightarrow> nat \<Rightarrow> u8" where
  "digit_chr small d = (if d < 10 then 0x30 + of_nat d else (if small then 0x57 else 0x37) + of_nat d)"

fun digits_rev :: "bool \<Rightarrow> nat \<Rightarrow> nat \<Rightarrow> u8 list" where
  "digits_rev small b n = (if b < 2 \<or> n = 0 then [] else digit_chr small (n mod b) # digits_rev small b (n div b))"

declare digits_rev.simps [simp del]

lemma ucast_of_unat: "ucast w = of_nat (unat w)"
  by transfer simp

lemma unat_bound: "unat w < 2 ^ LENGTH('a)" for w :: "'a::len word"
  by (rule unsigned_less)

lemma unat_ucast_mod: "unat (ucast w :: 'b::len word) = unat w mod 2 ^ LENGTH('b)"
  by (simp only: ucast_of_unat unat_of_nat)

definition numeral_text :: "bool \<Rightarrow> nat \<Rightarrow> nat \<Rightarrow> u8 list" where
  "numeral_text small b n = (if n = 0 then [0x30] else rev (digits_rev small b n))"

definition chr_digit :: "u8 \<Rightarrow> nat" where
  "chr_digit c = (if c < 0x3A then unat c - 48 else if c < 0x5B then unat c - 55 else unat c - 87)"

definition text_value :: "nat \<Rightarrow> u8 list \<Rightarrow> nat" where
  "text_value b cs = foldl (\<lambda>v c. b * v + chr_digit c) 0 cs"

lemma digits_rev_0 [simp]: "digits_rev small b 0 = []"
  by (simp add: digits_rev.simps)

lemma digits_rev_step: "2 \<le> b \<Longrightarrow> 0 < n \<Longrightarrow> digits_rev small b n = digit_chr small (n mod b) # digits_rev small b (n div b)"
  by (simp add: digits_rev.simps)

lemma unat_digit_chr: "d < 36 \<Longrightarrow> unat (digit_chr small d) = (if d < 10 then 48 + d else if small then 87 + d else 55 + d)"
  by (simp add: digit_chr_def unat_word_ariths unat_of_nat)

lemma digit_chr_inverse: "d < 36 \<Longrightarrow> chr_digit (digit_chr small d) = d"
  by (simp add: chr_digit_def word_less_nat_alt unat_digit_chr)

lemma digit_chr_nonzero: "d < 36 \<Longrightarrow> digit_chr small d \<noteq> 0"
  using unat_digit_chr [of d small] by (auto split: if_splits)

lemma text_value_digits:
  assumes "2 \<le> b" "b \<le> 36"
  shows "text_value b (rev (digits_rev small b n)) = n"
  using assms
proof (induction small b n rule: digits_rev.induct)
  case (1 small b n)
  show ?case
  proof (cases "n = 0")
    case False
    have "n mod b < 36" using 1(2,3) mod_less_divisor [of b n] by linarith
    moreover have "text_value b (rev (digits_rev small b (n div b))) = n div b" using 1 False by simp
    ultimately show ?thesis
      using 1(2) False by (simp add: digits_rev_step text_value_def digit_chr_inverse)
  qed (simp add: text_value_def)
qed

lemma text_value_numeral: "2 \<le> b \<Longrightarrow> b \<le> 36 \<Longrightarrow> text_value b (numeral_text small b n) = n"
  by (simp add: numeral_text_def text_value_digits) (simp add: text_value_def chr_digit_def)

lemma length_digits_rev: "2 \<le> b \<Longrightarrow> n < b ^ k \<Longrightarrow> length (digits_rev small b n) \<le> k"
proof (induction k arbitrary: n)
  case (Suc k)
  show ?case
  proof (cases "n = 0")
    case False
    have "n div b < b ^ k" using Suc.prems by (simp add: less_mult_imp_div_less mult.commute)
    then show ?thesis using Suc False by (simp add: digits_rev_step)
  qed simp
qed simp

lemma digits_rev_exact:
  assumes "2 \<le> b"
  shows "b ^ k \<le> n \<Longrightarrow> n < b ^ Suc k \<Longrightarrow> digits_rev small b n = map (\<lambda>i. digit_chr small (n div b ^ i mod b)) [0..<Suc k]"
proof (induction k arbitrary: n)
  case 0
  then show ?case using assms by (simp add: digits_rev_step)
next
  case (Suc k)
  have n: "0 < n" "b ^ k \<le> n div b" "n div b < b ^ Suc k"
    using Suc.prems assms by (auto simp: less_mult_imp_div_less mult.commute less_eq_div_iff_mult_less_eq intro: gr0I)
  have "digits_rev small b n = digit_chr small (n mod b) # map (\<lambda>i. digit_chr small (n div b div b ^ i mod b)) [0..<Suc k]"
    using digits_rev_step [OF assms n(1)] Suc.IH [OF n(2,3)] by simp
  also have "\<dots> = map (\<lambda>i. digit_chr small (n div b ^ i mod b)) (0 # map Suc [0..<Suc k])"
    by (simp add: div_mult2_eq [symmetric] mult.commute del: upt_Suc)
  finally show ?case by (simp only: upt_conv_Cons [of 0 "Suc (Suc k)"] map_Suc_upt zero_less_Suc)
qed

text \<open>No notation begins with a needless zero.\<close>

lemma numeral_text_first: "2 \<le> b \<Longrightarrow> b \<le> 36 \<Longrightarrow> 0 < n \<Longrightarrow> hd (numeral_text small b n) \<noteq> 0x30"
proof -
  assume b: "2 \<le> b" "b \<le> 36" and n: "0 < n"
  have "last (digits_rev small b n) \<noteq> 0x30"
    using n
  proof (induction n rule: less_induct)
    case (less n)
    have m: "n mod b < 36" using b mod_less_divisor [of b n] by linarith
    show ?case
    proof (cases "n div b = 0")
      case True
      then have "n < b" using b(1) by (simp add: div_eq_0_iff)
      then have "unat (digit_chr small (n mod b)) \<noteq> 48" using less.prems m by (simp add: unat_digit_chr)
      then show ?thesis using b(1) less.prems True by (auto simp: digits_rev_step)
    next
      case False
      moreover have "n div b < n" using b(1) less.prems by simp
      moreover have "digits_rev small b (n div b) \<noteq> []" using False b(1) by (simp add: digits_rev_step)
      ultimately show ?thesis using less b(1) by (simp add: digits_rev_step)
    qed
  qed
  then show ?thesis using n b by (simp add: numeral_text_def hd_rev)
qed

end
