(* ===== verification/Monitor.thy ===== *)
theory Monitor
  imports Kmalloc Digits
begin

text \<open>
  monitor.c: the text console. The 80 by 25 cells of 16 bits at \<open>video_memory\<close> are the device's memory, the
  function \<open>video\<close> of the state; the hardware cursor is set through the ports 0x3D4 and 0x3D5. A character is a
  signed byte, as the compiler of the kernel has it: bytes from 0x80 are negative and not printed.

  The abstract terminal is a list of 25 lines and a cursor; \<open>term_put\<close> says what each character does to it, and
  \<open>monitor_put\<close> refines it. Text goes to the first 24 lines only, which scroll; line 24 is left to
  \<open>monitor_writexy\<close>.
\<close>

section \<open>State\<close>

record monitor_state = heap_state +
  video :: "u32 \<Rightarrow> u16"
  cursor_x :: u32
  cursor_y :: u32

section \<open>The operations\<close>

definition update_cursor :: "u32 \<Rightarrow> u32 \<Rightarrow> 'a machine_scheme \<Rightarrow> 'a machine_scheme" where
  "update_cursor row col s =
    (let position = ucast (row * 80 + col) :: u16;
         s = outb 0x3D4 0x0F s;
         s = outb 0x3D5 (ucast (position AND 0xFF)) s;
         s = outb 0x3D4 0x0E s
     in outb 0x3D5 (ucast (drop_bit 8 position AND 0xFF)) s)"

definition attribute_of :: "u8 \<Rightarrow> u8 \<Rightarrow> u16" where
  "attribute_of backColour foreColour = push_bit 8 (ucast (push_bit 4 backColour OR (foreColour AND 0x0F)))"

definition scroll :: "'a monitor_state_scheme \<Rightarrow> 'a monitor_state_scheme" where
  "scroll s =
    (let blank = 0x20 OR attribute_of 0 15;
         s = (if cursor_y s \<ge> 24
              then (let v = fold (\<lambda>i v. v(of_nat i := v (of_nat (80 + i)))) [0..<80 * 23] (video s);
                        v = fold (\<lambda>i v. v(of_nat i := blank)) [80 * 23..<80 * 24] v
                    in s\<lparr>video := v, cursor_y := 23\<rparr>)
              else s)
     in update_cursor (cursor_y s) (cursor_x s) s)"

partial_function (option) monitor_writexy :: "u32 \<Rightarrow> u32 \<Rightarrow> u32 \<Rightarrow> u8 \<Rightarrow> u8 \<Rightarrow> 'a monitor_state_scheme \<Rightarrow> 'a monitor_state_scheme option" where
  "monitor_writexy x y txt backColour foreColour s =
    (let c = load8 (mem s) txt
     in if c \<noteq> 0
        then monitor_writexy (x + 1) y (txt + 1) backColour foreColour
               (s\<lparr>video := (video s)(x + 80 * y := scast c OR attribute_of backColour foreColour)\<rparr>)
        else Some s)"

text \<open>The characters of \<open>monitor_put\<close>: backspace, tab, carriage return, newline, and those from the blank on.\<close>

definition put_char :: "u8 \<Rightarrow> 'a monitor_state_scheme \<Rightarrow> 'a monitor_state_scheme" where
  "put_char c s =
    (let attribute = attribute_of 0 7
     in if c = 0x08
        then (let s = (if cursor_x s \<noteq> 0 then s\<lparr>cursor_x := cursor_x s - 1\<rparr>
                       else if cursor_y s \<noteq> 0 then s\<lparr>cursor_x := 79, cursor_y := cursor_y s - 1\<rparr>
                       else s)
              in s\<lparr>video := (video s)(cursor_x s + 80 * cursor_y s := 0x20 OR attribute)\<rparr>)
        else if c = 0x09 then s\<lparr>cursor_x := (cursor_x s + 8) AND NOT 7\<rparr>
        else if c = 0x0D then s\<lparr>cursor_x := 0\<rparr>
        else if c = 0x0A then s\<lparr>cursor_x := 0, cursor_y := cursor_y s + 1\<rparr>
        else if 32 \<le> sint c
        then s\<lparr>video := (video s)(cursor_x s + 80 * cursor_y s := scast c OR attribute), cursor_x := cursor_x s + 1\<rparr>
        else s)"

definition monitor_put :: "u8 \<Rightarrow> 'a monitor_state_scheme \<Rightarrow> 'a monitor_state_scheme" where
  "monitor_put c s =
    (let s = put_char c s;
         s = (if cursor_x s \<ge> 80 then s\<lparr>cursor_x := 0, cursor_y := cursor_y s + 1\<rparr> else s);
         s = scroll s
     in update_cursor (cursor_y s) (cursor_x s) s)"

definition monitor_clear :: "'a monitor_state_scheme \<Rightarrow> 'a monitor_state_scheme" where
  "monitor_clear s =
    (let s = s\<lparr>video := fold (\<lambda>i v. v(of_nat i := 0)) [0..<80 * 25] (video s), cursor_x := 0, cursor_y := 0\<rparr>
     in update_cursor (cursor_y s) (cursor_x s) s)"

definition monitor_init :: "u8 env \<Rightarrow> 'a monitor_state_scheme \<Rightarrow> 'a monitor_state_scheme" where
  "monitor_init env s =
    (let s = outb 0x3D4 0x0F s;
         (r, s) = inb env 0x3D5 s;
         position = (ucast r AND 0xFF :: u16);
         position = push_bit 8 position;
         s = outb 0x3D4 0x0E s;
         (r, s) = inb env 0x3D5 s;
         position = position OR (ucast r AND 0xFF)
     in scroll (s\<lparr>cursor_y := ucast (position div 80) + 1, cursor_x := 0\<rparr>))"

partial_function (option) monitor_write :: "u32 \<Rightarrow> 'a monitor_state_scheme \<Rightarrow> 'a monitor_state_scheme option" where
  "monitor_write c s = (if load8 (mem s) c \<noteq> 0 then monitor_write (c + 1) (monitor_put (load8 (mem s) c) s) else Some s)"

text \<open>The loop of \<open>monitor_write_hex\<close> over the shift counts 28, 24, ..., 0.\<close>

primrec hex_loop :: "u32 \<Rightarrow> bool \<Rightarrow> nat list \<Rightarrow> 'a monitor_state_scheme \<Rightarrow> 'a monitor_state_scheme" where
  "hex_loop n noZeroes [] s = s"
| "hex_loop n noZeroes (i # is) s =
    (let tmp = drop_bit i n AND 0xF
     in if tmp = 0 \<and> noZeroes then hex_loop n noZeroes is s
        else hex_loop n False is
               (monitor_put (if tmp \<ge> 0xA then ucast tmp - 0xA + 0x61 else ucast tmp + 0x30) s))"

definition monitor_write_hex :: "u32 \<Rightarrow> 'a monitor_state_scheme \<Rightarrow> 'a monitor_state_scheme" where
  "monitor_write_hex n s = hex_loop n True [28, 24, 20, 16, 12, 8, 4, 0] (fold monitor_put [0x30, 0x78] s)"

text \<open>The array \<open>c\<close> of \<open>monitor_write_dec\<close>: the digits, the lowest first. The array \<open>c2\<close> has them in reverse.\<close>

function dec_digits :: "u32 \<Rightarrow> u8 list" where
  "dec_digits acc = (if acc > 0 then (0x30 + ucast (acc mod 10)) # dec_digits (acc div 10) else [])"
  by pat_completeness auto
termination
  by (relation "measure unat") (auto simp: word_less_nat_alt unat_div)

declare dec_digits.simps [simp del]

definition monitor_write_dec :: "u32 \<Rightarrow> 'a monitor_state_scheme \<Rightarrow> 'a monitor_state_scheme" where
  "monitor_write_dec n s = (if n = 0 then monitor_put 0x30 s else fold monitor_put (rev (dec_digits n)) s)"

section \<open>Copying lines\<close>

lemma of_nat_u32_less: "n < 2 ^ 32 \<Longrightarrow> unat (of_nat n :: u32) = n"
  by (simp add: unat_of_nat)

lemma of_nat_eq_iff_unat: "n < 2 ^ 32 \<Longrightarrow> (j = of_nat n) = (unat j = n)" for j :: u32
  by (auto simp: word_unat_eq_iff unat_of_nat)

lemma fold_fill:
  fixes v :: "u32 \<Rightarrow> 'b"
  assumes "n < 2 ^ 32"
  shows "fold (\<lambda>i v. v(of_nat i := b)) [a..<n] v j = (if a \<le> unat j \<and> unat j < n then b else v j)"
  using assms
proof (induction n)
  case (Suc n)
  then have "(j = of_nat n) = (unat j = n)" by (simp add: of_nat_eq_iff_unat)
  then show ?case using Suc by (auto simp: less_Suc_eq)
qed simp

lemma fold_shift:
  fixes v :: "u32 \<Rightarrow> 'b"
  assumes "n \<le> 1840"
  shows "fold (\<lambda>i v. v(of_nat i := v (of_nat (80 + i)))) [0..<n] v j = (if unat j < n then v (j + 80) else v j)"
  using assms
proof (induction n arbitrary: j)
  case (Suc n)
  have n: "n < 2 ^ 32" "80 + n < 2 ^ 32" using Suc.prems by simp_all
  have j: "(j = of_nat n) = (unat j = n)" using n by (simp add: of_nat_eq_iff_unat)
  have "unat (of_nat (80 + n) :: u32) = 80 + n" using n(2) by (rule of_nat_u32_less)
  moreover have "j + 80 = of_nat (80 + n)" if "j = of_nat n" using that by (simp add: add.commute)
  ultimately show ?case using Suc j by (auto simp: less_Suc_eq add.commute)
qed simp

definition blank_cell :: u16 where
  "blank_cell = 0x0F20"

lemma scroll_eq:
  "scroll s = (let s' = (if cursor_y s \<ge> 24
      then s\<lparr>video := \<lambda>j. if unat j < 1840 then video s (j + 80) else if unat j < 1920 then blank_cell else video s j,
             cursor_y := 23\<rparr>
      else s) in update_cursor (cursor_y s') (cursor_x s') s')"
proof -
  have b: "0x20 OR attribute_of 0 15 = blank_cell" by (simp add: attribute_of_def blank_cell_def)
  define m :: nat where "m = 80 * 23"
  define n :: nat where "n = 80 * 24"
  have mn: "m \<le> 1840" "n < 2 ^ 32" by (simp_all add: m_def n_def)
  have eq: "fold (\<lambda>i v. v(of_nat i := blank_cell)) [m..<n] (fold (\<lambda>i v. v(of_nat i := v (of_nat (80 + i)))) [0..<m] (video s)) =
      (\<lambda>j. if unat j < 1840 then video s (j + 80) else if unat j < 1920 then blank_cell else video s j)"
    by (rule ext) (simp only: fold_fill [OF mn(2)] fold_shift [OF mn(1)], auto simp: m_def n_def)
  show ?thesis unfolding scroll_def b Let_def m_def [symmetric] n_def [symmetric] eq by simp
qed

section \<open>The terminal\<close>

text \<open>Lines 0 to 23 scroll; a cursor in range stays in range.\<close>

type_synonym lines = "u16 list list"

definition screen :: "'a monitor_state_scheme \<Rightarrow> lines" where
  "screen s = map (\<lambda>r. map (\<lambda>c. video s (of_nat (80 * r + c))) [0..<80]) [0..<25]"

definition cursor_ok :: "'a monitor_state_scheme \<Rightarrow> bool" where
  "cursor_ok s \<longleftrightarrow> cursor_x s < 80 \<and> cursor_y s < 24"

definition set_cell :: "nat \<Rightarrow> nat \<Rightarrow> u16 \<Rightarrow> lines \<Rightarrow> lines" where
  "set_cell y x v L = L[y := (L ! y)[x := v]]"

definition scroll_up :: "lines \<Rightarrow> lines" where
  "scroll_up L = take 23 (tl L) @ [replicate 80 blank_cell, L ! 24]"

text \<open>After each character: a full line wraps, and a cursor below line 23 scrolls the text.\<close>

definition settle :: "lines \<times> nat \<times> nat \<Rightarrow> lines \<times> nat \<times> nat" where
  "settle t = (case t of (L, x, y) \<Rightarrow>
     (let (x, y) = (if x = 80 then (0, y + 1) else (x, y))
      in if y = 24 then (scroll_up L, x, 23) else (L, x, y)))"

definition term_char :: "u8 \<Rightarrow> lines \<times> nat \<times> nat \<Rightarrow> lines \<times> nat \<times> nat" where
  "term_char c t = (case t of (L, x, y) \<Rightarrow>
     if c = 0x08 then
       (let (x, y) = (if x > 0 then (x - 1, y) else if y > 0 then (79, y - 1) else (0, 0))
        in (set_cell y x 0x0720 L, x, y))
     else if c = 0x09 then (L, 8 * (x div 8) + 8, y)
     else if c = 0x0D then (L, 0, y)
     else if c = 0x0A then (L, 0, y + 1)
     else if 32 \<le> sint c then (set_cell y x (0x0700 OR ucast c) L, x + 1, y)
     else (L, x, y))"

definition term_put :: "u8 \<Rightarrow> lines \<times> nat \<times> nat \<Rightarrow> lines \<times> nat \<times> nat" where
  "term_put c t = settle (term_char c t)"

definition term_of :: "'a monitor_state_scheme \<Rightarrow> lines \<times> nat \<times> nat" where
  "term_of s = (screen s, unat (cursor_x s), unat (cursor_y s))"

lemma length_screen [simp]: "length (screen s) = 25"
  by (simp add: screen_def)

lemma nth_screen: "r < 25 \<Longrightarrow> c < 80 \<Longrightarrow> screen s ! r ! c = video s (of_nat (80 * r + c))"
  by (simp add: screen_def)

lemma screen_eqI:
  assumes "length L = 25" and "\<And>r. r < 25 \<Longrightarrow> length (L ! r) = 80"
    and "\<And>r c. r < 25 \<Longrightarrow> c < 80 \<Longrightarrow> video s (of_nat (80 * r + c)) = L ! r ! c"
  shows "screen s = L"
proof (rule nth_equalityI)
  fix r assume "r < length (screen s)"
  then have r: "r < 25" by simp
  then show "screen s ! r = L ! r"
    using assms(2,3) [OF r] by (intro nth_equalityI) (simp_all add: screen_def)
qed (simp add: assms(1))

lemma screen_set:
  assumes "x < 80" "y < 25"
  shows "screen (s\<lparr>video := (video s)(of_nat (80 * y + x) := v)\<rparr>) = set_cell y x v (screen s)"
proof (rule screen_eqI)
  fix r c :: nat assume rc: "r < 25" "c < 80"
  define j k :: u32 where "j = of_nat (80 * r + c)" and "k = of_nat (80 * y + x)"
  have "80 * r + c < 2 ^ 32" "80 * y + x < 2 ^ 32" using rc assms by simp_all
  then have "unat j = 80 * r + c" "j = k \<longleftrightarrow> unat j = 80 * y + x"
    unfolding j_def k_def by (simp_all only: of_nat_u32_less of_nat_eq_iff_unat)
  moreover have "80 * r + c = 80 * y + x \<longleftrightarrow> r = y \<and> c = x"
  proof -
    have "(80 * r + c) div 80 = r" "(80 * y + x) div 80 = y" "(80 * r + c) mod 80 = c" "(80 * y + x) mod 80 = x"
      using rc(2) assms(1) by simp_all
    then show ?thesis by metis
  qed
  ultimately have jk: "j = k \<longleftrightarrow> r = y \<and> c = x" by simp
  have j: "screen s ! r ! c = video s j" unfolding j_def by (rule nth_screen [OF rc])
  show "video (s\<lparr>video := (video s)(of_nat (80 * y + x) := v)\<rparr>) (of_nat (80 * r + c)) = set_cell y x v (screen s) ! r ! c"
    unfolding j_def [symmetric] k_def [symmetric]
  proof (cases "j = k")
    case True
    moreover have "length (screen s ! r) = 80" using rc(1) by (simp add: screen_def)
    ultimately show "video (s\<lparr>video := (video s)(k := v)\<rparr>) j = set_cell y x v (screen s) ! r ! c"
      using jk rc by (simp add: set_cell_def)
  next
    case False
    then have "r \<noteq> y \<or> c \<noteq> x" using jk by simp
    then show "video (s\<lparr>video := (video s)(k := v)\<rparr>) j = set_cell y x v (screen s) ! r ! c"
      using False j rc by (cases "r = y") (simp_all add: set_cell_def)
  qed
qed (use assms in \<open>auto simp: set_cell_def screen_def nth_list_update\<close>)

lemma screen_scroll:
  "screen (s\<lparr>video := \<lambda>j. if unat j < 1840 then video s (j + 80) else if unat j < 1920 then blank_cell else video s j,
     cursor_y := y\<rparr>) = scroll_up (screen s)"
proof (rule screen_eqI)
  fix r c :: nat assume rc: "r < 25" "c < 80"
  define j :: u32 where "j = of_nat (80 * r + c)"
  have u: "unat j = 80 * r + c" unfolding j_def using rc by (intro of_nat_u32_less) simp
  have up: "j + 80 = of_nat (80 * Suc r + c)" unfolding j_def by simp
  consider "r < 23" | "r = 23" | "r = 24" using rc(1) by linarith
  then have "(if unat j < 1840 then video s (j + 80) else if unat j < 1920 then blank_cell else video s j) =
      scroll_up (screen s) ! r ! c"
  proof cases
    case 1
    then have "scroll_up (screen s) ! r ! c = video s (of_nat (80 * Suc r + c))"
      using rc nth_screen [of "Suc r" c s] by (simp add: scroll_up_def nth_append nth_tl del: of_nat_add of_nat_mult)
    moreover have "unat j < 1840" using 1 u rc(2) by linarith
    ultimately show ?thesis by (simp only: up if_True)
  next
    case 2
    then show ?thesis using u rc by (simp add: scroll_up_def nth_append)
  next
    case 3
    then have "scroll_up (screen s) ! r ! c = video s j"
      using rc nth_screen [of 24 c s] by (simp add: scroll_up_def nth_append j_def del: of_nat_add of_nat_mult)
    then show ?thesis using 3 u by simp
  qed
  then show "video (s\<lparr>video := \<lambda>j. if unat j < 1840 then video s (j + 80) else if unat j < 1920 then blank_cell else video s j,
     cursor_y := y\<rparr>) (of_nat (80 * r + c)) = scroll_up (screen s) ! r ! c"
    unfolding j_def [symmetric] by simp
qed (auto simp: scroll_up_def nth_append nth_tl screen_def nth_Cons')

section \<open>The code refines the terminal\<close>

lemma update_cursor_rest [simp]:
  "video (update_cursor r c s) = video s" "cursor_x (update_cursor r c s) = cursor_x s"
  "cursor_y (update_cursor r c s) = cursor_y s" "screen (update_cursor r c s) = screen s" "mem (update_cursor r c s) = mem s"
  by (simp_all add: update_cursor_def outb_def Let_def screen_def)

lemma screen_cursor [simp]: "screen (s\<lparr>cursor_x := x\<rparr>) = screen s" "screen (s\<lparr>cursor_y := y\<rparr>) = screen s"
  by (simp_all add: screen_def)

lemma scroll_term:
  assumes "unat (cursor_y s) \<le> 24"
  shows "term_of (scroll s) = (if unat (cursor_y s) = 24 then (scroll_up (screen s), unat (cursor_x s), 23) else term_of s)"
    and "cursor_y (scroll s) < 24" and "cursor_x (scroll s) = cursor_x s" and "mem (scroll s) = mem s"
proof -
  have "cursor_y s \<ge> 24 \<longleftrightarrow> unat (cursor_y s) = 24" using assms by (simp add: word_le_nat_alt)
  then show "term_of (scroll s) = (if unat (cursor_y s) = 24 then (scroll_up (screen s), unat (cursor_x s), 23) else term_of s)"
    using screen_scroll [where s = s and y = 23] by (simp add: scroll_eq term_of_def Let_def)
  show "cursor_y (scroll s) < 24" by (auto simp: scroll_eq Let_def)
  show "cursor_x (scroll s) = cursor_x s" "mem (scroll s) = mem s" by (simp_all add: scroll_eq Let_def)
qed

text \<open>The end of \<open>monitor_put\<close>, after the character.\<close>

definition finish_put :: "'a monitor_state_scheme \<Rightarrow> 'a monitor_state_scheme" where
  "finish_put s =
    (let s = (if cursor_x s \<ge> 80 then s\<lparr>cursor_x := 0, cursor_y := cursor_y s + 1\<rparr> else s);
         s = scroll s
     in update_cursor (cursor_y s) (cursor_x s) s)"

lemma monitor_put_finish: "monitor_put c s = finish_put (put_char c s)"
  by (simp add: monitor_put_def finish_put_def Let_def)

lemma finish_put_term:
  assumes x: "unat (cursor_x s) \<le> 80" and y: "unat (cursor_y s) \<le> 24" and full: "unat (cursor_x s) = 80 \<Longrightarrow> unat (cursor_y s) < 24"
  shows "term_of (finish_put s) = settle (term_of s)" and "cursor_ok (finish_put s)" and "mem (finish_put s) = mem s"
proof -
  let ?s = "if cursor_x s \<ge> 80 then s\<lparr>cursor_x := 0, cursor_y := cursor_y s + 1\<rparr> else s"
  have x80: "cursor_x s \<ge> 80 \<longleftrightarrow> unat (cursor_x s) = 80" using x by (simp add: word_le_nat_alt)
  have y1: "unat (cursor_y s + 1) = unat (cursor_y s) + 1" using y unat_add_small [of "cursor_y s" 1] by simp
  have y': "unat (cursor_y ?s) \<le> 24" using x80 y1 full y by auto
  note sc = scroll_term [OF y']
  have fin: "finish_put s = update_cursor (cursor_y (scroll ?s)) (cursor_x (scroll ?s)) (scroll ?s)"
    by (simp add: finish_put_def Let_def)
  have "cursor_x ?s < 80" using x80 by (auto simp: not_le)
  then show "cursor_ok (finish_put s)" using sc(2,3) unfolding fin cursor_ok_def by simp
  have "term_of (finish_put s) = term_of (scroll ?s)" unfolding fin by (simp add: term_of_def)
  then show "term_of (finish_put s) = settle (term_of s)"
    using sc(1) x80 y1 by (auto simp: settle_def term_of_def Let_def split: prod.splits)
  show "mem (finish_put s) = mem s" using sc(4) unfolding fin by simp
qed

lemma cursor_index:
  assumes "x < 80" "y < 24"
  shows "x + 80 * y = of_nat (80 * unat y + unat x)"
  by (simp add: word_unat_eq_iff add.commute)

lemma tab_stop: "x < 80 \<Longrightarrow> unat ((x + 8) AND NOT 7) = 8 * (unat x div 8) + 8" for x :: u32
proof -
  assume x: "x < 80"
  have "unat (x + 8) = unat x + 8" using x unat_add_small [of x 8] by (simp add: word_less_nat_alt)
  moreover have "unat ((x + 8) AND NOT 7) = unat (x + 8) - unat (x + 8) mod 8"
    using unat_and_not_mask [of "x + 8" 3] by (simp add: mask_eq_exp_minus_1)
  moreover from calculation(1) have "unat (x + 8) mod 8 = unat x mod 8" by simp
  ultimately show ?thesis using mult_div_mod_eq [of 8 "unat x"] by linarith
qed

lemma printable_cell: "32 \<le> sint c \<Longrightarrow> (scast c :: u16) OR attribute_of 0 7 = 0x0700 OR ucast c" for c :: u8
proof -
  assume c: "32 \<le> sint c"
  have "(scast c :: u16) = ucast c"
  proof (rule bit_word_eqI)
    fix n assume "n < LENGTH(16)"
    have "\<not> bit c 7" using c bit_last_iff [of c] by simp
    then show "bit (scast c :: u16) n = bit (ucast c :: u16) n"
      using \<open>n < LENGTH(16)\<close> bit_imp_le_length [of c n] by (cases "n = 7") (auto simp: bit_signed_iff bit_unsigned_iff min_def)
  qed
  then show ?thesis by (simp add: attribute_of_def or.commute)
qed

lemma screen_set_word:
  assumes "x < 80" "y < 24"
  shows "screen (s\<lparr>video := (video s)(x + 80 * y := v)\<rparr>) = set_cell (unat y) (unat x) v (screen s)"
proof -
  have "unat x < 80" "unat y < 25" using assms by (simp_all add: word_less_nat_alt)
  then show ?thesis using screen_set [of "unat x" "unat y" s v] unfolding cursor_index [OF assms] by simp
qed

lemma put_char_term:
  assumes ok: "cursor_ok s"
  shows "term_of (finish_put (put_char c s)) = term_put c (term_of s)" and "cursor_ok (finish_put (put_char c s))"
    and "mem (finish_put (put_char c s)) = mem s"
proof -
  have x: "cursor_x s < 80" "unat (cursor_x s) < 80" and y: "cursor_y s < 24" "unat (cursor_y s) < 24"
    using ok by (simp_all add: cursor_ok_def word_less_nat_alt)
  have step: "term_of (finish_put (put_char c s)) = term_put c (term_of s) \<and> cursor_ok (finish_put (put_char c s)) \<and>
      mem (finish_put (put_char c s)) = mem s"
    if t: "term_put c (term_of s) = settle (term_of (put_char c s))" and b: "unat (cursor_x (put_char c s)) \<le> 80"
      "unat (cursor_y (put_char c s)) \<le> 24" "unat (cursor_x (put_char c s)) = 80 \<Longrightarrow> unat (cursor_y (put_char c s)) < 24"
      "mem (put_char c s) = mem s"
    using finish_put_term [OF b(1,2,3)] t b(4) by simp
  consider "c = 0x08" | "c = 0x09" | "c = 0x0D" | "c = 0x0A" | "c \<notin> {8, 9, 10, 13}" "32 \<le> sint c" | "c \<notin> {8, 9, 10, 13}" "\<not> 32 \<le> sint c"
    by auto
  then have "term_of (finish_put (put_char c s)) = term_put c (term_of s) \<and> cursor_ok (finish_put (put_char c s)) \<and>
      mem (finish_put (put_char c s)) = mem s"
  proof cases
    case 1
    let ?t = "if cursor_x s \<noteq> 0 then s\<lparr>cursor_x := cursor_x s - 1\<rparr>
      else if cursor_y s \<noteq> 0 then s\<lparr>cursor_x := 79, cursor_y := cursor_y s - 1\<rparr> else s"
    have xs: "unat (cursor_x s - 1) = unat (cursor_x s) - 1" if "cursor_x s \<noteq> 0" using that by (simp add: unat_minus_one)
    have ys: "unat (cursor_y s - 1) = unat (cursor_y s) - 1" if "cursor_y s \<noteq> 0" using that by (simp add: unat_minus_one)
    have t: "cursor_x ?t < 80" "cursor_y ?t < 24" "screen ?t = screen s" "video ?t = video s" "mem ?t = mem s"
      using x y xs ys by (auto simp: word_less_nat_alt screen_def)
    have p: "put_char 8 s = ?t\<lparr>video := (video s)(cursor_x ?t + 80 * cursor_y ?t := 0x0720)\<rparr>"
      unfolding put_char_def Let_def t(4) by (simp add: attribute_of_def)
    have "screen (put_char 8 s) = set_cell (unat (cursor_y ?t)) (unat (cursor_x ?t)) 0x0720 (screen s)"
      unfolding p using screen_set_word [OF t(1,2), of ?t] t(3,4) by simp
    then have "term_of (put_char 8 s) = (let (x, y) = (if unat (cursor_x s) > 0 then (unat (cursor_x s) - 1, unat (cursor_y s))
        else if unat (cursor_y s) > 0 then (79, unat (cursor_y s) - 1) else (0, 0)) in (set_cell y x 0x0720 (screen s), x, y))"
      using xs ys by (auto simp: term_of_def p unat_gt_0)
    moreover have "unat (cursor_x (put_char 8 s)) < 80" "unat (cursor_y (put_char 8 s)) < 24" "mem (put_char 8 s) = mem s"
      using t(1,2,5) by (simp_all add: p word_less_nat_alt del: if_split)
    ultimately show ?thesis unfolding 1 by (intro step [unfolded 1]) (simp_all add: term_put_def term_char_def term_of_def [of s])
  next
    case 2
    have p: "put_char 9 s = s\<lparr>cursor_x := (cursor_x s + 8) AND NOT 7\<rparr>" by (simp add: put_char_def Let_def)
    have "unat ((cursor_x s + 8) AND NOT 7) = 8 * (unat (cursor_x s) div 8) + 8" using tab_stop [OF x(1)] .
    moreover from this have "unat ((cursor_x s + 8) AND NOT 7) \<le> 80" using x(2) by simp
    ultimately show ?thesis unfolding 2 using y by (intro step [unfolded 2]) (simp_all add: p term_put_def term_char_def term_of_def)
  next
    case 3
    then show ?thesis using y by (intro step) (simp_all add: put_char_def term_put_def term_char_def term_of_def Let_def)
  next
    case 4
    have "unat (cursor_y s + 1) = unat (cursor_y s) + 1" using y unat_add_small [of "cursor_y s" 1] by simp
    then show ?thesis using y 4 by (intro step) (simp_all add: put_char_def term_put_def term_char_def term_of_def Let_def)
  next
    case 5
    have p: "put_char c s = s\<lparr>video := (video s)(cursor_x s + 80 * cursor_y s := 0x0700 OR ucast c), cursor_x := cursor_x s + 1\<rparr>"
      using 5 printable_cell [OF 5(2)] by (simp add: put_char_def Let_def)
    have "unat (cursor_x s + 1) = unat (cursor_x s) + 1" using x unat_add_small [of "cursor_x s" 1] by simp
    then show ?thesis using x y 5 screen_set_word [OF x(1) y(1), of s]
      by (intro step) (simp_all add: p term_put_def term_char_def term_of_def)
  next
    case 6
    then show ?thesis using x y by (intro step) (simp_all add: put_char_def term_put_def term_char_def term_of_def Let_def)
  qed
  then show "term_of (finish_put (put_char c s)) = term_put c (term_of s)" "cursor_ok (finish_put (put_char c s))"
    "mem (finish_put (put_char c s)) = mem s" by simp_all
qed

lemma monitor_put_term:
  assumes "cursor_ok s"
  shows "term_of (monitor_put c s) = term_put c (term_of s)" "cursor_ok (monitor_put c s)" "mem (monitor_put c s) = mem s"
  using put_char_term [OF assms] by (simp_all add: monitor_put_finish)

lemma monitor_puts_term:
  assumes "cursor_ok s"
  shows "term_of (fold monitor_put cs s) = fold term_put cs (term_of s) \<and> cursor_ok (fold monitor_put cs s) \<and>
    mem (fold monitor_put cs s) = mem s"
  using assms by (induction cs arbitrary: s) (simp_all add: monitor_put_term)

lemma monitor_write_cstr:
  assumes "cursor_ok s" and "cstr (mem s) p cs"
  shows "monitor_write p s = Some (fold monitor_put cs s)"
  using assms
proof (induction cs arbitrary: p s)
  case Nil
  then show ?case by (simp add: monitor_write.simps)
next
  case (Cons c cs)
  then have "monitor_write (p + 1) (monitor_put c s) = Some (fold monitor_put cs (monitor_put c s))"
    using monitor_put_term [OF Cons.prems(1), of c] by (intro Cons.IH) simp_all
  then show ?case using Cons.prems(2) by (simp add: monitor_write.simps [of p s])
qed

section \<open>Numbers\<close>

lemma dec_digits_text: "n \<noteq> 0 \<Longrightarrow> rev (dec_digits n) = numeral_text small 10 (unat n)" for n
proof -
  have "dec_digits n = digits_rev small 10 (unat n)" for n
  proof (induction n rule: dec_digits.induct)
    case (1 acc)
    show ?case
    proof (cases "acc > 0")
      case True
      have u: "unat (acc mod 10) = unat acc mod 10" "unat (acc div 10) = unat acc div 10" by (simp_all add: unat_mod unat_div)
      moreover have "(ucast (acc mod 10) :: u8) = of_nat (unat acc mod 10)" by (simp only: ucast_of_unat u(1))
      ultimately show ?thesis
        using 1 True by (simp add: dec_digits.simps [of acc] digits_rev_step digit_chr_def word_less_nat_alt)
    qed (simp add: dec_digits.simps word_gt_0)
  qed
  moreover assume "n \<noteq> 0"
  ultimately show ?thesis by (simp add: numeral_text_def unat_eq_zero)
qed

lemma monitor_write_dec_text: "monitor_write_dec n s = fold monitor_put (numeral_text small 10 (unat n)) s"
proof (cases "n = 0")
  case False
  then show ?thesis using dec_digits_text [OF False, of small] by (simp add: monitor_write_dec_def)
qed (simp add: monitor_write_dec_def numeral_text_def)

lemma unat_nibble: "unat (drop_bit i n AND 0xF) = unat n div 2 ^ i mod 16" for n :: u32
proof -
  have "unat (drop_bit i n) = unat n div 2 ^ i" by (subst unat_drop_bit_eq) (rule drop_bit_eq_div)
  then show ?thesis by (simp only: unat_and_15)
qed

lemma hex_digit: "(let tmp = drop_bit i n AND 0xF in if tmp \<ge> 0xA then ucast tmp - 0xA + 0x61 else ucast tmp + 0x30)
    = digit_chr True (unat n div 2 ^ i mod 16)" for n :: u32
proof -
  define tmp where "tmp = drop_bit i n AND 0xF"
  have u: "unat tmp = unat n div 2 ^ i mod 16" by (simp only: tmp_def unat_nibble)
  then have "(ucast tmp :: u8) = of_nat (unat n div 2 ^ i mod 16)" by (simp only: ucast_of_unat)
  moreover have "tmp \<ge> 0xA \<longleftrightarrow> \<not> unat n div 2 ^ i mod 16 < 10" using u by (simp add: word_le_nat_alt not_less)
  ultimately show ?thesis unfolding tmp_def [symmetric] Let_def by (simp add: digit_chr_def)
qed

lemma hex_loop_rest:
  "hex_loop n False is s = fold monitor_put (map (\<lambda>i. digit_chr True (unat n div 2 ^ i mod 16)) is) s"
  using hex_digit [of _ n] by (induction "is" arbitrary: s) (simp_all add: Let_def)

lemma hex_loop_zero: "(\<And>i. i \<in> set is \<Longrightarrow> unat n div 2 ^ i mod 16 = 0) \<Longrightarrow> hex_loop n True (is @ js) s = hex_loop n True js s"
proof (induction "is")
  case (Cons i "is")
  have "unat (drop_bit i n AND 0xF) = 0" using Cons.prems [of i] by (simp add: unat_nibble)
  then have "drop_bit i n AND 0xF = 0" by (simp add: unat_eq_zero)
  then show ?case using Cons by simp
qed simp

lemma hex_loop_text:
  assumes "unat n < 16 ^ k" and "0 < unat n"
  shows "hex_loop n True (rev (map (\<lambda>i. 4 * i) [0..<k])) s = fold monitor_put (numeral_text True 16 (unat n)) s"
proof -
  have "\<exists>j. 16 ^ j \<le> unat n \<and> unat n < 16 ^ Suc j" using assms(2) ex_power_ivl1 [of 16 "unat n"] by simp
  then obtain j where j: "16 ^ j \<le> unat n" "unat n < 16 ^ Suc j" by blast
  have "(16 :: nat) ^ j < 16 ^ k" using j(1) assms(1) by (rule le_less_trans)
  then have "j < k" by simp
  then have split: "rev (map (\<lambda>i. 4 * i) [0..<k]) = rev (map (\<lambda>i. 4 * i) [Suc j..<k]) @ rev (map (\<lambda>i. 4 * i) [0..<Suc j])"
    using upt_add_eq_append [of 0 "Suc j" "k - Suc j"] by (simp del: upt_Suc)
  have pow: "(2 :: nat) ^ (4 * i) = 16 ^ i" for i by (simp add: power_mult)
  have zeros: "unat n div 2 ^ i mod 16 = 0" if i: "i \<in> set (rev (map (\<lambda>i. 4 * i) [Suc j..<k]))" for i
  proof -
    obtain m where m: "i = 4 * m" "Suc j \<le> m" using i by auto
    have "(16 :: nat) ^ Suc j \<le> 16 ^ m" using m(2) by (intro power_increasing) simp_all
    then have "unat n < 16 ^ m" using j(2) by simp
    then show ?thesis by (simp add: m(1) pow)
  qed
  have "unat n div 16 ^ j < 16" "unat n div 16 ^ j \<noteq> 0" using j by (simp_all add: less_mult_imp_div_less div_eq_0_iff not_less)
  then have "unat (drop_bit (4 * j) n AND 0xF) \<noteq> 0" by (simp only: unat_nibble pow) simp
  then have "drop_bit (4 * j) n AND 0xF \<noteq> 0" by auto
  then have "hex_loop n True (rev (map (\<lambda>i. 4 * i) [0..<Suc j])) s = hex_loop n False (rev (map (\<lambda>i. 4 * i) [0..<Suc j])) s"
    by (simp add: Let_def)
  also have "\<dots> = fold monitor_put (rev (map (\<lambda>i. digit_chr True (unat n div 16 ^ i mod 16)) [0..<Suc j])) s"
    unfolding hex_loop_rest by (simp add: rev_map [symmetric] o_def pow del: upt_Suc)
  also have "\<dots> = fold monitor_put (numeral_text True 16 (unat n)) s"
    using assms(2) digits_rev_exact [OF _ j, of True] by (simp add: numeral_text_def del: upt_Suc)
  finally show ?thesis unfolding split by (subst hex_loop_zero [OF zeros])
qed

lemma monitor_write_hex_text:
  "monitor_write_hex n s = fold monitor_put ([0x30, 0x78] @ (if n = 0 then [] else numeral_text True 16 (unat n))) s"
proof -
  have l: "[28, 24, 20, 16, 12, 8, 4, 0] = rev (map (\<lambda>i. 4 * i) [0..<8 :: nat])" by (simp add: upt_rec)
  show ?thesis
  proof (cases "n = 0")
    case True
    then show ?thesis by (simp add: monitor_write_hex_def)
  next
    case False
    have "unat n < 16 ^ 8" using unat_lt_32 [of n] by simp
    then show ?thesis
      using hex_loop_text [of n 8] False unfolding monitor_write_hex_def l by (simp add: unat_gt_0 del: upt_rec_numeral)
  qed
qed

section \<open>The hardware cursor\<close>

text \<open>The display controller: port 0x3D4 selects a register, port 0x3D5 writes it; registers 14 and 15 hold the cursor.\<close>

fun crtc_step :: "io_event \<Rightarrow> u8 \<times> (u8 \<Rightarrow> u8) \<Rightarrow> u8 \<times> (u8 \<Rightarrow> u8)" where
  "crtc_step (OutB p v) (i, regs) = (if p = 0x3D4 then (v, regs) else if p = 0x3D5 then (i, regs(i := v)) else (i, regs))"
| "crtc_step _ (i, regs) = (i, regs)"

definition hw_cursor :: "io_event list \<Rightarrow> nat" where
  "hw_cursor es = (let (i, regs) = fold crtc_step es (0, \<lambda>_. 0) in 256 * unat (regs 0x0E) + unat (regs 0x0F))"

lemma bytes_of_u16: "256 * unat (ucast (drop_bit 8 p AND 0xFF) :: u8) + unat (ucast (p AND 0xFF) :: u8) = unat p" for p :: u16
proof -
  have p: "unat p < 2 ^ 16" using unsigned_less [of p] by simp
  have m: "unat (x AND 0xFF) = unat x mod 256" for x :: u16
    using unat_and_mask [of x 8] by (simp add: mask_eq_exp_minus_1)
  have d: "unat (drop_bit 8 p) = unat p div 256" by (subst unat_drop_bit_eq) (simp add: drop_bit_eq_div)
  have "unat p div 256 mod 256 = unat p div 256" using p by (simp add: less_mult_imp_div_less)
  then have "unat (ucast (drop_bit 8 p AND 0xFF) :: u8) = unat p div 256" "unat (ucast (p AND 0xFF) :: u8) = unat p mod 256"
    by (simp_all add: ucast_of_unat m d unat_of_nat)
  then show ?thesis by simp
qed

lemma update_cursor_hw: "hw_cursor (io (update_cursor row col s)) = unat (ucast (row * 80 + col) :: u16)"
proof -
  obtain i regs where r: "fold crtc_step (io s) (0, \<lambda>_. 0) = (i, regs)" by (cases "fold crtc_step (io s) (0, \<lambda>_. 0)")
  show ?thesis
    using bytes_of_u16 [of "ucast (row * 80 + col)"] by (simp add: update_cursor_def outb_def hw_cursor_def r Let_def)
qed

lemma cursor_position:
  fixes x y :: u32
  assumes "x < 80" "y < 24"
  shows "unat (ucast (y * 80 + x) :: u16) = 80 * unat y + unat x"
proof -
  have b: "unat x < 80" "unat y < 24" using assms by (simp_all add: word_less_nat_alt)
  then have "unat (y * 80) = unat y * 80" by (simp add: unat_word_ariths)
  then have "unat (y * 80 + x) = 80 * unat y + unat x" using b unat_add_small [of "y * 80" x] by simp
  then show ?thesis using b by (simp only: ucast_of_unat unat_of_nat) simp
qed

lemma monitor_put_hw:
  assumes "cursor_ok s"
  shows "hw_cursor (io (monitor_put c s)) = 80 * unat (cursor_y (monitor_put c s)) + unat (cursor_x (monitor_put c s))"
proof -
  obtain t where t: "monitor_put c s = update_cursor (cursor_y t) (cursor_x t) t"
    by (simp add: monitor_put_def Let_def)
  have "cursor_x t < 80" "cursor_y t < 24" using monitor_put_term(2) [OF assms, of c] by (simp_all add: cursor_ok_def t)
  then show ?thesis unfolding t update_cursor_hw update_cursor_rest by (rule cursor_position)
qed

section \<open>Text, the status line, and starting the console\<close>

lemma set_cell_other: "y \<noteq> r \<Longrightarrow> set_cell y x v L ! r = L ! r"
  by (simp add: set_cell_def)

lemma settle_line_24: "length L = 25 \<Longrightarrow> fst (settle (L, x, y)) ! 24 = L ! 24"
  by (simp add: settle_def scroll_up_def nth_append Let_def split: prod.splits)

lemma term_char_line_24:
  assumes "length L = 25" "y < 24" and "term_char c (L, x, y) = (L', x', y')"
  shows "length L' = 25 \<and> L' ! 24 = L ! 24"
  using assms by (auto simp: term_char_def set_cell_def split: if_splits)

lemma term_put_line_24:
  assumes "length L = 25" "y < 24"
  shows "fst (term_put c (L, x, y)) ! 24 = L ! 24"
proof -
  obtain L' x' y' where t: "term_char c (L, x, y) = (L', x', y')" by (rule prod_cases3)
  then show ?thesis using term_char_line_24 [OF assms t] settle_line_24 [of L' x' y'] by (simp add: term_put_def)
qed

lemma fold_term_put_line_24:
  assumes "cursor_ok s"
  shows "screen (fold monitor_put cs s) ! 24 = screen s ! 24"
  using assms
proof (induction cs arbitrary: s)
  case (Cons c cs)
  have "unat (cursor_y s) < 24" using Cons.prems by (simp add: cursor_ok_def word_less_nat_alt)
  then have "screen (monitor_put c s) ! 24 = screen s ! 24"
    using term_put_line_24 [of "screen s" "unat (cursor_y s)" c "unat (cursor_x s)"] monitor_put_term(1) [OF Cons.prems, of c]
    by (metis fst_conv length_screen term_of_def)
  then show ?case using Cons monitor_put_term(2) [OF Cons.prems] by simp
qed simp

text \<open>\<open>monitor_writexy\<close> writes its cells one after the other.\<close>

primrec put_cells :: "u16 \<Rightarrow> u32 \<Rightarrow> u8 list \<Rightarrow> (u32 \<Rightarrow> u16) \<Rightarrow> u32 \<Rightarrow> u16" where
  "put_cells a i [] v = v"
| "put_cells a i (c # cs) v = put_cells a (i + 1) cs (v(i := scast c OR a))"

lemma monitor_writexy_cells:
  assumes "cstr (mem s) tx cs"
  shows "monitor_writexy x y tx b f s = Some (s\<lparr>video := put_cells (attribute_of b f) (x + 80 * y) cs (video s)\<rparr>)"
  using assms
proof (induction cs arbitrary: x tx s)
  case Nil
  then show ?case by (simp add: monitor_writexy.simps)
next
  case (Cons c cs)
  let ?s = "s\<lparr>video := (video s)(x + 80 * y := scast c OR attribute_of b f)\<rparr>"
  have "monitor_writexy (x + 1) y (tx + 1) b f ?s =
      Some (?s\<lparr>video := put_cells (attribute_of b f) (x + 1 + 80 * y) cs (video ?s)\<rparr>)"
    using Cons.prems by (intro Cons.IH) simp
  then show ?case using Cons.prems by (simp add: monitor_writexy.simps [of x y tx] add.assoc add.commute [of 1])
qed

lemma put_cells_screen:
  assumes "x + length cs \<le> 80" "y < 25"
  shows "screen (s\<lparr>video := put_cells a (of_nat (80 * y + x)) cs (video s)\<rparr>) =
    fold (\<lambda>(j, c). set_cell y j (scast c OR a)) (zip [x..<x + length cs] cs) (screen s)"
  using assms
proof (induction cs arbitrary: x s)
  case Nil
  then show ?case by simp
next
  case (Cons c cs)
  let ?s = "s\<lparr>video := (video s)(of_nat (80 * y + x) := scast c OR a)\<rparr>"
  have eq: "of_nat (80 * y + x) + 1 = (of_nat (80 * y + Suc x) :: u32)" by simp
  have "screen (?s\<lparr>video := put_cells a (of_nat (80 * y + Suc x)) cs (video ?s)\<rparr>) =
      fold (\<lambda>(j, c). set_cell y j (scast c OR a)) (zip [Suc x..<Suc x + length cs] cs) (screen ?s)"
    using Cons.prems by (intro Cons.IH) simp_all
  moreover have "screen ?s = set_cell y x (scast c OR a) (screen s)" using Cons.prems by (intro screen_set) simp_all
  moreover have "zip [x..<x + length (c # cs)] (c # cs) = (x, c) # zip [Suc x..<Suc x + length cs] cs"
    by (simp add: upt_conv_Cons del: upt_Suc)
  ultimately show ?case unfolding put_cells.simps eq by simp
qed

text \<open>A display controller that reads back what was written to its registers.\<close>

definition vga_env :: "u8 env" where
  "vga_env es port = (let (i, regs) = fold crtc_step es (0, \<lambda>_. 0) in regs i)"

definition swapped_row :: "nat \<Rightarrow> nat" where
  "swapped_row p = (256 * (p mod 256) + p div 256) div 80 + 1"

lemma monitor_init_row:
  "unat (cursor_y (monitor_init vga_env s)) = min 23 (swapped_row (hw_cursor (io s))) \<and> cursor_x (monitor_init vga_env s) = 0"
proof -
  obtain i regs where r: "fold crtc_step (io s) (0, \<lambda>_. 0) = (i, regs)" by (cases "fold crtc_step (io s) (0, \<lambda>_. 0)")
  define lo where "lo = regs 0x0F"
  define hi where "hi = regs 0x0E"
  have hw: "hw_cursor (io s) = 256 * unat hi + unat lo" by (simp add: hw_cursor_def r lo_def hi_def)
  have b: "unat lo < 256" "unat hi < 256" using unat_bound [of lo] unat_bound [of hi] by simp_all
  have mask: "(ucast c AND 0xFF :: u16) = ucast c" for c :: u8
  proof -
    define w where "w = (ucast c :: u16)"
    have "unat (w AND 0xFF) = unat w mod 256" using unat_and_mask [of w 8] by (simp add: mask_eq_exp_minus_1)
    moreover have "unat w < 256" using unat_bound [of c] by (simp add: w_def unat_ucast_mod)
    ultimately have "unat (w AND 0xFF) = unat w" by simp
    then show ?thesis unfolding w_def by (simp only: word_unat_eq_iff)
  qed
  let ?p = "push_bit 8 (ucast lo) OR ucast hi :: u16"
  have "unat ?p = 256 * unat lo + unat hi"
  proof -
    have "push_bit 8 (ucast lo) OR ucast hi = push_bit 8 (ucast lo) + (ucast hi :: u16)"
      by (rule disjunctive_add [symmetric]) (auto simp: bit_simps dest: bit_imp_le_length)
    moreover have "unat (push_bit 8 (ucast lo) :: u16) = 256 * unat lo"
      using b by (simp add: push_bit_eq_mult unat_word_ariths unat_ucast_mod)
    moreover have "unat (ucast hi :: u16) = unat hi" using b by (simp add: unat_ucast_mod)
    ultimately show ?thesis using b by (simp add: unat_word_ariths)
  qed
  moreover have "hw_cursor (io s) mod 256 = unat lo" "hw_cursor (io s) div 256 = unat hi" using hw b by simp_all
  ultimately have p: "unat (?p div 80) + 1 = swapped_row (hw_cursor (io s))" by (simp add: swapped_row_def unat_div)
  define y where "y = (ucast (?p div 80) + 1 :: u32)"
  have "unat (?p div 80) < 2 ^ 16" using unat_bound [of "?p div 80"] by simp
  then have y: "unat y = swapped_row (hw_cursor (io s))"
    unfolding y_def p [symmetric] by (simp add: unat_ucast_mod unat_word_ariths)
  obtain es where "monitor_init vga_env s = scroll (s\<lparr>io := es, cursor_y := y, cursor_x := 0\<rparr>)"
    by (simp add: monitor_init_def outb_def inb_def vga_env_def r mask lo_def [symmetric] hi_def [symmetric] y_def [symmetric])
  then show ?thesis using y by (simp add: scroll_eq Let_def word_le_nat_alt)
qed

section \<open>Properties\<close>

text \<open>C32. \<open>monitor_put\<close> implements the terminal: with the cursor in range, the screen and the cursor after it are
  those of \<open>term_put\<close>, the cursor is again in range, the hardware cursor is set to it, and memory is not touched.\<close>

theorem monitor_put_refines:
  assumes "cursor_ok s"
  shows "term_of (monitor_put c s) = term_put c (term_of s) \<and> cursor_ok (monitor_put c s) \<and>
    hw_cursor (io (monitor_put c s)) = 80 * unat (cursor_y (monitor_put c s)) + unat (cursor_x (monitor_put c s)) \<and>
    mem (monitor_put c s) = mem s"
  using monitor_put_term [OF assms] monitor_put_hw [OF assms] by blast

definition blank_monitor :: monitor_state where
  "blank_monitor = heap_state.extend (paging_state.extend small_paging (heap_state.fields 0)) (monitor_state.fields (\<lambda>i. 0) 78 3)"

lemma blank_monitor_simps: "cursor_x blank_monitor = 78" "cursor_y blank_monitor = 3" "cursor_ok blank_monitor"
  "video blank_monitor = (\<lambda>i. 0)"
  by (simp_all add: blank_monitor_def heap_state.extend_def monitor_state.fields_def cursor_ok_def)

theorem monitor_put_refines_witness:
  "unat (cursor_x (monitor_put 0x41 blank_monitor)) = 79 \<and> screen (monitor_put 0x41 blank_monitor) ! 3 ! 78 = 0x0741"
  using monitor_put_refines [OF blank_monitor_simps(3), of "0x41"]
  by (simp add: term_of_def term_put_def term_char_def settle_def blank_monitor_simps set_cell_def) (simp add: screen_def)

text \<open>\<open>monitor_write\<close> of a string returns and shows its characters one after the other on the terminal. Line 24,
  which the clock task uses, keeps its content.\<close>

lemma monitor_write_shows:
  assumes "cursor_ok s" and "cstr (mem s) p cs"
  shows "\<exists>s'. monitor_write p s = Some s' \<and> term_of s' = fold term_put cs (term_of s) \<and> cursor_ok s' \<and>
    screen s' ! 24 = screen s ! 24 \<and> mem s' = mem s"
  using monitor_write_cstr [OF assms] monitor_puts_term [OF assms(1), of cs] fold_term_put_line_24 [OF assms(1), of cs] by simp

text \<open>\<open>monitor_write_dec\<close> prints the decimal notation of its argument, without needless zeros, which reads back
  as the argument; \<open>monitor_write_hex\<close> prints 0x and the hexadecimal notation, but for 0 nothing after the 0x.\<close>

lemma monitor_write_numbers:
  "monitor_write_dec n s = fold monitor_put (numeral_text False 10 (unat n)) s \<and>
   text_value 10 (numeral_text False 10 (unat n)) = unat n \<and>
   monitor_write_hex n s = fold monitor_put ([0x30, 0x78] @ (if n = 0 then [] else numeral_text True 16 (unat n))) s \<and>
   text_value 16 (numeral_text True 16 (unat n)) = unat n"
  by (simp add: monitor_write_dec_text monitor_write_hex_text text_value_numeral)

text \<open>\<open>monitor_writexy\<close> of a text that fits on the line replaces its cells, with the given colours, and changes
  nothing else.\<close>

lemma monitor_writexy_line:
  assumes "cstr (mem s) p cs" and "unat x + length cs \<le> 80" and "unat y < 25"
  shows "\<exists>s'. monitor_writexy x y p bg fg s = Some s' \<and>
    screen s' = fold (\<lambda>(j, c). set_cell (unat y) j (scast c OR attribute_of bg fg)) (zip [unat x..<unat x + length cs] cs) (screen s) \<and>
    cursor_x s' = cursor_x s \<and> cursor_y s' = cursor_y s \<and> io s' = io s \<and> mem s' = mem s"
proof -
  have "x + 80 * y = of_nat (80 * unat y + unat x)" by (simp add: word_unat_eq_iff add.commute)
  then show ?thesis
    using monitor_writexy_cells [OF assms(1), of x y bg fg] put_cells_screen [OF assms(2,3), where s = s]
    by (simp add: add.commute)
qed

text \<open>\<open>monitor_init\<close> on a display controller that answers with its registers: it takes the low byte of the hardware
  cursor for the high one, so the text goes on at the row computed from the swapped bytes, at most row 23, and not at
  the row after the cursor.\<close>

lemma monitor_init_swaps_cursor:
  "unat (cursor_y (monitor_init vga_env s)) = min 23 (swapped_row (hw_cursor (io s))) \<and>
   cursor_x (monitor_init vga_env s) = 0 \<and> swapped_row 80 = 257 \<and> 80 div 80 + 1 = (2 :: nat)"
  using monitor_init_row [of s] by (simp add: swapped_row_def)

end
