(* ===== verification/Vsprintf.thy ===== *)
theory Vsprintf
  imports Common Digits
begin

text \<open>
  vsprintf.c: formatted text. The routine works on memory: it reads the format and the strings it prints while it
  writes the buffer. \<open>out\<close> is that memory with the place of the next character, the pointer \<open>str\<close>. The
  variable arguments are the list of the 32-bit words on the stack; to take one more than there are is undefined,
  as is a width or precision that overflows a C \<open>int\<close>, which the model counts without bound.

  \<open>number_text\<close> says how a number is laid out; \<open>format_text\<close> is the reference for the whole routine, on lists
  of characters.
\<close>

section \<open>Flags and characters\<close>

definition ZEROPAD :: u32 where "ZEROPAD = 1"
definition SIGN :: u32 where "SIGN = 2"
definition PLUS :: u32 where "PLUS = 4"
definition SPACE :: u32 where "SPACE = 8"
definition LEFT :: u32 where "LEFT = 16"
definition SPECIAL :: u32 where "SPECIAL = 32"
definition SMALL :: u32 where "SMALL = 64"

lemmas flag_defs = ZEROPAD_def SIGN_def PLUS_def SPACE_def LEFT_def SPECIAL_def SMALL_def

abbreviation has :: "u32 \<Rightarrow> u32 \<Rightarrow> bool" where
  "has flags f \<equiv> flags AND f \<noteq> 0"

definition is_digit :: "u8 \<Rightarrow> bool" where
  "is_digit c \<longleftrightarrow> c \<ge> 0x30 \<and> c \<le> 0x39"

type_synonym out = "cells \<times> u32"

definition put_c :: "u8 \<Rightarrow> out \<Rightarrow> out" where
  "put_c c str = (store8 (fst str) (snd str) c, snd str + 1)"

text \<open>The table \<open>digits\<close> of \<open>number\<close>, with capital or small letters.\<close>

definition digit_table :: "bool \<Rightarrow> u8 list" where
  "digit_table small = map (\<lambda>c. of_nat (of_char c))
     (if small then ''0123456789abcdefghijklmnopqrstuvwxyz'' else ''0123456789ABCDEFGHIJKLMNOPQRSTUVWXYZ'')"

section \<open>number\<close>

text \<open>\<open>while (sz-- > 0) *str++ = c;\<close> and \<open>while (i < precision--) *str++ = '0';\<close>\<close>

function pad :: "u8 \<Rightarrow> int \<Rightarrow> out \<Rightarrow> int \<times> out" where
  "pad c sz str = (if sz > 0 then pad c (sz - 1) (put_c c str) else (sz - 1, str))"
  by pat_completeness auto
termination by (relation "measure (\<lambda>(c, sz, str). nat sz)") auto

function zeros :: "int \<Rightarrow> int \<Rightarrow> out \<Rightarrow> out" where
  "zeros i precision str = (if i < precision then zeros i (precision - 1) (put_c 0x30 str) else str)"
  by pat_completeness auto
termination by (relation "measure (\<lambda>(i, precision, str). nat (precision - i))") auto

text \<open>The digits in \<open>tmp\<close>, the lowest first; \<open>do_div\<close> divides without sign. \<open>number\<close> comes here with a base from 2 on.\<close>

function digit_loop :: "u8 list \<Rightarrow> u32 \<Rightarrow> u32 \<Rightarrow> u8 list" where
  "digit_loop digits base num =
    (if num \<noteq> 0 \<and> base > 1 then digits ! unat (num mod base) # digit_loop digits base (num div base) else [])"
  by pat_completeness auto
termination
proof (relation "measure (\<lambda>(digits, base, num). unat num)")
  fix digits :: "u8 list" and base num :: u32
  assume "num \<noteq> 0 \<and> base > 1"
  then have "0 < unat num" "1 < unat base" by (simp_all add: unat_gt_0 word_less_nat_alt)
  then show "((digits, base, num div base), digits, base, num) \<in> measure (\<lambda>(digits, base, num). unat num)"
    by (simp add: unat_div)
qed simp

declare pad.simps [simp del] zeros.simps [simp del] digit_loop.simps [simp del]

definition number :: "out \<Rightarrow> u32 \<Rightarrow> u32 \<Rightarrow> int \<Rightarrow> int \<Rightarrow> u32 \<Rightarrow> out" where
  "number str num base sz precision type =
    (let digits = digit_table (has type SMALL);
         type = (if has type LEFT then type AND NOT ZEROPAD else type)
     in if sint base < 2 \<or> sint base > 36 then (fst str, 0)
        else (let c = (if has type ZEROPAD then 0x30 else 0x20);
                  (sign, num) = (if has type SIGN \<and> sint num < 0 then (0x2D, - num)
                                 else (if has type PLUS then 0x2B else if has type SPACE then 0x20 else 0, num));
                  sz = (if sign \<noteq> 0 then sz - 1 else sz);
                  sz = (if has type SPECIAL then (if base = 16 then sz - 2 else if base = 8 then sz - 1 else sz) else sz);
                  tmp = (if num = 0 then [0x30] else digit_loop digits base num);
                  i = int (length tmp);
                  precision = (if i > precision then i else precision);
                  sz = sz - precision;
                  (sz, str) = (if has type (ZEROPAD + LEFT) then (sz, str) else pad 0x20 sz str);
                  str = (if sign \<noteq> 0 then put_c sign str else str);
                  str = (if has type SPECIAL
                         then (if base = 8 then put_c 0x30 str
                               else if base = 16 then put_c (digits ! 33) (put_c 0x30 str) else str)
                         else str);
                  (sz, str) = (if has type LEFT then (sz, str) else pad c sz str);
                  str = zeros i precision str;
                  str = fold put_c (rev tmp) str;
                  (sz, str) = pad 0x20 sz str
              in str))"

section \<open>vsprintf\<close>

partial_function (option) skip_atoi :: "cells \<Rightarrow> u32 \<Rightarrow> int \<Rightarrow> (int \<times> u32) option" where
  "skip_atoi m s i =
    (if is_digit (load8 m s) then skip_atoi m (s + 1) (i * 10 + int (unat (load8 m s)) - 48) else Some (i, s))"

partial_function (option) read_flags :: "cells \<Rightarrow> u32 \<Rightarrow> u32 \<Rightarrow> (u32 \<times> u32) option" where
  "read_flags m fmt flags =
    (let fmt = fmt + 1; c = load8 m fmt
     in if c = 0x2D then read_flags m fmt (flags OR LEFT)
        else if c = 0x2B then read_flags m fmt (flags OR PLUS)
        else if c = 0x20 then read_flags m fmt (flags OR SPACE)
        else if c = 0x23 then read_flags m fmt (flags OR SPECIAL)
        else if c = 0x30 then read_flags m fmt (flags OR ZEROPAD)
        else Some (flags, fmt))"

definition va_arg :: "u32 list \<Rightarrow> (u32 \<times> u32 list) outcome" where
  "va_arg args = (case args of [] \<Rightarrow> fail Undefined | a # args \<Rightarrow> ret (a, args))"

definition read_width :: "cells \<Rightarrow> u32 \<Rightarrow> u32 list \<Rightarrow> u32 \<Rightarrow> (int \<times> u32 \<times> u32 list \<times> u32) outcome" where
  "read_width m fmt args flags =
    (if is_digit (load8 m fmt) then Option.bind (skip_atoi m fmt 0) (\<lambda>(w, fmt). ret (w, fmt, args, flags))
     else if load8 m fmt = 0x2A
     then bnd (va_arg args) (\<lambda>(a, args).
            if sint a < 0 then ret (- sint a, fmt, args, flags OR LEFT) else ret (sint a, fmt, args, flags))
     else ret (-1, fmt, args, flags))"

definition read_precision :: "cells \<Rightarrow> u32 \<Rightarrow> u32 list \<Rightarrow> (int \<times> u32 \<times> u32 list) outcome" where
  "read_precision m fmt args =
    (if load8 m fmt = 0x2E
     then (let fmt = fmt + 1
           in bnd (if is_digit (load8 m fmt) then Option.bind (skip_atoi m fmt 0) (\<lambda>(p, fmt). ret (p, fmt, args))
                   else if load8 m fmt = 0x2A then bnd (va_arg args) (\<lambda>(a, args). ret (sint a, fmt, args))
                   else ret (-1, fmt, args))
                (\<lambda>(p, fmt, args). ret (if p < 0 then 0 else p, fmt, args)))
     else ret (-1, fmt, args))"

definition skip_qualifier :: "cells \<Rightarrow> u32 \<Rightarrow> u32" where
  "skip_qualifier m fmt = (if load8 m fmt \<in> {0x68, 0x6C, 0x4C} then fmt + 1 else fmt)"

text \<open>\<open>while (--field_width > 0) *str++ = ' ';\<close> and \<open>while (len < field_width--) *str++ = ' ';\<close>\<close>

function pad_char :: "int \<Rightarrow> out \<Rightarrow> int \<times> out" where
  "pad_char field_width str = (let w = field_width - 1 in if w > 0 then pad_char w (put_c 0x20 str) else (w, str))"
  by pat_completeness auto
termination by (relation "measure (\<lambda>(w, str). nat w)") auto

function pad_string :: "int \<Rightarrow> int \<Rightarrow> out \<Rightarrow> int \<times> out" where
  "pad_string len field_width str =
    (if len < field_width then pad_string len (field_width - 1) (put_c 0x20 str) else (field_width - 1, str))"
  by pat_completeness auto
termination by (relation "measure (\<lambda>(len, w, str). nat (w - len))") auto

function copy_string :: "int \<Rightarrow> int \<Rightarrow> u32 \<Rightarrow> out \<Rightarrow> out" where
  "copy_string i len s str = (if i < len then copy_string (i + 1) len (s + 1) (put_c (load8 (fst str) s) str) else str)"
  by pat_completeness auto
termination by (relation "measure (\<lambda>(i, len, s, str). nat (len - i))") auto

declare pad_char.simps [simp del] pad_string.simps [simp del] copy_string.simps [simp del]

definition conv_c :: "u32 \<Rightarrow> int \<Rightarrow> u32 \<Rightarrow> out \<Rightarrow> out" where
  "conv_c flags field_width a str =
    (let (field_width, str) = (if has flags LEFT then (field_width, str) else pad_char field_width str);
         str = put_c (ucast a) str
     in snd (pad_char field_width str))"

definition conv_s :: "u32 \<Rightarrow> int \<Rightarrow> int \<Rightarrow> u32 \<Rightarrow> out \<Rightarrow> out option" where
  "conv_s flags field_width precision s str =
    Option.bind (strlen (fst str) s) (\<lambda>n.
      let len = sint n;
          len = (if precision < 0 then len else if len > precision then precision else len);
          (field_width, str) = (if has flags LEFT then (field_width, str) else pad_string len field_width str);
          str = copy_string 0 len s str
      in Some (snd (pad_string len field_width str)))"

text \<open>The conversion that \<open>*fmt\<close> asks for; \<open>fmt\<close> is left at its last character.\<close>

definition convert :: "u32 \<Rightarrow> u32 \<Rightarrow> int \<Rightarrow> int \<Rightarrow> u32 \<Rightarrow> u32 list \<Rightarrow> out \<Rightarrow> (u32 \<times> u32 list \<times> out) outcome" where
  "convert buf flags field_width precision fmt args str =
    (let c = load8 (fst str) fmt;
         num = (\<lambda>base flags. bnd (va_arg args) (\<lambda>(a, args). ret (fmt, args, number str a base field_width precision flags)))
     in if c = 0x63 then bnd (va_arg args) (\<lambda>(a, args). ret (fmt, args, conv_c flags field_width a str))
        else if c = 0x73
        then bnd (va_arg args) (\<lambda>(a, args).
               Option.bind (conv_s flags field_width precision a str) (\<lambda>str. ret (fmt, args, str)))
        else if c = 0x6F then num 8 flags
        else if c = 0x70
        then bnd (va_arg args) (\<lambda>(a, args).
               ret (fmt, args, if field_width = -1 then number str a 16 8 precision (flags OR ZEROPAD)
                               else number str a 16 field_width precision flags))
        else if c = 0x78 then num 16 (flags OR SMALL)
        else if c = 0x58 then num 16 flags
        else if c = 0x64 \<or> c = 0x69 then num 10 (flags OR SIGN)
        else if c = 0x75 then num 10 flags
        else if c = 0x62 then num 2 flags
        else if c = 0x6E
        then bnd (va_arg args) (\<lambda>(ip, args). ret (fmt, args, ((fst str)(ip := snd str - buf), snd str)))
        else (let str = (if c \<noteq> 0x25 then put_c 0x25 str else str)
              in if c \<noteq> 0 then ret (fmt, args, put_c c str) else ret (fmt - 1, args, str)))"

definition directive :: "u32 \<Rightarrow> u32 \<Rightarrow> u32 list \<Rightarrow> out \<Rightarrow> (u32 \<times> u32 list \<times> out) outcome" where
  "directive buf fmt args str =
    Option.bind (read_flags (fst str) fmt 0) (\<lambda>(flags, fmt).
      bnd (read_width (fst str) fmt args flags) (\<lambda>(field_width, fmt, args, flags).
      bnd (read_precision (fst str) fmt args) (\<lambda>(precision, fmt, args).
        convert buf flags field_width precision (skip_qualifier (fst str) fmt) args str)))"

partial_function (option) format_loop :: "u32 \<Rightarrow> u32 \<Rightarrow> u32 list \<Rightarrow> out \<Rightarrow> out outcome" where
  "format_loop buf fmt args str =
    (let c = load8 (fst str) fmt
     in if c = 0 then ret str
        else if c \<noteq> 0x25 then format_loop buf (fmt + 1) args (put_c c str)
        else bnd (directive buf fmt args str) (\<lambda>(fmt, args, str). format_loop buf (fmt + 1) args str))"

definition vsprintf :: "u32 \<Rightarrow> u32 \<Rightarrow> u32 list \<Rightarrow> cells \<Rightarrow> (u32 \<times> cells) outcome" where
  "vsprintf buf fmt args m =
    bnd (format_loop buf fmt args (m, buf)) (\<lambda>(m, str). ret (str - buf, store8 m str 0))"

section \<open>The loops as lists of characters\<close>

lemma pad_eq: "pad c sz str = (min sz 0 - 1, fold put_c (replicate (nat sz) c) str)"
proof (induction c sz str rule: pad.induct)
  case (1 c sz str)
  show ?case
  proof (cases "sz > 0")
    case True
    then have "replicate (nat sz) c = c # replicate (nat (sz - 1)) c" by (simp add: nat_diff_distrib' flip: replicate_Suc)
    then show ?thesis using 1 [OF True] True by (simp add: pad.simps [of c sz])
  qed (simp add: pad.simps)
qed

lemma zeros_eq: "zeros i precision str = fold put_c (replicate (nat (precision - i)) 0x30) str"
proof (induction i precision str rule: zeros.induct)
  case (1 i precision str)
  show ?case
  proof (cases "i < precision")
    case True
    then have "nat (precision - i) = Suc (nat (precision - 1 - i))" by simp
    then show ?thesis using 1 [OF True] True by (simp add: zeros.simps [of i precision])
  qed (simp add: zeros.simps)
qed

lemma pad_char_eq: "pad_char w str = (min (w - 1) 0, fold put_c (replicate (nat (w - 1)) 0x20) str)"
proof (induction w str rule: pad_char.induct)
  case (1 w str)
  show ?case
  proof (cases "w - 1 > 0")
    case True
    then have "nat (w - 1) = Suc (nat (w - 1 - 1))" by simp
    then show ?thesis using 1 [OF refl True] True by (simp add: pad_char.simps [of w])
  qed (simp add: pad_char.simps)
qed

lemma pad_string_eq: "pad_string len w str = (min w len - 1, fold put_c (replicate (nat (w - len)) 0x20) str)"
proof (induction len w str rule: pad_string.induct)
  case (1 len w str)
  show ?case
  proof (cases "len < w")
    case True
    then have "nat (w - len) = Suc (nat (w - 1 - len))" by simp
    then show ?thesis using 1 [OF True] True by (simp add: pad_string.simps [of len w])
  qed (simp add: pad_string.simps)
qed

lemma digit_table_nth: "d < 36 \<Longrightarrow> digit_table small ! d = digit_chr small d"
proof -
  assume "d < 36"
  then have "d \<in> {0..<36}" by simp
  moreover have "\<forall>d \<in> set [0..<36]. digit_table small ! d = digit_chr small d"
    by (cases small) (simp_all add: digit_table_def digit_chr_def upt_rec)
  ultimately show ?thesis by simp
qed

lemma digit_loop_eq:
  assumes "2 \<le> unat base" "unat base \<le> 36"
  shows "digit_loop (digit_table small) base num = digits_rev small (unat base) (unat num)"
  using assms
proof (induction "digit_table small" base num rule: digit_loop.induct)
  case (1 base num)
  show ?case
  proof (cases "num = 0")
    case False
    have b: "base > 1" using 1(2) by (simp add: word_less_nat_alt)
    have "unat num mod unat base < 36" using 1(2,3) mod_less_divisor [of "unat base" "unat num"] by linarith
    then have "digit_table small ! unat (num mod base) = digit_chr small (unat num mod unat base)"
      by (simp add: unat_mod digit_table_nth)
    moreover have "digit_loop (digit_table small) base (num div base) = digits_rev small (unat base) (unat num div unat base)"
      using 1 False b by (simp add: unat_div)
    ultimately show ?thesis
      using False b 1(2) by (simp add: digit_loop.simps [of _ base num] digits_rev_step unat_gt_0)
  qed (simp add: digit_loop.simps)
qed

section \<open>The layout of a number\<close>

text \<open>Sign, prefix and digits, with zeros up to the precision, and what fills the field: blanks on the right
  with \<open>LEFT\<close>, zeros after the prefix with \<open>ZEROPAD\<close>, else blanks on the left.\<close>

definition number_text :: "u32 \<Rightarrow> nat \<Rightarrow> int \<Rightarrow> int \<Rightarrow> u32 \<Rightarrow> u8 list" where
  "number_text num base width precision flags =
    (let neg = has flags SIGN \<and> sint num < 0;
         sign = (if neg then [0x2D] else if has flags PLUS then [0x2B] else if has flags SPACE then [0x20] else []);
         prefix = (if has flags SPECIAL \<and> base = 8 then [0x30]
                   else if has flags SPECIAL \<and> base = 16 then [0x30, if has flags SMALL then 0x78 else 0x58] else []);
         body = numeral_text (has flags SMALL) base (if neg then nat (- sint num) else unat num);
         digits = replicate (nat precision - length body) 0x30 @ body;
         fill = nat width - length (sign @ prefix @ digits)
     in if has flags LEFT then sign @ prefix @ digits @ replicate fill 0x20
        else if has flags ZEROPAD then sign @ prefix @ replicate fill 0x30 @ digits
        else replicate fill 0x20 @ sign @ prefix @ digits)"

lemma has_bit:
  "has x ZEROPAD \<longleftrightarrow> bit x 0" "has x SIGN \<longleftrightarrow> bit x 1" "has x PLUS \<longleftrightarrow> bit x 2" "has x SPACE \<longleftrightarrow> bit x 3"
  "has x LEFT \<longleftrightarrow> bit x 4" "has x SPECIAL \<longleftrightarrow> bit x 5" "has x SMALL \<longleftrightarrow> bit x 6"
  using and_exp_eq_0_iff_not_bit [of x 0] and_exp_eq_0_iff_not_bit [of x 1] and_exp_eq_0_iff_not_bit [of x 2]
    and_exp_eq_0_iff_not_bit [of x 3] and_exp_eq_0_iff_not_bit [of x 4] and_exp_eq_0_iff_not_bit [of x 5]
    and_exp_eq_0_iff_not_bit [of x 6]
  by (simp_all add: flag_defs)

lemma has_pad: "has x (ZEROPAD + LEFT) \<longleftrightarrow> bit x 0 \<or> bit x 4"
proof -
  have "ZEROPAD + LEFT = ZEROPAD OR LEFT" by (simp add: flag_defs)
  then have "x AND (ZEROPAD + LEFT) = (x AND ZEROPAD) OR (x AND LEFT)" by (simp add: bit.conj_disj_distrib)
  then show ?thesis using has_bit(1,5) [of x] by (simp add: or_eq_0_iff)
qed

lemma clear_zeropad: "bit (x AND NOT ZEROPAD) n \<longleftrightarrow> bit x n \<and> n \<noteq> 0" for x :: u32
  by (auto simp: flag_defs bit_simps dest: bit_imp_le_length)

lemma unat_uminus_neg: "sint n < 0 \<Longrightarrow> unat (- n) = nat (- sint n)" for n :: u32
proof -
  assume neg: "sint n < 0"
  have "- (2 ^ 31) \<le> sint n" using sint_greater_eq [of n] by simp
  then have "take_bit 32 (- sint n) = - sint n" using neg by (intro take_bit_int_eq_self) simp_all
  moreover have "- n = word_of_int (- sint n)" by simp
  then have "uint (- n) = take_bit 32 (- sint n)" by (simp only: uint_word_of_int_eq) simp
  ultimately show ?thesis by (simp flip: nat_uint_eq)
qed

lemma number_eq:
  assumes "unat base \<in> {2, 8, 10, 16}"
  shows "number str num base width precision flags = fold put_c (number_text num (unat base) width precision flags) str"
proof -
  have b: "base = 2 \<or> base = 8 \<or> base = 10 \<or> base = 16" using assms by (auto simp: word_unat_eq_iff)
  then have sb: "\<not> (sint base < 2 \<or> sint base > 36)" by auto
  define small where "small = has flags SMALL"
  define t where "t = (if has flags LEFT then flags AND NOT ZEROPAD else flags)"
  have t: "has t SIGN = has flags SIGN" "has t PLUS = has flags PLUS" "has t SPACE = has flags SPACE" "has t LEFT = has flags LEFT"
    "has t SPECIAL = has flags SPECIAL" "has t ZEROPAD \<longleftrightarrow> has flags ZEROPAD \<and> \<not> has flags LEFT"
    "has t (ZEROPAD + LEFT) \<longleftrightarrow> has flags ZEROPAD \<or> has flags LEFT"
    by (auto simp: t_def has_bit has_pad clear_zeropad)
  define neg where "neg \<longleftrightarrow> has flags SIGN \<and> sint num < 0"
  define n where "n = (if neg then - num else num)"
  define sign where "sign = (if neg then 0x2D else if has flags PLUS then 0x2B else if has flags SPACE then 0x20 else 0 :: u8)"
  have n: "unat n = (if neg then nat (- sint num) else unat num)" by (simp add: n_def neg_def unat_uminus_neg)
  define body where "body = numeral_text small (unat base) (unat n)"
  have tmp: "rev (if n = 0 then [0x30] else digit_loop (digit_table small) base n) = body"
    using digit_loop_eq [of base small n] assms by (auto simp: body_def numeral_text_def unat_eq_zero)
  then have len: "length (if n = 0 then [0x30] else digit_loop (digit_table small) base n) = length body"
    by (metis length_rev)
  define pl where "pl = (if has flags SPECIAL then (if base = 16 then 2 else if base = 8 then 1 else 0) else 0 :: nat)"
  define P where "P = (if int (length body) > precision then int (length body) else precision)"
  define fill where "fill = width - (if sign \<noteq> 0 then 1 else 0) - int pl - P"
  define zs where "zs = nat precision - length body"
  have zs: "nat (P - int (length body)) = zs" by (auto simp: P_def zs_def)
  have sn: "(if has t SIGN \<and> sint num < 0 then (0x2D, - num)
      else (if has t PLUS then 0x2B else if has t SPACE then 0x20 else 0, num)) = (sign, n)"
    using t by (auto simp: sign_def n_def neg_def)
  have fill: "(let w = (if sign \<noteq> 0 then width - 1 else width)
      in if has t SPECIAL then (if base = 16 then w - 2 else if base = 8 then w - 1 else w) else w) - P = fill"
    using t b by (auto simp: fill_def pl_def)
  define pre where "pre = (if has flags SPECIAL \<and> base = 8 then [0x30]
    else if has flags SPECIAL \<and> base = 16 then [0x30, if small then 0x78 else 0x58] else [] :: u8 list)"
  have pre: "length pre = pl" "(if has t SPECIAL then (if base = 8 then put_c 0x30 s
      else if base = 16 then put_c (digit_table small ! 33) (put_c 0x30 s) else s) else s) = fold put_c pre s" for s
    using t b by (auto simp: pre_def pl_def digit_table_nth digit_chr_def)
  define sg where "sg = (if sign \<noteq> 0 then [sign] else [])"
  have sg: "(if sign \<noteq> 0 then put_c sign s else s) = fold put_c sg s" "int (length sg) = (if sign \<noteq> 0 then 1 else 0)" for s
    by (simp_all add: sg_def)
  have nf: "nat fill = nat width - length (sg @ pre @ replicate zs 0x30 @ body)"
  proof -
    have "int (zs + length body) = P" by (auto simp: P_def zs_def)
    moreover have "fill = width - int (length sg) - int (length pre) - P" using pre(1) sg(2) by (simp add: fill_def)
    ultimately show ?thesis by simp
  qed
  define c where "c = (if has t ZEROPAD then 0x30 else 0x20 :: u8)"
  have "number str num base width precision flags =
      (let (w, s) = (if has t (ZEROPAD + LEFT) then (fill, str) else pad 0x20 fill str);
           s = fold put_c pre (fold put_c sg s);
           (w, s) = (if has t LEFT then (w, s) else pad c w s)
       in snd (pad 0x20 w (fold put_c body (zeros (int (length body)) P s))))"
    unfolding number_def Let_def small_def [symmetric] t_def [symmetric] c_def [symmetric] if_not_P [OF sb] sn
      case_prod_conv len tmp P_def [symmetric] sg(1) pre(2) fill [unfolded Let_def]
    by (simp add: case_prod_beta)
  also have "\<dots> = fold put_c (number_text num (unat base) width precision flags) str"
  proof -
    have sgt: "(if neg then [0x2D] else if has flags PLUS then [0x2B] else if has flags SPACE then [0x20] else []) = sg"
      by (simp add: sg_def sign_def)
    have pret: "(if has flags SPECIAL \<and> unat base = 8 then [0x30]
        else if has flags SPECIAL \<and> unat base = 16 then [0x30, if small then 0x78 else 0x58] else []) = pre"
      by (simp add: pre_def word_unat_eq_iff)
    have lay: "number_text num (unat base) width precision flags =
        (if has flags LEFT then sg @ pre @ (replicate zs 0x30 @ body) @ replicate (nat fill) 0x20
         else if has flags ZEROPAD then sg @ pre @ replicate (nat fill) 0x30 @ replicate zs 0x30 @ body
         else replicate (nat fill) 0x20 @ sg @ pre @ replicate zs 0x30 @ body)"
      unfolding number_text_def Let_def neg_def [symmetric] small_def [symmetric] n [symmetric] body_def [symmetric]
        sgt pret zs_def [symmetric] nf [symmetric] by (rule refl)
    show ?thesis unfolding lay by (simp add: pad_eq zeros_eq zs t c_def)
  qed
  finally show ?thesis .
qed

end
