(* ===== verification/FormatSpec.thy ===== *)
theory FormatSpec
  imports Vsprintf
begin

text \<open>
  The reference for \<open>vsprintf\<close>: \<open>format_text\<close> turns a format and its arguments, as lists, into the text. It knows
  the strings that arguments point to through the map \<open>S\<close>, and has no value for \<open>%n\<close>, missing arguments and
  pointers outside \<open>S\<close>. \<open>vsprintf\<close> writes this text, provided the buffer does not overlap the format and the
  strings; so it also terminates on every format of this kind.
\<close>

section \<open>The reference\<close>

definition first_chr :: "u8 list \<Rightarrow> u8" where
  "first_chr fs = (case fs of [] \<Rightarrow> 0 | c # _ \<Rightarrow> c)"

lemma first_chr_simps [simp]: "first_chr [] = 0" "first_chr (c # fs) = c"
  by (simp_all add: first_chr_def)

fun text_flags :: "u8 list \<Rightarrow> u32 \<Rightarrow> u32 \<times> u8 list" where
  "text_flags [] flags = (flags, [])"
| "text_flags (c # fs) flags =
    (if c = 0x2D then text_flags fs (flags OR LEFT)
     else if c = 0x2B then text_flags fs (flags OR PLUS)
     else if c = 0x20 then text_flags fs (flags OR SPACE)
     else if c = 0x23 then text_flags fs (flags OR SPECIAL)
     else if c = 0x30 then text_flags fs (flags OR ZEROPAD)
     else (flags, c # fs))"

fun text_atoi :: "u8 list \<Rightarrow> int \<Rightarrow> int \<times> u8 list" where
  "text_atoi [] i = (i, [])"
| "text_atoi (c # fs) i = (if is_digit c then text_atoi fs (i * 10 + int (unat c) - 48) else (i, c # fs))"

definition text_width :: "u8 list \<Rightarrow> u32 list \<Rightarrow> u32 \<Rightarrow> (int \<times> u8 list \<times> u32 list \<times> u32) option" where
  "text_width fs args flags =
    (if is_digit (first_chr fs) then (let (w, fs) = text_atoi fs 0 in Some (w, fs, args, flags))
     else if first_chr fs = 0x2A
     then (case args of [] \<Rightarrow> None
           | a # args \<Rightarrow> if sint a < 0 then Some (- sint a, fs, args, flags OR LEFT) else Some (sint a, fs, args, flags))
     else Some (-1, fs, args, flags))"

definition text_precision :: "u8 list \<Rightarrow> u32 list \<Rightarrow> (int \<times> u8 list \<times> u32 list) option" where
  "text_precision fs args =
    (if first_chr fs = 0x2E
     then (let fs = tl fs
           in if is_digit (first_chr fs) then (let (p, fs) = text_atoi fs 0 in Some (max p 0, fs, args))
              else if first_chr fs = 0x2A then (case args of [] \<Rightarrow> None | a # args \<Rightarrow> Some (max (sint a) 0, fs, args))
              else Some (0, fs, args))
     else Some (-1, fs, args))"

definition text_qualifier :: "u8 list \<Rightarrow> u8 list" where
  "text_qualifier fs = (if first_chr fs \<in> {0x68, 0x6C, 0x4C} then tl fs else fs)"

definition char_text :: "u32 \<Rightarrow> int \<Rightarrow> u32 \<Rightarrow> u8 list" where
  "char_text flags w a =
    (if has flags LEFT then ucast a # replicate (nat (w - 1)) 0x20 else replicate (nat (w - 1)) 0x20 @ [ucast a])"

definition string_text :: "u32 \<Rightarrow> int \<Rightarrow> int \<Rightarrow> u8 list \<Rightarrow> u8 list" where
  "string_text flags w p bs =
    (let bs = (if p < 0 then bs else take (nat p) bs); fill = replicate (nat w - length bs) 0x20
     in if has flags LEFT then bs @ fill else fill @ bs)"

text \<open>The text of a conversion, and the arguments that are left.\<close>

definition conv_text :: "(u32 \<Rightarrow> u8 list option) \<Rightarrow> u8 \<Rightarrow> u32 \<Rightarrow> int \<Rightarrow> int \<Rightarrow> u32 list \<Rightarrow> (u8 list \<times> u32 list) option" where
  "conv_text S c flags w p args =
    (if c \<notin> {0x63, 0x73, 0x6F, 0x70, 0x78, 0x58, 0x64, 0x69, 0x75, 0x62, 0x6E}
     then Some ((if c \<noteq> 0x25 then [0x25] else []) @ (if c \<noteq> 0 then [c] else []), args)
     else case args of [] \<Rightarrow> None
     | a # args \<Rightarrow>
         if c = 0x63 then Some (char_text flags w a, args)
         else if c = 0x73 then map_option (\<lambda>bs. (string_text flags w p bs, args)) (S a)
         else if c = 0x6F then Some (number_text a 8 w p flags, args)
         else if c = 0x70 then Some (if w = -1 then number_text a 16 8 p (flags OR ZEROPAD) else number_text a 16 w p flags, args)
         else if c = 0x78 then Some (number_text a 16 w p (flags OR SMALL), args)
         else if c = 0x58 then Some (number_text a 16 w p flags, args)
         else if c = 0x64 \<or> c = 0x69 then Some (number_text a 10 w p (flags OR SIGN), args)
         else if c = 0x75 then Some (number_text a 10 w p flags, args)
         else if c = 0x62 then Some (number_text a 2 w p flags, args)
         else None)"

definition directive_text :: "(u32 \<Rightarrow> u8 list option) \<Rightarrow> u8 list \<Rightarrow> u32 list \<Rightarrow> (u8 list \<times> u8 list \<times> u32 list) option" where
  "directive_text S fs args =
    (let (flags, fs) = text_flags fs 0
     in case text_width fs args flags of None \<Rightarrow> None
        | Some (w, fs, args, flags) \<Rightarrow>
            (case text_precision fs args of None \<Rightarrow> None
             | Some (p, fs, args) \<Rightarrow>
                 (let fs = text_qualifier fs
                  in map_option (\<lambda>(bs, args). (bs, tl fs, args)) (conv_text S (first_chr fs) flags w p args))))"

lemma length_text_flags: "length (snd (text_flags fs flags)) \<le> length fs"
  by (induction fs flags rule: text_flags.induct) auto

lemma length_text_atoi: "length (snd (text_atoi fs i)) \<le> length fs"
  by (induction fs i rule: text_atoi.induct) auto

lemma length_text_width: "text_width fs args flags = Some (w, fs', r) \<Longrightarrow> length fs' \<le> length fs"
  using length_text_atoi [of fs 0] by (auto simp: text_width_def split: if_splits prod.splits list.splits)

lemma length_text_precision: "text_precision fs args = Some (p, fs', r) \<Longrightarrow> length fs' \<le> length fs"
  using length_text_atoi [of "tl fs" 0] by (auto simp: text_precision_def Let_def split: if_splits prod.splits list.splits)

lemma length_directive_text: "directive_text S fs args = Some (bs, fs', args') \<Longrightarrow> length fs' \<le> length fs"
proof -
  assume "directive_text S fs args = Some (bs, fs', args')"
  then obtain flags f1 w f2 a2 fl2 p f3 a3 where
    "text_flags fs 0 = (flags, f1)" "text_width f1 args flags = Some (w, f2, a2, fl2)" "text_precision f2 a2 = Some (p, f3, a3)"
    "fs' = tl (text_qualifier f3)"
    by (auto simp: directive_text_def Let_def split: prod.splits option.splits)
  then show ?thesis
    using length_text_flags [of fs 0] length_text_width [of f1 args flags] length_text_precision [of f2 a2]
    by (auto simp: text_qualifier_def)
qed

function format_text :: "(u32 \<Rightarrow> u8 list option) \<Rightarrow> u8 list \<Rightarrow> u32 list \<Rightarrow> u8 list option" where
  "format_text S [] args = Some []"
| "format_text S (c # fs) args =
    (if c \<noteq> 0x25 then map_option ((#) c) (format_text S fs args)
     else case directive_text S fs args of None \<Rightarrow> None
       | Some (bs, fs', args') \<Rightarrow> map_option ((@) bs) (format_text S fs' args'))"
  by pat_completeness auto
termination
  by (relation "measure (\<lambda>(S, fs, args). length fs)") (auto simp: le_imp_less_Suc dest: length_directive_text)

section \<open>Text in memory\<close>

text \<open>\<open>text_at B m p fs\<close>: the string \<open>fs\<close> with its NUL stands at \<open>p\<close>, outside the addresses \<open>B\<close> of the buffer.\<close>

primrec text_at :: "u32 set \<Rightarrow> cells \<Rightarrow> u32 \<Rightarrow> u8 list \<Rightarrow> bool" where
  "text_at B m p [] \<longleftrightarrow> p \<notin> B \<and> load8 m p = 0"
| "text_at B m p (c # fs) \<longleftrightarrow> p \<notin> B \<and> c \<noteq> 0 \<and> load8 m p = c \<and> text_at B m (p + 1) fs"

lemma text_at_first: "text_at B m p fs \<Longrightarrow> load8 m p = first_chr fs"
  by (cases fs) auto

lemma text_at_tl: "text_at B m p fs \<Longrightarrow> fs \<noteq> [] \<Longrightarrow> text_at B m (p + 1) (tl fs)"
  by (cases fs) auto

lemma text_at_cong: "(\<And>a. a \<notin> B \<Longrightarrow> load8 m' a = load8 m a) \<Longrightarrow> text_at B m p fs \<Longrightarrow> text_at B m' p fs"
  by (induction fs arbitrary: p) auto

lemma text_at_cstr: "text_at B m p fs \<Longrightarrow> cstr m p fs"
  by (induction fs arbitrary: p) auto

lemma text_flags_at:
  "text_at B m (p + 1) fs \<Longrightarrow> \<exists>p'. read_flags m p flags = Some (fst (text_flags fs flags), p') \<and> text_at B m p' (snd (text_flags fs flags))"
proof (induction fs flags arbitrary: p rule: text_flags.induct)
  case (1 flags)
  then show ?case by (subst read_flags.simps) simp
next
  case (2 c fs flags)
  then show ?case by (subst read_flags.simps) (auto simp: Let_def)
qed

lemma text_atoi_at:
  "text_at B m p fs \<Longrightarrow> \<exists>p'. skip_atoi m p i = Some (fst (text_atoi fs i), p') \<and> text_at B m p' (snd (text_atoi fs i))"
proof (induction fs i arbitrary: p rule: text_atoi.induct)
  case (1 i)
  then show ?case by (subst skip_atoi.simps) (simp add: is_digit_def)
next
  case (2 c fs i)
  then show ?case by (subst skip_atoi.simps) auto
qed

lemma text_width_at:
  assumes "text_at B m p fs" and "text_width fs args flags = Some (w, fs', args', flags')"
  shows "\<exists>p'. read_width m p args flags = ret (w, p', args', flags') \<and> text_at B m p' fs'"
  using assms text_atoi_at [OF assms(1), of 0] text_at_first [OF assms(1)]
  by (auto simp: text_width_def read_width_def va_arg_def split: if_splits prod.splits list.splits)

lemma text_precision_at:
  assumes "text_at B m p fs" and "text_precision fs args = Some (pr, fs', args')"
  shows "\<exists>p'. read_precision m p args = ret (pr, p', args') \<and> text_at B m p' fs'"
proof (cases "first_chr fs = 0x2E")
  case True
  then have t: "text_at B m (p + 1) (tl fs)" using assms(1) by (cases fs) auto
  show ?thesis
    using assms(2) True text_atoi_at [OF t, of 0] text_at_first [OF t] text_at_first [OF assms(1)] t
    by (auto simp: text_precision_def read_precision_def va_arg_def Let_def max_def split: if_splits prod.splits list.splits)
qed (use assms text_at_first [OF assms(1)] in \<open>auto simp: text_precision_def read_precision_def\<close>)

lemma text_qualifier_at:
  assumes "text_at B m p fs"
  shows "text_at B m (skip_qualifier m p) (text_qualifier fs)"
  using assms text_at_first [OF assms] by (cases fs) (auto simp: skip_qualifier_def text_qualifier_def)

section \<open>Writing the text\<close>

definition room :: "u32 set \<Rightarrow> u32 \<Rightarrow> nat \<Rightarrow> bool" where
  "room B p n \<longleftrightarrow> (\<forall>j < n. p + of_nat j \<in> B)"

lemma room_0 [simp]: "room B p 0"
  by (simp add: room_def)

lemma room_le: "room B p n \<Longrightarrow> k \<le> n \<Longrightarrow> room B p k"
  by (simp add: room_def)

lemma room_rest: "room B p (n + k) \<Longrightarrow> room B (p + of_nat n) k"
  unfolding room_def by (metis add.assoc add_less_cancel_left of_nat_add)

lemma room_Suc: "room B p (Suc n) \<longleftrightarrow> p \<in> B \<and> room B (p + 1) n"
  unfolding room_def by (auto simp: less_Suc_eq_0_disj add.assoc)

lemma put_all_snd [simp]: "snd (fold put_c cs str) = snd str + of_nat (length cs)"
  by (induction cs arbitrary: str) (simp_all add: put_c_def add.assoc)

lemma put_all_frame: "room B (snd str) (length cs) \<Longrightarrow> a \<notin> B \<Longrightarrow> load8 (fst (fold put_c cs str)) a = load8 (fst str) a"
proof (induction cs arbitrary: str)
  case (Cons c cs)
  then have "snd str \<noteq> a" by (auto simp: room_Suc)
  then show ?case using Cons by (simp add: room_Suc put_c_def load8_store8)
qed simp

lemma text_at_put_all:
  "text_at B (fst str) p fs \<Longrightarrow> room B (snd str) (length cs) \<Longrightarrow> text_at B (fst (fold put_c cs str)) p fs"
  by (rule text_at_cong [OF put_all_frame])

lemma copy_string_at:
  assumes "text_at B (fst str) s bs" and "n \<le> length bs" and "room B (snd str) n"
  shows "copy_string i (i + int n) s str = fold put_c (take n bs) str"
  using assms
proof (induction n arbitrary: bs s str i)
  case 0
  then show ?case by (simp add: copy_string.simps)
next
  case (Suc n)
  then obtain c bs' where bs: "bs = c # bs'" by (cases bs) auto
  have "load8 (fst str) s = c" using Suc.prems(1) bs by simp
  moreover have "text_at B (fst (put_c c str)) (s + 1) bs'"
    using text_at_put_all [of B str "s + 1" bs' "[c]"] Suc.prems(1,3) bs by (simp add: room_Suc)
  then have "copy_string (i + 1) (i + 1 + int n) (s + 1) (put_c c str) = fold put_c (take n bs') (put_c c str)"
    using Suc.prems(2,3) bs by (intro Suc.IH) (simp_all add: room_Suc put_c_def)
  ultimately show ?case by (subst copy_string.simps) (simp add: bs add.assoc)
qed

lemma conv_c_eq: "conv_c flags w a str = fold put_c (char_text flags w a) str"
  by (auto simp: conv_c_def char_text_def pad_char_eq Let_def)

lemma conv_s_eq:
  assumes s: "text_at B (fst str) a bs" and len: "length bs < 2 ^ 31" and room: "room B (snd str) (length (string_text flags w p bs))"
  shows "conv_s flags w p a str = Some (fold put_c (string_text flags w p bs) str)"
proof -
  define n where "n = (if p < 0 then length bs else min (nat p) (length bs))"
  define fill where "fill = replicate (nat w - n) (0x20 :: u8)"
  have lay: "string_text flags w p bs = (if has flags LEFT then take n bs @ fill else fill @ take n bs)" "n \<le> length bs"
    by (auto simp: string_text_def n_def fill_def Let_def min_def)
  have "sint (of_nat (length bs) :: u32) = int (length bs)" using len by (simp add: signed_of_nat signed_take_bit_int_eq_self) 
  then have n: "(let l = sint (of_nat (length bs) :: u32) in if p < 0 then l else if l > p then p else l) = int n"
    by (auto simp: n_def Let_def)
  have "replicate (nat (w - int n)) 0x20 = fill" by (simp add: fill_def nat_diff_distrib')
  then have f: "pad_string (int n) w s = (min w (int n) - 1, fold put_c fill s)" for s by (simp only: pad_string_eq)
  have f2: "snd (pad_string (int n) (min w (int n) - 1) s) = s" for s by (simp add: pad_string_eq)
  show ?thesis
  proof (cases "has flags LEFT")
    case True
    have "room B (snd str) n" using room lay True by (auto intro: room_le)
    then have "copy_string 0 (int n) a str = fold put_c (take n bs) str" using copy_string_at [OF s lay(2), of 0] by simp
    then show ?thesis
      using strlen_correct [OF text_at_cstr [OF s]] n True lay(1) by (simp add: conv_s_def Let_def f f2)
  next
    case False
    have "room B (snd str) (length fill + n)" using room lay False by simp
    moreover from this have "room B (snd str) (length fill)" by (rule room_le) simp
    ultimately have "text_at B (fst (fold put_c fill str)) a bs" "room B (snd (fold put_c fill str)) n"
      using text_at_put_all [OF s] room_rest [of B "snd str" "length fill" n] by simp_all
    then have "copy_string 0 (int n) a (fold put_c fill str) = fold put_c (take n bs) (fold put_c fill str)"
      using copy_string_at [OF _ lay(2), of B "fold put_c fill str" a 0] by simp
    then show ?thesis
      using strlen_correct [OF text_at_cstr [OF s]] n False lay(1) by (simp add: conv_s_def Let_def f f2)
  qed
qed

text \<open>Every string that \<open>S\<close> knows stands in memory, outside the buffer, and its length is a C \<open>int\<close>.\<close>

definition strings_at :: "(u32 \<Rightarrow> u8 list option) \<Rightarrow> u32 set \<Rightarrow> cells \<Rightarrow> bool" where
  "strings_at S B m \<longleftrightarrow> (\<forall>a bs. S a = Some bs \<longrightarrow> text_at B m a bs \<and> length bs < 2 ^ 31)"

lemma strings_at_put_all:
  "strings_at S B (fst str) \<Longrightarrow> room B (snd str) (length cs) \<Longrightarrow> strings_at S B (fst (fold put_c cs str))"
  unfolding strings_at_def using text_at_put_all by blast

lemma conv_text_at:
  assumes t: "text_at B (fst str) p fs" and S: "strings_at S B (fst str)"
    and conv: "conv_text S (first_chr fs) flags w pr args = Some (bs, args')" and room: "room B (snd str) (length bs)"
  shows "\<exists>p'. convert buf flags w pr p args str = ret (p', args', fold put_c bs str) \<and>
    text_at B (fst (fold put_c bs str)) (p' + 1) (tl fs)"
proof -
  define c where "c = first_chr fs"
  have c: "load8 (fst str) p = c" using text_at_first [OF t] by (simp add: c_def)
  have t': "text_at B (fst (fold put_c bs str)) p fs" by (rule text_at_put_all [OF t room])
  have next_at: "text_at B (fst (fold put_c bs str)) (p + 1) (tl fs)" if "c \<noteq> 0"
    using text_at_tl [OF t'] that by (cases fs) (auto simp: c_def)
  have n: "number str a 8 wi pp fl = fold put_c (number_text a 8 wi pp fl) str"
    "number str a 16 wi pp fl = fold put_c (number_text a 16 wi pp fl) str"
    "number str a 10 wi pp fl = fold put_c (number_text a 10 wi pp fl) str"
    "number str a 2 wi pp fl = fold put_c (number_text a 2 wi pp fl) str" for a wi pp fl
    by (simp_all add: number_eq)
  show ?thesis
  proof (cases "c \<in> {0x63, 0x73, 0x6F, 0x70, 0x78, 0x58, 0x64, 0x69, 0x75, 0x62, 0x6E}")
    case False
    show ?thesis
    proof (cases "c = 0")
      case True
      then have "fs = []" using t by (cases fs) (auto simp: c_def)
      then show ?thesis using conv c True t' by (auto simp: conv_text_def convert_def Let_def c_def [symmetric])
    next
      case nz: False
      then have "convert buf flags w pr p args str = ret (p, args', fold put_c bs str)"
        using conv c False by (auto simp: conv_text_def convert_def Let_def c_def [symmetric])
      then show ?thesis using next_at [OF nz] by blast
    qed
  next
    case True
    then have nz: "c \<noteq> 0" by auto
    obtain a as where args: "args = a # as" using conv True by (auto simp: conv_text_def c_def [symmetric] split: list.splits)
    have "convert buf flags w pr p args str = ret (p, args', fold put_c bs str)"
    proof (cases "c = 0x73")
      case True
      then obtain s where s: "S a = Some s" "bs = string_text flags w pr s" "args' = as"
        using conv by (auto simp: conv_text_def c_def [symmetric] args)
      then have "conv_s flags w pr a str = Some (fold put_c bs str)"
        using S room conv_s_eq [of B str a s flags w pr] by (auto simp: strings_at_def)
      then show ?thesis using c True s(3) by (simp add: convert_def Let_def args va_arg_def)
    next
      case False
      then show ?thesis
        using conv c True by (auto simp: conv_text_def convert_def Let_def c_def [symmetric] args va_arg_def n conv_c_eq split: if_splits)
    qed
    then show ?thesis using next_at [OF nz] by blast
  qed
qed

lemma directive_text_at:
  assumes t: "text_at B (fst str) (p + 1) fs" and S: "strings_at S B (fst str)"
    and dir: "directive_text S fs args = Some (bs, fs', args')" and room: "room B (snd str) (length bs)"
  shows "\<exists>p'. directive buf p args str = ret (p', args', fold put_c bs str) \<and> text_at B (fst (fold put_c bs str)) (p' + 1) fs'"
proof -
  obtain flags f1 w f2 a2 fl2 pr f3 a3 where
    p: "text_flags fs 0 = (flags, f1)" "text_width f1 args flags = Some (w, f2, a2, fl2)" "text_precision f2 a2 = Some (pr, f3, a3)"
    "conv_text S (first_chr (text_qualifier f3)) fl2 w pr a3 = Some (bs, args')" "fs' = tl (text_qualifier f3)"
    using dir by (auto simp: directive_text_def Let_def split: prod.splits option.splits)
  obtain p1 where p1: "read_flags (fst str) p 0 = Some (flags, p1)" "text_at B (fst str) p1 f1"
    using text_flags_at [OF t, of 0] p(1) by auto
  obtain p2 where p2: "read_width (fst str) p1 args flags = ret (w, p2, a2, fl2)" "text_at B (fst str) p2 f2"
    using text_width_at [OF p1(2) p(2)] by blast
  obtain p3 where p3: "read_precision (fst str) p2 a2 = ret (pr, p3, a3)" "text_at B (fst str) p3 f3"
    using text_precision_at [OF p2(2) p(3)] by blast
  show ?thesis
    using conv_text_at [OF text_qualifier_at [OF p3(2)] S p(4) room, of buf] p1(1) p2(1) p3(1) p(5)
    by (simp add: directive_def)
qed

lemma format_loop_text:
  assumes "format_text S fs args = Some bs" and "text_at B (fst str) p fs" and "strings_at S B (fst str)"
    and "room B (snd str) (length bs)"
  shows "format_loop buf p args str = ret (fold put_c bs str)"
  using assms
proof (induction S fs args arbitrary: bs str p rule: format_text.induct)
  case (1 S args)
  then show ?case by (subst format_loop.simps) simp
next
  case (2 S c fs args)
  have c: "load8 (fst str) p = c" "c \<noteq> 0" "text_at B (fst str) (p + 1) fs" using "2.prems"(2) by simp_all
  show ?case
  proof (cases "c = 0x25")
    case False
    then obtain cs where cs: "format_text S fs args = Some cs" "bs = c # cs" using "2.prems"(1) by auto
    have room: "room B (snd str) (length [c])" "room B (snd (put_c c str)) (length cs)"
      using "2.prems"(4) by (simp_all add: cs room_Suc put_c_def)
    have "format_loop buf (p + 1) args (put_c c str) = ret (fold put_c cs (put_c c str))"
      using text_at_put_all [OF c(3) room(1)] strings_at_put_all [OF "2.prems"(3) room(1)] room(2)
      by (intro "2.IH"(1) [OF False cs(1)]) simp_all
    then show ?thesis using c False by (subst format_loop.simps) (simp add: cs)
  next
    case True
    then obtain b fs' args' cs where d: "directive_text S fs args = Some (b, fs', args')" "format_text S fs' args' = Some cs"
      "bs = b @ cs" using "2.prems"(1) by (auto split: option.splits)
    have room: "room B (snd str) (length b)" "room B (snd (fold put_c b str)) (length cs)"
      using "2.prems"(4) room_rest [of B "snd str" "length b" "length cs"] by (simp_all add: d(3) room_le)
    obtain p' where p': "directive buf p args str = ret (p', args', fold put_c b str)" "text_at B (fst (fold put_c b str)) (p' + 1) fs'"
      using directive_text_at [OF c(3) "2.prems"(3) d(1) room(1)] by blast
    have "format_loop buf (p' + 1) args' (fold put_c b str) = ret (fold put_c cs (fold put_c b str))"
      using True strings_at_put_all [OF "2.prems"(3) room(1)]
      by (intro "2.IH"(2) [OF _ d(1) refl refl d(2) p'(2) _ room(2)]) simp_all
    then show ?thesis using c True p'(1) by (subst format_loop.simps) (simp add: d(3))
  qed
qed

lemma fold_put_c: "fold put_c cs (m, p) = (write_seq store8 m p cs, p + of_nat (length cs))"
  by (induction cs arbitrary: m p) (simp_all add: put_c_def add.assoc)

text \<open>The whole text with its NUL.\<close>

lemma vsprintf_text:
  assumes "format_text S fs args = Some bs" and "text_at B m fmt fs" and "strings_at S B m" and "room B buf (length bs)"
  shows "vsprintf buf fmt args m = ret (of_nat (length bs), write_seq store8 m buf (bs @ [0]))"
  using format_loop_text [OF assms(1), of B "(m, buf)" fmt buf] assms(2-4)
  by (simp add: vsprintf_def fold_put_c write_seq_snoc)

lemma cstr_write_seq:
  assumes "length bs < 2 ^ 32" and "0 \<notin> set bs"
  shows "cstr (write_seq store8 m buf (bs @ [0])) buf bs"
proof -
  have at: "load8 (write_seq store8 m buf (bs @ [0])) (buf + of_nat j) = (bs @ [0]) ! j" if "j \<le> length bs" for j
  proof -
    have "unat (buf + of_nat j - buf) = j" using that assms(1) by (simp add: unat_of_nat)
    then show ?thesis using that assms(1) by (simp add: cells.ld_write_seq)
  qed
  have "cstr M p cs" if "\<And>j. j \<le> length cs \<Longrightarrow> load8 M (p + of_nat j) = (cs @ [0]) ! j" "0 \<notin> set cs" for M p cs
    using that
  proof (induction cs arbitrary: p)
    case Nil
    from Nil(1) [of 0] show ?case by simp
  next
    case (Cons c cs)
    have "load8 M (p + 1 + of_nat j) = (cs @ [0]) ! j" if "j \<le> length cs" for j
      using Cons.prems(1) [of "Suc j"] that by (simp add: add.assoc)
    then show ?case using Cons.IH [of "p + 1"] Cons.prems(1) [of 0] Cons.prems(2) by simp
  qed
  then show ?thesis using at assms(2) by blast
qed

lemma number_text_length:
  assumes "length (numeral_text (has flags SMALL) b (if has flags SIGN \<and> sint num < 0 then nat (- sint num) else unat num)) \<le> 32"
  shows "nat width \<le> length (number_text num b width precision flags) \<and>
    length (number_text num b width precision flags) \<le> max (nat width) (3 + max (nat precision) 32)"
proof -
  define body where "body = numeral_text (has flags SMALL) b (if has flags SIGN \<and> sint num < 0 then nat (- sint num) else unat num)"
  define sign where "sign = (if has flags SIGN \<and> sint num < 0 then [0x2D] else if has flags PLUS then [0x2B]
    else if has flags SPACE then [0x20] else [] :: u8 list)"
  define pre where "pre = (if has flags SPECIAL \<and> b = 8 then [0x30]
    else if has flags SPECIAL \<and> b = 16 then [0x30, if has flags SMALL then 0x78 else 0x58] else [] :: u8 list)"
  have l: "length body \<le> 32" "length sign \<le> 1" "length pre \<le> 2" using assms by (simp_all add: body_def sign_def pre_def)
  have "length (number_text num b width precision flags) =
      max (nat width) (length sign + (length pre + (nat precision - length body + length body)))"
    unfolding number_text_def Let_def body_def [symmetric] sign_def [symmetric] pre_def [symmetric]
    by (cases "has flags LEFT"; cases "has flags ZEROPAD") (simp_all, arith+)
  moreover have "nat precision - length body + length body \<le> max (nat precision) 32" using l(1) by auto
  then have "length sign + (length pre + (nat precision - length body + length body)) \<le> 3 + max (nat precision) 32"
    using l(2,3) by linarith
  ultimately show ?thesis by (simp add: max.coboundedI2)
qed

section \<open>Properties\<close>

text \<open>C33. The layout of a number: \<open>number\<close> writes \<open>number_text\<close>, sign, prefix, zeros and digits in a field; the
  digits read back as the magnitude, and the text is as long as the field, or longer only for the number's sake.\<close>

theorem number_layout:
  assumes "unat base \<in> {2, 8, 10, 16}"
  shows "number str num base width precision flags = fold put_c (number_text num (unat base) width precision flags) str \<and>
    text_value (unat base) (numeral_text small (unat base) n) = n \<and>
    nat width \<le> length (number_text num (unat base) width precision flags) \<and>
    length (number_text num (unat base) width precision flags) \<le> max (nat width) (3 + max (nat precision) 32)"
proof -
  let ?neg = "has flags SIGN \<and> sint num < 0"
  let ?body = "numeral_text (has flags SMALL) (unat base) (if ?neg then nat (- sint num) else unat num)"
  have b: "2 \<le> unat base" "unat base \<le> 36" using assms by auto
  have n: "(if ?neg then nat (- sint num) else unat num) < 2 ^ 32"
    using unat_uminus_neg [of num] unat_lt_32 [of "- num"] unat_lt_32 [of num] by auto
  have "(2 :: nat) ^ 32 \<le> unat base ^ 32" using b(1) by (rule power_mono) simp
  then have "length (digits_rev (has flags SMALL) (unat base) (if ?neg then nat (- sint num) else unat num)) \<le> 32"
    using n by (intro length_digits_rev [OF b(1)]) simp
  then have body: "length ?body \<le> 32" by (simp add: numeral_text_def)
  have "nat width \<le> length (number_text num (unat base) width precision flags) \<and>
    length (number_text num (unat base) width precision flags) \<le> max (nat width) (3 + max (nat precision) 32)"
    using number_text_length [OF body] .
  then show ?thesis using number_eq [OF assms, of str num width precision flags] text_value_numeral [OF b] by simp
qed

theorem number_layout_witness:
  "number (\<lambda>a. 0, 0x5000) 0xFFFFFFF6 10 5 (-1) SIGN = fold put_c [0x20, 0x20, 0x2D, 0x31, 0x30] (\<lambda>a. 0, 0x5000)"
proof -
  have "replicate 2 x = [x, x]" for x :: u8 by (simp add: numeral_2_eq_2)
  then have "number_text 0xFFFFFFF6 10 5 (-1) SIGN = [0x20, 0x20, 0x2D, 0x31, 0x30]"
    by (simp add: number_text_def flag_defs numeral_text_def digits_rev_step digit_chr_def Let_def)
  then show ?thesis using number_layout [of 10 "(\<lambda>a. 0, 0x5000)" "0xFFFFFFF6" 5 "-1" SIGN] by simp
qed

text \<open>C34. \<open>vsprintf\<close> implements \<open>format_text\<close>: for a format that has a text, with the format and the strings outside
  the buffer, it returns the length of the text and leaves the text with a NUL in the buffer, and nothing else.\<close>

theorem vsprintf_refines:
  assumes "format_text S fs args = Some bs" and "text_at B m fmt fs" and "strings_at S B m" and "room B buf (length bs)"
  shows "vsprintf buf fmt args m = ret (of_nat (length bs), write_seq store8 m buf (bs @ [0]))"
  using assms by (rule vsprintf_text)

theorem vsprintf_refines_witness:
  "vsprintf 0x5000 0x6000 [255] ((\<lambda>a. 0)(0x6000 := 0x58343025)) =
    ret (4, write_seq store8 ((\<lambda>a. 0)(0x6000 := 0x58343025)) 0x5000 [0x30, 0x30, 0x46, 0x46, 0])"
proof -
  let ?m = "(\<lambda>a. 0)(0x6000 := 0x58343025) :: cells" and ?B = "{0x5000, 0x5001, 0x5002, 0x5003} :: u32 set"
  have f: "text_at ?B ?m 0x6000 [0x25, 0x30, 0x34, 0x58]" by (simp add: load8_def cell_of_def lane_def drop_bit_eq_div)
  have "replicate 2 x = [x, x]" for x :: u8 by (simp add: numeral_2_eq_2)
  then have n: "number_text 255 16 4 (-1) 1 = [0x30, 0x30, 0x46, 0x46]"
    by (simp add: number_text_def flag_defs numeral_text_def digits_rev_step digit_chr_def Let_def)
  have t: "format_text (\<lambda>a. None) [0x25, 0x30, 0x34, 0x58] [255] = Some [0x30, 0x30, 0x46, 0x46]"
    by (simp add: directive_text_def text_width_def text_precision_def text_qualifier_def conv_text_def is_digit_def ZEROPAD_def n Let_def)
  have "room ?B 0x5000 (length [0x30, 0x30, 0x46, 0x46 :: u8])" by (simp add: room_Suc eval_nat_numeral)
  then show ?thesis using vsprintf_refines [OF t f] by (simp add: strings_at_def)
qed

lemma star_text:
  "format_text S [0x25, 0x2A, 0x64] (w # args) = Some [0x25, 0x2A, 0x64] \<and>
   format_text S [0x25, 0x2E, 0x2A, 0x64] (w # args) = Some [0x25, 0x2A, 0x64]"
  by (simp add: directive_text_def text_width_def text_precision_def text_qualifier_def conv_text_def is_digit_def Let_def)

text \<open>A width or precision given as \<open>*\<close> takes an argument, but the star stays in the format: it is then the
  conversion character, so that \<open>%*d\<close> and \<open>%.*d\<close> print a star and the letter, and no number.\<close>

lemma star_width_printed:
  assumes "text_at B m fmt fs" and "fs \<in> {[0x25, 0x2A, 0x64], [0x25, 0x2E, 0x2A, 0x64]}" and "room B buf 3"
  shows "vsprintf buf fmt (w # num # args) m = ret (3, write_seq store8 m buf [0x25, 0x2A, 0x64, 0])"
proof -
  have "format_text (\<lambda>a. None) fs (w # num # args) = Some [0x25, 0x2A, 0x64]"
    using assms(2) star_text [of "\<lambda>a. None" w "num # args"] by auto
  moreover have "room B buf (length [0x25, 0x2A, 0x64 :: u8])" using assms(3) by (simp add: eval_nat_numeral)
  ultimately show ?thesis using vsprintf_text [of "\<lambda>a. None" fs _ _ B m fmt buf] assms(1) by (simp add: strings_at_def)
qed

end
