(* ===== verification/Kprintf.thy ===== *)
theory Kprintf
  imports Monitor FormatSpec
begin

text \<open>
  kprintf.c and panic.c, and the reports that print with them: the heap traversal of kmalloc.c and the fault
  handlers of mm.c. The linker places the static buffer of \<open>kprintf\<close> (\<open>kbuf\<close>, 1024 bytes) and the string literals;
  \<open>lit\<close> gives the address of a literal. \<open>panic\<close> is modelled up to its halt, with interrupts off, after which nothing
  runs; where other components stop in \<open>panic\<close>, their outcome is \<open>Panic\<close> with the message.

  A \<open>registers_t\<close>, the frame that the interrupt stubs of idt_s.asm push, is sixteen cells of memory.
\<close>

section \<open>Printing\<close>

definition bytes :: "string \<Rightarrow> u8 list" where
  "bytes cs = map (\<lambda>c. of_nat (of_char c)) cs"

type_synonym literals = "string \<Rightarrow> u32"

definition sprintf :: "u32 \<Rightarrow> u32 \<Rightarrow> u32 list \<Rightarrow> 'a machine_scheme \<Rightarrow> 'a machine_scheme outcome" where
  "sprintf buf fmt args s =
    bnd (vsprintf buf fmt args (mem s)) (\<lambda>(i, m). ret (s\<lparr>mem := store8 m (buf + i) 0\<rparr>))"

definition kprintf :: "u32 \<Rightarrow> u32 \<Rightarrow> u32 list \<Rightarrow> 'a monitor_state_scheme \<Rightarrow> 'a monitor_state_scheme outcome" where
  "kprintf kbuf fmt args s =
    bnd (vsprintf kbuf fmt args (mem s)) (\<lambda>(i, m).
      Option.bind (monitor_write kbuf (s\<lparr>mem := store8 m (kbuf + i) 0\<rparr>)) ret)"

definition NL :: string where
  "NL = [CHR 0x0A]"

definition panic :: "literals \<Rightarrow> u32 \<Rightarrow> u32 \<Rightarrow> 'a monitor_state_scheme \<Rightarrow> 'a monitor_state_scheme outcome" where
  "panic lit kbuf msg s =
    bnd (kprintf kbuf (lit (NL @ ''-----------------------'' @ NL @ ''Sorry, a system error ocurred: %s'' @ NL)) [msg] s)
      (\<lambda>s. ret (disable s))"

section \<open>The heap traversal\<close>

partial_function (option) traverse_loop ::
  "literals \<Rightarrow> u32 \<Rightarrow> u32 \<Rightarrow> u32 \<Rightarrow> 'a monitor_state_scheme \<Rightarrow> 'a monitor_state_scheme outcome" where
  "traverse_loop lit kbuf i chunk s =
    (if chunk \<noteq> 0
     then bnd (kprintf kbuf (lit (''%3d   0x%08X %8d     0x%08X. '' @ NL))
                 [i, chunk, chunk_size (mem s) chunk, chunk_magic (mem s) chunk] s)
            (\<lambda>s. traverse_loop lit kbuf (i + 1) (get_next (mem s) chunk) s)
     else ret s)"

definition kheap_traverse :: "literals \<Rightarrow> u32 \<Rightarrow> u32 \<Rightarrow> 'a monitor_state_scheme \<Rightarrow> 'a monitor_state_scheme outcome" where
  "kheap_traverse lit kbuf hp s =
    (let chunk = get_head (mem s) hp
     in if chunk = 0 then kprintf kbuf (lit (''Heap is empty!'' @ NL @ NL)) [] s
        else bnd (kprintf kbuf (lit (NL @ ''---- Kernel Heap Traversal ---- '' @ NL)) [] s) (\<lambda>s.
             bnd (kprintf kbuf (lit ('' No     ADDR         SIZE     MAGIC '' @ NL)) [] s) (\<lambda>s.
               traverse_loop lit kbuf 1 chunk s)))"

section \<open>Register frames and fault reports\<close>

definition reg_ds :: "cells \<Rightarrow> u32 \<Rightarrow> u32" where "reg_ds m regs = m regs"
definition reg_edi :: "cells \<Rightarrow> u32 \<Rightarrow> u32" where "reg_edi m regs = m (regs + 4)"
definition reg_esi :: "cells \<Rightarrow> u32 \<Rightarrow> u32" where "reg_esi m regs = m (regs + 8)"
definition reg_ebp :: "cells \<Rightarrow> u32 \<Rightarrow> u32" where "reg_ebp m regs = m (regs + 12)"
definition reg_ebx :: "cells \<Rightarrow> u32 \<Rightarrow> u32" where "reg_ebx m regs = m (regs + 20)"
definition reg_edx :: "cells \<Rightarrow> u32 \<Rightarrow> u32" where "reg_edx m regs = m (regs + 24)"
definition reg_ecx :: "cells \<Rightarrow> u32 \<Rightarrow> u32" where "reg_ecx m regs = m (regs + 28)"
definition reg_eax :: "cells \<Rightarrow> u32 \<Rightarrow> u32" where "reg_eax m regs = m (regs + 32)"
definition reg_int_no :: "cells \<Rightarrow> u32 \<Rightarrow> u32" where "reg_int_no m regs = m (regs + 36)"
definition reg_err_code :: "cells \<Rightarrow> u32 \<Rightarrow> u32" where "reg_err_code m regs = m (regs + 40)"
definition reg_eip :: "cells \<Rightarrow> u32 \<Rightarrow> u32" where "reg_eip m regs = m (regs + 44)"
definition reg_cs :: "cells \<Rightarrow> u32 \<Rightarrow> u32" where "reg_cs m regs = m (regs + 48)"
definition reg_eflags :: "cells \<Rightarrow> u32 \<Rightarrow> u32" where "reg_eflags m regs = m (regs + 52)"
definition reg_esp :: "cells \<Rightarrow> u32 \<Rightarrow> u32" where "reg_esp m regs = m (regs + 56)"
definition reg_ss :: "cells \<Rightarrow> u32 \<Rightarrow> u32" where "reg_ss m regs = m (regs + 60)"

definition dump_registers :: "literals \<Rightarrow> u32 \<Rightarrow> u32 \<Rightarrow> 'a monitor_state_scheme \<Rightarrow> 'a monitor_state_scheme outcome" where
  "dump_registers lit kbuf regs s =
    bnd (kprintf kbuf (lit (NL @ ''x86 register state dump'' @ NL)) [] s) (\<lambda>s.
    bnd (kprintf kbuf (lit (''CS: 0x%04X EIP: 0x%08X EFLAGS: 0x%08X'' @ NL))
           [reg_cs (mem s) regs, reg_eip (mem s) regs, reg_eflags (mem s) regs] s) (\<lambda>s.
    bnd (kprintf kbuf (lit (''EAX: 0x%08X EBX: 0x%08X ECX: 0x%08X EDX: 0x%08X'' @ NL))
           [reg_eax (mem s) regs, reg_ebx (mem s) regs, reg_ecx (mem s) regs, reg_edx (mem s) regs] s) (\<lambda>s.
    bnd (kprintf kbuf (lit (''ESI: 0x%08X EDI: 0x%08X EBP: 0x%08X ESP: 0x%08X'' @ NL))
           [reg_esi (mem s) regs, reg_edi (mem s) regs, reg_ebp (mem s) regs, reg_esp (mem s) regs] s) (\<lambda>s.
      kprintf kbuf (lit (''DS: 0x%04X'' @ NL)) [reg_ds (mem s) regs] s))))"

text \<open>The fault handlers, up to the halt in \<open>panic\<close>; the processor gives the faulting address in its register \<open>cr2\<close>.\<close>

definition protection_fault :: "literals \<Rightarrow> u32 \<Rightarrow> u32 \<Rightarrow> 'a monitor_state_scheme \<Rightarrow> 'a monitor_state_scheme outcome" where
  "protection_fault lit kbuf regs s =
    bnd (dump_registers lit kbuf regs s) (panic lit kbuf (lit ''protection fault in kernel space''))"

definition page_fault :: "u32 \<Rightarrow> literals \<Rightarrow> u32 \<Rightarrow> u32 \<Rightarrow> 'a monitor_state_scheme \<Rightarrow> 'a monitor_state_scheme outcome" where
  "page_fault cr2 lit kbuf regs s =
    bnd (kprintf kbuf (lit (NL @ ''Page fault at 0x%x, faulting address 0x%x'' @ NL)) [reg_eip (mem s) regs, cr2] s) (\<lambda>s.
    bnd (kprintf kbuf (lit (''CPU error code: %x'' @ NL)) [reg_err_code (mem s) regs] s) (\<lambda>s.
    bnd (kprintf kbuf (lit (''CS: 0x%4X EIP: 0x%8X EFLAGS: 0x%8X'' @ NL))
           [reg_cs (mem s) regs, reg_eip (mem s) regs, reg_eflags (mem s) regs] s) (\<lambda>s.
    bnd (kprintf kbuf (lit (''EAX: 0x%8X EBX: 0x%8X ECX: 0x%8X EDX: 0x%8X'' @ NL))
           [reg_eax (mem s) regs, reg_ebx (mem s) regs, reg_ecx (mem s) regs, reg_edx (mem s) regs] s) (\<lambda>s.
    bnd (kprintf kbuf (lit (''ESI: 0x%8X EDI: 0x%8X EBP: 0x%8X ESP: 0x%8X'' @ NL))
           [reg_esi (mem s) regs, reg_edi (mem s) regs, reg_ebp (mem s) regs, reg_esp (mem s) regs] s) (\<lambda>s.
    bnd (kprintf kbuf (lit (''DS: 0x%4X'' @ NL)) [reg_ds (mem s) regs] s)
      (panic lit kbuf (lit ''unexpected page fault.'')))))))"

section \<open>What is shown\<close>

text \<open>\<open>prints B kbuf bs s s'\<close>: the text \<open>bs\<close> has gone to the terminal, and memory outside the addresses \<open>B\<close> of the
  buffer is as it was.\<close>

definition prints :: "u32 set \<Rightarrow> u8 list \<Rightarrow> 'a monitor_state_scheme \<Rightarrow> 'b monitor_state_scheme \<Rightarrow> bool" where
  "prints B bs s s' \<longleftrightarrow> term_of s' = fold term_put bs (term_of s) \<and> cursor_ok s' \<and> screen s' ! 24 = screen s ! 24 \<and>
    (\<forall>a. a \<notin> B \<longrightarrow> load8 (mem s') a = load8 (mem s) a)"

lemma prints_trans: "prints B bs s s' \<Longrightarrow> prints B cs s' s'' \<Longrightarrow> prints B (bs @ cs) s s''"
  by (simp add: prints_def)

lemma prints_text_at: "prints B bs s s' \<Longrightarrow> text_at B (mem s) p fs \<Longrightarrow> text_at B (mem s') p fs"
  by (rule text_at_cong [of B "mem s'" "mem s"]) (simp add: prints_def)

lemma prints_strings_at: "prints B bs s s' \<Longrightarrow> strings_at S B (mem s) \<Longrightarrow> strings_at S B (mem s')"
  unfolding strings_at_def using prints_text_at by blast

lemma load8_write_seq_frame:
  assumes "room B p (length cs)" and "a \<notin> B"
  shows "load8 (write_seq store8 m p cs) a = load8 m a"
  using put_all_frame [of B "(m, p)" cs a] assms by (simp add: fold_put_c)

lemma store8_again: "store8 (store8 m a v) a w = store8 m a w"
proof -
  have "((x AND NOT k OR y) AND NOT k) OR z = (x AND NOT k) OR z" if "y AND NOT k = 0" for x y z k :: u32
    using that by (simp add: bit.conj_disj_distrib2 and.assoc)
  moreover have "push_bit n (ucast v) AND NOT (push_bit n 255) = (0 :: u32)" for n
    by (rule bit_word_eqI) (auto simp: bit_simps bit_255 dest: bit_imp_le_length)
  ultimately show ?thesis by (simp add: store8_def)
qed

text \<open>The text fits in the buffer, with its NUL.\<close>

lemma kprintf_prints:
  assumes "cursor_ok s" and "format_text S fs args = Some bs" and "text_at B (mem s) fmt fs" and "strings_at S B (mem s)"
    and room: "room B kbuf (Suc (length bs))" and "length bs < 1024" and "0 \<notin> set bs"
  shows "\<exists>s'. kprintf kbuf fmt args s = ret s' \<and> prints B bs s s'"
proof -
  let ?m = "write_seq store8 (mem s) kbuf (bs @ [0])"
  have "room B kbuf (length bs)" using room by (rule room_le) simp
  from vsprintf_text [OF assms(2-4) this] have v: "vsprintf kbuf fmt args (mem s) = ret (of_nat (length bs), ?m)" .
  have c: "cstr ?m kbuf bs" using assms(6,7) by (intro cstr_write_seq) simp_all
  have "store8 ?m (kbuf + of_nat (length bs)) 0 = ?m" by (simp add: write_seq_snoc store8_again)
  then have k: "kprintf kbuf fmt args s = Option.bind (monitor_write kbuf (s\<lparr>mem := ?m\<rparr>)) ret"
    by (simp add: kprintf_def v)
  have ok: "cursor_ok (s\<lparr>mem := ?m\<rparr>)" using assms(1) by (simp add: cursor_ok_def)
  have scr: "screen (s\<lparr>mem := ?m\<rparr>) = screen s" by (simp add: screen_def)
  have frame: "load8 ?m a = load8 (mem s) a" if "a \<notin> B" for a
    using room that by (intro load8_write_seq_frame [of B]) simp_all
  show ?thesis
    unfolding k using monitor_write_cstr [OF ok, of kbuf bs] c monitor_puts_term [OF ok, of bs]
      fold_term_put_line_24 [OF ok, of bs] frame
    by (simp add: prints_def scr term_of_def)
qed

section \<open>Properties\<close>

text \<open>C35. \<open>kprintf\<close> shows the text that its format and arguments stand for, character by character, on the terminal:
  the static buffer is large enough for a text of up to 1023 characters without NUL. Memory outside the buffer and the
  status line keep their content.\<close>

theorem kprintf_shows:
  assumes "cursor_ok s" and "format_text S fs args = Some bs" and "text_at B (mem s) fmt fs" and "strings_at S B (mem s)"
    and "room B kbuf (Suc (length bs))" and "length bs < 1024" and "0 \<notin> set bs"
  shows "\<exists>s'. kprintf kbuf fmt args s = ret s' \<and> term_of s' = fold term_put bs (term_of s) \<and> cursor_ok s' \<and>
    screen s' ! 24 = screen s ! 24 \<and> (\<forall>a. a \<notin> B \<longrightarrow> load8 (mem s') a = load8 (mem s) a)"
  using kprintf_prints [OF assms] by (simp add: prints_def)

theorem kprintf_shows_witness:
  "\<exists>s'. kprintf 0x5000 0x6000 [7] (set_mem ((\<lambda>a. 0)(0x6000 := 0x6425)) blank_monitor) = ret s' \<and>
    term_of s' = term_put 0x37 (term_of blank_monitor)"
proof -
  let ?s = "set_mem ((\<lambda>a. 0)(0x6000 := 0x6425)) blank_monitor" and ?B = "{0x5000, 0x5001} :: u32 set"
  have s: "cursor_ok ?s" "term_of ?s = term_of blank_monitor"
    using blank_monitor_simps by (simp_all add: set_mem_def cursor_ok_def term_of_def screen_def)
  have f: "text_at ?B (mem ?s) 0x6000 [0x25, 0x64]" by (simp add: set_mem_def load8_def cell_of_def lane_def drop_bit_eq_div)
  have n: "number_text 7 10 (-1) (-1) 2 = [0x37]"
    by (simp add: number_text_def flag_defs numeral_text_def digits_rev_step digit_chr_def Let_def)
  have t: "format_text (\<lambda>a. None) [0x25, 0x64] [7] = Some [0x37]"
    by (simp add: directive_text_def text_width_def text_precision_def text_qualifier_def conv_text_def is_digit_def SIGN_def n Let_def)
  have "room ?B 0x5000 (Suc (length [0x37 :: u8]))" by (simp add: room_Suc eval_nat_numeral)
  from kprintf_shows [OF s(1) t f _ this] show ?thesis using s(2) by (auto simp: strings_at_def)
qed

end
