(* ===== verification/Task.thy ===== *)
theory Task
  imports Kprintf
begin

text \<open>
  task.c, timer.c, syscalls.c and the two common handlers of idt.c: tasks, the scheduler, signals, delays, and the
  system calls that the tasks make.

  A task is 140 bytes of memory: the list node, the saved register frame, and its flags, signals and delay. A task
  enters the kernel through \<open>int 0xFF\<close>: the processor and the stub of idt_s.asm push a register frame on the kernel
  stack and call \<open>idt_handler\<close> with its address; the handler may save this frame in one task and overwrite it with
  the frame of another, which the stub then pops. So the call of one task ends in another one. \<open>trap\<close> is the way into
  the kernel and back to whichever task runs then; \<open>system_call\<close> is what the calling C function sees: when another
  task was dispatched, the other tasks run (\<open>others\<close>) until this one is dispatched again.

  What is not in the C code is in the record \<open>sys\<close>: addresses that the linker chooses, the stack, the register values
  at a trap, what the devices answer, an interrupt while the processor halts, and the run of the other tasks.
  A routine runs without an interruption except where the model says so; a handler is called through the table
  \<open>interrupt_handlers\<close>.
\<close>

section \<open>State\<close>

definition NEED_SCHEDULE :: u32 where "NEED_SCHEDULE = 1"
definition NEED_TASK_SWITCH :: u32 where "NEED_TASK_SWITCH = 4"
definition TB_DELAY :: u32 where "TB_DELAY = 1"
definition TB_QUEUE :: u32 where "TB_QUEUE = 2"
definition TB_RESUME :: u32 where "TB_RESUME = 4"
definition TS_RUN :: u32 where "TS_RUN = 1"
definition TS_READY :: u32 where "TS_READY = 2"

text \<open>The fields of a task: the address of each, from the address of the task.\<close>

definition task_pri :: "u32 \<Rightarrow> u32" where "task_pri t = t + 12"
definition task_name :: "u32 \<Rightarrow> u32" where "task_name t = t + 16"
definition task_state :: "u32 \<Rightarrow> u32" where "task_state t = t + 48"
definition stack_end :: "u32 \<Rightarrow> u32" where "stack_end t = t + 112"
definition task_flags :: "u32 \<Rightarrow> u32" where "task_flags t = t + 116"
definition sigs_waiting :: "u32 \<Rightarrow> u32" where "sigs_waiting t = t + 120"
definition sigs_recvd :: "u32 \<Rightarrow> u32" where "sigs_recvd t = t + 124"
definition task_delay :: "u32 \<Rightarrow> u32" where "task_delay t = t + 128"
definition sizeof_task :: u32 where "sizeof_task = 140"
definition sizeof_registers :: u32 where "sizeof_registers = 64"

lemmas task_defs = task_pri_def task_name_def task_state_def stack_end_def task_flags_def sigs_waiting_def sigs_recvd_def
  task_delay_def

record kernel_state = monitor_state +
  running_task :: u32
  wait_lock :: u32
  forbid_counter :: u32
  k_reenter :: u32
  sched_state :: u32
  system_tick :: u32

record 's sys =
  tasks_ready :: u32
  tasks_wait :: u32
  k_heap_start :: u32
  lit :: literals
  kbuf :: u32
  except_buf :: u32
  frame :: "'s \<Rightarrow> u32"
  registers :: "'s \<Rightarrow> nat \<Rightarrow> u32"
  stack_var :: "'s \<Rightarrow> u32"
  cr2 :: "'s \<Rightarrow> u32"
  intr :: "'s \<Rightarrow> 's outcome"
  others :: "u32 \<Rightarrow> 's \<Rightarrow> 's outcome"

definition upd :: "u32 \<Rightarrow> u32 \<Rightarrow> 'a machine_scheme \<Rightarrow> 'a machine_scheme" where
  "upd a v s = s\<lparr>mem := (mem s)(a := v)\<rparr>"

section \<open>The scheduler\<close>

definition forbid :: "'a kernel_state_scheme \<Rightarrow> 'a kernel_state_scheme" where
  "forbid s = s\<lparr>forbid_counter := forbid_counter s + 1\<rparr>"

definition permit :: "'a kernel_state_scheme \<Rightarrow> 'a kernel_state_scheme" where
  "permit s = (if sint (forbid_counter s) > 0 then s\<lparr>forbid_counter := forbid_counter s - 1\<rparr> else s)"

definition enter_list :: "u32 \<Rightarrow> u32 \<Rightarrow> 'a machine_scheme \<Rightarrow> 'a machine_scheme outcome" where
  "enter_list list node s = Option.bind (enqueue (mem s) list node) (\<lambda>m. ret (s\<lparr>mem := m\<rparr>))"

definition schedule :: "'a kernel_state_scheme sys \<Rightarrow> 'a kernel_state_scheme \<Rightarrow> (u32 \<times> 'a kernel_state_scheme) outcome" where
  "schedule W s =
    (if sint (forbid_counter s) > 0 \<or> sint (k_reenter s) > 0 then ret (0, s)
     else (let s = s\<lparr>sched_state := sched_state s AND NOT NEED_SCHEDULE\<rparr>
           in bnd (if mem s (task_flags (running_task s)) AND TS_READY \<noteq> 0
                   then enter_list (tasks_ready W) (running_task s) s else ret s)
                (\<lambda>s. ret (NEED_TASK_SWITCH, s))))"

text \<open>The loop that halts the processor until a task is ready.\<close>

partial_function (option) idle_loop ::
  "'a kernel_state_scheme sys \<Rightarrow> 'a kernel_state_scheme \<Rightarrow> (u32 \<times> 'a kernel_state_scheme) outcome" where
  "idle_loop W s =
    (let next_task = get_head (mem s) (tasks_ready W)
     in if next_task = 0 then bnd (intr W (enable s)) (\<lambda>s. idle_loop W s) else ret (next_task, s))"

definition switch_tasks :: "'a kernel_state_scheme sys \<Rightarrow> u32 \<Rightarrow> 'a kernel_state_scheme \<Rightarrow> 'a kernel_state_scheme outcome" where
  "switch_tasks W cpu_context s =
    (let run = running_task s;
         s = upd (task_flags run) (mem s (task_flags run) AND NOT TS_RUN) s;
         s = s\<lparr>mem := memcpy (mem s) (task_state run) cpu_context sizeof_registers\<rparr>
     in bnd (idle_loop W s) (\<lambda>(next_task, s).
          let s = s\<lparr>mem := remove_node (mem s) next_task\<rparr>;
              s = s\<lparr>running_task := next_task\<rparr>;
              s = upd (task_flags next_task) (mem s (task_flags next_task) OR TS_RUN) s
          in ret (s\<lparr>mem := memcpy (mem s) cpu_context (task_state next_task) sizeof_registers\<rparr>)))"

definition yield_flags :: "'a kernel_state_scheme \<Rightarrow> 'a kernel_state_scheme" where
  "yield_flags s = s\<lparr>sched_state := sched_state s OR NEED_SCHEDULE, forbid_counter := 0\<rparr>"

section \<open>System calls and the handlers\<close>

definition SYSCALL_YIELD :: u32 where "SYSCALL_YIELD = 0"
definition SYSCALL_KMALLOC :: u32 where "SYSCALL_KMALLOC = 1"
definition SYSCALL_KFREE :: u32 where "SYSCALL_KFREE = 2"
definition SYSCALL_MMMAP :: u32 where "SYSCALL_MMMAP = 3"
definition SYSCALL_MMUNMAP :: u32 where "SYSCALL_MMUNMAP = 4"

definition syscall :: "'a kernel_state_scheme sys \<Rightarrow> u32 \<Rightarrow> 'a kernel_state_scheme \<Rightarrow> 'a kernel_state_scheme outcome" where
  "syscall W regs s =
    (let arg = reg_ebx (mem s) regs; n = reg_eax (mem s) regs; s = enable s
     in bnd (if n = SYSCALL_YIELD then ret (yield_flags s)
             else if n = SYSCALL_KMALLOC
             then bnd (kern_kmalloc (k_heap_start W) (mem s arg) s) (\<lambda>(p, s). ret (upd arg p s))
             else if n = SYSCALL_KFREE then kern_kfree (k_heap_start W) arg s
             else if n = SYSCALL_MMMAP
             then bnd (mm_map (mem s arg) (mem s (arg + 4)) (mem s (arg + 8)) s) (\<lambda>(v, s). ret (upd (arg + 4) v s))
             else if n = SYSCALL_MMUNMAP then mm_unmap arg s
             else ret s)
          (\<lambda>s. ret (disable s)))"

text \<open>The functions in \<open>interrupt_handlers\<close> that the vectors of \<open>idt_handler\<close>, exceptions and 255, can have; the timer
  and the keyboard are on hardware vectors. A handler that panics does not come back.\<close>

definition soft_call :: "'a kernel_state_scheme sys \<Rightarrow> handler \<Rightarrow> u32 \<Rightarrow> 'a kernel_state_scheme \<Rightarrow> 'a kernel_state_scheme outcome" where
  "soft_call W h regs s =
    (case h of
       Syscall \<Rightarrow> syscall W regs s
     | Page_fault \<Rightarrow> bnd (page_fault (cr2 W s) (lit W) (kbuf W) regs s) (\<lambda>s. fail (Panic ''unexpected page fault.''))
     | Protection_fault \<Rightarrow>
         bnd (protection_fault (lit W) (kbuf W) regs s) (\<lambda>s. fail (Panic ''protection fault in kernel space''))
     | Timer_callback \<Rightarrow> fail Undefined
     | Keypress_isr \<Rightarrow> fail Undefined)"

definition handler_of :: "u32 \<Rightarrow> 'a kernel_state_scheme \<Rightarrow> handler option outcome" where
  "handler_of n s =
    (if unat n < length (interrupt_handlers s) then ret (interrupt_handlers s ! unat n) else fail Undefined)"

definition reschedule :: "'a kernel_state_scheme sys \<Rightarrow> u32 \<Rightarrow> 'a kernel_state_scheme \<Rightarrow> 'a kernel_state_scheme outcome" where
  "reschedule W regs s =
    (if sched_state s AND NEED_SCHEDULE \<noteq> 0
     then bnd (schedule W s) (\<lambda>(r, s). if r = NEED_TASK_SWITCH then switch_tasks W regs s else ret s)
     else ret s)"

definition idt_handler :: "'a kernel_state_scheme sys \<Rightarrow> u32 \<Rightarrow> 'a kernel_state_scheme \<Rightarrow> 'a kernel_state_scheme outcome" where
  "idt_handler W regs s =
    (let s = s\<lparr>k_reenter := k_reenter s + 1\<rparr>; int_no = reg_int_no (mem s) regs
     in bnd (handler_of int_no s) (\<lambda>h.
        bnd (case h of
               Some h \<Rightarrow> soft_call W h regs s
             | None \<Rightarrow>
                 bnd (sprintf (except_buf W) (lit W (''Unhandled exception %d.'' @ NL)) [int_no] s) (\<lambda>s.
                 bnd (panic (lit W) (kbuf W) (except_buf W) s) (\<lambda>s. fail (Panic ''Unhandled exception''))))
          (\<lambda>s. bnd (reschedule W regs s) (\<lambda>s. ret (s\<lparr>k_reenter := k_reenter s - 1\<rparr>)))))"

text \<open>The handlers of hardware interrupts are the parameter \<open>call\<close>: they are those of the timer, below, and of the
  keyboard in console.c.\<close>

definition irq_handler ::
  "'a kernel_state_scheme sys \<Rightarrow> (handler \<Rightarrow> u32 \<Rightarrow> 'a kernel_state_scheme \<Rightarrow> 'a kernel_state_scheme outcome) \<Rightarrow>
   u32 \<Rightarrow> 'a kernel_state_scheme \<Rightarrow> 'a kernel_state_scheme outcome" where
  "irq_handler W call regs s =
    (let int_no = reg_int_no (mem s) regs;
         s = enable (s\<lparr>k_reenter := k_reenter s + 1\<rparr>)
     in bnd (handler_of int_no s) (\<lambda>h.
        bnd (case h of
               Some h \<Rightarrow> call h regs s
             | None \<Rightarrow> bnd (panic (lit W) (kbuf W) (lit W (''Unhandled hardware interrupt.'' @ NL)) s)
                        (\<lambda>s. fail (Panic ''Unhandled hardware interrupt.'')))
          (\<lambda>s. bnd (reschedule W regs (disable s)) (\<lambda>s.
             let s = (if sint int_no \<ge> 40 then outb 0xA0 0x20 s else s);
                 s = outb 0x20 0x20 s
             in ret (s\<lparr>k_reenter := k_reenter s - 1\<rparr>)))))"

section \<open>Traps\<close>

text \<open>A register frame: the sixteen words that the processor and the stub push. On an entry from the kernel itself the processor pushes no
  \<open>esp\<close> and \<open>ss\<close>; the model pushes sixteen words there too, which only makes the frame in the stack region larger.\<close>

definition push_frame :: "u32 \<Rightarrow> (nat \<Rightarrow> u32) \<Rightarrow> cells \<Rightarrow> cells" where
  "push_frame regs c m = fold (\<lambda>i m. m(regs + of_nat (4 * i) := c i)) [0..<16] m"

text \<open>\<open>system_call\<close> puts the number in eax and the argument in ebx; the stub pushes 0 for the error code.\<close>

definition trap_frame :: "u32 \<Rightarrow> u32 \<Rightarrow> (nat \<Rightarrow> u32) \<Rightarrow> nat \<Rightarrow> u32" where
  "trap_frame call_no arg c = c(5 := arg, 8 := call_no, 9 := 0xFF, 10 := 0)"

definition trap :: "'a kernel_state_scheme sys \<Rightarrow> u32 \<Rightarrow> u32 \<Rightarrow> 'a kernel_state_scheme \<Rightarrow> 'a kernel_state_scheme outcome" where
  "trap W call_no arg s =
    (let m = push_frame (frame W s) (trap_frame call_no arg (registers W s)) (mem s)
     in bnd (idt_handler W (frame W s) (disable (s\<lparr>mem := m\<rparr>))) (\<lambda>s'. ret (s'\<lparr>iflag := iflag s\<rparr>)))"

definition system_call :: "'a kernel_state_scheme sys \<Rightarrow> u32 \<Rightarrow> u32 \<Rightarrow> 'a kernel_state_scheme \<Rightarrow> 'a kernel_state_scheme outcome" where
  "system_call W call_no arg s =
    bnd (trap W call_no arg s) (\<lambda>s'. if running_task s' = running_task s then ret s' else others W (running_task s) s')"

definition kmalloc :: "'a kernel_state_scheme sys \<Rightarrow> u32 \<Rightarrow> 'a kernel_state_scheme \<Rightarrow> (u32 \<times> 'a kernel_state_scheme) outcome" where
  "kmalloc W alloc_sz s =
    (let aux = stack_var W s
     in bnd (system_call W SYSCALL_KMALLOC aux (upd aux alloc_sz s)) (\<lambda>s. ret (mem s aux, s)))"

definition kfree :: "'a kernel_state_scheme sys \<Rightarrow> u32 \<Rightarrow> 'a kernel_state_scheme \<Rightarrow> 'a kernel_state_scheme outcome" where
  "kfree W ptr s = system_call W SYSCALL_KFREE ptr s"

definition yield :: "'a kernel_state_scheme sys \<Rightarrow> 'a kernel_state_scheme \<Rightarrow> 'a kernel_state_scheme outcome" where
  "yield W s = system_call W SYSCALL_YIELD 0 s"

section \<open>Waiting, signals, delays\<close>

text \<open>\<open>wait\<close> up to its \<open>yield\<close>.\<close>

definition wait_enter :: "u32 \<Rightarrow> u32 \<Rightarrow> 'a kernel_state_scheme \<Rightarrow> 'a kernel_state_scheme outcome" where
  "wait_enter sigs wait_list s =
    (let s = forbid s;
         run = running_task s;
         s = upd (sigs_waiting run) (mem s (sigs_waiting run) OR sigs) s;
         s = upd (sigs_recvd run) 0 s;
         s = upd (task_flags run) (mem s (task_flags run) AND NOT TS_READY) s;
         s = s\<lparr>wait_lock := wait_lock s + 1\<rparr>
     in bnd (enter_list wait_list run s) (\<lambda>s. ret (permit (s\<lparr>wait_lock := wait_lock s - 1\<rparr>))))"

definition wait :: "'a kernel_state_scheme sys \<Rightarrow> u32 \<Rightarrow> u32 \<Rightarrow> 'a kernel_state_scheme \<Rightarrow> (u32 \<times> 'a kernel_state_scheme) outcome" where
  "wait W sigs wait_list s =
    (if sigs = 0 then ret (0, s)
     else bnd (wait_enter sigs wait_list s) (\<lambda>s. bnd (yield W s) (\<lambda>s. ret (mem s (sigs_recvd (running_task s)), s))))"

text \<open>\<open>signal\<close> up to its \<open>yield\<close>.\<close>

definition signal_enter :: "'a kernel_state_scheme sys \<Rightarrow> u32 \<Rightarrow> u32 \<Rightarrow> 'a kernel_state_scheme \<Rightarrow> 'a kernel_state_scheme outcome" where
  "signal_enter W task sigs s =
    (let s = forbid s;
         s = upd (task_flags task) (mem s (task_flags task) OR TS_READY) s;
         s = upd (sigs_waiting task) (mem s (sigs_waiting task) AND NOT sigs) s;
         s = upd (sigs_recvd task) (mem s (sigs_recvd task) OR sigs) s;
         s = s\<lparr>mem := remove_node (mem s) task\<rparr>
     in bnd (enter_list (tasks_ready W) task s) (\<lambda>s. ret (permit s)))"

definition signal :: "'a kernel_state_scheme sys \<Rightarrow> u32 \<Rightarrow> u32 \<Rightarrow> 'a kernel_state_scheme \<Rightarrow> (u32 \<times> 'a kernel_state_scheme) outcome" where
  "signal W task sigs s =
    (if sigs \<noteq> 0 \<and> mem s (sigs_waiting task) AND sigs \<noteq> 0
     then bnd (signal_enter W task sigs s) (\<lambda>s.
          bnd (if node_pri (mem s) (running_task s) \<le> node_pri (mem s) task then yield W s else ret s) (\<lambda>s.
            ret (sigs, s)))
     else ret (0, s))"

definition delay :: "'a kernel_state_scheme sys \<Rightarrow> u32 \<Rightarrow> 'a kernel_state_scheme \<Rightarrow> (u32 \<times> 'a kernel_state_scheme) outcome" where
  "delay W ticks s =
    (let s = forbid s;
         s = upd (task_delay (running_task s)) ticks s
     in wait W TB_DELAY (tasks_wait W) (permit s))"

section \<open>The clock\<close>

partial_function (option) timer_loop ::
  "'a kernel_state_scheme sys \<Rightarrow> u32 \<Rightarrow> 'a kernel_state_scheme \<Rightarrow> 'a kernel_state_scheme outcome" where
  "timer_loop W tasks_waiting s =
    (if tasks_waiting \<noteq> 0
     then bnd (if mem s (sigs_waiting tasks_waiting) AND TB_DELAY \<noteq> 0
               then (let s = upd (task_delay tasks_waiting) (mem s (task_delay tasks_waiting) - 1) s
                     in if mem s (task_delay tasks_waiting) \<le> 0
                        then bnd (signal W tasks_waiting TB_DELAY (disable s)) (\<lambda>(r, s). ret (enable s))
                        else ret s)
               else ret s)
            (\<lambda>s. timer_loop W (get_next (mem s) tasks_waiting) s)
     else ret s)"

definition timer_callback :: "'a kernel_state_scheme sys \<Rightarrow> 'a kernel_state_scheme \<Rightarrow> 'a kernel_state_scheme outcome" where
  "timer_callback W s =
    (let s = s\<lparr>system_tick := system_tick s + 1\<rparr>
     in bnd (if wait_lock s = 0 then timer_loop W (get_head (mem s) (tasks_wait W)) s else ret s)
          (\<lambda>s. ret (s\<lparr>sched_state := sched_state s OR NEED_SCHEDULE\<rparr>)))"

definition init_timer :: "u32 \<Rightarrow> 'a kernel_state_scheme \<Rightarrow> 'a kernel_state_scheme outcome" where
  "init_timer frequency s =
    (let s = register_interrupt_handler 32 Timer_callback s
     in if frequency = 0 then fail DivideError
        else (let divisor = 1193180 div frequency;
                  s = outb 0x43 0x36 s;
                  s = outb 0x40 (ucast (divisor AND 0xFF)) s
              in ret (outb 0x40 (ucast (drop_bit 8 divisor AND 0xFF)) s)))"

section \<open>Creating and destroying tasks\<close>

definition create_task ::
  "'a kernel_state_scheme sys \<Rightarrow> u32 \<Rightarrow> u32 \<Rightarrow> u32 \<Rightarrow> u32 \<Rightarrow> 'a kernel_state_scheme \<Rightarrow> (u32 \<times> 'a kernel_state_scheme) outcome" where
  "create_task W code name pri stack_size s =
    bnd (kmalloc W sizeof_task s) (\<lambda>(new_task, s).
    bnd (kmalloc W stack_size s) (\<lambda>(new_stack, s).
      if new_task = 0 then fail (Panic ''allocating task - not enough memory'')
      else if new_stack = 0 then fail (Panic ''allocating stack - not enough memory'')
      else (let s = s\<lparr>mem := memset (mem s) new_task 0 sizeof_task\<rparr>;
                s = upd (task_state new_task + 44) code s;
                s = upd (task_state new_task + 56) (new_stack + stack_size) s;
                s = upd (task_state new_task) 0x23 s;
                s = upd (task_state new_task + 60) 0x23 s;
                s = upd (task_state new_task + 48) 0x1B s;
                s = upd (task_state new_task + 52) 0x3200 s;
                s = upd (stack_end new_task) new_stack s;
                s = upd (task_pri new_task) pri s;
                s = upd (task_flags new_task) (mem s (task_flags new_task) OR TS_READY) s;
                s = s\<lparr>mem := memcpy (mem s) (task_name new_task) name 32\<rparr>
            in bnd (enter_list (tasks_ready W) new_task (forbid s)) (\<lambda>s. ret (new_task, permit s)))))"

definition destroy_task :: "'a kernel_state_scheme sys \<Rightarrow> u32 \<Rightarrow> 'a kernel_state_scheme \<Rightarrow> 'a kernel_state_scheme outcome" where
  "destroy_task W task s =
    (let s = forbid s;
         s = s\<lparr>mem := remove_node (mem s) task\<rparr>
     in bnd (kfree W (mem s (stack_end task)) s) (\<lambda>s.
        bnd (kfree W task s) (\<lambda>s.
          let s = permit s in if task = running_task s then yield W s else ret s)))"

end
