(* ===== verification/TaskInv.thy ===== *)
theory TaskInv
  imports Task
begin

text \<open>
  Where the tasks lie in memory, and what the list operations do to them. \<open>span a n\<close> are the \<open>n\<close> addresses from \<open>a\<close>.
  The tasks \<open>T\<close>, the list headers \<open>LS\<close> and the kernel stack \<open>K\<close> do not overlap (\<open>layout_ok\<close>); the lists hold tasks,
  no task twice, by descending priority (\<open>lists_ok\<close>, with \<open>q\<close> the sequence of each list). Entering and leaving a list
  writes only the links.
\<close>

section \<open>Spans\<close>

definition span :: "u32 \<Rightarrow> nat \<Rightarrow> u32 set" where
  "span a n = {x. unat (x - a) < n}"

lemma span_add [simp]: "a + k \<in> span a n \<longleftrightarrow> unat k < n"
  by (simp add: span_def)

lemma span_self [simp]: "a \<in> span a n \<longleftrightarrow> 0 < n"
  by (simp add: span_def)

lemma span_mono: "n \<le> k \<Longrightarrow> span a n \<subseteq> span a k"
  by (auto simp: span_def)

lemma span_split: "x \<in> span a n \<Longrightarrow> \<exists>k. x = a + of_nat k \<and> k < n"
  unfolding span_def by (intro exI [of _ "unat (x - a)"]) simp

lemma span_shift: "unat k + n \<le> j \<Longrightarrow> span (a + k) n \<subseteq> span a j"
proof
  fix x assume k: "unat k + n \<le> j" and "x \<in> span (a + k) n"
  then have u: "unat (x - (a + k)) < n" by (simp add: span_def)
  have "x - a = k + (x - (a + k))" by simp
  then have "unat (x - a) \<le> unat k + unat (x - (a + k))" by (metis unat_word_ariths(1) mod_less_eq_dividend)
  then show "x \<in> span a j" using u k by (simp add: span_def)
qed

lemma span_disjointD: "span a n \<inter> span b k = {} \<Longrightarrow> x \<in> span a n \<Longrightarrow> y \<in> span b k \<Longrightarrow> x \<noteq> y"
  by blast

text \<open>Copying whole cells between places that do not overlap.\<close>

lemma memcpy_cells:
  assumes al: "aligned dest" "aligned src" "aligned len" and apart: "span dest (unat len) \<inter> span src (unat len) = {}"
  shows "memcpy m dest src len c = (if aligned c \<and> c \<in> span dest (unat len) then m (src + (c - dest)) else m c)"
proof (cases "aligned c")
  case True
  have "dest \<notin> span src (unat len) \<or> unat len = 0" using apart by (metis IntI empty_iff neq0_conv span_self)
  then have ov: "dest = src \<or> unat len \<le> unat (dest - src)" by (auto simp: span_def)
  have off: "unat (c + of_nat i - dest) = unat (c - dest) + i" if "i < 4" for i
    using unat_aligned_add [of "c - dest" i] aligned_minus [OF True al(1)] that by (simp add: algebra_simps)
  have range: "unat (c - dest) + i < unat len \<longleftrightarrow> unat (c - dest) < unat len" if "i < 4" for i
    using aligned_minus [OF True al(1)] al(3) that unfolding aligned_unat by presburger
  define m' :: cells where "m' = (\<lambda>x. if unat (c - dest) < unat len then m (src + (c - dest)) else m c)"
  have src: "aligned (src + (c - dest))" by (intro aligned_add aligned_minus al True)
  have "memcpy m dest src len c = m' c"
  proof (rule cell_eq_bytes [OF True])
    fix i :: nat assume i: "i < 4"
    have eq: "src + (c + of_nat i - dest) = (src + (c - dest)) + of_nat i" by simp
    have m': "load8 m' (c + of_nat i) = (if unat (c - dest) < unat len then load8 m ((src + (c - dest)) + of_nat i) else load8 m (c + of_nat i))"
      by (simp add: load8_def m'_def cell_of_aligned_add [OF True i] cell_of_aligned_add [OF src i]
        lane_aligned_add [OF True i] lane_aligned_add [OF src i])
    show "load8 (memcpy m dest src len) (c + of_nat i) = load8 m' (c + of_nat i)"
      unfolding m' memcpy_correct [OF ov] off [OF i] range [OF i] eq ..
  qed
  then show ?thesis using True by (simp add: m'_def span_def)
next
  case False
  have "memcpy m dest src len c = m c"
  proof (induction m dest src len rule: memcpy.induct)
    case (1 m dest src len)
    have "cell_of dest \<noteq> c" using False by (auto simp: aligned_def cell_of_def and.assoc)
    then show ?case using 1 by (cases "len = 0") (simp_all add: memcpy.simps [of m] store8_other_cell)
  qed
  then show ?thesis using False by simp
qed

section \<open>Tasks, list headers and the stack in memory\<close>

definition layout_ok :: "u32 set \<Rightarrow> u32 set \<Rightarrow> u32 set \<Rightarrow> bool" where
  "layout_ok T LS K \<longleftrightarrow>
    (\<forall>t \<in> T. aligned t \<and> 0 \<notin> span t 140 \<and> span t 140 \<inter> K = {} \<and>
       (\<forall>t' \<in> T. t \<noteq> t' \<longrightarrow> span t 140 \<inter> span t' 140 = {}) \<and> (\<forall>L \<in> LS. span t 140 \<inter> span L 12 = {})) \<and>
    (\<forall>L \<in> LS. aligned L \<and> 0 \<notin> span L 12 \<and> span L 12 \<inter> K = {} \<and>
       (\<forall>L' \<in> LS. L \<noteq> L' \<longrightarrow> span L 12 \<inter> span L' 12 = {}))"

definition link_area :: "u32 set \<Rightarrow> u32 set \<Rightarrow> u32 set" where
  "link_area T LS = (\<Union>L \<in> LS. span L 12) \<union> (\<Union>t \<in> T. span t 8)"

lemma foot_spans: "set (foot L ns) \<subseteq> span L 12 \<union> (\<Union>t \<in> set ns. span t 8)"
  by (auto simp: set_foot)

lemma foot_link_area: "L \<in> LS \<Longrightarrow> set ns \<subseteq> T \<Longrightarrow> set (foot L ns) \<subseteq> link_area T LS"
  using foot_spans [of L ns] by (fastforce simp: link_area_def)

lemma layout_okD:
  assumes "layout_ok T LS K"
  shows "t \<in> T \<Longrightarrow> aligned t" "t \<in> T \<Longrightarrow> 0 \<notin> span t 140" "t \<in> T \<Longrightarrow> span t 140 \<inter> K = {}"
    "t \<in> T \<Longrightarrow> t' \<in> T \<Longrightarrow> t \<noteq> t' \<Longrightarrow> span t 140 \<inter> span t' 140 = {}"
    "t \<in> T \<Longrightarrow> L \<in> LS \<Longrightarrow> span t 140 \<inter> span L 12 = {}"
    "L \<in> LS \<Longrightarrow> aligned L" "L \<in> LS \<Longrightarrow> 0 \<notin> span L 12" "L \<in> LS \<Longrightarrow> span L 12 \<inter> K = {}"
  using assms by (simp_all add: layout_ok_def)

lemma layout_task:
  assumes "layout_ok T LS K" "t \<in> T"
  shows "aligned t" "t \<noteq> 0" "t + 4 \<noteq> 0"
proof -
  have z: "0 \<notin> span t 140" by (rule layout_okD(2) [OF assms])
  moreover have "t \<in> span t 140" "t + 4 \<in> span t 140" by simp_all
  ultimately show "t \<noteq> 0" "t + 4 \<noteq> 0" by metis+
  show "aligned t" by (rule layout_okD(1) [OF assms])
qed

text \<open>A data field of a task, from offset 8, is no link, and is no field of another task.\<close>

lemma layout_field:
  assumes lay: "layout_ok T LS K" and t: "t \<in> T" and k: "8 \<le> unat k" "unat k < 140"
  shows "t + k \<notin> link_area T LS" and "t + k \<notin> K"
    and "t' \<in> T \<Longrightarrow> unat k' < 140 \<Longrightarrow> t + k = t' + k' \<longleftrightarrow> t = t' \<and> k = k'"
    and "L \<in> LS \<Longrightarrow> t + k \<notin> span L 12"
proof -
  have tk: "t + k \<in> span t 140" using k by simp
  note sep = layout_okD(4) [OF lay t] and L = layout_okD(5) [OF lay t]
  show "t + k \<notin> K" using layout_okD(3) [OF lay t] tk by blast
  show "L \<in> LS \<Longrightarrow> t + k \<notin> span L 12" using L tk by blast
  show "t + k \<notin> link_area T LS"
  proof
    assume "t + k \<in> link_area T LS"
    then consider L where "L \<in> LS" "t + k \<in> span L 12" | t' where "t' \<in> T" "t + k \<in> span t' 8"
      unfolding link_area_def by blast
    then show False
    proof cases
      case 1
      then show ?thesis using L tk by blast
    next
      case 2
      then have "t + k \<in> span t' 140" using span_mono [of 8 140 t'] by auto
      then have "t' = t" using sep 2 tk by blast
      then show ?thesis using 2 k by simp
    qed
  qed
  show "t + k = t' + k' \<longleftrightarrow> t = t' \<and> k = k'" if "t' \<in> T" "unat k' < 140"
  proof (cases "t = t'")
    case False
    have "t' + k' \<in> span t' 140" using that(2) by simp
    then have "t + k \<noteq> t' + k'" using sep [OF that(1) False] tk by (rule_tac span_disjointD)
    then show ?thesis using False by simp
  qed simp
qed

lemma link_area_stack: "layout_ok T LS K \<Longrightarrow> link_area T LS \<inter> K = {}"
  using layout_okD(3,8) [of T LS K] span_mono [of 8 140] by (fastforce simp: link_area_def)

lemma fresh_task:
  assumes lay: "layout_ok T LS K" and L: "L \<in> LS" and ns: "set ns \<subseteq> T" and t: "t \<in> T" "t \<notin> set ns"
  shows "fresh L ns t"
proof -
  have al: "aligned t" "t \<noteq> 0" "t + 4 \<noteq> 0" using layout_task [OF lay t(1)] by simp_all
  have "span t 8 \<inter> set (foot L ns) = {}"
  proof -
    have s8: "span x 8 \<subseteq> span x 140" for x by (rule span_mono) simp
    have "span t 140 \<inter> span L 12 = {}" by (rule layout_okD(5) [OF lay t(1) L])
    moreover have "span t 140 \<inter> span x 140 = {}" if "x \<in> set ns" for x
      using t ns that by (intro layout_okD(4) [OF lay]) auto
    ultimately show ?thesis using foot_spans [of L ns] s8 by blast
  qed
  moreover have "t \<in> span t 8" "t + 4 \<in> span t 8" by simp_all
  ultimately show ?thesis using al unfolding fresh_def by (metis IntI empty_iff)
qed

section \<open>The lists of tasks\<close>

definition lists_ok :: "u32 set \<Rightarrow> u32 set \<Rightarrow> cells \<Rightarrow> (u32 \<Rightarrow> u32 list) \<Rightarrow> bool" where
  "lists_ok T LS m q \<longleftrightarrow>
    (\<forall>L \<in> LS. dll m L (q L) \<and> by_pri (node_pri m) (q L) \<and> set (q L) \<subseteq> T \<and>
       (\<forall>L' \<in> LS. L \<noteq> L' \<longrightarrow> set (q L) \<inter> set (q L') = {}))"

lemma lists_okD:
  assumes "lists_ok T LS m q" and "L \<in> LS"
  shows "dll m L (q L)" "by_pri (node_pri m) (q L)" "set (q L) \<subseteq> T"
  using assms by (simp_all add: lists_ok_def)

lemma lists_disjoint: "lists_ok T LS m q \<Longrightarrow> L \<in> LS \<Longrightarrow> L' \<in> LS \<Longrightarrow> t \<in> set (q L) \<Longrightarrow> t \<in> set (q L') \<Longrightarrow> L = L'"
  unfolding lists_ok_def by blast

lemma by_pri_cong: "(\<And>x. x \<in> set xs \<Longrightarrow> p x = p' x) \<Longrightarrow> by_pri p xs = by_pri p' xs"
  unfolding by_pri_def by (induction xs) auto

lemma lists_ok_frame:
  assumes ok: "lists_ok T LS m q" and links: "\<And>c. c \<in> link_area T LS \<Longrightarrow> m' c = m c"
    and pri: "\<And>t. t \<in> T \<Longrightarrow> m' (t + 12) = m (t + 12)"
  shows "lists_ok T LS m' q"
  unfolding lists_ok_def
proof (intro ballI conjI)
  fix L assume L: "L \<in> LS"
  note q = lists_okD [OF ok L]
  have disj: "set (q L) \<inter> set (q L') = {}" if "L' \<in> LS" "L \<noteq> L'" for L' using ok L that by (simp add: lists_ok_def)
  show "dll m' L (q L)" using dll_frame [OF q(1)] links foot_link_area [OF L q(3)] by blast
  have "node_pri m' t = node_pri m t" if "t \<in> set (q L)" for t using pri q(3) that by (auto simp: node_pri_def)
  with q(2) show "by_pri (node_pri m') (q L)" using by_pri_cong [of "q L" "node_pri m'" "node_pri m"] by blast
  show "set (q L) \<subseteq> T" by (rule q(3))
  show "L \<noteq> L' \<longrightarrow> set (q L) \<inter> set (q L') = {}" if "L' \<in> LS" for L' using disj [OF that] by simp
qed

text \<open>Lists with different headers and no task in common have no link in common.\<close>

lemma foots_disjoint:
  assumes lay: "layout_ok T LS K" and MLS: "M \<in> LS" "L \<in> LS" "M \<noteq> L"
    and sub: "set xs \<subseteq> T" "set ys \<subseteq> T" and disj: "set xs \<inter> set ys = {}"
  shows "set (foot M xs) \<inter> set (foot L ys) = {}"
proof -
  have s8: "span x 8 \<subseteq> span x 140" for x by (rule span_mono) simp
  have "span M 12 \<inter> span L 12 = {}" using lay MLS by (simp add: layout_ok_def)
  moreover have "span x 8 \<inter> span N 12 = {}" if "x \<in> T" "N \<in> LS" for x N
    using layout_okD(5) [OF lay that] s8 [of x] by blast
  moreover have "span x 8 \<inter> span y 8 = {}" if "x \<in> set xs" "y \<in> set ys" for x y
  proof -
    have "x \<noteq> y" "x \<in> T" "y \<in> T" using sub disj that by auto
    then show ?thesis using layout_okD(4) [OF lay, of x y] s8 [of x] s8 [of y] by blast
  qed
  ultimately have "c \<notin> span L 12 \<union> (\<Union>x \<in> set ys. span x 8)" if "c \<in> span M 12 \<union> (\<Union>x \<in> set xs. span x 8)" for c
    using that sub MLS by blast
  then show ?thesis using foot_spans [of M xs] foot_spans [of L ys] by blast
qed

text \<open>A change of one list that writes only its links and those of tasks \<open>zs\<close> in no other list.\<close>

lemma lists_ok_change:
  assumes lay: "layout_ok T LS K" and ok: "lists_ok T LS m q" and L: "L \<in> LS"
    and zs: "set zs \<subseteq> T" "\<And>M. M \<in> LS \<Longrightarrow> M \<noteq> L \<Longrightarrow> set (q M) \<inter> set zs = {}"
    and frame: "\<And>c. c \<notin> set (foot L zs) \<Longrightarrow> m' c = m c"
    and xs: "dll m' L xs" "by_pri (node_pri m) xs" "set xs \<subseteq> set zs"
  shows "lists_ok T LS m' (q(L := xs)) \<and> (\<forall>c. c \<notin> link_area T LS \<longrightarrow> m' c = m c)"
proof -
  have links: "m' c = m c" if "c \<notin> link_area T LS" for c
    using foot_link_area [OF L zs(1)] that by (intro frame) blast
  have pri: "node_pri m' x = node_pri m x" if "x \<in> T" for x
    using layout_field(1) [OF lay that, of 12] links by (simp add: node_pri_def)
  have "dll m' M ((q(L := xs)) M) \<and> by_pri (node_pri m') ((q(L := xs)) M) \<and> set ((q(L := xs)) M) \<subseteq> T"
    if M: "M \<in> LS" for M
  proof (cases "M = L")
    case True
    have "node_pri m' x = node_pri m x" if "x \<in> set xs" for x using pri xs(3) zs(1) that by auto
    with xs(2) have "by_pri (node_pri m') xs" using by_pri_cong [of xs "node_pri m'" "node_pri m"] by blast
    then show ?thesis using True xs(1,3) zs(1) by auto
  next
    case False
    note qM = lists_okD [OF ok M]
    have "set (foot M (q M)) \<inter> set (foot L zs) = {}"
      by (rule foots_disjoint [OF lay M L False qM(3) zs(1) zs(2) [OF M False]])
    then have "m' c = m c" if "c \<in> set (foot M (q M))" for c using frame that by blast
    from dll_frame [OF qM(1) this] have "dll m' M (q M)" .
    moreover have "node_pri m' x = node_pri m x" if "x \<in> set (q M)" for x using pri qM(3) that by auto
    with qM(2) have "by_pri (node_pri m') (q M)" using by_pri_cong [of "q M" "node_pri m'" "node_pri m"] by blast
    ultimately show ?thesis using False qM(3) by simp
  qed
  moreover have "set ((q(L := xs)) M) \<inter> set ((q(L := xs)) M') = {}" if "M \<in> LS" "M' \<in> LS" "M \<noteq> M'" for M M'
  proof -
    have "set (q M) \<inter> set (q M') = {}" using ok that by (simp add: lists_ok_def)
    moreover have "set (q M) \<inter> set xs = {}" if "M \<in> LS" "M \<noteq> L" for M using zs(2) [OF that] xs(3) by blast
    ultimately show ?thesis using that by auto
  qed
  ultimately show ?thesis using links by (simp add: lists_ok_def)
qed

lemma lists_ok_enqueue:
  assumes lay: "layout_ok T LS K" and ok: "lists_ok T LS m q" and L: "L \<in> LS"
    and t: "t \<in> T" "\<And>L. L \<in> LS \<Longrightarrow> t \<notin> set (q L)"
  shows "\<exists>m'. enqueue m L t = Some m' \<and> lists_ok T LS m' (q(L := ins_pri (node_pri m) t (q L))) \<and>
    (\<forall>c. c \<notin> link_area T LS \<longrightarrow> m' c = m c)"
proof -
  note qL = lists_okD [OF ok L]
  obtain m' where m': "enqueue m L t = Some m'" "dll m' L (ins_pri (node_pri m) t (q L))"
    and frame: "\<forall>c. c \<notin> set (foot L (t # q L)) \<longrightarrow> m' c = m c"
    using enqueue_dll [OF qL(1) fresh_task [OF lay L qL(3) t(1) t(2) [OF L]]] by blast
  have disj: "set (q M) \<inter> set (t # q L) = {}" if "M \<in> LS" "M \<noteq> L" for M
    using t(2) [OF that(1)] ok L that by (simp add: lists_ok_def)
  have "lists_ok T LS m' (q(L := ins_pri (node_pri m) t (q L))) \<and> (\<forall>c. c \<notin> link_area T LS \<longrightarrow> m' c = m c)"
    by (rule lists_ok_change [OF lay ok L _ disj]) (use qL t(1) frame m'(2) by_pri_ins_pri [OF qL(2)] in auto)
  then show ?thesis using m'(1) by blast
qed

lemma by_pri_remove1: "by_pri p xs \<Longrightarrow> by_pri p (remove1 t xs)"
  unfolding by_pri_def by (induction xs) (auto dest: in_set_remove1 set_remove1_subset [THEN subsetD])

lemma lists_ok_remove:
  assumes lay: "layout_ok T LS K" and ok: "lists_ok T LS m q" and L: "L \<in> LS" and t: "t \<in> set (q L)"
  shows "lists_ok T LS (remove_node m t) (q(L := remove1 t (q L))) \<and> (\<forall>c. c \<notin> link_area T LS \<longrightarrow> remove_node m t c = m c)"
proof -
  note qL = lists_okD [OF ok L]
  obtain xs ys where xy: "q L = xs @ t # ys" by (meson split_list t)
  have "distinct (q L)" using dll_facts [OF qL(1)] by simp
  then have rem: "remove1 t (q L) = xs @ ys" by (simp add: xy remove1_append)
  have dll: "dll m L (xs @ t # ys)" using qL(1) xy by simp
  have "by_pri (node_pri m) (xs @ ys)" using by_pri_remove1 [OF qL(2), of t] rem by simp
  moreover have "set (q M) \<inter> set (xs @ ys) = {}" if "M \<in> LS" "M \<noteq> L" for M
  proof -
    have "set (q M) \<inter> set (q L) = {}" using ok L that by (simp add: lists_ok_def)
    then show ?thesis using xy by auto
  qed
  moreover have "set (xs @ ys) \<subseteq> T" using qL(3) xy by auto
  ultimately show ?thesis
    using lists_ok_change [OF lay ok L, of "xs @ ys" "remove_node m t" "xs @ ys"] remove_node_frame [OF dll] remove_node_dll [OF dll]
    by (simp add: rem)
qed

section \<open>Switching tasks\<close>

text \<open>The sixteen words of a register frame, in a task or on the stack.\<close>

definition frame_at :: "cells \<Rightarrow> u32 \<Rightarrow> u32 list" where
  "frame_at m a = map (\<lambda>i. m (a + of_nat (4 * i))) [0..<16]"

definition on_stack :: "u32 set \<Rightarrow> u32 \<Rightarrow> bool" where
  "on_stack K regs \<longleftrightarrow> aligned regs \<and> span regs 64 \<subseteq> K"

lemma frame_at_eqI: "(\<And>i. i < 16 \<Longrightarrow> m (a + of_nat (4 * i)) = m' (b + of_nat (4 * i))) \<Longrightarrow> frame_at m a = frame_at m' b"
  by (simp add: frame_at_def)

lemma frame_cell: "i < 16 \<Longrightarrow> a + of_nat (4 * i) \<in> span a 64"
  unfolding span_add by (subst unat_of_nat) simp

lemma aligned_frame_cell: "aligned a \<Longrightarrow> i < 16 \<Longrightarrow> aligned (a + of_nat (4 * i))"
proof (rule aligned_add)
  assume "i < 16"
  then have "unat (of_nat (4 * i) :: u32) = 4 * i" by (subst unat_of_nat) simp
  then show "aligned (of_nat (4 * i))" by (simp add: aligned_unat del: of_nat_mult)
qed

lemma frame_at_memcpy:
  assumes "aligned dest" "aligned src" "span dest 64 \<inter> span src 64 = {}"
  shows "frame_at (memcpy m dest src sizeof_registers) dest = frame_at m src"
    and "c \<notin> span dest 64 \<Longrightarrow> memcpy m dest src sizeof_registers c = m c"
  using memcpy_cells [of dest src sizeof_registers m] assms frame_cell [of _ dest] aligned_frame_cell [of dest]
  by (auto intro!: frame_at_eqI simp: sizeof_registers_def aligned_unat)

lemma frame_at_frame: "(\<And>c. c \<in> span a 64 \<Longrightarrow> m' c = m c) \<Longrightarrow> frame_at m' a = frame_at m a"
  by (rule frame_at_eqI) (blast intro: frame_cell)

lemma task_state_span: "span (task_state t) 64 \<subseteq> span t 140"
  unfolding task_state_def by (rule span_shift) simp

lemma field_outside_state: "unat k < 48 \<or> 112 \<le> unat k \<Longrightarrow> t + k \<notin> span (task_state t) 64"
proof
  assume k: "unat k < 48 \<or> 112 \<le> unat k" and "t + k \<in> span (task_state t) 64"
  then have "unat (k - 48) < 64" by (simp add: span_def task_state_def)
  moreover have "unat k < 2 ^ 32" using unat_lt_32 [of k] by simp
  ultimately show False using k by (auto simp: unat_sub_if' split: if_splits)
qed

lemma layout_state:
  assumes lay: "layout_ok T LS K" and t: "t \<in> T"
  shows "span (task_state t) 64 \<inter> link_area T LS = {}" and "span (task_state t) 64 \<inter> K = {}"
    and "t' \<in> T \<Longrightarrow> t \<noteq> t' \<Longrightarrow> span (task_state t) 64 \<inter> span t' 140 = {}"
    and "aligned (task_state t)"
proof -
  have "c \<notin> link_area T LS" if "c \<in> span (task_state t) 64" for c
  proof -
    from span_split [OF that] obtain k where k: "c = t + (48 + of_nat k)" "k < 64" by (auto simp: task_state_def add.assoc)
    have "unat (48 + of_nat k :: u32) = 48 + k" using k(2) by (simp add: unat_word_ariths unat_of_nat)
    then show ?thesis using layout_field(1) [OF lay t, of "48 + of_nat k"] k by simp
  qed
  then show "span (task_state t) 64 \<inter> link_area T LS = {}" by blast
  show "span (task_state t) 64 \<inter> K = {}" using layout_okD(3) [OF lay t] task_state_span by blast
  show "t' \<in> T \<Longrightarrow> t \<noteq> t' \<Longrightarrow> span (task_state t) 64 \<inter> span t' 140 = {}"
    using layout_okD(4) [OF lay t] task_state_span [of t] by blast
  show "aligned (task_state t)"
    unfolding task_state_def by (rule aligned_add [OF layout_okD(1) [OF lay t]]) (simp add: aligned_unat)
qed

text \<open>Memory that agrees on links and priorities keeps the lists: the kernel stack, the saved frames, and the other
  fields may change.\<close>

lemma lists_ok_other:
  assumes lay: "layout_ok T LS K" and ok: "lists_ok T LS m q"
    and same: "\<And>c. c \<notin> K \<Longrightarrow> (\<And>t. t \<in> T \<Longrightarrow> c \<notin> span (t + 16) 124) \<Longrightarrow> m' c = m c"
  shows "lists_ok T LS m' q"
proof (rule lists_ok_frame [OF ok])
  have off: "\<exists>k. c = t + k \<and> 8 \<le> unat k \<and> unat k < 140" if "c \<in> span (t + 16) 124" for c t
  proof -
    from span_split [OF that] obtain j where j: "c = t + (16 + of_nat j)" "j < 124" by (auto simp: add.assoc)
    have "unat (16 + of_nat j :: u32) = 16 + j" using j(2) by (simp add: unat_word_ariths unat_of_nat)
    then show ?thesis using j by (intro exI [of _ "16 + of_nat j"]) simp
  qed
  fix c assume c: "c \<in> link_area T LS"
  show "m' c = m c"
  proof (rule same)
    show "c \<notin> K" using c link_area_stack [OF lay] by blast
    show "c \<notin> span (t + 16) 124" if "t \<in> T" for t using off [of c t] layout_field(1) [OF lay that] c by blast
  qed
next
  fix t assume t: "t \<in> T"
  show "m' (t + 12) = m (t + 12)"
  proof (rule same)
    show "t + 12 \<notin> K" using layout_field(2) [OF lay t, of 12] by simp
    show "t + 12 \<notin> span (t' + 16) 124" if t': "t' \<in> T" for t'
    proof
      assume a: "t + 12 \<in> span (t' + 16) 124"
      from span_split [OF this] obtain j where j: "t + 12 = t' + (16 + of_nat j)" "j < 124" by (auto simp: add.assoc)
      have u: "unat (16 + of_nat j :: u32) = 16 + j" using j(2) by (simp add: unat_word_ariths unat_of_nat)
      then have "12 = (16 + of_nat j :: u32)" using layout_field(3) [OF lay t _ _ t', of 12 "16 + of_nat j"] j by simp
      then have "unat (12 :: u32) = 16 + j" using u by metis
      then show False by simp
    qed
  qed
qed

text \<open>The context switch. The task that was running has its frame saved, the first ready task leaves the list and
  its frame is on the stack. Nothing else but links and the flag \<open>TS_RUN\<close> of the two tasks is written.\<close>

lemma upd_simps [simp]:
  "mem (upd a v s) = (mem s)(a := v)" "running_task (upd a v s) = running_task s"
  "k_reenter (upd a v s) = k_reenter s" "forbid_counter (upd a v s) = forbid_counter s" "sched_state (upd a v s) = sched_state s"
  "wait_lock (upd a v s) = wait_lock s" "interrupt_handlers (upd a v s) = interrupt_handlers s"
  by (simp_all add: upd_def)

lemma data_fields: "span (task_state t) 64 \<subseteq> span (t + 16) 124" "task_flags t \<in> span (t + 16) 124"
proof -
  have "t + 48 = (t + 16) + 32" "unat (32 :: u32) + 64 \<le> 124" by simp_all
  then show "span (task_state t) 64 \<subseteq> span (t + 16) 124" unfolding task_state_def by (metis span_shift)
  have "t + 116 = (t + 16) + 100" "unat (100 :: u32) < 124" by simp_all
  then show "task_flags t \<in> span (t + 16) 124" unfolding task_flags_def by (metis span_add)
qed

lemma layout_flags:
  assumes "layout_ok T LS K" and "t \<in> T" "t' \<in> T"
  shows "task_flags t \<notin> link_area T LS" "task_flags t \<notin> K" "task_flags t \<notin> span (task_state t') 64"
    "task_flags t = task_flags t' \<longleftrightarrow> t = t'"
proof -
  show "task_flags t \<notin> link_area T LS" "task_flags t \<notin> K"
    unfolding task_flags_def using layout_field(1,2) [OF assms(1,2), of 116] by simp_all
  show "task_flags t = task_flags t' \<longleftrightarrow> t = t'" by (simp add: task_flags_def)
  show "task_flags t \<notin> span (task_state t') 64"
  proof (cases "t = t'")
    case True
    then show ?thesis unfolding task_flags_def using field_outside_state [of 116 t'] by simp
  next
    case False
    have "task_flags t \<in> span t 140" by (simp add: task_flags_def)
    then show ?thesis using layout_state(3) [OF assms(1,3,2)] False by blast
  qed
qed

lemma idle_loop_ready:
  assumes "lists_ok T LS (mem s) q" and "tasks_ready W \<in> LS" and "q (tasks_ready W) = n # ns"
  shows "idle_loop W s = ret (n, s)"
proof -
  have "get_head (mem s) (tasks_ready W) = n" "n \<noteq> 0"
    using get_head_dll [OF lists_okD(1) [OF assms(1,2)]] dll_facts(5) [OF lists_okD(1) [OF assms(1,2)]] assms(3) by auto
  then show ?thesis by (subst idle_loop.simps) simp
qed

text \<open>The two halves of \<open>switch_tasks\<close>: before the loop the running task is saved, after it the next one is loaded.\<close>

definition save_task :: "u32 \<Rightarrow> u32 \<Rightarrow> cells \<Rightarrow> cells" where
  "save_task regs run m = memcpy (m(task_flags run := m (task_flags run) AND NOT TS_RUN)) (task_state run) regs sizeof_registers"

definition load_task :: "u32 \<Rightarrow> u32 \<Rightarrow> cells \<Rightarrow> cells" where
  "load_task regs n m =
    (let m = remove_node m n in memcpy (m(task_flags n := m (task_flags n) OR TS_RUN)) regs (task_state n) sizeof_registers)"

lemma switch_tasks_halves:
  "switch_tasks W regs s = bnd (idle_loop W (s\<lparr>mem := save_task regs (running_task s) (mem s)\<rparr>))
     (\<lambda>(n, s). ret (s\<lparr>running_task := n, mem := load_task regs n (mem s)\<rparr>))"
  by (simp add: switch_tasks_def save_task_def load_task_def Let_def upd_def)

lemma save_task_cells:
  assumes lay: "layout_ok T LS K" and run: "run \<in> T" and regs: "on_stack K regs"
  shows "frame_at (save_task regs run m) (task_state run) = frame_at m regs"
    and "save_task regs run m (task_flags run) = m (task_flags run) AND NOT TS_RUN"
    and "c \<notin> span (task_state run) 64 \<Longrightarrow> c \<noteq> task_flags run \<Longrightarrow> save_task regs run m c = m c"
proof -
  let ?m1 = "m(task_flags run := m (task_flags run) AND NOT TS_RUN)"
  have st: "span regs 64 \<subseteq> K" "aligned regs" using regs by (simp_all add: on_stack_def)
  note runs = layout_state [OF lay run]
  have "span (task_state run) 64 \<inter> span regs 64 = {}" using runs(2) st by blast
  note cpy = frame_at_memcpy [OF runs(4) st(2) this]
  have fl: "task_flags run \<notin> span (task_state run) 64" "task_flags run \<notin> span regs 64"
    using layout_flags [OF lay run run] st(1) by blast+
  have "frame_at ?m1 regs = frame_at m regs" using fl(2) by (intro frame_at_frame) auto
  then show "frame_at (save_task regs run m) (task_state run) = frame_at m regs" unfolding save_task_def using cpy(1) by simp
  show "save_task regs run m (task_flags run) = m (task_flags run) AND NOT TS_RUN"
    unfolding save_task_def using cpy(2) [OF fl(1)] by simp
  show "save_task regs run m c = m c" if "c \<notin> span (task_state run) 64" "c \<noteq> task_flags run"
    unfolding save_task_def using cpy(2) [OF that(1)] that(2) by simp
qed

lemma save_task_effect:
  assumes lay: "layout_ok T LS K" and ok: "lists_ok T LS m q" and run: "run \<in> T" and regs: "on_stack K regs"
  shows "lists_ok T LS (save_task regs run m) q"
    and "frame_at (save_task regs run m) (task_state run) = frame_at m regs"
    and "save_task regs run m (task_flags run) = m (task_flags run) AND NOT TS_RUN"
    and "c \<notin> span (task_state run) 64 \<Longrightarrow> c \<noteq> task_flags run \<Longrightarrow> save_task regs run m c = m c"
proof -
  note cells = save_task_cells [OF lay run regs]
  show "frame_at (save_task regs run m) (task_state run) = frame_at m regs"
    "save_task regs run m (task_flags run) = m (task_flags run) AND NOT TS_RUN"
    "c \<notin> span (task_state run) 64 \<Longrightarrow> c \<noteq> task_flags run \<Longrightarrow> save_task regs run m c = m c"
    by (rule cells; assumption?)+
  show "lists_ok T LS (save_task regs run m) q"
  proof (rule lists_ok_other [OF lay ok])
    fix c assume "\<And>t. t \<in> T \<Longrightarrow> c \<notin> span (t + 16) 124"
    then have "c \<notin> span (run + 16) 124" using run by blast
    then show "save_task regs run m c = m c" using data_fields [of run] by (intro cells(3)) blast+
  qed
qed

lemma load_task_effect:
  assumes lay: "layout_ok T LS K" and ok: "lists_ok T LS m q" and R: "R \<in> LS" and q: "q R = n # ns" and regs: "on_stack K regs"
  shows "lists_ok T LS (load_task regs n m) (q(R := ns))"
    and "frame_at (load_task regs n m) regs = frame_at m (task_state n)"
    and "load_task regs n m (task_flags n) = m (task_flags n) OR TS_RUN"
    and "c \<notin> link_area T LS \<union> span regs 64 \<Longrightarrow> c \<noteq> task_flags n \<Longrightarrow> load_task regs n m c = m c"
proof -
  let ?m3 = "remove_node m n"
  let ?m4 = "?m3(task_flags n := ?m3 (task_flags n) OR TS_RUN)"
  have n: "n \<in> T" using lists_okD(3) [OF ok R] q by simp
  have st: "span regs 64 \<subseteq> K" "aligned regs" using regs by (simp_all add: on_stack_def)
  note ns = layout_state [OF lay n] and fl = layout_flags [OF lay n n]
  have "span regs 64 \<inter> span (task_state n) 64 = {}" using ns(2) st by blast
  note cpy = frame_at_memcpy [OF st(2) ns(4) this]
  have load: "load_task regs n m = memcpy ?m4 regs (task_state n) sizeof_registers" by (simp add: load_task_def Let_def)
  have "remove1 n (q R) = ns" using q by simp
  then have ok3: "lists_ok T LS ?m3 (q(R := ns))" and rem: "\<And>c. c \<notin> link_area T LS \<Longrightarrow> ?m3 c = m c"
    using lists_ok_remove [OF lay ok R, of n] q by simp_all
  have "frame_at ?m4 (task_state n) = frame_at m (task_state n)"
    using ns(1) fl(3) rem by (intro frame_at_frame) auto
  then show "frame_at (load_task regs n m) regs = frame_at m (task_state n)" unfolding load using cpy(1) by simp
  show "load_task regs n m (task_flags n) = m (task_flags n) OR TS_RUN"
  proof -
    have "task_flags n \<notin> span regs 64" using fl(2) st(1) by blast
    from cpy(2) [OF this] show ?thesis unfolding load using rem [OF fl(1)] by simp
  qed
  show "load_task regs n m c = m c" if "c \<notin> link_area T LS \<union> span regs 64" "c \<noteq> task_flags n" for c
    unfolding load using cpy(2) [of c] rem [of c] that by simp
  show "lists_ok T LS (load_task regs n m) (q(R := ns))"
  proof (rule lists_ok_other [OF lay ok3])
    fix c assume c: "c \<notin> K" and t: "\<And>t. t \<in> T \<Longrightarrow> c \<notin> span (t + 16) 124"
    have "c \<noteq> task_flags n" using t [OF n] data_fields(2) [of n] by blast
    moreover have "c \<notin> span regs 64" using c st(1) by blast
    ultimately show "load_task regs n m c = ?m3 c" unfolding load using cpy(2) [of c] by simp
  qed
qed

end
