(* ===== verification/Sched.thy ===== *)
theory Sched
  imports TaskInv
begin

text \<open>
  The invariant of the tasks and what the scheduler, \<open>wait\<close> and \<open>signal\<close> do to it.

  \<open>tasks_inv W T LS K q s\<close>: tasks \<open>T\<close>, list headers \<open>LS\<close> and the kernel stack \<open>K\<close> lie apart; \<open>q\<close> gives the tasks of
  each list, by descending priority; a task in a list other than \<open>tasks_ready\<close> is not ready and waits for one signal,
  every other task is ready and waits for none. \<open>active\<close>: the running task is in no list, all others are in one, and
  the running task alone has \<open>TS_RUN\<close>.
\<close>

section \<open>The invariant\<close>

definition one_signal :: "u32 \<Rightarrow> bool" where
  "one_signal w \<longleftrightarrow> w \<in> set (map (\<lambda>n. push_bit n 1) [0..<32])"

lemma one_signal_taken: "one_signal w \<Longrightarrow> w AND x \<noteq> 0 \<Longrightarrow> w AND NOT x = 0"
proof -
  assume "one_signal w" "w AND x \<noteq> 0"
  then obtain n where w: "w = push_bit n 1" by (auto simp: one_signal_def)
  have b: "bit w k \<longleftrightarrow> k = n \<and> n < 32" for k by (auto simp: w bit_simps)
  obtain k where "bit (w AND x) k" using \<open>w AND x \<noteq> 0\<close> by (metis bit_0_eq bot_apply bot_bool_def bit_eq_iff)
  then have "bit x n" by (auto simp: bit_simps b)
  then show "w AND NOT x = 0" by (intro bit_word_eqI) (auto simp: bit_simps b)
qed

lemma one_signal_1: "one_signal TB_DELAY" "one_signal TB_QUEUE" "one_signal TB_RESUME"
  unfolding one_signal_def TB_DELAY_def TB_QUEUE_def TB_RESUME_def
  by (auto intro: image_eqI [of _ _ 0] image_eqI [of _ _ 1] image_eqI [of _ _ 2])

definition waiting :: "u32 set \<Rightarrow> u32 \<Rightarrow> (u32 \<Rightarrow> u32 list) \<Rightarrow> u32 \<Rightarrow> bool" where
  "waiting LS R q t \<longleftrightarrow> (\<exists>L \<in> LS. L \<noteq> R \<and> t \<in> set (q L))"

definition task_ok :: "cells \<Rightarrow> bool \<Rightarrow> u32 \<Rightarrow> bool" where
  "task_ok m waits t \<longleftrightarrow>
    (if waits then m (task_flags t) AND TS_READY = 0 \<and> one_signal (m (sigs_waiting t))
     else m (task_flags t) AND TS_READY \<noteq> 0 \<and> m (sigs_waiting t) = 0)"

definition tasks_inv ::
  "'a kernel_state_scheme sys \<Rightarrow> u32 set \<Rightarrow> u32 set \<Rightarrow> u32 set \<Rightarrow> (u32 \<Rightarrow> u32 list) \<Rightarrow> 'a kernel_state_scheme \<Rightarrow> bool" where
  "tasks_inv W T LS K q s \<longleftrightarrow> layout_ok T LS K \<and> tasks_ready W \<in> LS \<and> tasks_wait W \<in> LS \<and> tasks_wait W \<noteq> tasks_ready W \<and>
     lists_ok T LS (mem s) q \<and> running_task s \<in> T \<and> (\<forall>t \<in> T. task_ok (mem s) (waiting LS (tasks_ready W) q t) t)"

definition listed :: "u32 set \<Rightarrow> (u32 \<Rightarrow> u32 list) \<Rightarrow> u32 set" where
  "listed LS q = (\<Union>L \<in> LS. set (q L))"

definition run_flags :: "u32 set \<Rightarrow> cells \<Rightarrow> u32 option \<Rightarrow> bool" where
  "run_flags T m r \<longleftrightarrow> (\<forall>t \<in> T. m (task_flags t) AND TS_RUN \<noteq> 0 \<longleftrightarrow> r = Some t)"

definition active ::
  "'a kernel_state_scheme sys \<Rightarrow> u32 set \<Rightarrow> u32 set \<Rightarrow> u32 set \<Rightarrow> (u32 \<Rightarrow> u32 list) \<Rightarrow> 'a kernel_state_scheme \<Rightarrow> bool" where
  "active W T LS K q s \<longleftrightarrow> tasks_inv W T LS K q s \<and> running_task s \<notin> listed LS q \<and> insert (running_task s) (listed LS q) = T \<and>
     run_flags T (mem s) (Some (running_task s))"

lemma tasks_invD:
  assumes "tasks_inv W T LS K q s"
  shows "layout_ok T LS K" "tasks_ready W \<in> LS" "tasks_wait W \<in> LS" "tasks_wait W \<noteq> tasks_ready W"
    "lists_ok T LS (mem s) q" "running_task s \<in> T" "t \<in> T \<Longrightarrow> task_ok (mem s) (waiting LS (tasks_ready W) q t) t"
  using assms by (simp_all add: tasks_inv_def)

lemma activeD:
  assumes "active W T LS K q s"
  shows "tasks_inv W T LS K q s" "running_task s \<notin> listed LS q" "insert (running_task s) (listed LS q) = T"
    "run_flags T (mem s) (Some (running_task s))" "L \<in> LS \<Longrightarrow> running_task s \<notin> set (q L)"
  using assms by (auto simp: active_def listed_def)

lemma listed_upd: "L \<in> LS \<Longrightarrow> listed LS (q(L := xs)) = set xs \<union> listed (LS - {L}) q"
  by (auto simp: listed_def split: if_splits)

lemma listed_split: "L \<in> LS \<Longrightarrow> listed LS q = set (q L) \<union> listed (LS - {L}) q"
  by (auto simp: listed_def)

lemma waiting_upd_ready [simp]: "waiting LS R (q(R := xs)) t = waiting LS R q t"
  by (auto simp: waiting_def)

section \<open>Fields and frames under the kernel's writes\<close>

text \<open>The data of the tasks that the scheduler does not write.\<close>

definition data_same :: "u32 set \<Rightarrow> cells \<Rightarrow> cells \<Rightarrow> bool" where
  "data_same T m m' \<longleftrightarrow> (\<forall>t \<in> T. \<forall>k. (8 \<le> unat k \<and> unat k < 48 \<or> 112 \<le> unat k \<and> unat k < 140) \<and> k \<noteq> 116 \<longrightarrow>
     m' (t + k) = m (t + k))"

lemma data_sameD:
  assumes "data_same T m m'" "t \<in> T"
  shows "m' (sigs_waiting t) = m (sigs_waiting t)" "m' (sigs_recvd t) = m (sigs_recvd t)"
    "m' (task_delay t) = m (task_delay t)" "node_pri m' t = node_pri m t"
  using assms by (simp_all add: data_same_def task_defs node_pri_def)

lemma data_same_refl: "data_same T m m"
  by (simp add: data_same_def)

lemma data_same_trans: "data_same T m m' \<Longrightarrow> data_same T m' m'' \<Longrightarrow> data_same T m m''"
  by (simp add: data_same_def)

lemma field_apart:
  assumes lay: "layout_ok T LS K" and t: "t \<in> T" "t' \<in> T" and k: "8 \<le> unat k \<and> unat k < 48 \<or> 112 \<le> unat k \<and> unat k < 140"
  shows "t + k \<notin> link_area T LS" "t + k \<notin> K" "t + k \<notin> span (task_state t') 64" "k \<noteq> 116 \<Longrightarrow> t + k \<noteq> task_flags t'"
proof -
  have k': "8 \<le> unat k" "unat k < 140" using k by auto
  show "t + k \<notin> link_area T LS" "t + k \<notin> K" by (rule layout_field(1,2) [OF lay t(1) k'])+
  show "k \<noteq> 116 \<Longrightarrow> t + k \<noteq> task_flags t'"
    unfolding task_flags_def using layout_field(3) [OF lay t(1) k' t(2), of 116] by simp
  show "t + k \<notin> span (task_state t') 64"
  proof (cases "t = t'")
    case True
    then show ?thesis using field_outside_state [of k t'] k by auto
  next
    case False
    have "t + k \<in> span t 140" using k' by simp
    then show ?thesis using layout_state(3) [OF lay t(2,1)] False by blast
  qed
qed

lemma run_bit: "(w AND NOT TS_RUN) AND TS_RUN = 0" "(w OR TS_RUN) AND TS_RUN \<noteq> 0"
  "(w AND NOT TS_RUN) AND TS_READY = w AND TS_READY" "(w OR TS_RUN) AND TS_READY = w AND TS_READY" for w :: u32
proof -
  have b: "bit TS_RUN n \<longleftrightarrow> n = 0" "bit TS_READY n \<longleftrightarrow> n = 1" for n
    by (auto simp: TS_RUN_def TS_READY_def bit_simps bit_1_iff bit_numeral_rec(1) split: nat.splits)
  show "(w AND NOT TS_RUN) AND TS_RUN = 0" "(w AND NOT TS_RUN) AND TS_READY = w AND TS_READY" "(w OR TS_RUN) AND TS_READY = w AND TS_READY"
    by (rule bit_word_eqI; auto simp: bit_simps b)+
  have "bit ((w OR TS_RUN) AND TS_RUN) 0" by (simp add: bit_simps b)
  then show "(w OR TS_RUN) AND TS_RUN \<noteq> 0" by auto
qed

lemma flag_nonzero [simp]: "TS_RUN \<noteq> 0" "TS_READY \<noteq> 0" "NEED_SCHEDULE \<noteq> 0"
  by (simp_all add: TS_RUN_def TS_READY_def NEED_SCHEDULE_def)

text \<open>\<open>dispatched T LS K regs m f run n m'\<close>: from memory \<open>m\<close> to \<open>m'\<close> the frame \<open>f\<close> was saved in \<open>run\<close> and that of
  \<open>n\<close> was loaded at \<open>regs\<close>; the frames of all other tasks, the data of all tasks, and memory that is not the kernel's tasks,
  lists and stack are as they were.\<close>

definition dispatched :: "u32 set \<Rightarrow> u32 set \<Rightarrow> u32 set \<Rightarrow> u32 \<Rightarrow> cells \<Rightarrow> u32 list \<Rightarrow> u32 \<Rightarrow> u32 \<Rightarrow> cells \<Rightarrow> bool" where
  "dispatched T LS K regs m f run n m' \<longleftrightarrow>
    frame_at m' (task_state run) = f \<and>
    frame_at m' regs = (if n = run then f else frame_at m (task_state n)) \<and>
    (\<forall>t \<in> T. t \<noteq> run \<longrightarrow> frame_at m' (task_state t) = frame_at m (task_state t)) \<and>
    data_same T m m' \<and> (\<forall>c. c \<notin> link_area T LS \<union> K \<union> (\<Union>t \<in> T. span t 140) \<longrightarrow> m' c = m c)"

lemma switch_tasks_dispatch:
  fixes s :: "'a kernel_state_scheme"
  assumes lay: "layout_ok T LS K" and ok: "lists_ok T LS (mem s) q" and R: "tasks_ready W \<in> LS"
    and run: "running_task s \<in> T" and q: "q (tasks_ready W) = n # ns" and regs: "on_stack K regs"
    and flags: "run_flags T (mem s) (Some (running_task s))"
  shows "\<exists>m'. switch_tasks W regs s = ret (s\<lparr>running_task := n, mem := m'\<rparr>) \<and>
    lists_ok T LS m' (q(tasks_ready W := ns)) \<and> run_flags T m' (Some n) \<and>
    (\<forall>t \<in> T. m' (task_flags t) AND TS_READY = mem s (task_flags t) AND TS_READY) \<and>
    dispatched T LS K regs (mem s) (frame_at (mem s) regs) (running_task s) n m'"
proof -
  let ?run = "running_task s"
  define m1 where "m1 = save_task regs ?run (mem s)"
  define m2 where "m2 = load_task regs n m1"
  have n: "n \<in> T" using lists_okD(3) [OF ok R] q by simp
  note sv = save_task_effect [OF lay ok run regs, folded m1_def]
  note ld = load_task_effect [OF lay sv(1) R q regs, folded m2_def]
  have K: "span regs 64 \<subseteq> K" using regs by (simp add: on_stack_def)
  have fs: "task_flags t \<notin> link_area T LS \<union> span regs 64" "task_flags t \<notin> span (task_state ?run) 64" if "t \<in> T" for t
    using layout_flags [OF lay that run] K by blast+
  have m2_same: "m2 c = mem s c" if "c \<notin> link_area T LS \<union> span regs 64" "c \<notin> span (task_state ?run) 64" "c \<noteq> task_flags ?run" "c \<noteq> task_flags n" for c
    using ld(4) [OF that(1,4)] sv(4) [OF that(2,3)] by simp
  have fn: "m2 (task_flags n) = m1 (task_flags n) OR TS_RUN" by (rule ld(3))
  have f2: "m2 (task_flags t) = m1 (task_flags t)" if "t \<in> T" "t \<noteq> n" for t
    using ld(4) [OF fs(1) [OF that(1)]] that layout_flags(4) [OF lay that(1) n] by simp
  have f1: "m1 (task_flags t) = mem s (task_flags t)" if "t \<in> T" "t \<noteq> ?run" for t
    using sv(4) [OF fs(2) [OF that(1)]] that layout_flags(4) [OF lay that(1) run] by simp
  have ready: "m2 (task_flags t) AND TS_READY = mem s (task_flags t) AND TS_READY" if t: "t \<in> T" for t
    using fn f2 [OF t] f1 [OF t] sv(3) by (cases "t = n"; cases "t = ?run") (simp_all add: run_bit)
  have "m2 (task_flags t) AND TS_RUN \<noteq> 0 \<longleftrightarrow> Some n = Some t" if t: "t \<in> T" for t
    using fn f2 [OF t] f1 [OF t] sv(3) flags t by (cases "t = n"; cases "t = ?run") (simp_all add: run_bit run_flags_def)
  then have rf: "run_flags T m2 (Some n)" by (simp add: run_flags_def)
  have data: "data_same T (mem s) m2"
    unfolding data_same_def
  proof (intro ballI allI impI; elim conjE)
    fix t k :: u32 assume t: "t \<in> T" and k: "8 \<le> unat k \<and> unat k < 48 \<or> 112 \<le> unat k \<and> unat k < 140" "k \<noteq> 116"
    show "m2 (t + k) = mem s (t + k)"
      using field_apart [OF lay t run k(1)] field_apart(4) [OF lay t n k(1)] k(2) K by (intro m2_same) blast+
  qed
  have fr2: "frame_at m2 (task_state t) = frame_at m1 (task_state t)" if t: "t \<in> T" for t
  proof (rule frame_at_frame)
    fix c assume c: "c \<in> span (task_state t) 64"
    then have "c \<noteq> task_flags n" using layout_flags(3) [OF lay n t] by blast
    moreover have "c \<notin> link_area T LS \<union> span regs 64" using c layout_state(1,2) [OF lay t] K by blast
    ultimately show "m2 c = m1 c" by (intro ld(4))
  qed
  have fr1: "frame_at m1 (task_state t) = frame_at (mem s) (task_state t)" if t: "t \<in> T" "t \<noteq> ?run" for t
  proof (rule frame_at_frame)
    fix c assume c: "c \<in> span (task_state t) 64"
    then have "c \<noteq> task_flags ?run" using layout_flags(3) [OF lay run t(1)] by blast
    moreover have "span (task_state t) 64 \<subseteq> span t 140" by (rule task_state_span)
    then have "c \<notin> span (task_state ?run) 64" using c layout_state(3) [OF lay run t(1)] t(2) by blast
    ultimately show "m1 c = mem s c" by (intro sv(4))
  qed
  have other: "m2 c = mem s c" if "c \<notin> link_area T LS \<union> K \<union> (\<Union>t \<in> T. span t 140)" for c
  proof (rule m2_same)
    have "span (task_state ?run) 64 \<subseteq> span ?run 140" "task_flags ?run \<in> span ?run 140" "task_flags n \<in> span n 140"
      by (rule task_state_span) (simp_all add: task_flags_def)
    then show "c \<notin> span (task_state ?run) 64" "c \<noteq> task_flags ?run" "c \<noteq> task_flags n" using that run n by blast+
  qed (use that K in blast)
  have "switch_tasks W regs s = ret (s\<lparr>running_task := n, mem := m2\<rparr>)"
  proof -
    have "idle_loop W (s\<lparr>mem := m1\<rparr>) = ret (n, s\<lparr>mem := m1\<rparr>)" using idle_loop_ready [of T LS "s\<lparr>mem := m1\<rparr>" q W n ns] sv(1) R q by simp
    then show ?thesis by (simp add: switch_tasks_halves m1_def [symmetric] m2_def [symmetric])
  qed
  then show ?thesis
    unfolding dispatched_def
    using ld(1,2) rf data ready fr2 fr1 run n sv(2) other by (intro exI [of _ m2] conjI ballI allI impI) auto
qed

text \<open>What an operation that writes only links leaves alone.\<close>

lemma links_only:
  assumes lay: "layout_ok T LS K" and same: "\<forall>c. c \<notin> link_area T LS \<longrightarrow> m' c = m c"
  shows "data_same T m m'" "t \<in> T \<Longrightarrow> frame_at m' (task_state t) = frame_at m (task_state t)"
    "t \<in> T \<Longrightarrow> m' (task_flags t) = m (task_flags t)" "t \<in> T \<Longrightarrow> m' (sigs_waiting t) = m (sigs_waiting t)"
    "on_stack K regs \<Longrightarrow> frame_at m' regs = frame_at m regs" "t \<in> T \<Longrightarrow> node_pri m' t = node_pri m t"
proof -
  have f: "m' (t + k) = m (t + k)" if "t \<in> T" "8 \<le> unat k" "unat k < 140" for t k
    using layout_field(1) [OF lay that] same by simp
  show d: "data_same T m m'" unfolding data_same_def by (intro ballI allI impI f) auto
  show "t \<in> T \<Longrightarrow> m' (sigs_waiting t) = m (sigs_waiting t)" "t \<in> T \<Longrightarrow> node_pri m' t = node_pri m t"
    using data_sameD [OF d, of t] by simp_all
  show "t \<in> T \<Longrightarrow> m' (task_flags t) = m (task_flags t)" using f [of t 116] by (simp add: task_flags_def)
  show "t \<in> T \<Longrightarrow> frame_at m' (task_state t) = frame_at m (task_state t)"
    using layout_state(1) [OF lay] same by (intro frame_at_frame) blast
  have "link_area T LS \<inter> K = {}" by (rule link_area_stack [OF lay])
  then show "on_stack K regs \<Longrightarrow> frame_at m' regs = frame_at m regs"
    using same by (intro frame_at_frame) (auto simp: on_stack_def)
qed

lemma dispatched_links:
  assumes lay: "layout_ok T LS K" and same: "\<forall>c. c \<notin> link_area T LS \<longrightarrow> m1 c = m c" and regs: "on_stack K regs"
    and run: "run \<in> T" "n \<in> T" and d: "dispatched T LS K regs m1 f run n m'"
  shows "dispatched T LS K regs m f run n m'"
  using d links_only [OF lay same] regs run data_same_trans [OF links_only(1) [OF lay same]] same
  by (simp add: dispatched_def)

section \<open>The scheduler\<close>

text \<open>With multitasking forbidden or the kernel reentered, there is no switch.\<close>

lemma reschedule_forbidden:
  "sint (forbid_counter s) > 0 \<or> sint (k_reenter s) > 0 \<Longrightarrow> reschedule W regs s = ret s"
  by (simp add: reschedule_def schedule_def NEED_TASK_SWITCH_def)

lemma task_ok_cong:
  assumes "m' (task_flags t) AND TS_READY = m (task_flags t) AND TS_READY" "m' (sigs_waiting t) = m (sigs_waiting t)"
  shows "task_ok m' b t = task_ok m b t"
  using assms by (simp add: task_ok_def)

text \<open>\<open>parked\<close>: the running task has been entered in a list, and now the first ready task takes over.\<close>

definition parked ::
  "'a kernel_state_scheme sys \<Rightarrow> u32 set \<Rightarrow> u32 set \<Rightarrow> u32 set \<Rightarrow> (u32 \<Rightarrow> u32 list) \<Rightarrow> 'a kernel_state_scheme \<Rightarrow> bool" where
  "parked W T LS K q s \<longleftrightarrow> tasks_inv W T LS K q s \<and> listed LS q = T \<and> run_flags T (mem s) (Some (running_task s))"

lemma switch_parked:
  assumes park: "parked W T LS K q s" and q: "q (tasks_ready W) = n # ns" and regs: "on_stack K regs"
  shows "\<exists>m'. switch_tasks W regs s = ret (s\<lparr>running_task := n, mem := m'\<rparr>) \<and>
    active W T LS K (q(tasks_ready W := ns)) (s\<lparr>running_task := n, mem := m'\<rparr>) \<and>
    dispatched T LS K regs (mem s) (frame_at (mem s) regs) (running_task s) n m'"
proof -
  let ?run = "running_task s" and ?R = "tasks_ready W"
  have inv: "tasks_inv W T LS K q s" and T: "listed LS q = T" and rf: "run_flags T (mem s) (Some ?run)"
    using park by (simp_all add: parked_def)
  note inv = tasks_invD [OF inv]
  obtain m' where m': "switch_tasks W regs s = ret (s\<lparr>running_task := n, mem := m'\<rparr>)"
    "lists_ok T LS m' (q(?R := ns))" "run_flags T m' (Some n)"
    "\<forall>t \<in> T. m' (task_flags t) AND TS_READY = mem s (task_flags t) AND TS_READY"
    "dispatched T LS K regs (mem s) (frame_at (mem s) regs) ?run n m'"
    using switch_tasks_dispatch [OF inv(1,5,2,6) q regs rf] by blast
  have n: "n \<in> T" using lists_okD(3) [OF inv(5,2)] q by simp
  have "task_ok m' (waiting LS ?R q t) t" if t: "t \<in> T" for t
  proof -
    have "data_same T (mem s) m'" using m'(5) by (simp add: dispatched_def)
    then have "task_ok m' (waiting LS ?R q t) t = task_ok (mem s) (waiting LS ?R q t) t"
      using m'(4) t data_sameD(1) by (intro task_ok_cong) blast+
    then show ?thesis using inv(7) [OF t] by simp
  qed
  then have inv': "tasks_inv W T LS K (q(?R := ns)) (s\<lparr>running_task := n, mem := m'\<rparr>)"
    using inv n m'(2) by (simp add: tasks_inv_def)
  have "distinct (n # ns)" using dll_facts(4) [OF lists_okD(1) [OF inv(5,2)]] q by simp
  moreover have "n \<notin> set (q L)" if "L \<in> LS" "L \<noteq> ?R" for L
    using lists_disjoint [OF inv(5) that(1) inv(2), of n] that q by auto
  ultimately have "n \<notin> listed LS (q(?R := ns))" "insert n (listed LS (q(?R := ns))) = T"
    using T q listed_split [OF inv(2), of q] listed_upd [OF inv(2), of q ns] by (auto simp: listed_def)
  then show ?thesis using inv' m' by (intro exI [of _ m']) (simp add: active_def)
qed

lemma enqueue_parks:
  assumes act: "active W T LS K q s"
  shows "\<exists>m1. enqueue (mem s) (tasks_ready W) (running_task s) = Some m1 \<and>
    parked W T LS K (q(tasks_ready W := ins_pri (node_pri (mem s)) (running_task s) (q (tasks_ready W)))) (s\<lparr>mem := m1\<rparr>) \<and>
    (\<forall>c. c \<notin> link_area T LS \<longrightarrow> m1 c = mem s c)"
proof -
  let ?run = "running_task s" and ?R = "tasks_ready W"
  note act = activeD [OF act]
  note inv = tasks_invD [OF act(1)]
  let ?q = "q(?R := ins_pri (node_pri (mem s)) ?run (q ?R))"
  obtain m1 where m1: "enqueue (mem s) ?R ?run = Some m1" "lists_ok T LS m1 ?q" "\<forall>c. c \<notin> link_area T LS \<longrightarrow> m1 c = mem s c"
    using lists_ok_enqueue [OF inv(1,5,2,6) act(5)] by auto
  note lo = links_only [OF inv(1) m1(3)]
  have "task_ok m1 b t = task_ok (mem s) b t" if "t \<in> T" for b t
    using lo(3,4) [OF that] by (simp add: task_ok_def)
  then have "tasks_inv W T LS K ?q (s\<lparr>mem := m1\<rparr>)" using inv m1(2) by (simp add: tasks_inv_def)
  moreover have "listed LS ?q = T"
    using act(3) listed_split [OF inv(2), of q] listed_upd [OF inv(2), of q] by simp
  moreover have "run_flags T m1 (Some ?run)" using act(4) lo(3) by (simp add: run_flags_def)
  ultimately show ?thesis using m1 by (simp add: parked_def)
qed

lemma reschedule_ready:
  assumes act: "active W T LS K q s" and regs: "on_stack K regs"
    and idle: "\<not> sint (forbid_counter s) > 0" "\<not> sint (k_reenter s) > 0" "sched_state s AND NEED_SCHEDULE \<noteq> 0"
    and q: "ins_pri (node_pri (mem s)) (running_task s) (q (tasks_ready W)) = n # ns"
  shows "\<exists>m'. reschedule W regs s = ret (s\<lparr>sched_state := sched_state s AND NOT NEED_SCHEDULE, running_task := n, mem := m'\<rparr>) \<and>
    active W T LS K (q(tasks_ready W := ns)) (s\<lparr>running_task := n, mem := m'\<rparr>) \<and>
    dispatched T LS K regs (mem s) (frame_at (mem s) regs) (running_task s) n m'"
proof -
  let ?run = "running_task s" and ?R = "tasks_ready W"
  note inv = tasks_invD [OF activeD(1) [OF act]]
  have "\<not> waiting LS ?R q ?run" using activeD(2) [OF act] by (auto simp: waiting_def listed_def)
  then have ready: "mem s (task_flags ?run) AND TS_READY \<noteq> 0" using inv(7) [OF inv(6)] by (simp add: task_ok_def)
  obtain m1 where m1: "enqueue (mem s) ?R ?run = Some m1" "parked W T LS K (q(?R := n # ns)) (s\<lparr>mem := m1\<rparr>)"
    "\<forall>c. c \<notin> link_area T LS \<longrightarrow> m1 c = mem s c"
    using enqueue_parks [OF act] q by auto
  let ?s = "s\<lparr>sched_state := sched_state s AND NOT NEED_SCHEDULE, mem := m1\<rparr>"
  have "parked W T LS K (q(?R := n # ns)) ?s" using m1(2) by (simp add: parked_def tasks_inv_def)
  then obtain m' where m': "switch_tasks W regs ?s = ret (?s\<lparr>running_task := n, mem := m'\<rparr>)"
    "active W T LS K (q(?R := ns)) (?s\<lparr>running_task := n, mem := m'\<rparr>)" "dispatched T LS K regs m1 (frame_at m1 regs) ?run n m'"
    using switch_parked [of W T LS K "q(?R := n # ns)" ?s n ns, OF _ _ regs] by auto
  have n: "n \<in> T" using tasks_invD(6) [OF activeD(1) [OF m'(2)]] by simp
  have "reschedule W regs s = ret (?s\<lparr>running_task := n, mem := m'\<rparr>)"
    using idle ready m1(1) m'(1) by (simp add: reschedule_def schedule_def enter_list_def NEED_TASK_SWITCH_def Let_def)
  moreover have "active W T LS K (q(?R := ns)) (s\<lparr>running_task := n, mem := m'\<rparr>)"
    using m'(2) by (simp add: active_def tasks_inv_def)
  moreover have "dispatched T LS K regs (mem s) (frame_at (mem s) regs) ?run n m'"
    using dispatched_links [OF inv(1) m1(3) regs inv(6) n m'(3)] links_only(5) [OF inv(1) m1(3) regs] by simp
  ultimately show ?thesis by (intro exI [of _ m']) simp
qed

text \<open>A task that waits is not entered in the ready list.\<close>

lemma reschedule_blocked:
  assumes park: "parked W T LS K q s" and wait: "waiting LS (tasks_ready W) q (running_task s)" and regs: "on_stack K regs"
    and idle: "\<not> sint (forbid_counter s) > 0" "\<not> sint (k_reenter s) > 0" "sched_state s AND NEED_SCHEDULE \<noteq> 0"
    and q: "q (tasks_ready W) = n # ns"
  shows "\<exists>m'. reschedule W regs s = ret (s\<lparr>sched_state := sched_state s AND NOT NEED_SCHEDULE, running_task := n, mem := m'\<rparr>) \<and>
    active W T LS K (q(tasks_ready W := ns)) (s\<lparr>running_task := n, mem := m'\<rparr>) \<and>
    dispatched T LS K regs (mem s) (frame_at (mem s) regs) (running_task s) n m'"
proof -
  let ?run = "running_task s" and ?s = "s\<lparr>sched_state := sched_state s AND NOT NEED_SCHEDULE\<rparr>"
  note inv = tasks_invD [of W T LS K q s]
  have i: "tasks_inv W T LS K q s" using park by (simp add: parked_def)
  have "mem s (task_flags ?run) AND TS_READY = 0" using inv(7) [OF i inv(6) [OF i]] wait by (simp add: task_ok_def)
  moreover have "parked W T LS K q ?s" using park by (simp add: parked_def tasks_inv_def)
  then obtain m' where "switch_tasks W regs ?s = ret (?s\<lparr>running_task := n, mem := m'\<rparr>)"
    "active W T LS K (q(tasks_ready W := ns)) (?s\<lparr>running_task := n, mem := m'\<rparr>)"
    "dispatched T LS K regs (mem s) (frame_at (mem s) regs) ?run n m'"
    using switch_parked [of W T LS K q ?s n ns, OF _ q regs] by auto
  ultimately show ?thesis
    using idle by (intro exI [of _ m']) (simp add: reschedule_def schedule_def NEED_TASK_SWITCH_def Let_def active_def tasks_inv_def)
qed

section \<open>Traps\<close>

lemma push_cells:
  fixes m :: cells
  shows "n \<le> 16 \<Longrightarrow> i < 16 \<Longrightarrow> fold (\<lambda>i m. m(regs + of_nat (4 * i) := c i)) [0..<n] m (regs + of_nat (4 * i)) =
    (if i < n then c i else m (regs + of_nat (4 * i)))"
proof (induction n)
  case (Suc n)
  have "regs + of_nat (4 * i) = regs + of_nat (4 * n) \<longleftrightarrow> i = n"
  proof
    assume "regs + of_nat (4 * i) = regs + of_nat (4 * n)"
    then have "of_nat (4 * i) = (of_nat (4 * n) :: u32)" by (rule add_left_imp_eq)
    then have "unat (of_nat (4 * i) :: u32) = unat (of_nat (4 * n) :: u32)" by (rule arg_cong)
    then show "i = n" using Suc.prems by (simp only: unat_of_nat) simp
  qed simp
  then show ?case using Suc by (auto simp: less_Suc_eq simp del: of_nat_mult)
qed simp

lemma push_frame_cell: "i < 16 \<Longrightarrow> push_frame regs c m (regs + of_nat (4 * i)) = c i"
  unfolding push_frame_def by (subst push_cells) simp_all

lemma push_frame_at: "frame_at (push_frame regs c m) regs = map c [0..<16]"
  unfolding frame_at_def by (rule map_cong) (use push_frame_cell in auto)

lemma push_frame_other: "a \<notin> span regs 64 \<Longrightarrow> push_frame regs c m a = m a"
proof -
  assume a: "a \<notin> span regs 64"
  have "fold (\<lambda>i m. m(regs + of_nat (4 * i) := c i)) [0..<n] m a = m a" if "n \<le> 16" for n
    using that
  proof (induction n)
    case (Suc n)
    have "a \<noteq> regs + of_nat (4 * n)" using frame_cell [of n regs] Suc.prems a by auto
    then show ?case using Suc by simp
  qed simp
  then show ?thesis by (simp add: push_frame_def)
qed

lemma push_frame_regs:
  "reg_ebx (push_frame regs (trap_frame n arg c) m) regs = arg" "reg_eax (push_frame regs (trap_frame n arg c) m) regs = n"
  "reg_int_no (push_frame regs (trap_frame n arg c) m) regs = 0xFF"
  using push_frame_cell [of 5 regs "trap_frame n arg c" m] push_frame_cell [of 8 regs "trap_frame n arg c" m]
    push_frame_cell [of 9 regs "trap_frame n arg c" m]
  by (simp_all add: reg_ebx_def reg_eax_def reg_int_no_def trap_frame_def)

text \<open>A task runs: the kernel is not entered, and the system call is installed.\<close>

definition user_mode :: "'a kernel_state_scheme sys \<Rightarrow> u32 set \<Rightarrow> 'a kernel_state_scheme \<Rightarrow> bool" where
  "user_mode W K s \<longleftrightarrow> k_reenter s = -1 \<and> length (interrupt_handlers s) = 256 \<and> interrupt_handlers s ! 255 = Some Syscall \<and>
     (\<forall>s. on_stack K (frame W s))"

lemma tasks_inv_same: "mem s' = mem s \<Longrightarrow> running_task s' = running_task s \<Longrightarrow> tasks_inv W T LS K q s' = tasks_inv W T LS K q s"
  by (simp add: tasks_inv_def)

lemma active_same: "mem s' = mem s \<Longrightarrow> running_task s' = running_task s \<Longrightarrow> active W T LS K q s' = active W T LS K q s"
  using tasks_inv_same [of s' s] by (simp add: active_def)

text \<open>Writes to the stack.\<close>

lemma stack_write:
  assumes lay: "layout_ok T LS K" and same: "\<forall>c. c \<notin> K \<longrightarrow> m' c = m c" and t: "t \<in> T"
  shows "m' (task_flags t) = m (task_flags t)" "m' (sigs_waiting t) = m (sigs_waiting t)" "node_pri m' t = node_pri m t"
    "m' (sigs_recvd t) = m (sigs_recvd t)" "m' (task_delay t) = m (task_delay t)" "frame_at m' (task_state t) = frame_at m (task_state t)"
  using layout_field(2) [OF lay t] same layout_state(2) [OF lay t]
  by (simp_all add: task_defs node_pri_def) (intro frame_at_frame; blast)

lemma stack_write_inv:
  assumes inv: "tasks_inv W T LS K q s" and same: "\<forall>c. c \<notin> K \<longrightarrow> m' c = mem s c"
  shows "tasks_inv W T LS K q (s\<lparr>mem := m'\<rparr>)"
proof -
  note lay = tasks_invD(1) [OF inv]
  have "task_ok m' b t = task_ok (mem s) b t" if "t \<in> T" for b t
    using stack_write(1,2) [OF lay same that] by (simp add: task_ok_def)
  moreover have "lists_ok T LS m' q" using lists_ok_other [OF lay tasks_invD(5) [OF inv]] same by blast
  ultimately show ?thesis using inv by (simp add: tasks_inv_def)
qed

lemma stack_write_active:
  assumes act: "active W T LS K q s" and same: "\<forall>c. c \<notin> K \<longrightarrow> m' c = mem s c"
  shows "active W T LS K q (s\<lparr>mem := m'\<rparr>)"
proof -
  have "m' (task_flags t) = mem s (task_flags t)" if "t \<in> T" for t
    using stack_write(1) [OF tasks_invD(1) [OF activeD(1) [OF act]] same that] .
  then have "run_flags T m' (Some (running_task s))" using activeD(4) [OF act] by (simp add: run_flags_def)
  then show ?thesis using activeD(2,3) [OF act] stack_write_inv [OF activeD(1) [OF act] same] unfolding active_def by simp
qed

lemma stack_write_parked:
  assumes park: "parked W T LS K q s" and same: "\<forall>c. c \<notin> K \<longrightarrow> m' c = mem s c"
  shows "parked W T LS K q (s\<lparr>mem := m'\<rparr>)"
proof -
  have inv: "tasks_inv W T LS K q s" using park by (simp add: parked_def)
  have "m' (task_flags t) = mem s (task_flags t)" if "t \<in> T" for t
    using stack_write(1) [OF tasks_invD(1) [OF inv] same that] .
  then have "run_flags T m' (Some (running_task s))" using park by (simp add: run_flags_def parked_def)
  then show ?thesis using park stack_write_inv [OF inv same] unfolding parked_def by simp
qed

lemma stack_write_dispatched:
  assumes lay: "layout_ok T LS K" and K: "\<forall>c. c \<notin> K \<longrightarrow> m1 c = m c" and run: "run \<in> T" "n \<in> T"
    and d: "dispatched T LS K regs m1 f run n m'"
  shows "dispatched T LS K regs m f run n m'"
proof -
  have "data_same T m m1" using layout_field(2) [OF lay] K by (auto simp: data_same_def)
  then have "data_same T m m'" using d data_same_trans by (auto simp: dispatched_def)
  then show ?thesis using d stack_write(6) [OF lay K] run K by (simp add: dispatched_def)
qed

lemma trap_yield:
  fixes s :: "'a kernel_state_scheme"
  assumes user: "user_mode W K s"
  shows "trap W SYSCALL_YIELD 0 s =
    (let s1 = s\<lparr>mem := push_frame (frame W s) (trap_frame SYSCALL_YIELD 0 (registers W s)) (mem s), k_reenter := 0,
          sched_state := sched_state s OR NEED_SCHEDULE, forbid_counter := 0, iflag := False\<rparr>
     in bnd (reschedule W (frame W s) s1) (\<lambda>s'. ret (s'\<lparr>k_reenter := k_reenter s' - 1, iflag := iflag s\<rparr>)))"
proof -
  have "interrupt_handlers s ! 255 = Some Syscall" "255 < length (interrupt_handlers s)" "k_reenter s = -1"
    using user by (simp_all add: user_mode_def)
  then show ?thesis
    by (simp add: trap_def idt_handler_def handler_of_def soft_call_def syscall_def yield_flags_def push_frame_regs
      disable_def enable_def Let_def bnd_assoc)
qed

end
