(* ===== verification/Elsewhere.thy ===== *)
theory Elsewhere
  imports Sched
begin

text \<open>
  What the scheduler leaves alone. \<open>rest_of\<close> is the state without memory, the log of the ports and the variables of the
  scheduler: pages, page tables, heap, descriptors and handlers. \<open>elsewhere A s s'\<close>: between the two states only those variables
  and memory in \<open>A\<close> changed. The scheduler, \<open>wait\<close> and \<open>signal\<close> change memory only in the tasks, the lists and the kernel stack.
\<close>

definition rest_of :: "'a kernel_state_scheme \<Rightarrow> 'a kernel_state_scheme" where
  "rest_of s = s\<lparr>mem := (\<lambda>_. 0), io := [], iflag := False, running_task := 0, wait_lock := 0, forbid_counter := 0, k_reenter := 0,
     sched_state := 0, system_tick := 0\<rparr>"

lemma rest_of_upd [simp]:
  "rest_of (s\<lparr>mem := m\<rparr>) = rest_of s" "rest_of (s\<lparr>io := l\<rparr>) = rest_of s" "rest_of (s\<lparr>iflag := b\<rparr>) = rest_of s"
  "rest_of (s\<lparr>running_task := t\<rparr>) = rest_of s" "rest_of (s\<lparr>wait_lock := w\<rparr>) = rest_of s" "rest_of (s\<lparr>forbid_counter := w\<rparr>) = rest_of s"
  "rest_of (s\<lparr>k_reenter := w\<rparr>) = rest_of s" "rest_of (s\<lparr>sched_state := w\<rparr>) = rest_of s" "rest_of (s\<lparr>system_tick := w\<rparr>) = rest_of s"
  by (simp_all add: rest_of_def)

lemma rest_of_ops [simp]:
  fixes s :: "'a kernel_state_scheme"
  shows "rest_of (upd a v s) = rest_of s" "rest_of (forbid s) = rest_of s" "rest_of (permit s) = rest_of s" "rest_of (enable s) = rest_of s"
    "rest_of (disable s) = rest_of s" "rest_of (outb p b s) = rest_of s"
  by (simp_all add: upd_def forbid_def permit_def enable_def disable_def outb_def)

lemma rest_ofD:
  fixes s s' :: "'a kernel_state_scheme"
  assumes "rest_of s' = rest_of s"
  shows "phys s' = phys s" "cr3 s' = cr3 s" "LowRamBitF s' = LowRamBitF s" "LowRamFreeCount s' = LowRamFreeCount s"
    "k_heap_end s' = k_heap_end s" "tss s' = tss s" "interrupt_handlers s' = interrupt_handlers s"
    "kernel_state.more s' = kernel_state.more s"
  using arg_cong [OF assms, of phys] arg_cong [OF assms, of cr3] arg_cong [OF assms, of LowRamBitF]
    arg_cong [OF assms, of LowRamFreeCount] arg_cong [OF assms, of k_heap_end] arg_cong [OF assms, of tss]
    arg_cong [OF assms, of interrupt_handlers] arg_cong [OF assms, of kernel_state.more]
  by (simp_all add: rest_of_def)

text \<open>The memory of the tasks and the lists.\<close>

definition task_area :: "u32 set \<Rightarrow> u32 set \<Rightarrow> u32 set" where
  "task_area T LS = (\<Union>t \<in> T. span t 140) \<union> (\<Union>L \<in> LS. span L 12)"

lemma task_area_stack: "layout_ok T LS K \<Longrightarrow> task_area T LS \<inter> K = {}"
  using layout_okD(3,8) by (fastforce simp: task_area_def)

lemma task_area_parts:
  "link_area T LS \<subseteq> task_area T LS" "t \<in> T \<Longrightarrow> span t 140 \<subseteq> task_area T LS" "(\<Union>t \<in> T. span (t + 112) 28) \<subseteq> task_area T LS"
  "t \<in> T \<Longrightarrow> span (t + 116) 12 \<subseteq> task_area T LS"
proof -
  show "link_area T LS \<subseteq> task_area T LS" using span_mono [of 8 140] by (fastforce simp: link_area_def task_area_def)
  show "t \<in> T \<Longrightarrow> span t 140 \<subseteq> task_area T LS" for t by (auto simp: task_area_def)
  moreover have "span (t + 112) 28 \<subseteq> span t 140" "span (t + 116) 12 \<subseteq> span t 140" for t by (rule span_shift; simp)+
  ultimately show "(\<Union>t \<in> T. span (t + 112) 28) \<subseteq> task_area T LS" "t \<in> T \<Longrightarrow> span (t + 116) 12 \<subseteq> task_area T LS" by blast+
qed

definition elsewhere :: "u32 set \<Rightarrow> 'a kernel_state_scheme \<Rightarrow> 'a kernel_state_scheme \<Rightarrow> bool" where
  "elsewhere A s s' \<longleftrightarrow> rest_of s' = rest_of s \<and> (\<forall>c. c \<notin> A \<longrightarrow> mem s' c = mem s c)"

lemma elsewhere_refl: "elsewhere A s s" and elsewhere_trans: "elsewhere A s s1 \<Longrightarrow> elsewhere A s1 s2 \<Longrightarrow> elsewhere A s s2"
  by (simp_all add: elsewhere_def)

lemma elsewhere_mono: "elsewhere A s s' \<Longrightarrow> A \<subseteq> B \<Longrightarrow> elsewhere B s s'"
  by (auto simp: elsewhere_def)

section \<open>The operations\<close>

lemma enter_list_rest:
  fixes s :: "'a kernel_state_scheme"
  shows "enter_list L t s = ret s' \<Longrightarrow> rest_of s' = rest_of s"
  by (cases "enqueue (mem s) L t") (auto simp: enter_list_def ret_def)

lemma wait_enter_rest: "wait_enter sigs L s = ret s' \<Longrightarrow> rest_of s' = rest_of s"
  unfolding wait_enter_def Let_def bnd_eq_ret by (auto simp: ret_def dest!: enter_list_rest [unfolded ret_def])

lemma signal_enter_rest: "signal_enter W t sigs s = ret s' \<Longrightarrow> rest_of s' = rest_of s"
  unfolding signal_enter_def Let_def bnd_eq_ret by (auto simp: ret_def dest!: enter_list_rest [unfolded ret_def])

lemma dispatched_else:
  assumes "dispatched T LS K regs m f run n m'" and "c \<notin> task_area T LS \<union> K"
  shows "m' c = m c"
  using assms task_area_parts(1) [of T LS] by (auto simp: dispatched_def task_area_def)

end
