(* ===== verification/TaskSteps.thy ===== *)
theory TaskSteps
  imports Elsewhere
begin

text \<open>
  The steps of the tasks: \<open>yield\<close>, \<open>wait\<close> and \<open>signal\<close> as traps into the kernel, and the clock interrupt. Each keeps the
  invariant, and the lists change as the functions on sequences say: \<open>ins_pri\<close> for an entry by priority, \<open>remove1\<close> for
  a task that leaves its list.
\<close>

section \<open>yield\<close>

text \<open>The frame that the trap of a yield pushes, and the state of the kernel when it returns.\<close>

definition yield_frame :: "'a kernel_state_scheme sys \<Rightarrow> 'a kernel_state_scheme \<Rightarrow> u32 list" where
  "yield_frame W s = map (trap_frame SYSCALL_YIELD 0 (registers W s)) [0..<16]"

definition returned :: "'a kernel_state_scheme \<Rightarrow> 'a kernel_state_scheme \<Rightarrow> bool" where
  "returned s s' \<longleftrightarrow> k_reenter s' = k_reenter s \<and> forbid_counter s' = 0 \<and> sched_state s' AND NEED_SCHEDULE = 0 \<and>
     interrupt_handlers s' = interrupt_handlers s \<and> iflag s' = iflag s \<and> wait_lock s' = wait_lock s \<and>
     system_tick s' = system_tick s \<and> rest_of s' = rest_of s"

lemma need_bit: "(w OR NEED_SCHEDULE) AND NEED_SCHEDULE \<noteq> 0" "(w AND NOT NEED_SCHEDULE) AND NEED_SCHEDULE = 0" for w :: u32
proof -
  have b: "bit NEED_SCHEDULE n \<longleftrightarrow> n = 0" for n by (simp add: NEED_SCHEDULE_def bit_1_iff)
  have "bit ((w OR NEED_SCHEDULE) AND NEED_SCHEDULE) 0" by (simp add: bit_simps b)
  then show "(w OR NEED_SCHEDULE) AND NEED_SCHEDULE \<noteq> 0" by auto
  show "(w AND NOT NEED_SCHEDULE) AND NEED_SCHEDULE = 0" by (rule bit_word_eqI) (auto simp: bit_simps b)
qed

lemma user_modeD:
  assumes "user_mode W K s"
  shows "k_reenter s = -1" "on_stack K (frame W s')" "interrupt_handlers s ! 255 = Some Syscall" "length (interrupt_handlers s) = 256"
  using assms by (simp_all add: user_mode_def)

lemma push_on_stack: "on_stack K regs \<Longrightarrow> \<forall>c. c \<notin> K \<longrightarrow> push_frame regs c' m c = m c"
  unfolding on_stack_def by (intro allI impI push_frame_other) blast

text \<open>The state in which the trap of a yield comes to the scheduler.\<close>

definition yield_state :: "'a kernel_state_scheme sys \<Rightarrow> 'a kernel_state_scheme \<Rightarrow> 'a kernel_state_scheme" where
  "yield_state W s = s\<lparr>mem := push_frame (frame W s) (trap_frame SYSCALL_YIELD 0 (registers W s)) (mem s), k_reenter := 0,
     sched_state := sched_state s OR NEED_SCHEDULE, forbid_counter := 0, iflag := False\<rparr>"

lemma yield_state_simps [simp]:
  "k_reenter (yield_state W s) = 0" "forbid_counter (yield_state W s) = 0" "running_task (yield_state W s) = running_task s"
  "sched_state (yield_state W s) AND NEED_SCHEDULE \<noteq> 0" "rest_of (yield_state W s) = rest_of s" "frame_at (mem (yield_state W s)) (frame W s) = yield_frame W s"
  by (simp_all add: yield_state_def need_bit push_frame_at yield_frame_def)

lemma yield_state_stack: "user_mode W K s \<Longrightarrow> \<forall>c. c \<notin> K \<longrightarrow> mem (yield_state W s) c = mem s c"
  using push_on_stack [OF user_modeD(2)] by (simp add: yield_state_def)

lemma yield_result:
  assumes inv: "tasks_inv W T LS K q s" and user: "user_mode W K s"
    and r: "reschedule W (frame W s) (yield_state W s) =
      ret (yield_state W s\<lparr>sched_state := sched_state (yield_state W s) AND NOT NEED_SCHEDULE, running_task := n, mem := m'\<rparr>)"
    and act: "active W T LS K q' (yield_state W s\<lparr>running_task := n, mem := m'\<rparr>)"
    and d: "dispatched T LS K (frame W s) (mem (yield_state W s)) (yield_frame W s) (running_task s) n m'"
  shows "\<exists>s'. trap W SYSCALL_YIELD 0 s = ret s' \<and> running_task s' = n \<and> active W T LS K q' s' \<and>
    dispatched T LS K (frame W s) (mem s) (yield_frame W s) (running_task s) n (mem s') \<and> returned s s'"
proof -
  let ?s' = "yield_state W s\<lparr>sched_state := sched_state (yield_state W s) AND NOT NEED_SCHEDULE, running_task := n, mem := m',
    k_reenter := -1, iflag := iflag s\<rparr>"
  have n: "n \<in> T" using tasks_invD(6) [OF activeD(1) [OF act]] by simp
  have "trap W SYSCALL_YIELD 0 s = ret ?s'"
    unfolding trap_yield [OF user] yield_state_def [symmetric] by (simp add: Let_def r)
  moreover have "active W T LS K q' ?s'"
    using act by (subst active_same [of _ "yield_state W s\<lparr>running_task := n, mem := m'\<rparr>"]) simp_all
  moreover have "dispatched T LS K (frame W s) (mem s) (yield_frame W s) (running_task s) n m'"
    using stack_write_dispatched [OF tasks_invD(1) [OF inv] yield_state_stack [OF user] tasks_invD(6) [OF inv] n d] .
  ultimately show ?thesis
    by (intro exI [of _ ?s']) (simp add: returned_def user_modeD(1) [OF user] need_bit yield_state_def)
qed

text \<open>Both cases of a yield: the running task is ready, or it has entered a list to wait.\<close>

lemma yield_ready:
  assumes act: "active W T LS K q s" and user: "user_mode W K s"
    and q: "ins_pri (node_pri (mem s)) (running_task s) (q (tasks_ready W)) = n # ns"
  shows "\<exists>s'. trap W SYSCALL_YIELD 0 s = ret s' \<and> running_task s' = n \<and> active W T LS K (q(tasks_ready W := ns)) s' \<and>
    dispatched T LS K (frame W s) (mem s) (yield_frame W s) (running_task s) n (mem s') \<and> returned s s'"
proof -
  let ?s1 = "yield_state W s"
  note inv = activeD(1) [OF act]
  note K = yield_state_stack [OF user]
  have "active W T LS K q (s\<lparr>mem := mem ?s1\<rparr>)" by (rule stack_write_active [OF act K])
  then have act1: "active W T LS K q ?s1" by (subst active_same [of _ "s\<lparr>mem := mem ?s1\<rparr>"]) simp_all
  have "ins_pri (node_pri (mem ?s1)) (running_task s) (q (tasks_ready W)) = n # ns"
    using lists_okD(3) [OF tasks_invD(5,2) [OF inv]] stack_write(3) [OF tasks_invD(1) [OF inv] K] tasks_invD(6) [OF inv]
    by (subst q [symmetric]) (intro ins_pri_cong, auto)
  then show ?thesis
    using reschedule_ready [where n = n and ns = ns, OF act1 user_modeD(2) [OF user, of s]] yield_result [where n = n, OF inv user] by auto
qed

lemma yield_blocked:
  assumes park: "parked W T LS K q s" and wait: "waiting LS (tasks_ready W) q (running_task s)" and user: "user_mode W K s"
    and q: "q (tasks_ready W) = n # ns"
  shows "\<exists>s'. trap W SYSCALL_YIELD 0 s = ret s' \<and> running_task s' = n \<and> active W T LS K (q(tasks_ready W := ns)) s' \<and>
    dispatched T LS K (frame W s) (mem s) (yield_frame W s) (running_task s) n (mem s') \<and> returned s s'"
proof -
  let ?s1 = "yield_state W s"
  have inv: "tasks_inv W T LS K q s" using park by (simp add: parked_def)
  have "parked W T LS K q (s\<lparr>mem := mem ?s1\<rparr>)" by (rule stack_write_parked [OF park yield_state_stack [OF user]])
  then have park1: "parked W T LS K q ?s1" by (simp add: parked_def tasks_inv_def)
  have w1: "waiting LS (tasks_ready W) q (running_task ?s1)" using wait by simp
  show ?thesis
    using reschedule_blocked [where n = n and ns = ns, OF park1 w1 user_modeD(2) [OF user, of s]] q
      yield_result [where n = n, OF inv user] by auto
qed

section \<open>Writing the fields of one task\<close>

lemma own_write:
  assumes lay: "layout_ok T LS K" and r: "r \<in> T" and same: "\<forall>c. c \<notin> span (r + 112) 28 \<longrightarrow> m' c = m c"
  shows "lists_ok T LS m q \<Longrightarrow> lists_ok T LS m' q"
    and "t \<in> T \<Longrightarrow> t \<noteq> r \<Longrightarrow> unat k < 140 \<Longrightarrow> m' (t + k) = m (t + k)"
    and "t \<in> T \<Longrightarrow> frame_at m' (task_state t) = frame_at m (task_state t)"
    and "t \<in> T \<Longrightarrow> node_pri m' t = node_pri m t"
    and "c \<notin> span r 140 \<Longrightarrow> m' c = m c"
proof -
  have sub: "span (r + 112) 28 \<subseteq> span r 140" by (rule span_shift) simp
  then show out: "m' c = m c" if "c \<notin> span r 140" for c using same that by blast
  show other: "m' (t + k) = m (t + k)" if "t \<in> T" "t \<noteq> r" "unat k < 140" for t k
  proof (rule out)
    have "t + k \<in> span t 140" using that(3) by simp
    then show "t + k \<notin> span r 140" using layout_okD(4) [OF lay that(1) r that(2)] by blast
  qed
  have low: "r + k \<notin> span (r + 112) 28" if "unat k < 112" for k
  proof -
    have "unat (k - 112) = unat k + 2 ^ 32 - 112" using that by (subst unat_sub_if') simp
    then show ?thesis by (simp add: span_def)
  qed
  show "node_pri m' t = node_pri m t" if "t \<in> T" for t
    using other [OF that, of 12] low [of 12] same by (cases "t = r") (simp_all add: node_pri_def)
  show "frame_at m' (task_state t) = frame_at m (task_state t)" if t: "t \<in> T" for t
  proof (rule frame_at_eqI)
    fix i :: nat assume i: "i < 16"
    define k :: u32 where "k = 48 + of_nat (4 * i)"
    have "unat (of_nat (4 * i) :: u32) = 4 * i" using i by (subst unat_of_nat) simp
    then have k: "unat k < 112" using i unfolding k_def by (simp add: unat_word_ariths)
    have "m' (t + k) = m (t + k)"
      using other [OF t, of k] low [OF k] same k by (cases "t = r") simp_all
    then show "m' (task_state t + of_nat (4 * i)) = m (task_state t + of_nat (4 * i))"
      by (simp only: k_def task_state_def add.assoc)
  qed
  show "lists_ok T LS m' q" if ok: "lists_ok T LS m q"
  proof (rule lists_ok_other [OF lay ok])
    fix c assume "\<And>t. t \<in> T \<Longrightarrow> c \<notin> span (t + 16) 124"
    moreover have e: "r + 112 = (r + 16) + 96" by simp
    have "span (r + 112) 28 \<subseteq> span (r + 16) 124" unfolding e by (rule span_shift) simp
    ultimately have "c \<notin> span (r + 112) 28" using r by blast
    then show "m' c = m c" using same by blast
  qed
qed

lemma ready_bit: "(w AND NOT TS_READY) AND TS_READY = 0" "(w OR TS_READY) AND TS_READY = TS_READY"
  "(w AND NOT TS_READY) AND TS_RUN = w AND TS_RUN" "(w OR TS_READY) AND TS_RUN = w AND TS_RUN" for w :: u32
proof -
  have b: "bit TS_RUN n \<longleftrightarrow> n = 0" "bit TS_READY n \<longleftrightarrow> n = 1" for n
    by (auto simp: TS_RUN_def TS_READY_def bit_simps bit_1_iff bit_numeral_rec(1) split: nat.splits)
  show "(w AND NOT TS_READY) AND TS_READY = 0" "(w OR TS_READY) AND TS_READY = TS_READY"
    "(w AND NOT TS_READY) AND TS_RUN = w AND TS_RUN" "(w OR TS_READY) AND TS_RUN = w AND TS_RUN"
    by (rule bit_word_eqI; auto simp: bit_simps b)+
qed

section \<open>wait\<close>

text \<open>What is not changed by entering a list.\<close>

definition same_kernel :: "'a kernel_state_scheme \<Rightarrow> 'a kernel_state_scheme \<Rightarrow> bool" where
  "same_kernel s s' \<longleftrightarrow> running_task s' = running_task s \<and> k_reenter s' = k_reenter s \<and> sched_state s' = sched_state s \<and>
     interrupt_handlers s' = interrupt_handlers s \<and> iflag s' = iflag s \<and> wait_lock s' = wait_lock s \<and>
     system_tick s' = system_tick s"

lemma wait_enter_parks:
  assumes act: "active W T LS K q s" and sig: "one_signal sigs" and L: "L \<in> LS" "L \<noteq> tasks_ready W"
  shows "\<exists>s1. wait_enter sigs L s = ret s1 \<and> same_kernel s s1 \<and>
    parked W T LS K (q(L := ins_pri (node_pri (mem s)) (running_task s) (q L))) s1 \<and>
    mem s1 (sigs_waiting (running_task s)) = sigs \<and> mem s1 (sigs_recvd (running_task s)) = 0 \<and>
    (\<forall>c. c \<notin> link_area T LS \<union> span (running_task s + 116) 12 \<longrightarrow> mem s1 c = mem s c)"
proof -
  let ?r = "running_task s" and ?R = "tasks_ready W" and ?m = "mem s"
  note act = activeD [OF act]
  note inv = tasks_invD [OF act(1)]
  define m1 where "m1 = ?m(sigs_waiting ?r := ?m (sigs_waiting ?r) OR sigs, sigs_recvd ?r := 0,
    task_flags ?r := ?m (task_flags ?r) AND NOT TS_READY)"
  have "\<not> waiting LS ?R q ?r" using act(2) by (auto simp: waiting_def listed_def)
  then have "?m (sigs_waiting ?r) = 0" using inv(7) [OF inv(6)] by (simp add: task_ok_def)
  then have f1: "m1 (sigs_waiting ?r) = sigs" "m1 (sigs_recvd ?r) = 0" "m1 (task_flags ?r) = ?m (task_flags ?r) AND NOT TS_READY"
    by (simp_all add: m1_def task_defs)
  have same1: "m1 c = ?m c" if "c \<notin> span (?r + 116) 12" for c
  proof -
    have "?r + 120 = (?r + 116) + 4" "?r + 124 = (?r + 116) + 8" by simp_all
    then have "?r + 116 \<in> span (?r + 116) 12" "?r + 120 \<in> span (?r + 116) 12" "?r + 124 \<in> span (?r + 116) 12"
      by (simp_all only: span_add span_self) simp_all
    then have "c \<noteq> ?r + 116" "c \<noteq> ?r + 120" "c \<noteq> ?r + 124" using that by blast+
    then show ?thesis by (simp add: m1_def task_defs)
  qed
  have e: "?r + 116 = (?r + 112) + 4" by simp
  have "span (?r + 116) 12 \<subseteq> span (?r + 112) 28" unfolding e by (rule span_shift) simp
  then have "\<forall>c. c \<notin> span (?r + 112) 28 \<longrightarrow> m1 c = ?m c" using same1 by blast
  note ow = own_write [OF inv(1,6) this]
  have "ins_pri (node_pri m1) ?r (q L) = ins_pri (node_pri ?m) ?r (q L)"
    using lists_okD(3) [OF inv(5) L(1)] inv(6) ow(4) by (intro ins_pri_cong) auto
  then obtain m2 where m2: "enqueue m1 L ?r = Some m2" "lists_ok T LS m2 (q(L := ins_pri (node_pri ?m) ?r (q L)))"
    "\<forall>c. c \<notin> link_area T LS \<longrightarrow> m2 c = m1 c"
    using lists_ok_enqueue [OF inv(1) ow(1) [OF inv(5)] L(1) inv(6) act(5)] by auto
  let ?q = "q(L := ins_pri (node_pri ?m) ?r (q L))"
  note lo = links_only [OF inv(1) m2(3)]
  have w: "waiting LS ?R ?q t \<longleftrightarrow> t = ?r \<or> waiting LS ?R q t" for t
    using L by (auto simp: waiting_def)
  have "task_ok m2 (waiting LS ?R ?q t) t" if t: "t \<in> T" for t
  proof (cases "t = ?r")
    case True
    then show ?thesis using w lo(3,4) [OF inv(6)] f1 sig by (simp add: task_ok_def ready_bit)
  next
    case False
    have "task_ok m2 b t = task_ok ?m b t" for b
      using lo(3,4) [OF t] ow(2) [OF t False, of 116] ow(2) [OF t False, of 120] by (simp add: task_ok_def task_defs)
    then show ?thesis using w False inv(7) [OF t] by simp
  qed
  moreover have "run_flags T m2 (Some ?r)"
    unfolding run_flags_def
  proof
    fix t assume t: "t \<in> T"
    show "(m2 (task_flags t) AND TS_RUN \<noteq> 0) = (Some ?r = Some t)"
      using act(4) t lo(3) [OF t] ow(2) [OF t, of 116] f1(3)
      by (cases "t = ?r") (simp_all add: run_flags_def ready_bit task_flags_def)
  qed
  moreover have "listed LS ?q = T"
    using act(3) listed_split [OF L(1), of q] listed_upd [OF L(1), of q] by simp
  ultimately have park: "parked W T LS K ?q (s\<lparr>mem := m2\<rparr>)" using inv m2(2) by (simp add: parked_def tasks_inv_def)
  obtain s1 where s1: "wait_enter sigs L s = ret s1" "mem s1 = m2" "same_kernel s s1"
    using m2(1) by (simp add: wait_enter_def enter_list_def m1_def permit_def forbid_def same_kernel_def task_defs Let_def upd_def fun_upd_twist)
  have "parked W T LS K ?q s1" using park s1(2,3) by (simp add: parked_def tasks_inv_def same_kernel_def)
  moreover have "m2 (sigs_waiting ?r) = sigs" using lo(4) [OF inv(6)] f1 by simp
  moreover have "m2 (sigs_recvd ?r) = 0" using data_sameD(2) [OF lo(1) inv(6)] f1 by simp
  ultimately show ?thesis using s1 m2(3) same1 by auto
qed

lemma wait_enter_else:
  assumes act: "active W T LS K q s" and sig: "one_signal sigs" and L: "L \<in> LS" "L \<noteq> tasks_ready W"
    and r: "wait_enter sigs L s = ret s1"
  shows "elsewhere (task_area T LS) s s1"
proof -
  have "running_task s \<in> T" by (rule tasks_invD(6) [OF activeD(1) [OF act]])
  then have "link_area T LS \<union> span (running_task s + 116) 12 \<subseteq> task_area T LS" using task_area_parts(1,4) by blast
  then show ?thesis using wait_enter_parks [OF act sig L] r wait_enter_rest [OF r] by (auto simp: elsewhere_def subset_iff)
qed

section \<open>signal\<close>

lemma list_unique:
  assumes "lists_ok T LS m q" and "L \<in> LS" "t \<in> set (q L)" and "M \<in> LS"
  shows "t \<notin> set ((q(L := remove1 t (q L))) M)"
proof (cases "M = L")
  case True
  then show ?thesis using dll_facts(4) [OF lists_okD(1) [OF assms(1,2)]] by simp
next
  case False
  then show ?thesis using lists_disjoint [OF assms(1,2,4,3)] by auto
qed

lemma signal_enter_readies:
  assumes inv: "tasks_inv W T LS K q s" and L: "L \<in> LS" "L \<noteq> tasks_ready W" and t: "t \<in> set (q L)"
    and sig: "mem s (sigs_waiting t) AND sigs \<noteq> 0"
  shows "\<exists>s1. signal_enter W t sigs s = ret s1 \<and> same_kernel s s1 \<and> forbid_counter s1 = forbid_counter (permit (forbid s)) \<and>
    tasks_inv W T LS K (q(L := remove1 t (q L), tasks_ready W := ins_pri (node_pri (mem s)) t (q (tasks_ready W)))) s1 \<and>
    (\<forall>r. run_flags T (mem s1) r = run_flags T (mem s) r) \<and>
    mem s1 (sigs_waiting t) = 0 \<and> mem s1 (sigs_recvd t) = mem s (sigs_recvd t) OR sigs \<and>
    (\<forall>c. c \<notin> link_area T LS \<union> span (t + 116) 12 \<longrightarrow> mem s1 c = mem s c)"
proof -
  let ?R = "tasks_ready W" and ?m = "mem s"
  note inv = tasks_invD [OF inv]
  have tT: "t \<in> T" using lists_okD(3) [OF inv(5) L(1)] t by auto
  define m1 where "m1 = ?m(task_flags t := ?m (task_flags t) OR TS_READY, sigs_waiting t := ?m (sigs_waiting t) AND NOT sigs,
    sigs_recvd t := ?m (sigs_recvd t) OR sigs)"
  have "waiting LS ?R q t" using L t by (auto simp: waiting_def)
  then have "one_signal (?m (sigs_waiting t))" using inv(7) [OF tT] by (simp add: task_ok_def)
  from one_signal_taken [OF this sig]
  have f1: "m1 (sigs_waiting t) = 0" "m1 (sigs_recvd t) = ?m (sigs_recvd t) OR sigs" "m1 (task_flags t) = ?m (task_flags t) OR TS_READY"
    by (simp_all add: m1_def task_defs)
  have same1: "m1 c = ?m c" if "c \<notin> span (t + 116) 12" for c
  proof -
    have "t + 120 = (t + 116) + 4" "t + 124 = (t + 116) + 8" by simp_all
    then have "t + 116 \<in> span (t + 116) 12" "t + 120 \<in> span (t + 116) 12" "t + 124 \<in> span (t + 116) 12"
      by (simp_all only: span_add span_self) simp_all
    then have "c \<noteq> t + 116" "c \<noteq> t + 120" "c \<noteq> t + 124" using that by blast+
    then show ?thesis by (simp add: m1_def task_defs)
  qed
  have e: "t + 116 = (t + 112) + 4" by simp
  have "span (t + 116) 12 \<subseteq> span (t + 112) 28" unfolding e by (rule span_shift) simp
  then have "\<forall>c. c \<notin> span (t + 112) 28 \<longrightarrow> m1 c = ?m c" using same1 by blast
  note ow = own_write [OF inv(1) tT this]
  let ?q1 = "q(L := remove1 t (q L))" and ?m2 = "remove_node m1 t"
  have rem: "lists_ok T LS ?m2 ?q1" "\<forall>c. c \<notin> link_area T LS \<longrightarrow> ?m2 c = m1 c"
    using lists_ok_remove [OF inv(1) ow(1) [OF inv(5)] L(1) t] by simp_all
  note lo2 = links_only [OF inv(1) rem(2)]
  have pri: "ins_pri (node_pri ?m2) t (q ?R) = ins_pri (node_pri ?m) t (q ?R)"
    using lists_okD(3) [OF inv(5,2)] tT ow(4) lo2(6) by (intro ins_pri_cong) auto
  have qR: "?q1 ?R = q ?R" using L(2) by simp
  obtain m3 where m3: "enqueue ?m2 ?R t = Some m3" "lists_ok T LS m3 (?q1(?R := ins_pri (node_pri ?m) t (q ?R)))"
    "\<forall>c. c \<notin> link_area T LS \<longrightarrow> m3 c = ?m2 c"
    using lists_ok_enqueue [OF inv(1) rem(1) inv(2) tT list_unique [OF inv(5) L(1) t]] unfolding qR pri by blast
  let ?q = "?q1(?R := ins_pri (node_pri ?m) t (q ?R))"
  note lo3 = links_only [OF inv(1) m3(3)]
  have fields: "m3 (task_flags x) = m1 (task_flags x)" "m3 (sigs_waiting x) = m1 (sigs_waiting x)" if "x \<in> T" for x
    using lo2(3,4) lo3(3,4) that by simp_all
  have w: "waiting LS ?R ?q x \<longleftrightarrow> x \<noteq> t \<and> waiting LS ?R q x" for x
  proof -
    have "waiting LS ?R ?q1 t = False" using list_unique [OF inv(5) L(1) t] by (auto simp: waiting_def)
    moreover have "x \<noteq> t \<Longrightarrow> x \<in> set (?q1 M) \<longleftrightarrow> x \<in> set (q M)" for M by simp
    ultimately show ?thesis by (cases "x = t") (auto simp: waiting_def)
  qed
  have "task_ok m3 (waiting LS ?R ?q x) x" if x: "x \<in> T" for x
  proof (cases "x = t")
    case True
    then show ?thesis using w fields [OF tT] f1 by (simp add: task_ok_def ready_bit)
  next
    case False
    have "task_ok m3 b x = task_ok ?m b x" for b
      using fields [OF x] ow(2) [OF x False, of 116] ow(2) [OF x False, of 120] by (simp add: task_ok_def task_defs)
    then show ?thesis using w False inv(7) [OF x] by simp
  qed
  then have inv': "tasks_inv W T LS K ?q (s\<lparr>mem := m3\<rparr>)" using inv m3(2) by (simp add: tasks_inv_def)
  have rf: "run_flags T m3 r = run_flags T ?m r" for r
  proof -
    have "m3 (task_flags x) AND TS_RUN = ?m (task_flags x) AND TS_RUN" if "x \<in> T" for x
      using fields(1) [OF that] ow(2) [OF that, of 116] f1(3) by (cases "x = t") (simp_all add: ready_bit task_flags_def)
    then show ?thesis by (simp add: run_flags_def)
  qed
  obtain s1 where s1: "signal_enter W t sigs s = ret s1" "mem s1 = m3" "same_kernel s s1"
    "forbid_counter s1 = forbid_counter (permit (forbid s))"
    using m3(1) by (simp add: signal_enter_def enter_list_def m1_def permit_def forbid_def same_kernel_def task_defs Let_def upd_def)
  have "tasks_inv W T LS K ?q s1" using inv' s1(2,3) by (simp add: tasks_inv_def same_kernel_def)
  moreover have "m3 (sigs_waiting t) = 0" using fields(2) [OF tT] f1 by simp
  moreover have "m3 (sigs_recvd t) = ?m (sigs_recvd t) OR sigs"
    using data_sameD(2) [OF lo3(1) tT] data_sameD(2) [OF lo2(1) tT] f1 by simp
  ultimately show ?thesis using s1 rf m3(3) rem(2) same1 by auto
qed

lemma signal_enter_else:
  assumes inv: "tasks_inv W T LS K q s" and L: "L \<in> LS" "L \<noteq> tasks_ready W" and t: "t \<in> set (q L)"
    and sig: "mem s (sigs_waiting t) AND sigs \<noteq> 0" and r: "signal_enter W t sigs s = ret s1"
  shows "elsewhere (task_area T LS) s s1"
proof -
  have "t \<in> T" using lists_okD(3) [OF tasks_invD(5) [OF inv] L(1)] t by blast
  then have "link_area T LS \<union> span (t + 116) 12 \<subseteq> task_area T LS" using task_area_parts(1,4) by blast
  then show ?thesis using signal_enter_readies [OF inv L t sig] r signal_enter_rest [OF r] by (auto simp: elsewhere_def subset_iff)
qed

text \<open>A signal moves a task from one list to another, so it keeps a running task running.\<close>

lemma listed_move:
  assumes "lists_ok T LS m q" "L \<in> LS" "R \<in> LS" "L \<noteq> R" "t \<in> set (q L)"
  shows "listed LS (q(L := remove1 t (q L), R := ins_pri p t (q R))) = listed LS q"
proof -
  have "distinct (q L)" using dll_facts(4) [OF lists_okD(1) [OF assms(1,2)]] .
  then have "set (remove1 t (q L)) \<union> insert t A = set (q L) \<union> A" for A using assms(5) by auto
  moreover have "listed LS (q(L := xs, R := ys)) = set ys \<union> set xs \<union> listed (LS - {R} - {L}) q" for xs ys
    using assms(2-4) by (auto simp: listed_def split: if_splits)
  moreover have "listed LS q = set (q R) \<union> set (q L) \<union> listed (LS - {R} - {L}) q"
    using assms(2-4) by (auto simp: listed_def)
  ultimately show ?thesis by (simp add: Un_commute Un_left_commute)
qed

end
