(* ===== verification/Clock.thy ===== *)
theory Clock
  imports TaskSteps
begin

text \<open>
  The clock interrupt. \<open>timer_callback\<close> goes through \<open>tasks_wait\<close> and counts down the delays. The first task whose
  delay is over is signalled, which moves it to \<open>tasks_ready\<close>; the loop then follows its new link along the ready
  list, so the rest of the waiting list misses this tick. \<open>tick_mem\<close> is the countdown of the tasks before it.
\<close>

section \<open>A yield inside the kernel\<close>

definition in_kernel :: "'a kernel_state_scheme sys \<Rightarrow> u32 set \<Rightarrow> 'a kernel_state_scheme \<Rightarrow> bool" where
  "in_kernel W K s \<longleftrightarrow> 0 \<le> sint (k_reenter s) \<and> sint (k_reenter s) < 2 ^ 31 - 1 \<and> length (interrupt_handlers s) = 256 \<and>
     interrupt_handlers s ! 255 = Some Syscall \<and> (\<forall>s. on_stack K (frame W s))"

lemma sint_add_1:
  fixes w :: u32
  assumes "0 \<le> sint w" "sint w < 2 ^ 31 - 1"
  shows "sint (w + 1) = sint w + 1"
  using assms by (simp add: sint_word_ariths signed_take_bit_int_eq_self)

text \<open>The frames that traps from inside the kernel use.\<close>

definition kframes :: "'a kernel_state_scheme sys \<Rightarrow> u32 set" where
  "kframes W = (\<Union>s \<in> {s. 0 \<le> sint (k_reenter s)}. span (frame W s) 64)"

text \<open>It asks for the scheduler and ends every forbidden section, but does not switch.\<close>

lemma nested_yield:
  assumes "in_kernel W K s"
  shows "yield W s = ret (s\<lparr>mem := push_frame (frame W s) (trap_frame SYSCALL_YIELD 0 (registers W s)) (mem s),
    sched_state := sched_state s OR NEED_SCHEDULE, forbid_counter := 0\<rparr>)"
proof -
  have k: "sint (k_reenter s + 1) > 0" using assms sint_add_1 [of "k_reenter s"] by (simp add: in_kernel_def)
  have h: "interrupt_handlers s ! 255 = Some Syscall" "255 < length (interrupt_handlers s)"
    using assms by (simp_all add: in_kernel_def)
  let ?m = "push_frame (frame W s) (trap_frame SYSCALL_YIELD 0 (registers W s)) (mem s)"
  let ?s1 = "s\<lparr>mem := ?m, k_reenter := k_reenter s + 1, sched_state := sched_state s OR NEED_SCHEDULE, forbid_counter := 0,
    iflag := False\<rparr>"
  have "reschedule W (frame W s) ?s1 = ret ?s1" using k by (intro reschedule_forbidden) simp
  then have "trap W SYSCALL_YIELD 0 s = ret (?s1\<lparr>k_reenter := k_reenter ?s1 - 1, iflag := iflag s\<rparr>)"
    using h by (simp add: trap_def idt_handler_def handler_of_def soft_call_def syscall_def yield_flags_def
      push_frame_regs disable_def enable_def Let_def)
  moreover have "?s1\<lparr>k_reenter := k_reenter ?s1 - 1, iflag := iflag s\<rparr> =
      s\<lparr>mem := ?m, sched_state := sched_state s OR NEED_SCHEDULE, forbid_counter := 0\<rparr>" by simp
  ultimately show ?thesis by (simp add: yield_def system_call_def)
qed

section \<open>The countdown\<close>

definition delayed :: "cells \<Rightarrow> u32 \<Rightarrow> bool" where
  "delayed m t \<longleftrightarrow> m (sigs_waiting t) AND TB_DELAY \<noteq> 0"

definition expires :: "cells \<Rightarrow> u32 \<Rightarrow> bool" where
  "expires m t \<longleftrightarrow> delayed m t \<and> m (task_delay t) = 1"

definition tick_task :: "u32 \<Rightarrow> cells \<Rightarrow> cells" where
  "tick_task t m = (if delayed m t then m(task_delay t := m (task_delay t) - 1) else m)"

definition tick_mem :: "u32 list \<Rightarrow> cells \<Rightarrow> cells" where
  "tick_mem ts m = fold tick_task ts m"

definition first_task :: "u32 list \<Rightarrow> u32" where
  "first_task ts = (case ts of [] \<Rightarrow> 0 | t # _ \<Rightarrow> t)"

lemma tick_task_inv:
  assumes inv: "tasks_inv W T LS K q s" and t: "t \<in> T"
  shows "tasks_inv W T LS K q (s\<lparr>mem := tick_task t (mem s)\<rparr>)"
    and "run_flags T (tick_task t (mem s)) r = run_flags T (mem s) r"
    and "x \<in> T \<Longrightarrow> tick_task t (mem s) (sigs_waiting x) = mem s (sigs_waiting x)"
    and "x \<in> T \<Longrightarrow> x \<noteq> t \<Longrightarrow> tick_task t (mem s) (task_delay x) = mem s (task_delay x)"
    and "x \<in> T \<Longrightarrow> node_pri (tick_task t (mem s)) x = node_pri (mem s) x"
    and "x \<in> T \<Longrightarrow> frame_at (tick_task t (mem s)) (task_state x) = frame_at (mem s) (task_state x)"
    and "c \<noteq> task_delay t \<Longrightarrow> tick_task t (mem s) c = mem s c"
proof -
  let ?m = "tick_task t (mem s)"
  note iv = tasks_invD [OF inv]
  show same: "c \<noteq> task_delay t \<Longrightarrow> ?m c = mem s c" for c by (simp add: tick_task_def)
  have e: "t + 128 = (t + 112) + 16" by simp
  have "task_delay t \<in> span (t + 112) 28" unfolding task_delay_def e by (simp only: span_add) simp
  then have "?m c = mem s c" if "c \<notin> span (t + 112) 28" for c using that by (intro same) blast
  then have "\<forall>c. c \<notin> span (t + 112) 28 \<longrightarrow> ?m c = mem s c" by simp
  note ow = own_write [OF iv(1) t this]
  show sw: "?m (sigs_waiting x) = mem s (sigs_waiting x)" if "x \<in> T" for x
    using ow(2) [OF that, of 120] same [of "t + 120"] by (cases "x = t") (simp_all add: task_defs)
  have fl: "?m (task_flags x) = mem s (task_flags x)" if "x \<in> T" for x
    using ow(2) [OF that, of 116] same [of "t + 116"] by (cases "x = t") (simp_all add: task_defs)
  show "x \<in> T \<Longrightarrow> x \<noteq> t \<Longrightarrow> ?m (task_delay x) = mem s (task_delay x)"
    using ow(2) [of x 128] by (simp add: task_delay_def)
  show "x \<in> T \<Longrightarrow> node_pri ?m x = node_pri (mem s) x" by (rule ow(4))
  show "x \<in> T \<Longrightarrow> frame_at ?m (task_state x) = frame_at (mem s) (task_state x)" by (rule ow(3))
  show "run_flags T ?m r = run_flags T (mem s) r" using fl by (simp add: run_flags_def)
  have "task_ok ?m b x = task_ok (mem s) b x" if "x \<in> T" for b x using sw [OF that] fl [OF that] by (simp add: task_ok_def)
  then show "tasks_inv W T LS K q (s\<lparr>mem := ?m\<rparr>)" using iv ow(1) [OF iv(5)] by (simp add: tasks_inv_def)
qed

lemma next_in_list:
  assumes inv: "tasks_inv W T LS K q s" and L: "L \<in> LS" and q: "q L = us @ t # vs"
  shows "get_next (mem s) t = first_task vs" and "t \<noteq> 0" and "t \<in> T"
proof -
  note iv = tasks_invD [OF inv]
  have "dll (mem s) L (us @ t # vs)" using lists_okD(1) [OF iv(5) L] q by simp
  then show "get_next (mem s) t = first_task vs" by (simp add: get_next_dll first_task_def)
  show "t \<in> T" using lists_okD(3) [OF iv(5) L] q by auto
  then show "t \<noteq> 0" using layout_task(2) [OF iv(1)] by blast
qed

text \<open>Along the ready list nothing happens: no ready task waits for a signal.\<close>

lemma timer_loop_ready:
  assumes "tasks_inv W T LS K q s" and "q (tasks_ready W) = us @ vs"
  shows "timer_loop W (first_task vs) s = ret s"
  using assms
proof (induction vs arbitrary: us)
  case Nil
  then show ?case by (subst timer_loop.simps) (simp add: first_task_def)
next
  case (Cons t vs)
  note iv = tasks_invD [OF Cons.prems(1)]
  note nx = next_in_list [OF Cons.prems(1) iv(2) Cons.prems(2)]
  have "\<not> waiting LS (tasks_ready W) q t"
    using lists_disjoint [OF iv(5) _ iv(2), of _ t] Cons.prems(2) by (auto simp: waiting_def)
  then have "mem s (sigs_waiting t) = 0" using iv(7) [OF nx(3)] by (simp add: task_ok_def)
  moreover have "timer_loop W (first_task vs) s = ret s" using Cons by (intro Cons.IH [of "us @ [t]"]) simp_all
  ultimately show ?case using nx(1,2) by (subst timer_loop.simps) (simp add: first_task_def)
qed

text \<open>Tasks that do not expire are counted down.\<close>

lemma timer_loop_count:
  assumes "tasks_inv W T LS K q s" and "q (tasks_wait W) = us @ xs @ ys" and "\<forall>t \<in> set xs. \<not> expires (mem s) t"
  shows "timer_loop W (first_task (xs @ ys)) s = timer_loop W (first_task ys) (s\<lparr>mem := tick_mem xs (mem s)\<rparr>) \<and>
    tasks_inv W T LS K q (s\<lparr>mem := tick_mem xs (mem s)\<rparr>)"
  using assms
proof (induction xs arbitrary: us s)
  case Nil
  then show ?case by (simp add: tick_mem_def)
next
  case (Cons t xs)
  note iv = tasks_invD [OF Cons.prems(1)]
  have q: "q (tasks_wait W) = us @ t # (xs @ ys)" using Cons.prems(2) by simp
  note nx = next_in_list [OF Cons.prems(1) iv(3) q]
  note tk = tick_task_inv [OF Cons.prems(1) nx(3)]
  let ?s = "s\<lparr>mem := tick_task t (mem s)\<rparr>"
  have dist: "t \<notin> set xs" using dll_facts(4) [OF lists_okD(1) [OF iv(5,3)]] q by simp
  have xsT: "x \<in> T" if "x \<in> set xs" for x using lists_okD(3) [OF iv(5,3)] q that by auto
  have ne: "\<not> expires (mem ?s) x" if "x \<in> set xs" for x
  proof -
    have "x \<noteq> t" using that dist by auto
    then show ?thesis using Cons.prems(3) that tk(3,4) [OF xsT [OF that]] by (simp add: expires_def delayed_def)
  qed
  have IH: "timer_loop W (first_task (xs @ ys)) ?s = timer_loop W (first_task ys) (?s\<lparr>mem := tick_mem xs (mem ?s)\<rparr>) \<and>
    tasks_inv W T LS K q (?s\<lparr>mem := tick_mem xs (mem ?s)\<rparr>)"
    using q ne by (intro Cons.IH [OF tk(1), of "us @ [t]"]) simp_all
  have "\<not> expires (mem s) t" using Cons.prems(3) by simp
  moreover have "w - 1 \<le> 0 \<longleftrightarrow> w = 1" for w :: u32 by simp
  ultimately have "timer_loop W t s = timer_loop W (get_next (mem ?s) t) ?s"
    using nx(2) by (subst timer_loop.simps) (auto simp: tick_task_def expires_def delayed_def Let_def upd_def)
  moreover have "get_next (mem ?s) t = first_task (xs @ ys)" by (rule next_in_list(1) [OF tk(1) iv(3) q])
  ultimately show ?case using IH by (simp add: tick_mem_def first_task_def)
qed

section \<open>Waking a task\<close>

lemma permit_forbid: "0 \<le> sint (forbid_counter s) \<Longrightarrow> sint (forbid_counter s) < 2 ^ 31 - 1 \<Longrightarrow> permit (forbid s) = s"
  using sint_add_1 [of "forbid_counter s"] by (simp add: permit_def forbid_def)

text \<open>The counters of the kernel are small.\<close>

definition counters_ok :: "'a kernel_state_scheme \<Rightarrow> bool" where
  "counters_ok s \<longleftrightarrow> 0 \<le> sint (forbid_counter s) \<and> sint (forbid_counter s) < 2 ^ 31 - 1"

text \<open>\<open>woken W q m t\<close>: the lists after \<open>t\<close> has gone from \<open>tasks_wait\<close> to \<open>tasks_ready\<close>.\<close>

definition woken :: "'a kernel_state_scheme sys \<Rightarrow> (u32 \<Rightarrow> u32 list) \<Rightarrow> cells \<Rightarrow> u32 \<Rightarrow> u32 \<Rightarrow> u32 list" where
  "woken W q m t = q(tasks_wait W := remove1 t (q (tasks_wait W)), tasks_ready W := ins_pri (node_pri m) t (q (tasks_ready W)))"

definition quiet :: "'a kernel_state_scheme \<Rightarrow> 'a kernel_state_scheme \<Rightarrow> bool" where
  "quiet s s' \<longleftrightarrow> running_task s' = running_task s \<and> k_reenter s' = k_reenter s \<and> interrupt_handlers s' = interrupt_handlers s \<and>
     wait_lock s' = wait_lock s \<and> system_tick s' = system_tick s"

lemma timer_loop_wake:
  assumes inv: "tasks_inv W T LS K q s" and ker: "in_kernel W K s" and cnt: "counters_ok s"
    and q: "q (tasks_wait W) = us @ t # ys" and ex: "expires (mem s) t"
  shows "\<exists>s'. timer_loop W t s = ret s' \<and> tasks_inv W T LS K (woken W q (mem s) t) s' \<and> quiet s s' \<and>
    (\<forall>r. run_flags T (mem s') r = run_flags T (mem s) r) \<and>
    forbid_counter s' = (if node_pri (mem s) (running_task s) \<le> node_pri (mem s) t then 0 else forbid_counter s) \<and>
    mem s' (sigs_waiting t) = 0 \<and> mem s' (sigs_recvd t) = mem s (sigs_recvd t) OR TB_DELAY \<and>
    (\<forall>c. c \<notin> link_area T LS \<union> kframes W \<union> span (t + 112) 28 \<longrightarrow> mem s' c = mem s c)"
proof -
  let ?m = "mem s"
  note iv = tasks_invD [OF inv]
  note nx = next_in_list [OF inv iv(3) q]
  note tk = tick_task_inv [OF inv nx(3)]
  have del: "delayed ?m t" "?m (task_delay t) = 1" using ex by (simp_all add: expires_def)
  let ?s0 = "disable (s\<lparr>mem := tick_task t ?m\<rparr>)"
  have s0: "mem ?s0 = tick_task t ?m" "running_task ?s0 = running_task s" "k_reenter ?s0 = k_reenter s"
    "interrupt_handlers ?s0 = interrupt_handlers s" "forbid_counter ?s0 = forbid_counter s" "wait_lock ?s0 = wait_lock s"
    "system_tick ?s0 = system_tick s"
    by (simp_all add: disable_def)
  have inv0: "tasks_inv W T LS K q ?s0" using tk(1) by (subst tasks_inv_same [of _ "s\<lparr>mem := tick_task t ?m\<rparr>"]) (simp_all add: disable_def)
  have d0: "mem ?s0 (sigs_waiting t) AND TB_DELAY \<noteq> 0" using del tk(3) [OF nx(3)] by (simp add: s0(1) delayed_def)
  have run: "running_task s \<in> T" by (rule iv(6))
  have lw: "t \<in> set (q (tasks_wait W))" using q by simp
  obtain s1 where s1: "signal_enter W t TB_DELAY ?s0 = ret s1" "same_kernel ?s0 s1" "forbid_counter s1 = forbid_counter (permit (forbid ?s0))"
    "tasks_inv W T LS K (woken W q (mem ?s0) t) s1" "\<forall>r. run_flags T (mem s1) r = run_flags T (mem ?s0) r"
    "mem s1 (sigs_waiting t) = 0" "mem s1 (sigs_recvd t) = mem ?s0 (sigs_recvd t) OR TB_DELAY"
    "\<forall>c. c \<notin> link_area T LS \<union> span (t + 116) 12 \<longrightarrow> mem s1 c = mem ?s0 c"
    using signal_enter_readies [OF inv0 iv(3) iv(4) lw d0] unfolding woken_def by blast
  have pri: "node_pri (tick_task t ?m) x = node_pri ?m x" if "x \<in> T" for x by (rule tk(5) [OF that])
  have wk: "woken W q (mem ?s0) t = woken W q ?m t"
  proof -
    have "ins_pri (node_pri (tick_task t ?m)) t (q (tasks_ready W)) = ins_pri (node_pri ?m) t (q (tasks_ready W))"
      using lists_okD(3) [OF iv(5,2)] nx(3) pri by (intro ins_pri_cong) auto
    then show ?thesis by (simp add: woken_def s0(1))
  qed
  have f: "forbid_counter s1 = forbid_counter s" using s1(3) cnt by (subst (asm) permit_forbid) (simp_all add: counters_ok_def s0(5))
  have pri1: "node_pri (mem s1) x = node_pri ?m x" if x: "x \<in> T" for x
  proof -
    have "x + 12 \<notin> span (t + 116) 12"
    proof (cases "x = t")
      case True
      then show ?thesis by (simp add: span_def)
    next
      case False
      have e: "t + 116 = t + (116 :: u32)" ..
      have "span (t + 116) 12 \<subseteq> span t 140" by (rule span_shift) simp
      moreover have "x + 12 \<in> span x 140" by simp
      ultimately show ?thesis using layout_okD(4) [OF iv(1) x nx(3) False] by blast
    qed
    then have "mem s1 (x + 12) = mem ?s0 (x + 12)" using s1(8) layout_field(1) [OF iv(1) x, of 12] by simp
    then show ?thesis using pri [OF x] by (simp add: node_pri_def s0(1))
  qed
  let ?yields = "node_pri ?m (running_task s) \<le> node_pri ?m t"
  define s2 where "s2 = (if ?yields then s1\<lparr>mem := push_frame (frame W s1) (trap_frame SYSCALL_YIELD 0 (registers W s1)) (mem s1),
    sched_state := sched_state s1 OR NEED_SCHEDULE, forbid_counter := 0\<rparr> else s1)"
  have ker1: "in_kernel W K s1" using ker s1(2) by (simp add: in_kernel_def same_kernel_def s0)
  have sig: "signal W t TB_DELAY ?s0 = ret (TB_DELAY, s2)"
    using s1(1,2) d0 nested_yield [OF ker1] pri1 run nx(3)
    by (simp add: signal_def s2_def same_kernel_def s0 TB_DELAY_def)
  have K2: "\<forall>c. c \<notin> K \<longrightarrow> mem s2 c = mem s1 c"
    using push_on_stack [of K "frame W s1"] ker1 by (simp add: s2_def in_kernel_def)
  have q2: "quiet s s2" using s1(2) by (simp add: quiet_def same_kernel_def s0 s2_def)
  have "tasks_inv W T LS K (woken W q ?m t) (s1\<lparr>mem := mem s2\<rparr>)" using stack_write_inv [OF s1(4) K2] wk by simp
  then have inv2: "tasks_inv W T LS K (woken W q ?m t) s2" by (simp add: tasks_inv_def s2_def split: if_splits)
  note sw = stack_write [OF iv(1) K2]
  have "t \<in> set (woken W q ?m t (tasks_ready W))" by (simp add: woken_def)
  then obtain as bs where ab: "woken W q ?m t (tasks_ready W) = as @ t # bs" by (meson split_list)
  have inv3: "tasks_inv W T LS K (woken W q ?m t) (enable s2)" using inv2 by (simp add: tasks_inv_def enable_def)
  have "get_next (mem (enable s2)) t = first_task bs" by (rule next_in_list(1) [OF inv3 iv(2) ab])
  moreover have "timer_loop W (first_task bs) (enable s2) = ret (enable s2)"
    using ab by (intro timer_loop_ready [OF inv3, of "as @ [t]"]) simp
  moreover have "upd (task_delay t) (?m (task_delay t) - 1) s = s\<lparr>mem := tick_task t ?m\<rparr>" using del(1) by (simp add: upd_def tick_task_def)
  moreover have "mem (upd (task_delay t) (?m (task_delay t) - 1) s) (task_delay t) \<le> 0" using del(2) by simp
  ultimately have loop: "timer_loop W t s = ret (enable s2)"
    using nx(2) del(1) sig by (subst timer_loop.simps) (simp add: delayed_def Let_def)
  have sub: "span (t + 116) 12 \<subseteq> span (t + 112) 28" "task_delay t \<in> span (t + 112) 28"
  proof -
    have e: "t + 116 = (t + 112) + 4" "t + 128 = (t + 112) + 16" by simp_all
    show "span (t + 116) 12 \<subseteq> span (t + 112) 28" unfolding e by (rule span_shift) simp
    show "task_delay t \<in> span (t + 112) 28" unfolding task_delay_def e by (simp only: span_add) simp
  qed
  have kf: "mem s2 c = mem s1 c" if "c \<notin> kframes W" for c
  proof -
    have "0 \<le> sint (k_reenter s1)" using ker1 by (simp add: in_kernel_def)
    then have "c \<notin> span (frame W s1) 64" using that unfolding kframes_def by blast
    then show ?thesis by (simp add: s2_def push_frame_other)
  qed
  have "mem s2 c = ?m c" if "c \<notin> link_area T LS \<union> kframes W \<union> span (t + 112) 28" for c
  proof -
    have "c \<noteq> task_delay t" "c \<notin> link_area T LS \<union> span (t + 116) 12" "c \<notin> kframes W" using that sub by blast+
    then show ?thesis using kf s1(8) tk(7) [of c] s0(1) by simp
  qed
  moreover have "mem s2 (sigs_waiting t) = 0" using sw(2) [OF nx(3)] s1(6) by simp
  moreover have "mem s2 (sigs_recvd t) = ?m (sigs_recvd t) OR TB_DELAY"
    using sw(4) [OF nx(3)] s1(7) tk(7) [of "sigs_recvd t"] by (simp add: s0(1) task_defs)
  moreover have "run_flags T (mem s2) r = run_flags T ?m r" for r
  proof -
    have "run_flags T (mem s2) r = run_flags T (mem s1) r" using sw(1) by (simp add: run_flags_def)
    then show ?thesis using s1(5) tk(2) by (simp add: s0(1))
  qed
  moreover have "forbid_counter s2 = (if ?yields then 0 else forbid_counter s)" using f by (simp add: s2_def)
  ultimately show ?thesis
    using loop inv3 q2 by (intro exI [of _ "enable s2"]) (simp add: enable_def quiet_def)
qed

section \<open>The tick\<close>

lemma tick_mem_other: "(\<And>t. t \<in> set ts \<Longrightarrow> c \<noteq> task_delay t) \<Longrightarrow> tick_mem ts m c = m c"
  unfolding tick_mem_def by (induction ts arbitrary: m) (auto simp: tick_task_def)

lemma tick_mem_fields:
  assumes lay: "layout_ok T LS K" and ts: "set ts \<subseteq> T" "distinct ts" and x: "x \<in> T"
  shows "tick_mem ts m (sigs_waiting x) = m (sigs_waiting x)"
    and "tick_mem ts m (task_delay x) = (if x \<in> set ts \<and> delayed m x then m (task_delay x) - 1 else m (task_delay x))"
    and "tick_mem ts m (sigs_recvd x) = m (sigs_recvd x)"
proof -
  have "x + 124 \<noteq> t + 128" if "t \<in> T" for t using layout_field(3) [OF lay x _ _ that, of 124 128] by simp
  then show "tick_mem ts m (sigs_recvd x) = m (sigs_recvd x)"
    using ts(1) by (intro tick_mem_other) (auto simp: task_defs)
  have df: "y + 120 \<noteq> t + 128" "y + 128 = t + 128 \<longleftrightarrow> y = t" if "t \<in> T" "y \<in> T" for t y
    using layout_field(3) [OF lay that(2) _ _ that(1), of 120 128] by simp_all
  show sw: "tick_mem ts m (sigs_waiting x) = m (sigs_waiting x)"
    using df(1) [OF _ x] ts(1) by (intro tick_mem_other) (auto simp: task_defs)
  show "tick_mem ts m (task_delay x) = (if x \<in> set ts \<and> delayed m x then m (task_delay x) - 1 else m (task_delay x))"
    using ts unfolding tick_mem_def
  proof (induction ts arbitrary: m)
    case (Cons t ts)
    have t: "t \<in> T" using Cons.prems by simp
    have "delayed (tick_task t m) x = delayed m x"
      using df(1) [OF t x] by (simp add: delayed_def tick_task_def task_defs)
    moreover have "tick_task t m (task_delay x) = (if x = t \<and> delayed m t then m (task_delay x) - 1 else m (task_delay x))"
      using df(2) [OF t x] by (simp add: tick_task_def task_defs)
    ultimately show ?case using Cons by auto
  qed simp
qed

lemma expires_dropWhile:
  "dropWhile (\<lambda>t. \<not> expires m t) xs = t # ys \<Longrightarrow> expires m t \<and> xs = takeWhile (\<lambda>t. \<not> expires m t) xs @ t # ys"
  by (metis dropWhile_eq_Cons_conv takeWhile_dropWhile_id)

text \<open>The tick as a function of the lists: nothing expires, or the first task that does is woken.\<close>

definition ticked :: "'a kernel_state_scheme sys \<Rightarrow> (u32 \<Rightarrow> u32 list) \<Rightarrow> cells \<Rightarrow> u32 \<Rightarrow> u32 list" where
  "ticked W q m = (case dropWhile (\<lambda>t. \<not> expires m t) (q (tasks_wait W)) of [] \<Rightarrow> q | t # ys \<Rightarrow> woken W q m t)"

text \<open>A task that is woken takes the processor from one of lower or equal priority: \<open>signal\<close> yields.\<close>

definition wakes :: "'a kernel_state_scheme sys \<Rightarrow> (u32 \<Rightarrow> u32 list) \<Rightarrow> cells \<Rightarrow> u32 \<Rightarrow> bool" where
  "wakes W q m r = (case dropWhile (\<lambda>t. \<not> expires m t) (q (tasks_wait W)) of [] \<Rightarrow> False | t # ys \<Rightarrow> node_pri m r \<le> node_pri m t)"

definition counted :: "cells \<Rightarrow> u32 list \<Rightarrow> u32 list" where
  "counted m ts = takeWhile (\<lambda>t. \<not> expires m t) ts"

lemma timer_callback_tick:
  assumes inv: "tasks_inv W T LS K q s" and ker: "in_kernel W K s" and cnt: "counters_ok s" and lock: "wait_lock s = 0"
  shows "\<exists>s'. timer_callback W s = ret s' \<and> tasks_inv W T LS K (ticked W q (mem s)) s' \<and>
    running_task s' = running_task s \<and> k_reenter s' = k_reenter s \<and> interrupt_handlers s' = interrupt_handlers s \<and> wait_lock s' = 0 \<and>
    system_tick s' = system_tick s + 1 \<and> sched_state s' AND NEED_SCHEDULE \<noteq> 0 \<and> counters_ok s' \<and>
    forbid_counter s' = (if wakes W q (mem s) (running_task s) then 0 else forbid_counter s) \<and>
    (\<forall>r. run_flags T (mem s') r = run_flags T (mem s) r) \<and>
    (\<forall>x \<in> set (counted (mem s) (q (tasks_wait W))). mem s' (task_delay x) = mem s (task_delay x) - (if delayed (mem s) x then 1 else 0)) \<and>
    (case dropWhile (\<lambda>t. \<not> expires (mem s) t) (q (tasks_wait W)) of []
       \<Rightarrow> \<forall>x \<in> T. mem s' (sigs_waiting x) = mem s (sigs_waiting x) \<and> mem s' (sigs_recvd x) = mem s (sigs_recvd x)
     | t # ys \<Rightarrow> mem s' (sigs_recvd t) = mem s (sigs_recvd t) OR TB_DELAY \<and>
         (\<forall>x \<in> set ys. mem s' (task_delay x) = mem s (task_delay x))) \<and>
    (\<forall>c. c \<notin> link_area T LS \<union> kframes W \<union> (\<Union>t \<in> T. span (t + 112) 28) \<longrightarrow> mem s' c = mem s c)"
proof -
  let ?L = "q (tasks_wait W)" and ?m = "mem s"
  define xs where "xs = counted ?m ?L"
  define ds where "ds = dropWhile (\<lambda>t. \<not> expires ?m t) ?L"
  note iv = tasks_invD [OF inv]
  let ?s0 = "s\<lparr>system_tick := system_tick s + 1\<rparr>"
  have inv0: "tasks_inv W T LS K q ?s0" using inv by (simp add: tasks_inv_def)
  have L: "?L = [] @ xs @ ds" by (simp add: xs_def ds_def counted_def)
  have LT: "set ?L \<subseteq> T" by (rule lists_okD(3) [OF iv(5,3)])
  have dist: "distinct ?L" by (rule dll_facts(4) [OF lists_okD(1) [OF iv(5,3)]])
  have xsT: "set xs \<subseteq> T" "distinct xs" "set xs \<inter> set ds = {}" "set ds \<subseteq> T" using LT dist L by auto
  have ne: "\<forall>t \<in> set xs. \<not> expires (mem ?s0) t" by (auto simp: xs_def counted_def dest: set_takeWhileD)
  let ?s1 = "?s0\<lparr>mem := tick_mem xs ?m\<rparr>"
  have c1: "timer_loop W (first_task ?L) ?s0 = timer_loop W (first_task ds) ?s1" "tasks_inv W T LS K q ?s1"
    using timer_loop_count [OF inv0 L ne] L by simp_all
  note tm = tick_mem_fields [OF iv(1) xsT(1,2)]
  have "get_head ?m (tasks_wait W) = first_task ?L" using get_head_dll [OF lists_okD(1) [OF iv(5,3)]] by (simp add: first_task_def)
  then have cb: "timer_callback W s = bnd (timer_loop W (first_task ds) ?s1) (\<lambda>s. ret (s\<lparr>sched_state := sched_state s OR NEED_SCHEDULE\<rparr>))"
    using lock c1(1) by (simp add: timer_callback_def)
  have delay_in: "task_delay t \<in> span (t + 112) 28" for t
  proof -
    have e: "t + 128 = (t + 112) + 16" by simp
    show ?thesis unfolding task_delay_def e by (simp only: span_add) simp
  qed
  have out1: "mem ?s1 c = ?m c" if "c \<notin> (\<Union>t \<in> T. span (t + 112) 28)" for c
  proof -
    have "c \<noteq> task_delay t" if "t \<in> set xs" for t
      using delay_in [of t] xsT(1) that \<open>c \<notin> _\<close> by blast
    from tick_mem_other [OF this] show ?thesis by simp
  qed
  have rf1: "run_flags T (mem ?s1) r = run_flags T ?m r" for r
  proof -
    have "mem ?s1 (task_flags t) = ?m (task_flags t)" if "t \<in> T" for t
    proof -
      have "task_flags t \<noteq> task_delay x" if "x \<in> set xs" for x
        using layout_field(3) [OF iv(1) \<open>t \<in> T\<close>, of 116 x 128] xsT(1) that by (auto simp: task_defs)
      from tick_mem_other [OF this] show ?thesis by simp
    qed
    then show ?thesis by (simp add: run_flags_def)
  qed
  have d1: "mem ?s1 (task_delay x) = ?m (task_delay x) - (if delayed ?m x then 1 else 0)" if "x \<in> set xs" for x
    using tm(2) [of x ?m] xsT(1) that by (simp add: subset_iff)
  have d2: "mem ?s1 (task_delay x) = ?m (task_delay x)" if "x \<in> set ds" for x
    using tm(2) [of x ?m] xsT(3,4) that by (auto simp: subset_iff)
  show ?thesis
  proof (cases ds)
    case Nil
    have "timer_loop W (first_task []) ?s1 = ret ?s1" by (subst timer_loop.simps) (simp add: first_task_def)
    then have r: "timer_callback W s = ret (?s1\<lparr>sched_state := sched_state s OR NEED_SCHEDULE\<rparr>)" using cb Nil by simp
    have "tasks_inv W T LS K (ticked W q ?m) (?s1\<lparr>sched_state := sched_state s OR NEED_SCHEDULE\<rparr>)"
      using c1(2) Nil unfolding ticked_def ds_def [symmetric] by (simp add: tasks_inv_def)
    then show ?thesis
      unfolding wakes_def ds_def [symmetric] xs_def [symmetric] using r Nil lock need_bit cnt rf1 d1 out1 tm(1,3)
      by (intro exI [of _ "?s1\<lparr>sched_state := sched_state s OR NEED_SCHEDULE\<rparr>"]) (simp add: counters_ok_def)
  next
    case (Cons t ys)
    have ext: "expires ?m t" using expires_dropWhile [of ?m ?L t ys] Cons by (simp add: ds_def)
    have tT: "t \<in> T" using xsT(4) Cons by simp
    have ex1: "expires (mem ?s1) t"
      using ext tm(1) [OF tT] d2 [of t] Cons by (simp add: expires_def delayed_def)
    have q1: "q (tasks_wait W) = xs @ t # ys" using L Cons by simp
    have "in_kernel W K ?s1" "counters_ok ?s1" using ker cnt by (simp_all add: in_kernel_def counters_ok_def)
    from timer_loop_wake [OF c1(2) this q1 ex1] obtain s2 where
      s2: "timer_loop W t ?s1 = ret s2" "tasks_inv W T LS K (woken W q (mem ?s1) t) s2" "quiet ?s1 s2"
      "\<forall>r. run_flags T (mem s2) r = run_flags T (mem ?s1) r"
      "forbid_counter s2 = (if node_pri (mem ?s1) (running_task ?s1) \<le> node_pri (mem ?s1) t then 0 else forbid_counter ?s1)"
      "mem s2 (sigs_recvd t) = mem ?s1 (sigs_recvd t) OR TB_DELAY"
      "\<forall>c. c \<notin> link_area T LS \<union> kframes W \<union> span (t + 112) 28 \<longrightarrow> mem s2 c = mem ?s1 c"
      by blast
    have pri: "node_pri (mem ?s1) x = node_pri ?m x" if x: "x \<in> T" for x
    proof -
      have "x + 12 \<noteq> task_delay y" if "y \<in> set xs" for y
        using layout_field(3) [OF iv(1) x, of 12 y 128] xsT(1) that by (auto simp: task_defs)
      from tick_mem_other [OF this] show ?thesis by (simp add: node_pri_def)
    qed
    have "woken W q (mem ?s1) t = woken W q ?m t"
    proof -
      have "ins_pri (node_pri (mem ?s1)) t (q (tasks_ready W)) = ins_pri (node_pri ?m) t (q (tasks_ready W))"
        using lists_okD(3) [OF iv(5,2)] tT pri by (intro ins_pri_cong) auto
      then show ?thesis by (simp add: woken_def)
    qed
    then have tick: "tasks_inv W T LS K (ticked W q ?m) s2" using s2(2) Cons unfolding ticked_def ds_def [symmetric] by simp
    have own: "x + k \<notin> link_area T LS \<union> kframes W \<union> span (t + 112) 28" if "x \<in> T" "x \<noteq> t" "8 \<le> unat k" "unat k < 140" for x k
    proof -
      have "kframes W \<subseteq> K" using ker by (auto simp: kframes_def in_kernel_def on_stack_def)
      moreover have "span (t + 112) 28 \<subseteq> span t 140" by (rule span_shift) simp
      moreover have "x + k \<in> span x 140" using that(4) by simp
      ultimately show ?thesis
        using layout_field(1,2) [OF iv(1) that(1,3,4)] layout_okD(4) [OF iv(1) that(1) tT that(2)] by blast
    qed
    have dk: "mem s2 (task_delay x) = mem ?s1 (task_delay x)" if "x \<in> T" "x \<noteq> t" for x
      using s2(7) own [OF that, of 128] by (simp add: task_delay_def)
    have tx: "t \<notin> set xs" "t \<notin> set ys" using dist q1 by simp_all
    have sr: "mem ?s1 (sigs_recvd t) = ?m (sigs_recvd t)"
    proof -
      have "sigs_recvd t \<noteq> task_delay y" if "y \<in> set xs" for y
        using layout_field(3) [OF iv(1) tT, of 124 y 128] xsT(1) that by (auto simp: task_defs)
      from tick_mem_other [OF this] show ?thesis by simp
    qed
    have cx: "mem s2 (task_delay x) = ?m (task_delay x) - (if delayed ?m x then 1 else 0)" if "x \<in> set xs" for x
    proof -
      have "x \<in> T" "x \<noteq> t" using xsT(1) tx(1) that by auto
      then show ?thesis using dk d1 [OF that] by simp
    qed
    have cy: "mem s2 (task_delay x) = ?m (task_delay x)" if "x \<in> set ys" for x
    proof -
      have "x \<in> T" "x \<noteq> t" "x \<in> set ds" using xsT(4) tx(2) that Cons by auto
      then show ?thesis using dk d2 by simp
    qed
    have out: "mem s2 c = ?m c" if "c \<notin> link_area T LS \<union> kframes W \<union> (\<Union>t \<in> T. span (t + 112) 28)" for c
      using s2(7) out1 [of c] tT that by auto
    let ?s' = "s2\<lparr>sched_state := sched_state s2 OR NEED_SCHEDULE\<rparr>"
    have "timer_callback W s = ret ?s'" using cb Cons s2(1) by (simp add: first_task_def)
    moreover have "tasks_inv W T LS K (ticked W q ?m) ?s'" using tick by (simp add: tasks_inv_def)
    ultimately show ?thesis
      unfolding wakes_def ds_def [symmetric] xs_def [symmetric]
      using Cons s2(3,4,5,6) cx cy out sr rf1 pri [OF tT] pri [OF iv(6)] need_bit lock cnt
      by (intro exI [of _ ?s']) (simp add: quiet_def counters_ok_def)
  qed
qed

section \<open>What the clock leaves alone\<close>

text \<open>Whatever the lists are, the clock handler changes only the variables of the scheduler and memory.\<close>

lemma signal_rest:
  assumes ker: "in_kernel W K s" and r: "signal W t sigs s = ret (v, s')"
  shows "rest_of s' = rest_of s \<and> k_reenter s' = k_reenter s"
proof (cases "sigs \<noteq> 0 \<and> mem s (sigs_waiting t) AND sigs \<noteq> 0")
  case True
  then obtain s1 where s1: "signal_enter W t sigs s = ret s1"
    "bnd (if node_pri (mem s1) (running_task s1) \<le> node_pri (mem s1) t then yield W s1 else ret s1) (\<lambda>s. ret (sigs, s)) = ret (v, s')"
    using r by (auto simp: signal_def bnd_eq_ret)
  note e = signal_enter_rest [OF s1(1)]
  have k: "k_reenter s1 = k_reenter s"
    using s1(1) unfolding signal_enter_def Let_def bnd_eq_ret
    by (auto simp: ret_def enter_list_def forbid_def permit_def Option.bind_eq_Some_conv)
  have "in_kernel W K s1" using ker k rest_ofD(7) [OF e] by (simp add: in_kernel_def)
  from nested_yield [OF this] show ?thesis using s1(2) e k by (auto simp: bnd_eq_ret split: if_splits)
next
  case False
  then show ?thesis using r by (auto simp: signal_def)
qed

lemma timer_loop_rest:
  assumes "timer_loop W t s = ret s'" and "in_kernel W K s"
  shows "rest_of s' = rest_of s"
proof -
  have "rest_of s' = rest_of s" if "timer_loop W' t s = Some r" "W' = W" "r = Inr s'" "in_kernel W K s" for W' r
    using that
  proof (induction rule: timer_loop.raw_induct [rotated, consumes 1, case_names step])
    case (step timer_loop W' t s r)
    let ?u = "upd (task_delay t) (mem s (task_delay t) - 1) s"
    define one where "one = (if mem s (sigs_waiting t) AND TB_DELAY \<noteq> 0 then
      if mem ?u (task_delay t) \<le> 0 then bnd (signal W t TB_DELAY (disable ?u)) (\<lambda>(r, s). ret (enable s)) else ret ?u else ret s)"
    show ?case
    proof (cases "t = 0")
      case True
      then show ?thesis using step(2,4) by (simp add: ret_def)
    next
      case False
      then have "bnd one (\<lambda>s. timer_loop W' (get_next (mem s) t) s) = Some (Inr s')"
        using step(2) unfolding step(3,4) one_def Let_def by (simp only: False simp_thms if_True)
      then obtain s1 where s1: "one = ret s1" "timer_loop W' (get_next (mem s1) t) s1 = Some (Inr s')"
        unfolding ret_def [symmetric] bnd_eq_ret by (auto simp: ret_def)
      have ker: "in_kernel W K (disable ?u)" using step(5) by (simp add: in_kernel_def disable_def)
      have one: "rest_of s1 = rest_of s \<and> k_reenter s1 = k_reenter s"
        using s1(1) signal_rest [OF ker, of t TB_DELAY]
        by (auto simp: one_def bnd_eq_ret disable_def enable_def split: if_splits)
      then have "in_kernel W K s1" using step(5) rest_ofD(7) [of s1 s] by (simp add: in_kernel_def)
      from step(1) [OF s1(2) step(3) refl this] show ?thesis using one by simp
    qed
  qed
  then show ?thesis using assms by (auto simp: ret_def)
qed

lemma timer_callback_rest:
  assumes "timer_callback W s = ret s'" and "in_kernel W K s"
  shows "rest_of s' = rest_of s"
proof -
  let ?s = "s\<lparr>system_tick := system_tick s + 1\<rparr>"
  obtain s1 where s1: "(if wait_lock ?s = 0 then timer_loop W (get_head (mem ?s) (tasks_wait W)) ?s else ret ?s) = ret s1"
    "s' = s1\<lparr>sched_state := sched_state s1 OR NEED_SCHEDULE\<rparr>"
    using assms(1) by (auto simp: timer_callback_def Let_def bnd_eq_ret)
  have "in_kernel W K ?s" using assms(2) by (simp add: in_kernel_def)
  then have "rest_of s1 = rest_of ?s" using s1(1) timer_loop_rest [of W _ ?s s1 K] by (auto simp del: rest_of_upd split: if_splits)
  then show ?thesis using s1(2) by simp
qed

section \<open>The clock interrupt\<close>

text \<open>A hardware interrupt: the processor and the stub push the frame, \<open>irq_handler\<close> runs, the frame is popped. The only
  handler here is that of the clock.\<close>

definition interrupt ::
  "'a kernel_state_scheme sys \<Rightarrow> (handler \<Rightarrow> u32 \<Rightarrow> 'a kernel_state_scheme \<Rightarrow> 'a kernel_state_scheme outcome) \<Rightarrow>
   u32 \<Rightarrow> 'a kernel_state_scheme \<Rightarrow> 'a kernel_state_scheme outcome" where
  "interrupt W call n s =
    (let m = push_frame (frame W s) ((registers W s)(9 := n, 10 := 0)) (mem s)
     in bnd (irq_handler W call (frame W s) (disable (s\<lparr>mem := m\<rparr>))) (\<lambda>s'. ret (s'\<lparr>iflag := iflag s\<rparr>)))"

definition clock_isr :: "'a kernel_state_scheme sys \<Rightarrow> handler \<Rightarrow> u32 \<Rightarrow> 'a kernel_state_scheme \<Rightarrow> 'a kernel_state_scheme outcome" where
  "clock_isr W h regs s = (if h = Timer_callback then timer_callback W s else fail Undefined)"

definition irq_frame :: "'a kernel_state_scheme sys \<Rightarrow> u32 \<Rightarrow> 'a kernel_state_scheme \<Rightarrow> u32 list" where
  "irq_frame W n s = map ((registers W s)(9 := n, 10 := 0)) [0..<16]"

text \<open>The state in which the handler runs.\<close>

definition irq_state :: "'a kernel_state_scheme sys \<Rightarrow> u32 \<Rightarrow> 'a kernel_state_scheme \<Rightarrow> 'a kernel_state_scheme" where
  "irq_state W n s = s\<lparr>mem := push_frame (frame W s) ((registers W s)(9 := n, 10 := 0)) (mem s), k_reenter := k_reenter s + 1, iflag := True\<rparr>"

definition end_of_interrupt :: "'a kernel_state_scheme \<Rightarrow> 'a kernel_state_scheme" where
  "end_of_interrupt s = outb 0x20 0x20 s\<lparr>k_reenter := k_reenter s - 1\<rparr>"

lemma interrupt_clock:
  assumes "length (interrupt_handlers s) = 256" and "interrupt_handlers s ! 32 = Some Timer_callback"
  shows "interrupt W (clock_isr W) 32 s = bnd (timer_callback W (irq_state W 32 s)) (\<lambda>s1.
    bnd (reschedule W (frame W s) (disable s1)) (\<lambda>s2. ret (end_of_interrupt s2\<lparr>iflag := iflag s\<rparr>)))"
proof -
  let ?c = "(registers W s)(9 := 32, 10 := 0)"
  have "reg_int_no (push_frame (frame W s) ?c (mem s)) (frame W s) = 32"
    using push_frame_cell [of 9 "frame W s" ?c "mem s"] by (simp add: reg_int_no_def)
  then show ?thesis
    using assms by (simp add: interrupt_def irq_handler_def handler_of_def clock_isr_def irq_state_def end_of_interrupt_def
      outb_def disable_def enable_def Let_def bnd_assoc)
qed

text \<open>The saved frames, and the frame on the stack, are not touched by the clock.\<close>

lemma state_not_data:
  assumes lay: "layout_ok T LS K" and t: "t \<in> T" and c: "c \<in> span (task_state t) 64"
  shows "c \<notin> (\<Union>x \<in> T. span (x + 112) 28)"
proof
  assume "c \<in> (\<Union>x \<in> T. span (x + 112) 28)"
  then obtain x where x: "x \<in> T" "c \<in> span (x + 112) 28" by blast
  have "span (x + 112) 28 \<subseteq> span x 140" by (rule span_shift) simp
  then have "x = t" using layout_state(3) [OF lay t x(1)] c x(2) by blast
  obtain i where i: "c = t + 48 + of_nat i" "i < 64" using span_split [OF c] by (auto simp: task_state_def)
  obtain j where j: "c = t + 112 + of_nat j" "j < 28" using span_split [OF x(2)] \<open>x = t\<close> by auto
  have "48 + of_nat i = (112 + of_nat j :: u32)" using i(1) j(1) by (simp add: add.assoc)
  moreover have "unat (48 + of_nat i :: u32) = 48 + i" "unat (112 + of_nat j :: u32) = 112 + j"
    using i(2) j(2) by (simp_all add: unat_word_ariths unat_of_nat)
  ultimately have "48 + i = 112 + j" by metis
  then show False using i(2) by simp
qed

definition frames_apart :: "'a kernel_state_scheme sys \<Rightarrow> bool" where
  "frames_apart W \<longleftrightarrow> (\<forall>s. k_reenter s = -1 \<longrightarrow> span (frame W s) 64 \<inter> kframes W = {})"

lemma listed_ticked:
  assumes inv: "tasks_inv W T LS K q s"
  shows "listed LS (ticked W q m) = listed LS q"
proof (cases "dropWhile (\<lambda>t. \<not> expires m t) (q (tasks_wait W))")
  case (Cons t ys)
  note iv = tasks_invD [OF inv]
  have "t \<in> set (q (tasks_wait W))" using Cons by (metis list.set_intros(1) set_dropWhileD)
  from listed_move [OF iv(5,3,2,4) this] Cons show ?thesis by (simp add: ticked_def woken_def)
qed (simp only: ticked_def list.case)

text \<open>The clock handler comes to the scheduler with the lists of the tick.\<close>

lemma clock_core:
  assumes inv: "tasks_inv W T LS K q s" and ker: "in_kernel W K (irq_state W 32 s)" and cnt: "counters_ok s" and lock: "wait_lock s = 0"
  shows "\<exists>s1. timer_callback W (irq_state W 32 s) = ret s1 \<and> tasks_inv W T LS K (ticked W q (mem s)) s1 \<and>
    (\<forall>r. run_flags T (mem s1) r = run_flags T (mem s) r) \<and>
    running_task s1 = running_task s \<and> k_reenter s1 = k_reenter s + 1 \<and> interrupt_handlers s1 = interrupt_handlers s \<and> wait_lock s1 = 0 \<and>
    system_tick s1 = system_tick s + 1 \<and> sched_state s1 AND NEED_SCHEDULE \<noteq> 0 \<and> counters_ok s1 \<and>
    forbid_counter s1 = (if wakes W q (mem s) (running_task s) then 0 else forbid_counter s) \<and>
    (\<forall>t \<in> T. frame_at (mem s1) (task_state t) = frame_at (mem s) (task_state t)) \<and>
    (\<forall>t \<in> T. node_pri (mem s1) t = node_pri (mem s) t) \<and>
    ((\<forall>t \<in> set (q (tasks_wait W)). \<not> expires (mem s) t) \<longrightarrow>
      (\<forall>x \<in> set (q (tasks_wait W)). mem s1 (sigs_waiting x) = mem s (sigs_waiting x) \<and>
        mem s1 (sigs_recvd x) = mem s (sigs_recvd x) \<and>
        mem s1 (task_delay x) = mem s (task_delay x) - (if delayed (mem s) x then 1 else 0))) \<and>
    (\<forall>t ys. dropWhile (\<lambda>t. \<not> expires (mem s) t) (q (tasks_wait W)) = t # ys \<longrightarrow>
      mem s1 (sigs_recvd t) = mem s (sigs_recvd t) OR TB_DELAY) \<and>
    (\<forall>c. c \<notin> link_area T LS \<union> kframes W \<union> (\<Union>t \<in> T. span (t + 112) 28) \<longrightarrow>
      mem s1 c = push_frame (frame W s) ((registers W s)(9 := 32, 10 := 0)) (mem s) c)"
proof -
  let ?m = "push_frame (frame W s) ((registers W s)(9 := 32, 10 := 0)) (mem s)" and ?s0 = "irq_state W 32 s"
  note iv = tasks_invD [OF inv]
  have m: "mem ?s0 = ?m" and r: "running_task ?s0 = running_task s" by (simp_all add: irq_state_def)
  have K: "\<forall>c. c \<notin> K \<longrightarrow> ?m c = mem s c" using ker by (intro push_on_stack) (simp add: in_kernel_def)
  have "tasks_inv W T LS K q (s\<lparr>mem := ?m\<rparr>)" by (rule stack_write_inv [OF inv K])
  then have inv0: "tasks_inv W T LS K q ?s0" by (subst tasks_inv_same [of _ "s\<lparr>mem := ?m\<rparr>"]) (simp_all add: m r)
  have "counters_ok ?s0" "wait_lock ?s0 = 0" using cnt lock by (simp_all add: counters_ok_def irq_state_def)
  from timer_callback_tick [OF inv0 ker this] obtain s1 where
    s1: "timer_callback W ?s0 = ret s1" "tasks_inv W T LS K (ticked W q ?m) s1" "running_task s1 = running_task s"
      "k_reenter s1 = k_reenter ?s0" "interrupt_handlers s1 = interrupt_handlers ?s0" "wait_lock s1 = 0"
      "system_tick s1 = system_tick ?s0 + 1" "sched_state s1 AND NEED_SCHEDULE \<noteq> 0" "counters_ok s1"
      "forbid_counter s1 = (if wakes W q ?m (running_task s) then 0 else forbid_counter ?s0)"
      "\<forall>r. run_flags T (mem s1) r = run_flags T ?m r"
      "\<forall>c. c \<notin> link_area T LS \<union> kframes W \<union> (\<Union>t \<in> T. span (t + 112) 28) \<longrightarrow> mem s1 c = ?m c"
      "\<forall>x \<in> set (counted ?m (q (tasks_wait W))). mem s1 (task_delay x) = ?m (task_delay x) - (if delayed ?m x then 1 else 0)"
      "case dropWhile (\<lambda>t. \<not> expires ?m t) (q (tasks_wait W)) of [] \<Rightarrow> \<forall>x \<in> T. mem s1 (sigs_waiting x) = ?m (sigs_waiting x) \<and> mem s1 (sigs_recvd x) = ?m (sigs_recvd x)
        | t # ys \<Rightarrow> mem s1 (sigs_recvd t) = ?m (sigs_recvd t) OR TB_DELAY \<and> (\<forall>x \<in> set ys. mem s1 (task_delay x) = ?m (task_delay x))"
    unfolding m r by blast
  have dwm: "dropWhile (\<lambda>t. \<not> expires ?m t) (q (tasks_wait W)) = dropWhile (\<lambda>t. \<not> expires (mem s) t) (q (tasks_wait W))"
    using stack_write [OF iv(1) K] lists_okD(3) [OF iv(5,3)] by (intro dropWhile_cong) (auto simp: expires_def delayed_def)
  have woke: "mem s1 (sigs_recvd t) = mem s (sigs_recvd t) OR TB_DELAY"
    if "dropWhile (\<lambda>t. \<not> expires (mem s) t) (q (tasks_wait W)) = t # ys" for t ys
  proof -
    have "t \<in> set (q (tasks_wait W))" using that by (metis list.set_intros(1) set_dropWhileD)
    then have "t \<in> T" using lists_okD(3) [OF iv(5,3)] by blast
    then show ?thesis using s1(14) stack_write(4) [OF iv(1) K] unfolding dwm that list.case by simp
  qed
  have tk: "ticked W q ?m = ticked W q (mem s)" "wakes W q ?m (running_task s) = wakes W q (mem s) (running_task s)"
  proof -
    have "expires ?m t = expires (mem s) t" "node_pri ?m t = node_pri (mem s) t" if "t \<in> T" for t
      using stack_write [OF iv(1) K that] by (simp_all add: expires_def delayed_def)
    moreover have "set (q (tasks_wait W)) \<subseteq> T" "set (q (tasks_ready W)) \<subseteq> T" using lists_okD(3) [OF iv(5)] iv(2,3) by blast+
    ultimately have dw: "dropWhile (\<lambda>t. \<not> expires ?m t) (q (tasks_wait W)) = dropWhile (\<lambda>t. \<not> expires (mem s) t) (q (tasks_wait W))"
      and ip: "\<And>t. t \<in> set (q (tasks_wait W)) \<Longrightarrow> ins_pri (node_pri ?m) t (q (tasks_ready W)) = ins_pri (node_pri (mem s)) t (q (tasks_ready W))"
      by (auto intro!: dropWhile_cong ins_pri_cong)
    have "t \<in> set (q (tasks_wait W))" if "dropWhile (\<lambda>t. \<not> expires (mem s) t) (q (tasks_wait W)) = t # ys" for t ys
      using that by (metis list.set_intros(1) set_dropWhileD)
    moreover have "set (q (tasks_wait W)) \<subseteq> T" by (rule lists_okD(3) [OF iv(5,3)])
    ultimately show "ticked W q ?m = ticked W q (mem s)" "wakes W q ?m (running_task s) = wakes W q (mem s) (running_task s)"
      using ip stack_write(3) [OF iv(1) K] iv(6)
      by (cases "dropWhile (\<lambda>t. \<not> expires (mem s) t) (q (tasks_wait W))";
        simp only: ticked_def wakes_def dw list.case woken_def; simp add: subset_iff)+
  qed
  have quiet: "\<forall>x \<in> set (q (tasks_wait W)). mem s1 (sigs_waiting x) = mem s (sigs_waiting x) \<and>
        mem s1 (sigs_recvd x) = mem s (sigs_recvd x) \<and>
      mem s1 (task_delay x) = mem s (task_delay x) - (if delayed (mem s) x then 1 else 0)"
    if ne: "\<forall>t \<in> set (q (tasks_wait W)). \<not> expires (mem s) t"
  proof -
    have LT: "set (q (tasks_wait W)) \<subseteq> T" by (rule lists_okD(3) [OF iv(5,3)])
    have "\<forall>t \<in> set (q (tasks_wait W)). \<not> expires ?m t"
      using ne LT stack_write [OF iv(1) K] by (auto simp: expires_def delayed_def subset_iff)
    then have dw: "dropWhile (\<lambda>t. \<not> expires ?m t) (q (tasks_wait W)) = []" and "counted ?m (q (tasks_wait W)) = q (tasks_wait W)"
      by (simp_all add: counted_def takeWhile_eq_all_conv)
    moreover have "\<forall>x \<in> T. mem s1 (sigs_waiting x) = ?m (sigs_waiting x) \<and> mem s1 (sigs_recvd x) = ?m (sigs_recvd x)" using s1(14) unfolding dw list.case .
    ultimately show ?thesis using s1(13) LT stack_write [OF iv(1) K] by (auto simp: delayed_def subset_iff)
  qed
  have inv1: "tasks_inv W T LS K (ticked W q (mem s)) s1" using s1(2) tk by simp
  have rf: "run_flags T (mem s1) r = run_flags T (mem s) r" for r
    using s1(11) stack_write(1) [OF iv(1) K] by (simp add: run_flags_def)
  have kK: "kframes W \<subseteq> K" using ker by (auto simp: kframes_def in_kernel_def on_stack_def)
  have pri: "node_pri (mem s1) t = node_pri (mem s) t" if t: "t \<in> T" for t
  proof -
    have "t + 12 \<notin> span (x + 112) 28" if x: "x \<in> T" for x
    proof
      assume a: "t + 12 \<in> span (x + 112) 28"
      then obtain j where j: "t + 12 = x + (112 + of_nat j)" "j < 28" using span_split [OF a] by (auto simp: add.assoc)
      have u: "unat (112 + of_nat j :: u32) = 112 + j" using j(2) by (simp add: unat_word_ariths unat_of_nat)
      then have "12 = (112 + of_nat j :: u32)" using layout_field(3) [OF iv(1) t _ _ x, of 12 "112 + of_nat j"] j by simp
      then have "unat (12 :: u32) = 112 + j" using u by metis
      then show False by simp
    qed
    then have "t + 12 \<notin> link_area T LS \<union> kframes W \<union> (\<Union>t \<in> T. span (t + 112) 28)"
      using layout_field(1,2) [OF iv(1) t, of 12] kK by auto
    then have "mem s1 (t + 12) = ?m (t + 12)" using s1(12) by simp
    then show ?thesis using stack_write(3) [OF iv(1) K t] by (simp add: node_pri_def)
  qed
  have "k_reenter s1 = k_reenter s + 1" "interrupt_handlers s1 = interrupt_handlers s" "system_tick s1 = system_tick s + 1"
    "forbid_counter s1 = (if wakes W q (mem s) (running_task s) then 0 else forbid_counter s)"
    using s1(4,5,7,10) tk(2) by (simp_all add: irq_state_def)
  moreover have "frame_at (mem s1) (task_state t) = frame_at (mem s) (task_state t)" if t: "t \<in> T" for t
  proof -
    have "c \<notin> link_area T LS \<union> kframes W \<union> (\<Union>t \<in> T. span (t + 112) 28)" if "c \<in> span (task_state t) 64" for c
      using kK layout_state(1,2) [OF iv(1) t] state_not_data [OF iv(1) t that] that by blast
    then have "frame_at (mem s1) (task_state t) = frame_at ?m (task_state t)" using s1(12) by (intro frame_at_frame) simp
    then show ?thesis using stack_write(6) [OF iv(1) K t] by simp
  qed
  ultimately show ?thesis using s1(1,3,6,8,9,12) inv1 rf pri quiet woke by blast
qed

text \<open>Taken in user mode, it leaves the frame on the stack alone.\<close>

lemma clock_inv:
  assumes inv: "tasks_inv W T LS K q s" and user: "user_mode W K s" and cnt: "counters_ok s" and lock: "wait_lock s = 0"
    and apart: "frames_apart W"
  shows "\<exists>s1. timer_callback W (irq_state W 32 s) = ret s1 \<and> tasks_inv W T LS K (ticked W q (mem s)) s1 \<and>
    (\<forall>r. run_flags T (mem s1) r = run_flags T (mem s) r) \<and>
    running_task s1 = running_task s \<and> k_reenter s1 = 0 \<and> interrupt_handlers s1 = interrupt_handlers s \<and> wait_lock s1 = 0 \<and>
    system_tick s1 = system_tick s + 1 \<and> sched_state s1 AND NEED_SCHEDULE \<noteq> 0 \<and> counters_ok s1 \<and>
    forbid_counter s1 = (if wakes W q (mem s) (running_task s) then 0 else forbid_counter s) \<and>
    frame_at (mem s1) (frame W s) = irq_frame W 32 s \<and> (\<forall>t \<in> T. frame_at (mem s1) (task_state t) = frame_at (mem s) (task_state t)) \<and>
    (\<forall>t \<in> T. node_pri (mem s1) t = node_pri (mem s) t)"
proof -
  note u = user_modeD [OF user]
  note iv = tasks_invD [OF inv]
  have ker: "in_kernel W K (irq_state W 32 s)" using user by (simp add: in_kernel_def user_mode_def irq_state_def)
  obtain s1 where s1: "timer_callback W (irq_state W 32 s) = ret s1" "tasks_inv W T LS K (ticked W q (mem s)) s1"
    "\<forall>r. run_flags T (mem s1) r = run_flags T (mem s) r"
    "running_task s1 = running_task s" "k_reenter s1 = k_reenter s + 1" "interrupt_handlers s1 = interrupt_handlers s" "wait_lock s1 = 0"
    "system_tick s1 = system_tick s + 1" "sched_state s1 AND NEED_SCHEDULE \<noteq> 0" "counters_ok s1"
    "forbid_counter s1 = (if wakes W q (mem s) (running_task s) then 0 else forbid_counter s)"
    "\<forall>t \<in> T. frame_at (mem s1) (task_state t) = frame_at (mem s) (task_state t)"
    "\<forall>t \<in> T. node_pri (mem s1) t = node_pri (mem s) t"
    "\<forall>c. c \<notin> link_area T LS \<union> kframes W \<union> (\<Union>t \<in> T. span (t + 112) 28) \<longrightarrow>
      mem s1 c = push_frame (frame W s) ((registers W s)(9 := 32, 10 := 0)) (mem s) c"
    using clock_core [OF inv ker cnt lock] by blast
  have "frame_at (mem s1) (frame W s) = irq_frame W 32 s"
  proof -
    have "span (frame W s) 64 \<inter> kframes W = {}" using apart u(1) by (simp add: frames_apart_def)
    moreover have fK: "span (frame W s) 64 \<subseteq> K" using u(2) by (simp add: on_stack_def)
    moreover have "link_area T LS \<inter> K = {}" by (rule link_area_stack [OF iv(1)])
    moreover have "span (x + 112) 28 \<inter> K = {}" if "x \<in> T" for x
    proof -
      have "span (x + 112) 28 \<subseteq> span x 140" by (rule span_shift) simp
      then show ?thesis using layout_okD(3) [OF iv(1) that] by blast
    qed
    ultimately have "c \<notin> link_area T LS \<union> kframes W \<union> (\<Union>t \<in> T. span (t + 112) 28)" if "c \<in> span (frame W s) 64" for c
      using that by blast
    then have "frame_at (mem s1) (frame W s) = frame_at (push_frame (frame W s) ((registers W s)(9 := 32, 10 := 0)) (mem s)) (frame W s)" using s1(14) by (intro frame_at_frame) simp
    then show ?thesis by (simp add: push_frame_at irq_frame_def)
  qed
  then show ?thesis using s1(1-13) u(1) by (intro exI [of _ s1]) simp
qed

text \<open>In memory it changes the tasks, the lists and the stack.\<close>

lemma clock_else:
  fixes s :: "'a kernel_state_scheme"
  assumes lay: "layout_ok T LS K" and ker: "in_kernel W K (irq_state W 32 s)" and r: "timer_callback W (irq_state W 32 s) = ret s1"
    and same: "\<forall>c. c \<notin> link_area T LS \<union> kframes W \<union> (\<Union>t \<in> T. span (t + 112) 28) \<longrightarrow>
      mem s1 c = push_frame (frame W s) ((registers W s)(9 := 32, 10 := 0)) (mem s) c"
  shows "elsewhere (task_area T LS \<union> K) s s1"
proof -
  have "kframes W \<subseteq> K" using ker by (auto simp: kframes_def in_kernel_def on_stack_def)
  moreover have "on_stack K (frame W s)" using ker by (simp add: in_kernel_def)
  then have "push_frame (frame W s) ((registers W s)(9 := 32, 10 := 0)) (mem s) c = mem s c" if "c \<notin> K" for c
    using that push_on_stack by blast
  moreover have "c \<notin> link_area T LS \<union> kframes W \<union> (\<Union>t \<in> T. span (t + 112) 28)" if "c \<notin> task_area T LS \<union> K" for c
    using that calculation(1) task_area_parts(1,3) [of T LS] by blast
  ultimately have "mem s1 c = mem s c" if "c \<notin> task_area T LS \<union> K" for c using that same by simp
  then show ?thesis using timer_callback_rest [OF r ker] by (simp add: elsewhere_def irq_state_def)
qed

lemma clock_active:
  assumes act: "active W T LS K q s" and tick: "tasks_inv W T LS K (ticked W q (mem s)) s1"
    "\<forall>r. run_flags T (mem s1) r = run_flags T (mem s) r" "running_task s1 = running_task s"
  shows "active W T LS K (ticked W q (mem s)) s1"
  using tick activeD(2,3,4) [OF act] listed_ticked [OF activeD(1) [OF act]] by (simp add: active_def)

end
