(* ===== verification/Idle.thy ===== *)
theory Idle
  imports Clock
begin

text \<open>
  The processor without a ready task: \<open>switch_tasks\<close> has saved the running task, finds the ready list empty and halts
  until an interrupt has made a task ready. What the loop needs of an interrupt is the locale \<open>idle_interrupts\<close>; the
  clock provides it, and with a delayed task in \<open>tasks_wait\<close> the clock ends the loop.
\<close>

section \<open>The contract of an interrupt while the processor idles\<close>

text \<open>All tasks are in a list, none has \<open>TS_RUN\<close>.\<close>

definition idle_ok ::
  "'a kernel_state_scheme sys \<Rightarrow> u32 set \<Rightarrow> u32 set \<Rightarrow> u32 set \<Rightarrow> (u32 \<Rightarrow> u32 list) \<Rightarrow> 'a kernel_state_scheme \<Rightarrow> bool" where
  "idle_ok W T LS K q s \<longleftrightarrow> tasks_inv W T LS K q s \<and> listed LS q = T \<and> run_flags T (mem s) None"

definition frames_same :: "u32 set \<Rightarrow> cells \<Rightarrow> cells \<Rightarrow> bool" where
  "frames_same T m m' \<longleftrightarrow> (\<forall>t \<in> T. frame_at m' (task_state t) = frame_at m (task_state t) \<and> node_pri m' t = node_pri m t)"

lemma frames_same_refl: "frames_same T m m" and frames_same_trans: "frames_same T m m' \<Longrightarrow> frames_same T m' m'' \<Longrightarrow> frames_same T m m''"
  by (simp_all add: frames_same_def)

text \<open>The kernel is entered once, by the system call or the interrupt that ended in the scheduler.\<close>

definition kernel_idle :: "'a kernel_state_scheme sys \<Rightarrow> u32 set \<Rightarrow> 'a kernel_state_scheme \<Rightarrow> bool" where
  "kernel_idle W K s \<longleftrightarrow> k_reenter s = 0 \<and> length (interrupt_handlers s) = 256 \<and> interrupt_handlers s ! 255 = Some Syscall \<and>
     interrupt_handlers s ! 32 = Some Timer_callback \<and> (\<forall>s. on_stack K (frame W s)) \<and> forbid_counter s = 0 \<and> wait_lock s = 0"

locale idle_interrupts =
  fixes irq :: "'a kernel_state_scheme sys \<Rightarrow> 'a kernel_state_scheme \<Rightarrow> 'a kernel_state_scheme outcome"
  assumes irq_keeps: "idle_ok W T LS K q s \<Longrightarrow> kernel_idle W K s \<Longrightarrow>
    \<exists>s' q'. irq W (enable s) = ret s' \<and> idle_ok W T LS K q' s' \<and> kernel_idle W K s' \<and> frames_same T (mem s) (mem s') \<and>
      (\<forall>L \<in> LS. L \<noteq> tasks_ready W \<longrightarrow> set (q' L) \<subseteq> set (q L)) \<and> elsewhere (task_area T LS \<union> K) s s'"
begin

text \<open>Whenever the loop ends, it ends with the first ready task, every saved frame as it was, and nothing outside the tasks, the lists
  and the stack changed.\<close>

lemma idle_loop_result:
  assumes ok: "idle_ok W T LS K q s" and k: "kernel_idle W K s"
    and r: "idle_loop (W\<lparr>intr := irq W\<rparr>) s = ret (n, s')"
  shows "\<exists>q' ns. q' (tasks_ready W) = n # ns \<and> idle_ok W T LS K q' s' \<and> kernel_idle W K s' \<and> frames_same T (mem s) (mem s') \<and>
    elsewhere (task_area T LS \<union> K) s s'"
proof -
  have "\<exists>q' ns. q' (tasks_ready W) = n # ns \<and> idle_ok W T LS K q' s' \<and> kernel_idle W K s' \<and> frames_same T (mem s) (mem s') \<and>
      elsewhere (task_area T LS \<union> K) s s'"
    if "idle_loop W' s = Some r" "W' = W\<lparr>intr := irq W\<rparr>" "r = Inr (n, s')" "idle_ok W T LS K q s" "kernel_idle W K s" for W' r
    using that
  proof (induction arbitrary: q rule: idle_loop.raw_induct [rotated, consumes 1, case_names step])
    case (step idle_loop W' s r)
    note inv = tasks_invD [OF step(5) [unfolded idle_ok_def, THEN conjunct1]]
    have hd: "get_head (mem s) (tasks_ready W') = (case q (tasks_ready W) of [] \<Rightarrow> 0 | n # _ \<Rightarrow> n)"
      using get_head_dll [OF lists_okD(1) [OF inv(5,2)]] step(3) by simp
    show ?case
    proof (cases "q (tasks_ready W)")
      case Nil
      obtain s1 q1 where s1: "irq W (enable s) = ret s1" "idle_ok W T LS K q1 s1" "kernel_idle W K s1" "frames_same T (mem s) (mem s1)"
        "elsewhere (task_area T LS \<union> K) s s1"
        using irq_keeps [OF step(5,6)] by blast
      have "idle_loop W' s1 = Some r" using step(2) hd Nil s1(1) step(3) by (simp add: Let_def)
      from step(1) [OF this step(3,4) s1(2,3)] show ?thesis using frames_same_trans [OF s1(4)] elsewhere_trans [OF s1(5)] by blast
    next
      case (Cons t ts)
      have "t \<noteq> 0" using dll_facts(5) [OF lists_okD(1) [OF inv(5,2)]] Cons by auto
      then have "r = Inr (t, s)" using step(2) hd Cons by (simp add: ret_def Let_def)
      then show ?thesis using step(4,5,6) Cons frames_same_refl by (auto simp: elsewhere_refl)
    qed
  qed
  then show ?thesis using r ok k by (auto simp: ret_def)
qed

end

section \<open>The clock provides it\<close>

lemma idle_okD:
  assumes "idle_ok W T LS K q s"
  shows "tasks_inv W T LS K q s" "listed LS q = T" "run_flags T (mem s) None"
  using assms by (simp_all add: idle_ok_def)

lemma end_of_interrupt_simps [simp]:
  "mem (end_of_interrupt s) = mem s" "running_task (end_of_interrupt s) = running_task s"
  "k_reenter (end_of_interrupt s) = k_reenter s - 1" "forbid_counter (end_of_interrupt s) = forbid_counter s"
  "wait_lock (end_of_interrupt s) = wait_lock s" "interrupt_handlers (end_of_interrupt s) = interrupt_handlers s"
  "system_tick (end_of_interrupt s) = system_tick s" "sched_state (end_of_interrupt s) = sched_state s"
  by (simp_all add: end_of_interrupt_def outb_def)

lemma disable_simps [simp]:
  "mem (disable s) = mem s" "iflag (disable s) = False" "mem (enable s) = mem s" "iflag (enable s) = True"
  by (simp_all add: disable_def enable_def)

lemma disable_kernel [simp]:
  "running_task (disable s) = running_task s" "k_reenter (disable s) = k_reenter s" "forbid_counter (disable s) = forbid_counter s"
  "sched_state (disable s) = sched_state s" "interrupt_handlers (disable s) = interrupt_handlers s" "wait_lock (disable s) = wait_lock s"
  "system_tick (disable s) = system_tick s"
  for s :: "'a kernel_state_scheme"
  by (simp_all add: disable_def)

lemma enable_kernel [simp]:
  "running_task (enable s) = running_task s" "k_reenter (enable s) = k_reenter s" "forbid_counter (enable s) = forbid_counter s"
  "sched_state (enable s) = sched_state s" "interrupt_handlers (enable s) = interrupt_handlers s" "wait_lock (enable s) = wait_lock s"
  "system_tick (enable s) = system_tick s"
  for s :: "'a kernel_state_scheme"
  by (simp_all add: enable_def)

lemma set_ticked:
  assumes "L \<noteq> tasks_ready W"
  shows "set (ticked W q m L) \<subseteq> set (q L)"
  unfolding ticked_def woken_def using assms by (cases "dropWhile (\<lambda>t. \<not> expires m t) (q (tasks_wait W))")
    (simp_all only: list.case, auto dest: subsetD [OF set_remove1_subset])

text \<open>A tick of the clock in the idle loop: nothing but the lists, the delays and the signals of the woken task changes.\<close>

lemma idle_tick:
  fixes s :: "'a kernel_state_scheme"
  assumes ok: "idle_ok W T LS K q s" and k: "kernel_idle W K s"
  shows "\<exists>s'. interrupt W (clock_isr W) 32 (enable s) = ret s' \<and> idle_ok W T LS K (ticked W q (mem s)) s' \<and> kernel_idle W K s' \<and>
    frames_same T (mem s) (mem s') \<and> system_tick s' = system_tick s + 1 \<and> running_task s' = running_task s \<and>
    elsewhere (task_area T LS \<union> K) s s' \<and>
    (\<forall>t ys. dropWhile (\<lambda>t. \<not> expires (mem s) t) (q (tasks_wait W)) = t # ys \<longrightarrow>
      mem s' (sigs_recvd t) = mem s (sigs_recvd t) OR TB_DELAY) \<and>
    ((\<forall>t \<in> set (q (tasks_wait W)). \<not> expires (mem s) t) \<longrightarrow>
      (\<forall>x \<in> set (q (tasks_wait W)). mem s' (sigs_waiting x) = mem s (sigs_waiting x) \<and>
        mem s' (sigs_recvd x) = mem s (sigs_recvd x) \<and>
        mem s' (task_delay x) = mem s (task_delay x) - (if delayed (mem s) x then 1 else 0)))"
proof -
  let ?s = "enable s"
  have inv: "tasks_inv W T LS K q ?s" using idle_okD(1) [OF ok] by (subst tasks_inv_same [of _ s]) simp_all
  have ker: "in_kernel W K (irq_state W 32 ?s)" using k by (simp add: kernel_idle_def in_kernel_def irq_state_def)
  have fk: "forbid_counter s = 0" "k_reenter s = 0" using k by (simp_all add: kernel_idle_def)
  have cnt: "counters_ok ?s" "wait_lock ?s = 0" using k by (simp_all add: kernel_idle_def counters_ok_def)
  obtain s1 where s1: "timer_callback W (irq_state W 32 ?s) = ret s1" "tasks_inv W T LS K (ticked W q (mem s)) s1"
    "\<forall>r. run_flags T (mem s1) r = run_flags T (mem s) r"
    "running_task s1 = running_task s" "k_reenter s1 = 1" "interrupt_handlers s1 = interrupt_handlers s" "wait_lock s1 = 0"
    "system_tick s1 = system_tick s + 1" "forbid_counter s1 = 0"
    "\<forall>t \<in> T. frame_at (mem s1) (task_state t) = frame_at (mem s) (task_state t)" "\<forall>t \<in> T. node_pri (mem s1) t = node_pri (mem s) t"
    "\<forall>t ys. dropWhile (\<lambda>t. \<not> expires (mem s) t) (q (tasks_wait W)) = t # ys \<longrightarrow>
      mem s1 (sigs_recvd t) = mem s (sigs_recvd t) OR TB_DELAY"
    "(\<forall>t \<in> set (q (tasks_wait W)). \<not> expires (mem s) t) \<longrightarrow>
      (\<forall>x \<in> set (q (tasks_wait W)). mem s1 (sigs_waiting x) = mem s (sigs_waiting x) \<and>
        mem s1 (sigs_recvd x) = mem s (sigs_recvd x) \<and>
        mem s1 (task_delay x) = mem s (task_delay x) - (if delayed (mem s) x then 1 else 0))"
    and out: "\<forall>c. c \<notin> link_area T LS \<union> kframes W \<union> (\<Union>t \<in> T. span (t + 112) 28) \<longrightarrow>
      mem s1 c = push_frame (frame W ?s) ((registers W ?s)(9 := 32, 10 := 0)) (mem ?s) c"
    using clock_core [OF inv ker cnt, unfolded disable_simps enable_kernel fk if_cancel add_0] by (simp only: disable_simps) blast
  have "elsewhere (task_area T LS \<union> K) ?s s1" by (rule clock_else [OF tasks_invD(1) [OF inv] ker s1(1) out])
  then have else: "elsewhere (task_area T LS \<union> K) s s1" by (simp add: elsewhere_def)
  let ?s' = "end_of_interrupt (disable s1)\<lparr>iflag := True\<rparr>"
  have "reschedule W (frame W ?s) (disable s1) = ret (disable s1)" using s1(5) by (intro reschedule_forbidden) simp
  then have "interrupt W (clock_isr W) 32 ?s = ret ?s'"
    using interrupt_clock [of ?s W] s1(1) k by (simp add: kernel_idle_def)
  moreover have "idle_ok W T LS K (ticked W q (mem s)) ?s'"
    using s1(2,3) idle_okD(2,3) [OF ok] listed_ticked [OF idle_okD(1) [OF ok]] by (simp add: idle_ok_def tasks_inv_def)
  moreover have "kernel_idle W K ?s'" using k s1 by (simp add: kernel_idle_def)
  moreover have "elsewhere (task_area T LS \<union> K) s ?s'" using else by (simp add: elsewhere_def end_of_interrupt_def outb_def)
  ultimately show ?thesis using s1 by (intro exI [of _ ?s']) (simp add: frames_same_def)
qed

interpretation clock: idle_interrupts "\<lambda>W. interrupt W (clock_isr W) 32"
proof unfold_locales
  fix W :: "'a kernel_state_scheme sys" and T LS K q and s :: "'a kernel_state_scheme"
  assume ok: "idle_ok W T LS K q s" "kernel_idle W K s"
  have "\<forall>L \<in> LS. L \<noteq> tasks_ready W \<longrightarrow> set (ticked W q (mem s) L) \<subseteq> set (q L)" using set_ticked by blast
  then show "\<exists>s' q'. interrupt W (clock_isr W) 32 (enable s) = ret s' \<and> idle_ok W T LS K q' s' \<and> kernel_idle W K s' \<and>
      frames_same T (mem s) (mem s') \<and> (\<forall>L \<in> LS. L \<noteq> tasks_ready W \<longrightarrow> set (q' L) \<subseteq> set (q L)) \<and>
      elsewhere (task_area T LS \<union> K) s s'"
    using idle_tick [OF ok] by blast
qed

section \<open>The clock ends the loop\<close>

text \<open>The machine whose only interrupt while it idles is the clock.\<close>

definition clocked :: "'a kernel_state_scheme sys \<Rightarrow> 'a kernel_state_scheme sys" where
  "clocked W = W\<lparr>intr := interrupt W (clock_isr W) 32\<rparr>"

lemma clocked_simps [simp]:
  "tasks_ready (clocked W) = tasks_ready W" "tasks_wait (clocked W) = tasks_wait W" "frame (clocked W) = frame W"
  "registers (clocked W) = registers W" "intr (clocked W) = interrupt W (clock_isr W) 32"
  by (simp_all add: clocked_def)

text \<open>The ticks until the delay of a task is over.\<close>

definition ticks_left :: "cells \<Rightarrow> u32 \<Rightarrow> nat" where
  "ticks_left m t = Suc (unat (m (task_delay t) - 1))"

lemma expires_ticks: "expires m t \<longleftrightarrow> delayed m t \<and> ticks_left m t = 1"
proof -
  have "unat (m (task_delay t) - 1) = 0 \<longleftrightarrow> m (task_delay t) = 1" by (metis unat_0 unat_eq_zero right_minus_eq)
  then show ?thesis by (simp add: expires_def ticks_left_def)
qed

lemma ticks_left_dec:
  assumes "ticks_left m t \<noteq> 1" and "m' (task_delay t) = m (task_delay t) - 1"
  shows "ticks_left m t = Suc (ticks_left m' t)"
proof -
  let ?w = "m (task_delay t) - 1"
  have "unat ?w \<noteq> 0" using assms(1) by (simp add: ticks_left_def)
  then have "unat (?w - 1) = unat ?w - 1" by (intro unat_minus_one) (simp add: unat_eq_zero)
  then show ?thesis using \<open>unat ?w \<noteq> 0\<close> assms(2) by (simp add: ticks_left_def)
qed

text \<open>The first of the tasks with the fewest ticks left.\<close>

definition next_timer :: "cells \<Rightarrow> u32 list \<Rightarrow> u32 \<Rightarrow> u32 list \<Rightarrow> bool" where
  "next_timer m us t vs \<longleftrightarrow> delayed m t \<and> (\<forall>x \<in> set us. delayed m x \<longrightarrow> ticks_left m t < ticks_left m x) \<and>
     (\<forall>x \<in> set vs. delayed m x \<longrightarrow> ticks_left m t \<le> ticks_left m x)"

lemma ticked_next:
  assumes "next_timer m us t vs" and "q (tasks_wait W) = us @ t # vs" and "distinct (us @ t # vs)"
  shows "ticks_left m t = 1 \<Longrightarrow> ticked W q m = q(tasks_wait W := us @ vs, tasks_ready W := ins_pri (node_pri m) t (q (tasks_ready W)))"
    and "ticks_left m t \<noteq> 1 \<Longrightarrow> \<forall>x \<in> set (q (tasks_wait W)). \<not> expires m x"
    and "ticks_left m t = 1 \<Longrightarrow> dropWhile (\<lambda>x. \<not> expires m x) (q (tasks_wait W)) = t # vs"
proof -
  have pos: "ticks_left m x \<ge> 1" for x by (simp add: ticks_left_def)
  show "\<forall>x \<in> set (q (tasks_wait W)). \<not> expires m x" if "ticks_left m t \<noteq> 1"
  proof
    fix x assume "x \<in> set (q (tasks_wait W))"
    then have "delayed m x \<Longrightarrow> ticks_left m t \<le> ticks_left m x" using assms(1,2) by (auto simp: next_timer_def less_imp_le)
    then show "\<not> expires m x" using that pos [of t] by (auto simp: expires_ticks)
  qed
  assume one: "ticks_left m t = 1"
  have "\<not> expires m x" if "x \<in> set us" for x using assms(1) that one by (auto simp: next_timer_def expires_ticks)
  moreover have "expires m t" using assms(1) one by (simp add: next_timer_def expires_ticks)
  ultimately show dw: "dropWhile (\<lambda>x. \<not> expires m x) (q (tasks_wait W)) = t # vs"
    using assms(2) by (simp add: dropWhile_append)
  have "remove1 t (us @ t # vs) = us @ vs" using assms(3) by (simp add: remove1_append)
  then show "ticked W q m = q(tasks_wait W := us @ vs, tasks_ready W := ins_pri (node_pri m) t (q (tasks_ready W)))"
    using assms(2) dw by (simp add: ticked_def woken_def)
qed

lemma idle_loop_step:
  assumes "idle_ok W T LS K q s" and "q (tasks_ready W) = []"
  shows "idle_loop (clocked W) s = bnd (interrupt W (clock_isr W) 32 (enable s)) (idle_loop (clocked W))"
proof -
  note iv = tasks_invD [OF idle_okD(1) [OF assms(1)]]
  have "get_head (mem s) (tasks_ready W) = 0" using get_head_dll [OF lists_okD(1) [OF iv(5,2)]] assms(2) by simp
  then show ?thesis by (subst idle_loop.simps) simp
qed

lemma idle_loop_clock:
  fixes s :: "'a kernel_state_scheme"
  assumes "idle_ok W T LS K q s" and "kernel_idle W K s" and "q (tasks_ready W) = []" and "q (tasks_wait W) = us @ t # vs"
    and "next_timer (mem s) us t vs"
  shows "\<exists>s'. idle_loop (clocked W) s = ret (t, s') \<and> idle_ok W T LS K (q(tasks_wait W := us @ vs, tasks_ready W := [t])) s' \<and>
    kernel_idle W K s' \<and> frames_same T (mem s) (mem s') \<and> running_task s' = running_task s \<and>
    system_tick s' = system_tick s + of_nat (ticks_left (mem s) t) \<and> mem s' (sigs_recvd t) = mem s (sigs_recvd t) OR TB_DELAY \<and>
    elsewhere (task_area T LS \<union> K) s s'"
  using assms
proof (induction "ticks_left (mem s) t" arbitrary: s)
  case 0
  then show ?case by (simp add: ticks_left_def)
next
  case (Suc n)
  let ?q = "q(tasks_wait W := us @ vs, tasks_ready W := [t])"
  note iv = tasks_invD [OF idle_okD(1) [OF Suc.prems(1)]]
  have dist: "distinct (us @ t # vs)" using dll_facts(4) [OF lists_okD(1) [OF iv(5,3)]] Suc.prems(4) by simp
  note tn = ticked_next [where W = W and q = q, OF Suc.prems(5,4) dist]
  note st = idle_loop_step [OF Suc.prems(1,3)]
  obtain s1 where s1: "interrupt W (clock_isr W) 32 (enable s) = ret s1" "idle_ok W T LS K (ticked W q (mem s)) s1"
    "kernel_idle W K s1" "frames_same T (mem s) (mem s1)" "system_tick s1 = system_tick s + 1" "running_task s1 = running_task s"
    "elsewhere (task_area T LS \<union> K) s s1"
    "\<forall>t ys. dropWhile (\<lambda>t. \<not> expires (mem s) t) (q (tasks_wait W)) = t # ys \<longrightarrow>
      mem s1 (sigs_recvd t) = mem s (sigs_recvd t) OR TB_DELAY"
    "(\<forall>t \<in> set (q (tasks_wait W)). \<not> expires (mem s) t) \<longrightarrow>
      (\<forall>x \<in> set (q (tasks_wait W)). mem s1 (sigs_waiting x) = mem s (sigs_waiting x) \<and>
        mem s1 (sigs_recvd x) = mem s (sigs_recvd x) \<and>
        mem s1 (task_delay x) = mem s (task_delay x) - (if delayed (mem s) x then 1 else 0))"
    using idle_tick [OF Suc.prems(1,2)] by blast
  show ?case
  proof (cases "ticks_left (mem s) t = 1")
    case True
    have tk: "ticked W q (mem s) = ?q" using tn(1) [OF True] Suc.prems(3) by simp
    have ok: "idle_ok W T LS K ?q s1" using s1(2) unfolding tk .
    note iv1 = tasks_invD [OF idle_okD(1) [OF ok]]
    have "idle_loop (clocked W) s1 = ret (t, s1)"
      by (rule idle_loop_ready [where ns = "[]", OF iv1(5)]) (simp_all add: iv1(2))
    then show ?thesis using st s1 ok True tn(3) [OF True] by simp
  next
    case False
    have ne: "\<forall>x \<in> set (q (tasks_wait W)). \<not> expires (mem s) x" by (rule tn(2) [OF False])
    then have "dropWhile (\<lambda>x. \<not> expires (mem s) x) (q (tasks_wait W)) = []" by simp
    then have tk: "ticked W q (mem s) = q" by (simp only: ticked_def list.case)
    have same: "mem s1 (sigs_waiting x) = mem s (sigs_waiting x)"
      "delayed (mem s) x \<Longrightarrow> mem s1 (task_delay x) = mem s (task_delay x) - 1"
      "mem s1 (sigs_recvd x) = mem s (sigs_recvd x)" if "x \<in> set (q (tasks_wait W))" for x
      using s1(9) ne that by auto
    have del: "delayed (mem s1) x = delayed (mem s) x" if "x \<in> set (q (tasks_wait W))" for x
      using same(1) [OF that] by (simp add: delayed_def)
    have left: "ticks_left (mem s) x = Suc (ticks_left (mem s1) x)" if x: "x \<in> set (q (tasks_wait W))" "delayed (mem s) x" for x
    proof (rule ticks_left_dec)
      show "ticks_left (mem s) x \<noteq> 1" using ne x by (simp add: expires_ticks)
      show "mem s1 (task_delay x) = mem s (task_delay x) - 1" by (rule same(2) [OF x])
    qed
    have t: "t \<in> set (q (tasks_wait W))" "delayed (mem s) t" using Suc.prems(4,5) by (simp_all add: next_timer_def)
    have nt: "next_timer (mem s1) us t vs"
      using Suc.prems(4,5) del left by (auto simp: next_timer_def)
    have "n = ticks_left (mem s1) t" using Suc.hyps(2) left [OF t] by simp
    from Suc.hyps(1) [OF this s1(2) [unfolded tk] s1(3) Suc.prems(3,4) nt] obtain s' where
      s': "idle_loop (clocked W) s1 = ret (t, s')" "idle_ok W T LS K ?q s'" "kernel_idle W K s'" "frames_same T (mem s1) (mem s')"
        "running_task s' = running_task s1" "system_tick s' = system_tick s1 + of_nat (ticks_left (mem s1) t)"
        "mem s' (sigs_recvd t) = mem s1 (sigs_recvd t) OR TB_DELAY" "elsewhere (task_area T LS \<union> K) s1 s'"
      by blast
    have "system_tick s' = system_tick s + of_nat (ticks_left (mem s) t)" unfolding left [OF t] s'(6) s1(5) by simp
    then show ?thesis using st s1(1,6) s' same(3) [OF t(1)] frames_same_trans [OF s1(4) s'(4)] elsewhere_trans [OF s1(7) s'(8)] by simp
  qed
qed

section \<open>A switch through the idle loop\<close>

lemma save_else:
  assumes "layout_ok T LS K" and "r \<in> T" and "on_stack K regs" and "c \<notin> task_area T LS"
  shows "save_task regs r m c = m c"
proof (rule save_task_cells(3) [OF assms(1-3)])
  have "task_flags r \<in> span r 140" by (simp add: task_flags_def)
  then show "c \<notin> span (task_state r) 64" "c \<noteq> task_flags r"
    using assms(4) task_area_parts(2) [OF assms(2), of LS] task_state_span [of r] by blast+
qed

lemma load_else:
  assumes "layout_ok T LS K" and "lists_ok T LS m q" and "R \<in> LS" and "q R = n # ns" and "on_stack K regs" and "c \<notin> task_area T LS \<union> K"
  shows "load_task regs n m c = m c"
proof (rule load_task_effect(4) [OF assms(1-5)])
  have n: "n \<in> T" using lists_okD(3) [OF assms(2,3)] assms(4) by simp
  have "task_flags n \<in> span n 140" by (simp add: task_flags_def)
  then show "c \<noteq> task_flags n" using assms(6) task_area_parts(2) [OF n, of LS] by blast
  show "c \<notin> link_area T LS \<union> span regs 64" using assms(5,6) task_area_parts(1) [of T LS] by (auto simp: on_stack_def)
qed

lemma save_idle:
  assumes park: "parked W T LS K q s" and regs: "on_stack K regs"
  shows "idle_ok W T LS K q (s\<lparr>mem := save_task regs (running_task s) (mem s)\<rparr>)"
    and "frame_at (save_task regs (running_task s) (mem s)) (task_state (running_task s)) = frame_at (mem s) regs"
    and "t \<in> T \<Longrightarrow> t \<noteq> running_task s \<Longrightarrow> frame_at (save_task regs (running_task s) (mem s)) (task_state t) = frame_at (mem s) (task_state t)"
    and "t \<in> T \<Longrightarrow> c \<in> {task_delay t, sigs_waiting t, sigs_recvd t} \<Longrightarrow> save_task regs (running_task s) (mem s) c = mem s c"
proof -
  let ?r = "running_task s" and ?m = "save_task regs (running_task s) (mem s)"
  have inv: "tasks_inv W T LS K q s" and T: "listed LS q = T" and rf: "run_flags T (mem s) (Some ?r)"
    using park by (simp_all add: parked_def)
  note iv = tasks_invD [OF inv]
  note sv = save_task_effect [OF iv(1,5,6) regs]
  show "frame_at ?m (task_state ?r) = frame_at (mem s) regs" by (rule sv(2))
  show own: "?m c = mem s c" if "t \<in> T" "c \<in> {task_delay t, sigs_waiting t, sigs_recvd t}" for t c
  proof (rule sv(4))
    have "t + 128 \<notin> span (task_state ?r) 64" "t + 120 \<notin> span (task_state ?r) 64" "t + 128 \<noteq> task_flags ?r" "t + 120 \<noteq> task_flags ?r"
      "t + 124 \<notin> span (task_state ?r) 64" "t + 124 \<noteq> task_flags ?r"
      using field_apart(3,4) [OF iv(1) that(1) iv(6), of 128] field_apart(3,4) [OF iv(1) that(1) iv(6), of 120]
        field_apart(3,4) [OF iv(1) that(1) iv(6), of 124] by simp_all
    then show "c \<notin> span (task_state ?r) 64" "c \<noteq> task_flags ?r" using that(2) by (auto simp: task_delay_def sigs_waiting_def sigs_recvd_def)
  qed
  show "frame_at ?m (task_state t) = frame_at (mem s) (task_state t)" if t: "t \<in> T" "t \<noteq> ?r" for t
  proof (rule frame_at_frame)
    fix c assume c: "c \<in> span (task_state t) 64"
    then have "c \<noteq> task_flags ?r" using layout_flags(3) [OF iv(1,6) t(1)] by blast
    moreover have "c \<notin> span (task_state ?r) 64" using c layout_state(3) [OF iv(1,6) t(1)] t(2) task_state_span [of t] by blast
    ultimately show "?m c = mem s c" by (intro sv(4))
  qed
  have fl: "?m (task_flags t) = (if t = ?r then mem s (task_flags t) AND NOT TS_RUN else mem s (task_flags t))" if t: "t \<in> T" for t
    using sv(3) sv(4) [OF layout_flags(3) [OF iv(1) t iv(6)]] layout_flags(4) [OF iv(1) t iv(6)] by simp
  have "task_ok ?m b t = task_ok (mem s) b t" if t: "t \<in> T" for b t
    using fl [OF t] own [OF t, of "sigs_waiting t"] by (intro task_ok_cong) (simp_all add: run_bit)
  then have "tasks_inv W T LS K q (s\<lparr>mem := ?m\<rparr>)" using inv sv(1) by (simp add: tasks_inv_def)
  moreover have "run_flags T ?m None" using rf fl by (auto simp: run_flags_def run_bit)
  ultimately show "idle_ok W T LS K q (s\<lparr>mem := ?m\<rparr>)" using T by (simp add: idle_ok_def)
qed

lemma load_active:
  assumes ok: "idle_ok W T LS K q s" and q: "q (tasks_ready W) = n # ns" and regs: "on_stack K regs"
  shows "active W T LS K (q(tasks_ready W := ns)) (s\<lparr>running_task := n, mem := load_task regs n (mem s)\<rparr>)"
    and "frame_at (load_task regs n (mem s)) regs = frame_at (mem s) (task_state n)"
    and "t \<in> T \<Longrightarrow> frame_at (load_task regs n (mem s)) (task_state t) = frame_at (mem s) (task_state t)"
    and "t \<in> T \<Longrightarrow> load_task regs n (mem s) (sigs_recvd t) = mem s (sigs_recvd t)"
proof -
  let ?R = "tasks_ready W" and ?m = "load_task regs n (mem s)"
  note iv = tasks_invD [OF idle_okD(1) [OF ok]]
  note ld = load_task_effect [OF iv(1,5,2) q regs]
  have K: "span regs 64 \<subseteq> K" using regs by (simp add: on_stack_def)
  have n: "n \<in> T" using lists_okD(3) [OF iv(5,2)] q by simp
  show "frame_at ?m regs = frame_at (mem s) (task_state n)" by (rule ld(2))
  show "frame_at ?m (task_state t) = frame_at (mem s) (task_state t)" if t: "t \<in> T" for t
  proof (rule frame_at_frame)
    fix c assume c: "c \<in> span (task_state t) 64"
    then have "c \<noteq> task_flags n" using layout_flags(3) [OF iv(1) n t] by blast
    moreover have "c \<notin> link_area T LS \<union> span regs 64" using c layout_state(1,2) [OF iv(1) t] K by blast
    ultimately show "?m c = mem s c" by (intro ld(4))
  qed
  have fl: "?m (task_flags t) = (if t = n then mem s (task_flags t) OR TS_RUN else mem s (task_flags t))" if t: "t \<in> T" for t
  proof -
    have "task_flags t \<notin> link_area T LS \<union> span regs 64" using layout_flags(1,2) [OF iv(1) t t] K by blast
    then show ?thesis using ld(3,4) layout_flags(4) [OF iv(1) t n] by simp
  qed
  show "?m (sigs_recvd t) = mem s (sigs_recvd t)" if t: "t \<in> T" for t
  proof (rule ld(4))
    show "sigs_recvd t \<notin> link_area T LS \<union> span regs 64" "sigs_recvd t \<noteq> task_flags n"
      using field_apart(1,2,4) [OF iv(1) t n, of 124] K by (auto simp: sigs_recvd_def)
  qed
  have sw: "?m (sigs_waiting t) = mem s (sigs_waiting t)" if t: "t \<in> T" for t
  proof (rule ld(4))
    show "sigs_waiting t \<notin> link_area T LS \<union> span regs 64" "sigs_waiting t \<noteq> task_flags n"
      using field_apart(1,2,4) [OF iv(1) t n, of 120] K by (auto simp: sigs_waiting_def)
  qed
  have "task_ok ?m (waiting LS ?R (q(?R := ns)) t) t" if t: "t \<in> T" for t
  proof -
    have "waiting LS ?R (q(?R := ns)) t = waiting LS ?R q t" by (auto simp: waiting_def)
    moreover have "task_ok ?m b t = task_ok (mem s) b t" for b using fl [OF t] sw [OF t] by (intro task_ok_cong) (simp_all add: run_bit)
    ultimately show ?thesis using iv(7) [OF t] by simp
  qed
  moreover have "run_flags T ?m (Some n)" using idle_okD(3) [OF ok] fl by (auto simp: run_flags_def run_bit)
  moreover have "n \<notin> listed LS (q(?R := ns))" "insert n (listed LS (q(?R := ns))) = T"
  proof -
    have "distinct (n # ns)" using dll_facts(4) [OF lists_okD(1) [OF iv(5,2)]] q by simp
    moreover have "n \<notin> set (q L)" if "L \<in> LS" "L \<noteq> ?R" for L
      using lists_disjoint [OF iv(5) that(1) iv(2), of n] that q by auto
    ultimately show "n \<notin> listed LS (q(?R := ns))" "insert n (listed LS (q(?R := ns))) = T"
      using idle_okD(2) [OF ok] q listed_split [OF iv(2), of q] listed_upd [OF iv(2), of q ns] by (auto simp: listed_def)
  qed
  ultimately show "active W T LS K (q(?R := ns)) (s\<lparr>running_task := n, mem := ?m\<rparr>)"
    using iv(1-4) ld(1) n by (simp add: active_def tasks_inv_def)
qed

text \<open>From memory \<open>m\<close> to \<open>m'\<close> the frame \<open>f\<close> was saved in the task \<open>r\<close>, the frame of \<open>n\<close> was loaded at \<open>regs\<close>, and no other
  saved frame changed.\<close>

definition contexts :: "u32 set \<Rightarrow> u32 \<Rightarrow> u32 list \<Rightarrow> cells \<Rightarrow> u32 \<Rightarrow> u32 \<Rightarrow> cells \<Rightarrow> bool" where
  "contexts T regs f m r n m' \<longleftrightarrow> frame_at m' (task_state r) = f \<and>
     frame_at m' regs = (if n = r then f else frame_at m (task_state n)) \<and>
     (\<forall>t \<in> T. t \<noteq> r \<longrightarrow> frame_at m' (task_state t) = frame_at m (task_state t))"

text \<open>Both halves, with whatever the loop does between them.\<close>

lemma switch_idle:
  assumes park: "parked W T LS K q s" and regs: "on_stack K regs"
    and loop: "idle_loop W' (s\<lparr>mem := save_task regs (running_task s) (mem s)\<rparr>) = ret (n, s1)"
    and ok: "idle_ok W T LS K q' s1" and q': "q' (tasks_ready W) = n # ns"
    and same: "frames_same T (save_task regs (running_task s) (mem s)) (mem s1)"
    and else: "elsewhere (task_area T LS \<union> K) (s\<lparr>mem := save_task regs (running_task s) (mem s)\<rparr>) s1"
  shows "\<exists>m'. switch_tasks W' regs s = ret (s1\<lparr>running_task := n, mem := m'\<rparr>) \<and>
    active W T LS K (q'(tasks_ready W := ns)) (s1\<lparr>running_task := n, mem := m'\<rparr>) \<and>
    contexts T regs (frame_at (mem s) regs) (mem s) (running_task s) n m' \<and>
    (\<forall>t \<in> T. m' (sigs_recvd t) = mem s1 (sigs_recvd t)) \<and>
    elsewhere (task_area T LS \<union> K) s (s1\<lparr>running_task := n, mem := m'\<rparr>)"
proof -
  let ?m' = "load_task regs n (mem s1)"
  note sv = save_idle [OF park regs] and ld = load_active [OF ok q' regs]
  have run: "running_task s \<in> T" using park tasks_invD(6) [of W T LS K q s] by (simp add: parked_def)
  have n: "n \<in> T" using tasks_invD(6) [OF activeD(1) [OF ld(1)]] by simp
  have fr: "frame_at (mem s1) (task_state t) = (if t = running_task s then frame_at (mem s) regs else frame_at (mem s) (task_state t))"
    if "t \<in> T" for t using same sv(2,3) that by (simp add: frames_same_def)
  note iv = tasks_invD [OF idle_okD(1) [OF ok]]
  have "elsewhere (task_area T LS \<union> K) s (s1\<lparr>running_task := n, mem := ?m'\<rparr>)"
    using else save_else [OF iv(1) run regs] load_else [OF iv(1,5,2) q' regs] by (simp add: elsewhere_def)
  then show ?thesis
    using loop ld fr run n by (intro exI [of _ ?m']) (simp add: switch_tasks_halves contexts_def)
qed

text \<open>So \<open>switch_tasks\<close> and the scheduler, whenever they return.\<close>

lemma switch_result:
  assumes park: "parked W T LS K q s" and regs: "on_stack K regs" and k: "kernel_idle W K s"
    and r: "switch_tasks (clocked W) regs s = ret s'"
  shows "\<exists>q'. active W T LS K q' s' \<and> kernel_idle W K s' \<and>
    contexts T regs (frame_at (mem s) regs) (mem s) (running_task s) (running_task s') (mem s') \<and>
    elsewhere (task_area T LS \<union> K) s s'"
proof -
  let ?s = "s\<lparr>mem := save_task regs (running_task s) (mem s)\<rparr>"
  obtain n s1 where l: "idle_loop (clocked W) ?s = ret (n, s1)"
    using r by (auto simp: switch_tasks_halves bnd_eq_ret)
  have "kernel_idle W K ?s" using k by (simp add: kernel_idle_def)
  then obtain q' ns where q': "q' (tasks_ready W) = n # ns" "idle_ok W T LS K q' s1" "kernel_idle W K s1" "frames_same T (mem ?s) (mem s1)"
      "elsewhere (task_area T LS \<union> K) ?s s1"
    using clock.idle_loop_result [OF save_idle(1) [OF park regs]] l by (auto simp: clocked_def)
  obtain m' where m': "switch_tasks (clocked W) regs s = ret (s1\<lparr>running_task := n, mem := m'\<rparr>)"
    "active W T LS K (q'(tasks_ready W := ns)) (s1\<lparr>running_task := n, mem := m'\<rparr>)"
    "contexts T regs (frame_at (mem s) regs) (mem s) (running_task s) n m'"
    "elsewhere (task_area T LS \<union> K) s (s1\<lparr>running_task := n, mem := m'\<rparr>)"
    using switch_idle [OF park regs l q'(2,1)] q'(4,5) by auto
  then have "s' = s1\<lparr>running_task := n, mem := m'\<rparr>" using r by simp
  moreover have "kernel_idle W K (s1\<lparr>running_task := n, mem := m'\<rparr>)" using q'(3) by (simp add: kernel_idle_def)
  ultimately show ?thesis using m' by auto
qed

lemma kernel_idleD:
  assumes "kernel_idle W K s"
  shows "k_reenter s = 0" "forbid_counter s = 0" "wait_lock s = 0" "on_stack K (frame W s')"
  using assms by (simp_all add: kernel_idle_def)

lemma contexts_links:
  assumes lay: "layout_ok T LS K" and same: "\<forall>c. c \<notin> link_area T LS \<longrightarrow> m1 c = m c" and regs: "on_stack K regs" and n: "n \<in> T"
    and c: "contexts T regs (frame_at m1 regs) m1 r n m'"
  shows "contexts T regs (frame_at m regs) m r n m'"
  using c links_only(2,5) [OF lay same] regs n by (simp add: contexts_def)

lemma reschedule_result:
  assumes st: "active W T LS K q s \<or> parked W T LS K q s \<and> waiting LS (tasks_ready W) q (running_task s)"
    and regs: "on_stack K regs" and k: "kernel_idle W K s" and need: "sched_state s AND NEED_SCHEDULE \<noteq> 0"
    and r: "reschedule (clocked W) regs s = ret s'"
  shows "\<exists>q'. active W T LS K q' s' \<and> kernel_idle W K s' \<and>
    contexts T regs (frame_at (mem s) regs) (mem s) (running_task s) (running_task s') (mem s') \<and>
    elsewhere (task_area T LS \<union> K) s s'"
proof -
  let ?r = "running_task s" and ?R = "tasks_ready W" and ?s = "s\<lparr>sched_state := sched_state s AND NOT NEED_SCHEDULE\<rparr>"
  note kd = kernel_idleD [OF k]
  have inv: "tasks_inv W T LS K q s" using st by (auto simp: active_def parked_def)
  note iv = tasks_invD [OF inv]
  from st show ?thesis
  proof
    assume act: "active W T LS K q s"
    have "\<not> waiting LS ?R q ?r" using activeD(2) [OF act] by (auto simp: waiting_def listed_def)
    then have ready: "mem s (task_flags ?r) AND TS_READY \<noteq> 0" using iv(7) [OF iv(6)] by (simp add: task_ok_def)
    obtain m1 q1 where m1: "enqueue (mem s) ?R ?r = Some m1" "parked W T LS K q1 (s\<lparr>mem := m1\<rparr>)"
      "\<forall>c. c \<notin> link_area T LS \<longrightarrow> m1 c = mem s c"
      using enqueue_parks [OF act] by auto
    have p: "parked W T LS K q1 (?s\<lparr>mem := m1\<rparr>)" using m1(2) by (simp add: parked_def tasks_inv_def)
    have sw: "switch_tasks (clocked W) regs (?s\<lparr>mem := m1\<rparr>) = ret s'"
      using r need kd ready m1(1) by (simp add: reschedule_def schedule_def enter_list_def NEED_TASK_SWITCH_def Let_def)
    have "kernel_idle W K (?s\<lparr>mem := m1\<rparr>)" using k by (simp add: kernel_idle_def)
    from switch_result [OF p regs this sw] obtain q' where q': "active W T LS K q' s'" "kernel_idle W K s'"
      "contexts T regs (frame_at m1 regs) m1 ?r (running_task s') (mem s')" "elsewhere (task_area T LS \<union> K) (?s\<lparr>mem := m1\<rparr>) s'" by auto
    have "running_task s' \<in> T" using tasks_invD(6) [OF activeD(1) [OF q'(1)]] .
    moreover have "elsewhere (task_area T LS \<union> K) s s'" using q'(4) m1(3) task_area_parts(1) [of T LS] by (auto simp: elsewhere_def)
    ultimately show ?thesis using contexts_links [OF iv(1) m1(3) regs _ q'(3)] q'(1,2) by auto
  next
    assume pk: "parked W T LS K q s \<and> waiting LS ?R q ?r"
    then have "mem s (task_flags ?r) AND TS_READY = 0" using iv(7) [OF iv(6)] by (simp add: task_ok_def)
    then have sw: "switch_tasks (clocked W) regs ?s = ret s'"
      using r need kd by (simp add: reschedule_def schedule_def NEED_TASK_SWITCH_def Let_def)
    have "kernel_idle W K ?s" using k by (simp add: kernel_idle_def)
    moreover have "parked W T LS K q ?s" using pk by (simp add: parked_def tasks_inv_def)
    ultimately show ?thesis using switch_result [OF _ regs _ sw] by (auto simp: elsewhere_def)
  qed
qed

end
