(* ===== verification/TaskProps.thy ===== *)
theory TaskProps
  imports Idle
begin

text \<open>
  The properties of the tasks: what \<open>yield\<close>, \<open>wait\<close>, \<open>signal\<close> and the clock do to the lists and to the saved register
  frames, and that a forbidden section is not interrupted by a switch. \<open>demo_sys\<close> and \<open>demo\<close> are two tasks, a ready
  list, a waiting list and a stack, for the witnesses.
\<close>

section \<open>A concrete kernel\<close>

lemma span_apart: "unat a + n \<le> unat b \<Longrightarrow> unat b + k \<le> 2 ^ 32 \<Longrightarrow> span a n \<inter> span b k = {}"
proof -
  assume a: "unat a + n \<le> unat b" "unat b + k \<le> 2 ^ 32"
  have "x \<notin> span b k" if "x \<in> span a n" for x
  proof -
    from span_split [OF that] obtain i where i: "x = a + of_nat i" "i < n" by blast
    have "unat x = unat a + i" using i a by (simp add: unat_word_ariths unat_of_nat)
    then have "unat x < unat b" using i a by simp
    then have "unat (x - b) = unat x + 2 ^ 32 - unat b" by (subst unat_sub_if') simp
    then show ?thesis using a by (simp add: span_def)
  qed
  then show ?thesis by blast
qed

definition demo_sys :: "kernel_state sys" where
  "demo_sys = \<lparr>tasks_ready = 0x20000, tasks_wait = 0x20100, k_heap_start = 0x20200, lit = (\<lambda>_. 0x40000), kbuf = 0x50000,
     except_buf = 0x51000, frame = (\<lambda>s. if k_reenter s = -1 then 0x30F00 else 0x30E00), registers = (\<lambda>s i. of_nat i),
     stack_var = (\<lambda>s. 0x30D00), cr2 = (\<lambda>s. 0), intr = (\<lambda>s. None), others = (\<lambda>t s. None)\<rparr>"

definition demo_tasks :: "u32 set" where "demo_tasks = {0x10000, 0x11000}"
definition demo_lists :: "u32 set" where "demo_lists = {0x20000, 0x20100}"
definition demo_stack :: "u32 set" where "demo_stack = span 0x30000 0x1000"

definition demo :: "cells \<Rightarrow> kernel_state" where
  "demo m = (monitor_state.extend blank_monitor (kernel_state.fields 0x10000 0 0 (-1) 0 0))
     \<lparr>mem := m, interrupt_handlers := (replicate 256 None)[255 := Some Syscall, 32 := Some Timer_callback]\<rparr>"

text \<open>The second task is in the ready list, or waits one tick.\<close>

definition ready_mem :: cells where
  "ready_mem = (\<lambda>a. 0)(0x20000 := 0x11000, 0x20008 := 0x11000, 0x11000 := 0x20004, 0x11004 := 0x20000,
     0x20100 := 0x20104, 0x20108 := 0x20100, 0x10074 := 3, 0x11074 := 2)"

definition wait_mem :: cells where
  "wait_mem = (\<lambda>a. 0)(0x20000 := 0x20004, 0x20008 := 0x20000, 0x20100 := 0x11000, 0x20108 := 0x11000,
     0x11000 := 0x20104, 0x11004 := 0x20100, 0x10074 := 3, 0x11074 := 0, 0x11078 := 1, 0x11080 := 1)"

definition ready_q :: "u32 \<Rightarrow> u32 list" where "ready_q = (\<lambda>L. [])(0x20000 := [0x11000])"
definition wait_q :: "u32 \<Rightarrow> u32 list" where "wait_q = (\<lambda>L. [])(0x20100 := [0x11000])"

lemma demo_simps [simp]:
  "mem (demo m) = m" "running_task (demo m) = 0x10000" "k_reenter (demo m) = -1" "forbid_counter (demo m) = 0"
  "wait_lock (demo m) = 0" "sched_state (demo m) = 0" "system_tick (demo m) = 0"
  "interrupt_handlers (demo m) = (replicate 256 None)[255 := Some Syscall, 32 := Some Timer_callback]"
  by (simp_all add: demo_def monitor_state.extend_def kernel_state.fields_def)

lemma demo_sys_simps [simp]:
  "tasks_ready demo_sys = 0x20000" "tasks_wait demo_sys = 0x20100"
  "frame demo_sys s = (if k_reenter s = -1 then 0x30F00 else 0x30E00)"
  by (simp_all add: demo_sys_def)

lemma demo_layout: "layout_ok demo_tasks demo_lists demo_stack"
proof -
  have s: "span 0x10000 140 \<inter> span 0x11000 140 = {}" "span 0x10000 140 \<inter> span 0x20000 12 = {}" "span 0x10000 140 \<inter> span 0x20100 12 = {}"
    "span 0x11000 140 \<inter> span 0x20000 12 = {}" "span 0x11000 140 \<inter> span 0x20100 12 = {}" "span 0x20000 12 \<inter> span 0x20100 12 = {}"
    "span 0x10000 140 \<inter> demo_stack = {}" "span 0x11000 140 \<inter> demo_stack = {}" "span 0x20000 12 \<inter> demo_stack = {}" "span 0x20100 12 \<inter> demo_stack = {}"
    unfolding demo_stack_def by (rule span_apart; simp)+
  moreover have "0 \<notin> span 0x10000 140" "0 \<notin> span 0x11000 140" "0 \<notin> span 0x20000 12" "0 \<notin> span 0x20100 12"
    by (simp_all add: span_def)
  ultimately show ?thesis
    using s [THEN Int_commute [THEN trans]] by (simp add: layout_ok_def demo_tasks_def demo_lists_def aligned_def)
qed

lemma demo_user: "user_mode demo_sys demo_stack (demo m)"
proof -
  have "span 0x30F00 64 \<subseteq> demo_stack" "span 0x30E00 64 \<subseteq> demo_stack"
    unfolding demo_stack_def using span_shift [of "0xF00" 64 "0x1000" "0x30000"] span_shift [of "0xE00" 64 "0x1000" "0x30000"] by simp_all
  then show ?thesis by (simp add: user_mode_def on_stack_def aligned_def)
qed

lemma demo_ready: "active demo_sys demo_tasks demo_lists demo_stack ready_q (demo ready_mem)"
  unfolding active_def tasks_inv_def
  using demo_layout
  by (simp add: lists_ok_def dll_def foot_def by_pri_def demo_tasks_def demo_lists_def ready_q_def ready_mem_def aligned_def
    task_ok_def waiting_def task_defs TS_READY_def TS_RUN_def listed_def run_flags_def)

lemma demo_wait: "active demo_sys demo_tasks demo_lists demo_stack wait_q (demo wait_mem)"
  unfolding active_def tasks_inv_def
  using demo_layout one_signal_1(1)
  by (simp add: lists_ok_def dll_def foot_def by_pri_def demo_tasks_def demo_lists_def wait_q_def wait_mem_def aligned_def
    task_ok_def waiting_def task_defs TS_READY_def TS_RUN_def TB_DELAY_def listed_def run_flags_def)

section \<open>Properties\<close>

text \<open>C4. \<open>yield\<close>. The running task joins the ready tasks behind those of its priority, and the first of them is
  dispatched, which no ready task exceeds in priority. The frame of the trap is saved in the old task, the frame saved
  in the new one is on the stack to be popped; saved frames and data of all other tasks are untouched.\<close>

theorem yield_switches:
  assumes "active W T LS K q s" and "user_mode W K s"
    and "ins_pri (node_pri (mem s)) (running_task s) (q (tasks_ready W)) = n # ns"
  shows "\<exists>s'. trap W SYSCALL_YIELD 0 s = ret s' \<and> running_task s' = n \<and> active W T LS K (q(tasks_ready W := ns)) s' \<and>
    (\<forall>t \<in> set ns. node_pri (mem s) t \<le> node_pri (mem s) n) \<and>
    dispatched T LS K (frame W s) (mem s) (yield_frame W s) (running_task s) n (mem s') \<and> returned s s'"
proof -
  note iv = tasks_invD [OF activeD(1) [OF assms(1)]]
  have "by_pri (node_pri (mem s)) (n # ns)"
    using by_pri_ins_pri [OF lists_okD(2) [OF iv(5,2)], of "running_task s"] assms(3) by simp
  then have "\<forall>t \<in> set ns. node_pri (mem s) t \<le> node_pri (mem s) n" by (simp add: by_pri_def)
  then show ?thesis using yield_ready [OF assms] by blast
qed

theorem yield_switches_witness:
  "\<exists>s'. trap demo_sys SYSCALL_YIELD 0 (demo ready_mem) = ret s' \<and> running_task s' = 0x11000"
proof -
  have "ins_pri (node_pri (mem (demo ready_mem))) (running_task (demo ready_mem)) (ready_q (tasks_ready demo_sys)) = [0x11000, 0x10000]"
    by (simp add: ready_q_def node_pri_def ready_mem_def)
  from yield_switches [OF demo_ready demo_user this] show ?thesis by blast
qed

text \<open>C13. \<open>wait\<close>. The running task enters the waiting list by priority, waits for the signal, and is not ready; the first
  ready task is dispatched. \<open>wait\<close> goes on only when the task is dispatched again, and returns the signals received.\<close>

theorem wait_blocks:
  assumes "active W T LS K q s" and "user_mode W K s" and "one_signal sigs" and "L \<in> LS" "L \<noteq> tasks_ready W"
    and "q (tasks_ready W) = n # ns"
  shows "\<exists>s1 s'. wait_enter sigs L s = ret s1 \<and> trap W SYSCALL_YIELD 0 s1 = ret s' \<and> running_task s' = n \<and>
    wait W sigs L s = bnd (others W (running_task s) s') (\<lambda>s2. ret (mem s2 (sigs_recvd (running_task s2)), s2)) \<and>
    active W T LS K (q(L := ins_pri (node_pri (mem s)) (running_task s) (q L), tasks_ready W := ns)) s' \<and>
    mem s' (sigs_waiting (running_task s)) = sigs \<and> mem s' (sigs_recvd (running_task s)) = 0 \<and>
    dispatched T LS K (frame W s1) (mem s1) (yield_frame W s1) (running_task s) n (mem s') \<and> returned s1 s'"
proof -
  let ?q = "q(L := ins_pri (node_pri (mem s)) (running_task s) (q L))"
  obtain s1 where s1: "wait_enter sigs L s = ret s1" "same_kernel s s1" "parked W T LS K ?q s1"
    "mem s1 (sigs_waiting (running_task s)) = sigs" "mem s1 (sigs_recvd (running_task s)) = 0"
    using wait_enter_parks [OF assms(1,3,4,5)] by blast
  have r: "running_task s1 = running_task s" using s1(2) by (simp add: same_kernel_def)
  have w: "waiting LS (tasks_ready W) ?q (running_task s1)" using assms(4,5) by (auto simp: waiting_def r)
  have u: "user_mode W K s1" using assms(2) s1(2) by (simp add: user_mode_def same_kernel_def)
  have n: "?q (tasks_ready W) = n # ns" using assms(5,6) by simp
  obtain s' where s': "trap W SYSCALL_YIELD 0 s1 = ret s'" "running_task s' = n" "active W T LS K (?q(tasks_ready W := ns)) s'"
    "dispatched T LS K (frame W s1) (mem s1) (yield_frame W s1) (running_task s) n (mem s')" "returned s1 s'"
    using yield_blocked [OF s1(3) w u n] unfolding r by blast
  have run: "running_task s \<in> T" using tasks_invD(6) [OF activeD(1) [OF assms(1)]] .
  have "n \<noteq> running_task s"
    using activeD(5) [OF assms(1)] assms(6) tasks_invD(2) [OF activeD(1) [OF assms(1)]] by (metis list.set_intros(1))
  moreover have "sigs \<noteq> 0" using assms(3) by (auto simp: one_signal_def push_bit_eq_0_iff)
  ultimately have "wait W sigs L s = bnd (others W (running_task s) s') (\<lambda>s2. ret (mem s2 (sigs_recvd (running_task s2)), s2))"
    using s1(1) s'(1,2) r by (simp add: wait_def yield_def system_call_def)
  moreover have "data_same T (mem s1) (mem s')" using s'(4) by (simp add: dispatched_def)
  ultimately show ?thesis using s1 s' data_sameD(1,2) [of T "mem s1" "mem s'" "running_task s"] run by auto
qed

theorem wait_blocks_witness:
  "\<exists>s1 s'. wait_enter TB_RESUME 0x20100 (demo ready_mem) = ret s1 \<and> trap demo_sys SYSCALL_YIELD 0 s1 = ret s' \<and>
    running_task s' = 0x11000 \<and> mem s' (sigs_waiting 0x10000) = 4"
proof -
  have "0x20100 \<in> demo_lists" "0x20100 \<noteq> tasks_ready demo_sys" "ready_q (tasks_ready demo_sys) = [0x11000]"
    by (simp_all add: demo_lists_def ready_q_def)
  from wait_blocks [OF demo_ready demo_user one_signal_1(3) this] show ?thesis by (auto simp: TB_RESUME_def)
qed

text \<open>C14. \<open>signal\<close> to a task that waits for it: the task gets the signal, leaves its waiting list and joins the ready tasks.
  When its priority is not below that of the running task, the running task yields, and then the first of all ready
  tasks, the running one among them, is dispatched.\<close>

theorem signal_wakes:
  assumes "active W T LS K q s" and "user_mode W K s" and "L \<in> LS" "L \<noteq> tasks_ready W" and "t \<in> set (q L)"
    and "mem s (sigs_waiting t) AND sigs \<noteq> 0"
  shows "\<exists>s1. signal_enter W t sigs s = ret s1 \<and>
    active W T LS K (q(L := remove1 t (q L), tasks_ready W := ins_pri (node_pri (mem s)) t (q (tasks_ready W)))) s1 \<and>
    mem s1 (sigs_waiting t) = 0 \<and> mem s1 (sigs_recvd t) = mem s (sigs_recvd t) OR sigs \<and>
    (if node_pri (mem s) (running_task s) \<le> node_pri (mem s) t
     then \<exists>s' n ns. trap W SYSCALL_YIELD 0 s1 = ret s' \<and> running_task s' = n \<and>
       ins_pri (node_pri (mem s)) (running_task s) (ins_pri (node_pri (mem s)) t (q (tasks_ready W))) = n # ns \<and>
       active W T LS K (q(L := remove1 t (q L), tasks_ready W := ns)) s' \<and>
       signal W t sigs s = bnd (if n = running_task s then ret s' else others W (running_task s) s') (\<lambda>s2. ret (sigs, s2))
     else signal W t sigs s = ret (sigs, s1))"
proof -
  let ?p = "node_pri (mem s)" and ?r = "running_task s" and ?R = "tasks_ready W"
  let ?q = "q(L := remove1 t (q L), ?R := ins_pri ?p t (q ?R))"
  note inv = activeD(1) [OF assms(1)]
  note iv = tasks_invD [OF inv]
  obtain s1 where s1: "signal_enter W t sigs s = ret s1" "same_kernel s s1" "tasks_inv W T LS K ?q s1"
    "\<forall>r. run_flags T (mem s1) r = run_flags T (mem s) r" "mem s1 (sigs_waiting t) = 0"
    "mem s1 (sigs_recvd t) = mem s (sigs_recvd t) OR sigs"
    "\<forall>c. c \<notin> link_area T LS \<union> span (t + 116) 12 \<longrightarrow> mem s1 c = mem s c"
    using signal_enter_readies [OF inv assms(3-6)] by blast
  have r: "running_task s1 = ?r" using s1(2) by (simp add: same_kernel_def)
  have act: "active W T LS K ?q s1"
    using s1(3,4) activeD(2-4) [OF assms(1)] listed_move [OF iv(5) assms(3) iv(2) assms(4,5)] by (simp add: active_def r)
  have tT: "t \<in> T" using lists_okD(3) [OF iv(5) assms(3)] assms(5) by auto
  have pri: "node_pri (mem s1) x = ?p x" if x: "x \<in> T" for x
  proof -
    have "x + 12 \<notin> span (t + 116) 12"
    proof (cases "x = t")
      case False
      have "span (t + 116) 12 \<subseteq> span t 140" by (rule span_shift) simp
      moreover have "x + 12 \<in> span x 140" by simp
      ultimately show ?thesis using layout_okD(4) [OF iv(1) x tT False] by blast
    qed (simp add: span_def)
    then show ?thesis using s1(7) layout_field(1) [OF iv(1) x, of 12] by (simp add: node_pri_def)
  qed
  have sg: "sigs \<noteq> 0" using assms(6) by auto
  show ?thesis
  proof (cases "?p ?r \<le> ?p t")
    case False
    then have "signal W t sigs s = ret (sigs, s1)"
      using s1(1) sg assms(6) pri [OF tT] pri [OF iv(6)] by (simp add: signal_def r)
    then show ?thesis using s1 act False by auto
  next
    case True
    have "length (ins_pri ?p ?r (ins_pri ?p t (q ?R))) = Suc (Suc (length (q ?R)))" by simp
    then obtain n ns where n: "ins_pri ?p ?r (ins_pri ?p t (q ?R)) = n # ns" by (metis length_Suc_conv)
    have "set (ins_pri ?p t (q ?R)) \<subseteq> T" using lists_okD(3) [OF iv(5,2)] tT by simp
    then have "ins_pri (node_pri (mem s1)) ?r (?q ?R) = n # ns"
      using pri iv(6) by (subst n [symmetric]) (simp, intro ins_pri_cong, auto)
    moreover have "user_mode W K s1" using assms(2) s1(2) by (simp add: user_mode_def same_kernel_def)
    ultimately obtain s' where s': "trap W SYSCALL_YIELD 0 s1 = ret s'" "running_task s' = n" "active W T LS K (?q(?R := ns)) s'"
      using yield_ready [OF act, of n ns] r by auto
    have "signal W t sigs s = bnd (if n = ?r then ret s' else others W ?r s') (\<lambda>s2. ret (sigs, s2))"
      using s1(1) sg assms(6) pri [OF tT] pri [OF iv(6)] True s'(1,2) by (simp add: signal_def r yield_def system_call_def)
    then show ?thesis using s1 act True s' n by (intro exI [of _ s1]) auto
  qed
qed

theorem signal_wakes_witness:
  "\<exists>s1 s'. signal_enter demo_sys 0x11000 TB_DELAY (demo wait_mem) = ret s1 \<and> trap demo_sys SYSCALL_YIELD 0 s1 = ret s' \<and>
    running_task s' = 0x11000"
proof -
  have "0x20100 \<in> demo_lists" "0x20100 \<noteq> tasks_ready demo_sys" "0x11000 \<in> set (wait_q 0x20100)"
    "mem (demo wait_mem) (sigs_waiting 0x11000) AND TB_DELAY \<noteq> 0"
    by (simp_all add: demo_lists_def wait_q_def wait_mem_def sigs_waiting_def TB_DELAY_def)
  from signal_wakes [OF demo_wait demo_user this] show ?thesis
    by (auto simp: wait_q_def wait_mem_def node_pri_def)
qed

text \<open>C15. The clock. Its handler returns; it counts down the delayed tasks of the waiting list up to the first one whose
  delay is over, which gets the signal and becomes ready. The tasks behind that one are not counted down in this tick.\<close>

theorem timer_tick:
  assumes "tasks_inv W T LS K q s" and "in_kernel W K s" and "counters_ok s" and "wait_lock s = 0"
  shows "\<exists>s'. timer_callback W s = ret s' \<and> tasks_inv W T LS K (ticked W q (mem s)) s' \<and>
    system_tick s' = system_tick s + 1 \<and> sched_state s' AND NEED_SCHEDULE \<noteq> 0 \<and> running_task s' = running_task s \<and>
    (\<forall>x \<in> set (counted (mem s) (q (tasks_wait W))). mem s' (task_delay x) = mem s (task_delay x) - (if delayed (mem s) x then 1 else 0)) \<and>
    (case dropWhile (\<lambda>t. \<not> expires (mem s) t) (q (tasks_wait W)) of []
       \<Rightarrow> \<forall>x \<in> T. mem s' (sigs_waiting x) = mem s (sigs_waiting x) \<and> mem s' (sigs_recvd x) = mem s (sigs_recvd x)
     | t # ys \<Rightarrow> mem s' (sigs_recvd t) = mem s (sigs_recvd t) OR TB_DELAY \<and>
         (\<forall>x \<in> set ys. mem s' (task_delay x) = mem s (task_delay x)))"
  using timer_callback_tick [OF assms] by blast

theorem timer_tick_witness:
  "\<exists>s'. timer_callback demo_sys (demo wait_mem\<lparr>k_reenter := 0\<rparr>) = ret s' \<and> mem s' (sigs_recvd 0x11000) = 1"
proof -
  let ?s = "demo wait_mem\<lparr>k_reenter := 0\<rparr>"
  have "tasks_inv demo_sys demo_tasks demo_lists demo_stack wait_q ?s" using activeD(1) [OF demo_wait] by (simp add: tasks_inv_def)
  moreover have "in_kernel demo_sys demo_stack ?s" using demo_user [of wait_mem] by (simp add: in_kernel_def user_mode_def)
  moreover have "counters_ok ?s" "wait_lock ?s = 0" by (simp_all add: counters_ok_def)
  moreover have "expires (mem ?s) 0x11000" by (simp add: expires_def delayed_def wait_mem_def task_defs TB_DELAY_def)
  ultimately show ?thesis
    using timer_tick [of demo_sys demo_tasks demo_lists demo_stack wait_q ?s]
    by (auto simp: wait_q_def wait_mem_def task_defs TB_DELAY_def)
qed

section \<open>The clock interrupt and forbidden sections\<close>

text \<open>What the clock does from a running task, without a switch and with one.\<close>

definition clock_ready :: "'a kernel_state_scheme sys \<Rightarrow> u32 set \<Rightarrow> 'a kernel_state_scheme \<Rightarrow> bool" where
  "clock_ready W K s \<longleftrightarrow> user_mode W K s \<and> counters_ok s \<and> wait_lock s = 0 \<and> frames_apart W \<and>
     interrupt_handlers s ! 32 = Some Timer_callback"

lemma clock_interrupt_step:
  assumes act: "active W T LS K q s" and ready: "clock_ready W K s"
  shows "\<exists>s'. interrupt W (clock_isr W) 32 s = ret s' \<and> clock_ready W K s' \<and> system_tick s' = system_tick s + 1 \<and>
    (\<forall>t \<in> T. t \<noteq> running_task s \<longrightarrow> frame_at (mem s') (task_state t) = frame_at (mem s) (task_state t)) \<and>
    (if sint (forbid_counter s) > 0 \<and> \<not> wakes W q (mem s) (running_task s)
     then running_task s' = running_task s \<and> active W T LS K (ticked W q (mem s)) s' \<and> forbid_counter s' = forbid_counter s \<and>
       sched_state s' AND NEED_SCHEDULE \<noteq> 0 \<and> frame_at (mem s') (frame W s) = irq_frame W 32 s
     else \<exists>n ns. ins_pri (node_pri (mem s)) (running_task s) (ticked W q (mem s) (tasks_ready W)) = n # ns \<and>
       running_task s' = n \<and> active W T LS K ((ticked W q (mem s))(tasks_ready W := ns)) s' \<and> forbid_counter s' = 0 \<and>
       frame_at (mem s') (task_state (running_task s)) = irq_frame W 32 s \<and>
       frame_at (mem s') (frame W s) = (if n = running_task s then irq_frame W 32 s else frame_at (mem s) (task_state n)))"
proof -
  let ?q = "ticked W q (mem s)" and ?r = "running_task s" and ?f = "frame W s"
  have cr: "user_mode W K s" "counters_ok s" "wait_lock s = 0" "frames_apart W" "interrupt_handlers s ! 32 = Some Timer_callback"
    using ready by (simp_all add: clock_ready_def)
  note u = user_modeD [OF cr(1)] and inv = activeD(1) [OF act]
  note iv = tasks_invD [OF inv]
  obtain s1 where s1: "timer_callback W (irq_state W 32 s) = ret s1" "tasks_inv W T LS K ?q s1"
    "\<forall>r. run_flags T (mem s1) r = run_flags T (mem s) r" "running_task s1 = ?r" "k_reenter s1 = 0"
    "interrupt_handlers s1 = interrupt_handlers s" "wait_lock s1 = 0" "system_tick s1 = system_tick s + 1"
    "sched_state s1 AND NEED_SCHEDULE \<noteq> 0" "counters_ok s1"
    "forbid_counter s1 = (if wakes W q (mem s) ?r then 0 else forbid_counter s)" "frame_at (mem s1) ?f = irq_frame W 32 s"
    "\<forall>t \<in> T. frame_at (mem s1) (task_state t) = frame_at (mem s) (task_state t)" "\<forall>t \<in> T. node_pri (mem s1) t = node_pri (mem s) t"
    using clock_inv [OF inv cr(1-4)] by blast
  have act1: "active W T LS K ?q (disable s1)"
    using clock_active [OF act s1(2,3,4)] by (subst active_same [of _ s1]) simp_all
  have int: "interrupt W (clock_isr W) 32 s = bnd (reschedule W ?f (disable s1)) (\<lambda>s2. ret (end_of_interrupt s2\<lparr>iflag := iflag s\<rparr>))"
    using interrupt_clock [OF u(4) cr(5)] s1(1) by simp
  have cr': "clock_ready W K (end_of_interrupt s2\<lparr>iflag := b\<rparr>)"
    if "k_reenter s2 = 0" "interrupt_handlers s2 = interrupt_handlers s" "wait_lock s2 = 0" "counters_ok s2" for s2 b
    using that cr by (simp add: clock_ready_def user_mode_def counters_ok_def)
  show ?thesis
  proof (cases "sint (forbid_counter s) > 0 \<and> \<not> wakes W q (mem s) ?r")
    case True
    then have "reschedule W ?f (disable s1) = ret (disable s1)" using s1(11) by (intro reschedule_forbidden) simp
    moreover have "active W T LS K ?q (end_of_interrupt (disable s1)\<lparr>iflag := iflag s\<rparr>)"
      using act1 by (subst active_same [of _ "disable s1"]) simp_all
    moreover have "clock_ready W K (end_of_interrupt (disable s1)\<lparr>iflag := iflag s\<rparr>)"
      using s1 by (intro cr') (simp_all add: counters_ok_def)
    ultimately show ?thesis
      using True int s1 by (intro exI [of _ "end_of_interrupt (disable s1)\<lparr>iflag := iflag s\<rparr>"]) simp
  next
    case False
    have fc: "\<not> sint (forbid_counter (disable s1)) > 0" "forbid_counter s1 = 0"
    proof -
      have "0 \<le> sint (forbid_counter s)" using cr(2) by (simp add: counters_ok_def)
      then have "sint (forbid_counter s) = 0 \<or> wakes W q (mem s) ?r" using False by linarith
      moreover have "forbid_counter s = 0" if "sint (forbid_counter s) = 0" using that by (simp only: signed_eq_0_iff)
      ultimately show "forbid_counter s1 = 0" using s1(11) by auto
      then show "\<not> sint (forbid_counter (disable s1)) > 0" by simp
    qed
    have "length (ins_pri (node_pri (mem s)) ?r (?q (tasks_ready W))) = Suc (length (?q (tasks_ready W)))" by simp
    then obtain n ns where n: "ins_pri (node_pri (mem s)) ?r (?q (tasks_ready W)) = n # ns" by (metis length_Suc_conv)
    have "set (?q (tasks_ready W)) \<subseteq> T" using lists_okD(3) [OF tasks_invD(5,2) [OF s1(2)]] .
    then have "ins_pri (node_pri (mem (disable s1))) (running_task (disable s1)) (?q (tasks_ready W)) = n # ns"
      using s1(4,14) iv(6) by (subst n [symmetric]) (simp, intro ins_pri_cong, auto)
    from reschedule_ready [OF act1 u(2) [of s] fc(1) _ _ this] s1(5,9) obtain m' where
      m': "reschedule W ?f (disable s1) = ret (disable s1\<lparr>sched_state := sched_state s1 AND NOT NEED_SCHEDULE, running_task := n, mem := m'\<rparr>)"
      "active W T LS K (?q(tasks_ready W := ns)) (disable s1\<lparr>running_task := n, mem := m'\<rparr>)"
      "dispatched T LS K ?f (mem s1) (irq_frame W 32 s) ?r n m'"
      using s1(4,12) by auto
    let ?s2 = "disable s1\<lparr>sched_state := sched_state s1 AND NOT NEED_SCHEDULE, running_task := n, mem := m'\<rparr>"
    let ?s' = "end_of_interrupt ?s2\<lparr>iflag := iflag s\<rparr>"
    have "active W T LS K (?q(tasks_ready W := ns)) ?s'"
      using m'(2) by (subst active_same [of _ "disable s1\<lparr>running_task := n, mem := m'\<rparr>"]) simp_all
    moreover have "clock_ready W K ?s'" using s1 fc by (intro cr') (simp_all add: counters_ok_def)
    moreover have "n \<in> T" using tasks_invD(6) [OF activeD(1) [OF m'(2)]] by simp
    ultimately show ?thesis
      using False int m' s1 n fc(2) by (intro exI [of _ ?s']) (auto simp: dispatched_def)
  qed
qed

text \<open>C7. The clock interrupt taken while a task runs. Inside a forbidden section, unless a task of at least equal
  priority wakes up, it comes back to the same task with the frame it was interrupted with, and the request to schedule
  is kept for later. Otherwise the running task is entered as the last of its priority and the first ready task is
  dispatched with its own saved frame. The saved frames of all other tasks are untouched either way.\<close>

theorem clock_interrupt:
  assumes "active W T LS K q s" and "clock_ready W K s"
  shows "\<exists>s'. interrupt W (clock_isr W) 32 s = ret s' \<and> clock_ready W K s' \<and> system_tick s' = system_tick s + 1 \<and>
    (\<forall>t \<in> T. t \<noteq> running_task s \<longrightarrow> frame_at (mem s') (task_state t) = frame_at (mem s) (task_state t)) \<and>
    (if sint (forbid_counter s) > 0 \<and> \<not> wakes W q (mem s) (running_task s)
     then running_task s' = running_task s \<and> active W T LS K (ticked W q (mem s)) s' \<and> forbid_counter s' = forbid_counter s \<and>
       sched_state s' AND NEED_SCHEDULE \<noteq> 0 \<and> frame_at (mem s') (frame W s) = irq_frame W 32 s
     else \<exists>n ns. ins_pri (node_pri (mem s)) (running_task s) (ticked W q (mem s) (tasks_ready W)) = n # ns \<and>
       running_task s' = n \<and> active W T LS K ((ticked W q (mem s))(tasks_ready W := ns)) s' \<and> forbid_counter s' = 0 \<and>
       frame_at (mem s') (task_state (running_task s)) = irq_frame W 32 s \<and>
       frame_at (mem s') (frame W s) = (if n = running_task s then irq_frame W 32 s else frame_at (mem s) (task_state n)))"
  by (rule clock_interrupt_step [OF assms])

lemma demo_frames: "frames_apart demo_sys"
proof -
  have k: "kframes demo_sys \<subseteq> span 0x30E00 64" by (auto simp: kframes_def split: if_splits)
  have "span 0x30E00 64 \<inter> span 0x30F00 64 = {}" by (rule span_apart) simp_all
  then show ?thesis using k by (auto simp: frames_apart_def)
qed

lemma demo_clock: "clock_ready demo_sys demo_stack (demo m)"
  using demo_user [of m] demo_frames by (simp add: clock_ready_def counters_ok_def)

theorem clock_interrupt_witness:
  "\<exists>s'. interrupt demo_sys (clock_isr demo_sys) 32 (demo wait_mem) = ret s' \<and> running_task s' = 0x11000"
proof -
  have "expires wait_mem 0x11000" by (simp add: expires_def delayed_def wait_mem_def task_defs TB_DELAY_def)
  then have "ticked demo_sys wait_q wait_mem 0x20000 = [0x11000]" by (simp add: ticked_def woken_def wait_q_def)
  then show ?thesis
    using clock_interrupt [OF demo_wait demo_clock] by (auto simp: node_pri_def wait_mem_def)
qed

text \<open>C36. A forbidden section does not hold off every task: when the clock wakes a task of higher priority, the yield in
  \<open>signal\<close> sets the counter of \<open>forbid\<close> to zero, and the interrupt switches to another task in the middle of the
  section.\<close>

theorem forbid_broken_by_clock:
  assumes "active W T LS K q s" and "clock_ready W K s" and "sint (forbid_counter s) > 0"
    and "dropWhile (\<lambda>t. \<not> expires (mem s) t) (q (tasks_wait W)) = t # ys"
    and "node_pri (mem s) (running_task s) < node_pri (mem s) t"
  shows "\<exists>s'. interrupt W (clock_isr W) 32 s = ret s' \<and> running_task s' \<noteq> running_task s \<and> forbid_counter s' = 0"
proof -
  let ?p = "node_pri (mem s)" and ?R = "tasks_ready W"
  have w: "wakes W q (mem s) (running_task s)" using assms(4,5) by (simp add: wakes_def)
  obtain s' n ns where s': "interrupt W (clock_isr W) 32 s = ret s'" "running_task s' = n" "forbid_counter s' = 0"
    "ins_pri ?p (running_task s) (ticked W q (mem s) ?R) = n # ns"
    using clock_interrupt_step [OF assms(1,2)] w by auto
  have "ticked W q (mem s) ?R = ins_pri ?p t (q ?R)" using assms(4) by (simp add: ticked_def woken_def)
  moreover have "\<exists>x xs. ins_pri ?p t ts = x # xs \<and> ?p t \<le> ?p x" for ts by (cases ts) auto
  ultimately have "\<exists>x xs. ticked W q (mem s) ?R = x # xs \<and> ?p t \<le> ?p x" by simp
  then have "?p (running_task s) < ?p n" using s'(4) assms(5) by (auto split: if_splits)
  then show ?thesis using s' by auto
qed

theorem forbid_broken_by_clock_witness:
  "\<exists>s'. interrupt demo_sys (clock_isr demo_sys) 32 (forbid (demo (wait_mem(0x1100C := 1)))) = ret s' \<and> running_task s' \<noteq> 0x10000 \<and> forbid_counter s' = 0"
proof -
  let ?m = "wait_mem(0x1100C := 1)"
  have "active demo_sys demo_tasks demo_lists demo_stack wait_q (demo ?m)"
    unfolding active_def tasks_inv_def
    using demo_layout one_signal_1(1)
    by (simp add: lists_ok_def dll_def foot_def by_pri_def demo_tasks_def demo_lists_def wait_q_def wait_mem_def aligned_def
      task_ok_def waiting_def task_defs TS_READY_def TS_RUN_def TB_DELAY_def listed_def run_flags_def)
  then have act: "active demo_sys demo_tasks demo_lists demo_stack wait_q (forbid (demo ?m))"
    by (subst active_same [of _ "demo ?m"]) (simp_all add: forbid_def)
  have clk: "clock_ready demo_sys demo_stack (forbid (demo ?m))"
    using demo_clock [of ?m] by (simp add: clock_ready_def forbid_def counters_ok_def user_mode_def)
  have "dropWhile (\<lambda>t. \<not> expires ?m t) (wait_q 0x20100) = [0x11000]"
    by (simp add: wait_q_def expires_def delayed_def wait_mem_def task_defs TB_DELAY_def)
  then show ?thesis
    using forbid_broken_by_clock [OF act clk, of "0x11000" "[]"] by (simp add: forbid_def node_pri_def wait_mem_def)
qed

end
