(* ===== verification/KSteps.thy ===== *)
theory KSteps
  imports TaskProps
begin

text \<open>
  What a step of the kernel does to the register frames, and the lemmas of the steps of task.c: a yield that returns, \<open>wait\<close> and
  \<open>signal\<close> up to their trap, and the writes of the running task to its own memory.
\<close>

section \<open>Frames\<close>

text \<open>The effect of a step on the register frames. The label of a step that traps is the place of the frame on the stack and the
  frame pushed there.\<close>

definition step_frames :: "u32 set \<Rightarrow> 'a kernel_state_scheme \<Rightarrow> (u32 \<times> u32 list) option \<Rightarrow> 'a kernel_state_scheme \<Rightarrow> bool" where
  "step_frames T s l s' \<longleftrightarrow>
    (\<forall>t \<in> T. t \<noteq> running_task s \<longrightarrow> frame_at (mem s') (task_state t) = frame_at (mem s) (task_state t)) \<and>
    (case l of None \<Rightarrow> running_task s' = running_task s
     | Some (regs, f) \<Rightarrow>
         if running_task s' = running_task s then frame_at (mem s') regs = f
         else frame_at (mem s') (task_state (running_task s)) = f \<and>
           frame_at (mem s') regs = frame_at (mem s) (task_state (running_task s')))"

lemma step_frames_contexts:
  "contexts T regs f (mem s) (running_task s) (running_task s') (mem s') \<Longrightarrow> step_frames T s (Some (regs, f)) s'"
  by (simp add: contexts_def step_frames_def)

section \<open>A yield that returns\<close>

lemma clocked_same [simp]:
  "tasks_inv (clocked W) = tasks_inv W" "active (clocked W) = active W" "user_mode (clocked W) = user_mode W"
  "clock_ready (clocked W) = clock_ready W" "yield_frame (clocked W) = yield_frame W" "irq_frame (clocked W) = irq_frame W"
  "yield_state (clocked W) = yield_state W" "kframes (clocked W) = kframes W" "frames_apart (clocked W) = frames_apart W"
  "signal_enter (clocked W) = signal_enter W"
proof -
  show i: "tasks_inv (clocked W) = tasks_inv W" by (intro ext) (simp add: tasks_inv_def)
  show "active (clocked W) = active W" by (intro ext) (simp add: active_def i)
  show u: "user_mode (clocked W) = user_mode W" by (intro ext) (simp add: user_mode_def)
  show k: "kframes (clocked W) = kframes W" by (simp add: kframes_def)
  show a: "frames_apart (clocked W) = frames_apart W" by (simp add: frames_apart_def k)
  show "clock_ready (clocked W) = clock_ready W" by (intro ext) (simp add: clock_ready_def u a)
  show "yield_frame (clocked W) = yield_frame W" by (intro ext) (simp add: yield_frame_def)
  show "irq_frame (clocked W) = irq_frame W" by (intro ext) (simp add: irq_frame_def)
  show "yield_state (clocked W) = yield_state W" by (intro ext) (simp add: yield_state_def)
  show "signal_enter (clocked W) = signal_enter W" by (intro ext) (simp add: signal_enter_def)
qed

text \<open>Ready to trap: as \<open>clock_ready\<close>, but for the counter of \<open>forbid\<close>, which a yield clears.\<close>

definition trap_ready :: "'a kernel_state_scheme sys \<Rightarrow> u32 set \<Rightarrow> 'a kernel_state_scheme \<Rightarrow> bool" where
  "trap_ready W K s \<longleftrightarrow> user_mode W K s \<and> wait_lock s = 0 \<and> frames_apart W \<and> interrupt_handlers s ! 32 = Some Timer_callback"

lemma clock_ready_trap: "clock_ready W K s \<longleftrightarrow> trap_ready W K s \<and> counters_ok s"
  by (auto simp: clock_ready_def trap_ready_def)

lemma trap_ready_same: "same_kernel s s' \<Longrightarrow> trap_ready W K s' = trap_ready W K s"
  by (simp add: trap_ready_def same_kernel_def user_mode_def)

lemma yield_returns:
  assumes st: "active W T LS K q s \<or> parked W T LS K q s \<and> waiting LS (tasks_ready W) q (running_task s)"
    and ready: "trap_ready W K s" and r: "trap (clocked W) SYSCALL_YIELD 0 s = ret s'"
  shows "\<exists>q'. active W T LS K q' s' \<and> clock_ready W K s' \<and>
    contexts T (frame W s) (yield_frame W s) (mem s) (running_task s) (running_task s') (mem s') \<and>
    elsewhere (task_area T LS \<union> K) s s'"
proof -
  let ?s1 = "yield_state W s"
  have user: "user_mode W K s" using ready by (simp add: trap_ready_def)
  have inv: "tasks_inv W T LS K q s" using st by (auto simp: active_def parked_def)
  note iv = tasks_invD [OF inv] and K = yield_state_stack [OF user]
  obtain s2 where s2: "reschedule (clocked W) (frame W s) ?s1 = ret s2" "s' = s2\<lparr>k_reenter := k_reenter s2 - 1, iflag := iflag s\<rparr>"
    using r trap_yield [of "clocked W" K s] user by (auto simp: bnd_eq_ret Let_def yield_state_def)
  have "active W T LS K q (s\<lparr>mem := mem ?s1\<rparr>) \<or> parked W T LS K q (s\<lparr>mem := mem ?s1\<rparr>) \<and> waiting LS (tasks_ready W) q (running_task s)"
    using st stack_write_active [OF _ K] stack_write_parked [OF _ K] by blast
  then have st1: "active W T LS K q ?s1 \<or> parked W T LS K q ?s1 \<and> waiting LS (tasks_ready W) q (running_task ?s1)"
    by (simp add: active_def parked_def tasks_inv_def)
  have "kernel_idle W K ?s1" using ready by (simp add: trap_ready_def user_mode_def kernel_idle_def yield_state_def)
  from reschedule_result [OF st1 user_modeD(2) [OF user] this yield_state_simps(4) s2(1)] obtain q' where
    q': "active W T LS K q' s2" "kernel_idle W K s2"
      "contexts T (frame W s) (yield_frame W s) (mem ?s1) (running_task s) (running_task s2) (mem s2)"
      "elsewhere (task_area T LS \<union> K) ?s1 s2"
    by auto
  have "active W T LS K q' s'" using q'(1) by (subst active_same [of _ s2]) (simp_all add: s2(2))
  moreover have "clock_ready W K s'"
    using q'(2) ready by (simp add: s2(2) clock_ready_def kernel_idle_def trap_ready_def user_mode_def counters_ok_def)
  moreover have "running_task s2 \<in> T" using tasks_invD(6) [OF activeD(1) [OF q'(1)]] .
  then have "contexts T (frame W s) (yield_frame W s) (mem s) (running_task s) (running_task s2) (mem s2)"
    using q'(3) stack_write(6) [OF iv(1) K] by (simp add: contexts_def)
  moreover have "elsewhere (task_area T LS \<union> K) s s2" using q'(4) K by (simp add: elsewhere_def)
  ultimately show ?thesis by (auto simp: s2(2) elsewhere_def)
qed

section \<open>The steps of a task\<close>

lemma data_write_frames:
  assumes lay: "layout_ok T LS K" and x: "x \<in> T"
    and same: "\<forall>c. c \<notin> link_area T LS \<union> (\<Union>t \<in> T. span (t + 112) 28) \<longrightarrow> m' c = m c"
  shows "frame_at m' (task_state x) = frame_at m (task_state x)"
proof (rule frame_at_frame)
  fix c assume c: "c \<in> span (task_state x) 64"
  have "c \<notin> link_area T LS" using layout_state(1) [OF lay x] c by blast
  moreover have "c \<notin> (\<Union>t \<in> T. span (t + 112) 28)" by (rule state_not_data [OF lay x c])
  ultimately show "m' c = m c" using same by simp
qed

lemma flags_span: "span (t + 116) 12 \<subseteq> span (t + 112) 28"
proof -
  have e: "t + 116 = (t + 112) + 4" by simp
  show ?thesis unfolding e by (rule span_shift) simp
qed

text \<open>\<open>wait\<close> up to its trap.\<close>

lemma wait_enter_step:
  assumes act: "active W T LS K q s" and sig: "one_signal sigs" and L: "L \<in> LS" "L \<noteq> tasks_ready W"
    and r: "wait_enter sigs L s = ret s1"
  shows "\<exists>q1. parked W T LS K q1 s1 \<and> waiting LS (tasks_ready W) q1 (running_task s1)" "same_kernel s s1"
    "t \<in> T \<Longrightarrow> frame_at (mem s1) (task_state t) = frame_at (mem s) (task_state t)"
proof -
  let ?q = "q(L := ins_pri (node_pri (mem s)) (running_task s) (q L))"
  note iv = tasks_invD [OF activeD(1) [OF act]]
  have s1: "same_kernel s s1" "parked W T LS K ?q s1"
    "\<forall>c. c \<notin> link_area T LS \<union> span (running_task s + 116) 12 \<longrightarrow> mem s1 c = mem s c"
    using wait_enter_parks [OF act sig L] r by auto
  have "waiting LS (tasks_ready W) ?q (running_task s1)"
    using L s1(1) by (auto simp: waiting_def same_kernel_def)
  then show "\<exists>q1. parked W T LS K q1 s1 \<and> waiting LS (tasks_ready W) q1 (running_task s1)" using s1(2) by blast
  show "same_kernel s s1" by (rule s1(1))
  have "\<forall>c. c \<notin> link_area T LS \<union> (\<Union>t \<in> T. span (t + 112) 28) \<longrightarrow> mem s1 c = mem s c"
    using s1(3) iv(6) flags_span [of "running_task s"] by blast
  then show "frame_at (mem s1) (task_state t) = frame_at (mem s) (task_state t)" if "t \<in> T"
    by (rule data_write_frames [OF iv(1) that])
qed

text \<open>\<open>signal\<close> up to its trap.\<close>

lemma signal_enter_step:
  assumes act: "active W T LS K q s" and t: "t \<in> T" and sig: "mem s (sigs_waiting t) AND sigs \<noteq> 0"
    and r: "signal_enter W t sigs s = ret s1"
  shows "\<exists>q1. active W T LS K q1 s1" "same_kernel s s1" "forbid_counter s1 = forbid_counter (permit (forbid s))"
    "x \<in> T \<Longrightarrow> frame_at (mem s1) (task_state x) = frame_at (mem s) (task_state x)"
proof -
  note iv = tasks_invD [OF activeD(1) [OF act]]
  have "waiting LS (tasks_ready W) q t" using iv(7) [OF t] sig by (auto simp: task_ok_def split: if_splits)
  then obtain L where L: "L \<in> LS" "L \<noteq> tasks_ready W" "t \<in> set (q L)" by (auto simp: waiting_def)
  let ?q = "q(L := remove1 t (q L), tasks_ready W := ins_pri (node_pri (mem s)) t (q (tasks_ready W)))"
  have s1: "same_kernel s s1" "forbid_counter s1 = forbid_counter (permit (forbid s))" "tasks_inv W T LS K ?q s1"
    "\<forall>r. run_flags T (mem s1) r = run_flags T (mem s) r" "\<forall>c. c \<notin> link_area T LS \<union> span (t + 116) 12 \<longrightarrow> mem s1 c = mem s c"
    using signal_enter_readies [OF activeD(1) [OF act] L sig] r by auto
  have "running_task s1 = running_task s" using s1(1) by (simp add: same_kernel_def)
  then have "active W T LS K ?q s1"
    using s1(3,4) activeD(2-4) [OF act] listed_move [OF iv(5) L(1) iv(2) L(2,3)] by (simp add: active_def)
  then show "\<exists>q1. active W T LS K q1 s1" by blast
  show "same_kernel s s1" "forbid_counter s1 = forbid_counter (permit (forbid s))" by (rule s1)+
  have "\<forall>c. c \<notin> link_area T LS \<union> (\<Union>t \<in> T. span (t + 112) 28) \<longrightarrow> mem s1 c = mem s c"
    using s1(5) t flags_span [of t] by blast
  then show "frame_at (mem s1) (task_state x) = frame_at (mem s) (task_state x)" if "x \<in> T"
    by (rule data_write_frames [OF iv(1) that])
qed

text \<open>The running task sets its delay, or writes its own memory.\<close>

lemma set_delay_step:
  assumes act: "active W T LS K q s"
  shows "active W T LS K q (upd (task_delay (running_task s)) v s)"
    and "x \<in> T \<Longrightarrow> frame_at (mem (upd (task_delay (running_task s)) v s)) (task_state x) = frame_at (mem s) (task_state x)"
proof -
  let ?r = "running_task s"
  define m where "m = (mem s)(task_delay ?r := v)"
  note iv = tasks_invD [OF activeD(1) [OF act]]
  have e: "?r + 128 = (?r + 112) + 16" by simp
  have "task_delay ?r \<in> span (?r + 112) 28" unfolding task_delay_def e by (simp only: span_add) simp
  then have same: "\<forall>c. c \<notin> span (?r + 112) 28 \<longrightarrow> m c = mem s c" by (auto simp: m_def)
  note ow = own_write [OF iv(1,6) same]
  have f: "m (task_flags x) = mem s (task_flags x)" "m (sigs_waiting x) = mem s (sigs_waiting x)" if "x \<in> T" for x
    using layout_field(3) [OF iv(1) that _ _ iv(6), of 116 128] layout_field(3) [OF iv(1) that _ _ iv(6), of 120 128] by (simp_all add: m_def task_defs)
  have "task_ok m b x = task_ok (mem s) b x" if "x \<in> T" for b x using f [OF that] by (simp add: task_ok_def)
  moreover have "run_flags T m (Some ?r)" using activeD(4) [OF act] f by (simp add: run_flags_def)
  ultimately show "active W T LS K q (upd (task_delay ?r) v s)"
    using activeD(2,3) [OF act] iv ow(1) [OF iv(5)] by (simp add: active_def tasks_inv_def upd_def flip: m_def)
  show "x \<in> T \<Longrightarrow> frame_at (mem (upd (task_delay ?r) v s)) (task_state x) = frame_at (mem s) (task_state x)"
    using ow(3) by (simp add: upd_def flip: m_def)
qed

lemma set_delay_else:
  assumes "running_task s \<in> T"
  shows "elsewhere (task_area T LS) s (upd (task_delay (running_task s)) v s)"
proof -
  have "task_delay (running_task s) \<in> span (running_task s) 140" by (simp add: task_delay_def)
  then show ?thesis using task_area_parts(2) [OF assms, of LS] by (auto simp: elsewhere_def)
qed

lemma memory_step:
  assumes act: "active W T LS K q s"
    and same: "\<And>c. c \<in> (\<Union>t \<in> T. span t 140) \<union> (\<Union>L \<in> LS. span L 12) \<Longrightarrow> m c = mem s c"
  shows "active W T LS K q (s\<lparr>mem := m\<rparr>)" and "x \<in> T \<Longrightarrow> frame_at m (task_state x) = frame_at (mem s) (task_state x)"
proof -
  note iv = tasks_invD [OF activeD(1) [OF act]]
  have f: "m (x + k) = mem s (x + k)" if "x \<in> T" "unat k < 140" for x k
  proof -
    have "x + k \<in> span x 140" using that(2) by simp
    then show ?thesis using same that(1) by blast
  qed
  have "lists_ok T LS m q"
  proof (rule lists_ok_frame [OF iv(5)])
    show "m c = mem s c" if "c \<in> link_area T LS" for c
    proof -
      have "span t 8 \<subseteq> span t 140" for t by (rule span_mono) simp
      then show ?thesis using same that by (fastforce simp: link_area_def)
    qed
  qed (simp add: f)
  moreover have "task_ok m b x = task_ok (mem s) b x" if "x \<in> T" for b x
    using f [OF that] by (simp add: task_ok_def task_flags_def sigs_waiting_def)
  moreover have "run_flags T m (Some (running_task s))"
    using activeD(4) [OF act] f by (simp add: run_flags_def task_flags_def)
  ultimately show "active W T LS K q (s\<lparr>mem := m\<rparr>)" using activeD(2,3) [OF act] iv by (simp add: active_def tasks_inv_def)
  show "x \<in> T \<Longrightarrow> frame_at m (task_state x) = frame_at (mem s) (task_state x)"
    using same task_state_span [of x] by (intro frame_at_frame) blast
qed

lemma permit_small:
  assumes "0 \<le> sint (forbid_counter s)" "sint (forbid_counter s) < 2 ^ 31 - 1"
  shows "0 \<le> sint (forbid_counter (permit s)) \<and> sint (forbid_counter (permit s)) < 2 ^ 31 - 1"
proof (cases "sint (forbid_counter s) > 0")
  case True
  then have "sint (forbid_counter s - 1) = sint (forbid_counter s) - 1"
    using assms by (simp add: sint_word_ariths signed_take_bit_int_eq_self)
  then show ?thesis using True assms by (simp add: permit_def)
qed (use assms in \<open>simp add: permit_def\<close>)

end
