(* ===== verification/Sleep.thy ===== *)
theory Sleep
  imports KSteps
begin

text \<open>
  Delays. A task that waits while no other task is ready leaves the processor idle; the clock counts the delays down and
  ends the wait of the first task whose delay is over. So \<open>delay\<close> returns after the ticks it was asked for.
\<close>

section \<open>A trap that idles\<close>

lemma next_timer_same:
  assumes "\<forall>x \<in> insert t (set us \<union> set vs). m' (sigs_waiting x) = m (sigs_waiting x) \<and> m' (task_delay x) = m (task_delay x)"
  shows "next_timer m' us t vs = next_timer m us t vs" and "ticks_left m' t = ticks_left m t"
  using assms by (simp_all add: next_timer_def delayed_def ticks_left_def)

lemma yield_idles:
  assumes park: "parked W T LS K q s" and wait: "waiting LS (tasks_ready W) q (running_task s)" and ready: "trap_ready W K s"
    and q: "q (tasks_ready W) = []" "q (tasks_wait W) = us @ t # vs" and nt: "next_timer (mem s) us t vs"
  shows "\<exists>s'. trap (clocked W) SYSCALL_YIELD 0 s = ret s' \<and> running_task s' = t \<and>
    active W T LS K (q(tasks_wait W := us @ vs, tasks_ready W := [])) s' \<and> clock_ready W K s' \<and>
    contexts T (frame W s) (yield_frame W s) (mem s) (running_task s) t (mem s') \<and>
    system_tick s' = system_tick s + of_nat (ticks_left (mem s) t) \<and> mem s' (sigs_recvd t) = mem s (sigs_recvd t) OR TB_DELAY"
proof -
  let ?r = "running_task s" and ?f = "frame W s" and ?q = "q(tasks_wait W := us @ vs, tasks_ready W := [t])"
  let ?s1 = "yield_state W s\<lparr>sched_state := sched_state (yield_state W s) AND NOT NEED_SCHEDULE\<rparr>"
  define m2 where "m2 = save_task ?f ?r (mem ?s1)"
  have user: "user_mode W K s" using ready by (simp add: trap_ready_def)
  have regs: "on_stack K ?f" by (rule user_modeD(2) [OF user])
  have inv: "tasks_inv W T LS K q s" using park by (simp add: parked_def)
  note iv = tasks_invD [OF inv] and K = yield_state_stack [OF user]
  have "parked W T LS K q (s\<lparr>mem := mem ?s1\<rparr>)" using stack_write_parked [OF park K] by simp
  then have pk1: "parked W T LS K q ?s1" by (simp add: parked_def tasks_inv_def)
  note sv = save_idle [OF pk1 regs]
  have ok2: "idle_ok W T LS K q (?s1\<lparr>mem := m2\<rparr>)" using sv(1) by (simp add: m2_def)
  have same: "m2 (sigs_waiting x) = mem s (sigs_waiting x)" "m2 (task_delay x) = mem s (task_delay x)" "m2 (sigs_recvd x) = mem s (sigs_recvd x)"
    if "x \<in> T" for x using sv(4) [OF that] stack_write(2,4,5) [OF iv(1) K that] by (simp_all add: m2_def)
  have wT: "set (us @ t # vs) \<subseteq> T" using lists_okD(3) [OF iv(5,3)] q(2) by simp
  have k2: "kernel_idle W K (?s1\<lparr>mem := m2\<rparr>)" using ready by (simp add: trap_ready_def user_mode_def kernel_idle_def yield_state_def)
  have nt2: "next_timer m2 us t vs" "ticks_left m2 t = ticks_left (mem s) t"
    using next_timer_same [where m = "mem s" and m' = m2 and us = us and t = t and vs = vs] nt same wT by (auto simp: subset_iff)
  obtain s3 where s3: "idle_loop (clocked W) (?s1\<lparr>mem := m2\<rparr>) = ret (t, s3)" "idle_ok W T LS K ?q s3" "kernel_idle W K s3"
    "frames_same T m2 (mem s3)" "system_tick s3 = system_tick s + of_nat (ticks_left (mem s) t)"
    "mem s3 (sigs_recvd t) = mem s (sigs_recvd t) OR TB_DELAY" "elsewhere (task_area T LS \<union> K) (?s1\<lparr>mem := m2\<rparr>) s3"
    using idle_loop_clock [OF ok2 k2 q] nt2 same(3) [of t] wT by (auto simp: yield_state_def)
  obtain m' where m': "switch_tasks (clocked W) ?f ?s1 = ret (s3\<lparr>running_task := t, mem := m'\<rparr>)"
    "active W T LS K (?q(tasks_ready W := [])) (s3\<lparr>running_task := t, mem := m'\<rparr>)"
    "contexts T ?f (yield_frame W s) (mem ?s1) ?r t m'" "\<forall>x \<in> T. m' (sigs_recvd x) = mem s3 (sigs_recvd x)"
    using switch_idle [where n = t and ns = "[]", OF pk1 regs _ s3(2)] s3(1,4,7) by (auto simp: m2_def)
  let ?s' = "s3\<lparr>running_task := t, mem := m', k_reenter := -1, iflag := iflag s\<rparr>"
  have "mem (yield_state W s) (task_flags ?r) AND TS_READY = 0"
    using iv(7) [OF iv(6)] wait stack_write(1) [OF iv(1) K iv(6)] by (simp add: task_ok_def)
  then have "reschedule (clocked W) ?f (yield_state W s) = ret (s3\<lparr>running_task := t, mem := m'\<rparr>)"
    using m'(1) by (simp add: reschedule_def schedule_def NEED_TASK_SWITCH_def Let_def)
  then have "trap (clocked W) SYSCALL_YIELD 0 s = ret ?s'"
    using trap_yield [of "clocked W" K s] user kernel_idleD(1) [OF s3(3)] by (simp add: Let_def flip: yield_state_def)
  moreover have "active W T LS K (q(tasks_wait W := us @ vs, tasks_ready W := [])) ?s'"
    using m'(2) by (subst active_same [of _ "s3\<lparr>running_task := t, mem := m'\<rparr>"]) simp_all
  moreover have "clock_ready W K ?s'"
    using s3(3) ready by (simp add: clock_ready_def kernel_idle_def trap_ready_def user_mode_def counters_ok_def)
  moreover have "contexts T ?f (yield_frame W s) (mem s) ?r t m'"
    using m'(3) stack_write(6) [OF iv(1) K] wT by (simp add: contexts_def)
  ultimately show ?thesis using s3(5,6) m'(4) wT by (intro exI [of _ ?s']) simp
qed

section \<open>delay\<close>

lemma delay_waits:
  assumes "counters_ok s"
  shows "delay W ticks s = wait W TB_DELAY (tasks_wait W) (upd (task_delay (running_task s)) ticks s)"
proof -
  let ?s = "upd (task_delay (running_task s)) ticks s"
  have "upd (task_delay (running_task (forbid s))) ticks (forbid s) = forbid ?s"
    by (rule kernel_state.equality) (simp_all add: upd_def forbid_def)
  moreover have "permit (forbid ?s) = ?s" using assms permit_forbid [of ?s] by (simp add: counters_ok_def upd_def)
  ultimately show ?thesis by (simp add: delay_def Let_def)
qed

lemma delay_enters:
  assumes act: "active W T LS K q s"
  shows "\<exists>s1. wait_enter TB_DELAY (tasks_wait W) (upd (task_delay (running_task s)) ticks s) = ret s1 \<and>
    same_kernel s s1 \<and> mem s1 (sigs_waiting (running_task s)) = TB_DELAY \<and> mem s1 (sigs_recvd (running_task s)) = 0 \<and>
    mem s1 (task_delay (running_task s)) = ticks \<and>
    parked W T LS K (q(tasks_wait W := ins_pri (node_pri (mem (upd (task_delay (running_task s)) ticks s))) (running_task s) (q (tasks_wait W)))) s1 \<and>
    (\<forall>x \<in> T. x \<noteq> running_task s \<longrightarrow> mem s1 (sigs_waiting x) = mem s (sigs_waiting x) \<and> mem s1 (task_delay x) = mem s (task_delay x)) \<and>
    (\<forall>x \<in> T. frame_at (mem s1) (task_state x) = frame_at (mem s) (task_state x))"
proof -
  let ?r = "running_task s" and ?s = "upd (task_delay (running_task s)) ticks s"
  note iv = tasks_invD [OF activeD(1) [OF act]]
  have r: "running_task ?s = ?r" "same_kernel s ?s" by (simp_all add: upd_def same_kernel_def)
  obtain s1 where s1: "wait_enter TB_DELAY (tasks_wait W) ?s = ret s1" "same_kernel ?s s1"
    "parked W T LS K (q(tasks_wait W := ins_pri (node_pri (mem ?s)) ?r (q (tasks_wait W)))) s1"
    "mem s1 (sigs_waiting ?r) = TB_DELAY" "mem s1 (sigs_recvd ?r) = 0"
    "\<forall>c. c \<notin> link_area T LS \<union> span (?r + 116) 12 \<longrightarrow> mem s1 c = mem ?s c"
    using wait_enter_parks [OF set_delay_step(1) [where v = ticks, OF act] one_signal_1(1) iv(3,4)] unfolding r by blast
  have "?r + 128 \<notin> link_area T LS" by (rule layout_field(1) [OF iv(1,6)]) simp_all
  moreover have "?r + 128 \<notin> span (?r + 116) 12" by (simp add: span_def)
  ultimately have "mem s1 (task_delay ?r) = ticks" using s1(6) by (simp add: task_delay_def upd_def)
  moreover have "mem s1 (sigs_waiting x) = mem s (sigs_waiting x) \<and> mem s1 (task_delay x) = mem s (task_delay x)"
    if x: "x \<in> T" "x \<noteq> ?r" for x
  proof -
    have "span (?r + 116) 12 \<subseteq> span ?r 140" by (rule span_shift) simp
    moreover have "x + k \<in> span x 140" if "unat k < 140" for k using that by simp
    ultimately have "x + k \<notin> link_area T LS \<union> span (?r + 116) 12" if "8 \<le> unat k" "unat k < 140" for k
      using layout_field(1) [OF iv(1) x(1) that] layout_okD(4) [OF iv(1) x(1) iv(6) x(2)] that(2) by blast
    moreover have "x + 120 \<noteq> ?r + 128" "x + 128 \<noteq> ?r + 128"
      using layout_field(3) [OF iv(1) x(1) _ _ iv(6), of 120 128] x(2) by simp_all
    ultimately show ?thesis using s1(6) by (simp add: sigs_waiting_def task_delay_def upd_def)
  qed
  moreover have "same_kernel s s1" using s1(2) by (simp add: same_kernel_def upd_def)
  moreover have "frame_at (mem s1) (task_state x) = frame_at (mem s) (task_state x)" if "x \<in> T" for x
  proof -
    have "\<forall>c. c \<notin> link_area T LS \<union> (\<Union>t \<in> T. span (t + 112) 28) \<longrightarrow> mem s1 c = mem ?s c"
      using s1(6) iv(6) flags_span [of ?r] by blast
    then show ?thesis by (rule trans [OF data_write_frames [OF iv(1) that] set_delay_step(2) [OF act that]])
  qed
  ultimately show ?thesis using s1(1,3-5) by blast
qed

text \<open>C12. \<open>delay\<close> comes back. For a number of ticks that is not 0, when no other task is ready and every task that waits
  for a delay has more ticks left than that, the processor idles, exactly \<open>ticks\<close> clock ticks pass, the same task is
  dispatched with the frame of its trap, and \<open>delay\<close> returns with the signal received and all lists as before. (A task with
  just as many ticks left would wake first if it stands before this one; \<open>delay(0)\<close> waits for 2^32 ticks.)\<close>

theorem delay_sleeps:
  assumes act: "active W T LS K q s" and ready: "clock_ready W K s" and idle: "q (tasks_ready W) = []" and pos: "ticks \<noteq> 0"
    and later: "\<forall>x \<in> set (q (tasks_wait W)). delayed (mem s) x \<longrightarrow> unat ticks < ticks_left (mem s) x"
  shows "\<exists>s'. delay (clocked W) ticks s = ret (TB_DELAY, s') \<and> running_task s' = running_task s \<and>
    system_tick s' = system_tick s + ticks \<and> active W T LS K q s' \<and> clock_ready W K s'"
proof -
  let ?r = "running_task s" and ?L = "tasks_wait W" and ?s = "upd (task_delay (running_task s)) ticks s"
  note iv = tasks_invD [OF activeD(1) [OF act]]
  let ?q1 = "q(?L := ins_pri (node_pri (mem ?s)) ?r (q ?L))"
  obtain s1 where s1: "wait_enter TB_DELAY ?L ?s = ret s1" "same_kernel s s1" "mem s1 (sigs_waiting ?r) = TB_DELAY"
    "mem s1 (sigs_recvd ?r) = 0" "mem s1 (task_delay ?r) = ticks" "parked W T LS K ?q1 s1"
    "\<forall>x \<in> T. x \<noteq> ?r \<longrightarrow> mem s1 (sigs_waiting x) = mem s (sigs_waiting x) \<and> mem s1 (task_delay x) = mem s (task_delay x)"
    using delay_enters [OF act] by blast
  have r1: "running_task s1 = ?r" "system_tick s1 = system_tick s" using s1(2) by (simp_all add: same_kernel_def)
  obtain us vs where uv: "q ?L = us @ vs" "ins_pri (node_pri (mem ?s)) ?r (q ?L) = us @ ?r # vs" using ins_pri_split by metis
  have left: "ticks_left (mem s1) ?r = unat ticks" using s1(5) unat_minus_one [OF pos] pos by (simp add: ticks_left_def unat_gt_0)
  have "ticks_left (mem s1) ?r < ticks_left (mem s1) x" if "x \<in> set us \<union> set vs" "delayed (mem s1) x" for x
  proof -
    have x: "x \<in> set (q ?L)" using that(1) uv(1) by auto
    then have "x \<in> T" "x \<noteq> ?r" using lists_okD(3) [OF iv(5,3)] activeD(5) [OF act iv(3)] by auto
    then have "delayed (mem s1) x = delayed (mem s) x" "ticks_left (mem s1) x = ticks_left (mem s) x"
      using s1(7) by (simp_all add: delayed_def ticks_left_def)
    then show ?thesis using later x that(2) left by simp
  qed
  then have nt: "next_timer (mem s1) us ?r vs" using s1(3) by (auto simp: next_timer_def delayed_def TB_DELAY_def less_imp_le)
  have w: "waiting LS (tasks_ready W) ?q1 (running_task s1)" using iv(3,4) by (auto simp: waiting_def r1)
  have tr: "trap_ready W K s1" using ready trap_ready_same [OF s1(2)] by (simp add: clock_ready_trap)
  have q1: "?q1 (tasks_ready W) = []" "?q1 ?L = us @ ?r # vs" using idle iv(4) uv(2) by auto
  obtain s' where s': "trap (clocked W) SYSCALL_YIELD 0 s1 = ret s'" "running_task s' = ?r"
    "active W T LS K (?q1(?L := us @ vs, tasks_ready W := [])) s'" "clock_ready W K s'"
    "system_tick s' = system_tick s1 + of_nat (ticks_left (mem s1) ?r)" "mem s' (sigs_recvd ?r) = mem s1 (sigs_recvd ?r) OR TB_DELAY"
    using yield_idles [OF s1(6) w tr q1 nt] by blast
  have "?q1(?L := us @ vs, tasks_ready W := []) = q" using uv(1) idle by auto
  moreover have "delay (clocked W) ticks s = ret (TB_DELAY, s')"
    using s1(1,4) s'(1,2,6) r1(1) ready by (simp add: clock_ready_def delay_waits wait_def yield_def system_call_def TB_DELAY_def)
  moreover have "of_nat (ticks_left (mem s1) ?r) = ticks" unfolding left by simp
  ultimately show ?thesis using s' r1(2) by (intro exI [of _ s']) simp
qed

lemma demo_later:
  "active demo_sys demo_tasks demo_lists demo_stack wait_q (demo (wait_mem(0x11080 := 9)))"
  unfolding active_def tasks_inv_def
  using demo_layout one_signal_1(1)
  by (simp add: lists_ok_def dll_def foot_def by_pri_def demo_tasks_def demo_lists_def wait_q_def wait_mem_def aligned_def
    task_ok_def waiting_def task_defs TS_READY_def TS_RUN_def TB_DELAY_def listed_def run_flags_def)

theorem delay_sleeps_witness:
  "\<exists>s'. delay (clocked demo_sys) 5 (demo (wait_mem(0x11080 := 9))) = ret (TB_DELAY, s') \<and> running_task s' = 0x10000 \<and> system_tick s' = 5"
proof -
  let ?m = "wait_mem(0x11080 := 9)"
  have e: "wait_q (tasks_ready demo_sys) = []" by (simp add: wait_q_def)
  have l: "\<forall>x \<in> set (wait_q (tasks_wait demo_sys)). delayed (mem (demo ?m)) x \<longrightarrow> unat (5 :: u32) < ticks_left (mem (demo ?m)) x"
    by (simp add: wait_q_def ticks_left_def task_delay_def wait_mem_def)
  have nz: "(5 :: u32) \<noteq> 0" by simp
  from delay_sleeps [OF demo_later demo_clock e nz l] obtain s' where "delay (clocked demo_sys) 5 (demo ?m) = ret (TB_DELAY, s')"
    "running_task s' = running_task (demo ?m)" "system_tick s' = system_tick (demo ?m) + 5" by blast
  then show ?thesis by (intro exI [of _ s'] conjI) (simp_all only: demo_simps add_0)
qed

end
