(* ===== verification/Race.thy ===== *)
theory Race
  imports Sleep
begin

text \<open>
  A race in \<open>wait\<close>. Between the entry in the waiting list and the yield, \<open>permit\<close> has ended the forbidden section, and the
  clock can wake the task that still runs. The scheduler then enters it into the ready list a second time.
\<close>

section \<open>A node linked to itself\<close>

lemma enqueue_twice:
  assumes "dll m R [r]"
  shows "\<exists>m'. enqueue m R r = Some m' \<and> m' r = r \<and> m' (r + 4) = r \<and> m' R = r \<and> (\<forall>c. c \<notin> {r, r + 4, R + 8} \<longrightarrow> m' c = m c)"
proof -
  have d: "m R = r" "m r = R + 4" "m (r + 4) = R" "m (R + 8) = r" "m (R + 4) = 0" "R \<noteq> 0" "R + 4 \<noteq> 0" "r \<noteq> 0"
    "distinct [R, R + 4, R + 8, r, r + 4]"
    using assms by (auto simp: dll_def foot_def add.commute)
  have "enqueue m R r = Some (add_tail m R r)"
    unfolding enqueue_def by (subst enqueue_loop.simps, simp add: get_head_def get_next_def d(1-8), subst enqueue_loop.simps, simp)
  moreover have "add_tail m R r r = r" "add_tail m R r (r + 4) = r" "add_tail m R r R = r"
    "\<forall>c. c \<notin> {r, r + 4, R + 8} \<longrightarrow> add_tail m R r c = m c"
    using d by (auto simp: add_tail_def Let_def)
  ultimately show ?thesis by blast
qed

text \<open>Entering a task of at most the priority of that node never comes to an end.\<close>

lemma enqueue_loop_diverges:
  assumes "m r = r" "r \<noteq> 0" "node_pri m t \<le> node_pri m r"
  shows "enqueue_loop m R t r = None"
proof -
  have False if "enqueue_loop m' R t' r' = Some y" "m' r' = r'" "r' \<noteq> 0" "node_pri m' t' \<le> node_pri m' r'" for m' t' r' y
    using that
  proof (induction rule: enqueue_loop.raw_induct [rotated, consumes 1, case_names step])
    case (step loop m' R' t' r' y)
    have "loop m' R' t' r' = Some y" using step by (simp add: get_next_def)
    from step.IH [OF this] step.prems show ?case by blast
  qed
  then show ?thesis using assms by (metis not_Some_eq)
qed

lemma enqueue_self_loop:
  assumes "m R = r" "m r = r" "r \<noteq> 0" "R \<noteq> 0" "node_pri m t \<le> node_pri m r"
  shows "enqueue m R t = None"
  using enqueue_loop_diverges [of m r t R] assms by (simp add: enqueue_def get_head_def)

text \<open>\<open>switch_tasks\<close> takes the node out of the list, which changes nothing.\<close>

lemma switch_self_loop:
  assumes lay: "layout_ok T LS K" and R: "tasks_ready W \<in> LS" and r: "running_task s \<in> T" and regs: "on_stack K regs"
    and loop: "mem s (tasks_ready W) = running_task s" "mem s (running_task s) = running_task s"
      "mem s (running_task s + 4) = running_task s"
  shows "\<exists>m'. switch_tasks W regs s = ret (s\<lparr>mem := m'\<rparr>) \<and> m' (tasks_ready W) = running_task s \<and>
    m' (running_task s) = running_task s \<and> m' (task_flags (running_task s)) AND TS_READY = mem s (task_flags (running_task s)) AND TS_READY"
proof -
  let ?r = "running_task s" and ?R = "tasks_ready W"
  define m1 where "m1 = save_task regs ?r (mem s)"
  define m2 where "m2 = memcpy (m1(task_flags ?r := m1 (task_flags ?r) OR TS_RUN)) regs (task_state ?r) sizeof_registers"
  have K: "span regs 64 \<subseteq> K" "aligned regs" using regs by (simp_all add: on_stack_def)
  note st = layout_state [OF lay r]
  have la: "?R \<in> link_area T LS" "?r \<in> link_area T LS" "?r + 4 \<in> link_area T LS"
  proof -
    have "?R \<in> span ?R 12" "?r \<in> span ?r 8" "?r + 4 \<in> span ?r 8" by simp_all
    then show "?R \<in> link_area T LS" "?r \<in> link_area T LS" "?r + 4 \<in> link_area T LS" using R r unfolding link_area_def by blast+
  qed
  have out: "c \<notin> span (task_state ?r) 64" "c \<noteq> task_flags ?r" "c \<notin> span regs 64" if "c \<in> link_area T LS" for c
    using that st(1) layout_flags(1) [OF lay r r] link_area_stack [OF lay] K(1) by blast+
  note sv = save_task_cells [where m = "mem s", OF lay r regs, folded m1_def]
  have m1: "m1 c = mem s c" if "c \<in> link_area T LS" for c using sv(3) out [OF that] by blast
  have "span regs 64 \<inter> span (task_state ?r) 64 = {}" using st(2) K(1) by blast
  note cp = frame_at_memcpy(2) [OF K(2) st(4) this]
  have m2: "m2 c = mem s c" if "c \<in> link_area T LS" for c
    unfolding m2_def cp [OF out(3) [OF that]] using out(2) [OF that] m1 [OF that] by simp
  have "remove_node m1 ?r = m1" using m1 la loop by (simp add: remove_node_def Let_def fun_upd_idem)
  then have ld: "load_task regs ?r m1 = m2" by (simp add: load_task_def m2_def Let_def)
  have "?r \<noteq> 0" using layout_task(2) [OF lay r] .
  moreover have "?R \<noteq> 0" using layout_okD(7) [OF lay R] by (metis span_self zero_less_numeral)
  ultimately have "idle_loop W (s\<lparr>mem := m1\<rparr>) = ret (?r, s\<lparr>mem := m1\<rparr>)"
    using m1 la loop by (subst idle_loop.simps) (simp add: get_head_def)
  then have "switch_tasks W regs s = ret (s\<lparr>mem := m2\<rparr>)" by (simp add: switch_tasks_halves ld flip: m1_def)
  moreover have "m2 (task_flags ?r) AND TS_READY = mem s (task_flags ?r) AND TS_READY"
  proof -
    have "task_flags ?r \<notin> span regs 64" using layout_flags(2) [OF lay r r] K(1) by blast
    then have "m2 (task_flags ?r) = m1 (task_flags ?r) OR TS_RUN" unfolding m2_def using cp by simp
    then show ?thesis using sv(2) by (simp add: run_bit)
  qed
  ultimately show ?thesis using m2 la loop by (intro exI [of _ m2]) simp
qed

section \<open>The race\<close>

lemma wait_enter_forbid:
  assumes "wait_enter sigs L s = ret s1" and "counters_ok s"
  shows "forbid_counter s1 = forbid_counter s"
proof -
  have "forbid_counter (permit s') = forbid_counter s" if "forbid_counter s' = forbid_counter s + 1" for s' :: "'a kernel_state_scheme"
  proof -
    have "forbid_counter (permit s') = forbid_counter (permit (forbid s))" using that by (simp add: permit_def forbid_def)
    also have "\<dots> = forbid_counter s" using permit_forbid [of s] assms(2) by (simp add: counters_ok_def)
    finally show ?thesis .
  qed
  then show ?thesis using assms(1)
    by (auto simp: wait_enter_def enter_list_def upd_def Let_def bnd_eq_ret forbid_def split: Option.bind_splits)
qed

text \<open>The clock in the window: the task is ready and alone, and is entered a second time.\<close>

lemma clock_in_window:
  assumes park: "parked W T LS K q s" and wait: "waiting LS (tasks_ready W) q (running_task s)" and ready: "clock_ready W K s"
    and q: "q (tasks_ready W) = []" "q (tasks_wait W) = us @ running_task s # vs"
    and nt: "next_timer (mem s) us (running_task s) vs" "ticks_left (mem s) (running_task s) = 1"
  shows "\<exists>s'. interrupt W (clock_isr W) 32 s = ret s' \<and> running_task s' = running_task s \<and> user_mode W K s' \<and>
    mem s' (tasks_ready W) = running_task s \<and> mem s' (running_task s) = running_task s \<and>
    mem s' (task_flags (running_task s)) AND TS_READY \<noteq> 0"
proof -
  let ?r = "running_task s" and ?R = "tasks_ready W" and ?f = "frame W s" and ?q = "q(tasks_wait W := us @ vs, tasks_ready W := [running_task s])"
  have inv: "tasks_inv W T LS K q s" using park by (simp add: parked_def)
  note iv = tasks_invD [OF inv]
  have u: "user_mode W K s" "counters_ok s" "wait_lock s = 0" "frames_apart W" "interrupt_handlers s ! 32 = Some Timer_callback"
    using ready by (simp_all add: clock_ready_def)
  have regs: "on_stack K ?f" by (rule user_modeD(2) [OF u(1)])
  have dist: "distinct (us @ ?r # vs)" using dll_facts(4) [OF lists_okD(1) [OF iv(5,3)]] q(2) by simp
  note tn = ticked_next [where W = W and q = q, OF nt(1) q(2) dist]
  have tk: "ticked W q (mem s) = ?q" using tn(1) [OF nt(2)] q(1) by simp
  have wk: "wakes W q (mem s) ?r" unfolding wakes_def tn(3) [OF nt(2)] by simp
  obtain s1 where s1: "timer_callback W (irq_state W 32 s) = ret s1" "tasks_inv W T LS K ?q s1" "running_task s1 = ?r"
    "k_reenter s1 = 0" "interrupt_handlers s1 = interrupt_handlers s" "sched_state s1 AND NEED_SCHEDULE \<noteq> 0" "forbid_counter s1 = 0"
    using clock_inv [OF inv u(1-4), unfolded tk if_P [OF wk]] by blast
  note iv1 = tasks_invD [OF s1(2)]
  have "?r \<in> set (?q ?R)" by simp
  then have "\<not> waiting LS ?R ?q ?r" unfolding waiting_def using lists_disjoint [OF iv1(5) _ iv1(2)] by blast
  then have rd: "mem s1 (task_flags ?r) AND TS_READY \<noteq> 0" using iv1(7) [OF iv(6)] by (simp add: task_ok_def)
  have "dll (mem s1) ?R [?r]" using lists_okD(1) [OF iv1(5,2)] by simp
  from enqueue_twice [OF this] obtain m2 where m2: "enqueue (mem s1) ?R ?r = Some m2" "m2 ?r = ?r" "m2 (?r + 4) = ?r" "m2 ?R = ?r"
    "\<forall>c. c \<notin> {?r, ?r + 4, ?R + 8} \<longrightarrow> m2 c = mem s1 c" by blast
  have "task_flags ?r \<notin> {?r, ?r + 4, ?R + 8}"
  proof -
    have "?r \<in> span ?r 8" "?r + 4 \<in> span ?r 8" "?R + 8 \<in> span ?R 12" by simp_all
    then have "{?r, ?r + 4, ?R + 8} \<subseteq> link_area T LS" using iv(2,6) unfolding link_area_def by blast
    then show ?thesis using layout_flags(1) [OF iv(1,6,6)] by blast
  qed
  then have rd2: "m2 (task_flags ?r) = mem s1 (task_flags ?r)" using m2(5) by blast
  let ?s2 = "disable s1\<lparr>sched_state := sched_state s1 AND NOT NEED_SCHEDULE, mem := m2\<rparr>"
  have "running_task ?s2 \<in> T" using s1(3) iv(6) by simp
  from switch_self_loop [OF iv(1,2) this regs] m2(2-4) s1(3) obtain m3 where
    m3: "switch_tasks W ?f ?s2 = ret (?s2\<lparr>mem := m3\<rparr>)" "m3 ?R = ?r" "m3 ?r = ?r" "m3 (task_flags ?r) AND TS_READY \<noteq> 0"
    using rd rd2 by auto
  have "reschedule W ?f (disable s1) = ret (?s2\<lparr>mem := m3\<rparr>)"
    using s1(3,4,6,7) rd m2(1) m3(1) by (simp add: reschedule_def schedule_def enter_list_def NEED_TASK_SWITCH_def Let_def)
  then have "interrupt W (clock_isr W) 32 s = ret (end_of_interrupt (?s2\<lparr>mem := m3\<rparr>)\<lparr>iflag := iflag s\<rparr>)"
    using interrupt_clock [OF user_modeD(4) [OF u(1)] u(5)] s1(1) by simp
  then show ?thesis using m3 s1(3,4,5) u(1)
    by (intro exI [of _ "end_of_interrupt (?s2\<lparr>mem := m3\<rparr>)\<lparr>iflag := iflag s\<rparr>"]) (simp add: user_mode_def)
qed

lemma yield_hangs:
  assumes user: "user_mode W K s" and lay: "layout_ok T LS K" and R: "tasks_ready W \<in> LS" and r: "running_task s \<in> T"
    and loop: "mem s (tasks_ready W) = running_task s" "mem s (running_task s) = running_task s"
    and ready: "mem s (task_flags (running_task s)) AND TS_READY \<noteq> 0"
  shows "trap W SYSCALL_YIELD 0 s = None"
proof -
  let ?r = "running_task s" and ?R = "tasks_ready W" and ?m = "mem (yield_state W s)"
  note K = yield_state_stack [OF user]
  have in_link: "?R \<in> link_area T LS" "?r \<in> link_area T LS"
  proof -
    have "?R \<in> span ?R 12" "?r \<in> span ?r 8" by simp_all
    then show "?R \<in> link_area T LS" "?r \<in> link_area T LS" using R r unfolding link_area_def by blast+
  qed
  then have "?R \<notin> K" "?r \<notin> K" using link_area_stack [OF lay] by blast+
  then have m: "?m ?R = ?r" "?m ?r = ?r" "?m (task_flags ?r) = mem s (task_flags ?r)" using K loop stack_write(1) [OF lay K r] by simp_all
  have "?R \<noteq> 0" using layout_okD(7) [OF lay R] by (metis span_self zero_less_numeral)
  from enqueue_self_loop [OF m(1,2) layout_task(2) [OF lay r] this] have "enqueue ?m ?R ?r = None" by simp
  then have "reschedule W (frame W s) (yield_state W s) = None"
    using ready m(3) by (simp add: reschedule_def schedule_def enter_list_def Let_def)
  then show ?thesis using trap_yield [OF user] by (simp add: Let_def flip: yield_state_def)
qed

text \<open>C37. The race in \<open>wait\<close>. A task that delays itself by one tick while no other task is ready, and is caught by the clock
  after \<open>wait\<close> has entered it in the waiting list and before its yield, is entered twice in the ready list. Its node is then
  linked to itself, and the yield of \<open>wait\<close> never comes back: \<open>enqueue\<close> goes round in a loop with interrupts disabled.\<close>

theorem wait_clock_race:
  assumes act: "active W T LS K q s" and ready: "clock_ready W K s" and alone: "q (tasks_ready W) = []"
    and later: "\<forall>x \<in> set (q (tasks_wait W)). delayed (mem s) x \<longrightarrow> 1 < ticks_left (mem s) x"
  shows "\<exists>s1 s2. wait_enter TB_DELAY (tasks_wait W) (upd (task_delay (running_task s)) 1 s) = ret s1 \<and>
    interrupt W (clock_isr W) 32 s1 = ret s2 \<and> running_task s2 = running_task s \<and> trap W SYSCALL_YIELD 0 s2 = None"
proof -
  let ?r = "running_task s" and ?L = "tasks_wait W" and ?s = "upd (task_delay (running_task s)) 1 s"
  note iv = tasks_invD [OF activeD(1) [OF act]]
  let ?q1 = "q(?L := ins_pri (node_pri (mem ?s)) ?r (q ?L))"
  obtain s1 where s1: "wait_enter TB_DELAY ?L ?s = ret s1" "same_kernel s s1" "mem s1 (sigs_waiting ?r) = TB_DELAY"
    "mem s1 (task_delay ?r) = 1" "parked W T LS K ?q1 s1"
    "\<forall>x \<in> T. x \<noteq> ?r \<longrightarrow> mem s1 (sigs_waiting x) = mem s (sigs_waiting x) \<and> mem s1 (task_delay x) = mem s (task_delay x)"
    using delay_enters [where ticks = 1, OF act] by blast
  have r1: "running_task s1 = ?r" using s1(2) by (simp add: same_kernel_def)
  obtain us vs where uv: "q ?L = us @ vs" "ins_pri (node_pri (mem ?s)) ?r (q ?L) = us @ ?r # vs" using ins_pri_split by metis
  have left: "ticks_left (mem s1) ?r = 1" using s1(4) by (simp add: ticks_left_def)
  have "ticks_left (mem s1) ?r < ticks_left (mem s1) x" if "x \<in> set us \<union> set vs" "delayed (mem s1) x" for x
  proof -
    have x: "x \<in> set (q ?L)" using that(1) uv(1) by auto
    then have "x \<in> T" "x \<noteq> ?r" using lists_okD(3) [OF iv(5,3)] activeD(5) [OF act iv(3)] by auto
    then have "delayed (mem s1) x = delayed (mem s) x" "ticks_left (mem s1) x = ticks_left (mem s) x"
      using s1(6) by (simp_all add: delayed_def ticks_left_def)
    then show ?thesis using later x that(2) left by simp
  qed
  then have nt: "next_timer (mem s1) us ?r vs" using s1(3) by (auto simp: next_timer_def delayed_def TB_DELAY_def less_imp_le)
  have w: "waiting LS (tasks_ready W) ?q1 (running_task s1)" using iv(3,4) by (auto simp: waiting_def r1)
  have "counters_ok ?s" using ready by (simp add: clock_ready_def counters_ok_def upd_def)
  then have "forbid_counter s1 = forbid_counter s" using wait_enter_forbid [OF s1(1)] by (simp add: upd_def)
  then have cr: "clock_ready W K s1" using ready trap_ready_same [OF s1(2)] by (simp add: clock_ready_trap counters_ok_def)
  have q1: "?q1 (tasks_ready W) = []" "?q1 ?L = us @ running_task s1 # vs" using alone iv(4) uv(2) r1 by auto
  obtain s2 where s2: "interrupt W (clock_isr W) 32 s1 = ret s2" "running_task s2 = ?r" "user_mode W K s2"
    "mem s2 (tasks_ready W) = ?r" "mem s2 ?r = ?r" "mem s2 (task_flags ?r) AND TS_READY \<noteq> 0"
    using clock_in_window [OF s1(5) w cr q1] nt left unfolding r1 by blast
  have "trap W SYSCALL_YIELD 0 s2 = None" using yield_hangs [OF s2(3) iv(1,2)] s2 iv(6) by simp
  then show ?thesis using s1(1) s2(1,2) by blast
qed

theorem wait_clock_race_witness:
  "\<exists>s1 s2. wait_enter TB_DELAY 0x20100 (upd (task_delay 0x10000) 1 (demo (wait_mem(0x11080 := 9)))) = ret s1 \<and>
    interrupt demo_sys (clock_isr demo_sys) 32 s1 = ret s2 \<and> trap demo_sys SYSCALL_YIELD 0 s2 = None"
proof -
  let ?m = "wait_mem(0x11080 := 9)"
  have e: "wait_q (tasks_ready demo_sys) = []" by (simp add: wait_q_def)
  have "\<forall>x \<in> set (wait_q (tasks_wait demo_sys)). delayed (mem (demo ?m)) x \<longrightarrow> 1 < ticks_left (mem (demo ?m)) x"
    by (simp add: wait_q_def ticks_left_def task_delay_def wait_mem_def)
  from wait_clock_race [OF demo_later demo_clock e this] show ?thesis by (simp only: demo_simps demo_sys_simps) blast
qed

end
