(* ===== verification/Queue.thy ===== *)
theory Queue
  imports Race
begin

text \<open>
  queue.c: message queues between tasks. A queue is 40 bytes of heap memory: the list of messages, the counts of slots,
  the size of a message, the task that owns the queue and the list of tasks that wait to send; a message is a list node
  with a pointer to a copy of the data. \<open>queue_send\<close> adds at the head, \<open>queue_recv\<close> takes from the tail.

  A NULL is the address 0. The routines return in the middle, without \<open>permit\<close>, in several places.
\<close>

section \<open>State\<close>

definition QM_BLOCKING :: u32 where "QM_BLOCKING = 1"
definition QM_NONBLOCKING :: u32 where "QM_NONBLOCKING = 2"

text \<open>The fields of a queue and of a message.\<close>

definition free_slots :: "u32 \<Rightarrow> u32" where "free_slots queue = queue + 12"
definition max_slots :: "u32 \<Rightarrow> u32" where "max_slots queue = queue + 16"
definition elem_sz :: "u32 \<Rightarrow> u32" where "elem_sz queue = queue + 20"
definition owner :: "u32 \<Rightarrow> u32" where "owner queue = queue + 24"
definition waiters :: "u32 \<Rightarrow> u32" where "waiters queue = queue + 28"
definition sizeof_queue :: u32 where "sizeof_queue = 40"
definition data_ptr :: "u32 \<Rightarrow> u32" where "data_ptr msg = msg + 8"
definition sizeof_queue_msg :: u32 where "sizeof_queue_msg = 12"

lemmas queue_defs = free_slots_def max_slots_def elem_sz_def owner_def waiters_def data_ptr_def

section \<open>Operations\<close>

definition create_queue ::
  "'a kernel_state_scheme sys \<Rightarrow> u32 \<Rightarrow> u32 \<Rightarrow> 'a kernel_state_scheme \<Rightarrow> (u32 \<times> 'a kernel_state_scheme) outcome" where
  "create_queue W slots sz s =
    (let s = forbid s
     in bnd (kmalloc W sizeof_queue s) (\<lambda>(new_queue, s).
        if new_queue = 0 then ret (0, s)
        else (let s = s\<lparr>mem := memset (mem s) new_queue 0 sizeof_queue\<rparr>;
                  s = s\<lparr>mem := new_list (mem s) new_queue\<rparr>;
                  s = s\<lparr>mem := new_list (mem s) (waiters new_queue)\<rparr>;
                  s = upd (free_slots new_queue) slots s;
                  s = upd (max_slots new_queue) slots s;
                  s = upd (owner new_queue) (running_task s) s;
                  s = upd (elem_sz new_queue) sz s
              in ret (new_queue, permit s))))"

definition destroy_queue :: "'a kernel_state_scheme sys \<Rightarrow> u32 \<Rightarrow> 'a kernel_state_scheme \<Rightarrow> 'a kernel_state_scheme outcome" where
  "destroy_queue W queue s =
    (let s = forbid s;
         s = s\<lparr>mem := memset (mem s) queue 0 sizeof_queue\<rparr>
     in bnd (kfree W queue s) (\<lambda>s. ret (permit s)))"

text \<open>The message that both branches of \<open>queue_send\<close> make, or NULL when they return early.\<close>

definition make_msg ::
  "'a kernel_state_scheme sys \<Rightarrow> u32 \<Rightarrow> u32 \<Rightarrow> 'a kernel_state_scheme \<Rightarrow> (u32 \<times> 'a kernel_state_scheme) outcome" where
  "make_msg W queue msg s =
    bnd (kmalloc W sizeof_queue_msg s) (\<lambda>(new_msg, s).
      let s = s\<lparr>mem := memset (mem s) new_msg 0 sizeof_queue_msg\<rparr>
      in if new_msg = 0 then ret (0, s)
         else if msg \<noteq> 0
         then bnd (kmalloc W (mem s (elem_sz queue)) s) (\<lambda>(p, s).
                let s = upd (data_ptr new_msg) p s
                in if mem s (data_ptr new_msg) = 0 then ret (0, s)
                   else ret (new_msg, s\<lparr>mem := memcpy (mem s) (mem s (data_ptr new_msg)) msg (mem s (elem_sz queue))\<rparr>))
         else ret (new_msg, upd (data_ptr new_msg) 0 s))"

text \<open>The loops that wait for a free slot or for a message. Each round ends in a new forbidden section.\<close>

partial_function (option) wait_for_slot ::
  "'a kernel_state_scheme sys \<Rightarrow> u32 \<Rightarrow> 'a kernel_state_scheme \<Rightarrow> 'a kernel_state_scheme outcome" where
  "wait_for_slot W queue s =
    bnd (wait W TB_QUEUE (waiters queue) s) (\<lambda>(r, s).
      let s = forbid s in if mem s (free_slots queue) = 0 then wait_for_slot W queue s else ret s)"

partial_function (option) wait_for_msg ::
  "'a kernel_state_scheme sys \<Rightarrow> u32 \<Rightarrow> 'a kernel_state_scheme \<Rightarrow> 'a kernel_state_scheme outcome" where
  "wait_for_msg W queue s =
    bnd (wait W TB_QUEUE (tasks_wait W) s) (\<lambda>(r, s).
      let s = forbid s
      in if mem s (free_slots queue) = mem s (max_slots queue) then wait_for_msg W queue s else ret s)"

definition queue_send ::
  "'a kernel_state_scheme sys \<Rightarrow> u32 \<Rightarrow> u32 \<Rightarrow> u32 \<Rightarrow> 'a kernel_state_scheme \<Rightarrow> (u32 \<times> 'a kernel_state_scheme) outcome" where
  "queue_send W queue msg mode s =
    (let s = forbid s
     in if mem s (free_slots queue) > 0
        then bnd (make_msg W queue msg s) (\<lambda>(new_msg, s).
               if new_msg = 0 then ret (0, s)
               else (let s = s\<lparr>mem := add_head (mem s) queue new_msg\<rparr>;
                         slots = mem s (free_slots queue);
                         s = upd (free_slots queue) (slots - 1) s
                     in bnd (if slots = mem s (max_slots queue)
                             then bnd (signal W (mem s (owner queue)) TB_QUEUE s) (\<lambda>(r, s). ret s) else ret s)
                          (\<lambda>s. ret (new_msg, permit s))))
        else if mode = QM_BLOCKING
        then bnd (wait_for_slot W queue s) (\<lambda>s.
             bnd (make_msg W queue msg s) (\<lambda>(new_msg, s).
               if new_msg = 0 then ret (0, s)
               else (let s = s\<lparr>mem := add_head (mem s) queue new_msg\<rparr>;
                         s = upd (free_slots queue) (mem s (free_slots queue) - 1) s
                     in ret (new_msg, permit s))))
        else ret (0, s))"

text \<open>Both branches of \<open>queue_recv\<close> take the oldest message and free it.\<close>

definition take_msg :: "'a kernel_state_scheme sys \<Rightarrow> u32 \<Rightarrow> u32 \<Rightarrow> 'a kernel_state_scheme \<Rightarrow> 'a kernel_state_scheme outcome" where
  "take_msg W queue ptr s =
    (let (msg, m) = remove_tail (mem s) queue; s = s\<lparr>mem := m\<rparr>
     in bnd (if mem s (data_ptr msg) \<noteq> 0
             then (let s = s\<lparr>mem := memcpy (mem s) ptr (mem s (data_ptr msg)) (mem s (elem_sz queue))\<rparr>
                   in kfree W (mem s (data_ptr msg)) s)
             else ret s)
          (\<lambda>s. kfree W msg s))"

partial_function (option) wake_loop ::
  "'a kernel_state_scheme sys \<Rightarrow> u32 \<Rightarrow> 'a kernel_state_scheme \<Rightarrow> 'a kernel_state_scheme outcome" where
  "wake_loop W aux s =
    (if aux \<noteq> 0 then bnd (signal W aux TB_QUEUE s) (\<lambda>(r, s). wake_loop W (get_next (mem s) aux) s) else ret s)"

definition queue_recv ::
  "'a kernel_state_scheme sys \<Rightarrow> u32 \<Rightarrow> u32 \<Rightarrow> u32 \<Rightarrow> 'a kernel_state_scheme \<Rightarrow> (u32 \<times> 'a kernel_state_scheme) outcome" where
  "queue_recv W queue ptr mode s =
    (let s = forbid s
     in if mem s (free_slots queue) < mem s (max_slots queue)
        then bnd (take_msg W queue ptr s) (\<lambda>s.
               let slots = mem s (free_slots queue); s = upd (free_slots queue) (slots + 1) s
               in bnd (if slots = 0 then wake_loop W (get_head (mem s) (waiters queue)) s else ret s)
                    (\<lambda>s. ret (ptr, permit s)))
        else if mode = QM_BLOCKING
        then bnd (wait_for_msg W queue s) (\<lambda>s.
             bnd (take_msg W queue ptr s) (\<lambda>s.
               ret (ptr, permit (upd (free_slots queue) (mem s (free_slots queue) + 1) s))))
        else ret (0, s))"

end
