(* ===== verification/Device.thy ===== *)
theory Device
  imports Queue
begin

text \<open>
  device.c: devices by name, and requests to them. A device is a list node with the address of its request queue; a
  request carries the queue for the answer.
\<close>

definition iorq_queue :: "u32 \<Rightarrow> u32" where "iorq_queue dev = dev + 48"
definition io_response :: "u32 \<Rightarrow> u32" where "io_response req = req"
definition io_desc :: "u32 \<Rightarrow> u32" where "io_desc req = req + 4"
definition io_sz :: "u32 \<Rightarrow> u32" where "io_sz req = req + 8"
definition io_dptr :: "u32 \<Rightarrow> u32" where "io_dptr req = req + 12"
definition sizeof_iorq :: u32 where "sizeof_iorq = 16"
definition sizeof_device :: u32 where "sizeof_device = 52"

definition DC_READ :: u32 where "DC_READ = 3"

definition register_device_node :: "u32 \<Rightarrow> u32 \<Rightarrow> 'a kernel_state_scheme \<Rightarrow> 'a kernel_state_scheme" where
  "register_device_node device_list dev s =
    (let s = forbid s in permit (s\<lparr>mem := add_head (mem s) device_list dev\<rparr>))"

text \<open>The search of \<open>get_device\<close>; \<open>strcmp\<close> may not return.\<close>

partial_function (option) find_device :: "cells \<Rightarrow> u32 \<Rightarrow> u32 \<Rightarrow> u32 option" where
  "find_device m dev_name aux =
    (if aux \<noteq> 0
     then Option.bind (strcmp m dev_name (task_name aux)) (\<lambda>r.
            if r = 0 then Some aux else find_device m dev_name (get_next m aux))
     else Some 0)"

definition get_device :: "u32 \<Rightarrow> u32 \<Rightarrow> 'a kernel_state_scheme \<Rightarrow> (u32 \<times> 'a kernel_state_scheme) outcome" where
  "get_device device_list dev_name s =
    (let s = forbid s
     in Option.bind (find_device (mem s) dev_name (get_head (mem s) device_list)) (\<lambda>aux. ret (aux, permit s)))"

definition do_io ::
  "'a kernel_state_scheme sys \<Rightarrow> u32 \<Rightarrow> u32 \<Rightarrow> 'a kernel_state_scheme \<Rightarrow> (u32 \<times> 'a kernel_state_scheme) outcome" where
  "do_io W dev req s =
    bnd (create_queue W 1 sizeof_iorq s) (\<lambda>(recv_queue, s).
      if recv_queue = 0 then ret (0, s)
      else (let s = upd (io_response req) recv_queue s
            in bnd (queue_send W (mem s (iorq_queue dev)) req QM_BLOCKING s) (\<lambda>(p, s).
               bnd (queue_recv W recv_queue 0 QM_BLOCKING s) (\<lambda>(p, s).
               bnd (destroy_queue W recv_queue s) (\<lambda>s. ret (req, s))))))"

definition send_io ::
  "'a kernel_state_scheme sys \<Rightarrow> u32 \<Rightarrow> u32 \<Rightarrow> 'a kernel_state_scheme \<Rightarrow> (u32 \<times> 'a kernel_state_scheme) outcome" where
  "send_io W dev req s =
    (if mem s (io_response req) = 0 then ret (0, s) else queue_send W (mem s (iorq_queue dev)) req QM_NONBLOCKING s)"

end
