(* ===== verification/Console.thy ===== *)
theory Console
  imports Device
begin

text \<open>
  console.c: the keyboard interrupt, and the task that serves the console. The interrupt sends scancodes to the queue
  \<open>keybd_queue\<close>; for a read request the task takes them, edits a line in the buffer of the request and shows it.

  The record \<open>console_mem\<close> has the addresses of the variables: the device, the static scancode of the interrupt handler,
  and the locals \<open>scancode\<close> and \<open>iorq\<close> of the task.
\<close>

section \<open>State\<close>

record console_state = kernel_state +
  keybd_queue :: u32

record console_mem =
  keybd_device :: u32
  isr_scancode :: u32
  key_var :: u32
  iorq_var :: u32

text \<open>US keyboard layout. The rest of the 128 entries are 0.\<close>

definition kbdus :: "u8 list" where
  "kbdus =
    [0, 27, 0x31, 0x32, 0x33, 0x34, 0x35, 0x36, 0x37, 0x38,
     0x39, 0x30, 0x2D, 0x3D, 8,
     9,
     0x71, 0x77, 0x65, 0x72,
     0x74, 0x79, 0x75, 0x69, 0x6F, 0x70, 0x5B, 0x5D, 10,
     0,
     0x61, 0x73, 0x64, 0x66, 0x67, 0x68, 0x6A, 0x6B, 0x6C, 0x3B,
     0x27, 0x60, 0,
     0x5C, 0x7A, 0x78, 0x63, 0x76, 0x62, 0x6E,
     0x6D, 0x2C, 0x2E, 0x2F, 0,
     0x2A,
     0,
     0x20,
     0,
     0,
     0, 0, 0, 0, 0, 0, 0, 0,
     0,
     0, 0, 0, 0, 0,
     0x2D,
     0, 0, 0,
     0x2B,
     0, 0, 0, 0, 0,
     0, 0, 0,
     0, 0, 0] @ replicate 38 0"

definition isalpha :: "u32 \<Rightarrow> bool" where "isalpha c \<longleftrightarrow> (c OR 32) - 97 < 26"
definition isprintable :: "int \<Rightarrow> bool" where "isprintable c \<longleftrightarrow> c \<ge> 32 \<and> c \<le> 126"

section \<open>The interrupt\<close>

definition keypress_isr ::
  "u8 env \<Rightarrow> console_mem \<Rightarrow> 'a console_state_scheme sys \<Rightarrow> 'a console_state_scheme \<Rightarrow> 'a console_state_scheme outcome" where
  "keypress_isr env C W s =
    (let (v, s) = inb env 0x60 s;
         scancode = ucast v;
         s = upd (isr_scancode C) scancode s
     in if scancode AND 0x80 = 0
        then bnd (queue_send W (keybd_queue s) (isr_scancode C) QM_NONBLOCKING (disable s)) (\<lambda>(p, s). ret (enable s))
        else ret s)"

text \<open>The handlers of the hardware interrupts.\<close>

definition hardware_call ::
  "u8 env \<Rightarrow> console_mem \<Rightarrow> 'a console_state_scheme sys \<Rightarrow> handler \<Rightarrow> u32 \<Rightarrow> 'a console_state_scheme \<Rightarrow>
   'a console_state_scheme outcome" where
  "hardware_call env C W h regs s =
    (case h of Timer_callback \<Rightarrow> timer_callback W s | Keypress_isr \<Rightarrow> keypress_isr env C W s | _ \<Rightarrow> fail Undefined)"

section \<open>The task\<close>

text \<open>One key: backspace, the keys that are passed over, and a printable character. \<open>i\<close> is a signed int.\<close>

definition edit_key :: "u32 \<Rightarrow> u32 \<Rightarrow> u32 \<Rightarrow> u8 \<Rightarrow> 'a monitor_state_scheme \<Rightarrow> u32 \<times> 'a monitor_state_scheme" where
  "edit_key aux sz i c s =
    (if c = 8 \<and> sint i > 0 then (i - 1, monitor_put 8 (s\<lparr>mem := store8 (mem s) (aux + i) 0\<rparr>))
     else if c = 0 \<or> c = 9 \<or> i = sz - 1 then (i, s)
     else if isprintable (sint c) then (i + 1, monitor_put c (s\<lparr>mem := store8 (mem s) (aux + i) c\<rparr>))
     else (i, s))"

definition key_char :: "u32 \<Rightarrow> u8 outcome" where
  "key_char scancode = (if unat scancode < length kbdus then ret (kbdus ! unat scancode) else fail Undefined)"

partial_function (option) read_keys ::
  "console_mem \<Rightarrow> 'a console_state_scheme sys \<Rightarrow> u32 \<Rightarrow> u32 \<Rightarrow> 'a console_state_scheme \<Rightarrow> (u32 \<times> 'a console_state_scheme) outcome" where
  "read_keys C W aux i s =
    bnd (queue_recv W (keybd_queue s) (key_var C) QM_BLOCKING s) (\<lambda>(p, s).
    bnd (key_char (mem s (key_var C))) (\<lambda>c.
      if c = 10 then ret (i, s)
      else (let (i, s) = edit_key aux (mem s (io_sz (iorq_var C))) i c s in read_keys C W aux i s)))"

definition serve_request ::
  "console_mem \<Rightarrow> 'a console_state_scheme sys \<Rightarrow> 'a console_state_scheme \<Rightarrow> 'a console_state_scheme outcome" where
  "serve_request C W s =
    (let iorq = iorq_var C
     in bnd (queue_recv W (mem s (iorq_queue (keybd_device C))) iorq QM_BLOCKING s) (\<lambda>(p, s).
        if mem s (io_desc iorq) = DC_READ
        then (let aux = mem s (io_dptr iorq);
                  s = s\<lparr>mem := memset (mem s) aux 0 (mem s (io_sz iorq))\<rparr>
              in bnd (read_keys C W aux 0 s) (\<lambda>(i, s).
                   let s = monitor_put 10 s;
                       s = s\<lparr>mem := store8 (mem s) (aux + i) 0\<rparr>
                   in bnd (queue_send W (mem s (io_response iorq)) 0 QM_NONBLOCKING s) (\<lambda>(p, s). ret s)))
        else ret s))"

partial_function (option) console_loop ::
  "console_mem \<Rightarrow> 'a console_state_scheme sys \<Rightarrow> 'a console_state_scheme \<Rightarrow> unit outcome" where
  "console_loop C W s = bnd (serve_request C W s) (console_loop C W)"

definition console_device ::
  "console_mem \<Rightarrow> 'a console_state_scheme sys \<Rightarrow> 'a console_state_scheme \<Rightarrow> unit outcome" where
  "console_device C W s =
    (let dev = keybd_device C; s = s\<lparr>mem := memset (mem s) dev 0 sizeof_device\<rparr>
     in Option.bind (strcpy (mem s) (task_name dev) (lit W ''org.era.dev.console'')) (\<lambda>m.
        bnd (create_queue W 10 sizeof_iorq (s\<lparr>mem := m\<rparr>)) (\<lambda>(p, s).
        let s = upd (iorq_queue dev) p s
        in bnd (create_queue W 1 4 s) (\<lambda>(p, s).
           let s = register_interrupt_handler 33 Keypress_isr (s\<lparr>keybd_queue := p\<rparr>)
           in Option.bind (monitor_writexy 0 24 (lit W '' 1'') 7 0 s) (console_loop C W)))))"

end
