(* ===== verification/KernelMain.thy ===== *)
theory KernelMain
  imports Console
begin

text \<open>
  kernel_main.c: the start of the kernel and its first tasks. \<open>init\<close> builds the memory manager, the monitor, the heap,
  the clock and the lists, makes itself the running task \<open>kernel_task\<close>, creates the console and the timer task, enters
  user mode, and goes on as a prompt that never ends. The timer task shows the time and the free memory.

  The record \<open>main_mem\<close> has the addresses of the static variables and of the code of the two tasks.
\<close>

section \<open>State\<close>

definition TIMER_FREQUENCY :: u32 where "TIMER_FREQUENCY = 50"
definition KERNEL_STACK_SIZE_WORDS :: u32 where "KERNEL_STACK_SIZE_WORDS = 1024"

record main_mem =
  kernel_stack :: u32
  kernel_task :: u32
  device_list :: u32
  timebuf :: u32
  rambuf :: u32
  input_buf :: u32
  con_io :: u32
  console_code :: u32
  timer_code :: u32

section \<open>The timer task\<close>

text \<open>The variables \<open>hours\<close>, \<open>mins\<close>, \<open>seconds\<close> after a round.\<close>

definition tick_clock :: "u32 \<times> u32 \<times> u32 \<Rightarrow> u32 \<times> u32 \<times> u32" where
  "tick_clock t =
    (let (hours, mins, seconds) = t;
         seconds = seconds + 1;
         (mins, seconds) = (if seconds = 60 then (mins + 1, 0) else (mins, seconds))
     in if mins = 60 then (hours + 1, 0, seconds) else (hours, mins, seconds))"

definition timer_round ::
  "main_mem \<Rightarrow> 'a kernel_state_scheme sys \<Rightarrow> u32 \<times> u32 \<times> u32 \<Rightarrow> 'a kernel_state_scheme \<Rightarrow> 'a kernel_state_scheme outcome" where
  "timer_round M W t s =
    (let (hours, mins, seconds) = t
     in bnd (sprintf (timebuf M) (lit W ''%d:%02d:%02d'') [hours, mins, seconds] s) (\<lambda>s.
        bnd (sprintf (rambuf M) (lit W ''%8d kB RAM free'') [LowRamFreeCount s * 4 + HighRamFreeCount s * 4] s) (\<lambda>s.
        Option.bind (monitor_writexy 70 24 (timebuf M) 7 0 s) (\<lambda>s.
        Option.bind (monitor_writexy 5 24 (rambuf M) 7 0 s) (\<lambda>s.
        bnd (delay W 50 s) (\<lambda>(r, s). ret s))))))"

partial_function (option) timer_task_loop ::
  "main_mem \<Rightarrow> 'a kernel_state_scheme sys \<Rightarrow> u32 \<times> u32 \<times> u32 \<Rightarrow> 'a kernel_state_scheme \<Rightarrow> unit outcome" where
  "timer_task_loop M W t s = bnd (timer_round M W t s) (timer_task_loop M W (tick_clock t))"

definition timer_task :: "main_mem \<Rightarrow> 'a kernel_state_scheme sys \<Rightarrow> 'a kernel_state_scheme \<Rightarrow> unit outcome" where
  "timer_task M W s =
    Option.bind (monitor_writexy 0 24 (lit W (replicate 80 (CHR 0x20))) 7 0 s) (timer_task_loop M W (0, 0, 0))"

section \<open>The start\<close>

text \<open>The first part of \<open>init\<close>, before the first task is created. \<open>hp\<close> is the address of the list of free heap chunks,
  \<open>env\<close> what the ports of the monitor answer.\<close>

definition init_memory ::
  "symbols \<Rightarrow> u8 env \<Rightarrow> 'a kernel_state_scheme sys \<Rightarrow> u32 \<Rightarrow> 'a kernel_state_scheme \<Rightarrow> 'a kernel_state_scheme outcome" where
  "init_memory sy env W mboot_ptr s =
    bnd (mm_init sy mboot_ptr s) (\<lambda>s.
      let s = monitor_init env s;
          s = kheap_init (k_heap_start W) s;
          s = register_interrupt_handler 255 Syscall s
      in init_timer TIMER_FREQUENCY s)"

definition init_tasks :: "main_mem \<Rightarrow> 'a kernel_state_scheme sys \<Rightarrow> 'a kernel_state_scheme \<Rightarrow> 'a kernel_state_scheme outcome" where
  "init_tasks M W s =
    Option.bind (strcpy (mem s) (task_name (kernel_task M)) (lit W ''krypton.library'')) (\<lambda>m.
      let s = s\<lparr>mem := m\<rparr>;
          s = upd (task_pri (kernel_task M)) 0 s;
          s = s\<lparr>mem := new_list (mem s) (tasks_ready W)\<rparr>;
          s = s\<lparr>mem := new_list (mem s) (tasks_wait W)\<rparr>;
          s = s\<lparr>mem := new_list (mem s) (device_list M)\<rparr>;
          s = set_kernel_stack (kernel_stack M + KERNEL_STACK_SIZE_WORDS * 4) s;
          s = s\<lparr>running_task := kernel_task M\<rparr>;
          s = upd (task_flags (running_task s)) (mem s (task_flags (running_task s)) OR (TS_READY OR TS_RUN)) s
      in ret (s\<lparr>forbid_counter := 0, k_reenter := -1, wait_lock := 0\<rparr>))"

text \<open>\<open>enter_user_mode\<close> of idt_s.asm returns to the caller in ring 3 with interrupts enabled.\<close>

definition enter_user_mode :: "'a cpu_state_scheme \<Rightarrow> 'a cpu_state_scheme" where
  "enter_user_mode s = s\<lparr>iflag := True\<rparr>"

text \<open>The prompt.\<close>

definition prompt_round ::
  "console_mem \<Rightarrow> main_mem \<Rightarrow> 'a kernel_state_scheme sys \<Rightarrow> 'a kernel_state_scheme \<Rightarrow> 'a kernel_state_scheme outcome" where
  "prompt_round C M W s =
    bnd (kprintf (kbuf W) (lit W ''root@localhost:/ # '') [] s) (\<lambda>s.
    bnd (do_io W (keybd_device C) (con_io M) s) (\<lambda>(p, s).
    Option.bind (strlen (mem s) (input_buf M)) (\<lambda>n.
      if n \<noteq> 0 then kprintf (kbuf W) (lit W (''bash: %s: No such file or directory'' @ NL)) [input_buf M] s else ret s)))"

partial_function (option) prompt_loop ::
  "console_mem \<Rightarrow> main_mem \<Rightarrow> 'a kernel_state_scheme sys \<Rightarrow> 'a kernel_state_scheme \<Rightarrow> unit outcome" where
  "prompt_loop C M W s = bnd (prompt_round C M W s) (prompt_loop C M W)"

definition init ::
  "symbols \<Rightarrow> u8 env \<Rightarrow> console_mem \<Rightarrow> main_mem \<Rightarrow> 'a kernel_state_scheme sys \<Rightarrow> u32 \<Rightarrow> 'a kernel_state_scheme \<Rightarrow> unit outcome" where
  "init sy env C M W mboot_ptr s =
    bnd (init_memory sy env W mboot_ptr s) (\<lambda>s.
    bnd (init_tasks M W s) (\<lambda>s.
    bnd (create_task W (console_code M) (lit W ''org.era.dev.console'') 0 1000 s) (\<lambda>(t, s).
    bnd (create_task W (timer_code M) (lit W ''org.era.timetask'') 10 1000 s) (\<lambda>(t, s).
    bnd (delay W 25 (enter_user_mode s)) (\<lambda>(r, s).
      let s = s\<lparr>mem := memset (mem s) (con_io M) 0 sizeof_iorq\<rparr>;
          s = upd (io_desc (con_io M)) DC_READ s;
          s = upd (io_sz (con_io M)) 32 s;
          s = upd (io_dptr (con_io M)) (input_buf M) s
      in prompt_loop C M W s)))))"

end
