(* ===== verification/Boot.thy ===== *)
theory Boot
  imports KernelMain HeapProps
begin

text \<open>
  The start of the kernel. The first part of \<open>init\<close> leaves the heap, the pages, the interrupt handlers and the lists of
  tasks in the states from which the invariants of the heap and of the tasks hold.
\<close>

section \<open>The static variables\<close>

text \<open>The linker gives every variable its own place.\<close>

definition boot_map :: "'a kernel_state_scheme sys \<Rightarrow> main_mem \<Rightarrow> u32 set \<Rightarrow> bool" where
  "boot_map W M K \<longleftrightarrow>
    layout_ok {kernel_task M} {tasks_ready W, tasks_wait W} K \<and> tasks_ready W \<noteq> tasks_wait W \<and>
    (\<forall>s. on_stack K (frame W s)) \<and> frames_apart W \<and> hp_ok (k_heap_start W) \<and>
    span (device_list M) 12 \<inter> span (k_heap_start W) 12 = {} \<and>
    (\<forall>A \<in> {span (kernel_task M) 140, span (tasks_ready W) 12, span (tasks_wait W) 12}.
       A \<inter> span (device_list M) 12 = {} \<and> A \<inter> span (k_heap_start W) 12 = {})"

text \<open>The name of the kernel task is a string in memory, apart from the task and the list of free chunks.\<close>

definition name_at :: "cells \<Rightarrow> u32 \<Rightarrow> u32 \<Rightarrow> u32 \<Rightarrow> u8 list \<Rightarrow> bool" where
  "name_at m src dest hp name \<longleftrightarrow> cstr m src name \<and> length name < 32 \<and> length name < unat (dest - src) \<and>
     length name < unat (src - dest) \<and> (\<forall>i \<le> length name. cell_of (src + of_nat i) \<notin> span hp 12)"

section \<open>Writes of the boot\<close>

lemma new_list_cells:
  "new_list m L L = L + 4" "new_list m L (L + 4) = 0" "new_list m L (L + 8) = L"
  "c \<notin> span L 12 \<Longrightarrow> new_list m L c = m c"
proof -
  show "new_list m L L = L + 4" "new_list m L (L + 4) = 0" "new_list m L (L + 8) = L"
    by (simp_all add: new_list_def Let_def)
  have "L \<in> span L 12" "L + 4 \<in> span L 12" "L + 8 \<in> span L 12" by simp_all
  then show "c \<notin> span L 12 \<Longrightarrow> new_list m L c = m c" by (auto simp: new_list_def Let_def)
qed

lemma dll_empty:
  assumes "\<forall>c \<in> span L 12. m c = new_list m0 L c" and "aligned L" and "0 \<notin> span L 12"
  shows "dll m L []"
proof (rule dll_frame [where m = "new_list m0 L"])
  have L: "L \<in> span L 12" "L + 4 \<in> span L 12" "L + 8 \<in> span L 12" by simp_all
  then have "L \<noteq> 0" "L + 4 \<noteq> 0" "L + 8 \<noteq> 0" using assms(3) by metis+
  then show "dll (new_list m0 L) L []" using assms(2) by (intro new_list_dll) auto
  show "m k = new_list m0 L k" if "k \<in> set (foot L [])" for k
    using that assms(1) L by (auto simp: foot_def)
qed

lemma cell_of_span:
  assumes "aligned d" and "i < n"
  shows "cell_of (d + of_nat i) \<in> span d n"
proof -
  let ?k = "of_nat i :: u32" and ?q = "of_nat (4 * (unat (of_nat i :: u32) div 4)) :: u32" and ?r = "unat (of_nat i :: u32) mod 4"
  have k: "?k = ?q + of_nat ?r"
    by (simp only: of_nat_add [symmetric] mult_div_mod_eq word_unat_eq_iff) simp
  have q: "unat ?q = 4 * (unat ?k div 4)" using unat_lt_32 [of ?k] by (subst unat_of_nat) simp
  then have "aligned ?q" by (simp only: aligned_unat) simp
  then have c: "cell_of (d + ?k) = d + ?q"
    using aligned_add [OF assms(1)] by (subst k, subst add.assoc [symmetric], intro cell_of_aligned_add) simp_all
  have "unat ?k \<le> i" by (subst unat_of_nat) simp
  then have "unat ?q < n" using q assms(2) by linarith
  then show ?thesis by (simp only: c span_add)
qed

lemma write_seq_cells:
  assumes "aligned d" and "length bs \<le> n" and "c \<notin> span d n"
  shows "write_seq store8 m d bs c = m c"
  using assms(2)
proof (induction bs rule: rev_induct)
  case (snoc b bs)
  have "cell_of (d + of_nat (length bs)) \<in> span d n" using snoc.prems by (intro cell_of_span [OF assms(1)]) simp
  then have "cell_of (d + of_nat (length bs)) \<noteq> c" using assms(3) by blast
  then show ?case using snoc by (simp add: write_seq_snoc store8_other_cell)
qed simp

lemma cstr_frame:
  assumes "cstr m p xs" and "\<And>i. i \<le> length xs \<Longrightarrow> m' (cell_of (p + of_nat i)) = m (cell_of (p + of_nat i))"
  shows "cstr m' p xs"
  using assms
proof (induction xs arbitrary: p)
  case Nil
  then show ?case using load8_cong [of m' p m] by simp
next
  case (Cons x xs)
  have "load8 m' p = load8 m p" using Cons.prems(2) [of 0] by (intro load8_cong) simp
  moreover have "cstr m' (p + 1) xs"
    using Cons.prems Cons.prems(2) [of "Suc i" for i] by (intro Cons.IH) (auto simp: algebra_simps)
  ultimately show ?case using Cons.prems(1) by simp
qed

section \<open>Memory and interrupts\<close>

lemma monitor_init_rest [simp]:
  "mem (monitor_init env s) = mem s" "phys (monitor_init env s) = phys s" "cr3 (monitor_init env s) = cr3 s"
  "LowRamBitF (monitor_init env s) = LowRamBitF s" "LowRamFreeCount (monitor_init env s) = LowRamFreeCount s"
  "interrupt_handlers (monitor_init env s) = interrupt_handlers s" "monitor_state.more (monitor_init env s) = monitor_state.more s"
  by (simp_all add: monitor_init_def scroll_def update_cursor_def outb_def inb_def Let_def)

lemma same_more_kernel:
  "paging_state.more s' = paging_state.more s \<Longrightarrow> monitor_state.more s' = monitor_state.more s"
  "monitor_state.more t' = monitor_state.more t \<Longrightarrow> sched_state t' = sched_state t"
  by (cases s; cases s'; simp) (cases t; cases t'; simp)

lemma init_memory_ready:
  assumes "boot_ok sy mboot_ptr (mem s) es" and "hp_ok (k_heap_start W)"
  shows "\<exists>s'. init_memory sy env W mboot_ptr s = ret s' \<and> heap_inv (k_heap_start W) s' [] \<and>
    interrupt_handlers s' = (replicate 256 None)[14 := Some Page_fault, 13 := Some Protection_fault, 255 := Some Syscall, 32 := Some Timer_callback] \<and>
    mem s' = new_list (mem s) (k_heap_start W) \<and> sched_state s' = sched_state s \<and>
    free_pages s' = usable_pages es - insert 0 (region_pages 0x100000 (kernel_end_of sy))"
proof -
  obtain s1 where s1: "mm_init sy mboot_ptr s = ret s1" "pg_inv s1"
    "free_pages s1 = usable_pages es - insert 0 (region_pages 0x100000 (kernel_end_of sy))"
    "interrupt_handlers s1 = (replicate 256 None)[14 := Some Page_fault, 13 := Some Protection_fault]" "mem s1 = mem s"
    "\<forall>i. 768 < unat i \<longrightarrow> unat i < 1023 \<longrightarrow> \<not> present (pde (phys s1) (cr3 s1) i)" "paging_state.more s1 = paging_state.more s"
    using mm_init_boot [OF assms(1)] by (elim exE conjE) (rule that)
  define s2 where "s2 = kheap_init (k_heap_start W) (monitor_init env s1)"
  have "pages_ok s1 0" using no_tables_pages_ok [OF s1(2)] s1(6) by blast
  then have "pages_ok (monitor_init env s1) 0" by (subst pages_ok_cong [of _ s1]) simp_all
  then have h2: "heap_inv (k_heap_start W) s2 []" unfolding s2_def by (rule kheap_init_inv [OF _ assms(2)])
  have s2: "mem s2 = new_list (mem s) (k_heap_start W)" "interrupt_handlers s2 = interrupt_handlers s1" "free_pages s2 = free_pages s1"
    "monitor_state.more s2 = monitor_state.more s1"
    using s1(5) by (simp_all add: s2_def kheap_init_def set_mem_def free_pages_def page_free_def [abs_def])
  let ?d = "1193180 div TIMER_FREQUENCY"
  let ?s' = "outb 0x40 (ucast (drop_bit 8 ?d AND 0xFF)) (outb 0x40 (ucast (?d AND 0xFF)) (outb 0x43 0x36
    (register_interrupt_handler 32 Timer_callback (register_interrupt_handler 255 Syscall s2))))"
  have "init_memory sy env W mboot_ptr s = ret ?s'"
    using s1(1) by (simp add: init_memory_def init_timer_def TIMER_FREQUENCY_def s2_def Let_def)
  moreover have "heap_inv (k_heap_start W) ?s' []"
    using h2 pages_ok_cong [of ?s' s2] by (simp add: heap_inv_def outb_def register_interrupt_handler_def)
  moreover have "sched_state s2 = sched_state s" using same_more_kernel(1) [OF s1(7)] s2(4) by (intro same_more_kernel(2)) simp
  ultimately show ?thesis using s1(3,4) s2
    by (intro exI [of _ ?s']) (simp add: outb_def register_interrupt_handler_def free_pages_def page_free_def [abs_def])
qed

section \<open>The first task\<close>

lemma init_tasks_mem:
  fixes s :: "'a kernel_state_scheme"
  assumes map: "boot_map W M K" and name: "cstr (mem s) (lit W ''krypton.library'') name" "length name < 32"
    "length name < unat (task_name (kernel_task M) - lit W ''krypton.library'')"
  shows "\<exists>s'. init_tasks M W s = ret s' \<and> running_task s' = kernel_task M \<and> forbid_counter s' = 0 \<and> k_reenter s' = -1 \<and>
    wait_lock s' = 0 \<and> interrupt_handlers s' = interrupt_handlers s \<and> sched_state s' = sched_state s \<and>
    esp0 (tss s') = kernel_stack M + 4096 \<and>
    dll (mem s') (tasks_ready W) [] \<and> dll (mem s') (tasks_wait W) [] \<and>
    mem s' (task_flags (kernel_task M)) = mem s (task_flags (kernel_task M)) OR (TS_READY OR TS_RUN) \<and>
    mem s' (sigs_waiting (kernel_task M)) = mem s (sigs_waiting (kernel_task M)) \<and>
    (\<forall>c \<in> span (k_heap_start W) 12. mem s' c = mem s c) \<and>
    (\<forall>hp bl. heap_inv hp s bl \<and> layout hp (mem s') (k_heap_end s) bl \<longrightarrow> heap_inv hp s' bl) \<and> k_heap_end s' = k_heap_end s \<and>
    free_pages s' = free_pages s"
proof -
  let ?t = "kernel_task M" and ?R = "tasks_ready W" and ?L = "tasks_wait W" and ?D = "device_list M"
  define m1 where "m1 = write_seq store8 (mem s) (?t + 16) (name @ [0])"
  define m2 where "m2 = m1(?t + 12 := 0)"
  define m5 where "m5 = new_list (new_list (new_list m2 ?R) ?L) ?D"
  define m6 where "m6 = m5(?t + 116 := m5 (?t + 116) OR (TS_READY OR TS_RUN))"
  have lay: "layout_ok {?t} {?R, ?L} K" and ne: "?R \<noteq> ?L" using map by (simp_all add: boot_map_def)
  have al: "aligned ?t" "aligned ?R" "aligned ?L" "0 \<notin> span ?R 12" "0 \<notin> span ?L 12" using lay by (simp_all add: layout_ok_def)
  have apart: "span ?t 140 \<inter> span ?R 12 = {}" "span ?t 140 \<inter> span ?L 12 = {}" "span ?R 12 \<inter> span ?L 12 = {}"
    using lay ne by (simp_all add: layout_ok_def)
  have dev: "span ?t 140 \<inter> span ?D 12 = {}" "span ?R 12 \<inter> span ?D 12 = {}" "span ?L 12 \<inter> span ?D 12 = {}"
    "span ?D 12 \<inter> span (k_heap_start W) 12 = {}" "span ?t 140 \<inter> span (k_heap_start W) 12 = {}"
    "span ?R 12 \<inter> span (k_heap_start W) 12 = {}" "span ?L 12 \<inter> span (k_heap_start W) 12 = {}"
    using map by (simp_all add: boot_map_def)
  have own: "?t + 12 \<in> span ?t 140" "?t + 116 \<in> span ?t 140" "?t + 120 \<in> span ?t 140" "span (?t + 16) 32 \<subseteq> span ?t 140"
    by (simp_all add: span_shift)
  have m1: "m1 c = mem s c" if "c \<notin> span (?t + 16) 32" for c
    unfolding m1_def using that al(1) name(2) by (intro write_seq_cells aligned_add) (simp_all add: aligned_unat)
  have m6_out: "m6 c = mem s c" if "c \<notin> span ?t 140" "c \<notin> span ?R 12" "c \<notin> span ?L 12" "c \<notin> span ?D 12" for c
  proof -
    have "c \<noteq> ?t + 12" "c \<noteq> ?t + 116" "c \<notin> span (?t + 16) 32" using that(1) own by blast+
    then show ?thesis using that m1 by (simp add: m6_def m5_def m2_def new_list_cells(4))
  qed
  have m5_own: "m5 c = m2 c" if "c \<in> span ?t 140" for c
  proof -
    have "c \<notin> span ?R 12" "c \<notin> span ?L 12" "c \<notin> span ?D 12" using that apart dev by blast+
    then show ?thesis by (simp add: m5_def new_list_cells(4))
  qed
  have m2_field: "m2 (?t + k) = mem s (?t + k)" if "48 \<le> unat k" "unat k < 140" for k
  proof -
    have "?t + k \<notin> span (?t + 16) 32"
    proof -
      have "unat (k - 16) = unat k - 16" using that(1) by (subst unat_sub) (simp_all add: word_le_nat_alt)
      then show ?thesis using that by (simp add: span_def)
    qed
    moreover have "?t + k \<noteq> ?t + 12" using that(1) by auto
    ultimately show ?thesis using m1 by (simp add: m2_def)
  qed
  have fl: "m6 (?t + 116) = mem s (?t + 116) OR (TS_READY OR TS_RUN)" "m6 (?t + 120) = mem s (?t + 120)"
    using m5_own [OF own(2)] m5_own [OF own(3)] m2_field [of 116] m2_field [of 120] by (simp_all add: m6_def)
  have lists: "\<forall>c \<in> span ?R 12. m6 c = new_list m2 ?R c" "\<forall>c \<in> span ?L 12. m6 c = new_list (new_list m2 ?R) ?L c"
  proof -
    show "\<forall>c \<in> span ?R 12. m6 c = new_list m2 ?R c"
    proof
      fix c assume c: "c \<in> span ?R 12"
      have "c \<noteq> ?t + 116" "c \<notin> span ?L 12" "c \<notin> span ?D 12" using c own apart dev by blast+
      then show "m6 c = new_list m2 ?R c" by (simp add: m6_def m5_def new_list_cells(4))
    qed
    show "\<forall>c \<in> span ?L 12. m6 c = new_list (new_list m2 ?R) ?L c"
    proof
      fix c assume c: "c \<in> span ?L 12"
      have "c \<noteq> ?t + 116" "c \<notin> span ?D 12" using c own apart dev by blast+
      then show "m6 c = new_list (new_list m2 ?R) ?L c" by (simp add: m6_def m5_def new_list_cells(4))
    qed
  qed
  have dlls: "dll m6 ?R []" "dll m6 ?L []" by (rule dll_empty [OF lists(1) al(2,4)], rule dll_empty [OF lists(2) al(3,5)])
  have hp: "\<forall>c \<in> span (k_heap_start W) 12. m6 c = mem s c"
  proof
    fix c assume c: "c \<in> span (k_heap_start W) 12"
    show "m6 c = mem s c" by (rule m6_out) (use c dev in blast)+
  qed
  have "lit W ''krypton.library'' + of_nat i \<noteq> ?t + 16" if "0 < i" "i \<le> length name" for i
  proof
    assume "lit W ''krypton.library'' + of_nat i = ?t + 16"
    then have "of_nat i = ?t + 16 - lit W ''krypton.library''" by (simp add: algebra_simps)
    then have "unat (?t + 16 - lit W ''krypton.library'') = unat (of_nat i :: u32)" by simp
    also have "\<dots> = i" using that name(2) by (subst unat_of_nat) simp
    finally show False using name(3) that(2) by (simp add: task_name_def)
  qed
  then have cp: "strcpy (mem s) (?t + 16) (lit W ''krypton.library'') = Some m1"
    unfolding m1_def by (intro strcpy_write_seq [OF name(1)]) blast
  let ?s' = "(set_kernel_stack (kernel_stack M + 4096) s)\<lparr>mem := m6, running_task := ?t, forbid_counter := 0, k_reenter := -1, wait_lock := 0\<rparr>"
  have "init_tasks M W s = ret ?s'"
    using cp by (simp add: init_tasks_def task_name_def task_pri_def task_flags_def upd_def KERNEL_STACK_SIZE_WORDS_def Let_def
      m6_def m5_def m2_def set_kernel_stack_def)
  moreover have "heap_inv hp ?s' bl" if "heap_inv hp s bl" "layout hp m6 (k_heap_end s) bl" for hp bl
    using that pages_ok_cong [of ?s' s] by (simp add: heap_inv_def set_kernel_stack_def)
  ultimately show ?thesis using dlls fl hp
    by (intro exI [of _ ?s']) (simp add: task_flags_def sigs_waiting_def set_kernel_stack_def free_pages_def page_free_def [abs_def])
qed

text \<open>After the first part of \<open>init\<close> the kernel task runs alone, both lists are empty, and the kernel is ready for traps and for
  the clock.\<close>

lemma boot_invariant:
  assumes "boot_ok sy mboot_ptr (mem s) es" and "boot_map W M K"
    and "name_at (mem s) (lit W ''krypton.library'') (task_name (kernel_task M)) (k_heap_start W) name"
    and "mem s (task_flags (kernel_task M)) = 0" "mem s (sigs_waiting (kernel_task M)) = 0"
  shows "\<exists>s1 s2. init_memory sy env W mboot_ptr s = ret s1 \<and> init_tasks M W s1 = ret s2 \<and>
    heap_even (k_heap_start W) s2 {} \<and> sched_state s2 = sched_state s \<and> forbid_counter s2 = 0 \<and>
    active W {kernel_task M} {tasks_ready W, tasks_wait W} K (\<lambda>L. []) s2 \<and> clock_ready W K s2 \<and>
    running_task s2 = kernel_task M \<and> esp0 (tss s2) = kernel_stack M + 4096 \<and>
    interrupt_handlers s2 = (replicate 256 None)[14 := Some Page_fault, 13 := Some Protection_fault, 255 := Some Syscall, 32 := Some Timer_callback] \<and>
    free_pages s2 = usable_pages es - insert 0 (region_pages 0x100000 (kernel_end_of sy))"
proof -
  let ?t = "kernel_task M" and ?hp = "k_heap_start W" and ?src = "lit W ''krypton.library''"
  have map: "layout_ok {?t} {tasks_ready W, tasks_wait W} K" "tasks_ready W \<noteq> tasks_wait W" "\<forall>s. on_stack K (frame W s)"
    "frames_apart W" "hp_ok ?hp" "span ?t 140 \<inter> span ?hp 12 = {}" using assms(2) by (simp_all add: boot_map_def)
  obtain s1 where s1: "init_memory sy env W mboot_ptr s = ret s1" "heap_inv ?hp s1 []"
    "interrupt_handlers s1 = (replicate 256 None)[14 := Some Page_fault, 13 := Some Protection_fault, 255 := Some Syscall, 32 := Some Timer_callback]"
    "mem s1 = new_list (mem s) ?hp" "sched_state s1 = sched_state s"
    "free_pages s1 = usable_pages es - insert 0 (region_pages 0x100000 (kernel_end_of sy))"
    using init_memory_ready [OF assms(1) map(5)] by blast
  have keep: "mem s1 c = mem s c" if "c \<notin> span ?hp 12" for c using that by (simp add: s1(4) new_list_cells(4))
  have name: "cstr (mem s1) ?src name" "length name < 32" "length name < unat (task_name ?t - ?src)"
    using assms(3) keep by (auto simp: name_at_def intro!: cstr_frame [of "mem s"])
  obtain s2 where s2: "init_tasks M W s1 = ret s2" "running_task s2 = ?t" "forbid_counter s2 = 0" "k_reenter s2 = -1" "wait_lock s2 = 0"
    "interrupt_handlers s2 = interrupt_handlers s1" "esp0 (tss s2) = kernel_stack M + 4096"
    "dll (mem s2) (tasks_ready W) []" "dll (mem s2) (tasks_wait W) []"
    "mem s2 (task_flags ?t) = mem s1 (task_flags ?t) OR (TS_READY OR TS_RUN)" "mem s2 (sigs_waiting ?t) = mem s1 (sigs_waiting ?t)"
    "\<forall>c \<in> span ?hp 12. mem s2 c = mem s1 c"
    "\<forall>hp bl. heap_inv hp s1 bl \<and> layout hp (mem s2) (k_heap_end s1) bl \<longrightarrow> heap_inv hp s2 bl" "k_heap_end s2 = k_heap_end s1" "sched_state s2 = sched_state s1"
    "free_pages s2 = free_pages s1"
    using init_tasks_mem [OF assms(2) name] by blast
  have "?t + 116 \<in> span ?t 140" "?t + 120 \<in> span ?t 140" by simp_all
  then have "task_flags ?t \<notin> span ?hp 12" "sigs_waiting ?t \<notin> span ?hp 12"
    using map(6) unfolding task_flags_def sigs_waiting_def by blast+
  then have fl: "mem s2 (task_flags ?t) = TS_READY OR TS_RUN" "mem s2 (sigs_waiting ?t) = 0"
    using s2(10,11) keep assms(4,5) by simp_all
  have "layout ?hp (mem s1) (k_heap_end s1) []" using s1(2) by (simp add: heap_inv_def)
  then have "layout ?hp (mem s2) (k_heap_end s1) []"
    using s2(12) by (auto simp: layout_def heap_mem_def foot_def intro!: dll_frame [of "mem s1" ?hp "[]"])
  then have "heap_inv ?hp s2 []" using s2(13) s1(2) by blast
  then have heap: "heap_even ?hp s2 {}" by (auto simp: heap_even_def HeapSpec.ready_def in_use_def intro!: exI [of _ "[]"])
  have "tasks_inv W {?t} {tasks_ready W, tasks_wait W} K (\<lambda>L. []) s2"
    using map(1,2) s2(2,8,9) fl by (simp add: tasks_inv_def lists_ok_def by_pri_def task_ok_def waiting_def TS_READY_def TS_RUN_def)
  then have "active W {?t} {tasks_ready W, tasks_wait W} K (\<lambda>L. []) s2"
    using s2(2) fl(1) by (simp add: active_def listed_def run_flags_def TS_READY_def TS_RUN_def)
  moreover have "clock_ready W K s2"
    using map(3,4) s2(3-6) s1(3) by (simp add: clock_ready_def user_mode_def counters_ok_def)
  ultimately show ?thesis using s1(1,3,5,6) s2(1,2,3,6,7,15,16) heap by auto
qed

definition demo_main :: main_mem where
  "demo_main = \<lparr>kernel_stack = 0x60000, kernel_task = 0x10000, device_list = 0x20300, timebuf = 0x70000, rambuf = 0x70100,
     input_buf = 0x70200, con_io = 0x70300, console_code = 0x80000, timer_code = 0x81000\<rparr>"

lemma demo_map: "boot_map demo_sys demo_main demo_stack"
proof -
  have "layout_ok {0x10000} {0x20000, 0x20100} demo_stack"
    using demo_layout by (simp add: layout_ok_def demo_tasks_def demo_lists_def)
  moreover have "span 0x20200 12 \<inter> span 0x20300 12 = {}" "span 0x10000 140 \<inter> span 0x20300 12 = {}"
    "span 0x20000 12 \<inter> span 0x20300 12 = {}" "span 0x20100 12 \<inter> span 0x20300 12 = {}" "span 0x10000 140 \<inter> span 0x20200 12 = {}"
    "span 0x20000 12 \<inter> span 0x20200 12 = {}" "span 0x20100 12 \<inter> span 0x20200 12 = {}" by (rule span_apart; simp)+
  moreover have "hp_ok 0x20200" by (simp add: hp_ok_def aligned_def)
  moreover have "k_heap_start demo_sys = 0x20200" by (simp add: demo_sys_def)
  ultimately show ?thesis
    using user_modeD(2) [OF demo_user] demo_frames by (simp add: boot_map_def demo_main_def Int_commute)
qed

end
