(* ===== verification/HeapCalls.thy ===== *)
theory HeapCalls
  imports Boot
begin

text \<open>
  The heap as a service of the kernel: \<open>kmalloc\<close> and \<open>kfree\<close> of a task as system calls. The heap operations change nothing
  but the heap and the pages (\<open>rest_same\<close>); with the tasks, the lists and the stacks in memory that the heap leaves to its
  clients, a call keeps the invariant of the tasks, and gives a block apart from everything else.
\<close>

section \<open>What the heap operations leave alone\<close>

definition rest_same :: "'a heap_state_scheme \<Rightarrow> 'a heap_state_scheme \<Rightarrow> bool" where
  "rest_same s s' \<longleftrightarrow> interrupt_handlers s' = interrupt_handlers s \<and> tss s' = tss s \<and> heap_state.more s' = heap_state.more s"

lemma rest_same_refl [simp]: "rest_same s s" by (simp add: rest_same_def)
lemma rest_same_trans: "rest_same s s' \<Longrightarrow> rest_same s' s'' \<Longrightarrow> rest_same s s''" by (simp add: rest_same_def)

lemma rest_same_upd [simp]:
  "rest_same s (set_mem m s)" "rest_same s (disable s)" "rest_same s (enable s)" "rest_same s (s\<lparr>k_heap_end := e\<rparr>)"
  "rest_same s (s\<lparr>phys := p\<rparr>)" "rest_same s (flush_tlb v s)" "rest_same s (s\<lparr>LowRamBitF := b, LowRamFreeCount := n\<rparr>)"
  by (cases s; simp add: rest_same_def set_mem_def disable_def enable_def flush_tlb_def)+

text \<open>What holds of the result of an operation that returns.\<close>

definition yields :: "('v \<Rightarrow> bool) \<Rightarrow> 'v outcome \<Rightarrow> bool" where
  "yields P x \<longleftrightarrow> (\<forall>v. x = ret v \<longrightarrow> P v)"

lemma yields_simps [simp]: "yields P (ret v) = P v" "yields P (fail e)" "yields P None"
  by (simp_all add: yields_def)

lemma yields_bnd: "yields P x \<Longrightarrow> (\<And>v. P v \<Longrightarrow> yields Q (f v)) \<Longrightarrow> yields Q (bnd x f)"
  by (simp add: yields_def bnd_eq_ret) blast

lemma yields_any: "(\<And>v. yields Q (f v)) \<Longrightarrow> yields Q (bnd x f)" "(\<And>v. yields Q (f v)) \<Longrightarrow> yields Q (Option.bind y f)"
  by (auto simp: yields_def bnd_eq_ret) (auto simp: ret_def Option.bind_eq_Some_conv)

lemma yields_if: "(b \<Longrightarrow> yields P x) \<Longrightarrow> (\<not> b \<Longrightarrow> yields P y) \<Longrightarrow> yields P (if b then x else y)"
  by simp

lemma yields_mono: "yields P x \<Longrightarrow> (\<And>v. P v \<Longrightarrow> Q v) \<Longrightarrow> yields Q x"
  by (simp add: yields_def)

abbreviation leaves :: "'a heap_state_scheme \<Rightarrow> 'a heap_state_scheme outcome \<Rightarrow> bool" where
  "leaves s \<equiv> yields (rest_same s)"

abbreviation leaves2 :: "'a heap_state_scheme \<Rightarrow> ('v \<times> 'a heap_state_scheme) outcome \<Rightarrow> bool" where
  "leaves2 s \<equiv> yields (\<lambda>(v, s'). rest_same s s')"

lemma leaves_from: "leaves t x \<Longrightarrow> rest_same s t \<Longrightarrow> leaves s x" "leaves2 t y \<Longrightarrow> rest_same s t \<Longrightarrow> leaves2 s y"
  by (auto simp: yields_def intro: rest_same_trans)

text \<open>Sequences of operations, \<open>s\<close> the state before all of them.\<close>

lemma leaves_bnd:
  "leaves t x \<Longrightarrow> rest_same s t \<Longrightarrow> (\<And>u. rest_same s u \<Longrightarrow> x = ret u \<Longrightarrow> yields Q (f u)) \<Longrightarrow> yields Q (bnd x f)"
  by (rule yields_bnd [where P = "\<lambda>u. rest_same t u \<and> x = ret u"]) (auto simp: yields_def intro: rest_same_trans)

lemma leaves2_bnd: "leaves2 t x \<Longrightarrow> rest_same s t \<Longrightarrow> (\<And>v u. rest_same s u \<Longrightarrow> yields Q (f v u)) \<Longrightarrow> yields Q (bnd x (\<lambda>(v, u). f v u))"
  by (rule yields_bnd [where P = "\<lambda>(v, u). rest_same t u"]) (auto intro: rest_same_trans)

lemma rest_intros:
  "rest_same s t \<Longrightarrow> leaves s (ret t)" "rest_same s t \<Longrightarrow> leaves2 s (ret (v, t))" "rest_same s s"
  "rest_same s t \<Longrightarrow> rest_same s (set_mem m t)" "rest_same s t \<Longrightarrow> rest_same s (disable t)" "rest_same s t \<Longrightarrow> rest_same s (enable t)"
  "rest_same s t \<Longrightarrow> rest_same s (t\<lparr>k_heap_end := e\<rparr>)" "rest_same s t \<Longrightarrow> rest_same s (flush_tlb a t)"
  by (auto intro: rest_same_trans)

lemma page_bits_rest: "leaves s (set_page_bit a s)" "leaves s (clr_page_bit a s)"
  by (simp_all add: set_page_bit_def clr_page_bit_def Let_def)

lemma pa_alloc_rest: "leaves2 s (pa_alloc s)"
  unfolding pa_alloc_def Let_def
  by (intro yields_if yields_any yields_simps leaves_bnd [OF page_bits_rest(1) rest_same_refl]) simp

lemma pa_free_rest: "leaves s (pa_free a s)"
  unfolding pa_free_def by (intro yields_any yields_if page_bits_rest) simp

lemma vwrite_rest: "leaves s (vwrite a v s)" "leaves s (vstore8 a b s)"
  by (simp_all add: vwrite_def vstore8_def split: option.split)

lemma vmemset_rest: "leaves s (vmemset d v n s)"
proof (induction d v n s rule: vmemset.induct)
  case (1 d v n s)
  have "leaves s (bnd (vstore8 d v s) (\<lambda>s. vmemset (d + 1) v (n - 1) s))" if "n \<noteq> 0"
    by (rule leaves_bnd [OF vwrite_rest(2) rest_same_refl]) (rule leaves_from(1) [OF 1 [OF that]])
  then show ?case by (subst vmemset.simps) (rule yields_if, simp_all)
qed

lemma table_rest: "leaves s (add_page_table i fl s)"
  unfolding add_page_table_def
  by (rule leaves2_bnd [OF pa_alloc_rest rest_same_refl], rule leaves_bnd [OF vwrite_rest(1)], assumption)
    (rule leaves_from(1) [OF vmemset_rest])

lemma mm_map_rest: "leaves2 s (mm_map p va fl s)"
proof -
  have t: "leaves s (if b then add_page_table i fl s else ret s)" for b i by (simp add: table_rest)
  have "leaves2 s (ret (0, s))" by simp
  then show ?thesis
    unfolding mm_map_def
    by (rule yields_if) (rule yields_any(1), rule leaves_bnd [OF t rest_same_refl], rule leaves_bnd [OF vwrite_rest(1)],
      assumption, intro rest_intros)
qed

lemma mm_unmap_rest: "leaves s (mm_unmap va s)"
  unfolding mm_unmap_def by (intro leaves_bnd [OF vwrite_rest(1) rest_same_refl] rest_intros)

lemma grow_rest: "leaves s (grow_heap hp s)"
  unfolding grow_heap_def Let_def
  by (rule leaves2_bnd [where s = s, OF pa_alloc_rest rest_same_upd(2)], rule leaves2_bnd [OF mm_map_rest], assumption)
    (intro yields_if rest_intros; assumption)

lemma take_rest: "leaves2 s (take_chunk hp n c s)"
  unfolding take_chunk_def Let_def by (intro yields_if yields_any(2) rest_intros yields_simps)

lemma kmalloc_rest: "leaves2 s (kern_kmalloc hp n s)"
proof -
  have "case r of Inl _ \<Rightarrow> True | Inr v \<Rightarrow> rest_same s (snd v)" if "kern_kmalloc hp n s = Some r" for r
    using that
  proof (induction rule: kern_kmalloc.raw_induct [rotated, consumes 1, case_names step])
    case (step f hp n s r)
    have IH: "leaves2 u (f hp' n' u)" for hp' n' u
      using step.IH by (fastforce simp: yields_def ret_def)
    have "leaves2 s (bnd (find_chunk (mem s) (align_size n) (get_head (mem s) hp)) (\<lambda>chunk.
      if chunk \<noteq> 0 then take_chunk hp (align_size n) chunk s
      else bnd (grow_heap hp s) (\<lambda>s. f hp (align_size n) s)))"
      by (intro yields_any(1) yields_if take_rest leaves_bnd [OF grow_rest rest_same_refl] leaves_from(2) [OF IH])
    then show ?case using step.hyps by (auto simp: yields_def ret_def split: sum.split)
  qed
  then show ?thesis by (fastforce simp: yields_def ret_def)
qed

lemma shrink_rest: "leaves s (shrink_loop tail s)"
proof -
  have "case r of Inl _ \<Rightarrow> True | Inr v \<Rightarrow> rest_same s v" if "shrink_loop tail s = Some r" for r
    using that
  proof (induction rule: shrink_loop.raw_induct [rotated, consumes 1, case_names step])
    case (step f tail s r)
    have IH: "leaves u (f tail u)" for tail u using step.IH by (fastforce simp: yields_def ret_def)
    have "leaves s (if tail \<noteq> 0 \<and> chunk_size (mem s) tail > PAGE_SIZE
     then (let s = set_mem ((mem s)(tail + 8 := chunk_size (mem s) tail - PAGE_SIZE)) s;
               s = s\<lparr>k_heap_end := k_heap_end s - PAGE_SIZE\<rparr>
           in bnd (get_physaddr (k_heap_end s) s) (\<lambda>free_addr.
              bnd (mm_unmap (k_heap_end s) s) (\<lambda>s.
              bnd (pa_free free_addr s) (\<lambda>s. f tail s))))
     else ret s)"
      unfolding Let_def
      by (rule yields_if, rule yields_any(1), rule leaves_bnd [where s = s, OF mm_unmap_rest], intro rest_intros rest_same_refl,
        rule leaves_bnd [OF pa_free_rest], assumption, rule leaves_from(1) [OF IH], assumption) simp
    then have "leaves s (Some r)" using step.hyps by simp
    then show ?case by (auto simp: yields_def ret_def split: sum.split)
  qed
  then show ?thesis by (fastforce simp: yields_def ret_def)
qed

lemma merge_rest: "leaves s (merge_heap hp aux s)"
proof -
  have "case r of Inl _ \<Rightarrow> True | Inr v \<Rightarrow> rest_same s v" if "merge_heap hp aux s = Some r" for r
    using that
  proof (induction rule: merge_heap.raw_induct [rotated, consumes 1, case_names step])
    case (step f hp aux s r)
    have IH: "leaves u (f hp aux u)" for hp aux u using step.IH by (fastforce simp: yields_def ret_def)
    have "leaves s (if aux = 0 then ret s
     else if chunk_magic (mem s) aux \<noteq> CHUNK_MAGIC then fail heap_corrupt
     else (let aux_next = get_next (mem s) aux
           in bnd (if aux_next = aux + chunk_size (mem s) aux + sizeof_chunk
                   then f hp aux
                     (set_mem (remove_node ((mem s)(aux + 8 := chunk_size (mem s) aux +
                        (chunk_size (mem s) aux_next + sizeof_chunk))) aux_next) s)
                   else f hp (get_next (mem s) aux) s) (\<lambda>s.
              shrink_loop (get_tail (mem s) hp) s)))"
      unfolding Let_def
      by (intro yields_if rest_intros yields_simps leaves_bnd [OF _ rest_same_refl] leaves_from(1) [OF IH] leaves_from(1) [OF shrink_rest]) simp_all
    then show ?case using step.hyps by (auto simp: yields_def ret_def split: sum.split)
  qed
  then show ?thesis by (fastforce simp: yields_def ret_def)
qed

lemma kfree_rest: "leaves s (kern_kfree hp p s)"
  unfolding kern_kfree_def Let_def
  by (intro yields_if yields_simps yields_any(2) leaves_bnd [OF merge_rest] rest_intros) simp_all

section \<open>The system calls\<close>

text \<open>A call comes from a task, or from the kernel itself in an interrupt handler. \<open>call_stack\<close> is the stack that it uses.\<close>

definition can_trap :: "'a kernel_state_scheme sys \<Rightarrow> u32 set \<Rightarrow> 'a kernel_state_scheme \<Rightarrow> bool" where
  "can_trap W K s \<longleftrightarrow> user_mode W K s \<or> in_kernel W K s"

definition call_stack :: "'a kernel_state_scheme sys \<Rightarrow> u32 set \<Rightarrow> 'a kernel_state_scheme \<Rightarrow> u32 set" where
  "call_stack W K s = (if 0 \<le> sint (k_reenter s) then kframes W \<union> range (stack_var W) else K)"

lemma can_trapD:
  assumes "can_trap W K s"
  shows "length (interrupt_handlers s) = 256" "interrupt_handlers s ! 255 = Some Syscall" "on_stack K (frame W s')"
    "sint (k_reenter s + 1) = sint (k_reenter s) + 1" "- 1 \<le> sint (k_reenter s)"
  using assms sint_add_1 [of "k_reenter s"] by (auto simp: can_trap_def user_mode_def in_kernel_def)

lemma can_trap_user: "user_mode W K s \<Longrightarrow> can_trap W K s"
  by (simp add: can_trap_def)

lemma can_trap_same: "k_reenter s' = k_reenter s \<Longrightarrow> interrupt_handlers s' = interrupt_handlers s \<Longrightarrow> can_trap W K s' = can_trap W K s"
  by (simp add: can_trap_def user_mode_def in_kernel_def)

lemma call_stack_frame:
  assumes "can_trap W K s" and "k_reenter s' = k_reenter s"
  shows "span (frame W s') 64 \<subseteq> call_stack W K s"
  using can_trapD(3) [OF assms(1), of s'] assms(2) by (auto simp: call_stack_def kframes_def on_stack_def)

lemma rest_same_kernel:
  fixes s :: "'a kernel_state_scheme"
  assumes "rest_same s s'"
  shows "running_task s' = running_task s" "k_reenter s' = k_reenter s" "sched_state s' = sched_state s" "wait_lock s' = wait_lock s"
    "system_tick s' = system_tick s" "forbid_counter s' = forbid_counter s" "interrupt_handlers s' = interrupt_handlers s"
    "kernel_state.more s' = kernel_state.more s" "monitor_state.more s' = monitor_state.more s" "tss s' = tss s"
  using assms by (cases s; cases s'; simp add: rest_same_def)+

definition call_state :: "'a kernel_state_scheme sys \<Rightarrow> u32 \<Rightarrow> u32 \<Rightarrow> 'a kernel_state_scheme \<Rightarrow> 'a kernel_state_scheme" where
  "call_state W n arg s =
    s\<lparr>mem := push_frame (frame W s) (trap_frame n arg (registers W s)) (mem s), k_reenter := k_reenter s + 1, iflag := True\<rparr>"

definition end_call :: "'a kernel_state_scheme sys \<Rightarrow> 'a kernel_state_scheme \<Rightarrow> 'a kernel_state_scheme \<Rightarrow> 'a kernel_state_scheme outcome" where
  "end_call W s s' = bnd (reschedule W (frame W s) (disable s')) (\<lambda>s'. ret (s'\<lparr>k_reenter := k_reenter s' - 1, iflag := iflag s\<rparr>))"

lemma trap_kmalloc:
  fixes s :: "'a kernel_state_scheme"
  assumes "can_trap W K s"
  shows "trap W SYSCALL_KMALLOC arg s = bnd (kern_kmalloc (k_heap_start W) (mem (call_state W SYSCALL_KMALLOC arg s) arg) (call_state W SYSCALL_KMALLOC arg s))
    (\<lambda>(p, s'). end_call W s (upd arg p s'))"
proof -
  have "interrupt_handlers s ! 255 = Some Syscall" "255 < length (interrupt_handlers s)"
    using can_trapD(1,2) [OF assms] by simp_all
  then show ?thesis
    by (simp add: trap_def idt_handler_def handler_of_def soft_call_def syscall_def push_frame_regs disable_def enable_def
      Let_def bnd_assoc call_state_def end_call_def SYSCALL_KMALLOC_def SYSCALL_YIELD_def case_prod_unfold)
qed

lemma trap_kfree:
  fixes s :: "'a kernel_state_scheme"
  assumes "can_trap W K s"
  shows "trap W SYSCALL_KFREE p s = bnd (kern_kfree (k_heap_start W) p (call_state W SYSCALL_KFREE p s)) (end_call W s)"
proof -
  have "interrupt_handlers s ! 255 = Some Syscall" "255 < length (interrupt_handlers s)"
    using can_trapD(1,2) [OF assms] by simp_all
  then show ?thesis
    by (simp add: trap_def idt_handler_def handler_of_def soft_call_def syscall_def push_frame_regs disable_def enable_def
      Let_def bnd_assoc call_state_def end_call_def [abs_def] SYSCALL_KMALLOC_def SYSCALL_YIELD_def SYSCALL_KFREE_def)
qed

text \<open>No switch is due: multitasking is forbidden, the kernel has been entered already, or the scheduler has not been asked for.\<close>

definition no_switch :: "'a kernel_state_scheme \<Rightarrow> bool" where
  "no_switch s \<longleftrightarrow> sint (forbid_counter s) > 0 \<or> 0 \<le> sint (k_reenter s) \<or> sched_state s AND NEED_SCHEDULE = 0"

lemma end_call_no_switch:
  "sint (forbid_counter s') > 0 \<or> sint (k_reenter s') > 0 \<or> sched_state s' AND NEED_SCHEDULE = 0 \<Longrightarrow>
    end_call W s s' = ret (s'\<lparr>k_reenter := k_reenter s' - 1, iflag := iflag s\<rparr>)"
  using reschedule_forbidden [of "disable s'" W "frame W s"]
  by (auto simp: end_call_def disable_def reschedule_def)

lemma heap_even_cong:
  "mem s' = mem s \<Longrightarrow> phys s' = phys s \<Longrightarrow> cr3 s' = cr3 s \<Longrightarrow> LowRamBitF s' = LowRamBitF s \<Longrightarrow>
   LowRamFreeCount s' = LowRamFreeCount s \<Longrightarrow> k_heap_end s' = k_heap_end s \<Longrightarrow> heap_even hp s' L = heap_even hp s L"
  using pages_ok_cong [of s' s] by (simp add: heap_even_def heap_inv_def)

lemma heap_even_else:
  fixes s s' :: "'a kernel_state_scheme"
  assumes "elsewhere A s s'" and "A \<subseteq> even_heap.kept hp L" and "heap_even hp s L"
  shows "heap_even hp s' L"
proof -
  have e: "rest_of s' = rest_of s" "\<And>c. c \<notin> A \<Longrightarrow> mem s' c = mem s c" using assms(1) by (auto simp: elsewhere_def)
  have "heap_even hp (s\<lparr>mem := mem s'\<rparr>) L" using e(2) assms(2) by (intro heap_even_write [OF assms(3)]) blast
  then show ?thesis using rest_ofD [OF e(1)] by (subst heap_even_cong [of _ "s\<lparr>mem := mem s'\<rparr>"]) simp_all
qed

lemma heap_even_pages: "heap_even hp s L \<Longrightarrow> pg_inv s"
  by (auto simp: heap_even_def heap_inv_def pages_ok_def)

text \<open>The data of the kernel in memory that the heap leaves to its clients. The variable of \<open>kmalloc\<close> is on the stack, apart
  from the frame of its own call.\<close>

definition vars_ok :: "'a kernel_state_scheme sys \<Rightarrow> u32 set \<Rightarrow> bool" where
  "vars_ok W K \<longleftrightarrow> (\<forall>s s'. stack_var W s \<in> K \<and> stack_var W s \<notin> span (frame W s') 64)"

lemma call_stack_on:
  assumes "can_trap W K s" and "vars_ok W K"
  shows "call_stack W K s \<subseteq> K"
proof -
  have "span (frame W s') 64 \<subseteq> K" for s' using can_trapD(3) [OF assms(1)] by (simp add: on_stack_def)
  then show ?thesis using assms(2) by (auto simp: call_stack_def vars_ok_def kframes_def)
qed

text \<open>The state that a call of the heap leaves.\<close>

definition same_tasks :: "'a kernel_state_scheme \<Rightarrow> 'a kernel_state_scheme \<Rightarrow> bool" where
  "same_tasks s s' \<longleftrightarrow> same_kernel s s' \<and> forbid_counter s' = forbid_counter s \<and> tss s' = tss s \<and>
     kernel_state.more s' = kernel_state.more s"

text \<open>A heap operation on the state of a call: memory that the heap leaves alone, and is not on the stack, stays as it was.\<close>

lemma call_state_heap:
  fixes s :: "'a kernel_state_scheme"
  assumes user: "can_trap W K s" and live: "heap_even hp s L" and K: "K \<subseteq> even_heap.kept hp L"
  shows "heap_even hp (call_state W n arg s) L" and "c \<notin> K \<Longrightarrow> mem (call_state W n arg s) c = mem s c"
proof -
  have same: "\<forall>c. c \<notin> K \<longrightarrow> mem (call_state W n arg s) c = mem s c"
    using push_on_stack [OF can_trapD(3) [OF user]] by (simp add: call_state_def)
  then show "c \<notin> K \<Longrightarrow> mem (call_state W n arg s) c = mem s c" by blast
  have "heap_even hp (s\<lparr>mem := mem (call_state W n arg s)\<rparr>) L"
    using same K by (intro heap_even_write [OF live]) blast
  then show "heap_even hp (call_state W n arg s) L" by (subst heap_even_cong [of _ "s\<lparr>mem := mem (call_state W n arg s)\<rparr>"]) (simp_all add: call_state_def)
qed

lemma end_call_rest:
  fixes s :: "'a kernel_state_scheme"
  assumes act: "active W T LS K q s" and user: "can_trap W K s" and quiet: "no_switch s"
    and rest: "rest_same (call_state W n arg s) s1" and same: "\<And>c. c \<in> task_area T LS \<Longrightarrow> m c = mem s c"
    and s': "s' = s1\<lparr>mem := m, k_reenter := k_reenter s1 - 1, iflag := iflag s\<rparr>"
  shows "end_call W s (s1\<lparr>mem := m\<rparr>) = ret s'" "active W T LS K q s'" "same_tasks s s'"
proof -
  let ?s2 = "s1\<lparr>mem := m\<rparr>"
  note r = rest_same_kernel [OF rest]
  have c: "running_task s1 = running_task s" "k_reenter s1 = k_reenter s + 1" "sched_state s1 = sched_state s" "wait_lock s1 = wait_lock s"
    "system_tick s1 = system_tick s" "forbid_counter s1 = forbid_counter s" "interrupt_handlers s1 = interrupt_handlers s"
    "kernel_state.more s1 = kernel_state.more s" "tss s1 = tss s"
    using r by (simp_all add: call_state_def)
  have "sint (forbid_counter ?s2) > 0 \<or> sint (k_reenter ?s2) > 0 \<or> sched_state ?s2 AND NEED_SCHEDULE = 0"
    using quiet c can_trapD(4) [OF user] by (simp add: no_switch_def)
  from end_call_no_switch [OF this] show "end_call W s ?s2 = ret s'" by (simp add: s')
  have "active W T LS K q (s\<lparr>mem := m\<rparr>)"
    using same by (intro memory_step(1) [OF act]) (simp add: task_area_def)
  then show "active W T LS K q s'" by (subst active_same [of _ "s\<lparr>mem := m\<rparr>"]) (simp_all add: s' c)
  show "same_tasks s s'" using c by (simp add: same_tasks_def same_kernel_def s')
qed

lemma end_call_state:
  fixes s :: "'a kernel_state_scheme"
  assumes act: "active W T LS K q s" and user: "can_trap W K s" and quiet: "no_switch s"
    and rest: "rest_same (call_state W n arg s) s1" and s2: "s2 = s1\<lparr>mem := m\<rparr>"
    and same: "\<And>c. c \<in> task_area T LS \<Longrightarrow> m c = mem s c" and live: "heap_even hp s2 L"
  shows "\<exists>s'. end_call W s s2 = ret s' \<and> mem s' = m \<and> active W T LS K q s' \<and> same_tasks s s' \<and> heap_even hp s' L \<and>
    free_pages s' = free_pages s1"
proof -
  let ?s' = "s1\<lparr>mem := m, k_reenter := k_reenter s1 - 1, iflag := iflag s\<rparr>"
  have "heap_even hp ?s' L" using live by (subst heap_even_cong [of _ s2]) (simp_all add: s2)
  then show ?thesis
    using end_call_rest [OF act user quiet rest same refl] by (intro exI [of _ ?s']) (simp add: s2 free_pages_def page_free_def [abs_def])
qed

text \<open>\<open>kmalloc\<close> as the task sees it. A request of at most 2032 bytes succeeds while two pages are free, and takes at most two.\<close>

definition served :: "u32 \<Rightarrow> 'a pa_state_scheme \<Rightarrow> bool" where
  "served sz s \<longleftrightarrow> unat sz \<le> 2032 \<and> 2 \<le> card (free_pages s)"

lemma served_small:
  assumes "heap_even hp s L" and "even_size sz" and "served sz s"
  shows "\<exists>p s'. kern_kmalloc hp sz s = ret (p, s') \<and> card (free_pages s) \<le> card (free_pages s') + 2"
proof -
  obtain bl where bl: "heap_inv hp s bl" "HeapSpec.ready bl" using assms(1) by (auto simp: heap_even_def)
  show ?thesis
    using assms(2,3) by (intro kmalloc_small [OF bl(1) ready_can_grow [OF bl(2)]]) (simp_all add: even_size_def served_def)
qed

lemma call_state_pages: "free_pages (call_state W n arg s) = free_pages s" "free_pages (upd a v s) = free_pages s"
  by (simp_all add: call_state_def upd_def free_pages_def page_free_def [abs_def])

lemma kmalloc_service:
  fixes s :: "'a kernel_state_scheme"
  assumes act: "active W T LS K q s" and user: "can_trap W K s" and quiet: "no_switch s" and vars: "vars_ok W K"
    and live: "heap_even (k_heap_start W) s L" and sz: "even_size sz"
    and placed: "task_area T LS \<union> K \<subseteq> even_heap.kept (k_heap_start W) L"
  shows "kmalloc W sz s = fail (Panic ''out of memory.'') \<and> \<not> served sz s \<or>
    (\<exists>p n s'. kmalloc W sz s = ret (p, s') \<and> (served sz s \<longrightarrow> card (free_pages s) \<le> card (free_pages s') + 2) \<and> active W T LS K q s' \<and> same_tasks s s' \<and>
      heap_even (k_heap_start W) s' (insert (p, n) L) \<and> (p, n) \<notin> L \<and> fresh_block L (p, n) \<and> unat sz \<le> unat n \<and>
      16 dvd unat p \<and> 0xC0400000 \<le> unat p \<and> unat p + unat sz \<le> 2 ^ 32 \<and>
      (\<forall>c \<in> even_heap.kept (k_heap_start W) L - call_stack W K s. mem s' c = mem s c))"
proof -
  let ?hp = "k_heap_start W" and ?aux = "stack_var W s"
  define s0 where "s0 = upd ?aux sz s"
  define s1 where "s1 = call_state W SYSCALL_KMALLOC ?aux s0"
  note lay = tasks_invD(1) [OF activeD(1) [OF act]]
  have aux: "?aux \<in> K" "?aux \<notin> span (frame W s0) 64" using vars by (simp_all add: vars_ok_def)
  have K: "K \<subseteq> even_heap.kept ?hp L" using placed by blast
  have m0: "mem s0 c = mem s c" if "c \<notin> K" for c using that aux(1) by (auto simp: s0_def upd_def)
  have us: "?aux \<in> call_stack W K s" "call_stack W K s \<subseteq> K" using aux(1) call_stack_on [OF user vars] by (auto simp: call_stack_def)
  have user0: "can_trap W K s0" using user by (subst can_trap_same [of _ s]) (simp_all add: s0_def upd_def)
  have "heap_even ?hp s0 L"
    using heap_even_write [OF live, of "mem s0"] m0 K by (auto simp: s0_def upd_def)
  note cs = call_state_heap [OF user0 this K, where n = SYSCALL_KMALLOC and arg = ?aux, folded s1_def]
  have frm: "mem s1 c = mem s c" if "c \<notin> call_stack W K s" for c
  proof -
    have "c \<notin> span (frame W s0) 64" "c \<noteq> ?aux" using that us(1) call_stack_frame [OF user, of s0] by (auto simp: s0_def upd_def)
    then show ?thesis by (simp add: s1_def call_state_def push_frame_other s0_def upd_def)
  qed
  have arg: "mem s1 ?aux = sz" using push_frame_other [OF aux(2)] by (simp add: s1_def call_state_def s0_def)
  have k: "kmalloc W sz s = bnd (system_call W SYSCALL_KMALLOC ?aux s0) (\<lambda>s. ret (mem s ?aux, s))"
    by (simp add: kmalloc_def s0_def Let_def)
  have tr: "trap W SYSCALL_KMALLOC ?aux s0 = bnd (kern_kmalloc ?hp sz s1) (\<lambda>(p, s'). end_call W s0 (upd ?aux p s'))"
    using trap_kmalloc [OF user0, of ?aux] arg by (simp add: s1_def)
  have pages: "free_pages s1 = free_pages s" by (simp add: s1_def s0_def call_state_pages)
  show ?thesis
  proof (cases "kern_kmalloc ?hp sz s1 = fail (Panic ''out of memory.'')")
    case True
    then have "\<not> served sz s" using served_small [OF cs(1) sz] pages by (auto simp: served_def)
    then show ?thesis using True by (simp add: k tr system_call_def)
  next
    case False
    then obtain p n s2 where s2: "kern_kmalloc ?hp sz s1 = ret (p, s2)" "heap_even ?hp s2 (insert (p, n) L)" "(p, n) \<notin> L"
      "fresh_block L (p, n)" "unat sz \<le> unat n" "16 dvd unat p" "0xC0400000 \<le> unat p" "unat p + unat sz \<le> 2 ^ 32"
      "\<forall>x \<in> even_heap.kept ?hp L. mem s2 x = mem s1 x"
      using even_heap.alloc_kept [OF cs(1) sz] by blast
    let ?m = "(mem s2)(?aux := p)"
    have m: "?m c = mem s c" if "c \<in> even_heap.kept ?hp L" "c \<notin> call_stack W K s" for c
      using that s2(9) frm us by auto
    have "even_heap.kept ?hp L \<subseteq> even_heap.kept ?hp (insert (p, n) L)" by (auto simp: even_heap.kept_def)
    then have live2: "heap_even ?hp (s2\<lparr>mem := ?m\<rparr>) (insert (p, n) L)"
      using K aux(1) by (intro heap_even_write [OF s2(2)]) auto
    have rest: "rest_same (call_state W SYSCALL_KMALLOC ?aux s0) s2"
      using kmalloc_rest [of s1 ?hp sz] s2(1) by (simp add: yields_def s1_def)
    have act0: "active W T LS K q s0" using stack_write_active [OF act, of "mem s0"] m0 by (simp add: s0_def upd_def)
    have quiet0: "no_switch s0" using quiet by (simp add: no_switch_def s0_def upd_def)
    have "?m c = mem s0 c" if "c \<in> task_area T LS" for c
      using m m0 that placed task_area_stack [OF lay] us(2) by fastforce
    from end_call_state [OF act0 user0 quiet0 rest refl this live2] obtain s' where
      s': "end_call W s0 (s2\<lparr>mem := ?m\<rparr>) = ret s'" "mem s' = ?m" "active W T LS K q s'" "same_tasks s0 s'" "heap_even ?hp s' (insert (p, n) L)"
      "free_pages s' = free_pages s2" by blast
    have run: "running_task s' = running_task s0" "same_tasks s s'" using s'(4) by (simp_all add: same_tasks_def same_kernel_def s0_def upd_def)
    have "kmalloc W sz s = ret (p, s')"
      using tr s2(1) s'(1,2) run(1) by (simp add: k system_call_def upd_def)
    moreover have "served sz s \<longrightarrow> card (free_pages s) \<le> card (free_pages s') + 2"
      using served_small [OF cs(1) sz] s2(1) s'(6) pages by (simp add: served_def)
    ultimately show ?thesis using s'(2,3,5) run(2) s2(3-8) m by auto
  qed
qed

lemma call_stack_user: "user_mode W K s \<Longrightarrow> call_stack W K s = K"
  by (simp add: call_stack_def user_mode_def)

lemma kmalloc_user:
  fixes s :: "'a kernel_state_scheme"
  assumes act: "active W T LS K q s" and user: "user_mode W K s" and quiet: "no_switch s" and vars: "vars_ok W K"
    and live: "heap_even (k_heap_start W) s L" and sz: "even_size sz"
    and placed: "task_area T LS \<union> K \<subseteq> even_heap.kept (k_heap_start W) L"
  shows "kmalloc W sz s = fail (Panic ''out of memory.'') \<and> \<not> served sz s \<or>
    (\<exists>p n s'. kmalloc W sz s = ret (p, s') \<and> (served sz s \<longrightarrow> card (free_pages s) \<le> card (free_pages s') + 2) \<and> active W T LS K q s' \<and> same_tasks s s' \<and>
      heap_even (k_heap_start W) s' (insert (p, n) L) \<and> (p, n) \<notin> L \<and> fresh_block L (p, n) \<and> unat sz \<le> unat n \<and>
      16 dvd unat p \<and> 0xC0400000 \<le> unat p \<and> unat p + unat sz \<le> 2 ^ 32 \<and>
      (\<forall>c \<in> even_heap.kept (k_heap_start W) L - K. mem s' c = mem s c))"
  using kmalloc_service [OF act can_trap_user [OF user] quiet vars live sz placed] unfolding call_stack_user [OF user] .

lemma kfree_service:
  fixes s :: "'a kernel_state_scheme"
  assumes act: "active W T LS K q s" and user: "can_trap W K s" and quiet: "no_switch s"
    and live: "heap_even (k_heap_start W) s L" and b: "(p, n) \<in> L"
    and placed: "task_area T LS \<union> K \<subseteq> even_heap.kept (k_heap_start W) (L - {(p, n)})"
  shows "\<exists>s'. kfree W p s = ret s' \<and> active W T LS K q s' \<and> same_tasks s s' \<and> heap_even (k_heap_start W) s' (L - {(p, n)}) \<and>
      (\<forall>c \<in> even_heap.kept (k_heap_start W) (L - {(p, n)}) - K. mem s' c = mem s c)"
proof -
  let ?hp = "k_heap_start W" and ?L = "L - {(p, n)}"
  define s1 where "s1 = call_state W SYSCALL_KFREE p s"
  note lay = tasks_invD(1) [OF activeD(1) [OF act]]
  have sub: "even_heap.kept ?hp ?L \<subseteq> even_heap.kept ?hp L" by (auto simp: even_heap.kept_def)
  then have K: "K \<subseteq> even_heap.kept ?hp L" using placed by blast
  note cs = call_state_heap [OF user live K, where n = SYSCALL_KFREE and arg = p, folded s1_def]
  obtain s2 where s2: "kern_kfree ?hp p s1 = ret s2" "heap_even ?hp s2 ?L" "\<forall>x \<in> even_heap.kept ?hp ?L. mem s2 x = mem s1 x"
    using even_heap.release_kept [OF cs(1) b] by blast
  have m: "mem s2 c = mem s c" if "c \<in> even_heap.kept ?hp ?L" "c \<notin> K" for c using that s2(3) cs(2) by auto
  have rest: "rest_same (call_state W SYSCALL_KFREE p s) s2"
    using kfree_rest [of s1 ?hp p] s2(1) by (simp add: yields_def s1_def)
  have "mem s2 c = mem s c" if "c \<in> task_area T LS" for c
    using m that placed task_area_stack [OF lay] by fastforce
  moreover have "s2 = s2\<lparr>mem := mem s2\<rparr>" by simp
  ultimately obtain s' where
    s': "end_call W s s2 = ret s'" "mem s' = mem s2" "active W T LS K q s'" "same_tasks s s'" "heap_even ?hp s' ?L"
    using end_call_state [OF act user quiet rest _ _ s2(2)] by blast
  have "running_task s' = running_task s" using s'(4) by (simp add: same_tasks_def same_kernel_def)
  then have "kfree W p s = ret s'"
    using trap_kfree [OF user, of p] s2(1) s'(1) by (simp add: kfree_def system_call_def s1_def)
  then show ?thesis using s'(2-5) m by auto
qed

end
