(* ===== verification/NewTask.thy ===== *)
theory NewTask
  imports HeapCalls
begin

text \<open>
  \<open>create_task\<close>: with the heap as a service, a new task is a block of the heap apart from all other tasks, with the register
  frame from which it starts, a stack of its own, and its place in the ready list by its priority. The invariant of the tasks
  holds with the new task in it. From the state that the boot leaves, \<open>init\<close> makes the console and the timer task.
\<close>

section \<open>Writes of bytes\<close>

lemma memcpy_outside: "(\<And>i. i < unat len \<Longrightarrow> cell_of (dest + of_nat i) \<noteq> c) \<Longrightarrow> memcpy m dest src len c = m c"
proof (induction m dest src len rule: memcpy.induct)
  case (1 m dest src len)
  show ?case
  proof (cases "len = 0")
    case False
    have i: "cell_of (dest + 1 + of_nat i) \<noteq> c" if "i < unat (len - 1)" for i
    proof -
      have "Suc i < unat len" using that False by (simp add: unat_minus_one)
      then have "cell_of (dest + of_nat (Suc i)) \<noteq> c" by (rule "1.prems")
      then show ?thesis by (simp add: ac_simps)
    qed
    have "cell_of dest \<noteq> c" using "1.prems" [of 0] False by (simp add: unat_gt_0)
    then show ?thesis using "1.IH" [OF False i] False by (subst memcpy.simps) (simp add: store8_other_cell)
  qed (simp add: memcpy.simps)
qed

lemma memcpy_span: "aligned dest \<Longrightarrow> c \<notin> span dest (unat len) \<Longrightarrow> memcpy m dest src len c = m c"
  using cell_of_span [of dest] by (intro memcpy_outside) metis

lemma memset_span: "aligned dest \<Longrightarrow> c \<notin> span dest (unat len) \<Longrightarrow> memset m dest v len c = m c"
  by (simp add: memset_write_seq) (rule write_seq_cells, simp_all)

section \<open>The record of a new task\<close>

lemma upd_mem: "mem (upd a v s) = (mem s)(a := v)" "upd a v (s\<lparr>mem := m\<rparr>) = s\<lparr>mem := m(a := v)\<rparr>" "mem (s\<lparr>mem := m\<rparr>) = m"
  "s\<lparr>mem := m, mem := m'\<rparr> = s\<lparr>mem := m'\<rparr>"
  by (simp_all add: upd_def)

definition task_fields :: "cells \<Rightarrow> u32 \<Rightarrow> u32 \<Rightarrow> u32 \<Rightarrow> u32 \<Rightarrow> u32 \<Rightarrow> cells" where
  "task_fields m t code pri stack tos =
    (let m = (memset m t 0 sizeof_task)(task_state t + 44 := code, task_state t + 56 := tos, task_state t := 0x23,
           task_state t + 60 := 0x23, task_state t + 48 := 0x1B, task_state t + 52 := 0x3200, stack_end t := stack, task_pri t := pri)
     in m(task_flags t := m (task_flags t) OR TS_READY))"

definition task_image :: "cells \<Rightarrow> u32 \<Rightarrow> u32 \<Rightarrow> u32 \<Rightarrow> u32 \<Rightarrow> u32 \<Rightarrow> u32 \<Rightarrow> cells" where
  "task_image m t code name pri stack tos = memcpy (task_fields m t code pri stack tos) (task_name t) name 32"

lemma task_image_writes:
  "(let s = s\<lparr>mem := memset (mem s) t 0 sizeof_task\<rparr>;
        s = upd (task_state t + 44) code s;
        s = upd (task_state t + 56) tos s;
        s = upd (task_state t) 0x23 s;
        s = upd (task_state t + 60) 0x23 s;
        s = upd (task_state t + 48) 0x1B s;
        s = upd (task_state t + 52) 0x3200 s;
        s = upd (stack_end t) stack s;
        s = upd (task_pri t) pri s;
        s = upd (task_flags t) (mem s (task_flags t) OR TS_READY) s;
        s = s\<lparr>mem := memcpy (mem s) (task_name t) name 32\<rparr>
    in bnd (enter_list R t (forbid s)) f) =
   bnd (enter_list R t (forbid (s\<lparr>mem := task_image (mem s) t code name pri stack tos\<rparr>))) f"
  by (simp only: task_image_def task_fields_def Let_def upd_mem)

lemma create_task_image:
  "create_task W code name pri stack_size s =
    bnd (kmalloc W sizeof_task s) (\<lambda>(t, s).
    bnd (kmalloc W stack_size s) (\<lambda>(stack, s).
      if t = 0 then fail (Panic ''allocating task - not enough memory'')
      else if stack = 0 then fail (Panic ''allocating stack - not enough memory'')
      else bnd (enter_list (tasks_ready W) t (forbid (s\<lparr>mem := task_image (mem s) t code name pri stack (stack + stack_size)\<rparr>)))
             (\<lambda>s. ret (t, permit s))))"
  by (simp only: create_task_def task_image_writes)

text \<open>The register frame of a task that has not run: everything 0 but the segments, the entry point, the flags and the stack.\<close>

definition start_frame :: "u32 \<Rightarrow> u32 \<Rightarrow> u32 list" where
  "start_frame code tos = [0x23, 0, 0, 0, 0, 0, 0, 0, 0, 0, 0, code, 0x1B, 0x3200, tos, 0x23]"

lemma task_fields_outside:
  assumes "aligned t" and c: "c \<notin> span t 140"
  shows "task_fields m t code pri stack tos c = m c"
proof -
  have ne: "c \<noteq> t + k" if "unat k < 140" for k using c that by auto
  have "memset m t 0 sizeof_task c = m c" using c by (intro memset_span [OF assms(1)]) (simp add: sizeof_task_def)
  then show ?thesis using ne [of 12] ne [of 48] ne [of 92] ne [of 96] ne [of 100] ne [of 104] ne [of 108] ne [of 112] ne [of 116]
    by (simp add: task_fields_def Let_def task_defs add.assoc)
qed

text \<open>The name is copied when its bytes are not in the new task.\<close>

lemma task_image_name:
  assumes t: "aligned t" and src: "\<And>j. j < 32 \<Longrightarrow> cell_of (name + of_nat j) \<notin> span t 140" and i: "i < 32"
  shows "load8 (task_image m t code name pri stack tos) (task_name t + of_nat i) = load8 m (name + of_nat i)"
proof -
  have al: "aligned (t + 16)" using t by (intro aligned_add) (simp_all add: aligned_unat)
  have "32 \<le> unat (t + 16 - name)"
  proof (rule ccontr)
    assume "\<not> 32 \<le> unat (t + 16 - name)"
    then have "cell_of (name + of_nat (unat (t + 16 - name))) \<notin> span t 140" by (intro src) simp
    then have "cell_of (t + 16) \<notin> span t 140" by simp
    moreover have "cell_of (t + 16) = t + 16" using cell_of_aligned_add [OF al, of 0] by simp
    ultimately show False by simp
  qed
  moreover have "unat (of_nat i :: u32) = i" using i by (subst unat_of_nat) simp
  ultimately have "load8 (task_image m t code name pri stack tos) (t + 16 + of_nat i) =
      load8 (task_fields m t code pri stack tos) (name + of_nat i)"
    using i unfolding task_image_def task_name_def by (subst memcpy_correct) simp_all
  also have "\<dots> = load8 m (name + of_nat i)" by (intro load8_cong task_fields_outside [OF t src [OF i]])
  finally show ?thesis by (simp add: task_name_def)
qed

lemma task_image_cells:
  assumes "aligned t"
  shows "c \<notin> span t 140 \<Longrightarrow> task_image m t code name pri stack tos c = m c"
    and "frame_at (task_image m t code name pri stack tos) (task_state t) = start_frame code tos"
    and "task_image m t code name pri stack tos (task_pri t) = pri"
    and "task_image m t code name pri stack tos (stack_end t) = stack"
    and "task_image m t code name pri stack tos (task_flags t) = TS_READY"
    and "task_image m t code name pri stack tos (sigs_waiting t) = 0"
proof -
  let ?m = "memset m t 0 sizeof_task"
  have al: "aligned (t + 16)" using assms by (intro aligned_add) (simp_all add: aligned_unat)
  have z: "?m (t + k) = 0" if "aligned k" "unat k < 140" for k
    using that assms aligned_unat [of 140] by (subst memset_zero_cell) (simp_all add: sizeof_task_def aligned_add)
  have name: "memcpy m' (t + 16) name 32 (t + k) = m' (t + k)" if "\<not> (16 \<le> unat k \<and> unat k < 48)" for k m'
  proof (rule memcpy_span [OF al])
    have "unat (k - 16) < 32 \<Longrightarrow> False" using that by (auto simp: unat_sub_if' split: if_splits)
    moreover have "t + k - (t + 16) = k - 16" by simp
    ultimately have "t + k \<notin> span (t + 16) 32" by (auto simp: span_def)
    then show "t + k \<notin> span (t + 16) (unat (32 :: u32))" by simp
  qed
  show "c \<notin> span t 140 \<Longrightarrow> task_image m t code name pri stack tos c = m c"
  proof -
    assume c: "c \<notin> span t 140"
    have "span (t + 16) 32 \<subseteq> span t 140" by (rule span_shift) simp
    then have "memcpy m' (t + 16) name 32 c = m' c" for m' using c by (intro memcpy_span [OF al]) auto
    then show ?thesis using task_fields_outside [OF assms c] by (simp add: task_image_def task_name_def)
  qed
  have r: "[0..<16] = [0, 1, 2, 3, 4, 5, 6, 7, 8, 9, 10, 11, 12, 13, 14, 15::nat]" by (simp add: upt_rec)
  note img = task_image_def task_fields_def Let_def task_defs add.assoc name z aligned_unat
  show "frame_at (task_image m t code name pri stack tos) (task_state t) = start_frame code tos"
    using name [of 48] z [of 48] by (simp add: frame_at_def r start_frame_def img)
  show "task_image m t code name pri stack tos (task_pri t) = pri" "task_image m t code name pri stack tos (stack_end t) = stack"
    "task_image m t code name pri stack tos (task_flags t) = TS_READY" "task_image m t code name pri stack tos (sigs_waiting t) = 0"
    by (simp_all add: img)
qed

section \<open>The invariant with the new task\<close>

lemma lists_ok_mono: "lists_ok T LS m q \<Longrightarrow> T \<subseteq> T' \<Longrightarrow> lists_ok T' LS m q"
  unfolding lists_ok_def by blast

lemma layout_ok_insert:
  assumes "layout_ok T LS K" and "aligned t" "0 \<notin> span t 140" "span t 140 \<inter> (task_area T LS \<union> K) = {}"
  shows "layout_ok (insert t T) LS K"
proof -
  have T: "span t 140 \<inter> span t' 140 = {}" if "t' \<in> T" for t' using assms(4) that by (auto simp: task_area_def)
  have L: "span t 140 \<inter> span L 12 = {}" if "L \<in> LS" for L using assms(4) that by (auto simp: task_area_def)
  have K: "span t 140 \<inter> K = {}" using assms(4) by blast
  show ?thesis using assms(1-3) K T L T [THEN trans [OF Int_commute]] by (simp add: layout_ok_def)
qed

lemma new_task_active:
  fixes s :: "'a kernel_state_scheme"
  assumes act: "active W T LS K q s" and lay: "layout_ok (insert t T) LS K" and t: "t \<notin> T" and R: "R = tasks_ready W"
    and img1: "\<And>c. c \<notin> span t 140 \<Longrightarrow> m c = mem s c" and img5: "m (task_flags t) = TS_READY" and img6: "m (sigs_waiting t) = 0"
  shows "\<exists>m'. enqueue m R t = Some m' \<and> (\<forall>c. c \<notin> link_area (insert t T) LS \<longrightarrow> m' c = m c) \<and>
    active W (insert t T) LS K (q(R := ins_pri (node_pri m) t (q R))) (s\<lparr>mem := m'\<rparr>)"
proof -
  let ?T = "insert t T" and ?q = "q(R := ins_pri (node_pri m) t (q R))"
  note iv = tasks_invD [OF activeD(1) [OF act]] and act' = activeD [OF act]
  have RL: "R \<in> LS" using iv(2) R by simp
  have apart: "span t 140 \<inter> span t' 140 = {}" if "t' \<in> T" for t' using t that by (intro layout_okD(4) [OF lay]) auto
  have old: "m c = mem s c" if "c \<in> span t' 140" "t' \<in> T" for c t' using apart [OF that(2)] that(1) by (intro img1) blast
  have oldL: "m c = mem s c" if "c \<in> span L 12" "L \<in> LS" for c L
    using layout_okD(5) [OF lay insertI1 that(2)] that(1) by (intro img1) blast
  have "span t' 8 \<subseteq> span t' 140" for t' by (rule span_mono) simp
  then have "m c = mem s c" if "c \<in> link_area T LS" for c using that old oldL unfolding link_area_def by blast
  moreover have "m (t' + 12) = mem s (t' + 12)" if "t' \<in> T" for t' using that by (intro old) simp_all
  ultimately have "lists_ok T LS m q" by (rule lists_ok_frame [OF iv(5)])
  then have "lists_ok ?T LS m q" by (rule lists_ok_mono) blast
  moreover have notin: "t \<notin> set (q L)" if "L \<in> LS" for L using lists_okD(3) [OF iv(5) that] t by blast
  ultimately obtain m' where m': "enqueue m R t = Some m'" "lists_ok ?T LS m' ?q" "\<forall>c. c \<notin> link_area ?T LS \<longrightarrow> m' c = m c"
    using lists_ok_enqueue [OF lay _ RL insertI1] by blast
  have field: "m' (t' + k) = m (t' + k)" if "t' \<in> ?T" "8 \<le> unat k" "unat k < 140" for t' k
    using layout_field(1) [OF lay that] m'(3) by blast
  have f_old: "m' (task_flags t') = mem s (task_flags t')" "m' (sigs_waiting t') = mem s (sigs_waiting t')" if "t' \<in> T" for t'
    using field [of t' 116] field [of t' 120] old [of "t' + 116" t'] old [of "t' + 120" t'] that by (simp_all add: task_defs)
  have f_new: "m' (task_flags t) = TS_READY" "m' (sigs_waiting t) = 0"
    using field [of t 116] field [of t 120] img5 img6 by (simp_all add: task_defs)
  have "\<not> waiting LS R ?q t" using notin by (auto simp: waiting_def)
  then have "task_ok m' (waiting LS R ?q t') t'" if "t' \<in> ?T" for t'
    using that f_new f_old iv(7) [of t'] by (cases "t' = t") (simp_all add: task_ok_def R)
  then have "tasks_inv W ?T LS K ?q (s\<lparr>mem := m'\<rparr>)" using lay iv(2-6) m'(2) by (simp add: tasks_inv_def R)
  moreover have "listed LS ?q = insert t (listed LS q)"
    using listed_split [OF RL, of q] by (simp add: listed_upd [OF RL] set_ins_pri)
  moreover have "TS_READY AND TS_RUN = 0" by (simp add: TS_READY_def TS_RUN_def)
  then have "run_flags ?T m' (Some (running_task s))"
    using act'(4) f_old f_new iv(6) t by (auto simp: run_flags_def)
  ultimately have "active W ?T LS K ?q (s\<lparr>mem := m'\<rparr>)" using act'(2,3) iv(6) t by (auto simp: active_def)
  then show ?thesis using m'(1,3) by blast
qed

section \<open>create\_task\<close>

text \<open>A block that the heap gives can hold a task.\<close>

lemma block_layout:
  assumes lay: "layout_ok T LS K" and placed: "task_area T LS \<union> K \<subseteq> even_heap.kept hp L"
    and b: "fresh_block L (t, n)" "140 \<le> unat n" "16 dvd unat t" "0xC0400000 \<le> unat t" "unat t + 140 \<le> 2 ^ 32"
  shows "span t 140 \<inter> even_heap.kept hp L = {}" and "span t 140 \<subseteq> block_mem (t, n)"
    and "layout_ok (insert t T) LS K" and "t \<notin> T"
proof -
  have sp: "unat t \<le> unat x \<and> unat x < unat t + 140" if "x \<in> span t 140" for x
  proof -
    from span_split [OF that] obtain i where i: "x = t + of_nat i" "i < 140" by blast
    then have "unat x = unat t + i" using b(5) by (simp add: unat_word_ariths unat_of_nat)
    then show ?thesis using i by simp
  qed
  show mem: "span t 140 \<subseteq> block_mem (t, n)" using sp b(2) by (fastforce simp: block_mem_def)
  have "span t 140 \<subseteq> heap_own hp" using sp b(4) by (fastforce simp: heap_own_def)
  then show apart: "span t 140 \<inter> even_heap.kept hp L = {}"
    using mem b(1) unfolding even_heap.kept_def fresh_block_def by blast
  have "unat t mod 4 = 0" using b(3) by presburger
  then have al: "aligned t" by (simp add: aligned_unat)
  have z: "0 \<notin> span t 140" using sp [of 0] b(4) by auto
  have "span t 140 \<inter> (task_area T LS \<union> K) = {}" using apart placed by blast
  then show "layout_ok (insert t T) LS K" by (rule layout_ok_insert [OF lay al z])
  have "t \<in> span t 140" by simp
  then show "t \<notin> T" using apart placed unfolding task_area_def by blast
qed

lemma same_tasks_trans: "same_tasks s s1 \<Longrightarrow> same_tasks s1 s2 \<Longrightarrow> same_tasks s s2"
  by (simp add: same_tasks_def same_kernel_def)

lemma same_tasks_ready:
  assumes "same_tasks s s'"
  shows "user_mode W K s' = user_mode W K s" "no_switch s' = no_switch s" "counters_ok s' = counters_ok s" "trap_ready W K s' = trap_ready W K s"
    "can_trap W K s' = can_trap W K s" "call_stack W K s' = call_stack W K s"
  using assms by (simp_all add: same_tasks_def same_kernel_def user_mode_def no_switch_def counters_ok_def trap_ready_def can_trap_def in_kernel_def
    call_stack_def)

text \<open>The name of a task is a string of 32 readable bytes outside the heap, the tasks' links and the stack.\<close>

definition readable :: "u32 set \<Rightarrow> u32 \<Rightarrow> bool" where
  "readable A name \<longleftrightarrow> (\<forall>i < 32. cell_of (name + of_nat i) \<in> A)"

definition new_task :: "'a kernel_state_scheme \<Rightarrow> 'a kernel_state_scheme \<Rightarrow> u32 \<Rightarrow> u32 \<Rightarrow> u32 \<Rightarrow> u32 \<Rightarrow> u32 \<Rightarrow> u32 \<Rightarrow> bool" where
  "new_task s s' t code name pri stack stack_size \<longleftrightarrow>
    frame_at (mem s') (task_state t) = start_frame code (stack + stack_size) \<and> mem s' (task_pri t) = pri \<and>
    mem s' (stack_end t) = stack \<and> (\<forall>i < 32. load8 (mem s') (task_name t + of_nat i) = load8 (mem s) (name + of_nat i))"

lemma create_task_service:
  fixes s :: "'a kernel_state_scheme"
  assumes act: "active W T LS K q s" and user: "user_mode W K s" and quiet: "no_switch s" and small: "counters_ok s"
    and vars: "vars_ok W K" and live: "heap_even (k_heap_start W) s L" and sz: "even_size stack_size"
    and placed: "task_area T LS \<union> K \<subseteq> even_heap.kept (k_heap_start W) L"
    and name: "readable (even_heap.kept (k_heap_start W) L - K) name"
  shows "create_task W code name pri stack_size s = fail (Panic ''out of memory.'') \<and> \<not> (unat stack_size \<le> 2032 \<and> 4 \<le> card (free_pages s)) \<or>
    (\<exists>t n stack k s'. create_task W code name pri stack_size s = ret (t, s') \<and>
      (unat stack_size \<le> 2032 \<and> 4 \<le> card (free_pages s) \<longrightarrow> card (free_pages s) \<le> card (free_pages s') + 4) \<and> t \<notin> T \<and> (t, n) \<notin> L \<and>
      active W (insert t T) LS K (q(tasks_ready W := ins_pri (node_pri (mem s')) t (q (tasks_ready W)))) s' \<and> same_tasks s s' \<and>
      heap_even (k_heap_start W) s' (insert (stack, k) (insert (t, n) L)) \<and> unat stack_size \<le> unat k \<and>
      (stack, k) \<notin> insert (t, n) L \<and>
      task_area (insert t T) LS \<union> K \<subseteq> even_heap.kept (k_heap_start W) (insert (stack, k) (insert (t, n) L)) \<and>
      140 \<le> unat n \<and> new_task s s' t code name pri stack stack_size \<and>
      (\<forall>c \<in> even_heap.kept (k_heap_start W) L - K - link_area T LS. mem s' c = mem s c))"
proof (cases "kmalloc W sizeof_task s = fail (Panic ''out of memory.'')")
  case True
  have "even_size sizeof_task" by (simp add: even_size_def sizeof_task_def align_size_def)
  from kmalloc_user [OF act user quiet vars live this placed] True have "\<not> served sizeof_task s" by auto
  then have "\<not> 4 \<le> card (free_pages s)" by (simp add: served_def sizeof_task_def)
  then show ?thesis using True by (simp add: create_task_image)
next
  case False
  let ?hp = "k_heap_start W" and ?R = "tasks_ready W"
  note lay = tasks_invD(1) [OF activeD(1) [OF act]]
  have "even_size sizeof_task" by (simp add: even_size_def sizeof_task_def align_size_def)
  from kmalloc_user [OF act user quiet vars live this placed] False obtain t n s1 where
    s1: "kmalloc W sizeof_task s = ret (t, s1)" "active W T LS K q s1" "same_tasks s s1" "heap_even ?hp s1 (insert (t, n) L)" "(t, n) \<notin> L"
    and b1: "fresh_block L (t, n)" "unat sizeof_task \<le> unat n" "16 dvd unat t" "0xC0400000 \<le> unat t" "unat t + unat sizeof_task \<le> 2 ^ 32"
    and m1: "\<forall>c \<in> even_heap.kept ?hp L - K. mem s1 c = mem s c"
    and p1: "served sizeof_task s \<longrightarrow> card (free_pages s) \<le> card (free_pages s1) + 2"
    by (elim disjE exE conjE) (simp, rule that)
  let ?L1 = "insert (t, n) L"
  have sub1: "even_heap.kept ?hp L \<subseteq> even_heap.kept ?hp ?L1" by (auto simp: even_heap.kept_def)
  have placed1: "task_area T LS \<union> K \<subseteq> even_heap.kept ?hp ?L1" using placed sub1 by blast
  have "user_mode W K s1" "no_switch s1" using user quiet same_tasks_ready [OF s1(3)] by simp_all
  note second = kmalloc_user [OF s1(2) this vars s1(4) sz placed1]
  have p1': "card (free_pages s) \<le> card (free_pages s1) + 2" if "4 \<le> card (free_pages s)"
    using p1 that by (simp add: served_def sizeof_task_def)
  show ?thesis
  proof (cases "kmalloc W stack_size s1 = fail (Panic ''out of memory.'')")
    case True
    then have "\<not> served stack_size s1" using second by auto
    then have "\<not> (unat stack_size \<le> 2032 \<and> 4 \<le> card (free_pages s))" using p1' by (auto simp: served_def)
    then show ?thesis using True s1(1) by (simp add: create_task_image)
  next
    case False
    from second False obtain stack k s2 where
      s2: "kmalloc W stack_size s1 = ret (stack, s2)" "active W T LS K q s2" "same_tasks s1 s2" "heap_even ?hp s2 (insert (stack, k) ?L1)"
        "(stack, k) \<notin> ?L1"
      and b2: "unat stack_size \<le> unat k" "0xC0400000 \<le> unat stack" and m2: "\<forall>c \<in> even_heap.kept ?hp ?L1 - K. mem s2 c = mem s1 c"
      and p2: "served stack_size s1 \<longrightarrow> card (free_pages s1) \<le> card (free_pages s2) + 2"
      by (elim disjE exE conjE) (simp, rule that)
    let ?L2 = "insert (stack, k) ?L1" and ?T = "insert t T"
    define m where "m = task_image (mem s2) t code name pri stack (stack + stack_size)"
    have big: "140 \<le> unat n" and top: "unat t + 140 \<le> 2 ^ 32" using b1(2,5) by (simp_all add: sizeof_task_def)
    note bl = block_layout [OF lay placed b1(1) big b1(3,4) top]
    have al: "aligned t" by (rule layout_okD(1) [OF bl(3) insertI1])
    note img = task_image_cells [OF al, where m = "mem s2" and code = code and name = name and pri = pri and stack = stack
        and tos = "stack + stack_size", folded m_def]
    obtain m' where m': "enqueue m ?R t = Some m'" "\<forall>c. c \<notin> link_area ?T LS \<longrightarrow> m' c = m c"
      "active W ?T LS K (q(?R := ins_pri (node_pri m) t (q ?R))) (s2\<lparr>mem := m'\<rparr>)"
      using new_task_active [OF s2(2) bl(3,4) refl img(1,5,6)] by blast
    let ?s' = "s2\<lparr>mem := m'\<rparr>"
    have small2: "counters_ok s2" using small same_tasks_ready(3) [OF same_tasks_trans [OF s1(3) s2(3)]] by simp
    have e: "enter_list ?R t (forbid (s2\<lparr>mem := m\<rparr>)) = ret (forbid ?s')" using m'(1) by (simp add: enter_list_def forbid_def)
    have p: "permit (forbid ?s') = ?s'" using small2 by (intro permit_forbid) (simp_all add: counters_ok_def)
    have "t \<noteq> 0" "stack \<noteq> 0" using b1(4) b2(2) by auto
    then have r: "create_task W code name pri stack_size s = ret (t, ?s')"
      using s1(1) s2(1) e p by (simp add: create_task_image m_def)
    have link: "link_area ?T LS \<subseteq> link_area T LS \<union> span t 140" using span_mono [of 8 140 t] by (auto simp: link_area_def)
    have new: "span t 140 \<subseteq> even_heap.kept ?hp ?L2" using bl(2) by (auto simp: even_heap.kept_def)
    have sub2: "even_heap.kept ?hp L \<subseteq> even_heap.kept ?hp ?L2" by (auto simp: even_heap.kept_def)
    have area: "task_area ?T LS = span t 140 \<union> task_area T LS" by (auto simp: task_area_def)
    have placed2: "task_area ?T LS \<union> K \<subseteq> even_heap.kept ?hp ?L2" using placed sub2 new by (simp add: area) blast
    have la: "link_area T LS \<subseteq> task_area T LS" using span_mono [of 8 140] by (fastforce simp: link_area_def task_area_def)
    have out: "m' c = mem s2 c" if "c \<notin> link_area T LS" "c \<notin> span t 140" for c
    proof -
      have "c \<notin> link_area ?T LS" using that link by blast
      then show ?thesis using m'(2) img(1) [OF that(2)] by simp
    qed
    have "link_area T LS \<union> span t 140 \<subseteq> even_heap.kept ?hp ?L2" using new placed2 la unfolding area by blast
    then have "m' c = mem s2 c" if "c \<notin> even_heap.kept ?hp ?L2" for c using that by (intro out) blast+
    then have live': "heap_even ?hp ?s' ?L2" by (rule heap_even_write [OF s2(4)])
    have same: "same_tasks s ?s'" using same_tasks_trans [OF s1(3) s2(3)] by (simp add: same_tasks_def same_kernel_def)
    have f: "m' (t + d) = m (t + d)" if "8 \<le> unat d" "unat d < 140" for d
      using layout_field(1) [OF bl(3) insertI1 that] m'(2) by blast
    have pri: "node_pri m x = node_pri m' x" if "x \<in> ?T" for x
      using layout_field(1) [OF bl(3) that, of 12] m'(2) by (simp add: node_pri_def)
    moreover have "set (q ?R) \<subseteq> T" using tasks_invD(2,5) [OF activeD(1) [OF act]] lists_okD(3) by blast
    ultimately have "ins_pri (node_pri m) t (q ?R) = ins_pri (node_pri m') t (q ?R)" by (intro ins_pri_cong) auto
    then have act': "active W ?T LS K (q(?R := ins_pri (node_pri (mem ?s')) t (q ?R))) ?s'" using m'(3) by simp
    have keep: "m' c = mem s c" if "c \<in> even_heap.kept ?hp L - K - link_area T LS" for c
    proof -
      have c: "c \<in> even_heap.kept ?hp L - K" "c \<in> even_heap.kept ?hp ?L1 - K" "c \<notin> span t 140" using that bl(1) sub1 by blast+
      then have "m' c = mem s2 c" using that by (intro out) blast+
      then show ?thesis using bspec [OF m2 c(2)] bspec [OF m1 c(1)] by simp
    qed
    have new': "new_task s ?s' t code name pri stack stack_size"
    proof -
      have "frame_at m' (task_state t) = frame_at m (task_state t)"
        using layout_state(1) [OF bl(3) insertI1] m'(2) by (intro frame_at_frame) blast
      moreover have "load8 m' (task_name t + of_nat i) = load8 (mem s) (name + of_nat i)" if i: "i < 32" for i
      proof -
        have apart: "cell_of (name + of_nat j) \<in> even_heap.kept ?hp L - K" if "j < 32" for j using name that by (simp add: readable_def)
        have "cell_of (t + 16 + of_nat i) \<in> span (t + 16) 32" using al by (intro cell_of_span [OF aligned_add] i) (simp_all add: aligned_unat)
        from span_split [OF this] obtain j where j: "cell_of (t + 16 + of_nat i) = t + (16 + of_nat j)" "j < 32"
          unfolding add.assoc by blast
        have "unat (16 + of_nat j :: u32) = 16 + j" using j(2) by (simp add: unat_word_ariths unat_of_nat)
        then have "m' (cell_of (t + 16 + of_nat i)) = m (cell_of (t + 16 + of_nat i))" using j by (simp only: j(1), intro f) simp_all
        then have "load8 m' (t + 16 + of_nat i) = load8 m (t + 16 + of_nat i)" by (rule load8_cong)
        also have "\<dots> = load8 (mem s2) (name + of_nat i)"
          unfolding m_def task_name_def [of t, symmetric] using apart bl(1) by (intro task_image_name [OF al _ i]) blast
        also have "\<dots> = load8 (mem s) (name + of_nat i)" 
        proof (rule load8_cong)
          have "cell_of (name + of_nat i) \<in> even_heap.kept ?hp ?L1 - K" using apart [OF i] sub1 by blast
          then show "mem s2 (cell_of (name + of_nat i)) = mem s (cell_of (name + of_nat i))"
            using bspec [OF m2] bspec [OF m1 apart [OF i]] by simp
        qed
        finally show ?thesis by (simp add: task_name_def)
      qed
      moreover have "m' (task_pri t) = pri" "m' (stack_end t) = stack" using f [of 12] f [of 112] img(3,4) by (simp_all add: task_defs)
      ultimately show ?thesis using img(2) by (simp add: new_task_def)
    qed
    have keep': "\<forall>c \<in> even_heap.kept ?hp L - K - link_area T LS. mem ?s' c = mem s c" using keep by simp
    have "free_pages ?s' = free_pages s2" by (simp add: free_pages_def page_free_def [abs_def])
    then have pages: "unat stack_size \<le> 2032 \<and> 4 \<le> card (free_pages s) \<longrightarrow> card (free_pages s) \<le> card (free_pages ?s') + 4"
      using p1' p2 by (auto simp: served_def)
    show ?thesis
      by (rule disjI2, rule exI [of _ t], rule exI [of _ n], rule exI [of _ stack], rule exI [of _ k], rule exI [of _ ?s'])
        (intro conjI r pages bl(4) s1(5) act' same live' b2(1) s2(5) placed2 big new' keep')
  qed
qed

section \<open>Two tasks, and the first switch\<close>

lemma kept_mono: "even_heap.kept hp L \<subseteq> even_heap.kept hp (insert b L)"
  by (auto simp: even_heap.kept_def)

lemma spawn_two:
  fixes s :: "'a kernel_state_scheme"
  assumes act: "active W T LS K q s" and user: "user_mode W K s" and quiet: "no_switch s" and small: "counters_ok s"
    and vars: "vars_ok W K" and live: "heap_even (k_heap_start W) s L" and sz: "even_size n1" "even_size n2"
    and placed: "task_area T LS \<union> K \<subseteq> even_heap.kept (k_heap_start W) L"
    and name: "readable (even_heap.kept (k_heap_start W) L - K) name1" "readable (even_heap.kept (k_heap_start W) L - K) name2"
    and q: "q (tasks_ready W) = []" and pri: "sint (pri1 :: u32) < sint (pri2 :: u32)"
    and pages: "unat n1 \<le> 2032" "unat n2 \<le> 2032" "8 \<le> card (free_pages s)"
  shows "\<exists>t1 s1 t2 s2 b1 b2 k1 k2 c1 c2. create_task W code1 name1 pri1 n1 s = ret (t1, s1) \<and> create_task W code2 name2 pri2 n2 s1 = ret (t2, s2) \<and> t1 \<notin> T \<and> t2 \<notin> insert t1 T \<and> same_tasks s s2 \<and>
        active W (insert t2 (insert t1 T)) LS K (q(tasks_ready W := [t2, t1])) s2 \<and> 
        heap_even (k_heap_start W) s2 (insert (k2, c2) (insert (t2, b2) (insert (k1, c1) (insert (t1, b1) L)))) \<and>
        task_area (insert t2 (insert t1 T)) LS \<union> K \<subseteq> even_heap.kept (k_heap_start W) (insert (k2, c2) (insert (t2, b2) (insert (k1, c1) (insert (t1, b1) L)))) \<and>
        frame_at (mem s2) (task_state t1) = start_frame code1 (k1 + n1) \<and> frame_at (mem s2) (task_state t2) = start_frame code2 (k2 + n2) \<and>
        140 \<le> unat b1 \<and> 140 \<le> unat b2 \<and> unat n1 \<le> unat c1 \<and> unat n2 \<le> unat c2 \<and>
        (t1, b1) \<notin> L \<and> (k1, c1) \<notin> insert (t1, b1) L \<and> (t2, b2) \<notin> insert (k1, c1) (insert (t1, b1) L) \<and>
        (k2, c2) \<notin> insert (t2, b2) (insert (k1, c1) (insert (t1, b1) L)) \<and> card (free_pages s) \<le> card (free_pages s2) + 8"
proof -
  let ?R = "tasks_ready W" and ?hp = "k_heap_start W"
  from create_task_service [OF act user quiet small vars live sz(1) placed name(1), of code1 pri1] pages obtain t1 b1 k1 c1 s1 where
    s1: "create_task W code1 name1 pri1 n1 s = ret (t1, s1)" "t1 \<notin> T" "same_tasks s s1"
      "active W (insert t1 T) LS K (q(?R := ins_pri (node_pri (mem s1)) t1 (q ?R))) s1"
      "heap_even ?hp s1 (insert (k1, c1) (insert (t1, b1) L))"
      "task_area (insert t1 T) LS \<union> K \<subseteq> even_heap.kept ?hp (insert (k1, c1) (insert (t1, b1) L))"
      "new_task s s1 t1 code1 name1 pri1 k1 n1"
      "unat n1 \<le> 2032 \<and> 4 \<le> card (free_pages s) \<longrightarrow> card (free_pages s) \<le> card (free_pages s1) + 4"
    and z1: "140 \<le> unat b1" "unat n1 \<le> unat c1" "(t1, b1) \<notin> L" "(k1, c1) \<notin> insert (t1, b1) L"
    by (elim disjE exE conjE) (simp, rule that)
  let ?L1 = "insert (k1, c1) (insert (t1, b1) L)"
  have act1: "active W (insert t1 T) LS K (q(?R := [t1])) s1" using s1(4) q by simp
  have ready1: "user_mode W K s1" "no_switch s1" "counters_ok s1" using user quiet small same_tasks_ready [OF s1(3)] by simp_all
  have "even_heap.kept ?hp L \<subseteq> even_heap.kept ?hp ?L1" using kept_mono [of ?hp] by blast
  then have name1: "readable (even_heap.kept ?hp ?L1 - K) name2" using name(2) unfolding readable_def by blast
  have p1: "card (free_pages s) \<le> card (free_pages s1) + 4" using s1(8) pages by simp
  from create_task_service [OF act1 ready1 vars s1(5) sz(2) s1(6) name1, of code2 pri2] pages p1 obtain t2 b2 k2 c2 s2 where
    s2: "create_task W code2 name2 pri2 n2 s1 = ret (t2, s2)" "t2 \<notin> insert t1 T" "same_tasks s1 s2"
      "active W (insert t2 (insert t1 T)) LS K ((q(?R := [t1]))(?R := ins_pri (node_pri (mem s2)) t2 ((q(?R := [t1])) ?R))) s2"
      "heap_even ?hp s2 (insert (k2, c2) (insert (t2, b2) ?L1))"
      "task_area (insert t2 (insert t1 T)) LS \<union> K \<subseteq> even_heap.kept ?hp (insert (k2, c2) (insert (t2, b2) ?L1))"
      "new_task s1 s2 t2 code2 name2 pri2 k2 n2" and m2: "\<forall>c \<in> even_heap.kept ?hp ?L1 - K - link_area (insert t1 T) LS. mem s2 c = mem s1 c"
    and p2: "unat n2 \<le> 2032 \<and> 4 \<le> card (free_pages s1) \<longrightarrow> card (free_pages s1) \<le> card (free_pages s2) + 4"
    and z2: "140 \<le> unat b2" "unat n2 \<le> unat c2" "(t2, b2) \<notin> ?L1" "(k2, c2) \<notin> insert (t2, b2) ?L1"
    by (elim disjE exE conjE) (simp, rule that)
  note lay1 = tasks_invD(1) [OF activeD(1) [OF act1]]
  have keep: "mem s2 c = mem s1 c" if "c \<in> span t1 140" "c \<notin> link_area (insert t1 T) LS" for c
  proof -
    have "c \<in> even_heap.kept ?hp ?L1" using s1(6) that(1) by (auto simp: task_area_def)
    moreover have "c \<notin> K" using layout_okD(3) [OF lay1 insertI1] that(1) by blast
    ultimately show ?thesis using m2 that(2) by blast
  qed
  have st: "frame_at (mem s2) (task_state t1) = frame_at (mem s1) (task_state t1)"
    using layout_state(1) [OF lay1 insertI1] task_state_span [of t1] by (intro frame_at_frame keep) blast+
  have "mem s2 (t1 + 12) = mem s1 (t1 + 12)" using layout_field(1) [OF lay1 insertI1, of 12] by (intro keep) simp_all
  then have "node_pri (mem s2) t1 = sint pri1" "node_pri (mem s2) t2 = sint pri2"
    using s1(7) s2(7) by (simp_all add: node_pri_def new_task_def task_pri_def)
  then have "active W (insert t2 (insert t1 T)) LS K (q(?R := [t2, t1])) s2" using s2(4) pri by simp
  moreover have "frame_at (mem s2) (task_state t1) = start_frame code1 (k1 + n1)"
    "frame_at (mem s2) (task_state t2) = start_frame code2 (k2 + n2)" using st s1(7) s2(7) by (simp_all add: new_task_def)
  moreover have "card (free_pages s) \<le> card (free_pages s2) + 8" using p1 p2 pages by simp
  ultimately show ?thesis using s1(1,2) s2(1,2,5,6) same_tasks_trans [OF s1(3) s2(3)] z1 z2 by (intro exI conjI)
qed

text \<open>A delay of the running task, while others are ready, goes to the first of them.\<close>

lemma delay_switches:
  fixes s :: "'a kernel_state_scheme"
  assumes act: "active W T LS K q s" and user: "user_mode W K s" and small: "counters_ok s" and q: "q (tasks_ready W) = n # ns"
  shows "\<exists>s1 s'. delay W ticks s = bnd (others W (running_task s) s') (\<lambda>s. ret (mem s (sigs_recvd (running_task s)), s)) \<and>
    trap W SYSCALL_YIELD 0 s1 = ret s' \<and> running_task s' = n \<and> returned s1 s' \<and> same_kernel s s1 \<and>
    active W T LS K (q(tasks_wait W := ins_pri (node_pri (mem (upd (task_delay (running_task s)) ticks s))) (running_task s) (q (tasks_wait W)),
      tasks_ready W := ns)) s' \<and>
    frame_at (mem s') (frame W s1) = frame_at (mem s) (task_state n) \<and> mem s' (task_delay (running_task s)) = ticks \<and>
    frame_at (mem s') (task_state (running_task s)) = yield_frame W s1 \<and>
    (\<forall>x \<in> T. x \<noteq> running_task s \<longrightarrow> frame_at (mem s') (task_state x) = frame_at (mem s) (task_state x)) \<and>
    elsewhere (task_area T LS \<union> K) s s'"
proof -
  let ?r = "running_task s" and ?L = "tasks_wait W" and ?R = "tasks_ready W"
  let ?q = "q(?L := ins_pri (node_pri (mem (upd (task_delay ?r) ticks s))) ?r (q ?L))"
  note iv = tasks_invD [OF activeD(1) [OF act]]
  obtain s1 where s1: "wait_enter TB_DELAY ?L (upd (task_delay ?r) ticks s) = ret s1" "same_kernel s s1"
    "mem s1 (task_delay ?r) = ticks" "parked W T LS K ?q s1"
    "\<forall>x \<in> T. frame_at (mem s1) (task_state x) = frame_at (mem s) (task_state x)"
    using delay_enters [OF act, of ticks] by (elim exE conjE) (rule that)
  have r1: "running_task s1 = ?r" "user_mode W K s1" using s1(2) user by (simp_all add: same_kernel_def user_mode_def)
  have w: "waiting LS ?R ?q (running_task s1)" using iv(3,4) by (auto simp: waiting_def r1)
  have q1: "?q ?R = n # ns" using q iv(4) by simp
  have nT: "n \<in> T" "n \<noteq> ?r" using lists_okD(3) [OF iv(5,2)] activeD(5) [OF act iv(2)] q by auto
  obtain s' where s': "trap W SYSCALL_YIELD 0 s1 = ret s'" "running_task s' = n" "active W T LS K (?q(?R := ns)) s'"
    "dispatched T LS K (frame W s1) (mem s1) (yield_frame W s1) ?r n (mem s')" "returned s1 s'"
    using yield_blocked [OF s1(4) w r1(2) q1] unfolding r1(1) by blast
  have L: "?L \<in> LS" "?L \<noteq> ?R" by (rule iv(3,4))+
  have "elsewhere (task_area T LS) (upd (task_delay ?r) ticks s) s1"
    using wait_enter_else [OF set_delay_step(1) [where v = ticks, OF act] one_signal_1(1) L s1(1)] .
  from elsewhere_trans [OF set_delay_else [OF iv(6)] this] have "elsewhere (task_area T LS \<union> K) s s1" by (rule elsewhere_mono) blast
  moreover have "elsewhere (task_area T LS \<union> K) s1 s'"
    using s'(5) dispatched_else [OF s'(4)] by (simp add: elsewhere_def returned_def)
  ultimately have else: "elsewhere (task_area T LS \<union> K) s s'" by (rule elsewhere_trans)
  have "frame_at (mem s') (frame W s1) = frame_at (mem s) (task_state n)" "frame_at (mem s') (task_state ?r) = yield_frame W s1"
    using s'(4) s1(5) nT by (simp_all add: dispatched_def)
  moreover have "\<forall>x \<in> T. x \<noteq> ?r \<longrightarrow> frame_at (mem s') (task_state x) = frame_at (mem s) (task_state x)"
    using s'(4) s1(5) by (simp add: dispatched_def)
  moreover have "data_same T (mem s1) (mem s')" using s'(4) by (simp add: dispatched_def)
  from data_sameD(3) [OF this iv(6)] have "mem s' (task_delay ?r) = ticks" using s1(3) by simp
  moreover have "delay W ticks s = bnd (others W ?r s') (\<lambda>s. ret (mem s (sigs_recvd (running_task s)), s))"
    using s1(1) s'(1,2) nT(2) r1(1) by (simp add: delay_waits [OF small] wait_def yield_def system_call_def TB_DELAY_def)
  ultimately show ?thesis using s' s1(2) else by blast
qed

section \<open>The concrete kernel\<close>

text \<open>Static data below the heap, apart from the list of free chunks.\<close>

lemma span_low:
  assumes "unat a + n \<le> 0xC0400000" and "span a n \<inter> span hp 12 = {}"
  shows "span a n \<subseteq> - heap_own hp"
proof
  fix x assume x: "x \<in> span a n"
  from span_split [OF this] obtain i where i: "x = a + of_nat i" "i < n" by blast
  then have "unat x = unat a + i" using assms(1) by (simp add: unat_word_ariths unat_of_nat)
  then have "unat x < 0xC0400000" using i assms(1) by simp
  moreover have "hp \<in> span hp 12" "hp + 4 \<in> span hp 12" "hp + 8 \<in> span hp 12" by simp_all
  then have "x \<notin> {hp, hp + 4, hp + 8}" using x assms(2) by blast
  ultimately show "x \<in> - heap_own hp" by (auto simp: heap_own_def)
qed

lemma demo_placed:
  "task_area {0x10000} {0x20000, 0x20100} \<union> demo_stack \<subseteq> - heap_own 0x20200"
  "readable (- heap_own 0x20200 - demo_stack) 0x40000" "vars_ok demo_sys demo_stack"
proof -
  have "span 0x10000 140 \<inter> span 0x20200 12 = {}" "span 0x20000 12 \<inter> span 0x20200 12 = {}" "span 0x20100 12 \<inter> span 0x20200 12 = {}"
    by (rule span_apart; simp)+
  moreover have st: "span 0x20200 12 \<inter> demo_stack = {}" "span 0x20200 12 \<inter> span 0x40000 32 = {}"
    unfolding demo_stack_def by (rule span_apart; simp)+
  ultimately show "task_area {0x10000} {0x20000, 0x20100} \<union> demo_stack \<subseteq> - heap_own 0x20200"
    using span_low [of "0x10000" 140 "0x20200"] span_low [of "0x20000" 12 "0x20200"] span_low [of "0x20100" 12 "0x20200"]
      span_low [of "0x30000" "0x1000" "0x20200"] by (simp add: task_area_def demo_stack_def Int_commute)
  have "span 0x40000 32 \<subseteq> - heap_own 0x20200" using st(2) by (intro span_low) (simp_all add: Int_commute)
  moreover have "demo_stack \<inter> span 0x40000 32 = {}" unfolding demo_stack_def by (rule span_apart) simp_all
  moreover have "cell_of (0x40000 + of_nat i) \<in> span 0x40000 32" if "i < 32" for i
    using that by (intro cell_of_span) (simp_all add: aligned_def)
  ultimately show "readable (- heap_own 0x20200 - demo_stack) 0x40000" unfolding readable_def by blast
  show "vars_ok demo_sys demo_stack" by (simp add: vars_ok_def demo_sys_def demo_stack_def span_def)
qed

lemma demo_pages: "8 \<le> card (usable_pages [(0, 0x1000000, 1)] - insert 0 (region_pages 0x100000 (kernel_end_of pc_symbols)))"
proof -
  have "p \<in> region_pages 0 0x1000000" if "p < 2008" for p
    using that by (intro region_pagesI) (auto simp: page_of_def)
  moreover have "p \<notin> region_pages 0x100000 0x110000" if "2000 \<le> p" for p
    using that by (auto simp: region_pages_def page_of_def)
  ultimately have "{2000..<2008} \<subseteq> usable_pages [(0, 0x1000000, 1)] - insert 0 (region_pages 0x100000 (kernel_end_of pc_symbols))"
    by (auto simp: usable_pages_def kernel_end_of_def pc_symbols_def)
  moreover have "usable_pages [(0, 0x1000000, 1)] \<subseteq> {..<3840}" by (auto simp: usable_pages_def region_pages_def page_of_def)
  then have "finite (usable_pages [(0, 0x1000000, 1)])" by (rule finite_subset) simp
  ultimately have "card {2000..<2008 :: nat} \<le> card (usable_pages [(0, 0x1000000, 1)] - insert 0 (region_pages 0x100000 (kernel_end_of pc_symbols)))"
    by (intro card_mono) auto
  then show ?thesis by simp
qed

lemma demo_cleared:
  "name_at (mem (demo (mem pc_state))) (lit demo_sys ''krypton.library'') (task_name (kernel_task demo_main)) (k_heap_start demo_sys) []"
  "mem (demo (mem pc_state)) (task_flags (kernel_task demo_main)) = 0" "mem (demo (mem pc_state)) (sigs_waiting (kernel_task demo_main)) = 0"
proof -
  let ?m = "mem pc_state"
  have m: "?m c = 0" if "0x10000 \<le> c" for c using that by (auto simp: pc_state_def)
  have l: "load8 ?m 0x40000 = 0" using m [of "0x40000"] by (simp add: load8_def cell_of_def)
  show "name_at (mem (demo ?m)) (lit demo_sys ''krypton.library'') (task_name (kernel_task demo_main)) (k_heap_start demo_sys) []"
    using l by (simp add: name_at_def demo_sys_def demo_main_def task_name_def cell_of_def span_def)
  show "mem (demo ?m) (task_flags (kernel_task demo_main)) = 0" "mem (demo ?m) (sigs_waiting (kernel_task demo_main)) = 0"
    using m [of "0x10074"] m [of "0x10078"] by (simp_all add: demo_main_def task_defs)
qed

lemma demo_boot:
  "\<exists>s. heap_even (k_heap_start demo_sys) s {} \<and> no_switch s \<and> 8 \<le> card (free_pages s) \<and> clock_ready demo_sys demo_stack s \<and>
    active demo_sys {0x10000} {0x20000, 0x20100} demo_stack (\<lambda>L. []) s \<and> running_task s = 0x10000"
proof -
  have "sched_state (demo (mem pc_state)) = 0" by simp
  moreover have "boot_ok pc_symbols 0x9000 (mem (demo (mem pc_state))) [(0, 0x1000000, 1)]" using pc_boot_ok by simp
  from boot_invariant [OF this demo_map demo_cleared, of "\<lambda>_ _. 0"] obtain s where
    "heap_even (k_heap_start demo_sys) s {}" "sched_state s = sched_state (demo (mem pc_state))"
    "active demo_sys {kernel_task demo_main} {tasks_ready demo_sys, tasks_wait demo_sys} demo_stack (\<lambda>L. []) s" "clock_ready demo_sys demo_stack s"
    "running_task s = kernel_task demo_main"
    "free_pages s = usable_pages [(0, 0x1000000, 1)] - insert 0 (region_pages 0x100000 (kernel_end_of pc_symbols))"
    by (elim exE conjE) (rule that)
  ultimately show ?thesis using demo_pages
    by (intro exI [of _ s]) (simp add: no_switch_def demo_main_def)
qed

section \<open>Properties\<close>

text \<open>C11. \<open>create_task\<close>, called by a task while no switch is due (no \<open>NEED_SCHEDULE\<close> pending, or multitasking forbidden, with the
  nesting counter of \<open>forbid\<close> below its overflow), in a kernel whose tasks are well formed and whose heap is regular, with a name of
  32 readable bytes outside the heap and the stack, and a stack size that rounds up to an odd multiple of 16 bytes, as the 1000 of
  every caller in the source does (1024 or 4096 do not: there the heap can give overlapping blocks, as C25 shows). Either it
  panics for want of memory, and then the stack is above 2032 bytes or fewer than four pages are free; or it returns a
  task that is no task yet, in a heap block apart from all tasks, lists and stacks; the invariant of the tasks holds with it, it
  stands in the ready list behind the tasks of its priority, and it will start at \<open>code\<close> in user mode with interrupts enabled, at
  the end of its own stack block, with the name and the priority given. Nothing else outside the heap changes but list links.\<close>

theorem create_task_adds:
  fixes s :: "'a kernel_state_scheme"
  assumes "active W T LS K q s" and "user_mode W K s" and "no_switch s" and "counters_ok s" and "vars_ok W K"
    and "heap_even (k_heap_start W) s L" and "even_size stack_size"
    and "task_area T LS \<union> K \<subseteq> even_heap.kept (k_heap_start W) L" and "readable (even_heap.kept (k_heap_start W) L - K) name"
  shows "create_task W code name pri stack_size s = fail (Panic ''out of memory.'') \<and>
      (2032 < unat stack_size \<or> card (free_pages s) < 4) \<or>
    (\<exists>t n stack k s'. create_task W code name pri stack_size s = ret (t, s') \<and> t \<notin> T \<and>
      active W (insert t T) LS K (q(tasks_ready W := ins_pri (node_pri (mem s')) t (q (tasks_ready W)))) s' \<and>
      running_task s' = running_task s \<and>
      heap_even (k_heap_start W) s' (insert (stack, k) (insert (t, n) L)) \<and> (t, n) \<notin> L \<and> (stack, k) \<notin> insert (t, n) L \<and>
      unat stack_size \<le> unat k \<and> 140 \<le> unat n \<and>
      frame_at (mem s') (task_state t) = [0x23, 0, 0, 0, 0, 0, 0, 0, 0, 0, 0, code, 0x1B, 0x3200, stack + stack_size, 0x23] \<and>
      mem s' (task_pri t) = pri \<and> (\<forall>i < 32. load8 (mem s') (task_name t + of_nat i) = load8 (mem s) (name + of_nat i)) \<and>
      (\<forall>c \<in> even_heap.kept (k_heap_start W) L - K - link_area T LS. mem s' c = mem s c))"
  using create_task_service [OF assms(1-9), of code pri]
proof (elim disjE exE conjE)
  assume "create_task W code name pri stack_size s = fail (Panic ''out of memory.'')" "\<not> (unat stack_size \<le> 2032 \<and> 4 \<le> card (free_pages s))"
  then show ?thesis by auto
next
  fix t n stack k s'
  assume c: "create_task W code name pri stack_size s = ret (t, s')" "t \<notin> T" "same_tasks s s'"
    "active W (insert t T) LS K (q(tasks_ready W := ins_pri (node_pri (mem s')) t (q (tasks_ready W)))) s'"
    "heap_even (k_heap_start W) s' (insert (stack, k) (insert (t, n) L))" "(t, n) \<notin> L" "(stack, k) \<notin> insert (t, n) L"
    "unat stack_size \<le> unat k" "140 \<le> unat n" "new_task s s' t code name pri stack stack_size"
    "\<forall>c \<in> even_heap.kept (k_heap_start W) L - K - link_area T LS. mem s' c = mem s c"
  have r: "running_task s' = running_task s" using c(3) by (simp add: same_tasks_def same_kernel_def)
  note n = c(10) [unfolded new_task_def start_frame_def]
  show ?thesis
    by (rule disjI2, intro exI conjI) (rule c r n [THEN conjunct1] n [THEN conjunct2, THEN conjunct1]
      n [THEN conjunct2, THEN conjunct2, THEN conjunct2])+
qed

theorem create_task_adds_witness:
  "\<exists>s t s'. create_task demo_sys 0x80000 0x40000 3 1000 s = ret (t, s') \<and> t \<noteq> 0x10000 \<and> running_task s' = 0x10000 \<and>
    active demo_sys {t, 0x10000} {0x20000, 0x20100} demo_stack ((\<lambda>L. [])(0x20000 := [t])) s'"
proof -
  obtain s where s: "heap_even (k_heap_start demo_sys) s {}" "no_switch s" "8 \<le> card (free_pages s)" "clock_ready demo_sys demo_stack s"
    "active demo_sys {0x10000} {0x20000, 0x20100} demo_stack (\<lambda>L. []) s" "running_task s = 0x10000" using demo_boot by blast
  have kept: "even_heap.kept (k_heap_start demo_sys) {} = - heap_own 0x20200" by (simp add: even_heap.kept_def demo_sys_def)
  have h: "user_mode demo_sys demo_stack s" "counters_ok s" "even_size 1000"
    using s(4) by (simp_all add: clock_ready_def even_size_def align_size_def)
  have "\<not> (2032 < unat (1000 :: u32) \<or> card (free_pages s) < 4)" using s(3) by simp
  with create_task_adds [OF s(5) h(1) s(2) h(2) demo_placed(3) s(1) h(3) demo_placed(1) [folded kept] demo_placed(2) [folded kept],
      of "0x80000" 3] obtain t s' where
    "create_task demo_sys 0x80000 0x40000 3 1000 s = ret (t, s')" "t \<notin> {0x10000}" "running_task s' = running_task s"
    "active demo_sys (insert t {0x10000}) {0x20000, 0x20100} demo_stack
      ((\<lambda>L. [])(tasks_ready demo_sys := ins_pri (node_pri (mem s')) t [])) s'" by (elim disjE exE conjE) (simp, simp, rule that)
  then show ?thesis using s(6) by (intro exI [of _ s] exI [of _ t] exI [of _ s']) (simp add: demo_sys_def)
qed

text \<open>C10. The start of the kernel. With the static variables apart from each other and cleared, a memory map that covers the kernel,
  and eight pages left, \<open>init\<close> gets as far as its first delay, of 25 ticks: the kernel task is entered in the waiting list and traps, and
  the trap dispatches the timer task, whose priority is higher, at its entry point in user mode with interrupts enabled. In the
  state that the trap leaves the page tables are well formed, the heap is regular with exactly four used blocks, those of the
  two new tasks and of their stacks of 1000 bytes; the vectors of the two faults, the system call and the clock, and no other, have
  their handlers; \<open>esp0\<close> is the top of the kernel stack. The invariant of the tasks holds with three tasks, the console in the ready
  list with its start frame, the kernel task in the waiting list with the frame of its trap; \<open>init\<close> goes on with the prompt when the
  other tasks come back to it.\<close>

theorem boot_starts_timer:
  fixes s :: "'a kernel_state_scheme"
  assumes boot: "boot_ok sy mboot_ptr (mem s) es" and map: "boot_map W M K"
    and name: "name_at (mem s) (lit W ''krypton.library'') (task_name (kernel_task M)) (k_heap_start W) name"
    and clear: "mem s (task_flags (kernel_task M)) = 0" "mem s (sigs_waiting (kernel_task M)) = 0" "sched_state s = 0"
    and vars: "vars_ok W K"
    and static: "task_area {kernel_task M} {tasks_ready W, tasks_wait W} \<union> K \<subseteq> - heap_own (k_heap_start W)"
    and names: "readable (- heap_own (k_heap_start W) - K) (lit W ''org.era.dev.console'')"
      "readable (- heap_own (k_heap_start W) - K) (lit W ''org.era.timetask'')"
    and pages: "8 \<le> card (usable_pages es - insert 0 (region_pages 0x100000 (kernel_end_of sy)))"
  shows "\<exists>c t s1 s' n1 b1 k1 n2 b2 k2.
    init sy env C M W mboot_ptr s = bnd (others W (kernel_task M) s') (\<lambda>s.
      let s = s\<lparr>mem := memset (mem s) (con_io M) 0 sizeof_iorq\<rparr>;
          s = upd (io_desc (con_io M)) DC_READ s;
          s = upd (io_sz (con_io M)) 32 s;
          s = upd (io_dptr (con_io M)) (input_buf M) s
      in prompt_loop C M W s) \<and>
    trap W SYSCALL_YIELD 0 s1 = ret s' \<and> running_task s1 = kernel_task M \<and>
    running_task s' = t \<and> card {kernel_task M, c, t} = 3 \<and>
    active W {kernel_task M, c, t} {tasks_ready W, tasks_wait W} K ((\<lambda>L. [])(tasks_wait W := [kernel_task M], tasks_ready W := [c])) s' \<and>
    clock_ready W K s' \<and> iflag s' \<and> mem s' (task_delay (kernel_task M)) = 25 \<and>
    frame_at (mem s') (frame W s1) = [0x23, 0, 0, 0, 0, 0, 0, 0, 0, 0, 0, timer_code M, 0x1B, 0x3200, b2 + 1000, 0x23] \<and>
    on_stack K (frame W s1) \<and>
    frame_at (mem s') (task_state c) = [0x23, 0, 0, 0, 0, 0, 0, 0, 0, 0, 0, console_code M, 0x1B, 0x3200, b1 + 1000, 0x23] \<and>
    frame_at (mem s') (task_state (kernel_task M)) = yield_frame W s1 \<and>
    pg_inv s' \<and> heap_even (k_heap_start W) s' {(c, n1), (b1, k1), (t, n2), (b2, k2)} \<and>
    card {(c, n1), (b1, k1), (t, n2), (b2, k2)} = 4 \<and> 140 \<le> unat n1 \<and> 1000 \<le> unat k1 \<and> 140 \<le> unat n2 \<and> 1000 \<le> unat k2 \<and>
    interrupt_handlers s' = (replicate 256 None)[14 := Some Page_fault, 13 := Some Protection_fault, 255 := Some Syscall, 32 := Some Timer_callback] \<and>
    esp0 (tss s') = kernel_stack M + 4096"
proof -
  let ?k = "kernel_task M" and ?hp = "k_heap_start W" and ?LS = "{tasks_ready W, tasks_wait W}"
  obtain s1 s2 where s2: "init_memory sy env W mboot_ptr s = ret s1" "init_tasks M W s1 = ret s2" "heap_even ?hp s2 {}"
    "sched_state s2 = sched_state s" "forbid_counter s2 = 0" "active W {?k} ?LS K (\<lambda>L. []) s2" "clock_ready W K s2" "running_task s2 = ?k"
    "free_pages s2 = usable_pages es - insert 0 (region_pages 0x100000 (kernel_end_of sy))" "esp0 (tss s2) = kernel_stack M + 4096"
    "interrupt_handlers s2 = (replicate 256 None)[14 := Some Page_fault, 13 := Some Protection_fault, 255 := Some Syscall, 32 := Some Timer_callback]"
    using boot_invariant [OF boot map name clear(1,2), of env] by (elim exE conjE) (rule that)
  have kept: "even_heap.kept ?hp {} = - heap_own ?hp" by (simp add: even_heap.kept_def)
  have user: "user_mode W K s2" "counters_ok s2" using s2(7) by (simp_all add: clock_ready_def)
  have quiet: "no_switch s2" using s2(4) clear(3) by (simp add: no_switch_def)
  have e: "even_size 1000" by (simp add: even_size_def align_size_def)
  have p: "sint (0 :: u32) < sint (10 :: u32)" "unat (1000 :: u32) \<le> 2032" "8 \<le> card (free_pages s2)" using pages s2(9) by simp_all
  from spawn_two [OF s2(6) user(1) quiet user(2) vars s2(3) e e static [folded kept] names [folded kept] refl p(1,2,2,3), of "console_code M" "timer_code M"]
  obtain c s3 t s4 n1 n2 b1 b2 k1 k2 where s4: "create_task W (console_code M) (lit W ''org.era.dev.console'') 0 1000 s2 = ret (c, s3)"
    "create_task W (timer_code M) (lit W ''org.era.timetask'') 10 1000 s3 = ret (t, s4)" "c \<notin> {?k}" "t \<notin> insert c {?k}" "same_tasks s2 s4"
    "active W (insert t (insert c {?k})) ?LS K ((\<lambda>L. [])(tasks_ready W := [t, c])) s4"
    "frame_at (mem s4) (task_state c) = start_frame (console_code M) (b1 + 1000)"
    "frame_at (mem s4) (task_state t) = start_frame (timer_code M) (b2 + 1000)"
    and heap4: "heap_even ?hp s4 {(b2, k2), (t, n2), (b1, k1), (c, n1)}"
    and area4: "task_area (insert t (insert c {?k})) ?LS \<union> K \<subseteq> even_heap.kept ?hp {(b2, k2), (t, n2), (b1, k1), (c, n1)}"
    and size: "140 \<le> unat n1" "140 \<le> unat n2" "unat (1000 :: u32) \<le> unat k1" "unat (1000 :: u32) \<le> unat k2"
    and new: "(b1, k1) \<notin> {(c, n1)}" "(t, n2) \<notin> {(b1, k1), (c, n1)}" "(b2, k2) \<notin> {(t, n2), (b1, k1), (c, n1)}"
    by (elim exE conjE) (rule that)
  let ?u = "enter_user_mode s4" and ?T = "{?k, c, t}" and ?L = "{(c, n1), (b1, k1), (t, n2), (b2, k2)}"
  have ready4: "clock_ready W K s4" using s2(7) same_tasks_ready [OF s4(5)] by (simp add: clock_ready_trap)
  have act: "active W ?T ?LS K ((\<lambda>L. [])(tasks_ready W := [t, c])) ?u"
    using s4(6) by (subst active_same [of _ s4]) (simp_all add: enter_user_mode_def insert_commute)
  have u: "user_mode W K ?u" "counters_ok ?u" "running_task ?u = ?k"
    using ready4 s4(5) s2(8) by (simp_all add: enter_user_mode_def clock_ready_def user_mode_def counters_ok_def same_tasks_def same_kernel_def)
  have "((\<lambda>L. [])(tasks_ready W := [t, c])) (tasks_ready W) = t # [c]" by simp
  from delay_switches [OF act u(1,2) this, of 25, unfolded u(3)] obtain s5 s' where
    s5: "delay W 25 ?u = bnd (others W ?k s') (\<lambda>s. ret (mem s (sigs_recvd (running_task s)), s))" "running_task s' = t" "returned s5 s'"
      "same_kernel ?u s5" "frame_at (mem s') (frame W s5) = frame_at (mem ?u) (task_state t)" "mem s' (task_delay ?k) = 25"
      "\<forall>x \<in> ?T. x \<noteq> ?k \<longrightarrow> frame_at (mem s') (task_state x) = frame_at (mem ?u) (task_state x)"
      "trap W SYSCALL_YIELD 0 s5 = ret s'" "frame_at (mem s') (task_state ?k) = yield_frame W s5" "elsewhere (task_area ?T ?LS \<union> K) ?u s'"
    and act': "active W ?T ?LS K (((\<lambda>L. [])(tasks_ready W := [t, c]))(tasks_wait W := ins_pri
        (node_pri (mem (upd (task_delay ?k) 25 ?u))) ?k (((\<lambda>L. [])(tasks_ready W := [t, c])) (tasks_wait W)), tasks_ready W := [c])) s'"
    by (elim exE conjE) (rule that)
  have ne: "tasks_wait W \<noteq> tasks_ready W" using map by (auto simp: boot_map_def)
  have act2: "active W ?T ?LS K ((\<lambda>L. [])(tasks_wait W := [?k], tasks_ready W := [c])) s'"
    using act' ne by (simp add: fun_upd_twist)
  have ready2: "clock_ready W K s'" "iflag s'"
    using ready4 s5(3,4) by (simp_all add: clock_ready_def user_mode_def counters_ok_def returned_def same_kernel_def enter_user_mode_def)
  have "mem ?u = mem s4" by (simp add: enter_user_mode_def)
  then have frames: "frame_at (mem s') (frame W s5) = start_frame (timer_code M) (b2 + 1000)"
    "frame_at (mem s') (task_state c) = start_frame (console_code M) (b1 + 1000)" using s5(5,7) s4(3,7,8) by simp_all
  have st: "on_stack K (frame W s5)" by (rule user_modeD(2) [OF u(1)])
  have card: "card ?T = 3" "card ?L = 4" using s4(3,4) new by (auto simp: card_insert_if)
  have run: "running_task s5 = ?k" using s5(4) u(3) by (simp add: same_kernel_def)
  have blocks: "{(b2, k2), (t, n2), (b1, k1), (c, n1)} = ?L" "insert t (insert c {?k}) = ?T" by blast+
  have "heap_even ?hp ?u ?L" using heap4 by (subst heap_even_cong [of _ s4]) (simp_all add: enter_user_mode_def blocks)
  then have heap: "heap_even ?hp s' ?L" by (rule heap_even_else [OF s5(10) area4 [unfolded blocks]])
  have rest: "interrupt_handlers s' = interrupt_handlers s2" "tss s' = tss s2"
    using rest_ofD(6,7) [of s' ?u] s5(10) s4(5) by (simp_all add: elsewhere_def enter_user_mode_def same_tasks_def same_kernel_def)
  have int: "init sy env C M W mboot_ptr s = bnd (others W ?k s') (\<lambda>s.
      let s = s\<lparr>mem := memset (mem s) (con_io M) 0 sizeof_iorq\<rparr>;
          s = upd (io_desc (con_io M)) DC_READ s;
          s = upd (io_sz (con_io M)) 32 s;
          s = upd (io_dptr (con_io M)) (input_buf M) s
      in prompt_loop C M W s)"
    by (simp add: init_def s2(1,2) s4(1,2) s5(1) bnd_assoc)
  have "1000 \<le> unat k1" "1000 \<le> unat k2" using size by simp_all
  note sizes = size(1,2) this and rests = rest(1) [unfolded s2(11)] arg_cong [OF rest(2), of esp0, unfolded s2(10)]
  show ?thesis
    by (rule exI [of _ c], rule exI [of _ t], rule exI [of _ s5], rule exI [of _ s'], rule exI [of _ n1], rule exI [of _ b1],
        rule exI [of _ k1], rule exI [of _ n2], rule exI [of _ b2], rule exI [of _ k2])
      (intro conjI int s5(2,6,8,9) act2 ready2 frames [unfolded start_frame_def] st card run heap heap_even_pages [OF heap] rests sizes)
qed

theorem boot_starts_timer_witness:
  "\<exists>C c t s1 s' L f. init pc_symbols (\<lambda>_ _. 0) C demo_main demo_sys 0x9000 (demo (mem pc_state)) = bnd (others demo_sys 0x10000 s') f \<and>
    trap demo_sys SYSCALL_YIELD 0 s1 = ret s' \<and> running_task s' = t \<and> card {0x10000, c, t} = 3 \<and> clock_ready demo_sys demo_stack s' \<and> iflag s' \<and>
    active demo_sys {0x10000, c, t} {0x20000, 0x20100} demo_stack ((\<lambda>L. [])(0x20100 := [0x10000], 0x20000 := [c])) s' \<and>
    heap_even (k_heap_start demo_sys) s' L \<and> card L = 4 \<and> esp0 (tss s') = 0x61000 \<and>
    (\<exists>tos. frame_at (mem s') (frame demo_sys s1) = [0x23, 0, 0, 0, 0, 0, 0, 0, 0, 0, 0, 0x81000, 0x1B, 0x3200, tos, 0x23])"
proof -
  have ok: "boot_ok pc_symbols 0x9000 (mem (demo (mem pc_state))) [(0, 0x1000000, 1)]" using pc_boot_ok by simp
  have st: "task_area {kernel_task demo_main} {tasks_ready demo_sys, tasks_wait demo_sys} \<union> demo_stack \<subseteq> - heap_own (k_heap_start demo_sys)"
    using demo_placed(1) by (simp add: demo_main_def demo_sys_def)
  have rd: "readable (- heap_own (k_heap_start demo_sys) - demo_stack) (lit demo_sys l)" for l
    using demo_placed(2) by (simp add: demo_sys_def)
  have z: "sched_state (demo (mem pc_state)) = 0" by simp
  let ?C = "\<lparr>keybd_device = 0x90000, isr_scancode = 0x90100, key_var = 0x90200, iorq_var = 0x90300\<rparr>"
  have k: "kernel_task demo_main = 0x10000" "tasks_ready demo_sys = 0x20000" "tasks_wait demo_sys = 0x20100" "timer_code demo_main = 0x81000"
    "kernel_stack demo_main = 0x60000" by (simp_all add: demo_main_def demo_sys_def)
  from boot_starts_timer [OF ok demo_map demo_cleared z demo_placed(3) st rd rd demo_pages, of "\<lambda>_ _. 0" ?C, unfolded k]
  obtain c t s1 s' n1 b1 k1 n2 b2 k2 f where
    r: "init pc_symbols (\<lambda>_ _. 0) ?C demo_main demo_sys 0x9000 (demo (mem pc_state)) = bnd (others demo_sys 0x10000 s') f"
    "trap demo_sys SYSCALL_YIELD 0 s1 = ret s'" "running_task s' = t" "card {0x10000, c, t} = 3" "clock_ready demo_sys demo_stack s'" "iflag s'"
    "active demo_sys {0x10000, c, t} {0x20000, 0x20100} demo_stack ((\<lambda>L. [])(0x20100 := [0x10000], 0x20000 := [c])) s'"
    "heap_even (k_heap_start demo_sys) s' {(c, n1), (b1, k1), (t, n2), (b2, k2)}" "card {(c, n1), (b1, k1), (t, n2), (b2, k2)} = 4"
    "esp0 (tss s') = 0x60000 + 4096"
    "frame_at (mem s') (frame demo_sys s1) = [0x23, 0, 0, 0, 0, 0, 0, 0, 0, 0, 0, 0x81000, 0x1B, 0x3200, b2 + 1000, 0x23]"
    by (elim exE conjE) (rule that)
  have "esp0 (tss s') = 0x61000" using r(10) by simp
  then show ?thesis using r(1-9,11) by blast
qed

end
