(* ===== verification/Services.thy ===== *)
theory Services
  imports NewTask
begin

text \<open>
  The services that a task uses between \<open>forbid\<close> and \<open>permit\<close>: \<open>settled\<close> says that the tasks and the heap are well formed, that no
  switch can happen, and that the heap leaves the tasks, the lists and the stacks alone. Writes to the memory of the client,
  \<open>kmalloc\<close> and \<open>kfree\<close> keep a state settled.
\<close>

definition settled ::
  "'a kernel_state_scheme sys \<Rightarrow> u32 set \<Rightarrow> u32 set \<Rightarrow> u32 set \<Rightarrow> (u32 \<Rightarrow> u32 list) \<Rightarrow> (u32 \<times> u32) set \<Rightarrow> 'a kernel_state_scheme \<Rightarrow> bool" where
  "settled W T LS K q L s \<longleftrightarrow> active W T LS K q s \<and> can_trap W K s \<and> no_switch s \<and> heap_even (k_heap_start W) s L \<and>
     task_area T LS \<union> K \<subseteq> even_heap.kept (k_heap_start W) L"

lemma settledD:
  assumes "settled W T LS K q L s"
  shows "active W T LS K q s" "can_trap W K s" "no_switch s" "heap_even (k_heap_start W) s L"
    "task_area T LS \<union> K \<subseteq> even_heap.kept (k_heap_start W) L" "layout_ok T LS K"
  using assms tasks_invD(1) [OF activeD(1)] unfolding settled_def by blast+

lemma settled_write:
  assumes "settled W T LS K q L s" and same: "\<And>c. c \<notin> A \<Longrightarrow> m c = mem s c"
    and A: "A \<subseteq> even_heap.kept (k_heap_start W) L" "A \<inter> task_area T LS = {}"
  shows "settled W T LS K q L (s\<lparr>mem := m\<rparr>)"
proof -
  note st = settledD [OF assms(1)]
  have "m c = mem s c" if "c \<in> (\<Union>t \<in> T. span t 140) \<union> (\<Union>L \<in> LS. span L 12)" for c
    using that A(2) by (intro same) (auto simp: task_area_def)
  then have "active W T LS K q (s\<lparr>mem := m\<rparr>)" by (rule memory_step(1) [OF st(1)])
  moreover have "m c = mem s c" if "c \<notin> even_heap.kept (k_heap_start W) L" for c using that A(1) by (intro same) blast
  then have "heap_even (k_heap_start W) (s\<lparr>mem := m\<rparr>) L" by (rule heap_even_write [OF st(4)])
  ultimately show ?thesis using st(2,3,5) by (simp add: settled_def no_switch_def can_trap_same [of "s\<lparr>mem := m\<rparr>" s])
qed

text \<open>What a fresh block is apart from: all memory that the clients had.\<close>

lemma fresh_kept:
  assumes "fresh_block L (p, n)" and "0xC0400000 \<le> unat p"
  shows "block_mem (p, n) \<inter> even_heap.kept hp L = {}"
proof -
  have "block_mem (p, n) \<subseteq> heap_own hp" using assms(2) by (auto simp: block_mem_def heap_own_def)
  then show ?thesis using assms(1) unfolding even_heap.kept_def fresh_block_def by blast
qed

lemma settled_kmalloc:
  assumes st: "settled W T LS K q L s" and vars: "vars_ok W K" and sz: "even_size sz" and room: "served sz s"
  shows "\<exists>p n s'. kmalloc W sz s = ret (p, s') \<and> settled W T LS K q (insert (p, n) L) s' \<and> same_tasks s s' \<and> (p, n) \<notin> L \<and>
    unat sz \<le> unat n \<and> p \<noteq> 0 \<and> block_mem (p, n) \<inter> even_heap.kept (k_heap_start W) L = {} \<and>
    card (free_pages s) \<le> card (free_pages s') + 2 \<and>
    (\<forall>c \<in> even_heap.kept (k_heap_start W) L - call_stack W K s. mem s' c = mem s c)"
proof -
  note d = settledD [OF st]
  from kmalloc_service [OF d(1-3) vars d(4) sz d(5)] room obtain p n s' where
    s': "kmalloc W sz s = ret (p, s')" "active W T LS K q s'" "same_tasks s s'" "heap_even (k_heap_start W) s' (insert (p, n) L)" "(p, n) \<notin> L"
    and b: "fresh_block L (p, n)" "unat sz \<le> unat n" "0xC0400000 \<le> unat p" "card (free_pages s) \<le> card (free_pages s') + 2"
    and m: "\<forall>c \<in> even_heap.kept (k_heap_start W) L - call_stack W K s. mem s' c = mem s c"
    by (elim disjE exE conjE) (simp, rule that, simp_all)
  have "settled W T LS K q (insert (p, n) L) s'"
    using s'(2,4) same_tasks_ready(2,5) [OF s'(3)] d(2,3,5) kept_mono unfolding settled_def by blast
  moreover have "p \<noteq> 0" using b(3) by auto
  ultimately show ?thesis using s' b fresh_kept [OF b(1,3)] m by blast
qed

lemma kept_remove: "even_heap.kept hp L - block_mem b \<subseteq> even_heap.kept hp (L - {b})"
  by (auto simp: even_heap.kept_def)

lemma settled_kfree:
  assumes st: "settled W T LS K q L s" and b: "(p, n) \<in> L" and out: "block_mem (p, n) \<inter> (task_area T LS \<union> K) = {}"
  shows "\<exists>s'. kfree W p s = ret s' \<and> settled W T LS K q (L - {(p, n)}) s' \<and> same_tasks s s' \<and>
    (\<forall>c \<in> even_heap.kept (k_heap_start W) (L - {(p, n)}) - K. mem s' c = mem s c)"
proof -
  note d = settledD [OF st]
  have placed: "task_area T LS \<union> K \<subseteq> even_heap.kept (k_heap_start W) (L - {(p, n)})" using d(5) out kept_remove by blast
  from kfree_service [OF d(1-4) b placed] obtain s' where
    s': "kfree W p s = ret s'" "active W T LS K q s'" "same_tasks s s'" "heap_even (k_heap_start W) s' (L - {(p, n)})"
    "\<forall>c \<in> even_heap.kept (k_heap_start W) (L - {(p, n)}) - K. mem s' c = mem s c" by blast
  then show ?thesis using same_tasks_ready(2,5) [OF s'(3)] d(2,3) placed unfolding settled_def by blast
qed

text \<open>Into a forbidden section and out of it.\<close>

lemma forbid_same [simp]:
  "mem (forbid s) = mem s" "running_task (forbid s) = running_task s" "free_pages (forbid s) = free_pages s"
  "mem (permit s) = mem s" "running_task (permit s) = running_task s" "free_pages (permit s) = free_pages s"
  by (simp_all add: forbid_def permit_def free_pages_def page_free_def [abs_def])

lemma settled_forbid:
  assumes "active W T LS K q s" and "can_trap W K s" and "counters_ok s" and "heap_even (k_heap_start W) s L"
    and "task_area T LS \<union> K \<subseteq> even_heap.kept (k_heap_start W) L"
  shows "settled W T LS K q L (forbid s)"
proof -
  have "active W T LS K q (forbid s)" using assms(1) by (subst active_same [of _ s]) simp_all
  moreover have "heap_even (k_heap_start W) (forbid s) L" using assms(4) by (subst heap_even_cong [of _ s]) (simp_all add: forbid_def)
  moreover have "no_switch (forbid s)"
    using assms(3) sint_add_1 [of "forbid_counter s"] by (simp add: no_switch_def counters_ok_def forbid_def)
  ultimately show ?thesis using assms(2,5) can_trap_same [of "forbid s" s] by (simp add: settled_def forbid_def)
qed

lemma permit_back:
  assumes st: "settled W T LS K q L s'" and same: "same_tasks (forbid s) s'" and small: "counters_ok s"
  shows "active W T LS K q (permit s')" "can_trap W K (permit s')" "counters_ok (permit s')" "heap_even (k_heap_start W) (permit s') L"
    "same_tasks s (permit s')"
proof -
  note d = settledD [OF st]
  have f: "forbid_counter s' = forbid_counter s + 1" using same by (simp add: same_tasks_def forbid_def)
  then have p: "forbid_counter (permit s') = forbid_counter s"
    using small sint_add_1 [of "forbid_counter s"] by (simp add: permit_def counters_ok_def)
  show "active W T LS K q (permit s')" using d(1) by (subst active_same [of _ s']) simp_all
  show "can_trap W K (permit s')" using d(2) can_trap_same [of "permit s'" s'] by (simp add: permit_def)
  show "counters_ok (permit s')" using small p by (simp add: counters_ok_def)
  show "heap_even (k_heap_start W) (permit s') L" using d(4) by (subst heap_even_cong [of _ s']) (simp_all add: permit_def)
  show "same_tasks s (permit s')"
    using same p by (simp add: same_tasks_def same_kernel_def forbid_def permit_def)
qed

end
