(* ===== verification/QueueSpec.thy ===== *)
theory QueueSpec
  imports Services
begin

text \<open>
  Message queues as bounded first-in first-out queues of byte strings. A queue and its messages are blocks of the kernel heap;
  \<open>queue_rep\<close> says what memory holds for a sequence of messages, newest first as in the list. \<open>queue_send\<close> of a task puts a copy of
  its bytes at the end of the sequence, \<open>queue_recv\<close> copies the bytes of the oldest message out and gives its blocks back to the
  heap. The invariants of the tasks and of the heap hold all along; the rest of memory stays as it was.
\<close>

section \<open>Blocks and bytes\<close>

lemma span_bounds: "unat a + n \<le> 2 ^ 32 \<Longrightarrow> x \<in> span a n \<longleftrightarrow> unat a \<le> unat x \<and> unat x < unat a + n"
proof
  assume a: "unat a + n \<le> 2 ^ 32"
  show "unat a \<le> unat x \<and> unat x < unat a + n" if "x \<in> span a n"
  proof -
    from span_split [OF that] obtain i where i: "x = a + of_nat i" "i < n" by blast
    then have "unat x = unat a + i" using a by (simp add: unat_word_ariths unat_of_nat)
    then show ?thesis using i by simp
  qed
  show "x \<in> span a n" if "unat a \<le> unat x \<and> unat x < unat a + n"
    using that by (simp add: span_def unat_sub word_le_nat_alt) arith
qed

text \<open>Blocks of a heap: aligned, inside memory, apart from each other.\<close>

definition blocks_apart :: "(u32 \<times> u32) set \<Rightarrow> bool" where
  "blocks_apart L \<longleftrightarrow>
    (\<forall>b \<in> L. 16 dvd unat (fst b) \<and> 0xC0400000 \<le> unat (fst b) \<and> unat (fst b) + unat (snd b) \<le> 2 ^ 32) \<and>
    (\<forall>b \<in> L. \<forall>c \<in> L. b \<noteq> c \<longrightarrow> block_mem b \<inter> block_mem c = {})"

lemma heap_even_apart: "heap_even hp s L \<Longrightarrow> blocks_apart L"
proof -
  assume "heap_even hp s L"
  then obtain bl where bl: "heap_inv hp s bl" "L = in_use bl" by (auto simp: heap_even_def)
  then have lay: "layout hp (mem s) (k_heap_end s) bl" by (simp add: heap_inv_def)
  have "16 dvd unat p \<and> 0xC0400000 \<le> unat p \<and> unat p + unat n \<le> 2 ^ 32" if pn: "(p, n) \<in> L" for p n
  proof -
    obtain a where a: "p = a + 16" "(a, n, False) \<in> set bl" using pn bl(2) by (auto simp: in_use_def used_def)
    have u: "unat p = unat a + 16" using unat_payload [OF lay a(2)] a(1) by simp
    have "16 dvd unat a" using layout_block(1) [OF lay a(2)] by (simp add: chunk_ok_def)
    then have "16 dvd unat p" unfolding u by presburger
    then show ?thesis using layout_block(4,5) [OF lay a(2)] u unat_lt_32 [of "k_heap_end s"] by simp
  qed
  then show ?thesis using in_use_apart [OF lay] bl(2) by (fastforce simp: blocks_apart_def)
qed

lemma blocks_apart_span:
  assumes "blocks_apart L" and "b \<in> L"
  shows "block_mem b = span (fst b) (unat (snd b))" and "aligned (fst b)" and "fst b \<noteq> 0"
    and "c \<in> L \<Longrightarrow> b \<noteq> c \<Longrightarrow> block_mem b \<inter> block_mem c = {}" and "0 \<notin> block_mem b"
proof -
  have b: "16 dvd unat (fst b)" "0xC0400000 \<le> unat (fst b)" "unat (fst b) + unat (snd b) \<le> 2 ^ 32"
    using assms by (auto simp: blocks_apart_def)
  show "block_mem b = span (fst b) (unat (snd b))" using span_bounds [OF b(3)] by (auto simp: block_mem_def)
  have "unat (fst b) mod 4 = 0" using b(1) by presburger
  then show "aligned (fst b)" by (simp add: aligned_unat)
  show "fst b \<noteq> 0" "0 \<notin> block_mem b" using b(2) by (auto simp: block_mem_def)
  show "c \<in> L \<Longrightarrow> b \<noteq> c \<Longrightarrow> block_mem b \<inter> block_mem c = {}" using assms by (simp add: blocks_apart_def)
qed

lemma block_cell: "blocks_apart L \<Longrightarrow> b \<in> L \<Longrightarrow> unat k < unat (snd b) \<Longrightarrow> fst b + k \<in> block_mem b"
  by (simp add: blocks_apart_span(1))

lemma block_cells_apart:
  assumes "blocks_apart L" and "b \<in> L" "c \<in> L" and "unat j < unat (snd b)" "unat k < unat (snd c)"
  shows "fst b + j = fst c + k \<longleftrightarrow> b = c \<and> j = k"
proof
  assume "fst b + j = fst c + k"
  then have "b = c" using blocks_apart_span(4) [OF assms(1-3)] block_cell [OF assms(1,2,4)] block_cell [OF assms(1,3,5)] by auto
  then show "b = c \<and> j = k" using \<open>fst b + j = fst c + k\<close> by simp
qed simp

text \<open>The bytes at an address, and the cells they lie in.\<close>

definition bytes_of :: "cells \<Rightarrow> u32 \<Rightarrow> nat \<Rightarrow> u8 list" where
  "bytes_of m p n = map (\<lambda>i. load8 m (p + of_nat i)) [0..<n]"

definition byte_cells :: "u32 \<Rightarrow> nat \<Rightarrow> u32 set" where
  "byte_cells p n = (\<lambda>i. cell_of (p + of_nat i)) ` {..<n}"

lemma bytes_of_frame: "(\<And>c. c \<in> byte_cells p n \<Longrightarrow> m' c = m c) \<Longrightarrow> bytes_of m' p n = bytes_of m p n"
  unfolding bytes_of_def byte_cells_def by (auto intro: load8_cong)

lemma byte_cells_span: "aligned p \<Longrightarrow> byte_cells p n \<subseteq> span p n"
  using cell_of_span by (auto simp: byte_cells_def)

lemma memcpy_bytes:
  assumes "byte_cells d (unat n) \<inter> byte_cells p (unat n) = {}"
  shows "bytes_of (memcpy m d p n) d (unat n) = bytes_of m p (unat n)"
    and "c \<notin> byte_cells d (unat n) \<Longrightarrow> memcpy m d p n c = m c"
proof -
  show "c \<notin> byte_cells d (unat n) \<Longrightarrow> memcpy m d p n c = m c"
    by (rule memcpy_outside) (auto simp: byte_cells_def)
  have "d = p \<or> unat n \<le> unat (d - p)"
  proof (rule ccontr)
    assume "\<not> (d = p \<or> unat n \<le> unat (d - p))"
    then have j: "unat (d - p) < unat n" "0 < unat n" by auto
    have "cell_of (p + of_nat (unat (d - p))) \<in> byte_cells p (unat n)" using j(1) unfolding byte_cells_def by blast
    moreover have "cell_of (d + of_nat 0) \<in> byte_cells d (unat n)" using j(2) unfolding byte_cells_def by blast
    ultimately show False using assms by auto
  qed
  note cp = memcpy_correct [OF this, of m]
  have "unat (of_nat i :: u32) = i" if "i < unat n" for i using that unat_lt_32 [of n] by (subst unat_of_nat) simp
  then show "bytes_of (memcpy m d p n) d (unat n) = bytes_of m p (unat n)" by (simp add: bytes_of_def cp)
qed

section \<open>The representation\<close>

text \<open>A message: its block, the block of its data, and the bytes.\<close>

type_synonym message = "(u32 \<times> u32) \<times> (u32 \<times> u32) \<times> u8 list"

definition queue_blocks :: "u32 \<times> u32 \<Rightarrow> message list \<Rightarrow> (u32 \<times> u32) list" where
  "queue_blocks Q ms = Q # map fst ms @ map (fst \<circ> snd) ms"

definition queue_mem :: "(u32 \<times> u32) set \<Rightarrow> u32 \<Rightarrow> u32 \<times> u32 \<Rightarrow> message list \<Rightarrow> bool" where
  "queue_mem L sz Q ms \<longleftrightarrow> blocks_apart L \<and> distinct (queue_blocks Q ms) \<and> set (queue_blocks Q ms) \<subseteq> L \<and> 40 \<le> unat (snd Q) \<and>
     (\<forall>(b, d, x) \<in> set ms. 12 \<le> unat (snd b) \<and> unat sz \<le> unat (snd d))"

definition queue_rep :: "cells \<Rightarrow> u32 \<Rightarrow> u32 \<Rightarrow> u32 \<Rightarrow> u32 \<Rightarrow> message list \<Rightarrow> bool" where
  "queue_rep m queue cap sz own ms \<longleftrightarrow>
     dll m queue (map (fst \<circ> fst) ms) \<and> dll m (waiters queue) [] \<and>
     m (max_slots queue) = cap \<and> m (elem_sz queue) = sz \<and> m (owner queue) = own \<and>
     length ms \<le> unat cap \<and> m (free_slots queue) = cap - of_nat (length ms) \<and>
     (\<forall>(b, d, x) \<in> set ms. m (data_ptr (fst b)) = fst d \<and> x = bytes_of m (fst d) (unat sz))"

definition queue_area :: "u32 \<times> u32 \<Rightarrow> message list \<Rightarrow> u32 set" where
  "queue_area Q ms = (\<Union>b \<in> set (queue_blocks Q ms). block_mem b)"

lemma queue_memD:
  assumes "queue_mem L sz Q ms"
  shows "blocks_apart L" "Q \<in> L" "40 \<le> unat (snd Q)"
    "(b, d, x) \<in> set ms \<Longrightarrow> b \<in> L" "(b, d, x) \<in> set ms \<Longrightarrow> d \<in> L" "(b, d, x) \<in> set ms \<Longrightarrow> b \<noteq> Q" "(b, d, x) \<in> set ms \<Longrightarrow> d \<noteq> Q"
    "(b, d, x) \<in> set ms \<Longrightarrow> 12 \<le> unat (snd b)" "(b, d, x) \<in> set ms \<Longrightarrow> unat sz \<le> unat (snd d)"
    "(b, d, x) \<in> set ms \<Longrightarrow> (b', d', x') \<in> set ms \<Longrightarrow> b \<noteq> d'"
proof -
  show "blocks_apart L" "Q \<in> L" "40 \<le> unat (snd Q)" using assms by (simp_all add: queue_mem_def queue_blocks_def)
  have dist: "Q \<notin> fst ` set ms" "Q \<notin> (fst \<circ> snd) ` set ms" "fst ` set ms \<inter> (fst \<circ> snd) ` set ms = {}"
    and sub: "fst ` set ms \<subseteq> L" "(fst \<circ> snd) ` set ms \<subseteq> L"
    using assms by (simp_all add: queue_mem_def queue_blocks_def)
  have i: "b \<in> fst ` set ms" "d \<in> (fst \<circ> snd) ` set ms" if "(b, d, x) \<in> set ms" for b d x
    using image_eqI [OF _ that, of b fst] image_eqI [OF _ that, of d "fst \<circ> snd"] by simp_all
  show "(b, d, x) \<in> set ms \<Longrightarrow> b \<in> L" "(b, d, x) \<in> set ms \<Longrightarrow> d \<in> L" using i sub by blast+
  show "(b, d, x) \<in> set ms \<Longrightarrow> b \<noteq> Q" "(b, d, x) \<in> set ms \<Longrightarrow> d \<noteq> Q"
    "(b, d, x) \<in> set ms \<Longrightarrow> (b', d', x') \<in> set ms \<Longrightarrow> b \<noteq> d'" using i dist by blast+
  show "(b, d, x) \<in> set ms \<Longrightarrow> 12 \<le> unat (snd b)" "(b, d, x) \<in> set ms \<Longrightarrow> unat sz \<le> unat (snd d)"
    using assms by (auto simp: queue_mem_def)
qed

text \<open>The links of the list: the header and the first two words of the messages. All else is apart from them.\<close>

lemma queue_foot:
  assumes "queue_mem L sz Q ms"
  shows "set (foot (fst Q) (map (fst \<circ> fst) ms)) \<subseteq> queue_area Q ms"
    and "12 \<le> unat k \<Longrightarrow> unat k < 40 \<Longrightarrow> fst Q + k \<notin> set (foot (fst Q) (map (fst \<circ> fst) ms))"
    and "(b, d, x) \<in> set ms \<Longrightarrow> data_ptr (fst b) \<notin> set (foot (fst Q) (map (fst \<circ> fst) ms))"
    and "(b, d, x) \<in> set ms \<Longrightarrow> block_mem d \<inter> set (foot (fst Q) (map (fst \<circ> fst) ms)) = {}"
proof -
  note q = queue_memD [OF assms]
  have foot: "\<exists>a \<in> insert Q (fst ` set ms). \<exists>j. c = fst a + j \<and> (if a = Q then unat j < 12 else unat j < 8)"
    if c: "c \<in> set (foot (fst Q) (map (fst \<circ> fst) ms))" for c
  proof -
    from c consider "c = fst Q + 0" | "c = fst Q + 4" | "c = fst Q + 8" | a d x where "(a, d, x) \<in> set ms" "c = fst a + 0 \<or> c = fst a + 4"
      by (force simp: set_foot)
    then show ?thesis
    proof cases
      case (4 a d x)
      have "a \<noteq> Q" "a \<in> fst ` set ms" using q(6) [OF 4(1)] image_eqI [OF _ 4(1), of a fst] by simp_all
      then show ?thesis using 4(2) by (intro bexI [of _ a]) (elim disjE, auto intro: exI [of _ 0] exI [of _ 4])
    qed (auto intro: exI [of _ 0] exI [of _ 4] exI [of _ 8])
  qed
  have foot12: "\<exists>a \<in> insert Q (fst ` set ms). \<exists>j. c = fst a + j \<and> unat j < 12" if c: "c \<in> set (foot (fst Q) (map (fst \<circ> fst) ms))" for c
  proof -
    from foot [OF c] obtain a j where a: "a \<in> insert Q (fst ` set ms)" "c = fst a + j" "if a = Q then unat j < 12 else unat j < 8" by blast
    then have "unat j < 12" by (simp split: if_splits)
    then show ?thesis using a(1,2) by blast
  qed
  have inL: "a \<in> L \<and> 12 \<le> unat (snd a)" if "a \<in> insert Q (fst ` set ms)" for a using that q(2-4,8) by force
  have sub: "a \<in> set (queue_blocks Q ms)" if "a \<in> insert Q (fst ` set ms)" for a using that by (auto simp: queue_blocks_def)
  show "set (foot (fst Q) (map (fst \<circ> fst) ms)) \<subseteq> queue_area Q ms"
  proof
    fix c assume "c \<in> set (foot (fst Q) (map (fst \<circ> fst) ms))"
    then obtain a j where a: "a \<in> insert Q (fst ` set ms)" "c = fst a + j" "unat j < 12" using foot12 by blast
    then have "c \<in> block_mem a" using block_cell [OF q(1)] inL [OF a(1)] by simp
    then show "c \<in> queue_area Q ms" using sub [OF a(1)] unfolding queue_area_def by blast
  qed
  show "fst Q + k \<notin> set (foot (fst Q) (map (fst \<circ> fst) ms))" if k: "12 \<le> unat k" "unat k < 40"
  proof
    assume "fst Q + k \<in> set (foot (fst Q) (map (fst \<circ> fst) ms))"
    then obtain a j where a: "a \<in> insert Q (fst ` set ms)" "fst Q + k = fst a + j" "unat j < 12" using foot12 by blast
    then have "Q = a \<and> k = j" using block_cells_apart [OF q(1,2), of a k j] inL [OF a(1)] k q(3) by simp
    then show False using a(3) k by simp
  qed
  show "data_ptr (fst b) \<notin> set (foot (fst Q) (map (fst \<circ> fst) ms))" if b: "(b, d, x) \<in> set ms"
  proof
    assume "data_ptr (fst b) \<in> set (foot (fst Q) (map (fst \<circ> fst) ms))"
    then obtain a j where a: "a \<in> insert Q (fst ` set ms)" "fst b + 8 = fst a + j" "if a = Q then unat j < 12 else unat j < 8"
      using foot unfolding data_ptr_def by blast
    then have "b = a \<and> 8 = j"
      using block_cells_apart [OF q(1) q(4) [OF b], of a 8 j] inL [OF a(1)] q(8) [OF b] by (simp split: if_splits)
    then show False using a(3) q(6) [OF b] by auto
  qed
  show "block_mem d \<inter> set (foot (fst Q) (map (fst \<circ> fst) ms)) = {}" if b: "(b, d, x) \<in> set ms"
  proof -
    have "c \<notin> block_mem d" if c: "c \<in> set (foot (fst Q) (map (fst \<circ> fst) ms))" for c
    proof -
      obtain a j where a: "a \<in> insert Q (fst ` set ms)" "c = fst a + j" "unat j < 12" using foot12 [OF c] by blast
      have "c \<in> block_mem a" using block_cell [OF q(1)] inL [OF a(1)] a by simp
      moreover have "a \<noteq> d"
      proof (cases "a = Q")
        case False
        then obtain d' x' where "(a, d', x') \<in> set ms" using a(1) by auto
        then show ?thesis using q(10) [OF _ b] by blast
      qed (use q(7) [OF b] in blast)
      ultimately show ?thesis using blocks_apart_span(4) [OF q(1) q(5) [OF b], of a] inL [OF a(1)] by blast
    qed
    then show ?thesis by blast
  qed
qed

lemma queue_area_apart:
  assumes "queue_mem L sz Q ms" and "b \<in> L" "b \<notin> set (queue_blocks Q ms)"
  shows "block_mem b \<inter> queue_area Q ms = {}"
  using assms blocks_apart_span(4) [OF queue_memD(1) [OF assms(1)] assms(2)]
  unfolding queue_area_def queue_mem_def by blast

lemma queue_area_fields:
  assumes "queue_mem L sz Q ms"
  shows "unat k < 40 \<Longrightarrow> fst Q + k \<in> queue_area Q ms"
    and "(b, d, x) \<in> set ms \<Longrightarrow> data_ptr (fst b) \<in> queue_area Q ms"
    and "(b, d, x) \<in> set ms \<Longrightarrow> byte_cells (fst d) (unat sz) \<subseteq> queue_area Q ms"
    and "(b, d, x) \<in> set ms \<Longrightarrow> byte_cells (fst d) (unat sz) \<subseteq> block_mem d"
    and "(b, d, x) \<in> set ms \<Longrightarrow> unat k < 40 \<Longrightarrow> data_ptr (fst b) \<noteq> fst Q + k"
    and "(b, d, x) \<in> set ms \<Longrightarrow> unat k < 40 \<Longrightarrow> fst Q + k \<notin> block_mem d"
proof -
  note q = queue_memD [OF assms]
  have i: "b \<in> set (queue_blocks Q ms)" "d \<in> set (queue_blocks Q ms)" if "(b, d, x) \<in> set ms" for b d x
    using image_eqI [OF _ that, of b fst] image_eqI [OF _ that, of d "fst \<circ> snd"] by (simp_all add: queue_blocks_def)
  have Q: "fst Q + k \<in> block_mem Q" if "unat k < 40" for k using block_cell [OF q(1,2)] q(3) that by simp
  then show "unat k < 40 \<Longrightarrow> fst Q + k \<in> queue_area Q ms" by (auto simp: queue_area_def queue_blocks_def)
  have p: "data_ptr (fst b) \<in> block_mem b" if "(b, d, x) \<in> set ms" for b d x
    using block_cell [OF q(1) q(4) [OF that], of 8] q(8) [OF that] by (simp add: data_ptr_def)
  show "(b, d, x) \<in> set ms \<Longrightarrow> data_ptr (fst b) \<in> queue_area Q ms" unfolding queue_area_def by (rule UN_I [OF i(1) p])
  have d: "byte_cells (fst d) (unat sz) \<subseteq> block_mem d" if "(b, d, x) \<in> set ms" for b d x
    using byte_cells_span [OF blocks_apart_span(2) [OF q(1) q(5) [OF that]], of "unat sz"] span_mono [OF q(9) [OF that]]
      blocks_apart_span(1) [OF q(1) q(5) [OF that]] by blast
  then show "(b, d, x) \<in> set ms \<Longrightarrow> byte_cells (fst d) (unat sz) \<subseteq> block_mem d" .
  have "block_mem d \<subseteq> queue_area Q ms" if "(b, d, x) \<in> set ms" for b d x unfolding queue_area_def by (rule UN_upper [OF i(2) [OF that]])
  from order_trans [OF d this] show "(b, d, x) \<in> set ms \<Longrightarrow> byte_cells (fst d) (unat sz) \<subseteq> queue_area Q ms" .
  show "data_ptr (fst b) \<noteq> fst Q + k" if "(b, d, x) \<in> set ms" "unat k < 40"
    using p [OF that(1)] Q [OF that(2)] blocks_apart_span(4) [OF q(1) q(4) [OF that(1)] q(2) q(6) [OF that(1)]] by (metis disjoint_iff)
  show "fst Q + k \<notin> block_mem d" if "(b, d, x) \<in> set ms" "unat k < 40"
    using Q [OF that(2)] blocks_apart_span(4) [OF q(1) q(5) [OF that(1)] q(2) q(7) [OF that(1)]] by blast
qed

text \<open>A step of the list that writes nothing but links of the new sequence, with the new count of free slots.\<close>

lemma queue_rep_step:
  assumes mem: "queue_mem L sz Q ms'" and old: "queue_rep m (fst Q) cap sz own ms"
    and dll: "dll m1 (fst Q) (map (fst \<circ> fst) ms')"
    and frame: "\<And>c. c \<notin> set (foot (fst Q) (map (fst \<circ> fst) ms')) \<Longrightarrow> m1 c = m c"
    and data: "\<And>b d x. (b, d, x) \<in> set ms' \<Longrightarrow> m (data_ptr (fst b)) = fst d \<and> x = bytes_of m (fst d) (unat sz)"
    and len: "length ms' \<le> unat cap"
  shows "queue_rep (m1(free_slots (fst Q) := cap - of_nat (length ms'))) (fst Q) cap sz own ms'"
proof -
  let ?m = "m1(free_slots (fst Q) := cap - of_nat (length ms'))"
  note ft = queue_foot [OF mem] and ar = queue_area_fields [OF mem]
  have fld: "?m (fst Q + k) = m (fst Q + k)" if "16 \<le> unat k" "unat k < 40" for k
    using frame [OF ft(2) [of k]] that by (auto simp: free_slots_def)
  have "dll ?m (fst Q) (map (fst \<circ> fst) ms')"
    using ft(2) [of 12] by (intro dll_frame [OF dll]) (auto simp: free_slots_def)
  moreover have "dll m (waiters (fst Q)) []" using old by (simp add: queue_rep_def)
  then have "dll ?m (waiters (fst Q)) []"
    using fld [of 28] fld [of 32] fld [of 36] by (elim dll_frame) (auto simp: foot_def waiters_def add.assoc simp del: fun_upd_apply)
  moreover have "?m (data_ptr (fst b)) = fst d \<and> x = bytes_of ?m (fst d) (unat sz)" if e: "(b, d, x) \<in> set ms'" for b d x
  proof -
    have "?m (data_ptr (fst b)) = m (data_ptr (fst b))"
      using frame [OF ft(3) [OF e]] ar(5) [OF e, of 12] by (simp add: free_slots_def)
    moreover have "?m c = m c" if "c \<in> byte_cells (fst d) (unat sz)" for c
    proof -
      have c: "c \<in> block_mem d" using ar(4) [OF e] that by blast
      then have "c \<noteq> fst Q + 12" using ar(6) [OF e, of 12] by auto
      moreover have "c \<notin> set (foot (fst Q) (map (fst \<circ> fst) ms'))" using ft(4) [OF e] c by blast
      ultimately show ?thesis using frame by (simp add: free_slots_def)
    qed
    then have "bytes_of ?m (fst d) (unat sz) = bytes_of m (fst d) (unat sz)" by (rule bytes_of_frame)
    ultimately show ?thesis using data [OF e] by simp
  qed
  ultimately show ?thesis
    using old len fld [of 16] fld [of 20] fld [of 24] by (auto simp: queue_rep_def queue_defs)
qed

lemma queue_rep_frame:
  assumes mem: "queue_mem L sz Q ms" and rep: "queue_rep m (fst Q) cap sz own ms" and same: "\<And>c. c \<in> queue_area Q ms \<Longrightarrow> m' c = m c"
  shows "queue_rep m' (fst Q) cap sz own ms"
proof -
  note ar = queue_area_fields [OF mem]
  have "dll m (fst Q) (map (fst \<circ> fst) ms)" using rep by (simp add: queue_rep_def)
  then have "dll m' (fst Q) (map (fst \<circ> fst) ms)" using same queue_foot(1) [OF mem] by (elim dll_frame) blast
  moreover have f: "m' (fst Q + k) = m (fst Q + k)" if "unat k < 40" for k using same ar(1) that by blast
  have "dll m (waiters (fst Q)) []" using rep by (simp add: queue_rep_def)
  then have "dll m' (waiters (fst Q)) []"
    using f [of 28] f [of 32] f [of 36] by (elim dll_frame) (auto simp: foot_def waiters_def add.assoc)
  moreover have "m' (data_ptr (fst b)) = fst d \<and> x = bytes_of m' (fst d) (unat sz)" if e: "(b, d, x) \<in> set ms" for b d x
  proof -
    have "bytes_of m' (fst d) (unat sz) = bytes_of m (fst d) (unat sz)" using ar(3) [OF e] same by (intro bytes_of_frame) blast
    then show ?thesis using rep e same [OF ar(2) [OF e]] by (auto simp: queue_rep_def)
  qed
  ultimately show ?thesis
    using rep f [of 12] f [of 16] f [of 20] f [of 24] by (auto simp: queue_rep_def queue_defs)
qed

end
