(* ===== verification/QueueProps.thy ===== *)
theory QueueProps
  imports QueueSpec
begin

text \<open>
  The operations of queue.c on well-formed queues, in a kernel with well-formed tasks and a regular heap.
\<close>

section \<open>A new message\<close>

lemma even_msg: "even_size sizeof_queue_msg" "unat sizeof_queue_msg = 12"
  by (simp_all add: even_size_def sizeof_queue_msg_def align_size_def)

lemma make_msg_ok:
  fixes s :: "'a kernel_state_scheme"
  assumes st: "settled W T LS K q L s" and vars: "vars_ok W K" and sz: "even_size sz" "unat sz \<le> 2032" and room: "4 \<le> card (free_pages s)"
    and esz: "mem s (elem_sz queue) = sz" "elem_sz queue \<in> even_heap.kept (k_heap_start W) L - call_stack W K s"
    and msg: "msg \<noteq> 0" "byte_cells msg (unat sz) \<subseteq> even_heap.kept (k_heap_start W) L - call_stack W K s"
  shows "\<exists>b d s'. make_msg W queue msg s = ret (fst b, s') \<and> settled W T LS K q (insert d (insert b L)) s' \<and> same_tasks s s' \<and>
    b \<notin> L \<and> d \<notin> insert b L \<and> 12 \<le> unat (snd b) \<and> unat sz \<le> unat (snd d) \<and> fst b \<noteq> 0 \<and>
    mem s' (data_ptr (fst b)) = fst d \<and> bytes_of (mem s') (fst d) (unat sz) = bytes_of (mem s) msg (unat sz) \<and>
    (block_mem b \<union> block_mem d) \<inter> even_heap.kept (k_heap_start W) L = {} \<and> card (free_pages s) \<le> card (free_pages s') + 4 \<and>
    (\<forall>c \<in> even_heap.kept (k_heap_start W) L - call_stack W K s. mem s' c = mem s c)"
proof -
  let ?hp = "k_heap_start W" and ?C = "call_stack W K s"
  have "served sizeof_queue_msg s" using room by (simp add: served_def even_msg)
  from settled_kmalloc [OF st vars even_msg(1) this] obtain n kn s1 where
    s1: "kmalloc W sizeof_queue_msg s = ret (n, s1)" "settled W T LS K q (insert (n, kn) L) s1" "same_tasks s s1" "(n, kn) \<notin> L"
    and b: "12 \<le> unat kn" "n \<noteq> 0" "block_mem (n, kn) \<inter> even_heap.kept ?hp L = {}" "card (free_pages s) \<le> card (free_pages s1) + 2"
    and m1: "\<forall>c \<in> even_heap.kept ?hp L - ?C. mem s1 c = mem s c" unfolding even_msg(2) by blast
  let ?b = "(n, kn)" let ?L1 = "insert ?b L"
  note apart1 = heap_even_apart [OF settledD(4) [OF s1(2)]]
  note bb = blocks_apart_span [OF apart1, of ?b, simplified]
  have n12: "span n 12 \<subseteq> block_mem ?b" using bb(1) span_mono [OF b(1)] by simp
  let ?s1 = "s1\<lparr>mem := memset (mem s1) n 0 sizeof_queue_msg\<rparr>"
  have new: "block_mem ?b \<subseteq> even_heap.kept ?hp ?L1" by (auto simp: even_heap.kept_def)
  have area: "block_mem ?b \<inter> task_area T LS = {}" using b(3) settledD(5) [OF st] by blast
  have set0: "memset (mem s1) n 0 sizeof_queue_msg c = mem s1 c" if "c \<notin> block_mem ?b" for c
    using that n12 even_msg(2) bb(2) by (intro memset_span) auto
  have st1: "settled W T LS K q ?L1 ?s1" using set0 new area by (rule settled_write [OF s1(2)])
  have keep1: "mem ?s1 c = mem s c" if "c \<in> even_heap.kept ?hp L - ?C" for c
  proof -
    have "c \<notin> block_mem ?b" using that b(3) by blast
    then show ?thesis using set0 m1 that by simp
  qed
  have e1: "mem ?s1 (elem_sz queue) = sz" using keep1 [OF esz(2)] esz(1) by simp
  have pages1: "free_pages ?s1 = free_pages s1" by (simp add: free_pages_def page_free_def [abs_def])
  then have "served sz ?s1" using b(4) room sz(2) by (simp add: served_def)
  moreover have C1: "call_stack W K ?s1 = ?C" using same_tasks_ready(6) [OF s1(3)] by (simp add: call_stack_def)
  ultimately have "served sz ?s1" by simp
  from settled_kmalloc [OF st1 vars sz(1) this] obtain p kd s2 where
    s2: "kmalloc W sz ?s1 = ret (p, s2)" "settled W T LS K q (insert (p, kd) ?L1) s2" "same_tasks ?s1 s2" "(p, kd) \<notin> ?L1"
    and d: "unat sz \<le> unat kd" "p \<noteq> 0" "block_mem (p, kd) \<inter> even_heap.kept ?hp ?L1 = {}"
      "card (free_pages ?s1) \<le> card (free_pages s2) + 2"
    and m2: "\<forall>c \<in> even_heap.kept ?hp ?L1 - ?C. mem s2 c = mem ?s1 c" unfolding C1 by blast
  let ?d = "(p, kd)" let ?L2 = "insert ?d ?L1"
  have sub: "even_heap.kept ?hp L \<subseteq> even_heap.kept ?hp ?L1" "even_heap.kept ?hp ?L1 \<subseteq> even_heap.kept ?hp ?L2" by (rule kept_mono)+
  note dd = blocks_apart_span [OF heap_even_apart [OF settledD(4) [OF s2(2)]], of ?d, simplified]
  define m' where "m' = (mem s2)(data_ptr n := p)"
  define m3 where "m3 = memcpy m' p msg sz"
  have cells: "byte_cells p (unat sz) \<subseteq> block_mem ?d" using byte_cells_span [OF dd(2)] span_mono [OF d(1)] dd(1) by fastforce
  then have ov: "byte_cells p (unat sz) \<inter> byte_cells msg (unat sz) = {}" using d(3) msg(2) sub(1) by blast
  note cp = memcpy_bytes [OF ov, where m = m', folded m3_def]
  have ptr: "data_ptr n \<in> block_mem ?b" using bb(1) b(1) by (simp add: data_ptr_def)
  then have "data_ptr n \<notin> byte_cells p (unat sz)" using cells d(3) new by blast
  then have p3: "m3 (data_ptr n) = p" using cp(2) by (simp add: m'_def)
  have keep2: "m' c = mem s c" if "c \<in> even_heap.kept ?hp L - ?C" for c
  proof -
    have "c \<noteq> data_ptr n" using ptr b(3) that by blast
    moreover have "c \<in> even_heap.kept ?hp ?L1 - ?C" using that sub(1) by blast
    ultimately show ?thesis using m2 keep1 [OF that] by (simp add: m'_def)
  qed
  have "bytes_of m' msg (unat sz) = bytes_of (mem s) msg (unat sz)" using keep2 msg(2) by (intro bytes_of_frame) blast
  then have bytes: "bytes_of m3 p (unat sz) = bytes_of (mem s) msg (unat sz)" using cp(1) by simp
  have other: "m3 c = mem s2 c" if "c \<notin> block_mem ?b \<union> block_mem ?d" for c
  proof -
    have "c \<notin> byte_cells p (unat sz)" "c \<noteq> data_ptr n" using that ptr cells by blast+
    then show ?thesis using cp(2) by (simp add: m'_def)
  qed
  have "block_mem ?d \<subseteq> even_heap.kept ?hp ?L2" by (auto simp: even_heap.kept_def)
  moreover have "block_mem ?d \<inter> task_area T LS = {}" using d(3) settledD(5) [OF st1] by blast
  ultimately have st3: "settled W T LS K q ?L2 (s2\<lparr>mem := m3\<rparr>)"
    using new area sub(2) by (intro settled_write [OF s2(2) other]) blast+
  have keep3: "m3 c = mem s c" if "c \<in> even_heap.kept ?hp L - ?C" for c
  proof -
    have "c \<notin> byte_cells p (unat sz)" using that d(3) sub(1) cells by blast
    then show ?thesis using keep2 [OF that] cp(2) by simp
  qed
  have "elem_sz queue \<notin> block_mem ?b" using b(3) esz(2) by blast
  then have ne: "elem_sz queue \<noteq> data_ptr n" using ptr by metis
  have e2: "m' (elem_sz queue) = sz" using keep2 [OF esz(2)] esz(1) by simp
  have "make_msg W queue msg s = ret (n, s2\<lparr>mem := m3\<rparr>)"
    using s1(1) s2(1) b(2) d(2) msg(1) e1 e2 ne by (simp add: make_msg_def Let_def upd_def m3_def m'_def)
  moreover have "same_tasks s (s2\<lparr>mem := m3\<rparr>)"
    using s1(3) s2(3) by (simp add: same_tasks_def same_kernel_def)
  moreover have "(block_mem ?b \<union> block_mem ?d) \<inter> even_heap.kept ?hp L = {}" using b(3) d(3) sub(1) by blast
  moreover have "free_pages (s2\<lparr>mem := m3\<rparr>) = free_pages s2" by (simp add: free_pages_def page_free_def [abs_def])
  then have "card (free_pages s) \<le> card (free_pages (s2\<lparr>mem := m3\<rparr>)) + 4" using b(4) d(4) pages1 by simp
  ultimately show ?thesis using st3 s1(4) s2(4) b(1,2) d(1) p3 bytes keep3
    by (intro exI [of _ ?b] exI [of _ ?d] exI [of _ "s2\<lparr>mem := m3\<rparr>"]) simp
qed

section \<open>A well-formed queue in a well-formed kernel\<close>

definition queue_inv ::
  "'a kernel_state_scheme sys \<Rightarrow> u32 set \<Rightarrow> u32 set \<Rightarrow> u32 set \<Rightarrow> (u32 \<Rightarrow> u32 list) \<Rightarrow> (u32 \<times> u32) set \<Rightarrow> u32 \<times> u32 \<Rightarrow>
   u32 \<Rightarrow> u32 \<Rightarrow> u32 \<Rightarrow> message list \<Rightarrow> 'a kernel_state_scheme \<Rightarrow> bool" where
  "queue_inv W T LS K q L Q cap sz own ms s \<longleftrightarrow>
    active W T LS K q s \<and> can_trap W K s \<and> counters_ok s \<and> heap_even (k_heap_start W) s L \<and>
    task_area T LS \<union> K \<subseteq> even_heap.kept (k_heap_start W) L \<and> own \<in> T \<and>
    queue_mem L sz Q ms \<and> queue_rep (mem s) (fst Q) cap sz own ms \<and> queue_area Q ms \<inter> (task_area T LS \<union> K) = {}"

lemma queue_invD:
  assumes "queue_inv W T LS K q L Q cap sz own ms s"
  shows "active W T LS K q s" "can_trap W K s" "counters_ok s" "heap_even (k_heap_start W) s L"
    "task_area T LS \<union> K \<subseteq> even_heap.kept (k_heap_start W) L" "own \<in> T" "queue_mem L sz Q ms" "queue_rep (mem s) (fst Q) cap sz own ms"
    "queue_area Q ms \<inter> (task_area T LS \<union> K) = {}"
    "settled W T LS K q L (forbid s)" "queue_area Q ms \<subseteq> even_heap.kept (k_heap_start W) L - K"
proof -
  show a: "active W T LS K q s" "can_trap W K s" "counters_ok s" "heap_even (k_heap_start W) s L"
    "task_area T LS \<union> K \<subseteq> even_heap.kept (k_heap_start W) L" "own \<in> T" "queue_mem L sz Q ms" "queue_rep (mem s) (fst Q) cap sz own ms"
    "queue_area Q ms \<inter> (task_area T LS \<union> K) = {}"
    using assms by (simp_all add: queue_inv_def)
  show "settled W T LS K q L (forbid s)" by (rule settled_forbid [OF a(1-5)])
  have "set (queue_blocks Q ms) \<subseteq> L" using a(7) by (simp add: queue_mem_def)
  then show "queue_area Q ms \<subseteq> even_heap.kept (k_heap_start W) L - K"
    using a(9) unfolding queue_area_def even_heap.kept_def by blast
qed

lemma queue_fields_kept:
  assumes "queue_inv W T LS K q L Q cap sz own ms s" and "unat k < 40"
  shows "fst Q + k \<in> even_heap.kept (k_heap_start W) L - K"
  using queue_area_fields(1) [OF queue_invD(7) [OF assms(1)] assms(2)] queue_invD(11) [OF assms(1)] by blast

section \<open>Sending\<close>

lemma queue_blocks_Cons: "set (queue_blocks Q ((b, d, x) # ms)) = {b, d} \<union> set (queue_blocks Q ms)"
  by (auto simp: queue_blocks_def)

lemma queue_area_Cons: "queue_area Q ((b, d, x) # ms) = block_mem b \<union> block_mem d \<union> queue_area Q ms"
  unfolding queue_area_def queue_blocks_Cons by blast

lemma queue_mem_Cons:
  assumes "queue_mem L sz Q ms" and "blocks_apart (insert d (insert b L))" and "b \<notin> L" "d \<notin> insert b L"
    and "12 \<le> unat (snd b)" "unat sz \<le> unat (snd d)"
  shows "queue_mem (insert d (insert b L)) sz Q ((b, d, x) # ms)"
  using assms by (auto simp: queue_mem_def queue_blocks_def)

lemma fresh_message:
  assumes mem: "queue_mem L' sz Q ((b, d, x) # ms)"
  shows "fresh (fst Q) (map (fst \<circ> fst) ms) (fst b)"
proof -
  note q = queue_memD [OF mem]
  have b: "b \<in> L'" "12 \<le> unat (snd b)" using q(4) [of b d x] q(8) [of b d x] by simp_all
  have "queue_mem L' sz Q ms" using mem by (auto simp: queue_mem_def queue_blocks_def)
  moreover have "b \<notin> set (queue_blocks Q ms)" using mem by (auto simp: queue_mem_def queue_blocks_def)
  ultimately have "block_mem b \<inter> set (foot (fst Q) (map (fst \<circ> fst) ms)) = {}"
    using queue_area_apart [OF _ b(1), of sz Q ms] queue_foot(1) [of L' sz Q ms] by blast
  moreover have "fst b + 0 \<in> block_mem b" "fst b + 4 \<in> block_mem b" using b by (intro block_cell [OF q(1) b(1)]; simp)+
  moreover have "0 \<notin> block_mem b" by (rule blocks_apart_span(5) [OF q(1) b(1)])
  ultimately have "fst b \<notin> set (foot (fst Q) (map (fst \<circ> fst) ms))" "fst b + 4 \<notin> set (foot (fst Q) (map (fst \<circ> fst) ms))"
    "fst b \<noteq> 0" "fst b + 4 \<noteq> 0" by (metis add.right_neutral disjoint_iff)+
  then show ?thesis using blocks_apart_span(2) [OF q(1) b(1)] by (simp add: fresh_def)
qed

text \<open>\<open>queue_send\<close> up to the signal for the owner, which it sends when the queue was empty: the message is in the queue.\<close>

lemma queue_send_enters:
  fixes s :: "'a kernel_state_scheme"
  assumes inv: "queue_inv W T LS K q L Q cap sz own ms s" and vars: "vars_ok W K" and room: "4 \<le> card (free_pages s)"
    and sz: "even_size sz" "unat sz \<le> 2032" and len: "length ms < unat cap"
    and msg: "msg \<noteq> 0" "byte_cells msg (unat sz) \<subseteq> even_heap.kept (k_heap_start W) L - K"
  shows "\<exists>b d s5. queue_send W (fst Q) msg mode s =
      bnd (if ms = [] then bnd (signal W own TB_QUEUE s5) (\<lambda>(r, s). ret s) else ret s5) (\<lambda>s. ret (fst b, permit s)) \<and>
    fst b \<noteq> 0 \<and> same_tasks (forbid s) s5 \<and> settled W T LS K q (insert d (insert b L)) s5 \<and>
    queue_inv W T LS K q (insert d (insert b L)) Q cap sz own ((b, d, bytes_of (mem s) msg (unat sz)) # ms) (permit s5) \<and>
    (block_mem b \<union> block_mem d) \<inter> even_heap.kept (k_heap_start W) L = {} \<and> card (free_pages s) \<le> card (free_pages s5) + 4 \<and>
    (\<forall>c \<in> even_heap.kept (k_heap_start W) L - call_stack W K s - queue_area Q ms. mem s5 c = mem s c)"
proof -
  let ?hp = "k_heap_start W" and ?x = "bytes_of (mem s) msg (unat sz)"
  note iv = queue_invD [OF inv] and fk = queue_fields_kept [OF inv]
  note rep = iv(8) [unfolded queue_rep_def]
  have cs: "call_stack W K (forbid s) = call_stack W K s" by (simp add: call_stack_def forbid_def)
  have sub: "call_stack W K s \<subseteq> K" by (rule call_stack_on [OF iv(2) vars])
  have es: "elem_sz (fst Q) \<in> even_heap.kept ?hp L - call_stack W K (forbid s)" unfolding cs using fk [of 20] sub by (auto simp: elem_sz_def)
  have bs: "byte_cells msg (unat sz) \<subseteq> even_heap.kept ?hp L - call_stack W K (forbid s)" unfolding cs using msg(2) sub by blast
  from make_msg_ok [OF iv(10) vars sz _ _ es msg(1) bs, unfolded cs] room rep obtain b d s1 where
    s1: "make_msg W (fst Q) msg (forbid s) = ret (fst b, s1)" "settled W T LS K q (insert d (insert b L)) s1" "same_tasks (forbid s) s1"
      "b \<notin> L" "d \<notin> insert b L" "12 \<le> unat (snd b)" "unat sz \<le> unat (snd d)" "fst b \<noteq> 0"
    and new: "mem s1 (data_ptr (fst b)) = fst d" "bytes_of (mem s1) (fst d) (unat sz) = ?x"
      "(block_mem b \<union> block_mem d) \<inter> even_heap.kept ?hp L = {}" "\<forall>c \<in> even_heap.kept ?hp L - call_stack W K s. mem s1 c = mem s c"
      "card (free_pages s) \<le> card (free_pages s1) + 4"
    by auto
  have "\<forall>c \<in> even_heap.kept ?hp L - K. mem s1 c = mem s c" using new(4) sub by blast
  note new4 = new(4) and new = new(1-3) this new(5)
  let ?L = "insert d (insert b L)" and ?ms = "(b, d, ?x) # ms"
  have qm: "queue_mem ?L sz Q ?ms" by (rule queue_mem_Cons [OF iv(7) heap_even_apart [OF settledD(4) [OF s1(2)]] s1(4-7)])
  have rep1: "queue_rep (mem s1) (fst Q) cap sz own ms" using new(4) iv(11) by (intro queue_rep_frame [OF iv(7,8)]) blast
  note r1 = rep1 [unfolded queue_rep_def]
  have fr: "fresh (fst Q) (map (fst \<circ> fst) ms) (fst b)" by (rule fresh_message [OF qm])
  define m4 where "m4 = add_head (mem s1) (fst Q) (fst b)"
  define m5 where "m5 = m4(free_slots (fst Q) := cap - of_nat (length ?ms))"
  have dll: "dll (mem s1) (fst Q) (map (fst \<circ> fst) ms)" using r1 by simp
  have frame: "m4 c = mem s1 c" if "c \<notin> set (foot (fst Q) (map (fst \<circ> fst) ?ms))" for c
    unfolding m4_def using that by (intro add_head_frame [OF dll fr]) simp
  have "dll m4 (fst Q) (map (fst \<circ> fst) ?ms)" unfolding m4_def using add_head_dll [OF dll fr] by simp
  then have rep5: "queue_rep m5 (fst Q) cap sz own ?ms"
    unfolding m5_def using frame r1 new(1,2) len by (intro queue_rep_step [OF qm rep1]) auto
  have fs: "m4 (free_slots (fst Q)) = cap - of_nat (length ms)"
    using frame [OF queue_foot(2) [OF qm, of 12]] r1 by (simp add: free_slots_def)
  moreover have "cap - of_nat (length ?ms) = cap - of_nat (length ms) - 1" by (simp add: algebra_simps)
  ultimately have m5: "m5 = m4(free_slots (fst Q) := m4 (free_slots (fst Q)) - 1)" by (simp only: m5_def)
  have sub: "set (foot (fst Q) (map (fst \<circ> fst) ?ms)) \<subseteq> queue_area Q ?ms" by (rule queue_foot(1) [OF qm])
  have fsa: "free_slots (fst Q) \<in> queue_area Q ?ms" using queue_area_fields(1) [OF qm, of 12] by (simp add: free_slots_def)
  have out: "m5 c = mem s1 c" if "c \<notin> queue_area Q ?ms" for c
  proof -
    have "c \<noteq> free_slots (fst Q)" using that fsa by blast
    then show ?thesis using that sub frame [of c] by (auto simp: m5_def)
  qed
  have "set (queue_blocks Q ?ms) \<subseteq> ?L" using qm by (simp add: queue_mem_def)
  then have kept: "queue_area Q ?ms \<subseteq> even_heap.kept ?hp ?L" unfolding queue_area_def even_heap.kept_def by blast
  have apart: "queue_area Q ?ms \<inter> (task_area T LS \<union> K) = {}" using new(3) iv(5,9) unfolding queue_area_Cons by blast
  have "queue_area Q ?ms \<inter> task_area T LS = {}" using apart by (simp add: Int_Un_distrib)
  then have st5: "settled W T LS K q ?L (s1\<lparr>mem := m5\<rparr>)" by (intro settled_write [OF s1(2) _ kept] out)
  have "0 < mem s (free_slots (fst Q))"
  proof -
    have "unat (cap - of_nat (length ms)) = unat cap - length ms"
      using len unat_lt_32 [of cap] by (subst unat_sub) (simp_all add: word_le_nat_alt unat_of_nat)
    then have "0 < unat (cap - of_nat (length ms))" using len by simp
    then have "0 < cap - of_nat (length ms)" by (simp add: word_less_nat_alt)
    then show ?thesis using rep by simp
  qed
  moreover define s5 where "s5 = s1\<lparr>mem := m5\<rparr>"
  have e: "upd (free_slots (fst Q)) (m4 (free_slots (fst Q)) - 1) (s1\<lparr>mem := m4\<rparr>) = s5" by (simp add: upd_def s5_def m5)
  have own5: "mem s5 (owner (fst Q)) = own" "mem s5 (max_slots (fst Q)) = cap" using rep5 by (simp_all add: queue_rep_def s5_def)
  have "cap - of_nat (length ms) = cap \<longleftrightarrow> ms = []"
  proof -
    have "(of_nat (length ms) :: u32) = 0 \<longleftrightarrow> unat (of_nat (length ms) :: u32) = 0" by (simp add: unat_eq_0)
    also have "\<dots> \<longleftrightarrow> ms = []" using len unat_lt_32 [of cap] by (subst unat_of_nat) simp
    finally show ?thesis by (metis diff_zero right_minus_eq add_diff_cancel_left' diff_add_cancel)
  qed
  then have first: "m4 (free_slots (fst Q)) = cap \<longleftrightarrow> ms = []" using fs by simp
  ultimately have run: "queue_send W (fst Q) msg mode s =
      bnd (if ms = [] then bnd (signal W own TB_QUEUE s5) (\<lambda>(r, s). ret s) else ret s5) (\<lambda>s. ret (fst b, permit s))"
    using s1(1,8) by (simp add: queue_send_def Let_def del: upd_simps split del: if_split)
      (unfold upd_mem(3) m4_def [symmetric], unfold e own5 first, simp)
  have st5: "settled W T LS K q ?L s5" using st5 by (simp add: s5_def)
  have same: "same_tasks (forbid s) s5" using s1(3) by (simp add: same_tasks_def same_kernel_def s5_def)
  note pb = permit_back [OF st5 same iv(3)]
  have "mem s5 c = mem s c" if "c \<in> even_heap.kept ?hp L - call_stack W K s - queue_area Q ms" for c
  proof -
    have "c \<notin> queue_area Q ?ms" using that new(3) unfolding queue_area_Cons by blast
    then show ?thesis using out new4 that by (simp add: s5_def)
  qed
  moreover have "queue_inv W T LS K q ?L Q cap sz own ?ms (permit s5)"
    using pb(1-4) settledD(5) [OF st5] iv(6) qm rep5 apart by (simp add: queue_inv_def s5_def)
  moreover have "free_pages s5 = free_pages s1" by (simp add: s5_def free_pages_def page_free_def [abs_def])
  then have "card (free_pages s) \<le> card (free_pages s5) + 4" using new(5) by simp
  ultimately show ?thesis using run s1(8) st5 same new(3) by blast
qed

lemma queue_send_ok:
  fixes s :: "'a kernel_state_scheme"
  assumes inv: "queue_inv W T LS K q L Q cap sz own ms s" and vars: "vars_ok W K" and room: "4 \<le> card (free_pages s)"
    and sz: "even_size sz" "unat sz \<le> 2032" and len: "length ms < unat cap"
    and msg: "msg \<noteq> 0" "byte_cells msg (unat sz) \<subseteq> even_heap.kept (k_heap_start W) L - K"
    and idle: "mem s (sigs_waiting own) AND TB_QUEUE = 0"
  shows "\<exists>b d s'. queue_send W (fst Q) msg mode s = ret (fst b, s') \<and> fst b \<noteq> 0 \<and> same_tasks s s' \<and>
    queue_inv W T LS K q (insert d (insert b L)) Q cap sz own ((b, d, bytes_of (mem s) msg (unat sz)) # ms) s' \<and>
    (block_mem b \<union> block_mem d) \<inter> even_heap.kept (k_heap_start W) L = {} \<and> card (free_pages s) \<le> card (free_pages s') + 4 \<and>
    (\<forall>c \<in> even_heap.kept (k_heap_start W) L - call_stack W K s - queue_area Q ms. mem s' c = mem s c)"
proof -
  note iv = queue_invD [OF inv]
  obtain b d s5 where s5: "queue_send W (fst Q) msg mode s =
      bnd (if ms = [] then bnd (signal W own TB_QUEUE s5) (\<lambda>(r, s). ret s) else ret s5) (\<lambda>s. ret (fst b, permit s))"
    "fst b \<noteq> 0" "same_tasks (forbid s) s5" "settled W T LS K q (insert d (insert b L)) s5"
    "queue_inv W T LS K q (insert d (insert b L)) Q cap sz own ((b, d, bytes_of (mem s) msg (unat sz)) # ms) (permit s5)"
    "(block_mem b \<union> block_mem d) \<inter> even_heap.kept (k_heap_start W) L = {}" "card (free_pages s) \<le> card (free_pages s5) + 4"
    "\<forall>c \<in> even_heap.kept (k_heap_start W) L - call_stack W K s - queue_area Q ms. mem s5 c = mem s c"
    using queue_send_enters [OF inv vars room sz len msg, of mode] by (elim exE conjE) (rule that)
  have "sigs_waiting own \<in> task_area T LS" using iv(6) by (auto simp: task_area_def sigs_waiting_def intro!: bexI [of _ own])
  then have "sigs_waiting own \<in> even_heap.kept (k_heap_start W) L - call_stack W K s - queue_area Q ms"
    using iv(5,9) task_area_stack [OF settledD(6) [OF iv(10)]] call_stack_on [OF iv(2) vars] by blast
  then have "mem s5 (sigs_waiting own) AND TB_QUEUE = 0" using s5(8) idle by simp
  then have "signal W own TB_QUEUE s5 = ret (0, s5)" by (simp add: signal_def)
  then have "queue_send W (fst Q) msg mode s = ret (fst b, permit s5)" unfolding s5(1) by simp
  moreover note permit_back(5) [OF s5(4,3) iv(3)]
  ultimately show ?thesis using s5(2,5-8) by (intro exI [of _ b] exI [of _ d] exI [of _ "permit s5"]) simp
qed

section \<open>Receiving\<close>

lemma queue_blocks_snoc: "set (queue_blocks Q (ms @ [(b, d, x)])) = {b, d} \<union> set (queue_blocks Q ms)"
  by (auto simp: queue_blocks_def)

lemma queue_mem_snoc:
  assumes "queue_mem L sz Q (ms @ [(b, d, x)])"
  shows "queue_mem (L - {d} - {b}) sz Q ms" "b \<in> L" "d \<in> L" "b \<noteq> d" "b \<notin> set (queue_blocks Q ms)" "d \<notin> set (queue_blocks Q ms)"
proof -
  show b: "b \<in> L" "d \<in> L" "b \<noteq> d" "b \<notin> set (queue_blocks Q ms)" "d \<notin> set (queue_blocks Q ms)"
    using assms by (auto simp: queue_mem_def queue_blocks_def)
  have "blocks_apart (L - {d} - {b})" using queue_memD(1) [OF assms] by (simp add: blocks_apart_def)
  moreover have "distinct (queue_blocks Q ms)" using assms by (simp add: queue_mem_def queue_blocks_def)
  ultimately show "queue_mem (L - {d} - {b}) sz Q ms"
    using assms b(4,5) by (auto simp: queue_mem_def queue_blocks_snoc)
qed

lemma take_msg_ok:
  fixes s :: "'a kernel_state_scheme"
  assumes st: "settled W T LS K q L s" and mem: "queue_mem L sz Q (ms @ [(b, d, x)])"
    and rep: "queue_rep (mem s) (fst Q) cap sz own (ms @ [(b, d, x)])"
    and apart: "queue_area Q (ms @ [(b, d, x)]) \<inter> (task_area T LS \<union> K) = {}"
    and ptr: "byte_cells ptr (unat sz) \<subseteq> even_heap.kept (k_heap_start W) L - K - task_area T LS - queue_area Q (ms @ [(b, d, x)])"
  shows "\<exists>s'. take_msg W (fst Q) ptr s = ret s' \<and> settled W T LS K q (L - {d} - {b}) s' \<and> same_tasks s s' \<and>
    bytes_of (mem s') ptr (unat sz) = x \<and> byte_cells ptr (unat sz) \<subseteq> even_heap.kept (k_heap_start W) (L - {d} - {b}) - K \<and>
    (\<forall>c \<in> even_heap.kept (k_heap_start W) (L - {d} - {b}) - K - byte_cells ptr (unat sz). mem s' c = remove_node (mem s) (fst b) c)"
proof -
  let ?hp = "k_heap_start W" and ?ms = "ms @ [(b, d, x)]"
  note qs = queue_mem_snoc [OF mem] and r = rep [unfolded queue_rep_def]
  have in_ms: "(b, d, x) \<in> set ?ms" by simp
  have area: "queue_area Q ?ms = block_mem b \<union> block_mem d \<union> queue_area Q ms" unfolding queue_area_def queue_blocks_snoc by blast
  define m1 where "m1 = remove_node (mem s) (fst b)"
  have dll: "dll (mem s) (fst Q) (map (fst \<circ> fst) ms @ [fst b])" using r by simp
  note rt = remove_tail_dll [OF dll]
  have foot: "set (foot (fst Q) (map (fst \<circ> fst) ms)) \<subseteq> set (foot (fst Q) (map (fst \<circ> fst) ?ms))" by (auto simp: foot_def)
  have frame: "m1 c = mem s c" if "c \<notin> set (foot (fst Q) (map (fst \<circ> fst) ?ms))" for c
    unfolding m1_def using remove_node_frame [of "mem s" "fst Q" "map (fst \<circ> fst) ms" "fst b" "[]" c] dll foot that by auto
  have p1: "m1 (data_ptr (fst b)) = fst d" using frame [OF queue_foot(3) [OF mem in_ms]] r by simp
  have e1: "m1 (elem_sz (fst Q)) = sz" using frame [OF queue_foot(2) [OF mem, of 20]] r by (simp add: elem_sz_def)
  have d0: "fst d \<noteq> 0" by (rule blocks_apart_span(3) [OF queue_memD(1) [OF mem] qs(3)])
  define m2 where "m2 = memcpy m1 ptr (fst d) sz"
  have dcells: "byte_cells (fst d) (unat sz) \<subseteq> queue_area Q ?ms" by (rule queue_area_fields(3) [OF mem in_ms])
  then have ov: "byte_cells ptr (unat sz) \<inter> byte_cells (fst d) (unat sz) = {}" using ptr by blast
  note cp = memcpy_bytes [OF ov, where m = m1, folded m2_def]
  have "data_ptr (fst b) \<notin> byte_cells ptr (unat sz)" using queue_area_fields(2) [OF mem in_ms] ptr by blast
  then have p2: "m2 (data_ptr (fst b)) = fst d" using cp(2) p1 by simp
  have "set (foot (fst Q) (map (fst \<circ> fst) ?ms)) \<subseteq> queue_area Q ?ms" by (rule queue_foot(1) [OF mem])
  then have out: "m2 c = mem s c" if "c \<notin> queue_area Q ?ms \<union> byte_cells ptr (unat sz)" for c
    using that frame cp(2) by auto
  have "set (queue_blocks Q ?ms) \<subseteq> L" using mem by (simp add: queue_mem_def)
  then have "queue_area Q ?ms \<subseteq> even_heap.kept ?hp L" unfolding queue_area_def even_heap.kept_def by blast
  then have "queue_area Q ?ms \<union> byte_cells ptr (unat sz) \<subseteq> even_heap.kept ?hp L" using ptr by blast
  moreover have "(queue_area Q ?ms \<union> byte_cells ptr (unat sz)) \<inter> task_area T LS = {}" using apart ptr by blast
  ultimately have st2: "settled W T LS K q L (s\<lparr>mem := m2\<rparr>)" by (intro settled_write [OF st out])
  have blk: "block_mem b \<inter> (task_area T LS \<union> K) = {}" "block_mem d \<inter> (task_area T LS \<union> K) = {}" using apart unfolding area by blast+
  have "(fst d, snd d) \<in> L" "block_mem (fst d, snd d) \<inter> (task_area T LS \<union> K) = {}" using qs(3) blk(2) by simp_all
  from settled_kfree [OF st2 this] obtain s3 where s3: "kfree W (fst d) (s\<lparr>mem := m2\<rparr>) = ret s3" "settled W T LS K q (L - {d}) s3"
    "same_tasks (s\<lparr>mem := m2\<rparr>) s3" "\<forall>c \<in> even_heap.kept ?hp (L - {d}) - K. mem s3 c = m2 c" by auto
  have "(fst b, snd b) \<in> L - {d}" "block_mem (fst b, snd b) \<inter> (task_area T LS \<union> K) = {}" using qs(2,4) blk(1) by simp_all
  from settled_kfree [OF s3(2) this] obtain s4 where s4: "kfree W (fst b) s3 = ret s4" "settled W T LS K q (L - {d} - {b}) s4"
    "same_tasks s3 s4" "\<forall>c \<in> even_heap.kept ?hp (L - {d} - {b}) - K. mem s4 c = mem s3 c" by auto
  have sub: "even_heap.kept ?hp (L - {d} - {b}) \<subseteq> even_heap.kept ?hp (L - {d})" by (auto simp: even_heap.kept_def)
  then have m4: "mem s4 c = m2 c" if "c \<in> even_heap.kept ?hp (L - {d} - {b}) - K" for c using s3(4) s4(4) that by auto
  have run: "take_msg W (fst Q) ptr s = ret s4"
    using p1 e1 p2 d0 rt(1) s3(1) s4(1) by (simp add: take_msg_def Let_def flip: m1_def m2_def)
  have same: "same_tasks s s4" using same_tasks_trans [OF s3(3) s4(3)] by (simp add: same_tasks_def same_kernel_def)
  have pk: "byte_cells ptr (unat sz) \<subseteq> even_heap.kept ?hp (L - {d} - {b}) - K"
  proof -
    have "byte_cells ptr (unat sz) \<subseteq> (even_heap.kept ?hp L - block_mem d) - block_mem b" using ptr unfolding area by blast
    then show ?thesis using kept_remove [of ?hp L d] kept_remove [of ?hp "L - {d}" b] ptr by blast
  qed
  have "bytes_of m1 (fst d) (unat sz) = bytes_of (mem s) (fst d) (unat sz)"
    using queue_area_fields(4) [OF mem in_ms] queue_foot(4) [OF mem in_ms] by (intro bytes_of_frame frame) blast
  then have "bytes_of m2 ptr (unat sz) = x" using cp(1) r by simp
  moreover have "bytes_of (mem s4) ptr (unat sz) = bytes_of m2 ptr (unat sz)" using m4 pk by (intro bytes_of_frame) blast
  moreover have "mem s4 c = m1 c" if "c \<in> even_heap.kept ?hp (L - {d} - {b}) - K - byte_cells ptr (unat sz)" for c
    using m4 [of c] cp(2) [of c] that by simp
  ultimately show ?thesis using run s4(2) same pk unfolding m1_def by (intro exI [of _ s4]) simp
qed

text \<open>Both branches of \<open>queue_recv\<close>, from the forbidden section in which a message is there. No task waits for a slot.\<close>

lemma recv_tail_ok:
  fixes s :: "'a kernel_state_scheme"
  assumes inv: "queue_inv W T LS K q L Q cap sz own (ms @ [(b, d, x)]) s"
    and ptr: "byte_cells ptr (unat sz) \<subseteq> even_heap.kept (k_heap_start W) L - K - task_area T LS - queue_area Q (ms @ [(b, d, x)])"
  shows "mem s (free_slots (fst Q)) < mem s (max_slots (fst Q)) \<and> (\<exists>s1 s5 s'. take_msg W (fst Q) ptr (forbid s) = ret s1 \<and>
    s5 = upd (free_slots (fst Q)) (mem s1 (free_slots (fst Q)) + 1) s1 \<and> get_head (mem s5) (waiters (fst Q)) = 0 \<and>
    s' = permit s5 \<and> same_tasks s s' \<and>
    queue_inv W T LS K q (L - {d} - {b}) Q cap sz own ms s' \<and> bytes_of (mem s') ptr (unat sz) = x \<and>
    (\<forall>c \<in> even_heap.kept (k_heap_start W) L - K - queue_area Q (ms @ [(b, d, x)]) - byte_cells ptr (unat sz). mem s' c = mem s c))"
proof -
  let ?hp = "k_heap_start W" and ?ms = "ms @ [(b, d, x)]" and ?L = "L - {d} - {b}"
  note iv = queue_invD [OF inv]
  note qs = queue_mem_snoc [OF iv(7)] and r = iv(8) [unfolded queue_rep_def]
  have area: "queue_area Q ?ms = block_mem b \<union> block_mem d \<union> queue_area Q ms" unfolding queue_area_def queue_blocks_snoc by blast
  from take_msg_ok [OF iv(10,7) _ iv(9) ptr, of cap own] iv(8) obtain s1 where
    s1: "take_msg W (fst Q) ptr (forbid s) = ret s1" "settled W T LS K q ?L s1" "same_tasks (forbid s) s1" "bytes_of (mem s1) ptr (unat sz) = x"
      "byte_cells ptr (unat sz) \<subseteq> even_heap.kept ?hp ?L - K"
    and m1: "\<forall>c \<in> even_heap.kept ?hp ?L - K - byte_cells ptr (unat sz). mem s1 c = remove_node (mem s) (fst b) c" by auto
  define v where "v = cap - of_nat (length ms)"
  define rm where "rm = remove_node (mem s) (fst b)"
  have dll: "dll (mem s) (fst Q) (map (fst \<circ> fst) ms @ [fst b])" using r by simp
  have dll1: "dll rm (fst Q) (map (fst \<circ> fst) ms)" unfolding rm_def by (rule remove_tail_dll(2) [OF dll])
  have frame: "rm c = mem s c" if "c \<notin> set (foot (fst Q) (map (fst \<circ> fst) ms))" for c
    unfolding rm_def using remove_node_frame [of "mem s" "fst Q" "map (fst \<circ> fst) ms" "fst b" "[]" c] dll that by simp
  have repm: "queue_rep (rm(free_slots (fst Q) := v)) (fst Q) cap sz own ms"
    unfolding v_def using r by (intro queue_rep_step [OF qs(1) iv(8) dll1 frame]) auto
  have blocks: "set (queue_blocks Q ms) \<subseteq> ?L" using qs(1) by (simp add: queue_mem_def)
  have kept: "queue_area Q ms \<subseteq> even_heap.kept ?hp ?L - K - byte_cells ptr (unat sz)"
  proof -
    have "queue_area Q ms \<subseteq> even_heap.kept ?hp ?L" using blocks unfolding queue_area_def even_heap.kept_def by blast
    moreover have "queue_area Q ms \<inter> K = {}" "queue_area Q ms \<inter> byte_cells ptr (unat sz) = {}" using iv(9) ptr unfolding area by blast+
    ultimately show ?thesis by blast
  qed
  have fs: "free_slots (fst Q) \<in> queue_area Q ms" using queue_area_fields(1) [OF qs(1), of 12] by (simp add: free_slots_def)
  have "mem s1 (free_slots (fst Q)) = rm (free_slots (fst Q))" using m1 fs kept unfolding rm_def by blast
  then have f1: "mem s1 (free_slots (fst Q)) = cap - of_nat (length ms) - 1"
  proof -
    have "rm (free_slots (fst Q)) = mem s (free_slots (fst Q))" using frame [OF queue_foot(2) [OF qs(1), of 12]] by (simp add: free_slots_def)
    moreover have "mem s (free_slots (fst Q)) = cap - of_nat (length ?ms)" using r by simp
    moreover have "of_nat (length ?ms) = of_nat (length ms) + (1 :: u32)" by simp
    ultimately show ?thesis using \<open>mem s1 (free_slots (fst Q)) = _\<close> by (simp only: diff_diff_eq)
  qed
  then have v: "v = mem s1 (free_slots (fst Q)) + 1" by (simp add: v_def)
  define m5 where "m5 = (mem s1)(free_slots (fst Q) := v)"
  have "m5 c = (rm(free_slots (fst Q) := v)) c" if "c \<in> queue_area Q ms" for c
    using that kept m1 unfolding m5_def rm_def by auto
  then have rep5: "queue_rep m5 (fst Q) cap sz own ms" by (rule queue_rep_frame [OF qs(1) repm])
  define s5 where "s5 = s1\<lparr>mem := m5\<rparr>"
  have ap: "queue_area Q ms \<inter> (task_area T LS \<union> K) = {}" using iv(9) unfolding area by blast
  have "m5 c = mem s1 c" if "c \<notin> queue_area Q ms" for c using that fs by (auto simp: m5_def)
  moreover have "queue_area Q ms \<subseteq> even_heap.kept ?hp ?L" "queue_area Q ms \<inter> task_area T LS = {}" using kept ap by blast+
  ultimately have st5: "settled W T LS K q ?L s5" unfolding s5_def by (rule settled_write [OF s1(2)])
  have e: "upd (free_slots (fst Q)) (mem s1 (free_slots (fst Q)) + 1) s1 = s5" by (simp add: upd_def s5_def m5_def v)
  have head: "get_head (mem s5) (waiters (fst Q)) = 0"
    using get_head_dll [of m5 "waiters (fst Q)" "[]"] rep5 by (simp add: queue_rep_def s5_def)
  have less: "mem s (free_slots (fst Q)) < mem s (max_slots (fst Q))"
  proof -
    have len: "length ?ms \<le> unat cap" "mem s (free_slots (fst Q)) = cap - of_nat (length ?ms)" "mem s (max_slots (fst Q)) = cap"
      using r by simp_all
    have "unat (of_nat (length ?ms) :: u32) = length ?ms" using len(1) unat_lt_32 [of cap] by (subst unat_of_nat) simp
    then have "unat (cap - of_nat (length ?ms)) = unat cap - length ?ms" using len(1) by (subst unat_sub) (simp_all only: word_le_nat_alt)
    then show ?thesis using len by (simp only: word_less_nat_alt) simp
  qed
  have same: "same_tasks (forbid s) s5" using s1(3) by (simp add: same_tasks_def same_kernel_def s5_def)
  note pb = permit_back [OF st5 same iv(3)]
  have "byte_cells ptr (unat sz) \<inter> queue_area Q ms = {}" using kept by blast
  then have "bytes_of m5 ptr (unat sz) = x" unfolding s1(4) [symmetric] m5_def using fs by (intro bytes_of_frame) auto
  moreover have "mem (permit s5) c = mem s c"
    if c: "c \<in> even_heap.kept ?hp L - K - queue_area Q ?ms - byte_cells ptr (unat sz)" for c
  proof -
    have "c \<in> even_heap.kept ?hp ?L" using c kept_remove [of ?hp L d] kept_remove [of ?hp "L - {d}" b] unfolding area by blast
    then have "mem s1 c = rm c" using m1 c unfolding rm_def by blast
    moreover have "c \<notin> queue_area Q ms" using c unfolding area by blast
    then have "rm c = mem s c" "c \<noteq> free_slots (fst Q)" using frame [of c] queue_foot(1) [OF qs(1)] fs by blast+
    ultimately show ?thesis by (simp add: s5_def m5_def)
  qed
  moreover have "queue_inv W T LS K q ?L Q cap sz own ms (permit s5)"
    using pb(1-4) settledD(5) [OF st5] iv(6) qs(1) rep5 ap by (simp add: queue_inv_def s5_def)
  ultimately have "same_tasks s (permit s5) \<and> queue_inv W T LS K q ?L Q cap sz own ms (permit s5) \<and> bytes_of (mem (permit s5)) ptr (unat sz) = x \<and>
      (\<forall>c \<in> even_heap.kept ?hp L - K - queue_area Q ?ms - byte_cells ptr (unat sz). mem (permit s5) c = mem s c)"
    using pb(5) by (simp add: s5_def)
  then show ?thesis using less s1(1) head e [symmetric]
    by (intro conjI exI [of _ s1] exI [of _ s5] exI [of _ "permit s5"]) simp_all
qed

lemma queue_recv_ok:
  fixes s :: "'a kernel_state_scheme"
  assumes inv: "queue_inv W T LS K q L Q cap sz own (ms @ [(b, d, x)]) s"
    and ptr: "byte_cells ptr (unat sz) \<subseteq> even_heap.kept (k_heap_start W) L - K - task_area T LS - queue_area Q (ms @ [(b, d, x)])"
  shows "\<exists>s'. queue_recv W (fst Q) ptr mode s = ret (ptr, s') \<and> same_tasks s s' \<and>
    queue_inv W T LS K q (L - {d} - {b}) Q cap sz own ms s' \<and> bytes_of (mem s') ptr (unat sz) = x \<and>
    (\<forall>c \<in> even_heap.kept (k_heap_start W) L - K - queue_area Q (ms @ [(b, d, x)]) - byte_cells ptr (unat sz). mem s' c = mem s c)"
proof -
  from recv_tail_ok [OF assms] obtain s1 s5 s' where
    s: "mem s (free_slots (fst Q)) < mem s (max_slots (fst Q))" "take_msg W (fst Q) ptr (forbid s) = ret s1"
      "s5 = upd (free_slots (fst Q)) (mem s1 (free_slots (fst Q)) + 1) s1" "get_head (mem s5) (waiters (fst Q)) = 0" "s' = permit s5"
    and s': "same_tasks s s'" "queue_inv W T LS K q (L - {d} - {b}) Q cap sz own ms s'" "bytes_of (mem s') ptr (unat sz) = x"
      "\<forall>c \<in> even_heap.kept (k_heap_start W) L - K - queue_area Q (ms @ [(b, d, x)]) - byte_cells ptr (unat sz). mem s' c = mem s c"
    by (elim exE conjE) (rule that)
  have wl: "(if c then wake_loop W (get_head (mem s5) (waiters (fst Q))) s5 else ret s5) = ret s5" for c
    using s(4) by (simp add: wake_loop.simps)
  have "queue_recv W (fst Q) ptr mode s = ret (ptr, s')"
    using s(1,2) unfolding s(5)
    by (simp add: queue_recv_def Let_def del: upd_simps split del: if_split) (unfold s(3) [symmetric] wl, simp)
  then show ?thesis using s' by (intro exI [of _ s']) (intro conjI)
qed


section \<open>Creating and destroying\<close>

lemma even_queue: "even_size sizeof_queue" "unat sizeof_queue = 40" "served sizeof_queue s \<longleftrightarrow> 2 \<le> card (free_pages s)"
  by (simp_all add: even_size_def sizeof_queue_def align_size_def served_def)

lemma create_queue_ok:
  fixes s :: "'a kernel_state_scheme"
  assumes act: "active W T LS K q s" and user: "can_trap W K s" and small: "counters_ok s" and live: "heap_even (k_heap_start W) s L"
    and placed: "task_area T LS \<union> K \<subseteq> even_heap.kept (k_heap_start W) L" and vars: "vars_ok W K" and room: "2 \<le> card (free_pages s)"
  shows "\<exists>Q s'. create_queue W slots sz s = ret (fst Q, s') \<and> fst Q \<noteq> 0 \<and> Q \<notin> L \<and> same_tasks s s' \<and>
    queue_inv W T LS K q (insert Q L) Q slots sz (running_task s) [] s' \<and> card (free_pages s) \<le> card (free_pages s') + 2 \<and>
    (\<forall>c \<in> even_heap.kept (k_heap_start W) L - K. mem s' c = mem s c)"
proof -
  let ?hp = "k_heap_start W" and ?r = "running_task s"
  have st: "settled W T LS K q L (forbid s)" by (rule settled_forbid [OF act user small live placed])
  have "served sizeof_queue (forbid s)" using room by (simp add: even_queue)
  from settled_kmalloc [OF st vars even_queue(1) this] obtain p n s1 where
    s1: "kmalloc W sizeof_queue (forbid s) = ret (p, s1)" "settled W T LS K q (insert (p, n) L) s1" "same_tasks (forbid s) s1" "(p, n) \<notin> L"
    and b: "40 \<le> unat n" "p \<noteq> 0" "block_mem (p, n) \<inter> even_heap.kept ?hp L = {}" "card (free_pages s) \<le> card (free_pages s1) + 2"
    and m: "\<forall>c \<in> even_heap.kept ?hp L - call_stack W K (forbid s). mem s1 c = mem s c" unfolding even_queue(2) forbid_same by blast
  have m1: "\<forall>c \<in> even_heap.kept ?hp L - K. mem s1 c = mem s c" using m call_stack_on [OF settledD(2) [OF st] vars] by blast
  let ?Q = "(p, n)" let ?L = "insert ?Q L"
  have ba: "blocks_apart ?L" by (rule heap_even_apart [OF settledD(4) [OF s1(2)]])
  note bl = blocks_apart_span [OF ba, of ?Q, simplified]
  have sp: "span p 40 \<subseteq> block_mem ?Q" using bl(1) span_mono [OF b(1)] by simp
  define m where "m = (new_list (new_list (memset (mem s1) p 0 sizeof_queue) p) (p + 28))
    (p + 12 := slots, p + 16 := slots, p + 24 := ?r, p + 20 := sz)"
  have in_sp: "p + k \<in> span p 40" if "unat k < 40" for k using that by simp
  have out: "m c = mem s1 c" if "c \<notin> block_mem ?Q" for c
  proof -
    have c: "c \<notin> span p 40" using that sp by blast
    have ne: "c \<noteq> p + k" if "unat k < 40" for k using in_sp [OF that] c by metis
    have "c \<noteq> p" using ne [of 0] by simp
    moreover have "memset (mem s1) p 0 sizeof_queue c = mem s1 c" using c bl(2) even_queue(2) by (intro memset_span) simp_all
    ultimately show ?thesis using ne [of 4] ne [of 8] ne [of 12] ne [of 16] ne [of 20] ne [of 24] ne [of 28] ne [of 32] ne [of 36]
      by (simp add: m_def new_list_def Let_def add.assoc)
  qed
  have nz: "p + k \<noteq> 0" if "unat k < 40" for k
  proof
    assume "p + k = 0"
    with subsetD [OF sp in_sp [OF that]] have "0 \<in> block_mem ?Q" by (simp only:)
    with bl(5) show False ..
  qed
  have "aligned (p + 28)" by (rule aligned_add [OF bl(2)]) (simp add: aligned_unat)
  then have lists: "dll m p []" "dll m (p + 28) []"
    using b(2) bl(2) nz [of 4] nz [of 8] nz [of 28] nz [of 32] nz [of 36]
    by (simp_all add: dll_def m_def new_list_def Let_def foot_def add.assoc)
  have rep: "queue_rep m (fst ?Q) slots sz ?r []" using lists by (simp add: queue_rep_def queue_defs m_def)
  have qm: "queue_mem ?L sz ?Q []" using ba b(1) by (simp add: queue_mem_def queue_blocks_def)
  have area: "queue_area ?Q [] = block_mem ?Q" by (simp add: queue_area_def queue_blocks_def)
  have ap: "block_mem ?Q \<inter> (task_area T LS \<union> K) = {}" using b(3) placed by blast
  define s2 where "s2 = s1\<lparr>mem := m\<rparr>"
  have "block_mem ?Q \<subseteq> even_heap.kept ?hp ?L" "block_mem ?Q \<inter> task_area T LS = {}" using ap by (auto simp: even_heap.kept_def)
  then have st2: "settled W T LS K q ?L s2" unfolding s2_def by (rule settled_write [OF s1(2) out, rotated])
  have same: "same_tasks (forbid s) s2" using s1(3) by (simp add: same_tasks_def same_kernel_def s2_def)
  note pb = permit_back [OF st2 same small]
  have "running_task s1 = ?r" using s1(3) by (simp add: same_tasks_def same_kernel_def)
  then have run: "create_queue W slots sz s = ret (p, permit s2)"
    using s1(1) b(2) by (simp add: create_queue_def Let_def upd_def queue_defs s2_def m_def)
  have "queue_inv W T LS K q ?L ?Q slots sz ?r [] (permit s2)"
    using pb(1-4) settledD(5) [OF st2] tasks_invD(6) [OF activeD(1) [OF act]] qm rep ap by (simp add: queue_inv_def area s2_def)
  moreover have "free_pages s2 = free_pages s1" by (simp add: s2_def free_pages_def page_free_def [abs_def])
  then have "free_pages (permit s2) = free_pages s1" by (simp only: forbid_same)
  moreover have "mem (permit s2) c = mem s c" if "c \<in> even_heap.kept ?hp L - K" for c
  proof -
    have "c \<notin> block_mem ?Q" using that b(3) by blast
    then show ?thesis using out m1 that by (simp add: s2_def)
  qed
  ultimately show ?thesis using run s1(4) b(2,4) pb(5) by (intro exI [of _ ?Q] exI [of _ "permit s2"]) simp
qed

text \<open>Destroying a queue gives its own block back, and keeps those of the messages that were still in it.\<close>

lemma destroy_queue_ok:
  fixes s :: "'a kernel_state_scheme"
  assumes inv: "queue_inv W T LS K q L Q cap sz own ms s"
  shows "\<exists>s'. destroy_queue W (fst Q) s = ret s' \<and> same_tasks s s' \<and> active W T LS K q s' \<and> heap_even (k_heap_start W) s' (L - {Q}) \<and>
    (\<forall>c \<in> even_heap.kept (k_heap_start W) (L - {Q}) - K. mem s' c = mem s c)"
proof -
  let ?hp = "k_heap_start W"
  note iv = queue_invD [OF inv]
  have Q: "Q \<in> L" "40 \<le> unat (snd Q)" by (rule queue_memD [OF iv(7)])+
  note bl = blocks_apart_span [OF queue_memD(1) [OF iv(7)] Q(1)]
  have sp: "span (fst Q) 40 \<subseteq> block_mem Q" using bl(1) span_mono [OF Q(2)] by simp
  define s1 where "s1 = forbid s\<lparr>mem := memset (mem s) (fst Q) 0 sizeof_queue\<rparr>"
  have out: "memset (mem s) (fst Q) 0 sizeof_queue c = mem s c" if "c \<notin> block_mem Q" for c
    using that sp bl(2) even_queue(2) by (intro memset_span) auto
  have "block_mem Q \<subseteq> queue_area Q ms" by (auto simp: queue_area_def queue_blocks_def)
  then have ap: "block_mem Q \<inter> (task_area T LS \<union> K) = {}" using iv(9) by blast
  have "block_mem Q \<subseteq> even_heap.kept ?hp L" "block_mem Q \<inter> task_area T LS = {}" using Q(1) ap by (auto simp: even_heap.kept_def)
  then have st1: "settled W T LS K q L s1" unfolding s1_def using out by (intro settled_write [OF iv(10)]) simp_all
  have "(fst Q, snd Q) \<in> L" "block_mem (fst Q, snd Q) \<inter> (task_area T LS \<union> K) = {}" using Q(1) ap by simp_all
  from settled_kfree [OF st1 this] obtain s2 where s2: "kfree W (fst Q) s1 = ret s2" "settled W T LS K q (L - {Q}) s2" "same_tasks s1 s2"
    "\<forall>c \<in> even_heap.kept ?hp (L - {Q}) - K. mem s2 c = mem s1 c" by auto
  have same: "same_tasks (forbid s) s2" using s2(3) by (simp add: same_tasks_def same_kernel_def s1_def)
  note pb = permit_back [OF s2(2) same iv(3)]
  have "c \<notin> block_mem Q" if c: "c \<in> even_heap.kept ?hp (L - {Q})" for c
  proof -
    have "block_mem Q \<subseteq> heap_own ?hp" using queue_memD(1) [OF iv(7)] Q(1) by (auto simp: blocks_apart_def block_mem_def heap_own_def)
    then show ?thesis using c bl(4) unfolding even_heap.kept_def by blast
  qed
  then have "mem (permit s2) c = mem s c" if "c \<in> even_heap.kept ?hp (L - {Q}) - K" for c using out s2(4) that by (simp add: s1_def)
  moreover have "destroy_queue W (fst Q) s = ret (permit s2)" using s2(1) by (simp add: destroy_queue_def Let_def s1_def)
  ultimately show ?thesis using pb by blast
qed

end
