(* ===== verification/QueueFifo.thy ===== *)
theory QueueFifo
  imports QueueProps
begin

text \<open>
  queue.c as its clients see it: a queue holds a sequence of messages; \<open>queue_send\<close> appends to it, \<open>queue_recv\<close> takes the first,
  and sequences of both are first in, first out.
\<close>

section \<open>The queue as its clients see it\<close>

text \<open>A queue holds the messages \<open>xs\<close>, the oldest first, in the cells \<open>A\<close> of the heap.\<close>

definition queue_holds ::
  "'a kernel_state_scheme sys \<Rightarrow> u32 set \<Rightarrow> u32 set \<Rightarrow> u32 set \<Rightarrow> (u32 \<Rightarrow> u32 list) \<Rightarrow> (u32 \<times> u32) set \<Rightarrow> u32 set \<Rightarrow> u32 \<Rightarrow>
   u32 \<Rightarrow> u32 \<Rightarrow> u32 \<Rightarrow> u8 list list \<Rightarrow> 'a kernel_state_scheme \<Rightarrow> bool" where
  "queue_holds W T LS K q L A queue cap sz own xs s \<longleftrightarrow>
     (\<exists>Q ms. queue = fst Q \<and> A = queue_area Q ms \<and> xs = rev (map (snd \<circ> snd) ms) \<and> queue_inv W T LS K q L Q cap sz own ms s)"

lemma queue_holdsI: "queue_inv W T LS K q L Q cap sz own ms s \<Longrightarrow> xs = rev (map (snd \<circ> snd) ms) \<Longrightarrow>
    queue_holds W T LS K q L (queue_area Q ms) (fst Q) cap sz own xs s"
  unfolding queue_holds_def by blast

lemma queue_holdsE:
  assumes "queue_holds W T LS K q L A queue cap sz own xs s"
  obtains Q ms where "queue = fst Q" "A = queue_area Q ms" "xs = rev (map (snd \<circ> snd) ms)" "length xs = length ms"
    "queue_inv W T LS K q L Q cap sz own ms s"
  using assms unfolding queue_holds_def by (elim exE conjE) (rule that, simp_all)

lemma queue_holds_trap: "queue_holds W T LS K q L A queue cap sz own xs s \<Longrightarrow> can_trap W K s"
  by (auto elim!: queue_holdsE simp: queue_inv_def)

lemma queue_create:
  fixes s :: "'a kernel_state_scheme"
  assumes "active W T LS K q s" and "can_trap W K s" and "counters_ok s" and "heap_even (k_heap_start W) s L"
    and "task_area T LS \<union> K \<subseteq> even_heap.kept (k_heap_start W) L" and "vars_ok W K" and "2 \<le> card (free_pages s)"
  shows "\<exists>p n A s'. create_queue W slots sz s = ret (p, s') \<and> p \<noteq> 0 \<and> (p, n) \<notin> L \<and> same_tasks s s' \<and>
    queue_holds W T LS K q (insert (p, n) L) A p slots sz (running_task s) [] s' \<and> A \<inter> even_heap.kept (k_heap_start W) L = {} \<and>
    card (free_pages s) \<le> card (free_pages s') + 2 \<and>
    (\<forall>c \<in> even_heap.kept (k_heap_start W) L - K. mem s' c = mem s c)"
proof -
  from create_queue_ok [OF assms, of slots sz] obtain Q s' where
    s': "create_queue W slots sz s = ret (fst Q, s')" "fst Q \<noteq> 0" "Q \<notin> L" "same_tasks s s'"
    "queue_inv W T LS K q (insert Q L) Q slots sz (running_task s) [] s'" "card (free_pages s) \<le> card (free_pages s') + 2"
    "\<forall>c \<in> even_heap.kept (k_heap_start W) L - K. mem s' c = mem s c" by (elim exE conjE) (rule that)
  note h = queue_holdsI [OF s'(5), of "[]", simplified]
  have "queue_area Q [] = block_mem Q" by (simp add: queue_area_def queue_blocks_def)
  moreover have "block_mem Q \<inter> even_heap.kept (k_heap_start W) L = {}"
  proof -
    have "blocks_apart (insert Q L)" by (rule queue_memD(1) [OF queue_invD(7) [OF s'(5)]])
    note bl = blocks_apart_span [OF this, of Q, simplified]
    have "block_mem Q \<subseteq> heap_own (k_heap_start W)"
      using queue_memD(1) [OF queue_invD(7) [OF s'(5)]] by (auto simp: blocks_apart_def block_mem_def heap_own_def)
    moreover have "block_mem Q \<inter> block_mem c = {}" if "c \<in> L" for c using bl(4) [of c] that s'(3) by blast
    ultimately show ?thesis unfolding even_heap.kept_def by blast
  qed
  ultimately show ?thesis using s'(1-4,6,7) h
    by (intro exI [of _ "fst Q"] exI [of _ "snd Q"] exI [of _ "queue_area Q []"] exI [of _ s']) simp
qed

lemma queue_send_holds:
  fixes s :: "'a kernel_state_scheme"
  assumes holds: "queue_holds W T LS K q L A queue cap sz own xs s" and "vars_ok W K" and "4 \<le> card (free_pages s)"
    and "even_size sz" "unat sz \<le> 2032" and "length xs < unat cap"
    and "msg \<noteq> 0" "byte_cells msg (unat sz) \<subseteq> even_heap.kept (k_heap_start W) L - K"
    and "mem s (sigs_waiting own) AND TB_QUEUE = 0"
  shows "\<exists>p L' A' s'. queue_send W queue msg mode s = ret (p, s') \<and> p \<noteq> 0 \<and> same_tasks s s' \<and> L \<subseteq> L' \<and>
    queue_holds W T LS K q L' A' queue cap sz own (xs @ [bytes_of (mem s) msg (unat sz)]) s' \<and>
    A \<subseteq> A' \<and> A' \<inter> even_heap.kept (k_heap_start W) L \<subseteq> A \<and> card (free_pages s) \<le> card (free_pages s') + 4 \<and>
    (\<forall>c \<in> even_heap.kept (k_heap_start W) L - call_stack W K s - A. mem s' c = mem s c)"
  using holds
proof (rule queue_holdsE)
  fix Q ms assume q: "queue = fst Q" "A = queue_area Q ms" "xs = rev (map (snd \<circ> snd) ms)" "length xs = length ms"
    "queue_inv W T LS K q L Q cap sz own ms s"
  from queue_send_ok [OF q(5) assms(2-5) assms(6) [unfolded q(4)] assms(7-9), of mode] obtain b d s' where
    s': "queue_send W (fst Q) msg mode s = ret (fst b, s')" "fst b \<noteq> 0" "same_tasks s s'"
    "queue_inv W T LS K q (insert d (insert b L)) Q cap sz own ((b, d, bytes_of (mem s) msg (unat sz)) # ms) s'"
    "(block_mem b \<union> block_mem d) \<inter> even_heap.kept (k_heap_start W) L = {}" "card (free_pages s) \<le> card (free_pages s') + 4"
    "\<forall>c \<in> even_heap.kept (k_heap_start W) L - call_stack W K s - queue_area Q ms. mem s' c = mem s c"
    by (elim exE conjE) (rule that)
  have A: "A \<subseteq> queue_area Q ((b, d, bytes_of (mem s) msg (unat sz)) # ms)"
    "queue_area Q ((b, d, bytes_of (mem s) msg (unat sz)) # ms) \<inter> even_heap.kept (k_heap_start W) L \<subseteq> A"
    using s'(5) unfolding queue_area_Cons q(2) by blast+
  have L: "L \<subseteq> insert d (insert b L)" by blast
  have h: "queue_holds W T LS K q (insert d (insert b L)) (queue_area Q ((b, d, bytes_of (mem s) msg (unat sz)) # ms)) queue cap sz own
      (xs @ [bytes_of (mem s) msg (unat sz)]) s'"
    unfolding q(1,3) by (rule queue_holdsI [OF s'(4)]) simp
  show ?thesis using s'(1,7) unfolding q(1) [symmetric] q(2) [symmetric]
    by (intro exI conjI) (assumption | rule h A L s')+
qed

text \<open>The message that \<open>queue_recv\<close> takes is the node \<open>b\<close> at the tail of the list, with its data in the block \<open>d\<close>.\<close>

lemma queue_recv_holds:
  fixes s :: "'a kernel_state_scheme"
  assumes holds: "queue_holds W T LS K q L A queue cap sz own (x # xs) s"
    and ptr: "byte_cells ptr (unat sz) \<subseteq> even_heap.kept (k_heap_start W) L - K - task_area T LS - A"
  shows "\<exists>b d A' s'. queue_recv W queue ptr mode s = ret (ptr, s') \<and> same_tasks s s' \<and>
    b \<in> L \<and> d \<in> L \<and> b \<noteq> d \<and> fst b = get_tail (mem s) queue \<and> fst d = mem s (data_ptr (fst b)) \<and>
    A' = A - block_mem b - block_mem d \<and> queue_holds W T LS K q (L - {b, d}) A' queue cap sz own xs s' \<and>
    bytes_of (mem s') ptr (unat sz) = x \<and>
    (\<forall>c \<in> even_heap.kept (k_heap_start W) L - K - A - byte_cells ptr (unat sz). mem s' c = mem s c)"
  using holds
proof (rule queue_holdsE)
  fix Q ms' assume q: "queue = fst Q" "A = queue_area Q ms'" "x # xs = rev (map (snd \<circ> snd) ms')"
    "queue_inv W T LS K q L Q cap sz own ms' s"
  have "map (snd \<circ> snd) ms' = rev xs @ [x]" using arg_cong [OF q(3), of rev] by simp
  then obtain ms b d where ms: "ms' = ms @ [(b, d, x)]" "map (snd \<circ> snd) ms = rev xs"
    by (cases ms' rule: rev_cases) auto
  note iv = queue_invD [OF q(4) [unfolded ms(1)]]
  note qs = queue_mem_snoc [OF iv(7)]
  from queue_recv_ok [OF q(4) [unfolded ms(1)] ptr [unfolded q(2) ms(1)], of mode] obtain s' where
    s': "queue_recv W (fst Q) ptr mode s = ret (ptr, s')" "same_tasks s s'"
    "queue_inv W T LS K q (L - {d} - {b}) Q cap sz own ms s'" "bytes_of (mem s') ptr (unat sz) = x"
    "\<forall>c \<in> even_heap.kept (k_heap_start W) L - K - queue_area Q (ms @ [(b, d, x)]) - byte_cells ptr (unat sz). mem s' c = mem s c"
    by (elim exE conjE) (rule that)
  have L: "L - {d} - {b} = L - {b, d}" by blast
  have rep: "dll (mem s) (fst Q) (map (fst \<circ> fst) ms @ [fst b])" "mem s (data_ptr (fst b)) = fst d"
    using iv(8) by (simp_all add: queue_rep_def)
  have bd: "fst b = get_tail (mem s) queue" "fst d = mem s (data_ptr (fst b))"
    using get_tail_dll [OF rep(1)] rep(2) by (cases ms; simp add: q(1))+
  have apart: "block_mem c \<inter> (block_mem b \<union> block_mem d) = {}" if "c \<in> set (queue_blocks Q ms)" for c
  proof -
    have "c \<in> L" "c \<noteq> b" "c \<noteq> d" using that qs(1,5,6) by (auto simp: queue_mem_def)
    then show ?thesis using blocks_apart_span(4) [OF queue_memD(1) [OF iv(7)]] qs(2,3) by blast
  qed
  have A: "queue_area Q ms = A - block_mem b - block_mem d"
    unfolding q(2) ms(1) queue_area_def queue_blocks_snoc using apart by blast
  have h: "queue_holds W T LS K q (L - {b, d}) (queue_area Q ms) queue cap sz own xs s'"
    unfolding q(1) by (rule queue_holdsI [OF s'(3) [unfolded L]]) (simp add: ms(2))
  show ?thesis using s'(1,5) unfolding q(1) [symmetric] ms(1) [symmetric] q(2) [symmetric]
    by (intro exI conjI) (assumption | rule h A bd qs s')+
qed

text \<open>The early returns: a full queue, or an empty one, in a call that does not block.\<close>

lemma queue_free_slots:
  assumes "queue_holds W T LS K q L A queue cap sz own xs s"
  shows "mem s (free_slots queue) = cap - of_nat (length xs)" "mem s (max_slots queue) = cap" "length xs \<le> unat cap"
  using assms by (auto elim!: queue_holdsE simp: queue_inv_def queue_rep_def)

lemma queue_returns_early:
  fixes s :: "'a kernel_state_scheme"
  assumes holds: "queue_holds W T LS K q L A queue cap sz own xs s" and mode: "mode \<noteq> QM_BLOCKING"
  shows "length xs = unat cap \<Longrightarrow> queue_send W queue msg mode s = ret (0, forbid s)"
    and "xs = [] \<Longrightarrow> queue_recv W queue ptr mode s = ret (0, forbid s)"
    and "forbid_counter (forbid s) = forbid_counter s + 1" and "schedule W (forbid s) = ret (0, forbid s)"
proof -
  note fs = queue_free_slots [OF holds]
  show "queue_send W queue msg mode s = ret (0, forbid s)" if "length xs = unat cap"
  proof -
    have "mem s (free_slots queue) = 0" using fs(1) that by simp
    then show ?thesis using mode by (simp add: queue_send_def Let_def)
  qed
  show "queue_recv W queue ptr mode s = ret (0, forbid s)" if "xs = []"
    using fs(1,2) that mode by (simp add: queue_recv_def Let_def)
  show "forbid_counter (forbid s) = forbid_counter s + 1" by (simp add: forbid_def)
  have "counters_ok s" using holds by (auto elim!: queue_holdsE simp: queue_inv_def)
  then have "sint (forbid_counter (forbid s)) > 0"
    using sint_add_1 [of "forbid_counter s"] by (simp add: counters_ok_def forbid_def)
  then show "schedule W (forbid s) = ret (0, forbid s)" by (simp add: schedule_def)
qed

section \<open>Sequences of messages\<close>

text \<open>A client that sends the messages at the addresses \<open>ms\<close>, and one that receives \<open>n\<close> messages into one buffer.\<close>

fun send_all ::
  "'a kernel_state_scheme sys \<Rightarrow> u32 \<Rightarrow> u32 \<Rightarrow> u32 list \<Rightarrow> 'a kernel_state_scheme \<Rightarrow> 'a kernel_state_scheme outcome" where
  "send_all W queue mode [] s = ret s" |
  "send_all W queue mode (msg # msgs) s = bnd (queue_send W queue msg mode s) (\<lambda>(p, s). send_all W queue mode msgs s)"

fun recv_all ::
  "'a kernel_state_scheme sys \<Rightarrow> u32 \<Rightarrow> u32 \<Rightarrow> u32 \<Rightarrow> u32 \<Rightarrow> nat \<Rightarrow> 'a kernel_state_scheme \<Rightarrow> (u8 list list \<times> 'a kernel_state_scheme) outcome" where
  "recv_all W queue ptr mode sz 0 s = ret ([], s)" |
  "recv_all W queue ptr mode sz (Suc n) s =
    bnd (queue_recv W queue ptr mode s) (\<lambda>(p, s).
    bnd (recv_all W queue ptr mode sz n s) (\<lambda>(xs, s'). ret (bytes_of (mem s) ptr (unat sz) # xs, s')))"

lemma queue_holds_own:
  assumes "queue_holds W T LS K q L A queue cap sz own xs s"
  shows "sigs_waiting own \<in> even_heap.kept (k_heap_start W) L - K - A"
  using assms
proof (rule queue_holdsE)
  fix Q ms assume q: "A = queue_area Q ms" "queue_inv W T LS K q L Q cap sz own ms s"
  note iv = queue_invD [OF q(2)]
  have "sigs_waiting own \<in> task_area T LS" using iv(6) by (auto simp: task_area_def sigs_waiting_def intro!: bexI [of _ own])
  then show ?thesis using iv(5,9) task_area_stack [OF settledD(6) [OF iv(10)]] q(1) by blast
qed

lemma send_all_holds:
  fixes s :: "'a kernel_state_scheme"
  assumes "queue_holds W T LS K q L A queue cap sz own xs s" and vars: "vars_ok W K" and "4 * length msgs \<le> card (free_pages s)"
    and sz: "even_size sz" "unat sz \<le> 2032" and "length xs + length msgs \<le> unat cap"
    and msgs: "\<forall>p \<in> set msgs. p \<noteq> 0 \<and> byte_cells p (unat sz) \<subseteq> R" and "R \<subseteq> even_heap.kept (k_heap_start W) L - K - A"
    and "mem s (sigs_waiting own) AND TB_QUEUE = 0"
  shows "\<exists>L' A' s'. send_all W queue mode msgs s = ret s' \<and> same_tasks s s' \<and> L \<subseteq> L' \<and>
    queue_holds W T LS K q L' A' queue cap sz own (xs @ map (\<lambda>p. bytes_of (mem s) p (unat sz)) msgs) s' \<and>
    A' \<inter> even_heap.kept (k_heap_start W) L \<subseteq> A"
  using assms(1,3,6-9)
proof (induction msgs arbitrary: s xs L A)
  case Nil
  have "same_tasks s s" by (simp add: same_tasks_def same_kernel_def)
  then show ?case using Nil.prems(1) by (intro exI [of _ L] exI [of _ A] exI [of _ s]) simp
next
  case (Cons msg msgs)
  note pr = Cons.prems
  have msg: "msg \<noteq> 0" "byte_cells msg (unat sz) \<subseteq> even_heap.kept (k_heap_start W) L - K" using pr(4,5) by auto
  have "4 \<le> card (free_pages s)" "length xs < unat cap" using pr(2,3) by simp_all
  from queue_send_holds [OF pr(1) vars this(1) sz this(2) msg pr(6), of mode] obtain p L' A' s1 where
    s1: "queue_send W queue msg mode s = ret (p, s1)" "same_tasks s s1" "L \<subseteq> L'"
      "queue_holds W T LS K q L' A' queue cap sz own (xs @ [bytes_of (mem s) msg (unat sz)]) s1"
      "A' \<inter> even_heap.kept (k_heap_start W) L \<subseteq> A" "card (free_pages s) \<le> card (free_pages s1) + 4"
    and mc: "\<forall>c \<in> even_heap.kept (k_heap_start W) L - call_stack W K s - A. mem s1 c = mem s c" by (elim exE conjE) (rule that)
  have m1: "\<forall>c \<in> even_heap.kept (k_heap_start W) L - K - A. mem s1 c = mem s c"
    using mc call_stack_on [OF queue_holds_trap [OF pr(1)] vars] by blast
  have kept: "even_heap.kept (k_heap_start W) L \<subseteq> even_heap.kept (k_heap_start W) L'" using s1(3) by (auto simp: even_heap.kept_def)
  have R: "R \<subseteq> even_heap.kept (k_heap_start W) L' - K - A'" using pr(5) kept s1(5) by blast
  have same: "bytes_of (mem s1) p (unat sz) = bytes_of (mem s) p (unat sz)" if "p \<in> set msgs" for p
  proof (rule bytes_of_frame)
    fix c assume "c \<in> byte_cells p (unat sz)"
    then have "c \<in> R" using pr(4) that by auto
    then show "mem s1 c = mem s c" using pr(5) m1 by blast
  qed
  have idle: "mem s1 (sigs_waiting own) AND TB_QUEUE = 0" using m1 queue_holds_own [OF pr(1)] pr(6) by simp
  have room: "4 * length msgs \<le> card (free_pages s1)" "length (xs @ [bytes_of (mem s) msg (unat sz)]) + length msgs \<le> unat cap"
    using pr(2,3) s1(6) by simp_all
  have "\<forall>p \<in> set msgs. p \<noteq> 0 \<and> byte_cells p (unat sz) \<subseteq> R" using pr(4) by simp
  from Cons.IH [OF s1(4) room this R idle] obtain L2 A2 s2 where s2: "send_all W queue mode msgs s1 = ret s2" "same_tasks s1 s2" "L' \<subseteq> L2"
      "queue_holds W T LS K q L2 A2 queue cap sz own
        ((xs @ [bytes_of (mem s) msg (unat sz)]) @ map (\<lambda>p. bytes_of (mem s1) p (unat sz)) msgs) s2"
      "A2 \<inter> even_heap.kept (k_heap_start W) L' \<subseteq> A'" by (elim exE conjE) (rule that)
  have "map (\<lambda>p. bytes_of (mem s1) p (unat sz)) msgs = map (\<lambda>p. bytes_of (mem s) p (unat sz)) msgs" using same by simp
  note s2(4) [unfolded this]
  then have "queue_holds W T LS K q L2 A2 queue cap sz own (xs @ map (\<lambda>p. bytes_of (mem s) p (unat sz)) (msg # msgs)) s2"
    by simp
  moreover have "A2 \<inter> even_heap.kept (k_heap_start W) L \<subseteq> A" using s2(5) kept s1(5) by blast
  moreover have "L \<subseteq> L2" using s1(3) s2(3) by blast
  moreover have "send_all W queue mode (msg # msgs) s = ret s2" using s1(1) s2(1) by simp
  ultimately show ?case using same_tasks_trans [OF s1(2) s2(2)] by blast
qed

lemma queue_holds_own_area:
  assumes "queue_holds W T LS K q L A queue cap sz own xs s"
  shows "A \<inter> even_heap.kept (k_heap_start W) {} = {}" "L' \<subseteq> L \<Longrightarrow> even_heap.kept (k_heap_start W) L' \<subseteq> even_heap.kept (k_heap_start W) L"
proof -
  show "A \<inter> even_heap.kept (k_heap_start W) {} = {}"
    using assms
  proof (rule queue_holdsE)
    fix Q ms assume A: "A = queue_area Q ms" and inv: "queue_inv W T LS K q L Q cap sz own ms s"
    have "blocks_apart L" "set (queue_blocks Q ms) \<subseteq> L" using queue_invD(7) [OF inv] by (simp_all add: queue_mem_def)
    then have "0xC0400000 \<le> unat (fst b)" if "b \<in> set (queue_blocks Q ms)" for b
      using that by (auto simp: blocks_apart_def)
    then have "block_mem b \<subseteq> heap_own (k_heap_start W)" if "b \<in> set (queue_blocks Q ms)" for b
      using that unfolding block_mem_def heap_own_def by fastforce
    then show ?thesis unfolding A queue_area_def even_heap.kept_def by blast
  qed
  show "L' \<subseteq> L \<Longrightarrow> even_heap.kept (k_heap_start W) L' \<subseteq> even_heap.kept (k_heap_start W) L" by (auto simp: even_heap.kept_def)
qed

lemma recv_all_holds:
  fixes s :: "'a kernel_state_scheme"
  assumes "queue_holds W T LS K q L A queue cap sz own xs s"
    and "byte_cells ptr (unat sz) \<subseteq> even_heap.kept (k_heap_start W) {} - K - task_area T LS"
  shows "\<exists>L' A' s'. recv_all W queue ptr mode sz (length xs) s = ret (xs, s') \<and> same_tasks s s' \<and>
    queue_holds W T LS K q L' A' queue cap sz own [] s'"
  using assms(1)
proof (induction xs arbitrary: s L A)
  case Nil
  have "same_tasks s s" by (simp add: same_tasks_def same_kernel_def)
  then show ?case using Nil by (intro exI [of _ L] exI [of _ A] exI [of _ s]) simp
next
  case (Cons x xs)
  have "even_heap.kept (k_heap_start W) {} \<subseteq> even_heap.kept (k_heap_start W) L - A"
    using queue_holds_own_area [OF Cons.prems] by blast
  then have "byte_cells ptr (unat sz) \<subseteq> even_heap.kept (k_heap_start W) L - K - task_area T LS - A" using assms(2) by blast
  from queue_recv_holds [OF Cons.prems this, of mode] obtain b d A' s1 where
    s1: "queue_recv W queue ptr mode s = ret (ptr, s1)" "same_tasks s s1" "queue_holds W T LS K q (L - {b, d}) A' queue cap sz own xs s1"
      "bytes_of (mem s1) ptr (unat sz) = x" by (elim exE conjE) (rule that)
  from Cons.IH [OF s1(3)] obtain L2 A2 s2 where s2: "recv_all W queue ptr mode sz (length xs) s1 = ret (xs, s2)" "same_tasks s1 s2"
      "queue_holds W T LS K q L2 A2 queue cap sz own [] s2" by (elim exE conjE) (rule that)
  have "recv_all W queue ptr mode sz (length (x # xs)) s = ret (x # xs, s2)" using s1(1,4) s2(1) by simp
  then show ?case using same_tasks_trans [OF s1(2) s2(2)] s2(3) by blast
qed

lemma running_idle: "queue_holds W T LS K q L A queue cap sz (running_task s) xs s \<Longrightarrow> mem s (sigs_waiting (running_task s)) = 0"
proof (erule queue_holdsE)
  fix Q ms assume "queue_inv W T LS K q L Q cap sz (running_task s) ms s"
  note act = queue_invD(1) [OF this]
  note iv = tasks_invD [OF activeD(1) [OF act]]
  have "\<not> waiting LS (tasks_ready W) q (running_task s)" using act by (auto simp: active_def listed_def waiting_def)
  then show "mem s (sigs_waiting (running_task s)) = 0" using iv(7) [OF iv(6)] by (simp add: task_ok_def)
qed

lemma static_bytes:
  assumes "unat p + n \<le> 0xC0400000" "aligned p" "span p n \<inter> span hp 12 = {}" "span p n \<inter> B = {}"
  shows "byte_cells p n \<subseteq> even_heap.kept hp {} - B"
  using byte_cells_span [OF assms(2), of n] span_low [OF assms(1,3)] assms(4) by (auto simp: even_heap.kept_def)

lemma demo_bytes:
  "byte_cells 0x40000 8 \<subseteq> even_heap.kept (k_heap_start demo_sys) {} - demo_stack"
  "byte_cells 0x41000 8 \<subseteq> even_heap.kept (k_heap_start demo_sys) {} - demo_stack - task_area {0x10000} {0x20000, 0x20100}"
proof -
  have st: "span 0x40000 8 \<inter> demo_stack = {}" "span 0x41000 8 \<inter> demo_stack = {}"
    unfolding demo_stack_def by (subst Int_commute, rule span_apart; simp)+
  have hp: "span 0x40000 8 \<inter> span (k_heap_start demo_sys) 12 = {}" "span 0x41000 8 \<inter> span (k_heap_start demo_sys) 12 = {}"
    unfolding demo_sys_def by (simp, subst Int_commute, rule span_apart; simp)+
  have "span 0x41000 8 \<inter> span 0x10000 140 = {}" "span 0x41000 8 \<inter> span 0x20000 12 = {}" "span 0x41000 8 \<inter> span 0x20100 12 = {}"
    by (subst Int_commute, rule span_apart; simp)+
  then have "span 0x41000 8 \<inter> task_area {0x10000} {0x20000, 0x20100} = {}" by (simp add: task_area_def Int_Un_distrib)
  then have "span 0x41000 8 \<inter> (demo_stack \<union> task_area {0x10000} {0x20000, 0x20100}) = {}" using st(2) by blast
  from static_bytes [OF _ _ hp(2) this] show "byte_cells 0x41000 8 \<subseteq> even_heap.kept (k_heap_start demo_sys) {} - demo_stack - task_area {0x10000} {0x20000, 0x20100}"
    by (simp add: aligned_unat Diff_eq Int_assoc)
  from static_bytes [OF _ _ hp(1) st(1)] show "byte_cells 0x40000 8 \<subseteq> even_heap.kept (k_heap_start demo_sys) {} - demo_stack"
    by (simp add: aligned_unat)
qed

text \<open>A queue of two messages of 8 bytes in the concrete kernel.\<close>

lemma demo_kernel:
  "\<exists>s :: kernel_state. active demo_sys {0x10000} {0x20000, 0x20100} demo_stack (\<lambda>L. []) s \<and> user_mode demo_sys demo_stack s \<and> counters_ok s \<and>
    heap_even (k_heap_start demo_sys) s {} \<and> 8 \<le> card (free_pages s) \<and> running_task s = 0x10000 \<and>
    task_area {0x10000} {0x20000, 0x20100} \<union> demo_stack \<subseteq> even_heap.kept (k_heap_start demo_sys) {}"
proof -
  have "even_heap.kept (k_heap_start demo_sys) {} = - heap_own 0x20200" by (simp add: even_heap.kept_def demo_sys_def)
  then show ?thesis using demo_boot demo_placed(1) by (auto simp: clock_ready_def)
qed

lemma demo_queue:
  "\<exists>(s :: kernel_state) p n A. queue_holds demo_sys {0x10000} {0x20000, 0x20100} demo_stack (\<lambda>L. []) {(p, n)} A p 2 8 0x10000 [] s \<and>
    running_task s = 0x10000 \<and> 4 \<le> card (free_pages s) \<and> mem s (sigs_waiting 0x10000) AND TB_QUEUE = 0 \<and>
    byte_cells 0x40000 (unat (8 :: u32)) \<subseteq> even_heap.kept (k_heap_start demo_sys) {(p, n)} - demo_stack"
proof -
  obtain s :: kernel_state where s: "active demo_sys {0x10000} {0x20000, 0x20100} demo_stack (\<lambda>L. []) s" "user_mode demo_sys demo_stack s"
    "counters_ok s" "heap_even (k_heap_start demo_sys) s {}" "8 \<le> card (free_pages s)" "running_task s = 0x10000"
    "task_area {0x10000} {0x20000, 0x20100} \<union> demo_stack \<subseteq> even_heap.kept (k_heap_start demo_sys) {}"
    using demo_kernel by (elim exE conjE) (rule that)
  have "2 \<le> card (free_pages s)" using s(5) by simp
  from queue_create [OF s(1) can_trap_user [OF s(2)] s(3,4,7) demo_placed(3) this, of 2 8] obtain p n A s' where
    s': "same_tasks s s'" "queue_holds demo_sys {0x10000} {0x20000, 0x20100} demo_stack (\<lambda>L. []) (insert (p, n) {}) A p 2 8 (running_task s) [] s'"
    "card (free_pages s) \<le> card (free_pages s') + 2" by (elim exE conjE) (rule that)
  have r: "running_task s' = 0x10000" using s'(1) s(6) by (simp add: same_tasks_def same_kernel_def)
  have h: "queue_holds demo_sys {0x10000} {0x20000, 0x20100} demo_stack (\<lambda>L. []) {(p, n)} A p 2 8 (running_task s') [] s'"
    using s'(2) s(6) r by simp
  have "byte_cells 0x40000 (unat (8 :: u32)) \<subseteq> even_heap.kept (k_heap_start demo_sys) {(p, n)} - demo_stack"
    using demo_bytes(1) queue_holds_own_area(2) [OF h, of "{}"] by auto
  then show ?thesis using h [unfolded r] running_idle [OF h] s(5) s'(3) r
    by (intro exI [of _ s'] exI [of _ p] exI [of _ n] exI [of _ A]) simp
qed

lemma demo_size: "even_size 8" "unat (8 :: u32) \<le> 2032" "length ([] :: u8 list list) < unat (2 :: u32)" "(0x40000 :: u32) \<noteq> 0"
  by (simp_all add: even_size_def align_size_def)

section \<open>Properties\<close>

text \<open>C20. \<open>queue_send\<close> on a queue that is not full appends the bytes of the message behind those the queue holds, in fresh heap
  blocks, and returns the new message, for a regular message size and an owner that does not wait. The tasks and the heap stay
  well formed, no task is switched, the forbid counter is as before, and outside the queue and the heap nothing changes.\<close>

theorem queue_send_appends:
  fixes s :: "'a kernel_state_scheme"
  assumes "queue_holds W T LS K q L A queue cap sz own xs s" and "vars_ok W K" and "4 \<le> card (free_pages s)"
    and "even_size sz" "unat sz \<le> 2032" and "length xs < unat cap"
    and "msg \<noteq> 0" "byte_cells msg (unat sz) \<subseteq> even_heap.kept (k_heap_start W) L - K"
    and "mem s (sigs_waiting own) AND TB_QUEUE = 0"
  shows "\<exists>p L' A' s'. queue_send W queue msg mode s = ret (p, s') \<and> p \<noteq> 0 \<and> L \<subseteq> L' \<and> A \<subseteq> A' \<and>
    queue_holds W T LS K q L' A' queue cap sz own (xs @ [bytes_of (mem s) msg (unat sz)]) s' \<and>
    running_task s' = running_task s \<and> forbid_counter s' = forbid_counter s \<and>
    card (free_pages s) \<le> card (free_pages s') + 4 \<and>
    (\<forall>c \<in> even_heap.kept (k_heap_start W) L - call_stack W K s - A. mem s' c = mem s c)"
  using queue_send_holds [OF assms, of mode] unfolding same_tasks_def same_kernel_def by blast

theorem queue_send_appends_witness:
  "\<exists>(s :: kernel_state) p p' L A s'. queue_send demo_sys p 0x40000 QM_NONBLOCKING s = ret (p', s') \<and>
    queue_holds demo_sys {0x10000} {0x20000, 0x20100} demo_stack (\<lambda>L. []) L A p 2 8 0x10000 [bytes_of (mem s) 0x40000 8] s'"
proof -
  obtain s :: kernel_state and p n A where
    s: "queue_holds demo_sys {0x10000} {0x20000, 0x20100} demo_stack (\<lambda>L. []) {(p, n)} A p 2 8 0x10000 [] s"
      "running_task s = 0x10000" "4 \<le> card (free_pages s)" "mem s (sigs_waiting 0x10000) AND TB_QUEUE = 0"
      "byte_cells 0x40000 (unat (8 :: u32)) \<subseteq> even_heap.kept (k_heap_start demo_sys) {(p, n)} - demo_stack"
    using demo_queue by (elim exE conjE) (rule that)
  from queue_send_appends [OF s(1) demo_placed(3) s(3) demo_size s(5,4), of QM_NONBLOCKING] obtain p' L' A' s' where
    "queue_send demo_sys p 0x40000 QM_NONBLOCKING s = ret (p', s')"
    "queue_holds demo_sys {0x10000} {0x20000, 0x20100} demo_stack (\<lambda>L. []) L' A' p 2 8 0x10000 ([] @ [bytes_of (mem s) 0x40000 (unat (8 :: u32))]) s'"
    by (elim exE conjE) (rule that)
  then show ?thesis
    by (intro exI [of _ s] exI [of _ p] exI [of _ p'] exI [of _ L'] exI [of _ A'] exI [of _ s']) simp
qed



text \<open>C19. A queue is first in, first out: create a queue for messages of a regular size, which is at most 2032 bytes and rounds up to an
  odd multiple of 16 (\<open>even_size\<close>: a size with which the heap does not get into the state of \<open>kmalloc_overlaps_used_block\<close>), send
  any number of messages that its slots and the free pages can hold, and receive as many, all without blocking; what was received
  is the bytes of the messages, in the order in which they were sent.\<close>

theorem queue_fifo:
  fixes s :: "'a kernel_state_scheme"
  assumes "active W T LS K q s" and "user_mode W K s" and "counters_ok s" and "heap_even (k_heap_start W) s L"
    and "task_area T LS \<union> K \<subseteq> even_heap.kept (k_heap_start W) L" and "vars_ok W K"
    and room: "2 + 4 * length msgs \<le> card (free_pages s)" and sz: "even_size sz" "unat sz \<le> 2032" and len: "length msgs \<le> unat slots"
    and msgs: "\<forall>p \<in> set msgs. p \<noteq> 0 \<and> byte_cells p (unat sz) \<subseteq> even_heap.kept (k_heap_start W) L - K"
    and ptr: "byte_cells ptr (unat sz) \<subseteq> even_heap.kept (k_heap_start W) {} - K - task_area T LS"
  shows "\<exists>queue s1 s2 s3. create_queue W slots sz s = ret (queue, s1) \<and> send_all W queue mode msgs s1 = ret s2 \<and>
    recv_all W queue ptr mode' sz (length msgs) s2 = ret (map (\<lambda>p. bytes_of (mem s) p (unat sz)) msgs, s3) \<and>
    mem s3 (free_slots queue) = slots \<and> running_task s3 = running_task s \<and> forbid_counter s3 = forbid_counter s"
proof -
  have "2 \<le> card (free_pages s)" using room by simp
  from queue_create [OF assms(1) can_trap_user [OF assms(2)] assms(3-6) this, of slots sz] obtain queue n A s1 where
    s1: "create_queue W slots sz s = ret (queue, s1)" "same_tasks s s1"
      "queue_holds W T LS K q (insert (queue, n) L) A queue slots sz (running_task s) [] s1"
    and A: "A \<inter> even_heap.kept (k_heap_start W) L = {}" and pages: "card (free_pages s) \<le> card (free_pages s1) + 2"
    and m1: "\<forall>c \<in> even_heap.kept (k_heap_start W) L - K. mem s1 c = mem s c" by (elim exE conjE) (rule that)
  have r: "running_task s1 = running_task s" using s1(2) by (simp add: same_tasks_def same_kernel_def)
  have R: "even_heap.kept (k_heap_start W) L - K \<subseteq> even_heap.kept (k_heap_start W) (insert (queue, n) L) - K - A"
    using A kept_mono [of "k_heap_start W" L "(queue, n)"] by blast
  have "mem s1 (sigs_waiting (running_task s)) AND TB_QUEUE = 0" using running_idle [OF s1(3) [folded r]] r by simp
  moreover have "4 * length msgs \<le> card (free_pages s1)" "length ([] :: u8 list list) + length msgs \<le> unat slots"
    using room pages len by simp_all
  ultimately obtain L2 A2 s2 where s2: "send_all W queue mode msgs s1 = ret s2" "same_tasks s1 s2"
      "queue_holds W T LS K q L2 A2 queue slots sz (running_task s) ([] @ map (\<lambda>p. bytes_of (mem s1) p (unat sz)) msgs) s2"
    using send_all_holds [OF s1(3) assms(6) _ sz _ msgs R, of mode] by blast
  from recv_all_holds [OF s2(3) ptr, of mode', unfolded append_Nil length_map] obtain L3 A3 s3 where
    s3: "recv_all W queue ptr mode' sz (length msgs) s2 = ret (map (\<lambda>p. bytes_of (mem s1) p (unat sz)) msgs, s3)" "same_tasks s2 s3"
      "queue_holds W T LS K q L3 A3 queue slots sz (running_task s) [] s3" by (elim exE conjE) (rule that)
  have "bytes_of (mem s1) p (unat sz) = bytes_of (mem s) p (unat sz)" if "p \<in> set msgs" for p
    using msgs m1 that by (intro bytes_of_frame) blast
  then have "map (\<lambda>p. bytes_of (mem s1) p (unat sz)) msgs = map (\<lambda>p. bytes_of (mem s) p (unat sz)) msgs" by simp
  note s3(1) [unfolded this]
  moreover have "same_tasks s s3" using same_tasks_trans [OF same_tasks_trans [OF s1(2) s2(2)] s3(2)] .
  then have "running_task s3 = running_task s" "forbid_counter s3 = forbid_counter s" by (simp_all add: same_tasks_def same_kernel_def)
  moreover have "mem s3 (free_slots queue) = slots" using queue_free_slots(1) [OF s3(3)] by simp
  ultimately show ?thesis using s1(1) s2(1) by blast
qed

theorem queue_fifo_witness:
  "\<exists>(s :: kernel_state) queue s1 s2 s3. create_queue demo_sys 1 8 s = ret (queue, s1) \<and>
    send_all demo_sys queue QM_NONBLOCKING [0x40000] s1 = ret s2 \<and>
    recv_all demo_sys queue 0x41000 QM_NONBLOCKING 8 1 s2 = ret ([bytes_of (mem s) 0x40000 8], s3)"
proof -
  obtain s :: kernel_state where s: "active demo_sys {0x10000} {0x20000, 0x20100} demo_stack (\<lambda>L. []) s" "user_mode demo_sys demo_stack s"
    "counters_ok s" "heap_even (k_heap_start demo_sys) s {}" "8 \<le> card (free_pages s)" "running_task s = 0x10000"
    "task_area {0x10000} {0x20000, 0x20100} \<union> demo_stack \<subseteq> even_heap.kept (k_heap_start demo_sys) {}"
    using demo_kernel by (elim exE conjE) (rule that)
  have h: "2 + 4 * length [0x40000 :: u32] \<le> card (free_pages s)" "length [0x40000 :: u32] \<le> unat (1 :: u32)"
    "\<forall>p \<in> set [0x40000]. p \<noteq> 0 \<and> byte_cells p (unat (8 :: u32)) \<subseteq> even_heap.kept (k_heap_start demo_sys) {} - demo_stack"
    "byte_cells 0x41000 (unat (8 :: u32)) \<subseteq> even_heap.kept (k_heap_start demo_sys) {} - demo_stack - task_area {0x10000} {0x20000, 0x20100}"
    using s(5) demo_bytes by simp_all
  from queue_fifo [OF s(1-4,7) demo_placed(3) h(1) demo_size(1,2) h(2-4), of QM_NONBLOCKING QM_NONBLOCKING] show ?thesis
    by (elim exE conjE) (intro exI conjI, assumption, assumption, simp)
qed

text \<open>C22. The early returns of calls that do not block: \<open>queue_send\<close> on a full queue, and \<open>queue_recv\<close> on an empty one, return NULL and
  change nothing but the forbid counter, which stays one higher than before the call; the scheduler then does nothing.\<close>

theorem queue_full_stays_forbidden:
  fixes s :: "'a kernel_state_scheme"
  assumes "queue_holds W T LS K q L A queue cap sz own xs s" and "mode \<noteq> QM_BLOCKING"
  shows "(length xs = unat cap \<longrightarrow> queue_send W queue msg mode s = ret (0, forbid s)) \<and>
    (xs = [] \<longrightarrow> queue_recv W queue ptr mode s = ret (0, forbid s)) \<and>
    forbid_counter (forbid s) = forbid_counter s + 1 \<and> schedule W (forbid s) = ret (0, forbid s)"
  using queue_returns_early [OF assms] by blast

theorem queue_full_stays_forbidden_witness:
  "\<exists>(s :: kernel_state) p. queue_recv demo_sys p 0x41000 QM_NONBLOCKING s = ret (0, forbid s) \<and> schedule demo_sys (forbid s) = ret (0, forbid s)"
proof -
  obtain s :: kernel_state and p n A where
    s: "queue_holds demo_sys {0x10000} {0x20000, 0x20100} demo_stack (\<lambda>L. []) {(p, n)} A p 2 8 0x10000 [] s"
    using demo_queue by (elim exE conjE) (rule that)
  have "QM_NONBLOCKING \<noteq> QM_BLOCKING" by (simp add: QM_NONBLOCKING_def QM_BLOCKING_def)
  from queue_full_stays_forbidden [OF s this] show ?thesis by (intro exI [of _ s] exI [of _ p]) simp
qed

end
