(* ===== verification/Keyboard.thy ===== *)
theory Keyboard
  imports QueueFifo
begin

text \<open>
  The keyboard interrupt, from the register frame of the interrupted task to the dispatch of the console: \<open>keypress_isr\<close> sends
  the code of the key to the queue of the console, inside the interrupt, with system calls that return into the kernel; the signal
  for the console, which waits for the queue, asks for the scheduler; the interrupt ends in a switch.
\<close>

section \<open>A signal from inside the kernel\<close>

lemma signal_enter_mem:
  assumes "signal_enter W t sigs s = ret s1" and "counters_ok s"
  shows "s1 = s\<lparr>mem := mem s1\<rparr>"
proof -
  have enter: "\<exists>m. enter_list L x s = ret s' \<longrightarrow> s' = s\<lparr>mem := m\<rparr>" for L x and s s' :: "'a kernel_state_scheme"
    by (cases "enqueue (mem s) L x") (auto simp: enter_list_def ret_def)
  define s2 where "s2 = (let s = forbid s;
         s = upd (task_flags t) (mem s (task_flags t) OR TS_READY) s;
         s = upd (sigs_waiting t) (mem s (sigs_waiting t) AND NOT sigs) s;
         s = upd (sigs_recvd t) (mem s (sigs_recvd t) OR sigs) s
     in s\<lparr>mem := remove_node (mem s) t\<rparr>)"
  have s2: "s2 = forbid s\<lparr>mem := mem s2\<rparr>" by (simp add: s2_def Let_def upd_def)
  have "bnd (enter_list (tasks_ready W) t s2) (\<lambda>s. ret (permit s)) = ret s1"
    using assms(1) by (simp only: signal_enter_def s2_def Let_def)
  then obtain s3 where s3: "enter_list (tasks_ready W) t s2 = ret s3" "s1 = permit s3" unfolding bnd_eq_ret by (auto simp: ret_def)
  obtain m where "s3 = s2\<lparr>mem := m\<rparr>" using enter s3(1) by blast
  then have "s3 = forbid s\<lparr>mem := m\<rparr>" using arg_cong [OF s2, of "\<lambda>s. s\<lparr>mem := m\<rparr>"] by simp
  then have "s1 = permit (forbid s\<lparr>mem := m\<rparr>)" using s3(2) by simp
  moreover have "permit (forbid s\<lparr>mem := m\<rparr>) = permit (forbid s)\<lparr>mem := m\<rparr>" by (simp add: permit_def forbid_def)
  moreover have "permit (forbid s) = s" using assms(2) by (intro permit_forbid) (simp_all add: counters_ok_def)
  ultimately show ?thesis by simp
qed

lemma kernel_signal:
  fixes s :: "'a kernel_state_scheme"
  assumes act: "active W T LS K q s" and ker: "in_kernel W K s" and small: "counters_ok s" and t: "t \<in> set (q (tasks_wait W))"
    and sig: "mem s (sigs_waiting t) AND sigs \<noteq> 0" "sigs \<noteq> 0" and pri: "node_pri (mem s) (running_task s) \<le> node_pri (mem s) t"
  shows "\<exists>m. signal W t sigs s = ret (sigs, s\<lparr>mem := m, sched_state := sched_state s OR NEED_SCHEDULE, forbid_counter := 0\<rparr>) \<and>
    active W T LS K (woken W q (mem s) t) (s\<lparr>mem := m\<rparr>) \<and> m (sigs_recvd t) = mem s (sigs_recvd t) OR sigs \<and>
    (\<forall>x \<in> T. node_pri m x = node_pri (mem s) x \<and> frame_at m (task_state x) = frame_at (mem s) (task_state x)) \<and>
    (\<forall>c. c \<notin> link_area T LS \<union> kframes W \<union> span (t + 116) 12 \<longrightarrow> m c = mem s c)"
proof -
  note inv = activeD(1) [OF act]
  note iv = tasks_invD [OF inv]
  have tT: "t \<in> T" using lists_okD(3) [OF iv(5,3)] t by auto
  obtain s1 where s1: "signal_enter W t sigs s = ret s1" "tasks_inv W T LS K (woken W q (mem s) t) s1"
    "\<forall>r. run_flags T (mem s1) r = run_flags T (mem s) r" "mem s1 (sigs_recvd t) = mem s (sigs_recvd t) OR sigs"
    "\<forall>c. c \<notin> link_area T LS \<union> span (t + 116) 12 \<longrightarrow> mem s1 c = mem s c"
    using signal_enter_readies [OF inv iv(3,4) t sig(1)] unfolding woken_def by blast
  have e1: "s1 = s\<lparr>mem := mem s1\<rparr>" by (rule signal_enter_mem [OF s1(1) small])
  have p1: "node_pri (mem s1) x = node_pri (mem s) x" if x: "x \<in> T" for x
  proof -
    have "x + 12 \<notin> span (t + 116) 12"
    proof (cases "x = t")
      case True
      then show ?thesis by (simp add: span_def)
    next
      case False
      have "span (t + 116) 12 \<subseteq> span t 140" by (rule span_shift) simp
      moreover have "x + 12 \<in> span x 140" by simp
      ultimately show ?thesis using layout_okD(4) [OF iv(1) x tT False] by blast
    qed
    then have "mem s1 (x + 12) = mem s (x + 12)" using s1(5) layout_field(1) [OF iv(1) x, of 12] by simp
    then show ?thesis by (simp add: node_pri_def)
  qed
  have ker1: "in_kernel W K s1" using ker by (subst e1) (simp add: in_kernel_def)
  let ?m = "push_frame (frame W s1) (trap_frame SYSCALL_YIELD 0 (registers W s1)) (mem s1)"
  have run: "running_task s1 = running_task s" by (subst e1) simp
  have yields: "node_pri (mem s1) (running_task s1) \<le> node_pri (mem s1) t" unfolding run using p1 iv(6) tT pri by simp
  have "signal W t sigs s = ret (sigs, s1\<lparr>mem := ?m, sched_state := sched_state s1 OR NEED_SCHEDULE, forbid_counter := 0\<rparr>)"
    using sig s1(1) yields nested_yield [OF ker1] by (simp add: signal_def)
  moreover have "s1\<lparr>mem := ?m, sched_state := sched_state s1 OR NEED_SCHEDULE, forbid_counter := 0\<rparr> =
      s\<lparr>mem := ?m, sched_state := sched_state s OR NEED_SCHEDULE, forbid_counter := 0\<rparr>"
    by (rule HOL.subst [where P = "\<lambda>x. x\<lparr>mem := ?m, sched_state := sched_state x OR NEED_SCHEDULE, forbid_counter := 0\<rparr> = _", OF e1 [symmetric]]) simp
  ultimately have r: "signal W t sigs s = ret (sigs, s\<lparr>mem := ?m, sched_state := sched_state s OR NEED_SCHEDULE, forbid_counter := 0\<rparr>)" by simp
  have "on_stack K (frame W s1)" using ker1 by (simp add: in_kernel_def)
  note push = push_on_stack [OF this]
  have kf: "?m c = mem s1 c" if "c \<notin> kframes W" for c
  proof -
    have "0 \<le> sint (k_reenter s1)" using ker1 by (simp add: in_kernel_def)
    then have "c \<notin> span (frame W s1) 64" using that unfolding kframes_def by blast
    then show ?thesis by (simp add: push_frame_other)
  qed
  note sw = stack_write [OF iv(1), of ?m "mem s1", OF push]
  have "active W T LS K (woken W q (mem s) t) s1"
    using s1(2,3) run activeD(2,3,4) [OF act] listed_move [OF iv(5,3,2,4) t] by (simp add: active_def woken_def)
  then have "active W T LS K (woken W q (mem s) t) (s1\<lparr>mem := ?m\<rparr>)" using push by (intro stack_write_active)
  then have act': "active W T LS K (woken W q (mem s) t) (s\<lparr>mem := ?m\<rparr>)" using run by (subst active_same [of _ "s1\<lparr>mem := ?m\<rparr>"]) simp_all
  have same: "\<forall>c. c \<notin> link_area T LS \<union> kframes W \<union> span (t + 116) 12 \<longrightarrow> ?m c = mem s c" using kf s1(5) by simp
  have frames: "frame_at ?m (task_state x) = frame_at (mem s) (task_state x)" if x: "x \<in> T" for x
  proof -
    have "kframes W \<subseteq> K" using ker by (auto simp: kframes_def in_kernel_def on_stack_def)
    moreover have "span (t + 116) 12 \<subseteq> span (t + 112) 28" using span_shift [of 4 12 28 "t + 112"] by (simp add: add.assoc)
    ultimately have "c \<notin> link_area T LS \<union> kframes W \<union> span (t + 116) 12" if "c \<in> span (task_state x) 64" for c
      using layout_state(1,2) [OF iv(1) x] state_not_data [OF iv(1) x that] that tT by blast
    then show ?thesis using same by (intro frame_at_frame) simp
  qed
  have recvd: "?m (sigs_recvd t) = mem s (sigs_recvd t) OR sigs" using sw(4) [OF tT] s1(4) by simp
  have "node_pri ?m x = node_pri (mem s) x" if "x \<in> T" for x using sw(3) [OF that] p1 [OF that] by simp
  then show ?thesis using r act' recvd frames same by (intro exI [of _ ?m] conjI ballI) assumption+
qed

section \<open>A queue under changes elsewhere\<close>

definition heap_same :: "'a heap_state_scheme \<Rightarrow> 'a heap_state_scheme \<Rightarrow> bool" where
  "heap_same s s' \<longleftrightarrow> phys s' = phys s \<and> cr3 s' = cr3 s \<and> LowRamBitF s' = LowRamBitF s \<and> LowRamFreeCount s' = LowRamFreeCount s \<and>
     k_heap_end s' = k_heap_end s"

lemma queue_inv_change:
  fixes s s' :: "'a kernel_state_scheme"
  assumes inv: "queue_inv W T LS K q L Q cap sz own ms s" and act: "active W T LS K q' s'" and trap: "can_trap W K s'" "counters_ok s'"
    and heap: "heap_same s s'" and same: "\<And>c. c \<notin> A \<Longrightarrow> mem s' c = mem s c"
    and A: "A \<subseteq> even_heap.kept (k_heap_start W) L" "A \<inter> queue_area Q ms = {}"
  shows "queue_inv W T LS K q' L Q cap sz own ms s'"
proof -
  note iv = queue_invD [OF inv]
  have "heap_even (k_heap_start W) (s\<lparr>mem := mem s'\<rparr>) L" using A(1) by (intro heap_even_write [OF iv(4)] same) blast
  then have "heap_even (k_heap_start W) s' L" using heap by (subst heap_even_cong [of _ "s\<lparr>mem := mem s'\<rparr>"]) (simp_all add: heap_same_def)
  moreover have "queue_rep (mem s') (fst Q) cap sz own ms" using A(2) by (intro queue_rep_frame [OF iv(7,8)] same) blast
  ultimately show ?thesis using act trap iv(5-7,9) by (simp add: queue_inv_def)
qed

text \<open>The stack, the tasks and the lists are apart from the queue.\<close>

lemma queue_inv_tasks:
  fixes s s' :: "'a kernel_state_scheme"
  assumes inv: "queue_inv W T LS K q L Q cap sz own ms s" and "active W T LS K q' s'" and "can_trap W K s'" "counters_ok s'"
    and "heap_same s s'" and "\<And>c. c \<notin> task_area T LS \<union> K \<Longrightarrow> mem s' c = mem s c"
  shows "queue_inv W T LS K q' L Q cap sz own ms s'"
  using queue_invD(5,9) [OF inv] by (intro queue_inv_change [OF assms]) blast+

section \<open>The key\<close>

lemma key_bytes:
  assumes "aligned a" and "m a = ucast (v :: u8)"
  shows "bytes_of m a 4 = [v, 0, 0, 0]" and "byte_cells a 4 = {a}"
proof -
  have u: "drop_bit (8 * i) (ucast v :: u32) = (if i = 0 then ucast v else 0)" for i
    by (rule bit_word_eqI) (auto simp: bit_simps dest: bit_imp_le_length)
  have "ucast (ucast v :: u32) = v" by (rule bit_word_eqI) (auto simp: bit_simps dest: bit_imp_le_length)
  then have "load8 m (a + of_nat i) = (if i = 0 then v else 0)" if "i < 4" for i
    using cell_of_aligned_add [OF assms(1) that] lane_aligned_add [OF assms(1) that] assms(2) u [of i] by (simp add: load8_def)
  then have "bytes_of m a 4 = map (\<lambda>i. if i = 0 then v else 0) [0..<4]" by (simp add: bytes_of_def)
  then show "bytes_of m a 4 = [v, 0, 0, 0]" by (simp add: upt_rec)
  show "byte_cells a 4 = {a}" using cell_of_aligned_add [OF assms(1)] by (auto simp: byte_cells_def intro!: image_eqI [of _ _ 0])
qed

text \<open>The state in which \<open>keypress_isr\<close> sends the key.\<close>

definition key_state :: "u8 \<Rightarrow> console_mem \<Rightarrow> 'a console_state_scheme sys \<Rightarrow> 'a console_state_scheme \<Rightarrow> 'a console_state_scheme" where
  "key_state v C W s = disable (upd (isr_scancode C) (ucast v) (irq_state W 33 s\<lparr>io := io s @ [InB 0x60 v]\<rparr>))"

lemma keypress_sends:
  assumes "env (io s) 0x60 = v" and "v AND 0x80 = 0"
  shows "keypress_isr env C W (irq_state W 33 s) =
    bnd (queue_send W (keybd_queue s) (isr_scancode C) QM_NONBLOCKING (key_state v C W s)) (\<lambda>(p, s). ret (enable s))"
proof -
  have io: "io (irq_state W 33 s) = io s" "keybd_queue (irq_state W 33 s) = keybd_queue s" by (simp_all add: irq_state_def)
  have "(ucast v :: u32) AND 0x80 = ucast (v AND 0x80)" by (rule bit_word_eqI) (auto simp: bit_simps dest: bit_imp_le_length)
  then have "(ucast v :: u32) AND 0x80 = 0" using assms(2) by simp
  then show ?thesis using assms(1) io by (simp add: keypress_isr_def inb_def Let_def key_state_def upd_def)
qed

lemma interrupt_keys:
  assumes "length (interrupt_handlers s) = 256" and "interrupt_handlers s ! 33 = Some Keypress_isr"
  shows "interrupt W (hardware_call env C W) 33 s = bnd (keypress_isr env C W (irq_state W 33 s)) (\<lambda>s1.
    bnd (reschedule W (frame W s) (disable s1)) (\<lambda>s2. ret (end_of_interrupt s2\<lparr>iflag := iflag s\<rparr>)))"
proof -
  let ?c = "(registers W s)(9 := 33, 10 := 0)"
  have "reg_int_no (push_frame (frame W s) ?c (mem s)) (frame W s) = 33"
    using push_frame_cell [of 9 "frame W s" ?c "mem s"] by (simp add: reg_int_no_def)
  then show ?thesis
    using assms by (simp add: interrupt_def irq_handler_def handler_of_def hardware_call_def irq_state_def end_of_interrupt_def
      outb_def disable_def enable_def Let_def bnd_assoc)
qed

lemma key_state_simps [simp]:
  "running_task (key_state v C W s) = running_task s" "k_reenter (key_state v C W s) = k_reenter s + 1"
  "interrupt_handlers (key_state v C W s) = interrupt_handlers s" "forbid_counter (key_state v C W s) = forbid_counter s"
  "sched_state (key_state v C W s) = sched_state s" "keybd_queue (key_state v C W s) = keybd_queue s"
  "mem (key_state v C W s) = (push_frame (frame W s) ((registers W s)(9 := 33, 10 := 0)) (mem s))(isr_scancode C := ucast v)"
  "io (key_state v C W s) = io s @ [InB 0x60 v]"
  "heap_same s (key_state v C W s)" "card (free_pages (key_state v C W s)) = card (free_pages s)"
  by (simp_all add: key_state_def irq_state_def disable_def upd_def heap_same_def free_pages_def page_free_def [abs_def])

lemma key_state_queue:
  fixes s :: "'a console_state_scheme"
  assumes inv: "queue_inv W T LS K q L Q cap sz own ms s" and user: "user_mode W K s"
    and scan: "aligned (isr_scancode C)" "isr_scancode C \<in> even_heap.kept (k_heap_start W) {} - K - task_area T LS"
  shows "queue_inv W T LS K q L Q cap sz own ms (key_state v C W s)" and "in_kernel W K (key_state v C W s)"
    and "c \<notin> K \<Longrightarrow> c \<noteq> isr_scancode C \<Longrightarrow> mem (key_state v C W s) c = mem s c"
    and "frame_at (mem (key_state v C W s)) (frame W s) = irq_frame W 33 s"
    and "byte_cells (isr_scancode C) 4 \<subseteq> even_heap.kept (k_heap_start W) L - K"
    and "bytes_of (mem (key_state v C W s)) (isr_scancode C) 4 = [v, 0, 0, 0]"
proof -
  let ?s = "key_state v C W s" and ?a = "isr_scancode C"
  note iv = queue_invD [OF inv] and u = user_modeD [OF user]
  have K: "\<forall>c. c \<notin> K \<longrightarrow> push_frame (frame W s) ((registers W s)(9 := 33, 10 := 0)) (mem s) c = mem s c" by (rule push_on_stack [OF u(2)])
  then show same: "mem ?s c = mem s c" if "c \<notin> K" "c \<noteq> ?a" for c using that by simp
  have ho: "queue_holds W T LS K q L (queue_area Q ms) (fst Q) cap sz own (rev (map (snd \<circ> snd) ms)) s" by (rule queue_holdsI [OF inv refl])
  have a: "?a \<in> even_heap.kept (k_heap_start W) L" "?a \<notin> queue_area Q ms"
    using queue_holds_own_area [OF ho] scan(2) by blast+
  show ker: "in_kernel W K ?s" using u by (simp add: in_kernel_def)
  have "mem ?s c = mem s c" if c: "c \<in> task_area T LS" for c
  proof (rule same)
    show "c \<notin> K" using task_area_stack [OF settledD(6) [OF iv(10)]] c by blast
    show "c \<noteq> ?a" using scan(2) c by blast
  qed
  then have act: "active W T LS K q (s\<lparr>mem := mem ?s\<rparr>)" unfolding task_area_def by (rule memory_step(1) [OF iv(1)])
  then have "active W T LS K q ?s" by (subst active_same [of _ "s\<lparr>mem := mem ?s\<rparr>"]) simp_all
  moreover have "counters_ok ?s" using iv(3) by (simp add: counters_ok_def)
  moreover have "can_trap W K ?s" using ker by (simp add: can_trap_def)
  moreover have "insert ?a K \<subseteq> even_heap.kept (k_heap_start W) L" "insert ?a K \<inter> queue_area Q ms = {}" using a iv(5,9) by blast+
  moreover have "mem ?s c = mem s c" if "c \<notin> insert ?a K" for c using that by (intro same) simp_all
  ultimately show "queue_inv W T LS K q L Q cap sz own ms ?s"
    using key_state_simps(9) [of s v C W] by (intro queue_inv_change [OF inv, where A = "insert ?a K"]) assumption+
  have "?a \<notin> span (frame W s) 64" using u(2) scan(2) by (auto simp: on_stack_def)
  then have "frame_at (mem ?s) (frame W s) = frame_at (push_frame (frame W s) ((registers W s)(9 := 33, 10 := 0)) (mem s)) (frame W s)"
    by (intro frame_at_frame) auto
  then show "frame_at (mem ?s) (frame W s) = irq_frame W 33 s" by (simp add: push_frame_at irq_frame_def)
  show "byte_cells ?a 4 \<subseteq> even_heap.kept (k_heap_start W) L - K" using key_bytes(2) [OF scan(1)] a scan(2) by auto
  show "bytes_of (mem ?s) ?a 4 = [v, 0, 0, 0]" by (rule key_bytes(1) [OF scan(1)]) simp
qed

section \<open>The interrupt\<close>

lemma link_area_tasks: "link_area T LS \<subseteq> task_area T LS"
  using span_mono [of 8 140] by (fastforce simp: link_area_def task_area_def)

lemma keypress_wakes:
  fixes s :: "'a console_state_scheme"
  assumes inv: "queue_inv W T LS K q L Q cap 4 own [] s" and user: "user_mode W K s"
    and apart: "frames_apart W" and vars: "vars_ok W K" and room: "4 \<le> card (free_pages s)" and cap: "0 < unat cap"
    and scan: "aligned (isr_scancode C)" "isr_scancode C \<noteq> 0" "isr_scancode C \<in> even_heap.kept (k_heap_start W) {} - K - task_area T LS"
    and key: "env (io s) 0x60 = v" "v AND 0x80 = 0" and Q: "keybd_queue s = fst Q" and small: "sint (forbid_counter s) < 2 ^ 31 - 2"
    and waits: "own \<in> set (q (tasks_wait W))" "mem s (sigs_waiting own) AND TB_QUEUE \<noteq> 0"
    and pri: "node_pri (mem s) (running_task s) \<le> node_pri (mem s) own"
  shows "\<exists>s' L' b d. keypress_isr env C W (irq_state W 33 s) = ret s' \<and> running_task s' = running_task s \<and> k_reenter s' = 0 \<and>
    forbid_counter s' = 0 \<and> interrupt_handlers s' = interrupt_handlers s \<and> sched_state s' AND NEED_SCHEDULE \<noteq> 0 \<and>
    queue_inv W T LS K (woken W q (mem s) own) L' Q cap 4 own [(b, d, [v, 0, 0, 0])] s' \<and>
    (\<forall>x \<in> T. node_pri (mem s') x = node_pri (mem s) x \<and> frame_at (mem s') (task_state x) = frame_at (mem s) (task_state x)) \<and>
    frame_at (mem s') (frame W s) = irq_frame W 33 s"
proof -
  let ?r = "running_task s" and ?R = "tasks_ready W" and ?f = "frame W s" and ?hp = "k_heap_start W"
  define sk where "sk = key_state v C W s"
  note u = user_modeD [OF user] and iv0 = queue_invD [OF inv]
  note iv = tasks_invD [OF activeD(1) [OF iv0(1)]]
  have lay: "layout_ok T LS K" by (rule iv(1))
  have own: "own \<in> T" by (rule iv0(6))
  note ks = key_state_queue(1,2,4,6) [OF inv user scan(1,3), where v = v, folded sk_def] and bytes = key_state_queue(5) [OF inv user scan(1,3)]
  have k: "running_task sk = ?r" "k_reenter sk = 0" "forbid_counter sk = forbid_counter s" "interrupt_handlers sk = interrupt_handlers s"
    "sched_state sk = sched_state s" using u(1) by (simp_all add: sk_def)
  have sz: "even_size 4" "unat (4 :: u32) \<le> 2032" by (simp_all add: even_size_def align_size_def)
  have room': "4 \<le> card (free_pages sk)" using room by (simp add: sk_def)
  have len: "length ([] :: message list) < unat cap" using cap by simp
  have bc: "byte_cells (isr_scancode C) (unat (4 :: u32)) \<subseteq> even_heap.kept ?hp L - K" using bytes by simp
  have by4: "bytes_of (mem sk) (isr_scancode C) (unat (4 :: u32)) = [v, 0, 0, 0]" using ks(4) by simp
  from queue_send_enters [OF ks(1) vars room' sz len scan(2) bc, of QM_NONBLOCKING, unfolded by4 simp_thms(6) if_True] obtain b d s5 where
    send: "queue_send W (fst Q) (isr_scancode C) QM_NONBLOCKING sk = bnd (bnd (signal W own TB_QUEUE s5) (\<lambda>(r, s). ret s)) (\<lambda>s. ret (fst b, permit s))"
    and s5: "same_tasks (forbid sk) s5" "settled W T LS K q (insert d (insert b L)) s5"
      "queue_inv W T LS K q (insert d (insert b L)) Q cap 4 own [(b, d, [v, 0, 0, 0])] (permit s5)"
      "\<forall>c \<in> even_heap.kept ?hp L - call_stack W K sk - queue_area Q []. mem s5 c = mem sk c"
    by (elim exE conjE) (rule that)
  let ?L = "insert d (insert b L)"
  have t5: "running_task s5 = ?r" "k_reenter s5 = 0" "forbid_counter s5 = forbid_counter s + 1" "interrupt_handlers s5 = interrupt_handlers s"
    using s5(1) k by (simp_all add: same_tasks_def same_kernel_def forbid_def)
  have cs: "call_stack W K sk = kframes W \<union> range (stack_var W)" using k(2) by (simp add: call_stack_def)
  have csK: "call_stack W K sk \<subseteq> K" using queue_invD(2) [OF ks(1)] vars by (rule call_stack_on)
  have area: "task_area T LS \<inter> (K \<union> queue_area Q []) = {}" "task_area T LS \<union> K \<subseteq> even_heap.kept ?hp L"
    "K \<inter> queue_area Q [] = {}" using iv0(5,9) task_area_stack [OF lay] by blast+
  have mt: "mem s5 c = mem s c" if c: "c \<in> task_area T LS" for c
  proof -
    have "mem s5 c = mem sk c" using s5(4) c area csK by blast
    also have "\<dots> = mem s c"
    proof (unfold sk_def, rule key_state_queue(3) [OF inv user scan(1,3)])
      show "c \<notin> K" using c area(1) by blast
      show "c \<noteq> isr_scancode C" using c scan(3) by blast
    qed
    finally show ?thesis .
  qed
  have ft: "x + k \<in> task_area T LS" if "x \<in> T" "unat k < 140" for x k
    using that by (auto simp: task_area_def intro!: bexI [of _ x])
  have pri5: "node_pri (mem s5) x = node_pri (mem s) x" if "x \<in> T" for x
    using mt [OF ft [OF that, of 12]] by (simp add: node_pri_def)
  have state: "frame_at (mem s5) (task_state x) = frame_at (mem s) (task_state x)" if x: "x \<in> T" for x
    using x task_state_span [of x] by (intro frame_at_frame mt) (auto simp: task_area_def)
  have regs: "frame_at (mem s5) ?f = irq_frame W 33 s"
  proof -
    have fK: "span ?f 64 \<subseteq> K" using u(2) by (simp add: on_stack_def)
    have "span ?f 64 \<inter> kframes W = {}" using apart u(1) by (simp add: frames_apart_def)
    moreover have "span ?f 64 \<inter> range (stack_var W) = {}" using vars by (auto simp: vars_ok_def)
    ultimately have "mem s5 c = mem sk c" if "c \<in> span ?f 64" for c using that s5(4) fK area(2,3) unfolding cs by blast
    then show ?thesis using ks(3) frame_at_frame [of ?f "mem s5" "mem sk"] by simp
  qed
  have small5: "counters_ok s5" using iv0(3) small sint_add_1 [of "forbid_counter s"] t5(3) by (simp add: counters_ok_def)
  have ker5: "in_kernel W K s5" using u t5 by (simp add: in_kernel_def)
  have sig5: "mem s5 (sigs_waiting own) AND TB_QUEUE \<noteq> 0" using waits(2) mt [OF ft [OF own, of 120]] by (simp add: sigs_waiting_def)
  have "node_pri (mem s5) (running_task s5) \<le> node_pri (mem s5) own" using pri pri5 iv(6) own t5(1) by simp
  from kernel_signal [OF settledD(1) [OF s5(2)] ker5 small5 waits(1) sig5 _ this] obtain m where
    m: "signal W own TB_QUEUE s5 = ret (TB_QUEUE, s5\<lparr>mem := m, sched_state := sched_state s5 OR NEED_SCHEDULE, forbid_counter := 0\<rparr>)"
      "active W T LS K (woken W q (mem s5) own) (s5\<lparr>mem := m\<rparr>)"
      "\<forall>x \<in> T. node_pri m x = node_pri (mem s5) x \<and> frame_at m (task_state x) = frame_at (mem s5) (task_state x)"
      "\<forall>c. c \<notin> link_area T LS \<union> kframes W \<union> span (own + 116) 12 \<longrightarrow> m c = mem s5 c"
    by (auto simp: TB_QUEUE_def)
  define s6 where "s6 = enable (s5\<lparr>mem := m, sched_state := sched_state s5 OR NEED_SCHEDULE, forbid_counter := 0\<rparr>)"
  have s6: "mem s6 = m" "running_task s6 = ?r" "k_reenter s6 = 0" "forbid_counter s6 = 0" "interrupt_handlers s6 = interrupt_handlers s"
    "sched_state s6 AND NEED_SCHEDULE \<noteq> 0" "heap_same (permit s5) s6"
    using t5 by (simp_all add: s6_def enable_def heap_same_def permit_def NEED_SCHEDULE_def)
  have run: "keypress_isr env C W (irq_state W 33 s) = ret s6"
    unfolding keypress_sends [of env s v, OF key] Q sk_def [symmetric] send m(1) by (simp add: permit_def s6_def)
  have "ins_pri (node_pri (mem s5)) own (q ?R) = ins_pri (node_pri (mem s)) own (q ?R)"
    using lists_okD(3) [OF iv(5,2)] own pri5 by (intro ins_pri_cong) auto
  then have wk: "woken W q (mem s5) own = woken W q (mem s) own" by (simp add: woken_def)
  have act6: "active W T LS K (woken W q (mem s) own) s6"
    using m(2) s6(1,2) t5(1) unfolding wk by (subst active_same [of _ "s5\<lparr>mem := m\<rparr>"]) simp_all
  have data: "span (own + 116) 12 \<subseteq> span own 140" by (rule span_shift) simp
  have fm: "frame_at m ?f = irq_frame W 33 s"
  proof -
    have fK: "span ?f 64 \<subseteq> K" using u(2) by (simp add: on_stack_def)
    have "span ?f 64 \<inter> kframes W = {}" using apart u(1) by (simp add: frames_apart_def)
    then have "m c = mem s5 c" if "c \<in> span ?f 64" for c
      using that m(4) fK link_area_stack [OF lay] data layout_okD(3) [OF lay own] by blast
    then show ?thesis using regs frame_at_frame [of ?f m "mem s5"] by simp
  qed
  have out: "mem s6 c = mem (permit s5) c" if c: "c \<notin> task_area T LS \<union> K" for c
  proof -
    have "span (own + 116) 12 \<subseteq> task_area T LS" using data own by (auto simp: task_area_def)
    moreover have "link_area T LS \<subseteq> task_area T LS" by (rule link_area_tasks)
    moreover have "kframes W \<subseteq> K" using ker5 by (auto simp: kframes_def in_kernel_def on_stack_def)
    ultimately have "c \<notin> link_area T LS \<union> kframes W \<union> span (own + 116) 12" using c by blast
    then show ?thesis using m(4) s6(1) by simp
  qed
  have "can_trap W K s6" "counters_ok s6" using u s6(3-5) by (simp_all add: can_trap_def in_kernel_def counters_ok_def)
  from queue_inv_tasks [OF s5(3) act6 this s6(7) out] 
  have "queue_inv W T LS K (woken W q (mem s) own) ?L Q cap 4 own [(b, d, [v, 0, 0, 0])] s6" .
  moreover have "\<forall>x \<in> T. node_pri m x = node_pri (mem s) x \<and> frame_at m (task_state x) = frame_at (mem s) (task_state x)"
    using m(3) pri5 state by simp
  ultimately show ?thesis using run s6(1-6) fm by (intro exI [of _ s6] exI [of _ ?L] exI [of _ b] exI [of _ d]) simp
qed

lemma keyboard_dispatches:
  fixes s :: "'a console_state_scheme"
  assumes inv: "queue_inv W T LS K q L Q cap 4 own [] s" and user: "user_mode W K s" and irq: "interrupt_handlers s ! 33 = Some Keypress_isr"
    and apart: "frames_apart W" and vars: "vars_ok W K" and room: "4 \<le> card (free_pages s)" and cap: "0 < unat cap"
    and scan: "aligned (isr_scancode C)" "isr_scancode C \<noteq> 0" "isr_scancode C \<in> even_heap.kept (k_heap_start W) {} - K - task_area T LS"
    and key: "env (io s) 0x60 = v" "v AND 0x80 = 0" and Q: "keybd_queue s = fst Q" and small: "sint (forbid_counter s) < 2 ^ 31 - 2"
    and waits: "own \<in> set (q (tasks_wait W))" "mem s (sigs_waiting own) AND TB_QUEUE \<noteq> 0"
    and pri: "node_pri (mem s) (running_task s) \<le> node_pri (mem s) own"
    and n: "ins_pri (node_pri (mem s)) (running_task s) (ins_pri (node_pri (mem s)) own (q (tasks_ready W))) = n # ns"
  shows "\<exists>s' L' b d. interrupt W (hardware_call env C W) 33 s = ret s' \<and> running_task s' = n \<and> user_mode W K s' \<and>
    queue_inv W T LS K (q(tasks_wait W := remove1 own (q (tasks_wait W)), tasks_ready W := ns)) L' Q cap 4 own [(b, d, [v, 0, 0, 0])] s' \<and>
    frame_at (mem s') (task_state (running_task s)) = irq_frame W 33 s \<and>
    frame_at (mem s') (frame W s) = (if n = running_task s then irq_frame W 33 s else frame_at (mem s) (task_state n)) \<and>
    (\<forall>t \<in> T. t \<noteq> running_task s \<longrightarrow> frame_at (mem s') (task_state t) = frame_at (mem s) (task_state t))"
proof -
  let ?r = "running_task s" and ?R = "tasks_ready W" and ?f = "frame W s" and ?q = "woken W q (mem s) own"
  let ?q' = "q(tasks_wait W := remove1 own (q (tasks_wait W)), ?R := ns)"
  note u = user_modeD [OF user]
  from keypress_wakes [where env = env, OF inv user apart vars room cap scan key Q small waits pri] obtain s1 L' b d where
    s1: "keypress_isr env C W (irq_state W 33 s) = ret s1" "running_task s1 = ?r" "k_reenter s1 = 0" "forbid_counter s1 = 0"
      "interrupt_handlers s1 = interrupt_handlers s" "sched_state s1 AND NEED_SCHEDULE \<noteq> 0"
      "queue_inv W T LS K ?q L' Q cap 4 own [(b, d, [v, 0, 0, 0])] s1"
      "\<forall>x \<in> T. node_pri (mem s1) x = node_pri (mem s) x \<and> frame_at (mem s1) (task_state x) = frame_at (mem s) (task_state x)"
      "frame_at (mem s1) ?f = irq_frame W 33 s" by (elim exE conjE) (rule that)
  define s6 where "s6 = disable s1"
  have s6: "mem s6 = mem s1" "running_task s6 = ?r" "k_reenter s6 = 0" "forbid_counter s6 = 0" "sched_state s6 AND NEED_SCHEDULE \<noteq> 0"
    "heap_same s1 s6" "interrupt_handlers s6 = interrupt_handlers s" using s1 by (simp_all add: s6_def disable_def heap_same_def)
  have int: "interrupt W (hardware_call env C W) 33 s = bnd (reschedule W ?f s6) (\<lambda>s2. ret (end_of_interrupt s2\<lparr>iflag := iflag s\<rparr>))"
    unfolding interrupt_keys [OF u(4) irq] s1(1) by (simp add: s6_def)
  have act6: "active W T LS K ?q s6" using queue_invD(1) [OF s1(7)] s6(1,2) s1(2) by (subst active_same [of _ s1]) simp_all
  note iv = tasks_invD [OF activeD(1) [OF act6]]
  have "?q ?R = ins_pri (node_pri (mem s)) own (q ?R)" by (simp add: woken_def)
  then have "ins_pri (node_pri (mem s6)) (running_task s6) (?q ?R) = n # ns"
    using s1(8) lists_okD(3) [OF iv(5,2)] iv(6) s6(1,2) by (subst n [symmetric]) (simp, intro ins_pri_cong, auto)
  from reschedule_ready [OF act6 u(2) [of s] _ _ s6(5) this] s6(3,4) obtain m' where
    m': "reschedule W ?f s6 = ret (s6\<lparr>sched_state := sched_state s6 AND NOT NEED_SCHEDULE, running_task := n, mem := m'\<rparr>)"
      "active W T LS K (?q(?R := ns)) (s6\<lparr>running_task := n, mem := m'\<rparr>)"
      "dispatched T LS K ?f (mem s1) (irq_frame W 33 s) ?r n m'" by (auto simp: s6(1,2) s1(9))
  let ?s' = "end_of_interrupt (s6\<lparr>sched_state := sched_state s6 AND NOT NEED_SCHEDULE, running_task := n, mem := m'\<rparr>)\<lparr>iflag := iflag s\<rparr>"
  note dp = m'(3) [unfolded dispatched_def]
  have "n \<in> T" using tasks_invD(6) [OF activeD(1) [OF m'(2)]] by simp
  then have frames: "frame_at m' (task_state ?r) = irq_frame W 33 s"
    "frame_at m' ?f = (if n = ?r then irq_frame W 33 s else frame_at (mem s) (task_state n))"
    "\<forall>t \<in> T. t \<noteq> ?r \<longrightarrow> frame_at m' (task_state t) = frame_at (mem s) (task_state t)"
    using dp s1(8) by simp_all
  have out: "mem ?s' c = mem s1 c" if c: "c \<notin> task_area T LS \<union> K" for c
  proof -
    have "c \<notin> link_area T LS \<union> K \<union> (\<Union>t \<in> T. span t 140)" using c link_area_tasks [of T LS] by (auto simp: task_area_def)
    then show ?thesis using dp by simp
  qed
  have "?q(?R := ns) = ?q'" by (simp add: woken_def)
  then have act': "active W T LS K ?q' ?s'"
    using m'(2) by (subst active_same [of _ "s6\<lparr>running_task := n, mem := m'\<rparr>"]) simp_all
  have user': "user_mode W K ?s'" using u s6(3,7) by (simp add: user_mode_def)
  have same': "heap_same s1 ?s'" "counters_ok ?s'" using s6(4,6) by (simp_all add: heap_same_def end_of_interrupt_def outb_def counters_ok_def)
  have "queue_inv W T LS K ?q' L' Q cap 4 own [(b, d, [v, 0, 0, 0])] ?s'"
    by (rule queue_inv_tasks [OF s1(7) act' can_trap_user [OF user'] same'(2,1) out])
  moreover have "interrupt W (hardware_call env C W) 33 s = ret ?s'" unfolding int m'(1) by simp
  ultimately show ?thesis using user' frames by (intro exI [of _ ?s'] exI [of _ L'] exI [of _ b] exI [of _ d]) simp
qed

section \<open>The console of a concrete kernel waits for a key\<close>

definition key_sys :: "console_state sys" where
  "key_sys = \<lparr>tasks_ready = 0x20000, tasks_wait = 0x20100, k_heap_start = 0x20200, lit = (\<lambda>_. 0x40000), kbuf = 0x50000,
     except_buf = 0x51000, frame = (\<lambda>s. if k_reenter s = -1 then 0x30F00 else 0x30E00), registers = (\<lambda>s i. of_nat i),
     stack_var = (\<lambda>s. 0x30D00), cr2 = (\<lambda>s. 0), intr = (\<lambda>s. None), others = (\<lambda>t s. None)\<rparr>"

definition key_mem :: cells where
  "key_mem = (\<lambda>a. 0)(0x20000 := 0x20004, 0x20008 := 0x20000, 0x20100 := 0x10000, 0x20108 := 0x10000,
     0x10000 := 0x20104, 0x10004 := 0x20100, 0x10074 := 0, 0x10078 := TB_QUEUE, 0x11074 := 3)"

definition key_q :: "u32 \<Rightarrow> u32 list" where "key_q = (\<lambda>L. [])(0x20100 := [0x10000])"

definition key_kernel :: "kernel_state \<Rightarrow> u32 \<Rightarrow> u32 \<Rightarrow> cells \<Rightarrow> console_state" where
  "key_kernel s p r m = (kernel_state.extend s (console_state.fields p))
     \<lparr>mem := m, running_task := r, k_reenter := -1, forbid_counter := 0, wait_lock := 0,
      interrupt_handlers := (replicate 256 None)[255 := Some Syscall, 33 := Some Keypress_isr, 32 := Some Timer_callback]\<rparr>"

lemma key_kernel_simps [simp]:
  "mem (key_kernel s p r m) = m" "running_task (key_kernel s p r m) = r" "k_reenter (key_kernel s p r m) = -1"
  "forbid_counter (key_kernel s p r m) = 0" "keybd_queue (key_kernel s p r m) = p" "phys (key_kernel s p r m) = phys s" "cr3 (key_kernel s p r m) = cr3 s"
  "LowRamBitF (key_kernel s p r m) = LowRamBitF s" "LowRamFreeCount (key_kernel s p r m) = LowRamFreeCount s" "k_heap_end (key_kernel s p r m) = k_heap_end s"
  "interrupt_handlers (key_kernel s p r m) = (replicate 256 None)[255 := Some Syscall, 33 := Some Keypress_isr, 32 := Some Timer_callback]"
  "wait_lock (key_kernel s p r m) = 0"
  by (simp_all add: key_kernel_def kernel_state.extend_def console_state.fields_def)

lemma key_sys_simps [simp]: "tasks_ready key_sys = 0x20000" "tasks_wait key_sys = 0x20100" "k_heap_start key_sys = 0x20200"
  by (simp_all add: key_sys_def)

lemma key_active: "active key_sys demo_tasks demo_lists demo_stack key_q (key_kernel s p 0x11000 key_mem)"
  unfolding active_def tasks_inv_def
  using demo_layout one_signal_1(2)
  by (simp add: lists_ok_def dll_def foot_def by_pri_def demo_tasks_def demo_lists_def key_q_def key_mem_def aligned_def
    task_ok_def waiting_def task_defs TS_READY_def TS_RUN_def TB_QUEUE_def listed_def run_flags_def)
    (rule insert_commute)

lemma key_user: "user_mode key_sys demo_stack (key_kernel s p r m)" and key_frames: "frames_apart key_sys" and key_vars: "vars_ok key_sys demo_stack"
proof -
  have "span 0x30F00 64 \<subseteq> demo_stack" "span 0x30E00 64 \<subseteq> demo_stack"
    unfolding demo_stack_def using span_shift [of "0xF00" 64 "0x1000" "0x30000"] span_shift [of "0xE00" 64 "0x1000" "0x30000"] by simp_all
  then show "user_mode key_sys demo_stack (key_kernel s p r m)" by (simp add: user_mode_def on_stack_def aligned_def key_sys_def)
  have k: "kframes key_sys \<subseteq> span 0x30E00 64" by (auto simp: kframes_def key_sys_def split: if_splits)
  have "span 0x30E00 64 \<inter> span 0x30F00 64 = {}" by (rule span_apart) simp_all
  then show "frames_apart key_sys" using k by (auto simp: frames_apart_def key_sys_def)
  show "vars_ok key_sys demo_stack" by (simp add: vars_ok_def key_sys_def demo_stack_def span_def)
qed

lemma key_placed:
  "task_area demo_tasks demo_lists \<union> demo_stack \<subseteq> - heap_own 0x20200"
  "0x42000 \<in> even_heap.kept 0x20200 {} - demo_stack - task_area demo_tasks demo_lists"
proof -
  have "span 0x11000 140 \<inter> span 0x20200 12 = {}" "span 0x11000 140 \<inter> span 0x42000 4 = {}" "demo_stack \<inter> span 0x42000 4 = {}"
    "span 0x10000 140 \<inter> span 0x42000 4 = {}" "span 0x20000 12 \<inter> span 0x42000 4 = {}" "span 0x20100 12 \<inter> span 0x42000 4 = {}"
    "span 0x20200 12 \<inter> span 0x42000 4 = {}"
    unfolding demo_stack_def by (rule span_apart; simp)+
  note a = this
  have "span 0x11000 140 \<subseteq> - heap_own 0x20200" using a(1) by (intro span_low) simp_all
  then show "task_area demo_tasks demo_lists \<union> demo_stack \<subseteq> - heap_own 0x20200"
    using demo_placed(1) by (simp add: task_area_def demo_tasks_def demo_lists_def)
  have "span 0x42000 4 \<subseteq> - heap_own 0x20200" using a(7) by (intro span_low) (simp_all add: Int_commute)
  moreover have x: "(0x42000 :: u32) \<in> span 0x42000 4" by simp
  ultimately have "0x42000 \<in> - heap_own 0x20200" ..
  moreover have out: "0x42000 \<notin> B" if "B \<inter> span 0x42000 4 = {}" for B :: "u32 set" using x that by blast
  ultimately show "0x42000 \<in> even_heap.kept 0x20200 {} - demo_stack - task_area demo_tasks demo_lists"
    using a(2-6) [THEN out] by (simp add: even_heap.kept_def task_area_def demo_tasks_def demo_lists_def)
qed

lemma key_kernel_at:
  assumes tasks: "\<And>s p. active key_sys demo_tasks demo_lists demo_stack qq (key_kernel s p r km)"
  shows "\<exists>(s :: console_state) L A. queue_holds key_sys demo_tasks demo_lists demo_stack qq L A (keybd_queue s) 1 4 0x10000 [] s \<and>
    clock_ready key_sys demo_stack s \<and> interrupt_handlers s ! 33 = Some Keypress_isr \<and> 4 \<le> card (free_pages s) \<and>
    forbid_counter s = 0 \<and> running_task s = r \<and>
    (\<forall>k. unat k < 140 \<longrightarrow> mem s (0x10000 + k) = km (0x10000 + k) \<and> mem s (0x11000 + k) = km (0x11000 + k))"
proof -
  let ?hp = "0x20200 :: u32" and ?B = "task_area demo_tasks demo_lists"
  obtain s :: kernel_state where s: "active demo_sys {0x10000} {0x20000, 0x20100} demo_stack (\<lambda>L. []) s" "user_mode demo_sys demo_stack s"
    "counters_ok s" "heap_even (k_heap_start demo_sys) s {}" "8 \<le> card (free_pages s)" "running_task s = 0x10000"
    "task_area {0x10000} {0x20000, 0x20100} \<union> demo_stack \<subseteq> even_heap.kept (k_heap_start demo_sys) {}"
    using demo_kernel by (elim exE conjE) (rule that)
  have "2 \<le> card (free_pages s)" using s(5) by simp
  from create_queue_ok [OF s(1) can_trap_user [OF s(2)] s(3,4,7) demo_placed(3) this, of 1 4] obtain Q s1 where
    inv: "queue_inv demo_sys {0x10000} {0x20000, 0x20100} demo_stack (\<lambda>L. []) (insert Q {}) Q 1 4 (running_task s) [] s1"
    and pages: "card (free_pages s) \<le> card (free_pages s1) + 2" by (elim exE conjE) (rule that)
  note iv = queue_invD [OF inv]
  define m where "m = (\<lambda>c. if c \<in> ?B then km c else mem s1 c)"
  let ?s = "key_kernel s1 (fst Q) r m"
  have hp: "k_heap_start demo_sys = ?hp" by (simp add: demo_sys_def)
  note ho = queue_holds_own_area [OF queue_holdsI [OF inv refl]]
  have kept: "- heap_own ?hp \<subseteq> even_heap.kept ?hp {Q}" "queue_area Q [] \<subseteq> heap_own ?hp"
    using ho(1) ho(2) [of "{}"] by (auto simp: even_heap.kept_def hp)
  have B: "?B \<subseteq> even_heap.kept ?hp {Q}" "?B \<inter> queue_area Q [] = {}" "demo_stack \<subseteq> even_heap.kept ?hp {Q}" "demo_stack \<inter> queue_area Q [] = {}"
    using kept key_placed(1) by blast+
  have out: "m c = mem s1 c" if "c \<notin> ?B" for c using that by (simp add: m_def)
  have "m c = mem s1 c" if "c \<notin> even_heap.kept ?hp {Q}" for c using that B(1) by (intro out) blast
  then have "heap_even ?hp (s1\<lparr>mem := m\<rparr>) {Q}" using iv(4) unfolding hp by (intro heap_even_write)
  then have heap: "heap_even ?hp ?s {Q}" by (subst heap_even_cong [of _ "s1\<lparr>mem := m\<rparr>"]) simp_all
  have "active key_sys demo_tasks demo_lists demo_stack qq (key_kernel s1 (fst Q) r km\<lparr>mem := m\<rparr>)"
    by (rule memory_step(1) [OF tasks]) (auto simp: m_def task_area_def)
  then have act: "active key_sys demo_tasks demo_lists demo_stack qq ?s"
    by (subst active_same [of _ "key_kernel s1 (fst Q) r km\<lparr>mem := m\<rparr>"]) simp_all
  have "m c = mem s1 c" if "c \<in> queue_area Q []" for c using that B(2) by (intro out) blast
  then have "queue_rep m (fst Q) 1 4 0x10000 []" by (rule queue_rep_frame [OF iv(7) iv(8) [unfolded s(6)]])
  then have "queue_inv key_sys demo_tasks demo_lists demo_stack qq {Q} Q 1 4 0x10000 [] ?s"
    using act can_trap_user [OF key_user] heap B iv(7)
    by (simp add: queue_inv_def counters_ok_def Int_Un_distrib Int_commute) (simp add: demo_tasks_def)
  from queue_holdsI [OF this refl] have "queue_holds key_sys demo_tasks demo_lists demo_stack qq {Q} (queue_area Q []) (keybd_queue ?s) 1 4 0x10000 [] ?s"
    by simp
  moreover have "free_pages ?s = free_pages s1" by (simp add: free_pages_def page_free_def [abs_def])
  then have "4 \<le> card (free_pages ?s)" using pages s(5) by simp
  moreover have "m (0x10000 + k) = km (0x10000 + k)" "m (0x11000 + k) = km (0x11000 + k)" if "unat k < 140" for k
    using that by (auto simp: m_def task_area_def demo_tasks_def)
  moreover have "clock_ready key_sys demo_stack ?s" using key_user key_frames by (simp add: clock_ready_def counters_ok_def)
  ultimately show ?thesis by (intro exI [of _ ?s] exI [of _ "{Q}"] exI [of _ "queue_area Q []"]) simp
qed

lemma key_kernel_queue:
  "\<exists>(s :: console_state) L A. queue_holds key_sys demo_tasks demo_lists demo_stack key_q L A (keybd_queue s) 1 4 0x10000 [] s \<and>
    clock_ready key_sys demo_stack s \<and> interrupt_handlers s ! 33 = Some Keypress_isr \<and> 4 \<le> card (free_pages s) \<and>
    forbid_counter s = 0 \<and> running_task s = 0x11000 \<and> mem s (sigs_waiting 0x10000) = TB_QUEUE \<and>
    node_pri (mem s) 0x10000 = 0 \<and> node_pri (mem s) 0x11000 = 0"
proof -
  obtain s :: console_state and L A where
    s: "queue_holds key_sys demo_tasks demo_lists demo_stack key_q L A (keybd_queue s) 1 4 0x10000 [] s"
      "clock_ready key_sys demo_stack s" "interrupt_handlers s ! 33 = Some Keypress_isr" "4 \<le> card (free_pages s)"
      "forbid_counter s = 0" "running_task s = 0x11000"
    and m: "\<forall>k. unat k < 140 \<longrightarrow> mem s (0x10000 + k) = key_mem (0x10000 + k) \<and> mem s (0x11000 + k) = key_mem (0x11000 + k)"
    using key_kernel_at [OF key_active] by (elim exE conjE) (rule that)
  have "mem s (sigs_waiting 0x10000) = TB_QUEUE" "node_pri (mem s) 0x10000 = 0" "node_pri (mem s) 0x11000 = 0"
    using m [rule_format, of 120] m [rule_format, of 12] by (simp_all add: key_mem_def sigs_waiting_def node_pri_def)
  then show ?thesis using s by (intro exI [of _ s] exI [of _ L] exI [of _ A]) simp
qed

section \<open>Properties\<close>

text \<open>C8. A key wakes the console. The keyboard interrupt is taken while a task runs and the console, the owner of the keyboard
  queue, waits for the queue with a priority not below that of the running task. If the port gives the code of a key pressed, the
  interrupt returns with the code in the queue, the console out of the waiting list, and the first of the tasks now ready
  dispatched at its own saved frame; the running task is saved with the frame it was interrupted with, behind those of its
  priority. The tasks, the heap and the queue are well formed, and the saved frames of all other tasks are untouched.\<close>

theorem keyboard_wakes_console:
  fixes s :: "'a console_state_scheme"
  assumes "queue_holds W T LS K q L A (keybd_queue s) cap 4 own [] s" and "user_mode W K s"
    and "interrupt_handlers s ! 33 = Some Keypress_isr" and "frames_apart W" and "vars_ok W K" and "4 \<le> card (free_pages s)" and "0 < unat cap"
    and "aligned (isr_scancode C)" "isr_scancode C \<noteq> 0" "isr_scancode C \<in> even_heap.kept (k_heap_start W) {} - K - task_area T LS"
    and "env (io s) 0x60 = code" "code AND 0x80 = 0" and "sint (forbid_counter s) < 2 ^ 31 - 2"
    and "own \<in> set (q (tasks_wait W))" "mem s (sigs_waiting own) AND TB_QUEUE \<noteq> 0"
    and "node_pri (mem s) (running_task s) \<le> node_pri (mem s) own"
    and "ins_pri (node_pri (mem s)) (running_task s) (ins_pri (node_pri (mem s)) own (q (tasks_ready W))) = n # ns"
  shows "\<exists>s' L' A'. interrupt W (hardware_call env C W) 33 s = ret s' \<and> running_task s' = n \<and> user_mode W K s' \<and>
    queue_holds W T LS K (q(tasks_wait W := remove1 own (q (tasks_wait W)), tasks_ready W := ns)) L' A' (keybd_queue s) cap 4 own
      [[code, 0, 0, 0]] s' \<and>
    frame_at (mem s') (task_state (running_task s)) = irq_frame W 33 s \<and>
    frame_at (mem s') (frame W s) = (if n = running_task s then irq_frame W 33 s else frame_at (mem s) (task_state n)) \<and>
    (\<forall>t \<in> T. t \<noteq> running_task s \<longrightarrow> frame_at (mem s') (task_state t) = frame_at (mem s) (task_state t))"
  using assms(1)
proof (rule queue_holdsE)
  fix Q ms assume q: "keybd_queue s = fst Q" "length ([] :: u8 list list) = length ms" "queue_inv W T LS K q L Q cap 4 own ms s"
  then have "queue_inv W T LS K q L Q cap 4 own [] s" by simp
  from keyboard_dispatches [where env = env, OF this assms(2-12) q(1) assms(13-17)] obtain s' L' b d where
    s': "interrupt W (hardware_call env C W) 33 s = ret s'" "running_task s' = n" "user_mode W K s'"
    "queue_inv W T LS K (q(tasks_wait W := remove1 own (q (tasks_wait W)), tasks_ready W := ns)) L' Q cap 4 own [(b, d, [code, 0, 0, 0])] s'"
    "frame_at (mem s') (task_state (running_task s)) = irq_frame W 33 s"
    "frame_at (mem s') (frame W s) = (if n = running_task s then irq_frame W 33 s else frame_at (mem s) (task_state n))"
    "\<forall>t \<in> T. t \<noteq> running_task s \<longrightarrow> frame_at (mem s') (task_state t) = frame_at (mem s) (task_state t)"
    by (elim exE conjE) (rule that)
  have "queue_holds W T LS K (q(tasks_wait W := remove1 own (q (tasks_wait W)), tasks_ready W := ns)) L' (queue_area Q [(b, d, [code, 0, 0, 0])])
      (keybd_queue s) cap 4 own [[code, 0, 0, 0]] s'"
    unfolding q(1) by (rule queue_holdsI [OF s'(4)]) simp
  then show ?thesis using s'(1-3,5-7) by (intro exI conjI)
qed

theorem keyboard_wakes_console_witness:
  "\<exists>(s :: console_state) C s'. interrupt key_sys (hardware_call (\<lambda>_ _. 30) C key_sys) 33 s = ret s' \<and> running_task s = 0x11000 \<and>
    running_task s' = 0x10000 \<and>
    (\<exists>L A. queue_holds key_sys demo_tasks demo_lists demo_stack ((\<lambda>L. [])(0x20000 := [0x11000])) L A (keybd_queue s) 1 4 0x10000 [[30, 0, 0, 0]] s')"
proof -
  obtain s :: console_state and L A where
    s0: "queue_holds key_sys demo_tasks demo_lists demo_stack key_q L A (keybd_queue s) 1 4 0x10000 [] s"
      "clock_ready key_sys demo_stack s" "interrupt_handlers s ! 33 = Some Keypress_isr" "4 \<le> card (free_pages s)"
    and f: "forbid_counter s = 0" "running_task s = 0x11000" "mem s (sigs_waiting 0x10000) = TB_QUEUE"
      "node_pri (mem s) 0x10000 = 0" "node_pri (mem s) 0x11000 = 0"
    using key_kernel_queue by (elim exE conjE) (rule that)
  have "user_mode key_sys demo_stack s" using s0(2) by (simp add: clock_ready_def)
  note s = s0(1) this s0(3,4)
  let ?C = "\<lparr>keybd_device = 0x90000, isr_scancode = 0x42000, key_var = 0x90200, iorq_var = 0x90300\<rparr>"
  have C: "aligned (isr_scancode ?C)" "isr_scancode ?C \<noteq> 0"
    "isr_scancode ?C \<in> even_heap.kept (k_heap_start key_sys) {} - demo_stack - task_area demo_tasks demo_lists"
    using key_placed(2) by (simp_all add: aligned_def)
  have h: "0 < unat (1 :: u32)" "sint (forbid_counter s) < 2 ^ 31 - 2" "(30 :: u8) AND 0x80 = 0" "0x10000 \<in> set (key_q (tasks_wait key_sys))"
    "mem s (sigs_waiting 0x10000) AND TB_QUEUE \<noteq> 0" "node_pri (mem s) (running_task s) \<le> node_pri (mem s) 0x10000"
    "ins_pri (node_pri (mem s)) (running_task s) (ins_pri (node_pri (mem s)) 0x10000 (key_q (tasks_ready key_sys))) = 0x10000 # [0x11000]"
    using f by (simp_all add: key_q_def TB_QUEUE_def)
  from keyboard_wakes_console [where env = "\<lambda>_ _. 30", OF s(1-3) key_frames key_vars s(4) h(1) C refl h(3,2,4-7)] obtain s' L' A' where
    s': "interrupt key_sys (hardware_call (\<lambda>_ _. 30) ?C key_sys) 33 s = ret s'" "running_task s' = 0x10000"
    "queue_holds key_sys demo_tasks demo_lists demo_stack
      (key_q(tasks_wait key_sys := remove1 0x10000 (key_q (tasks_wait key_sys)), tasks_ready key_sys := [0x11000])) L' A' (keybd_queue s) 1 4 0x10000
      [[30, 0, 0, 0]] s'"
    by (elim exE conjE) (rule that)
  have "key_q(tasks_wait key_sys := remove1 0x10000 (key_q (tasks_wait key_sys)), tasks_ready key_sys := [0x11000]) = (\<lambda>L. [])(0x20000 := [0x11000])"
    by (auto simp: key_q_def)
  note s'(3) [unfolded this]
  then show ?thesis using s'(1,2) f(2) by (intro exI [of _ s] exI [of _ ?C] exI [of _ s']) blast
qed

end
