(* ===== verification/KeyRead.thy ===== *)
theory KeyRead
  imports Keyboard
begin

text \<open>
  A read that has to wait: \<open>queue_recv\<close> on an empty queue blocks the task, and ends when the other tasks dispatch it again with a
  message in the queue. With the keyboard interrupt as what happens meanwhile, the read of the console returns the key.
\<close>

section \<open>Waiting for a message\<close>

lemma wait_enter_state:
  fixes s :: "'a kernel_state_scheme"
  assumes ok: "counters_ok s" and e: "wait_enter sigs L s = ret s1"
  shows "s1 = s\<lparr>mem := mem s1\<rparr>"
proof -
  obtain m where t: "permit (s\<lparr>forbid_counter := forbid_counter s + 1, mem := m\<rparr>) = s1"
    using e by (cases "enqueue ((mem s)(sigs_waiting (running_task s) := mem s (sigs_waiting (running_task s)) OR sigs,
      sigs_recvd (running_task s) := 0, task_flags (running_task s) := mem s (task_flags (running_task s)) AND NOT TS_READY)) L (running_task s)")
     (simp_all add: wait_enter_def enter_list_def upd_def Let_def forbid_def task_defs)
  have "sint (forbid_counter s + 1) > 0" using ok sint_add_1 [of "forbid_counter s"] by (simp add: counters_ok_def)
  then have "s1 = s\<lparr>forbid_counter := forbid_counter s + 1 - 1, mem := m\<rparr>"
    by (simp add: t [symmetric] permit_def)
  also have "\<dots> = s\<lparr>mem := m\<rparr>" by (cases s) simp
  finally show ?thesis by simp
qed

lemma yield_blocked_state:
  fixes s :: "'a kernel_state_scheme"
  assumes park: "parked W T LS K q s" and wait: "waiting LS (tasks_ready W) q (running_task s)" and user: "user_mode W K s"
    and q: "q (tasks_ready W) = n # ns"
  shows "\<exists>s'. trap W SYSCALL_YIELD 0 s = ret s' \<and> running_task s' = n \<and> active W T LS K (q(tasks_ready W := ns)) s' \<and>
    dispatched T LS K (frame W s) (mem s) (yield_frame W s) (running_task s) n (mem s') \<and>
    heap_same s s' \<and> user_mode W K s' \<and> forbid_counter s' = 0 \<and> interrupt_handlers s' = interrupt_handlers s \<and> io s' = io s \<and>
    kernel_state.more s' = kernel_state.more s"
proof -
  let ?s1 = "yield_state W s"
  have inv: "tasks_inv W T LS K q s" using park by (simp add: parked_def)
  have "parked W T LS K q (s\<lparr>mem := mem ?s1\<rparr>)" by (rule stack_write_parked [OF park yield_state_stack [OF user]])
  then have park1: "parked W T LS K q ?s1" by (simp add: parked_def tasks_inv_def)
  have w1: "waiting LS (tasks_ready W) q (running_task ?s1)" using wait by simp
  obtain m' where m': "reschedule W (frame W s) ?s1 =
      ret (?s1\<lparr>sched_state := sched_state ?s1 AND NOT NEED_SCHEDULE, running_task := n, mem := m'\<rparr>)"
    "active W T LS K (q(tasks_ready W := ns)) (?s1\<lparr>running_task := n, mem := m'\<rparr>)"
    "dispatched T LS K (frame W s) (mem ?s1) (yield_frame W s) (running_task s) n m'"
    using reschedule_blocked [where n = n and ns = ns, OF park1 w1 user_modeD(2) [OF user, of s]] q by auto
  let ?s' = "?s1\<lparr>sched_state := sched_state ?s1 AND NOT NEED_SCHEDULE, running_task := n, mem := m',
    k_reenter := -1, iflag := iflag s\<rparr>"
  have "n \<in> T" using tasks_invD(6) [OF activeD(1) [OF m'(2)]] by simp
  then have "dispatched T LS K (frame W s) (mem s) (yield_frame W s) (running_task s) n m'"
    using stack_write_dispatched [OF tasks_invD(1) [OF inv] yield_state_stack [OF user] tasks_invD(6) [OF inv] _ m'(3)] by blast
  moreover have "trap W SYSCALL_YIELD 0 s = ret ?s'"
    unfolding trap_yield [OF user] yield_state_def [symmetric] by (simp add: Let_def m'(1))
  moreover have "active W T LS K (q(tasks_ready W := ns)) ?s'"
    using m'(2) by (subst active_same [of _ "?s1\<lparr>running_task := n, mem := m'\<rparr>"]) simp_all
  moreover have "user_mode W K ?s'" using user by (simp add: user_mode_def yield_state_def)
  ultimately show ?thesis by (intro exI [of _ ?s']) (simp add: heap_same_def yield_state_def)
qed

lemma wait_empty:
  fixes s :: "'a kernel_state_scheme"
  assumes r_def: "r = running_task s" and R_def: "R = tasks_ready W" and Wt_def: "Wt = tasks_wait W"
    and inv: "queue_inv W T LS K q L Q cap sz own ms s" and user: "user_mode W K s" and small: "sint (forbid_counter s) < 2 ^ 31 - 2"
    and n: "q R = n # ns"
  shows "\<exists>s'. running_task s' = n \<and> user_mode W K s' \<and> heap_same s s' \<and> forbid_counter s' = 0 \<and>
    interrupt_handlers s' = interrupt_handlers s \<and> io s' = io s \<and> kernel_state.more s' = kernel_state.more s \<and>
    queue_inv W T LS K (q(Wt := ins_pri (node_pri (mem s)) r (q Wt), R := ns)) L Q cap sz own ms s' \<and>
    mem s' (sigs_waiting r) = TB_QUEUE \<and> (\<forall>t \<in> T. node_pri (mem s') t = node_pri (mem s) t) \<and>
    wait W TB_QUEUE Wt (forbid s) = bnd (others W r s') (\<lambda>s2. ret (mem s2 (sigs_recvd (running_task s2)), s2))"
proof -
  let ?f = "forbid s" and ?q = "q(Wt := ins_pri (node_pri (mem s)) r (q Wt))"
  note iv = queue_invD [OF inv]
  note act = settledD(1) [OF iv(10)]
  note ti = tasks_invD [OF activeD(1) [OF act]]
  have ok: "counters_ok ?f"
    using iv(3) small sint_add_1 [of "forbid_counter s"] by (simp add: counters_ok_def forbid_def)
  have wr: "Wt \<in> LS" "Wt \<noteq> tasks_ready W" using ti(3,4) by (simp_all add: Wt_def)
  obtain s1 where s1: "wait_enter TB_QUEUE Wt ?f = ret s1" "same_kernel ?f s1" "parked W T LS K ?q s1"
    "mem s1 (sigs_waiting r) = TB_QUEUE"
    "\<forall>c. c \<notin> link_area T LS \<union> span (r + 116) 12 \<longrightarrow> mem s1 c = mem s c"
    using wait_enter_parks [OF act one_signal_1(2) wr] unfolding forbid_same r_def [symmetric] by (elim exE conjE) (rule that)
  note st = wait_enter_state [OF ok s1(1)]
  have c1: "running_task s1 = r" "interrupt_handlers s1 = interrupt_handlers s" "io s1 = io s" "kernel_state.more s1 = kernel_state.more s"
    "heap_same s s1" "k_reenter s1 = k_reenter s"
    by (subst st, simp add: forbid_def r_def heap_same_def)+
  have w: "waiting LS (tasks_ready W) ?q (running_task s1)" using wr by (auto simp: waiting_def c1(1))
  have u1: "user_mode W K s1" using user c1(2,6) by (simp add: user_mode_def)
  have n1: "?q (tasks_ready W) = n # ns" using wr(2) n by (simp add: R_def)
  obtain s' where s': "trap W SYSCALL_YIELD 0 s1 = ret s'" "running_task s' = n" "active W T LS K (?q(tasks_ready W := ns)) s'"
    "dispatched T LS K (frame W s1) (mem s1) (yield_frame W s1) r n (mem s')" "heap_same s1 s'" "user_mode W K s'" "forbid_counter s' = 0"
    "interrupt_handlers s' = interrupt_handlers s1" "io s' = io s1" "kernel_state.more s' = kernel_state.more s1"
    using yield_blocked_state [OF s1(3) w u1 n1] unfolding c1(1) by (elim exE conjE) (rule that)
  have same: "heap_same s s'" using c1(5) s'(5) by (simp add: heap_same_def)
  have rT: "r \<in> T" using ti(6) by (simp add: r_def)
  note dp = s'(4) [unfolded dispatched_def]
  have out: "mem s' c = mem s c" if c: "c \<notin> task_area T LS \<union> K" for c
  proof -
    have "span (r + 116) 12 \<subseteq> span r 140" by (rule span_shift) simp
    then have "c \<notin> link_area T LS \<union> span (r + 116) 12" "c \<notin> link_area T LS \<union> K \<union> (\<Union>t \<in> T. span t 140)"
      using c rT link_area_tasks [of T LS] by (auto simp: task_area_def)
    then show ?thesis using dp s1(5) by simp
  qed
  have pri1: "node_pri (mem s1) t = node_pri (mem s) t" if t: "t \<in> T" for t
  proof -
    have "t + 12 \<notin> span (r + 116) 12"
    proof (cases "t = r")
      case False
      have "span (r + 116) 12 \<subseteq> span r 140" by (rule span_shift) simp
      moreover have "t + 12 \<in> span t 140" by simp
      ultimately show ?thesis using layout_okD(4) [OF ti(1) t rT False] by blast
    next
      case True
      then show ?thesis by (simp add: span_def)
    qed
    moreover have "t + 12 \<notin> link_area T LS" using layout_field(1) [OF ti(1) t, of 12] by simp
    ultimately show ?thesis using s1(5) by (simp add: node_pri_def)
  qed
  have pri: "\<forall>t \<in> T. node_pri (mem s') t = node_pri (mem s) t" using dp data_sameD(4) [of T "mem s1" "mem s'"] pri1 by simp
  have sig: "mem s' (sigs_waiting r) = TB_QUEUE" using dp data_sameD(1) [of T "mem s1" "mem s'" r] rT s1(4) by simp
  have ok': "counters_ok s'" using s'(7) by (simp add: counters_ok_def)
  have "queue_inv W T LS K (?q(R := ns)) L Q cap sz own ms s'"
    using s'(3) by (intro queue_inv_tasks [OF inv _ can_trap_user [OF s'(6)] ok' same out]) (simp_all add: R_def)
  moreover have "n \<noteq> r"
    using activeD(5) [OF act] n ti(2) unfolding R_def r_def by (metis forbid_same(2) list.set_intros(1))
  then have "wait W TB_QUEUE Wt ?f = bnd (others W r s') (\<lambda>s2. ret (mem s2 (sigs_recvd (running_task s2)), s2))"
    using s1(1) s'(1,2) c1(1) by (simp add: wait_def yield_def system_call_def TB_QUEUE_def)
  ultimately show ?thesis
    using s'(2,6-10) c1(2-4) same sig pri by (intro exI [of _ s']) simp
qed

text \<open>When the other tasks come back with a message in the queue, the loop ends and the message is taken.\<close>

lemma recv_after_wait:
  fixes s s2 :: "'a kernel_state_scheme"
  assumes inv: "queue_inv W T LS K q L Q cap sz own [] s"
    and wait: "wait W TB_QUEUE (tasks_wait W) (forbid s) = ret (v, s2)"
    and inv2: "queue_inv W T LS K q2 L2 Q2 cap2 sz2 own2 (ms @ [(b, d, x)]) s2" and Q: "fst Q2 = fst Q"
    and ptr: "byte_cells ptr (unat sz2) \<subseteq> even_heap.kept (k_heap_start W) L2 - K - task_area T LS - queue_area Q2 (ms @ [(b, d, x)])"
  shows "\<exists>s3. queue_recv W (fst Q) ptr QM_BLOCKING s = ret (ptr, s3) \<and> same_tasks s2 s3 \<and>
    queue_inv W T LS K q2 (L2 - {d} - {b}) Q2 cap2 sz2 own2 ms s3 \<and> bytes_of (mem s3) ptr (unat sz2) = x"
proof -
  from recv_tail_ok [OF inv2 ptr] obtain s1 s5 s3 where
    s: "mem s2 (free_slots (fst Q)) < mem s2 (max_slots (fst Q))" "take_msg W (fst Q) ptr (forbid s2) = ret s1"
      "s5 = upd (free_slots (fst Q)) (mem s1 (free_slots (fst Q)) + 1) s1" "s3 = permit s5"
    and s3: "same_tasks s2 s3" "queue_inv W T LS K q2 (L2 - {d} - {b}) Q2 cap2 sz2 own2 ms s3" "bytes_of (mem s3) ptr (unat sz2) = x"
    unfolding Q by (elim exE conjE) (rule that)
  have "wait_for_msg W (fst Q) (forbid s) = ret (forbid s2)"
    using less_imp_neq [OF s(1)] by (subst wait_for_msg.simps) (simp add: wait Let_def)
  moreover have "\<not> mem s (free_slots (fst Q)) < mem s (max_slots (fst Q))"
    using queue_invD(8) [OF inv] by (simp add: queue_rep_def)
  ultimately have "queue_recv W (fst Q) ptr QM_BLOCKING s = ret (ptr, s3)"
    using s(2) by (simp add: queue_recv_def Let_def s(3,4) del: upd_simps)
  then show ?thesis using s3 by blast
qed

text \<open>The invariants do not depend on what the other tasks do.\<close>

lemma others_apart:
  "queue_inv (W\<lparr>others := f\<rparr>) T LS K q L Q cap sz own ms s = queue_inv W T LS K q L Q cap sz own ms s"
  "user_mode (W\<lparr>others := f\<rparr>) K s = user_mode W K s"
  by (simp_all add: queue_inv_def active_def tasks_inv_def can_trap_def user_mode_def in_kernel_def)

section \<open>A key is read\<close>

lemma remove1_ins_pri: "t \<notin> set xs \<Longrightarrow> remove1 t (ins_pri p t xs) = xs"
  by (induction xs) (auto)

lemma key_read:
  fixes s :: "'a console_state_scheme"
  assumes W: "W = V\<lparr>others := \<lambda>_. interrupt V (hardware_call env C V) 33\<rparr>" and r: "r = running_task s"
    and inv: "queue_inv V T LS K q L Q cap 4 r [] s" and user: "user_mode V K s" and irq: "interrupt_handlers s ! 33 = Some Keypress_isr"
    and apart: "frames_apart V" and vars: "vars_ok V K" and room: "4 \<le> card (free_pages s)" and cap: "0 < unat cap"
    and scan: "aligned (isr_scancode C)" "isr_scancode C \<noteq> 0" "isr_scancode C \<in> even_heap.kept (k_heap_start V) {} - K - task_area T LS"
    and key: "env (io s) 0x60 = v" "v AND 0x80 = 0" and Q: "keybd_queue s = fst Q" and small: "sint (forbid_counter s) < 2 ^ 31 - 2"
    and n: "q (tasks_ready V) = n # ns" and low: "node_pri (mem s) n \<le> node_pri (mem s) r"
    and first: "ins_pri (node_pri (mem s)) n (ins_pri (node_pri (mem s)) r ns) = r # ns'"
    and ptr: "byte_cells ptr 4 \<subseteq> even_heap.kept (k_heap_start V) {} - K - task_area T LS"
  shows "\<exists>L' s3. queue_recv W (fst Q) ptr QM_BLOCKING s = ret (ptr, s3) \<and> bytes_of (mem s3) ptr 4 = [v, 0, 0, 0] \<and>
    running_task s3 = r \<and> queue_inv V T LS K (q(tasks_ready V := ns')) L' Q cap 4 r [] s3"
proof -
  let ?p = "node_pri (mem s)" and ?Wt = "tasks_wait V" and ?R = "tasks_ready V"
  note act = queue_invD(1) [OF inv]
  note ti = tasks_invD [OF activeD(1) [OF act]]
  have nT: "set (n # ns) \<subseteq> T" using lists_okD(3) [OF ti(5,2)] n by simp
  have rT: "r \<in> T" using ti(6) by (simp add: r)
  have Wf: "tasks_ready W = ?R" "tasks_wait W = ?Wt" "k_heap_start W = k_heap_start V" by (simp_all add: W)
  have invW: "queue_inv W T LS K q L Q cap 4 r [] s" "user_mode W K s" using inv user by (simp_all add: W others_apart)
  have nW: "q (tasks_ready W) = n # ns" using n by (simp add: Wf)
  obtain s' where s': "running_task s' = n" "user_mode W K s'" "heap_same s s'" "forbid_counter s' = 0"
    "interrupt_handlers s' = interrupt_handlers s" "io s' = io s" "kernel_state.more s' = kernel_state.more s"
    "queue_inv W T LS K (q(?Wt := ins_pri ?p r (q ?Wt), ?R := ns)) L Q cap 4 r [] s'"
    "mem s' (sigs_waiting r) = TB_QUEUE" "\<forall>t \<in> T. node_pri (mem s') t = ?p t"
    "wait W TB_QUEUE ?Wt (forbid s) = bnd (others W r s') (\<lambda>s2. ret (mem s2 (sigs_recvd (running_task s2)), s2))"
    using wait_empty [OF r refl refl invW small nW] unfolding Wf by (elim exE conjE) (rule that)
  let ?q = "q(?Wt := ins_pri ?p r (q ?Wt), ?R := ns)"
  have neq: "?Wt \<noteq> ?R" by (rule ti(4))
  have inv': "queue_inv V T LS K ?q L Q cap 4 r [] s'" "user_mode V K s'" using s'(2,8) by (simp_all add: W others_apart)
  have irq': "interrupt_handlers s' ! 33 = Some Keypress_isr" using irq s'(5) by simp
  have room': "4 \<le> card (free_pages s')" using room s'(3) by (simp add: heap_same_def free_pages_def page_free_def [abs_def])
  have key': "env (io s') 0x60 = v" using key s'(6) by simp
  have Q': "keybd_queue s' = fst Q" using Q s'(7) by (cases s, cases s') simp
  have small': "sint (forbid_counter s') < 2 ^ 31 - 2" using s'(4) by simp
  have waits: "r \<in> set (?q ?Wt)" "mem s' (sigs_waiting r) AND TB_QUEUE \<noteq> 0" using neq s'(9) by (simp_all add: TB_QUEUE_def)
  have pri: "node_pri (mem s') (running_task s') \<le> node_pri (mem s') r" using low s'(1,10) nT rT by simp
  have "ins_pri (node_pri (mem s')) r ns = ins_pri ?p r ns" using s'(10) nT rT by (intro ins_pri_cong) auto
  moreover have "ins_pri (node_pri (mem s')) n (ins_pri ?p r ns) = ins_pri ?p n (ins_pri ?p r ns)"
    using s'(10) nT rT by (intro ins_pri_cong) auto
  ultimately have fst': "ins_pri (node_pri (mem s')) (running_task s') (ins_pri (node_pri (mem s')) r (?q ?R)) = r # ns'"
    using s'(1) first by simp
  from keyboard_dispatches [where env = env, OF inv' irq' apart vars room' cap scan key' key(2) Q' small' waits pri fst']
  obtain s2 L2 b d where s2: "interrupt V (hardware_call env C V) 33 s' = ret s2" "running_task s2 = r"
    "queue_inv V T LS K (?q(?Wt := remove1 r (?q ?Wt), ?R := ns')) L2 Q cap 4 r [(b, d, [v, 0, 0, 0])] s2"
    by (elim exE conjE) (rule that)
  have "r \<notin> set (q ?Wt)" using activeD(5) [OF act ti(3)] by (simp add: r)
  then have q2: "?q(?Wt := remove1 r (?q ?Wt), ?R := ns') = q(?R := ns')"
    using neq by (auto simp: remove1_ins_pri fun_eq_iff)
  have wait: "wait W TB_QUEUE (tasks_wait W) (forbid s) = ret (mem s2 (sigs_recvd r), s2)"
    using s'(11) s2(1,2) by (simp add: W)
  have inv2: "queue_inv W T LS K (q(?R := ns')) L2 Q cap 4 r ([] @ [(b, d, [v, 0, 0, 0])]) s2"
    using s2(3) unfolding q2 by (simp add: W others_apart)
  have "even_heap.kept (k_heap_start V) {} \<subseteq> even_heap.kept (k_heap_start V) L2 - queue_area Q [(b, d, [v, 0, 0, 0])]"
    using queue_holds_own_area [OF queue_holdsI [OF s2(3) refl]] by blast
  then have ptr2: "byte_cells ptr (unat (4 :: u32)) \<subseteq> even_heap.kept (k_heap_start W) L2 - K - task_area T LS - queue_area Q ([] @ [(b, d, [v, 0, 0, 0])])"
    using ptr by (auto simp: Wf)
  from recv_after_wait [OF invW(1) wait inv2 refl ptr2] obtain s3 where
    s3: "queue_recv W (fst Q) ptr QM_BLOCKING s = ret (ptr, s3)" "same_tasks s2 s3"
      "queue_inv W T LS K (q(?R := ns')) (L2 - {d} - {b}) Q cap 4 r [] s3" "bytes_of (mem s3) ptr (unat (4 :: u32)) = [v, 0, 0, 0]"
    by (elim exE conjE) (rule that)
  have "running_task s3 = r" using s3(2) s2(2) by (simp add: same_tasks_def same_kernel_def)
  moreover have "queue_inv V T LS K (q(?R := ns')) (L2 - {d} - {b}) Q cap 4 r [] s3" using s3(3) by (simp add: W others_apart)
  ultimately show ?thesis using s3(1,4) by (intro exI [of _ "L2 - {d} - {b}"] exI [of _ s3]) simp
qed

section \<open>Properties\<close>


lemma key_ready: "active key_sys demo_tasks demo_lists demo_stack ready_q (key_kernel s p 0x10000 ready_mem)"
  using demo_ready by (simp add: active_def tasks_inv_def)

lemma key_buffer: "byte_cells 0x41000 4 \<subseteq> even_heap.kept 0x20200 {} - demo_stack - task_area demo_tasks demo_lists"
proof -
  have a: "span 0x11000 140 \<inter> span 0x41000 4 = {}" "demo_stack \<inter> span 0x41000 4 = {}" "span 0x10000 140 \<inter> span 0x41000 4 = {}"
    "span 0x20000 12 \<inter> span 0x41000 4 = {}" "span 0x20100 12 \<inter> span 0x41000 4 = {}" "span 0x20200 12 \<inter> span 0x41000 4 = {}"
    unfolding demo_stack_def by (rule span_apart; simp)+
  then have "span 0x41000 4 \<inter> (demo_stack \<union> task_area demo_tasks demo_lists) = {}"
    by (simp add: task_area_def demo_tasks_def demo_lists_def Int_Un_distrib Int_commute)
  from static_bytes [OF _ _ _ this, of "0x20200"] show ?thesis using a(6) by (simp add: aligned_def Diff_eq Int_assoc Int_commute)
qed


end
