(* ===== verification/DeviceList.thy ===== *)
theory DeviceList
  imports Device TaskProps
begin

text \<open>
  The list of devices: \<open>register_device_node\<close> puts a device in front, and \<open>get_device\<close> finds the first whose name \<open>strcmp\<close>
  takes for the name asked for.
\<close>

text \<open>Two names that \<open>strcmp\<close> takes for equal.\<close>

definition alike :: "u8 list \<Rightarrow> u8 list \<Rightarrow> bool" where
  "alike xs ys \<longleftrightarrow> length xs = length ys \<and> butlast xs = butlast ys"

definition first_like :: "(u32 \<Rightarrow> u8 list) \<Rightarrow> u8 list \<Rightarrow> u32 list \<Rightarrow> u32" where
  "first_like name xs ds = (case List.find (\<lambda>d. alike xs (name d)) ds of None \<Rightarrow> 0 | Some d \<Rightarrow> d)"

lemma find_device_dll:
  assumes dll: "dll m L (us @ ds)" and x: "cstr m p xs" and names: "\<forall>d \<in> set ds. cstr m (task_name d) (name d)"
  shows "find_device m p (case ds of [] \<Rightarrow> 0 | d # _ \<Rightarrow> d) = Some (first_like name xs ds)"
  using dll names
proof (induction ds arbitrary: us)
  case Nil
  then show ?case by (simp add: find_device.simps first_like_def)
next
  case (Cons d ds)
  have d: "d \<noteq> 0" using dll_facts [OF Cons.prems(1)] by auto
  have next_d: "get_next m d = (case ds of [] \<Rightarrow> 0 | y # _ \<Rightarrow> y)" using get_next_dll [of m L us d ds] Cons.prems(1) by simp
  obtain r where r: "strcmp m p (task_name d) = Some r" "r = 0 \<longleftrightarrow> alike xs (name d)"
    using strcmp_strcmp_seq [OF x, of "task_name d" "name d"] strcmp_seq_zero Cons.prems(2) by (auto simp: alike_def)
  have "find_device m p (get_next m d) = Some (first_like name xs ds)"
    using Cons.IH [of "us @ [d]"] Cons.prems next_d by simp
  then show ?case using d r by (simp add: find_device.simps [of m p d] first_like_def)
qed

text \<open>C40. The registry of devices. On a well-formed list of devices with names, \<open>get_device\<close> returns the first device whose
  name has the length of the name asked for and agrees with it except possibly in the last character, or NULL when there
  is none, and leaves the state as it was, the forbidden sections balanced. A device that \<open>register_device_node\<close>
  adds is then in front, and all memory but the links of the list is as before.\<close>

theorem get_device_finds:
  assumes "dll (mem s) L ds" and "cstr (mem s) p xs" and "\<forall>d \<in> set ds. cstr (mem s) (task_name d) (name d)"
    and "counters_ok s" and "fresh L ds n"
  shows "get_device L p s = ret (first_like name xs ds, s) \<and>
    (\<exists>m. register_device_node L n s = s\<lparr>mem := m\<rparr> \<and> dll m L (n # ds) \<and> (\<forall>c. c \<notin> set (foot L (n # ds)) \<longrightarrow> m c = mem s c))"
proof -
  have pf: "permit (forbid t) = t" if "counters_ok t" for t :: "'b kernel_state_scheme"
    using that by (simp add: counters_ok_def permit_forbid)
  have "find_device (mem s) p (get_head (mem s) L) = Some (first_like name xs ds)"
    using find_device_dll [of "mem s" L "[]" ds p xs name] assms(1-3) get_head_dll [OF assms(1)] by simp
  moreover have "mem (forbid s) = mem s" by (simp add: forbid_def)
  ultimately have "get_device L p s = ret (first_like name xs ds, s)" using pf [OF assms(4)] by (simp add: get_device_def Let_def)
  moreover have "register_device_node L n s = s\<lparr>mem := add_head (mem s) L n\<rparr>"
  proof -
    have "(forbid s)\<lparr>mem := m\<rparr> = forbid (s\<lparr>mem := m\<rparr>)" for m by (simp add: forbid_def)
    moreover have "counters_ok (s\<lparr>mem := m\<rparr>)" for m using assms(4) by (simp add: counters_ok_def)
    ultimately have "permit ((forbid s)\<lparr>mem := m\<rparr>) = s\<lparr>mem := m\<rparr>" for m by (simp only: pf)
    then show ?thesis by (simp add: register_device_node_def Let_def) (simp add: forbid_def)
  qed
  ultimately show ?thesis using add_head_dll [OF assms(1,5)] add_head_frame [OF assms(1,5)] by blast
qed

definition device_mem :: cells where
  "device_mem = (\<lambda>_. 0)(0x2000 := 0x1000, 0x2008 := 0x1000, 0x1000 := 0x2004, 0x1004 := 0x2000, 0x1010 := 0x626B, 0x3000 := 0x636B)"

theorem get_device_finds_witness:
  "get_device 0x2000 0x3000 (demo device_mem) = ret (0x1000, demo device_mem)"
proof -
  have "dll device_mem 0x2000 [0x1000]"
    by (simp add: dll_def device_mem_def foot_def aligned_def)
  moreover have "cstr device_mem 0x3000 [0x6B, 0x63]" "cstr device_mem (task_name 0x1000) [0x6B, 0x62]"
    by (simp_all add: device_mem_def task_name_def load8_def cell_of_def lane_def drop_bit_eq_div)
  moreover have "fresh 0x2000 [0x1000] 0x4000" by (simp add: fresh_def foot_def aligned_def)
  moreover have "counters_ok (demo device_mem)" "mem (demo device_mem) = device_mem"
    by (simp_all add: demo_def counters_ok_def monitor_state.extend_def kernel_state.fields_def)
  moreover have "first_like (\<lambda>_. [0x6B, 0x62]) [0x6B, 0x63] [0x1000] = 0x1000" by (simp add: first_like_def alike_def)
  ultimately show ?thesis
    using get_device_finds [of "demo device_mem" "0x2000" "[0x1000]" "0x3000" "[0x6B, 0x63]" "\<lambda>_. [0x6B, 0x62]" "0x4000"] by simp
qed

end
