(* ===== verification/Editor.thy ===== *)
theory Editor
  imports Console
begin

text \<open>
  The line editor of the console task: what \<open>edit_key\<close>, applied to the keys of a line, leaves in the buffer of the
  request and on the screen.
\<close>

section \<open>The reference editor\<close>

text \<open>A line and the characters shown, after one more key; \<open>n\<close> is the size of the buffer.\<close>

definition line_key :: "nat \<Rightarrow> u8 \<Rightarrow> u8 list \<times> u8 list \<Rightarrow> u8 list \<times> u8 list" where
  "line_key n c L =
    (let (line, shown) = L
     in if c = 8 \<and> line \<noteq> [] then (butlast line, shown @ [8])
        else if isprintable (sint c) \<and> Suc (length line) < n then (line @ [c], shown @ [c])
        else L)"

definition typed :: "nat \<Rightarrow> u8 list \<Rightarrow> u8 list" where
  "typed n keys = fst (fold (line_key n) keys ([], []))"

definition echoed :: "nat \<Rightarrow> u8 list \<Rightarrow> u8 list" where
  "echoed n keys = snd (fold (line_key n) keys ([], []))"

definition line_ok :: "nat \<Rightarrow> u8 list \<times> u8 list \<Rightarrow> bool" where
  "line_ok n L \<longleftrightarrow> length (fst L) < n \<and> (\<forall>c \<in> set (fst L). isprintable (sint c))"

lemma line_key_ok: "line_ok n L \<Longrightarrow> line_ok n (line_key n c L)"
  by (cases L) (auto simp: line_ok_def line_key_def dest: in_set_butlastD)

lemma fold_line_key: "line_ok n L \<Longrightarrow> line_ok n (fold (line_key n) keys L)"
  by (induction keys arbitrary: L) (simp_all add: line_key_ok)

lemma typed_ok: "0 < n \<Longrightarrow> length (typed n keys) < n \<and> (\<forall>c \<in> set (typed n keys). isprintable (sint c))"
  using fold_line_key [of n "([], [])" keys] by (simp add: line_ok_def typed_def)

section \<open>The refinement\<close>

text \<open>The variables of the task and the memory represent a line in the buffer at \<open>aux\<close> of \<open>sz\<close> bytes; \<open>s0\<close> is the state
  before the first key.\<close>

definition holds_line :: "u32 \<Rightarrow> u32 \<Rightarrow> 'a monitor_state_scheme \<Rightarrow> u8 list \<times> u8 list \<Rightarrow> u32 \<times> 'a monitor_state_scheme \<Rightarrow> bool" where
  "holds_line aux sz s0 L st \<longleftrightarrow> (case (L, st) of ((line, shown), (i, s)) \<Rightarrow>
    i = of_nat (length line) \<and> length line < unat sz \<and>
    (\<forall>k < length line. load8 (mem s) (aux + of_nat k) = line ! k) \<and>
    (\<forall>a. unat sz \<le> unat (a - aux) \<longrightarrow> load8 (mem s) a = load8 (mem s0) a) \<and>
    term_of s = fold term_put shown (term_of s0) \<and> cursor_ok s)"

lemma term_mem [simp]: "term_of (s\<lparr>mem := m\<rparr>) = term_of s" "cursor_ok (s\<lparr>mem := m\<rparr>) = cursor_ok s"
  by (simp_all add: term_of_def screen_def cursor_ok_def)

lemma holds_line_step:
  assumes h: "holds_line aux sz s0 (line, shown) (i, s)" and sz: "unat sz < 2 ^ 31"
  shows "holds_line aux sz s0 (line_key (unat sz) c (line, shown)) (edit_key aux sz i c s)"
proof -
  let ?n = "length line"
  have i: "i = of_nat ?n" and n: "?n < unat sz" and bytes: "\<And>k. k < ?n \<Longrightarrow> load8 (mem s) (aux + of_nat k) = line ! k"
    and out: "\<And>a. unat sz \<le> unat (a - aux) \<Longrightarrow> load8 (mem s) a = load8 (mem s0) a"
    and tm: "term_of s = fold term_put shown (term_of s0)" and cur: "cursor_ok s"
    using h by (auto simp: holds_line_def)
  have u: "unat (of_nat k :: u32) = k" if "k \<le> ?n" for k using that n sz by (subst unat_of_nat) simp
  have other: "aux + of_nat k \<noteq> aux + i" if "k < ?n" for k
  proof
    assume "aux + of_nat k = aux + i"
    then have "unat (of_nat k :: u32) = unat i" by simp
    then show False using u [of k] u [of ?n] that i by simp
  qed
  have far: "a \<noteq> aux + i" if "unat sz \<le> unat (a - aux)" for a using that n u [of ?n] i by auto
  have ilt: "\<not> unat sz \<le> unat i" using n u [of ?n] i by simp
  have pos: "sint i > 0 \<longleftrightarrow> line \<noteq> []"
  proof -
    have "sint i = int ?n" using n sz i by (simp add: signed_of_nat signed_take_bit_int_eq_self)
    then show ?thesis by simp
  qed
  have full: "i = sz - 1 \<longleftrightarrow> Suc ?n = unat sz"
  proof -
    have "unat (sz - 1) = unat sz - 1" using n by (subst unat_sub) (auto simp: word_le_nat_alt)
    then have "i = sz - 1 \<longleftrightarrow> ?n = unat sz - 1" using i u [of ?n] by (auto simp: word_unat_eq_iff)
    then show ?thesis using n by auto
  qed
  have put: "holds_line aux sz s0 (l, shown @ [d]) (j, monitor_put d (s\<lparr>mem := store8 (mem s) (aux + i) v\<rparr>))"
    if "j = of_nat (length l)" "length l < unat sz"
      "\<forall>k < length l. (if k = ?n then v else load8 (mem s) (aux + of_nat k)) = l ! k" "length l \<le> Suc ?n" for l d j v
  proof -
    have "load8 (store8 (mem s) (aux + i) v) (aux + of_nat k) = l ! k" if "k < length l" for k
      using \<open>\<forall>k < length l. _\<close> that \<open>length l \<le> Suc ?n\<close> other [of k] i by (cases "k = ?n") (auto simp: load8_store8)
    then show ?thesis
      using that(1,2) out far ilt tm cur monitor_put_term [of "s\<lparr>mem := store8 (mem s) (aux + i) v\<rparr>" d]
      by (simp add: holds_line_def load8_store8)
  qed
  show ?thesis
  proof (cases "c = 8 \<and> line \<noteq> []")
    case True
    have "holds_line aux sz s0 (butlast line, shown @ [8]) (i - 1, monitor_put 8 (s\<lparr>mem := store8 (mem s) (aux + i) 0\<rparr>))"
      using True n bytes by (intro put) (auto simp: i nth_butlast of_nat_diff Suc_leI)
    then show ?thesis using True pos by (simp add: edit_key_def line_key_def)
  next
    case False
    then have e: "edit_key aux sz i c s =
      (if c = 0 \<or> c = 9 \<or> Suc ?n = unat sz then (i, s)
       else if isprintable (sint c) then (i + 1, monitor_put c (s\<lparr>mem := store8 (mem s) (aux + i) c\<rparr>)) else (i, s))"
      using pos full by (auto simp: edit_key_def)
    have l: "line_key (unat sz) c (line, shown) =
      (if isprintable (sint c) \<and> Suc ?n < unat sz then (line @ [c], shown @ [c]) else (line, shown))"
      using False by (auto simp: line_key_def)
    show ?thesis
    proof (cases "isprintable (sint c) \<and> Suc ?n < unat sz")
      case ok: True
      then have "c \<noteq> 0" "c \<noteq> 9" by (auto simp: isprintable_def)
      moreover have "holds_line aux sz s0 (line @ [c], shown @ [c]) (i + 1, monitor_put c (s\<lparr>mem := store8 (mem s) (aux + i) c\<rparr>))"
        using ok bytes by (intro put) (auto simp: i nth_append less_Suc_eq)
      ultimately show ?thesis using ok by (simp add: e l)
    next
      case no: False
      then have "edit_key aux sz i c s = (i, s)" using n by (auto simp: e)
      then show ?thesis using no h by (auto simp: l)
    qed
  qed
qed

definition edit_keys :: "u32 \<Rightarrow> u32 \<Rightarrow> u8 list \<Rightarrow> 'a monitor_state_scheme \<Rightarrow> u32 \<times> 'a monitor_state_scheme" where
  "edit_keys aux sz keys s = fold (\<lambda>c (i, s). edit_key aux sz i c s) keys (0, s)"

lemma edit_keys_holds:
  assumes "unat sz < 2 ^ 31" and "holds_line aux sz s0 L st"
  shows "holds_line aux sz s0 (fold (line_key (unat sz)) keys L) (fold (\<lambda>c (i, s). edit_key aux sz i c s) keys st)"
  using assms(2)
proof (induction keys arbitrary: L st)
  case (Cons c keys)
  have "holds_line aux sz s0 (line_key (unat sz) c L) (case st of (i, s) \<Rightarrow> edit_key aux sz i c s)"
    using Cons.prems holds_line_step [OF _ assms(1), of aux s0 "fst L" "snd L" "fst st" "snd st" c] by (cases L; cases st) simp
  then show ?case using Cons.IH by simp
qed simp

text \<open>C38. The line editor of the console. For a buffer of at least one and less than 2^31 bytes and any keys, the buffer holds,
  after the task has ended the line with a 0, the line of the reference editor as a string: the printable characters
  typed and not erased, cut to the buffer with its final 0. No byte outside the buffer changes, and the screen shows
  the characters accepted and erased.\<close>

theorem console_edits_line:
  assumes "0 < unat sz" and "unat sz < 2 ^ 31" and "cursor_ok s"
    and "edit_keys aux sz keys s = (i, s')" and "m = store8 (mem s') (aux + i) 0"
  shows "cstr m aux (typed (unat sz) keys) \<and> length (typed (unat sz) keys) < unat sz \<and>
    (\<forall>c \<in> set (typed (unat sz) keys). isprintable (sint c)) \<and>
    (\<forall>a. unat sz \<le> unat (a - aux) \<longrightarrow> load8 m a = load8 (mem s) a) \<and>
    term_of s' = fold term_put (echoed (unat sz) keys) (term_of s) \<and> cursor_ok s'"
proof -
  let ?l = "typed (unat sz) keys"
  have "holds_line aux sz s ([], []) (0, s)" using assms(1,3) by (simp add: holds_line_def)
  then have "holds_line aux sz s (?l, echoed (unat sz) keys) (i, s')"
    using edit_keys_holds [OF assms(2), of aux s "([], [])" "(0, s)" keys] assms(4)
    by (simp add: edit_keys_def typed_def echoed_def)
  then have h: "i = of_nat (length ?l)" "\<And>k. k < length ?l \<Longrightarrow> load8 (mem s') (aux + of_nat k) = ?l ! k"
    "\<And>a. unat sz \<le> unat (a - aux) \<Longrightarrow> load8 (mem s') a = load8 (mem s) a"
    "term_of s' = fold term_put (echoed (unat sz) keys) (term_of s)" "cursor_ok s'"
    by (auto simp: holds_line_def)
  have ok: "length ?l < unat sz" "\<forall>c \<in> set ?l. isprintable (sint c)" using typed_ok [OF assms(1)] by blast+
  have u: "unat (of_nat k :: u32) = k" if "k \<le> length ?l" for k using that ok(1) assms(2) by (subst unat_of_nat) simp
  have other: "aux + of_nat k \<noteq> aux + i" if "k < length ?l" for k
  proof
    assume "aux + of_nat k = aux + i"
    then have "unat (of_nat k :: u32) = unat i" by simp
    then show False using u [of k] u [of "length ?l"] that h(1) by simp
  qed
  have byte: "load8 m (aux + of_nat k) = ?l ! k" if "k < length ?l" for k
    using other [OF that] h(2) [OF that] by (simp only: assms(5) load8_store8 if_False eq_commute [of "aux + i"])
  have "c \<noteq> 0" if "c \<in> set ?l" for c using that ok(2) by (auto simp: isprintable_def)
  then have "cstr m aux ?l" using byte by (intro cstrI) (simp_all add: assms(5) load8_store8 h(1))
  moreover have "load8 m a = load8 (mem s) a" if "unat sz \<le> unat (a - aux)" for a
    using that h(1,3) ok(1) u [of "length ?l"] by (auto simp: assms(5) load8_store8)
  ultimately show ?thesis using h(4,5) ok by blast
qed

theorem console_edits_line_witness:
  "cstr (store8 (mem (snd (edit_keys 0x6000 4 [0x61, 0x62, 8, 9, 0x63, 0x64, 0x65] blank_monitor)))
     (0x6000 + fst (edit_keys 0x6000 4 [0x61, 0x62, 8, 9, 0x63, 0x64, 0x65] blank_monitor)) 0) 0x6000 [0x61, 0x63, 0x64]"
proof -
  have "typed 4 [0x61, 0x62, 8, 9, 0x63, 0x64, 0x65] = [0x61, 0x63, 0x64]"
    by (simp add: typed_def line_key_def isprintable_def)
  then show ?thesis
    using console_edits_line [of 4 blank_monitor "0x6000" "[0x61, 0x62, 8, 9, 0x63, 0x64, 0x65]", OF _ _ blank_monitor_simps(3) prod.collapse [symmetric] refl]
    by simp
qed

end
