(* ===== verification/TimerTask.thy ===== *)
theory TimerTask
  imports Boot
begin

text \<open>
  The timer task of kernel_main.c: its variables count seconds, minutes and hours, and each round shows them with the free
  memory in the line below the terminal, before it sleeps.
\<close>

section \<open>The reference\<close>

definition two_digits :: "nat \<Rightarrow> u8 list" where
  "two_digits d = [digit_chr False (d div 10), digit_chr False (d mod 10)]"

definition time_text :: "nat \<Rightarrow> u8 list" where
  "time_text n = numeral_text False 10 (n div 3600) @ [0x3A] @ two_digits (n div 60 mod 60) @ [0x3A] @ two_digits (n mod 60)"

definition memory_text :: "nat \<Rightarrow> u8 list" where
  "memory_text k = replicate (8 - length (numeral_text False 10 k)) 0x20 @ numeral_text False 10 k @ bytes '' kB RAM free''"

definition clock_of :: "nat \<Rightarrow> u32 \<times> u32 \<times> u32" where
  "clock_of n = (of_nat (n div 3600), of_nat (n div 60 mod 60), of_nat (n mod 60))"

text \<open>A text in a line of the screen, black on grey.\<close>

definition in_line :: "nat \<Rightarrow> nat \<Rightarrow> u8 list \<Rightarrow> lines \<Rightarrow> lines" where
  "in_line y x cs L = fold (\<lambda>(j, c). set_cell y j (scast c OR attribute_of 7 0)) (zip [x..<x + length cs] cs) L"

section \<open>Counting\<close>

lemma word_eq_of_nat: "m < 2 ^ 32 \<Longrightarrow> k < 2 ^ 32 \<Longrightarrow> (of_nat m :: u32) = of_nat k \<longleftrightarrow> m = k"
  by (auto simp: word_unat_eq_iff unat_of_nat)

lemma clock_parts:
  fixes n :: nat
  assumes "n = s + 60 * (m + 60 * h)" and "m < 60" "s < 60"
  shows "n div 3600 = h \<and> n div 60 mod 60 = m \<and> n mod 60 = s"
proof -
  have "n div 60 = m + 60 * h" using assms(1,3) by simp
  moreover have "n mod 60 = s" unfolding assms(1) using assms(3) by (simp only: mod_mult_self2 mod_less)
  moreover have "(m + 60 * h) div 60 = h" "(m + 60 * h) mod 60 = m" using assms(2) by simp_all
  moreover have "n div 3600 = n div 60 div 60" by (simp add: div_mult2_eq [symmetric])
  ultimately show ?thesis by simp
qed

lemma tick_clock_of: "n < 2 ^ 32 \<Longrightarrow> tick_clock (clock_of n) = clock_of (Suc n)"
proof -
  assume n: "n < 2 ^ 32"
  define h where "h = n div 3600"
  define m where "m = n div 60 mod 60"
  define s where "s = n mod 60"
  have b: "m < 60" "s < 60" by (simp_all add: m_def s_def)
  have e: "n = 3600 * h + 60 * m + s"
  proof -
    have d: "n div 3600 = n div 60 div 60" by (simp add: div_mult2_eq [symmetric])
    show ?thesis
      using div_mult_mod_eq [of n 60] div_mult_mod_eq [of "n div 60" 60] unfolding h_def m_def s_def d by linarith
  qed
  have s1: "(of_nat s + 1 :: u32) = 60 \<longleftrightarrow> Suc s = 60" "(of_nat m + 1 :: u32) = 60 \<longleftrightarrow> Suc m = 60" "(of_nat m :: u32) \<noteq> 60"
    using b word_eq_of_nat [of "Suc s" 60] word_eq_of_nat [of "Suc m" 60] word_eq_of_nat [of m 60] by (simp_all add: add.commute)
  have c: "clock_of n = (of_nat h, of_nat m, of_nat s)" by (simp add: clock_of_def h_def m_def s_def)
  consider "Suc s < 60" | "Suc s = 60" "Suc m < 60" | "Suc s = 60" "Suc m = 60" using b by linarith
  then show ?thesis
  proof cases
    case 1
    then have "Suc n div 3600 = h" "Suc n div 60 mod 60 = m" "Suc n mod 60 = Suc s" using clock_parts [of "Suc n" "Suc s" "m" "h"] 1 e b by simp_all
    then show ?thesis using 1 s1 by (simp add: tick_clock_def c) (simp add: clock_of_def add.commute)
  next
    case 2
    then have "Suc n div 3600 = h" "Suc n div 60 mod 60 = Suc m" "Suc n mod 60 = 0" using clock_parts [of "Suc n" "0" "Suc m" "h"] 2 e b by simp_all
    then show ?thesis using 2 s1 by (simp add: tick_clock_def c) (simp add: clock_of_def add.commute)
  next
    case 3
    then have "Suc n div 3600 = Suc h" "Suc n div 60 mod 60 = 0" "Suc n mod 60 = 0" using clock_parts [of "Suc n" "0" "0" "Suc h"] 3 e b by simp_all
    then show ?thesis using 3 s1 by (simp add: tick_clock_def c) (simp add: clock_of_def add.commute)
  qed
qed

lemma clock_after: "n \<le> 2 ^ 32 \<Longrightarrow> (tick_clock ^^ n) (0, 0, 0) = clock_of n"
  by (induction n) (simp_all add: tick_clock_of, simp add: clock_of_def)

section \<open>Texts\<close>

lemma sint_small: "unat a < 2 ^ 31 \<Longrightarrow> sint a = int (unat a)" for a :: u32
proof -
  have "sint (of_nat n :: u32) = int n" if "n < 2 ^ 31" for n using that by (simp add: signed_of_nat signed_take_bit_int_eq_self)
  from this [of "unat a"] show "unat a < 2 ^ 31 \<Longrightarrow> sint a = int (unat a)" by simp
qed

lemma padded_two: "k < 100 \<Longrightarrow> replicate (2 - length (numeral_text False 10 k)) 0x30 @ numeral_text False 10 k = two_digits k"
proof -
  assume k: "k < 100"
  have zero: "digit_chr False 0 = 0x30" by (simp add: digit_chr_def)
  consider "k = 0" | "0 < k" "k < 10" | "10 \<le> k" by linarith
  then show ?thesis
  proof cases
    case 1
    then show ?thesis by (simp add: numeral_text_def two_digits_def zero)
  next
    case 2
    then show ?thesis by (simp add: numeral_text_def two_digits_def zero digits_rev_step)
  next
    case 3
    then have "0 < k div 10" "k div 10 < 10" using k by (simp_all add: div_greater_zero_iff less_mult_imp_div_less)
    then show ?thesis using 3 by (simp add: numeral_text_def two_digits_def digits_rev_step)
  qed
qed

lemma number_texts:
  assumes "unat a < 2 ^ 31"
  shows "number_text a 10 (-1) (-1) SIGN = numeral_text False 10 (unat a)"
    "number_text a 10 8 (-1) SIGN = replicate (8 - length (numeral_text False 10 (unat a))) 0x20 @ numeral_text False 10 (unat a)"
    "unat a < 100 \<Longrightarrow> number_text a 10 2 (-1) (ZEROPAD OR SIGN) = two_digits (unat a)"
proof -
  have s: "\<not> sint a < 0" using sint_small [OF assms] by simp
  have f: "\<not> has SIGN PLUS" "\<not> has SIGN SPACE" "\<not> has SIGN SPECIAL" "\<not> has SIGN LEFT" "\<not> has SIGN ZEROPAD" "\<not> has SIGN SMALL"
    "\<not> has (ZEROPAD OR SIGN) PLUS" "\<not> has (ZEROPAD OR SIGN) SPACE" "\<not> has (ZEROPAD OR SIGN) SPECIAL" "\<not> has (ZEROPAD OR SIGN) LEFT"
    "has (ZEROPAD OR SIGN) ZEROPAD" "\<not> has (ZEROPAD OR SIGN) SMALL" "ZEROPAD \<noteq> 0"
    by (simp_all add: flag_defs)
  show "number_text a 10 (-1) (-1) SIGN = numeral_text False 10 (unat a)"
    "number_text a 10 8 (-1) SIGN = replicate (8 - length (numeral_text False 10 (unat a))) 0x20 @ numeral_text False 10 (unat a)"
    using s by (simp_all add: number_text_def f Let_def)
  show "number_text a 10 2 (-1) (ZEROPAD OR SIGN) = two_digits (unat a)" if "unat a < 100"
    using s padded_two [OF that] by (simp add: number_text_def f Let_def)
qed

lemmas format_steps = directive_text_def text_width_def text_precision_def text_qualifier_def conv_text_def is_digit_def Let_def

lemma time_format:
  assumes "n div 3600 < 2 ^ 31" and "clock_of n = (h, m, s)"
  shows "format_text S (bytes ''%d:%02d:%02d'') [h, m, s] = Some (time_text n)"
proof -
  have u: "unat h = n div 3600" "unat m = n div 60 mod 60" "unat s = n mod 60"
    using assms by (auto simp: clock_of_def unat_of_nat)
  have "unat m < 60" "unat s < 60" unfolding u by simp_all
  then have "unat m < 100" "unat s < 100" "unat m < 2 ^ 31" "unat s < 2 ^ 31" by simp_all
  then show ?thesis
    using number_texts(1) [of h] number_texts(3) [of m] number_texts(3) [of s] assms(1)
    by (simp add: bytes_def format_steps time_text_def u)
qed

lemma memory_format:
  assumes "unat k < 2 ^ 31"
  shows "format_text S (bytes ''%8d kB RAM free'') [k] = Some (memory_text (unat k))"
  using number_texts(2) [OF assms] by (simp add: bytes_def format_steps memory_text_def)

lemma time_text_length: "n < 360000 \<Longrightarrow> length (time_text n) \<le> 8"
proof -
  assume "n < 360000"
  then have "n div 3600 < 10 ^ 2" by (simp add: less_mult_imp_div_less)
  then have "length (numeral_text False 10 (n div 3600)) \<le> 2"
    using length_digits_rev [of 10 "n div 3600" 2 False] by (simp add: numeral_text_def)
  then show ?thesis by (simp add: time_text_def two_digits_def)
qed

lemma memory_text_length: "k < 2 ^ 31 \<Longrightarrow> length (memory_text k) \<le> 22"
proof -
  assume "k < 2 ^ 31"
  then have "k < 10 ^ 10" by simp
  then have "length (numeral_text False 10 k) \<le> 10"
    using length_digits_rev [of 10 k 10 False] by (simp add: numeral_text_def)
  then show ?thesis by (simp add: memory_text_def bytes_def)
qed

section \<open>A round\<close>

lemma room_span: "n \<le> 30 \<Longrightarrow> span p 30 \<subseteq> B \<Longrightarrow> room B p n"
  by (auto simp: room_def span_def unat_of_nat)

lemma sprintf_text:
  assumes "format_text S fs args = Some bs" and "text_at B (mem s) fmt fs" and "strings_at S B (mem s)" and "room B buf (length bs)"
  shows "sprintf buf fmt args s = ret (s\<lparr>mem := write_seq store8 (mem s) buf (bs @ [0])\<rparr>)"
  using vsprintf_text [OF assms] by (simp add: sprintf_def write_seq_snoc store8_again)

lemma numeral_text_nonzero: "0 \<notin> set (numeral_text False 10 n)"
proof -
  have "0 \<notin> set (digits_rev False 10 n)"
  proof (induction n rule: less_induct)
    case (less n)
    then show ?case using digit_chr_nonzero [of "n mod 10" False] by (cases "n = 0") (auto simp: digits_rev_step)
  qed
  then show ?thesis by (simp add: numeral_text_def)
qed

lemma texts_nonzero: "0 \<notin> set (time_text n)" "0 \<notin> set (memory_text k)"
proof -
  have "digit_chr False (d div 10) \<noteq> 0" "digit_chr False (d mod 10) \<noteq> 0" if "d < 60" for d
    using that by (intro digit_chr_nonzero; simp)+
  then have "0 \<notin> set (two_digits (n div 60 mod 60))" "0 \<notin> set (two_digits (n mod 60))"
    by (simp_all add: two_digits_def eq_commute [of 0])
  then show "0 \<notin> set (time_text n)" using numeral_text_nonzero by (simp add: time_text_def)
  show "0 \<notin> set (memory_text k)" using numeral_text_nonzero by (auto simp: memory_text_def bytes_def)
qed

lemma cstr_cong:
  assumes "cstr m p xs" and "\<And>i. i \<le> length xs \<Longrightarrow> load8 m' (p + of_nat i) = load8 m (p + of_nat i)"
  shows "cstr m' p xs"
  using assms cstr_nth [OF assms(1)] cstr_end [OF assms(1)] cstr_nonzero [OF assms(1)] by (intro cstrI) auto

text \<open>C39. A round of the timer task. After \<open>n\<close> rounds the variables hold the hours, minutes and seconds of \<open>n\<close> seconds;
  the next round leaves the time and the free memory as strings in its two buffers of 30 bytes, shows them in line 24, the
  time at column 70 and the memory at column 5, touches no other memory and not the cursor, and sleeps for 50 ticks.\<close>

theorem timer_shows_time:
  assumes "n < 360000" and "unat (LowRamFreeCount s * 4 + HighRamFreeCount s * 4) < 2 ^ 31"
    and "span (timebuf M) 30 \<inter> span (rambuf M) 30 = {}"
    and "text_at (span (timebuf M) 30 \<union> span (rambuf M) 30) (mem s) (lit W ''%d:%02d:%02d'') (bytes ''%d:%02d:%02d'')"
    and "text_at (span (timebuf M) 30 \<union> span (rambuf M) 30) (mem s) (lit W ''%8d kB RAM free'') (bytes ''%8d kB RAM free'')"
    and "k = unat (LowRamFreeCount s * 4 + HighRamFreeCount s * 4)"
  shows "(tick_clock ^^ n) (0, 0, 0) = clock_of n \<and>
    (\<exists>s'. timer_round M W (clock_of n) s = bnd (delay W 50 s') (\<lambda>(r, s). ret s) \<and>
      cstr (mem s') (timebuf M) (time_text n) \<and> cstr (mem s') (rambuf M) (memory_text k) \<and>
      screen s' = in_line 24 5 (memory_text k) (in_line 24 70 (time_text n) (screen s)) \<and>
      cursor_x s' = cursor_x s \<and> cursor_y s' = cursor_y s \<and>
      (\<forall>a. a \<notin> span (timebuf M) 30 \<union> span (rambuf M) 30 \<longrightarrow> load8 (mem s') a = load8 (mem s) a))"
proof -
  let ?B = "span (timebuf M) 30 \<union> span (rambuf M) 30"
  obtain h m sec where c: "clock_of n = (h, m, sec)" by (cases "clock_of n")
  have "n div 3600 < 2 ^ 31" using assms(1) by (simp add: less_mult_imp_div_less)
  note tf = time_format [OF this c, of "\<lambda>a. None"]
  note mf = memory_format [OF assms(2), of "\<lambda>a. None"]
  have len: "length (time_text n) \<le> 8" "length (memory_text k) \<le> 22"
    using time_text_length [OF assms(1)] memory_text_length [OF assms(2)] assms(6) by simp_all
  define m1 where "m1 = write_seq store8 (mem s) (timebuf M) (time_text n @ [0])"
  define m2 where "m2 = write_seq store8 m1 (rambuf M) (memory_text k @ [0])"
  have S: "strings_at (\<lambda>a. None) ?B m" for m by (simp add: strings_at_def)
  have sp1: "sprintf (timebuf M) (lit W ''%d:%02d:%02d'') [h, m, sec] s = ret (s\<lparr>mem := m1\<rparr>)"
    unfolding m1_def by (rule sprintf_text [OF tf assms(4) S]) (rule room_span, use len in simp, blast)
  have out1: "load8 m1 a = load8 (mem s) a" if "a \<notin> span (timebuf M) 30" for a
    unfolding m1_def using that len by (intro load8_write_seq_frame [of "span (timebuf M) 30"] room_span) simp_all
  have out2: "load8 m2 a = load8 m1 a" if "a \<notin> span (rambuf M) 30" for a
    unfolding m2_def using that len by (intro load8_write_seq_frame [of "span (rambuf M) 30"] room_span) simp_all
  have "text_at ?B m1 (lit W ''%8d kB RAM free'') (bytes ''%8d kB RAM free'')"
    using assms(5) out1 by (subst text_at_cong [of ?B m1 "mem s"]) simp_all
  then have sp2: "sprintf (rambuf M) (lit W ''%8d kB RAM free'') [LowRamFreeCount s * 4 + HighRamFreeCount s * 4] (s\<lparr>mem := m1\<rparr>) =
      ret (s\<lparr>mem := m2\<rparr>)"
    using sprintf_text [OF mf, of ?B "s\<lparr>mem := m1\<rparr>" _ "rambuf M"] S room_span [of "length (memory_text k)" "rambuf M" ?B] len
    by (simp add: m2_def assms(6))
  have t1: "cstr m1 (timebuf M) (time_text n)"
    unfolding m1_def using len by (intro cstr_write_seq texts_nonzero) simp
  have "timebuf M + of_nat i \<notin> span (rambuf M) 30" if "i \<le> length (time_text n)" for i
  proof -
    have "timebuf M + of_nat i \<in> span (timebuf M) 30" using that len by (simp add: span_def unat_of_nat)
    then show ?thesis using assms(3) by blast
  qed
  then have t2: "cstr m2 (timebuf M) (time_text n)" using out2 by (intro cstr_cong [OF t1]) blast
  have r2: "cstr m2 (rambuf M) (memory_text k)"
    unfolding m2_def using len by (intro cstr_write_seq texts_nonzero) simp
  obtain s1 where s1: "monitor_writexy 70 24 (timebuf M) 7 0 (s\<lparr>mem := m2\<rparr>) = Some s1"
    "screen s1 = in_line 24 70 (time_text n) (screen s)" "cursor_x s1 = cursor_x s" "cursor_y s1 = cursor_y s" "mem s1 = m2"
    using monitor_writexy_line [of "s\<lparr>mem := m2\<rparr>" "timebuf M" "time_text n" 70 24 7 0] t2 len
    by (auto simp: in_line_def screen_def)
  obtain s2 where s2: "monitor_writexy 5 24 (rambuf M) 7 0 s1 = Some s2"
    "screen s2 = in_line 24 5 (memory_text k) (screen s1)" "cursor_x s2 = cursor_x s1" "cursor_y s2 = cursor_y s1" "mem s2 = m2"
    using monitor_writexy_line [of s1 "rambuf M" "memory_text k" 5 24 7 0] r2 len s1(5) by (auto simp: in_line_def)
  have "timer_round M W (clock_of n) s = bnd (delay W 50 s2) (\<lambda>(r, s). ret s)"
    using sp1 sp2 s1(1) s2(1) by (simp add: timer_round_def c)
  moreover have "load8 (mem s2) a = load8 (mem s) a" if "a \<notin> ?B" for a using that out1 out2 s2(5) by simp
  ultimately show ?thesis using clock_after [of n] assms(1) t2 r2 s1 s2 by auto
qed

lemma text_at_string: "cstr m p fs \<Longrightarrow> (\<And>i. i \<le> length fs \<Longrightarrow> p + of_nat i \<notin> B) \<Longrightarrow> text_at B m p fs"
proof (induction fs arbitrary: p)
  case Nil
  from Nil.prems(2) [of 0] Nil.prems(1) show ?case by simp
next
  case (Cons c fs)
  have "p + 1 + of_nat i \<notin> B" if "i \<le> length fs" for i using Cons.prems(2) [of "Suc i"] that by (simp add: add.assoc)
  then show ?case using Cons.IH [of "p + 1"] Cons.prems(1) Cons.prems(2) [of 0] by simp
qed

definition demo_formats :: cells where
  "demo_formats = write_seq store8 (write_seq store8 (\<lambda>_. 0) 0x40000 (bytes ''%d:%02d:%02d'' @ [0])) 0x41000 (bytes ''%8d kB RAM free'' @ [0])"

lemma demo_formats_texts:
  assumes "B = span 0x70000 30 \<union> span 0x70100 30"
  shows "text_at B demo_formats 0x40000 (bytes ''%d:%02d:%02d'')" "text_at B demo_formats 0x41000 (bytes ''%8d kB RAM free'')"
proof -
  have all: "\<forall>x \<in> {0,1,2,3,4,5,6,7,8,9,10,11,12,13,14,15,16}. 0x40000 + x \<notin> B \<and> 0x41000 + x \<notin> B \<and> 18 \<le> unat (0x40000 + x - 0x41000 :: u32)"
    unfolding assms span_def by simp
  have "of_nat i \<in> ({0,1,2,3,4,5,6,7,8,9,10,11,12,13,14,15,16} :: u32 set)" if "i \<le> 16" for i
  proof -
    have "of_nat i \<in> (of_nat ` {..16} :: u32 set)" using that by blast
    moreover have "of_nat ` {..16} = ({0,1,2,3,4,5,6,7,8,9,10,11,12,13,14,15,16} :: u32 set)"
      by (simp add: atMost_nat_numeral atMost_Suc) blast
    ultimately show ?thesis by simp
  qed
  then have far: "0x40000 + of_nat i \<notin> B" "0x41000 + of_nat i \<notin> B" "18 \<le> unat (0x40000 + of_nat i - 0x41000 :: u32)" if "i \<le> 16" for i
    using that all by blast+
  let ?m = "write_seq store8 (\<lambda>_. 0) 0x40000 (bytes ''%d:%02d:%02d'' @ [0])"
  have c1: "cstr ?m 0x40000 (bytes ''%d:%02d:%02d'')" by (intro cstr_write_seq) (simp_all add: bytes_def)
  have "cstr demo_formats 0x40000 (bytes ''%d:%02d:%02d'')"
  proof (rule cstr_cong [OF c1])
    fix i :: nat assume i: "i \<le> length (bytes ''%d:%02d:%02d'')"
    then have "18 \<le> unat (0x40000 + of_nat i - 0x41000 :: u32)" by (intro far) (simp add: bytes_def)
    then show "load8 demo_formats (0x40000 + of_nat i) = load8 ?m (0x40000 + of_nat i)"
      unfolding demo_formats_def by (intro cells.ld_write_seq_outside) (simp add: bytes_def)
  qed
  then show "text_at B demo_formats 0x40000 (bytes ''%d:%02d:%02d'')" using far by (intro text_at_string) (simp_all add: bytes_def)
  show "text_at B demo_formats 0x41000 (bytes ''%8d kB RAM free'')"
    unfolding demo_formats_def using far by (intro text_at_string cstr_write_seq) (simp_all add: bytes_def)
qed

theorem timer_shows_time_witness:
  "\<exists>s'. timer_round demo_main (demo_sys\<lparr>lit := \<lambda>x. if x = ''%d:%02d:%02d'' then 0x40000 else 0x41000\<rparr>) (1, 1, 1)
       ((demo demo_formats)\<lparr>LowRamFreeCount := 100, HighRamFreeCount := 0\<rparr>) =
     bnd (delay (demo_sys\<lparr>lit := \<lambda>x. if x = ''%d:%02d:%02d'' then 0x40000 else 0x41000\<rparr>) 50 s') (\<lambda>(r, s). ret s) \<and>
     cstr (mem s') 0x70000 (bytes ''1:01:01'') \<and> cstr (mem s') 0x70100 (bytes ''     400 kB RAM free'')"
proof -
  let ?W = "demo_sys\<lparr>lit := \<lambda>x. if x = ''%d:%02d:%02d'' then 0x40000 else 0x41000\<rparr>"
  let ?s = "(demo demo_formats)\<lparr>LowRamFreeCount := 100, HighRamFreeCount := 0\<rparr>"
  have c: "clock_of 3661 = (1, 1, 1)" by (simp add: clock_of_def)
  have t: "time_text 3661 = bytes ''1:01:01''"
    by (simp add: time_text_def two_digits_def numeral_text_def digits_rev_step digit_chr_def bytes_def)
  have "replicate 5 x = [x, x, x, x, x]" for x :: u8 by (simp add: eval_nat_numeral)
  then have m: "memory_text 400 = bytes ''     400 kB RAM free''"
    by (simp add: memory_text_def numeral_text_def digits_rev_step digit_chr_def bytes_def)
  have k: "unat (LowRamFreeCount ?s * 4 + HighRamFreeCount ?s * 4) = 400" by simp
  have b: "timebuf demo_main = 0x70000" "rambuf demo_main = 0x70100" by (simp_all add: demo_main_def)
  have "span 0x70000 30 \<inter> span 0x70100 30 = {}" by (rule span_apart; simp)
  moreover have l: "lit ?W ''%d:%02d:%02d'' = 0x40000" "lit ?W ''%8d kB RAM free'' = 0x41000" by simp_all
  moreover have "mem ?s = demo_formats" by (simp add: demo_def)
  ultimately show ?thesis
    using timer_shows_time [of 3661 ?s demo_main ?W 400, unfolded b l k c t m] demo_formats_texts [OF refl] by fastforce
qed

end
