(* ===== verification/CloneDir.thy ===== *)
theory CloneDir
  imports HeapPages
begin

text \<open>
  mm.c, \<open>clone_actual_directory\<close>. It copies the active directory and then each page table through one window, the page at
  \<open>PM_DIR_CLONE_ADDR\<close>, that it maps to a new page each time. Its test of a table compares the address of the table in the
  recursive window with 0, which it never is, so an absent table is read too; and the entry it writes goes
  through the window, which is mapped to the copy of the table by then, not to the new directory.
\<close>

section \<open>The operation\<close>

definition PM_DIR_CLONE_ADDR :: u32 where
  "PM_DIR_CLONE_ADDR = 0xFE000000"

definition vload8 :: "u32 \<Rightarrow> 'a paging_state_scheme \<Rightarrow> u8 outcome" where
  "vload8 va s = (case translate (phys s) (cr3 s) va of None \<Rightarrow> fail (PageFault va) | Some pa \<Rightarrow> ret (load8 (phys s) pa))"

text \<open>\<open>memcpy\<close> (common.c) between pages of the window: each byte is translated.\<close>

function vmemcpy :: "u32 \<Rightarrow> u32 \<Rightarrow> u32 \<Rightarrow> 'a paging_state_scheme \<Rightarrow> 'a paging_state_scheme outcome" where
  "vmemcpy dest src len s =
     (if len \<noteq> 0 then bnd (vload8 src s) (\<lambda>b. bnd (vstore8 dest b s) (\<lambda>s. vmemcpy (dest + 1) (src + 1) (len - 1) s))
      else ret s)"
  by pat_completeness auto
termination
  by (relation "measure (\<lambda>(dest, src, len, s). unat len)") (auto simp: measure_unat)

declare vmemcpy.simps [simp del]

text \<open>The body of the loop over the tables, and the loop.\<close>

definition clone_table :: "u32 \<Rightarrow> u32 \<Rightarrow> 'a paging_state_scheme \<Rightarrow> 'a paging_state_scheme outcome" where
  "clone_table dest_pd i s =
    (let pt = 0xFFC00000 + 4 * (0x400 * i)
     in if pt \<noteq> 0
        then bnd (pa_alloc s) (\<lambda>(dest_pt_physical, s).
             bnd (mm_map dest_pt_physical PM_DIR_CLONE_ADDR PAGE_WRITE s) (\<lambda>(_, s).
             bnd (vmemcpy PM_DIR_CLONE_ADDR (pt AND 0xFFFFF000) 4096 s) (\<lambda>s.
             vwrite (dest_pd + 4 * i) ((pt AND 0x7) OR dest_pt_physical) s)))
        else ret s)"

function clone_tables :: "u32 \<Rightarrow> nat \<Rightarrow> 'a paging_state_scheme \<Rightarrow> 'a paging_state_scheme outcome" where
  "clone_tables dest_pd i s =
     (if i < 1024 then bnd (clone_table dest_pd (of_nat i) s) (\<lambda>s. clone_tables dest_pd (i + 1) s) else ret s)"
  by pat_completeness auto
termination
  by (relation "measure (\<lambda>(dest_pd, i, s). 1024 - i)") auto

declare clone_tables.simps [simp del]

definition clone_actual_directory :: "'a paging_state_scheme \<Rightarrow> (u32 \<times> 'a paging_state_scheme) outcome" where
  "clone_actual_directory s =
    bnd (pa_alloc s) (\<lambda>(dest_pd_physical, s).
    bnd (mm_map dest_pd_physical PM_DIR_CLONE_ADDR PAGE_WRITE s) (\<lambda>(dest_pd, s).
    bnd (vmemcpy PM_DIR_CLONE_ADDR 0xFFFFF000 4096 s) (\<lambda>s.
    bnd (clone_tables dest_pd 0 s) (\<lambda>s. ret (dest_pd_physical, s)))))"

section \<open>Copying a page through the window\<close>

lemma pg_inv_phys:
  assumes "pg_inv s" and "\<And>k. unat k < 1024 \<Longrightarrow> pde ph (cr3 s) k = pde (phys s) (cr3 s) k"
  shows "pg_inv (s\<lparr>phys := ph\<rparr>)"
proof -
  have "\<And>k. unat k < 1023 \<Longrightarrow> pde ph (cr3 s) k = pde (phys s) (cr3 s) k" using assms(2) by simp
  then show ?thesis
    using assms dir_unchanged [of ph "cr3 s" "phys s"] by (auto simp: pg_inv_def free_pages_phys pa_wf_phys)
qed

text \<open>A write into a page that is neither the directory nor the table of an address does not change its translation.\<close>

lemma store8_page:
  assumes "unat p mod 4096 = 0" "k < 4096" "unat i < 1024" "frame e \<noteq> p"
  shows "store8 ph (p + of_nat k) v (frame e + 4 * i) = ph (frame e + 4 * i)"
proof -
  have "unat (of_nat (k div 4) :: u32) < 1024" using assms(2) by (simp add: unat_of_nat)
  then have "cell_of (p + of_nat k) \<noteq> frame e + 4 * i"
    using slot_inject [OF assms(1) frame_mod _ assms(3), of "of_nat (k div 4)" e] assms(4)
    by (simp add: cell_in_page [OF assms(1,2)])
  then show ?thesis by (rule store8_other_cell)
qed

lemma translate_store8:
  assumes p: "unat p mod 4096 = 0" "k < 4096" and dir: "frame pdir \<noteq> p"
    and tab: "frame (pde ph pdir (pdindex va)) \<noteq> p"
  shows "translate (store8 ph (p + of_nat k) v) pdir va = translate ph pdir va"
proof -
  have "pde (store8 ph (p + of_nat k) v) pdir (pdindex va) = pde ph pdir (pdindex va)"
    unfolding pde_def by (rule store8_page [OF p pdindex_bound dir])
  then show ?thesis
    by (simp only: translate_pde store8_page [OF p ptindex_bound tab])
qed

lemma vmemcpy_page:
  fixes s :: "'a paging_state_scheme"
  assumes p: "unat p mod 4096 = 0" "frame (cr3 s) \<noteq> p" and k: "k + n \<le> 4096"
    and dest: "\<And>j. j < n \<Longrightarrow> translate (phys s) (cr3 s) (dest + of_nat j) = Some (p + of_nat (k + j))"
      "\<And>j. j < n \<Longrightarrow> frame (pde (phys s) (cr3 s) (pdindex (dest + of_nat j))) \<noteq> p"
    and src: "\<And>j. j < n \<Longrightarrow> translate (phys s) (cr3 s) (src + of_nat j) = Some (g + of_nat (k + j))"
      "\<And>j. j < n \<Longrightarrow> frame (pde (phys s) (cr3 s) (pdindex (src + of_nat j))) \<noteq> p"
  shows "vmemcpy dest src (of_nat n) s = ret (s\<lparr>phys := memcpy (phys s) (p + of_nat k) (g + of_nat k) (of_nat n)\<rparr>)"
  using assms
proof (induction n arbitrary: s k dest src)
  case 0
  then show ?case by (simp add: vmemcpy.simps memcpy.simps)
next
  case (Suc n)
  let ?b = "load8 (phys s) (g + of_nat k)"
  let ?s = "s\<lparr>phys := store8 (phys s) (p + of_nat k) ?b\<rparr>"
  have k: "k < 4096" using Suc.prems(3) by simp
  have nz: "(of_nat (Suc n) :: u32) \<noteq> 0" "(of_nat (Suc n) :: u32) - 1 = of_nat n"
    using Suc.prems(3) by (simp_all add: word_unat_eq_iff unat_of_nat del: of_nat_Suc) (simp add: unat_of_nat)
  have step: "vload8 src s = ret ?b" "vstore8 dest ?b s = ret ?s"
    using Suc.prems(4,6) [of 0] by (simp_all add: vload8_def vstore8_def)
  have pde: "pde (phys ?s) (cr3 s) (pdindex va) = pde (phys s) (cr3 s) (pdindex va)" for va
    unfolding pde_def by simp (rule store8_page [OF Suc.prems(1) k pdindex_bound Suc.prems(2)])
  have tr: "translate (phys ?s) (cr3 s) va = translate (phys s) (cr3 s) va"
    if "frame (pde (phys s) (cr3 s) (pdindex va)) \<noteq> p" for va
    using translate_store8 [OF Suc.prems(1) k Suc.prems(2) that] by simp
  have at: "a + 1 + of_nat j = a + (of_nat (Suc j) :: u32)" for a j by (simp add: add.assoc)
  have "vmemcpy (dest + 1) (src + 1) (of_nat n) ?s =
      ret (?s\<lparr>phys := memcpy (phys ?s) (p + of_nat (Suc k)) (g + of_nat (Suc k)) (of_nat n)\<rparr>)"
  proof (rule Suc.IH)
    fix j assume "j < n"
    then have j: "Suc j < Suc n" by simp
    show "translate (phys ?s) (cr3 ?s) (dest + 1 + of_nat j) = Some (p + of_nat (Suc k + j))"
      using Suc.prems(4) [OF j] tr [OF Suc.prems(5) [OF j]] unfolding at by simp
    show "frame (pde (phys ?s) (cr3 ?s) (pdindex (dest + 1 + of_nat j))) \<noteq> p"
      using Suc.prems(5) [OF j] pde unfolding at by simp
    show "translate (phys ?s) (cr3 ?s) (src + 1 + of_nat j) = Some (g + of_nat (Suc k + j))"
      using Suc.prems(6) [OF j] tr [OF Suc.prems(7) [OF j]] unfolding at by simp
    show "frame (pde (phys ?s) (cr3 ?s) (pdindex (src + 1 + of_nat j))) \<noteq> p"
      using Suc.prems(7) [OF j] pde unfolding at by simp
  qed (use Suc.prems(1-3) in simp_all)
  then show ?case
    using nz step by (simp add: vmemcpy.simps [of dest] memcpy.simps [of "phys s"] ac_simps del: of_nat_Suc)
      (simp add: ac_simps)
qed

section \<open>Whole pages\<close>

lemma page_apart:
  fixes f g :: u32
  assumes f: "unat f mod 4096 = 0" and g: "unat g mod 4096 = 0" and k: "k < 4096"
  shows "unat (g + of_nat k - f) < 4096 \<longleftrightarrow> g = f"
proof
  assume "g = f"
  then show "unat (g + of_nat k - f) < 4096" using k by (simp add: unat_of_nat)
next
  assume less: "unat (g + of_nat k - f) < 4096"
  obtain a where a: "unat f = 4096 * a" "a < 1048576" using f by (rule page_aligned_obtain)
  obtain b where b: "unat g = 4096 * b" "b < 1048576" using g by (rule page_aligned_obtain)
  define d where "d = unat (g + of_nat k - f)"
  have "f + of_nat d = g + of_nat k" by (simp add: d_def)
  then have "unat (f + of_nat d) = unat (g + of_nat k)" by simp
  then have "4096 * a + d = 4096 * b + k"
    using unat_in_page [OF f less [folded d_def]] unat_in_page [OF g k] a b by simp
  then have "\<not> a < b" "\<not> b < a" using k less [folded d_def] by linarith+
  then have "a = b" by simp
  then show "g = f" using a b by (simp add: word_unat_eq_iff)
qed

lemma memcpy_page_slot:
  fixes f g e i :: u32
  assumes f: "unat f mod 4096 = 0" and g: "unat g mod 4096 = 0" and e: "unat e mod 4096 = 0"
    and i: "unat i < 1024" and apart: "f \<noteq> g"
  shows "memcpy ph f g 4096 (e + 4 * i) = (if e = f then ph (g + 4 * i) else ph (e + 4 * i))"
proof -
  have far: "f = g \<or> unat (4096 :: u32) \<le> unat (f - g)"
    using page_apart [OF g f, of 0] apart by simp
  have byte: "load8 (memcpy ph f g 4096) (e + 4 * i + of_nat j) =
      (if e = f then load8 ph (g + 4 * i + of_nat j) else load8 ph (e + 4 * i + of_nat j))" if j: "j < 4" for j
  proof -
    have at: "x + 4 * i + of_nat j = x + of_nat (4 * unat i + j)" for x :: u32 by (simp add: add.assoc)
    have k: "4 * unat i + j < 4096" using i j by linarith
    have "unat (e + of_nat (4 * unat i + j) - f) < unat (4096 :: u32) \<longleftrightarrow> e = f" using page_apart [OF f e k] by simp
    then show ?thesis unfolding at memcpy_correct [OF far] by simp
  qed
  have al: "aligned (e + 4 * i)" "aligned (g + 4 * i)" using aligned_slot [OF e i] aligned_slot [OF g i] by simp_all
  show ?thesis
  proof (cases "e = f")
    case True
    have "memcpy ph f g 4096 (e + 4 * i) = (\<lambda>c. ph (c - e + g)) (e + 4 * i)"
    proof (rule cell_eq_bytes [OF al(1)])
      fix j assume j: "j < (4 :: nat)"
      have c: "cell_of (e + 4 * i + of_nat j) = e + 4 * i" "cell_of (g + 4 * i + of_nat j) = g + 4 * i"
        "lane (e + 4 * i + of_nat j) = lane (g + 4 * i + of_nat j)"
        using cell_of_aligned_add [OF al(1) j] cell_of_aligned_add [OF al(2) j] lane_aligned_add [OF al(1) j]
          lane_aligned_add [OF al(2) j] by simp_all
      have "e + 4 * i - e + g = g + 4 * i" by simp
      then have "load8 ph (g + 4 * i + of_nat j) = load8 (\<lambda>c. ph (c - e + g)) (e + 4 * i + of_nat j)"
        by (simp only: load8_def c)
      then show "load8 (memcpy ph f g 4096) (e + 4 * i + of_nat j) = load8 (\<lambda>c. ph (c - e + g)) (e + 4 * i + of_nat j)"
        unfolding byte [OF j] if_P [OF True] .
    qed
    moreover have "e + 4 * i - e + g = g + 4 * i" by simp
    ultimately show ?thesis by (simp only: if_P [OF True])
  next
    case False
    have "memcpy ph f g 4096 (e + 4 * i) = ph (e + 4 * i)"
      by (rule cell_eq_bytes [OF al(1)]) (rule byte [unfolded if_not_P [OF False]])
    then show ?thesis by (simp only: if_not_P [OF False])
  qed
qed

section \<open>Mapping the window to a new page\<close>

lemma clone_indices:
  assumes "j < 4096"
  shows "pdindex (PM_DIR_CLONE_ADDR + of_nat j) = 1016" "ptindex (PM_DIR_CLONE_ADDR + of_nat j) = 0"
    "(PM_DIR_CLONE_ADDR + of_nat j) AND 0xFFF = of_nat j"
proof -
  have u: "unat (PM_DIR_CLONE_ADDR + of_nat j) = 4261412864 + j"
    using unat_in_page [OF _ assms, of PM_DIR_CLONE_ADDR] by (simp add: PM_DIR_CLONE_ADDR_def)
  have d: "(4261412864 + j) div 4194304 = 1016" "(4261412864 + j) div 4096 = 1040384"
    using assms by (simp_all add: div_nat_eqI)
  moreover have "(4261412864 + j) div 4096 mod 1024 = 0" by (simp add: d)
  moreover have "(4261412864 + j) mod 4096 = j"
    using assms by (simp add: d minus_div_mult_eq_mod [symmetric])
  ultimately show "pdindex (PM_DIR_CLONE_ADDR + of_nat j) = 1016" "ptindex (PM_DIR_CLONE_ADDR + of_nat j) = 0"
    "(PM_DIR_CLONE_ADDR + of_nat j) AND 0xFFF = of_nat j"
    using assms by (simp_all add: word_unat_eq_iff unat_pdindex unat_ptindex unat_and_4095 u unat_of_nat)
qed

lemma clone_index [simp]: "pdindex PM_DIR_CLONE_ADDR = 1016" "ptindex PM_DIR_CLONE_ADDR = 0"
  using clone_indices [of 0] by simp_all

lemma translate_clone:
  assumes "translate ph pdir PM_DIR_CLONE_ADDR = Some p" and "j < 4096"
  shows "translate ph pdir (PM_DIR_CLONE_ADDR + of_nat j) = Some (p + of_nat j)"
  using assms clone_indices [OF assms(2)] clone_indices [of 0]
  by (auto simp: translate_pde Let_def split: if_splits)

lemma mm_map_present:
  assumes inv: "pg_inv s" and p: "physaddr \<noteq> 0" and tab: "present (pde (phys s) (cr3 s) (pdindex va))"
  shows "mm_map physaddr va flags s = ret (va, entry_written va (physaddr OR (flags AND 0xFFF) OR 0x01) s)"
proof -
  have "vread (pd_va (pdindex va)) s = ret (pde (phys s) (cr3 s) (pdindex va))"
    using inv by (simp add: vread_pd pdindex_bound pg_inv_def)
  then show ?thesis
    using flush_vwrite_pt [OF inv tab, of "physaddr OR (flags AND 0xFFF) OR 0x01"] tab p
    by (simp add: mm_map_def bnd_eq_ret present_def)
qed

text \<open>The state after \<open>pa_alloc\<close> and \<open>mm_map\<close> of the page \<open>n\<close> at the window.\<close>

definition clone_mapped :: "'a paging_state_scheme \<Rightarrow> nat \<Rightarrow> 'a paging_state_scheme \<Rightarrow> bool" where
  "clone_mapped s n s2 \<longleftrightarrow> pg_inv s2 \<and> cr3 s2 = cr3 s \<and> n \<in> free_pages s \<and>
     present (pde (phys s2) (cr3 s) 1016) \<and> page_addr n \<notin> tables (phys s2) (cr3 s) \<and>
     (\<forall>k. unat k < 1024 \<longrightarrow> k \<noteq> 1016 \<longrightarrow> pde (phys s2) (cr3 s) k = pde (phys s) (cr3 s) k) \<and>
     translate (phys s2) (cr3 s) PM_DIR_CLONE_ADDR = Some (page_addr n)"

lemma clone_map:
  fixes s :: "'a paging_state_scheme"
  assumes inv: "pg_inv s" and free: "free_pages s \<noteq> {}" and n: "n = Min (free_pages s)"
    and room: "present (pde (phys s) (cr3 s) 1016) \<or> free_pages s - {n} \<noteq> {}"
  shows "\<exists>s1 s2. pa_alloc s = ret (page_addr n, s1) \<and>
    mm_map (page_addr n) PM_DIR_CLONE_ADDR PAGE_WRITE s1 = ret (PM_DIR_CLONE_ADDR, s2) \<and> clone_mapped s n s2 \<and>
    free_pages s2 = free_pages s - {n} - (if present (pde (phys s) (cr3 s) 1016) then {} else {Min (free_pages s - {n})}) \<and>
    (present (pde (phys s) (cr3 s) 1016) \<longrightarrow> pde (phys s2) (cr3 s) 1016 = pde (phys s) (cr3 s) 1016 \<and>
       (\<forall>f j. unat f mod 4096 = 0 \<longrightarrow> unat j < 1024 \<longrightarrow> f \<noteq> frame (pde (phys s) (cr3 s) 1016) \<longrightarrow>
          phys s2 (f + 4 * j) = phys s (f + 4 * j)))"
proof -
  obtain s1 where s1: "pa_alloc s = ret (page_addr n, s1)" "pg_inv s1" "free_pages s1 = free_pages s - {n}"
    "phys s1 = phys s" "cr3 s1 = cr3 s"
    using pa_alloc_inv [OF inv free] by (auto simp: n)
  have nin: "n \<in> free_pages s" using Min_in [OF finite_free_pages free] by (simp add: n)
  then have n3: "n < 3840" by (simp add: in_free_pages)
  have nz: "page_addr n \<noteq> 0"
  proof -
    have "n \<noteq> 0" using nin inv by (metis pg_inv_def)
    then show ?thesis using page_addr_props(1) [OF n3] by (metis mult_eq_0_iff unat_0 zero_neq_numeral)
  qed
  have idx: "pdindex PM_DIR_CLONE_ADDR \<noteq> 1023" by simp
  have room1: "present (pde (phys s1) (cr3 s1) (pdindex PM_DIR_CLONE_ADDR)) \<or> free_pages s1 \<noteq> {}"
    using room s1 by simp
  obtain s2 where s2: "mm_map (page_addr n) PM_DIR_CLONE_ADDR PAGE_WRITE s1 = ret (PM_DIR_CLONE_ADDR, s2)" "pg_inv s2"
    "translate (phys s2) (cr3 s2) PM_DIR_CLONE_ADDR = Some (frame (page_addr n) + (PM_DIR_CLONE_ADDR AND 0xFFF))"
    "free_pages s2 = free_pages s1 - (if present (pde (phys s1) (cr3 s1) 1016) then {} else {Min (free_pages s1)})"
    "cr3 s2 = cr3 s1" "present (pde (phys s2) (cr3 s1) 1016)"
    "frame (pde (phys s2) (cr3 s1) 1016) =
      (if present (pde (phys s1) (cr3 s1) 1016) then frame (pde (phys s1) (cr3 s1) 1016) else page_addr (Min (free_pages s1)))"
    "\<forall>k. unat k < 1024 \<longrightarrow> k \<noteq> 1016 \<longrightarrow> pde (phys s2) (cr3 s1) k = pde (phys s1) (cr3 s1) k"
    using mm_map_maps [OF s1(2) idx nz room1, of PAGE_WRITE] unfolding clone_index by (elim exE conjE) (rule that)
  have low: "PM_DIR_CLONE_ADDR AND 0xFFF = 0" using clone_indices(3) [of 0] by simp
  have tr: "translate (phys s2) (cr3 s) PM_DIR_CLONE_ADDR = Some (page_addr n)"
    using s2(3) page_addr_props(2) [OF n3] s2(5) s1(5) low by simp
  have "page_addr n \<notin> tables (phys s) (cr3 s)" using inv nin by (simp add: pg_inv_def)
  moreover have "frame (pde (phys s2) (cr3 s) 1016) \<noteq> page_addr n"
  proof (cases "present (pde (phys s) (cr3 s) 1016)")
    case True
    then show ?thesis using s2(7) s1(4,5) pg_inv_table_frame [OF inv _ True nin] by simp
  next
    case False
    then have "Min (free_pages s1) \<in> free_pages s - {n}"
      using room1 s1(3-5) Min_in [OF finite_free_pages, of s1] by simp
    then show ?thesis using False s2(7) s1(4,5) page_addr_inj [OF _ n3, of "Min (free_pages s1)"] by (auto simp: in_free_pages)
  qed
  ultimately have tabs: "page_addr n \<notin> tables (phys s2) (cr3 s)"
    using s2(8) s1(4,5) unfolding tables_def by force
  have mapped: "clone_mapped s n s2"
    using s2 s1 nin tr tabs by (simp add: clone_mapped_def)
  have same: "pde (phys s2) (cr3 s) 1016 = pde (phys s) (cr3 s) 1016 \<and>
       (\<forall>f j. unat f mod 4096 = 0 \<longrightarrow> unat j < 1024 \<longrightarrow> f \<noteq> frame (pde (phys s) (cr3 s) 1016) \<longrightarrow>
          phys s2 (f + 4 * j) = phys s (f + 4 * j))" if tab: "present (pde (phys s) (cr3 s) 1016)"
  proof -
    have tab1: "present (pde (phys s1) (cr3 s1) (pdindex PM_DIR_CLONE_ADDR))" using tab s1 by simp
    define e where "e = page_addr n OR (PAGE_WRITE AND 0xFFF) OR 0x01"
    have s2': "s2 = entry_written PM_DIR_CLONE_ADDR e s1"
      using mm_map_present [OF s1(2) nz tab1, of PAGE_WRITE] s2(1) by (simp add: e_def)
    have ph: "phys s2 = (phys s)(frame (pde (phys s) (cr3 s) 1016) + 4 * 0 := e)"
      unfolding s2' entry_written_def clone_index s1(4,5) by simp
    have "phys s2 (f + 4 * j) = phys s (f + 4 * j)"
      if "unat f mod 4096 = 0" "unat j < 1024" "f \<noteq> frame (pde (phys s) (cr3 s) 1016)" for f j
      using slot_inject [OF that(1) frame_mod that(2), of 0] that(3) unfolding ph by simp
    moreover have "pde (phys s2) (cr3 s1) 1016 = pde (phys s1) (cr3 s1) 1016"
      unfolding s2' by (rule entry_written_props(2) [OF s1(2) idx tab1]) simp
    ultimately show ?thesis using s1 by simp
  qed
  have pages: "free_pages s2 = free_pages s - {n} - (if present (pde (phys s) (cr3 s) 1016) then {} else {Min (free_pages s - {n})})"
    using s2(4) s1(3-5) by simp
  show ?thesis
    by (intro exI [of _ s1] exI [of _ s2] conjI impI s1(1) s2(1) mapped pages same [THEN conjunct1] same [THEN conjunct2])
qed

lemma clone_mappedD:
  assumes "clone_mapped s n s2"
  shows "pg_inv s2" "cr3 s2 = cr3 s" "n < 3840" "unat (page_addr n) mod 4096 = 0" "page_addr n \<noteq> frame (cr3 s)"
    "unat i < 1024 \<Longrightarrow> present (pde (phys s2) (cr3 s) i) \<Longrightarrow> frame (pde (phys s2) (cr3 s) i) \<noteq> page_addr n"
    "translate (phys s2) (cr3 s) PM_DIR_CLONE_ADDR = Some (page_addr n)" "present (pde (phys s2) (cr3 s) 1016)"
    "self_map (phys s2) (cr3 s)"
proof -
  note m = assms [unfolded clone_mapped_def]
  show inv: "pg_inv s2" "cr3 s2 = cr3 s" "n < 3840" "translate (phys s2) (cr3 s) PM_DIR_CLONE_ADDR = Some (page_addr n)"
    "present (pde (phys s2) (cr3 s) 1016)"
    using m by (simp_all add: in_free_pages)
  then show "self_map (phys s2) (cr3 s)" by (simp add: pg_inv_def)
  show "unat (page_addr n) mod 4096 = 0" by (simp add: page_addr_props(1) [OF inv(3)])
  show tab: "unat i < 1024 \<Longrightarrow> present (pde (phys s2) (cr3 s) i) \<Longrightarrow> frame (pde (phys s2) (cr3 s) i) \<noteq> page_addr n" for i
  proof -
    assume "unat i < 1024" "present (pde (phys s2) (cr3 s) i)"
    then have "frame (pde (phys s2) (cr3 s) i) \<in> tables (phys s2) (cr3 s)" unfolding tables_def by blast
    then show ?thesis using m by metis
  qed
  show "page_addr n \<noteq> frame (cr3 s)"
    using tab [of 1023] \<open>self_map (phys s2) (cr3 s)\<close> by (simp add: self_map_def pde_def)
qed

text \<open>Writes into the page in the window.\<close>

lemma clone_mapped_page:
  assumes m: "clone_mapped s n s2"
    and same: "\<And>f j. unat f mod 4096 = 0 \<Longrightarrow> unat j < 1024 \<Longrightarrow> f \<noteq> page_addr n \<Longrightarrow> ph (f + 4 * j) = phys s2 (f + 4 * j)"
  shows "clone_mapped s n (s2\<lparr>phys := ph\<rparr>)" and "\<And>k. unat k < 1024 \<Longrightarrow> pde ph (cr3 s) k = pde (phys s2) (cr3 s) k"
proof -
  note d = clone_mappedD [OF m]
  show dir: "pde ph (cr3 s) k = pde (phys s2) (cr3 s) k" if "unat k < 1024" for k
    unfolding pde_def by (rule same [OF frame_mod that]) (use d(5) in simp)
  have inv: "pg_inv (s2\<lparr>phys := ph\<rparr>)"
    by (rule pg_inv_phys [OF d(1)]) (simp add: d(2) dir)
  have tabs: "tables ph (cr3 s) = tables (phys s2) (cr3 s)" by (rule dir_unchanged(2)) (rule dir)
  have t: "frame (pde (phys s2) (cr3 s) 1016) \<noteq> page_addr n" by (rule d(6)) (simp_all add: d(8))
  have cell: "ph (frame (pde (phys s2) (cr3 s) 1016) + 4 * ptindex PM_DIR_CLONE_ADDR) =
      phys s2 (frame (pde (phys s2) (cr3 s) 1016) + 4 * ptindex PM_DIR_CLONE_ADDR)"
    by (rule same [OF frame_mod ptindex_bound t])
  have p: "pde ph (cr3 s) 1016 = pde (phys s2) (cr3 s) 1016" by (rule dir) simp
  have "translate ph (cr3 s) PM_DIR_CLONE_ADDR = translate (phys s2) (cr3 s) PM_DIR_CLONE_ADDR"
    unfolding translate_pde clone_index(1) p cell ..
  then show "clone_mapped s n (s2\<lparr>phys := ph\<rparr>)"
    using m inv tabs dir [of 1016] dir unfolding clone_mapped_def by simp
qed

lemma clone_copy:
  assumes m: "clone_mapped s n s2" and i: "unat i < 1024"
  shows "vmemcpy PM_DIR_CLONE_ADDR (pt_va i 0) 4096 s2 =
    (if present (pde (phys s2) (cr3 s) i)
     then ret (s2\<lparr>phys := memcpy (phys s2) (page_addr n) (frame (pde (phys s2) (cr3 s) i)) 4096\<rparr>)
     else fail (PageFault (pt_va i 0)))"
proof -
  note d = clone_mappedD [OF m]
  have va: "unat (pt_va i 0) = 4290772992 + 4096 * unat i" using pt_va_unat [OF i, of 0] by simp
  have win: "in_window (pt_va i 0 + of_nat j) i j" if j: "j < 4096" for j
  proof -
    have "unat (of_nat j :: u32) = j" using j by (simp add: unat_of_nat)
    then have "unat (pt_va i 0 + of_nat j) = 4290772992 + 4096 * unat i + j"
      using unat_add_small [of "pt_va i 0" "of_nat j"] va i j by simp
    then show ?thesis using i j by (simp add: in_window_def)
  qed
  note tr = translate_window [OF d(9) win]
  show ?thesis
  proof (cases "present (pde (phys s2) (cr3 s) i)")
    case True
    have "vmemcpy PM_DIR_CLONE_ADDR (pt_va i 0) (of_nat 4096) s2 =
      ret (s2\<lparr>phys := memcpy (phys s2) (page_addr n + of_nat 0) (frame (pde (phys s2) (cr3 s) i) + of_nat 0) (of_nat 4096)\<rparr>)"
    proof (rule vmemcpy_page [OF d(4)])
      show "frame (cr3 s2) \<noteq> page_addr n" using d(2,5) by simp
      fix j :: nat assume j: "j < 4096"
      show "translate (phys s2) (cr3 s2) (PM_DIR_CLONE_ADDR + of_nat j) = Some (page_addr n + of_nat (0 + j))"
        using translate_clone [OF d(7) j] d(2) by simp
      show "frame (pde (phys s2) (cr3 s2) (pdindex (PM_DIR_CLONE_ADDR + of_nat j))) \<noteq> page_addr n"
        using d(6) [OF _ d(8)] d(2) clone_indices(1) [OF j] by simp
      show "translate (phys s2) (cr3 s2) (pt_va i 0 + of_nat j) = Some (frame (pde (phys s2) (cr3 s) i) + of_nat (0 + j))"
        using tr [OF j] True d(2) by (simp add: pde_def)
      show "frame (pde (phys s2) (cr3 s2) (pdindex (pt_va i 0 + of_nat j))) \<noteq> page_addr n"
        using d(9,5) d(2) window_indices(1) [OF win [OF j]] by (simp add: self_map_def pde_def)
    qed simp
    then show ?thesis using True by simp
  next
    case False
    have "vload8 (pt_va i 0) s2 = fail (PageFault (pt_va i 0))"
      using tr [of 0] False d(2) by (simp add: vload8_def pde_def)
    then show ?thesis using False by (simp add: vmemcpy.simps)
  qed
qed

section \<open>One table, and the loop\<close>

lemma clone_pt:
  assumes i: "unat i < 1024"
  shows "0xFFC00000 + 4 * (0x400 * i) = pt_va i 0" "pt_va i 0 \<noteq> 0" "pt_va i 0 AND 0xFFFFF000 = pt_va i 0" "pt_va i 0 AND 0x7 = 0"
proof -
  show "0xFFC00000 + 4 * (0x400 * i) = pt_va i 0" by (simp add: pt_va_def)
  have va: "unat (pt_va i 0) = 4096 * (1047552 + unat i)" using pt_va_unat [OF i, of 0] by simp
  then have "unat (pt_va i 0) \<noteq> 0" by simp
  then show "pt_va i 0 \<noteq> 0" by auto
  have "frame (pt_va i 0) = pt_va i 0" by (simp add: frame_aligned va)
  moreover have "(0xFFFFF000 :: u32) = NOT 0xFFF" by simp
  ultimately show "pt_va i 0 AND 0xFFFFF000 = pt_va i 0" by (simp only: frame_def)
  have "unat (pt_va i 0 AND 0x7) = unat (pt_va i 0) mod 8"
    using unat_and_mask [of "pt_va i 0" 3] by (simp add: mask_eq_exp_minus_1)
  also have "\<dots> = 0" by (simp add: va mod_mult_left_eq [symmetric])
  finally show "pt_va i 0 AND 0x7 = 0" by (simp add: unat_eq_zero)
qed

lemma clone_table_step:
  fixes s :: "'a paging_state_scheme"
  assumes inv: "pg_inv s" and window: "present (pde (phys s) (cr3 s) 1016)" and free: "free_pages s \<noteq> {}"
    and n: "n = Min (free_pages s)" and i: "unat i < 1024"
  shows "if present (pde (phys s) (cr3 s) i)
    then \<exists>s'. clone_table PM_DIR_CLONE_ADDR i s = ret s' \<and> pg_inv s' \<and> cr3 s' = cr3 s \<and> free_pages s' = free_pages s - {n} \<and>
      (\<forall>k. unat k < 1024 \<longrightarrow> pde (phys s') (cr3 s) k = pde (phys s) (cr3 s) k) \<and>
      (\<forall>f j. unat f mod 4096 = 0 \<longrightarrow> unat j < 1024 \<longrightarrow> f \<noteq> page_addr n \<longrightarrow> f \<noteq> frame (pde (phys s) (cr3 s) 1016) \<longrightarrow>
         phys s' (f + 4 * j) = phys s (f + 4 * j))
    else clone_table PM_DIR_CLONE_ADDR i s = fail (PageFault (pt_va i 0))"
proof -
  obtain s1 s2 where s2: "pa_alloc s = ret (page_addr n, s1)"
    "mm_map (page_addr n) PM_DIR_CLONE_ADDR PAGE_WRITE s1 = ret (PM_DIR_CLONE_ADDR, s2)" "clone_mapped s n s2"
    "free_pages s2 = free_pages s - {n}" "pde (phys s2) (cr3 s) 1016 = pde (phys s) (cr3 s) 1016"
    "\<forall>f j. unat f mod 4096 = 0 \<longrightarrow> unat j < 1024 \<longrightarrow> f \<noteq> frame (pde (phys s) (cr3 s) 1016) \<longrightarrow>
       phys s2 (f + 4 * j) = phys s (f + 4 * j)"
    using clone_map [OF inv free n] window by auto
  note d = clone_mappedD [OF s2(3)]
  have pde2: "pde (phys s2) (cr3 s) k = pde (phys s) (cr3 s) k" if "unat k < 1024" for k
    using s2(3,5) that unfolding clone_mapped_def by metis
  have body: "clone_table PM_DIR_CLONE_ADDR i s =
      bnd (vmemcpy PM_DIR_CLONE_ADDR (pt_va i 0) 4096 s2) (vwrite (PM_DIR_CLONE_ADDR + 4 * i) (page_addr n))"
    using clone_pt [OF i] s2(1,2) by (simp add: clone_table_def Let_def)
  show ?thesis
  proof (cases "present (pde (phys s) (cr3 s) i)")
    case False
    then show ?thesis using clone_copy [OF s2(3) i] pde2 [OF i] by (simp add: body)
  next
    case True
    let ?g = "frame (pde (phys s) (cr3 s) i)"
    define ph where "ph = memcpy (phys s2) (page_addr n) ?g 4096"
    define ph' where "ph' = ph(page_addr n + 4 * i := page_addr n)"
    have g: "page_addr n \<noteq> ?g" using d(6) [OF i] True pde2 [OF i] by simp
    have ph: "ph (f + 4 * j) = phys s2 (f + 4 * j)" if "unat f mod 4096 = 0" "unat j < 1024" "f \<noteq> page_addr n" for f j
      unfolding ph_def using memcpy_page_slot [OF d(4) frame_mod that(1,2) g] that(3) by simp
    have ph': "ph' (f + 4 * j) = phys s2 (f + 4 * j)" if "unat f mod 4096 = 0" "unat j < 1024" "f \<noteq> page_addr n" for f j
      unfolding ph'_def using slot_inject [OF that(1) d(4) that(2) i] ph [OF that] that(3) by simp
    have m: "clone_mapped s n (s2\<lparr>phys := ph\<rparr>)" by (rule clone_mapped_page(1) [OF s2(3)]) (rule ph)
    have m': "clone_mapped s n (s2\<lparr>phys := ph'\<rparr>)" by (rule clone_mapped_page(1) [OF s2(3)]) (rule ph')
    have dir: "pde ph' (cr3 s) k = pde (phys s2) (cr3 s) k" if "unat k < 1024" for k
      by (rule clone_mapped_page(2) [OF s2(3) _ that]) (rule ph')
    have "vmemcpy PM_DIR_CLONE_ADDR (pt_va i 0) 4096 s2 = ret (s2\<lparr>phys := ph\<rparr>)"
      using clone_copy [OF s2(3) i] True pde2 [OF i] by (simp add: ph_def)
    moreover have "translate ph (cr3 s2) (PM_DIR_CLONE_ADDR + 4 * i) = Some (page_addr n + 4 * i)"
      using translate_clone [OF clone_mappedD(7) [OF m], of "4 * unat i"] i d(2) by simp
    ultimately have "clone_table PM_DIR_CLONE_ADDR i s = ret (s2\<lparr>phys := ph'\<rparr>)"
      unfolding body by (simp add: vwrite_def ph'_def)
    moreover have "pg_inv (s2\<lparr>phys := ph'\<rparr>)" by (rule clone_mappedD(1) [OF m'])
    moreover have "pde ph' (cr3 s) k = pde (phys s) (cr3 s) k" if "unat k < 1024" for k
      using dir [OF that] pde2 [OF that] by simp
    moreover have "ph' (f + 4 * j) = phys s (f + 4 * j)"
      if "unat f mod 4096 = 0" "unat j < 1024" "f \<noteq> page_addr n" "f \<noteq> frame (pde (phys s) (cr3 s) 1016)" for f j
      using ph' [OF that(1-3)] s2(6) that by simp
    ultimately show ?thesis
      using True d(2) s2(4) by (simp add: free_pages_phys)
  qed
qed

text \<open>The loop, from table \<open>i\<close> on: it ends when every table is present, and else faults on the first that is not.\<close>

lemma clone_tables_loop:
  fixes s :: "'a paging_state_scheme"
  assumes "pg_inv s" and "present (pde (phys s) (cr3 s) 1016)" and "1024 \<le> i + card (free_pages s)"
  shows "if \<forall>k. i \<le> unat k \<and> unat k < 1024 \<longrightarrow> present (pde (phys s) (cr3 s) k)
    then \<exists>s'. clone_tables PM_DIR_CLONE_ADDR i s = ret s' \<and> pg_inv s' \<and> cr3 s' = cr3 s \<and>
      (\<forall>f j. unat f mod 4096 = 0 \<longrightarrow> unat j < 1024 \<longrightarrow> f \<notin> page_addr ` free_pages s \<longrightarrow>
         f \<noteq> frame (pde (phys s) (cr3 s) 1016) \<longrightarrow> phys s' (f + 4 * j) = phys s (f + 4 * j))
    else \<exists>k. i \<le> unat k \<and> unat k < 1024 \<and> \<not> present (pde (phys s) (cr3 s) k) \<and>
      clone_tables PM_DIR_CLONE_ADDR i s = fail (PageFault (pt_va k 0))"
  using assms
proof (induction "1024 - i" arbitrary: i s)
  case 0
  then show ?case by (simp add: clone_tables.simps)
next
  case (Suc d)
  then have i: "i < 1024" by simp
  define w where "w = (of_nat i :: u32)"
  have w: "unat w = i" using i by (simp add: w_def unat_of_nat)
  then have w': "unat w < 1024" using i by simp
  have free: "free_pages s \<noteq> {}" using Suc.prems(3) i by auto
  define n where "n = Min (free_pages s)"
  have nin: "n \<in> free_pages s" using Min_in [OF finite_free_pages free] by (simp add: n_def)
  have loop: "clone_tables PM_DIR_CLONE_ADDR i s = bnd (clone_table PM_DIR_CLONE_ADDR w s) (clone_tables PM_DIR_CLONE_ADDR (i + 1))"
    using i by (subst clone_tables.simps) (simp add: w_def)
  note step = clone_table_step [OF Suc.prems(1,2) free n_def w']
  show ?case
  proof (cases "present (pde (phys s) (cr3 s) w)")
    case False
    then have "clone_tables PM_DIR_CLONE_ADDR i s = fail (PageFault (pt_va w 0))" using step loop by simp
    then show ?thesis using False w i by (auto intro: exI [of _ w])
  next
    case True
    obtain s1 where s1: "clone_table PM_DIR_CLONE_ADDR w s = ret s1" "pg_inv s1" "cr3 s1 = cr3 s" "free_pages s1 = free_pages s - {n}"
      "\<forall>k. unat k < 1024 \<longrightarrow> pde (phys s1) (cr3 s) k = pde (phys s) (cr3 s) k"
      "\<forall>f j. unat f mod 4096 = 0 \<longrightarrow> unat j < 1024 \<longrightarrow> f \<noteq> page_addr n \<longrightarrow> f \<noteq> frame (pde (phys s) (cr3 s) 1016) \<longrightarrow>
         phys s1 (f + 4 * j) = phys s (f + 4 * j)"
      using step [unfolded if_P [OF True]] by (elim exE conjE) (rule that)
    have card: "1024 \<le> (i + 1) + card (free_pages s1)"
      using Suc.prems(3) nin by (simp add: s1(4) card_Diff_singleton)
    have win: "present (pde (phys s1) (cr3 s1) 1016)" using s1(3,5) Suc.prems(2) by simp
    have d: "d = 1024 - (i + 1)" using Suc.hyps(2) by simp
    note IH = Suc.hyps(1) [OF d s1(2) win card]
    have eq: "clone_tables PM_DIR_CLONE_ADDR i s = clone_tables PM_DIR_CLONE_ADDR (i + 1) s1" by (simp add: loop s1(1))
    have split: "(i \<le> unat k \<and> unat k < 1024) \<longleftrightarrow> k = w \<or> (i + 1 \<le> unat k \<and> unat k < 1024)" for k
      using w w' by (auto simp: word_unat_eq_iff)
    have all: "(\<forall>k. i \<le> unat k \<and> unat k < 1024 \<longrightarrow> present (pde (phys s) (cr3 s) k)) \<longleftrightarrow>
        (\<forall>k. i + 1 \<le> unat k \<and> unat k < 1024 \<longrightarrow> present (pde (phys s1) (cr3 s1) k))"
      using True s1(3,5) split by metis
    show ?thesis
    proof (cases "\<forall>k. i + 1 \<le> unat k \<and> unat k < 1024 \<longrightarrow> present (pde (phys s1) (cr3 s1) k)")
      case yes: True
      obtain s' where s': "clone_tables PM_DIR_CLONE_ADDR (i + 1) s1 = ret s'" "pg_inv s'" "cr3 s' = cr3 s1"
        "\<forall>f j. unat f mod 4096 = 0 \<longrightarrow> unat j < 1024 \<longrightarrow> f \<notin> page_addr ` free_pages s1 \<longrightarrow>
         f \<noteq> frame (pde (phys s1) (cr3 s1) 1016) \<longrightarrow> phys s' (f + 4 * j) = phys s1 (f + 4 * j)"
        using IH [unfolded if_P [OF yes]] by (elim exE conjE) (rule that)
      have "phys s' (f + 4 * j) = phys s (f + 4 * j)" if f: "unat f mod 4096 = 0" "unat j < 1024"
        "f \<notin> page_addr ` free_pages s" "f \<noteq> frame (pde (phys s) (cr3 s) 1016)" for f j
      proof -
        have "f \<noteq> page_addr n" "f \<notin> page_addr ` free_pages s1" using f(3) nin s1(4) by auto
        then show ?thesis using s'(4) s1(3,5,6) f by simp
      qed
      then show ?thesis
        unfolding all if_P [OF yes] eq using s' s1(3) by (intro exI [of _ s']) simp
    next
      case no: False
      obtain k where k: "i + 1 \<le> unat k" "unat k < 1024" "\<not> present (pde (phys s1) (cr3 s1) k)"
        "clone_tables PM_DIR_CLONE_ADDR (i + 1) s1 = fail (PageFault (pt_va k 0))"
        using IH [unfolded if_not_P [OF no]] by (elim exE conjE) (rule that)
      then show ?thesis
        unfolding all if_not_P [OF no] eq using s1(3,5) by (intro exI [of _ k]) simp
    qed
  qed
qed

section \<open>The directory\<close>

text \<open>Up to the loop: the new page \<open>n\<close> holds a copy of the directory, taken when the table of the window is there.\<close>

lemma clone_start:
  fixes s :: "'a paging_state_scheme"
  assumes inv: "pg_inv s" and room: "1026 \<le> card (free_pages s)" and n_def: "n = Min (free_pages s)"
  shows "\<exists>s3. clone_actual_directory s = bnd (clone_tables PM_DIR_CLONE_ADDR 0 s3) (\<lambda>s. ret (page_addr n, s)) \<and>
    clone_mapped s n s3 \<and> free_pages s3 \<subseteq> free_pages s - {n} \<and> 1024 \<le> card (free_pages s3) \<and>
    (\<forall>k. unat k < 1024 \<longrightarrow> phys s3 (page_addr n + 4 * k) = pde (phys s3) (cr3 s) k)"
proof -
  have free: "free_pages s \<noteq> {}" using room by auto
  have "n \<in> free_pages s" using Min_in [OF finite_free_pages free] by (simp add: n_def)
  then have c1: "1025 \<le> card (free_pages s - {n})" using room by (simp add: card_Diff_singleton)
  then have ne: "free_pages s - {n} \<noteq> {}" by (metis card.empty not_numeral_le_zero)
  have "\<exists>s1 s2. pa_alloc s = ret (page_addr n, s1) \<and>
    mm_map (page_addr n) PM_DIR_CLONE_ADDR PAGE_WRITE s1 = ret (PM_DIR_CLONE_ADDR, s2) \<and> clone_mapped s n s2 \<and>
    free_pages s2 = free_pages s - {n} - (if present (pde (phys s) (cr3 s) 1016) then {} else {Min (free_pages s - {n})})"
    using clone_map [OF inv free n_def] ne by metis
  then obtain s1 s2 where s2: "pa_alloc s = ret (page_addr n, s1)"
    "mm_map (page_addr n) PM_DIR_CLONE_ADDR PAGE_WRITE s1 = ret (PM_DIR_CLONE_ADDR, s2)" "clone_mapped s n s2"
    "free_pages s2 = free_pages s - {n} - (if present (pde (phys s) (cr3 s) 1016) then {} else {Min (free_pages s - {n})})"
    by (elim exE conjE) (rule that)
  note d = clone_mappedD [OF s2(3)]
  have g: "frame (pde (phys s2) (cr3 s) 1023) = frame (cr3 s)" "present (pde (phys s2) (cr3 s) 1023)"
    using d(9) by (simp_all add: self_map_def pde_def)
  define ph where "ph = memcpy (phys s2) (page_addr n) (frame (cr3 s)) 4096"
  have cell: "ph (f + 4 * j) = (if f = page_addr n then phys s2 (frame (cr3 s) + 4 * j) else phys s2 (f + 4 * j))"
    if "unat f mod 4096 = 0" "unat j < 1024" for f j
    unfolding ph_def by (rule memcpy_page_slot [OF d(4) frame_mod that d(5)])
  have m: "clone_mapped s n (s2\<lparr>phys := ph\<rparr>)" by (rule clone_mapped_page(1) [OF s2(3)]) (simp add: cell)
  have "(0xFFFFF000 :: u32) = pt_va 1023 0" by (simp add: pt_va_def)
  then have "vmemcpy PM_DIR_CLONE_ADDR 0xFFFFF000 4096 s2 = ret (s2\<lparr>phys := ph\<rparr>)"
    using clone_copy [OF s2(3), of 1023] g by (simp add: ph_def)
  then have "clone_actual_directory s = bnd (clone_tables PM_DIR_CLONE_ADDR 0 (s2\<lparr>phys := ph\<rparr>)) (\<lambda>s. ret (page_addr n, s))"
    using s2(1,2) by (simp add: clone_actual_directory_def)
  moreover have "1024 \<le> card (free_pages s2)"
    using c1 card_Diff_singleton [OF Min_in [OF _ ne]] unfolding s2(4) by (auto split: if_splits)
  moreover have "free_pages s2 \<subseteq> free_pages s - {n}" using s2(4) by auto
  moreover have "ph (page_addr n + 4 * k) = pde ph (cr3 s) k" if "unat k < 1024" for k
    using cell [OF d(4) that] cell [OF frame_mod that, of "cr3 s"] by (simp add: pde_def)
  ultimately show ?thesis using m by (intro exI [of _ "s2\<lparr>phys := ph\<rparr>"]) (simp add: free_pages_phys)
qed

text \<open>The loop leaves both directories as they are.\<close>

lemma clone_loop_dirs:
  assumes m: "clone_mapped s n s3" and sub: "free_pages s3 \<subseteq> free_pages s - {n}"
    and same: "\<forall>f j. unat f mod 4096 = 0 \<longrightarrow> unat j < 1024 \<longrightarrow> f \<notin> page_addr ` free_pages s3 \<longrightarrow>
      f \<noteq> frame (pde (phys s3) (cr3 s3) 1016) \<longrightarrow> phys s' (f + 4 * j) = phys s3 (f + 4 * j)"
    and k: "unat k < 1024"
  shows "pde (phys s') (cr3 s) k = pde (phys s3) (cr3 s) k" and "phys s' (page_addr n + 4 * k) = phys s3 (page_addr n + 4 * k)"
proof -
  note d = clone_mappedD [OF m]
  have new: "page_addr n \<notin> page_addr ` free_pages s3"
  proof
    assume "page_addr n \<in> page_addr ` free_pages s3"
    then obtain q where q: "page_addr n = page_addr q" "q \<in> free_pages s3" by blast
    then have "q < 3840" by (simp add: in_free_pages)
    then have "n = q" using q(1) page_addr_inj [OF d(3), of q] by simp
    then show False using q(2) sub by auto
  qed
  have old: "frame (cr3 s) \<notin> page_addr ` free_pages s3" using pdir_not_free [OF d(1)] d(2) by force
  have t: "frame (pde (phys s3) (cr3 s) 1016) \<noteq> page_addr n" by (rule d(6)) (simp_all add: d(8))
  have t': "frame (pde (phys s3) (cr3 s) 1016) \<noteq> frame (cr3 s)" using d(1,2,8) by (simp add: pg_inv_def)
  show "pde (phys s') (cr3 s) k = pde (phys s3) (cr3 s) k"
    unfolding pde_def using same frame_mod k old t' d(2) by metis
  show "phys s' (page_addr n + 4 * k) = phys s3 (page_addr n + 4 * k)"
    using same d(4) k new t d(2) by metis
qed

section \<open>Properties\<close>

text \<open>A machine with the directory and one table above the memory of the allocator, and the 2560 pages from 5 MiB on free.\<close>

definition clone_demo :: paging_state where
  "clone_demo = pa_state.extend (cold_pa\<lparr>LowRamBitF := replicate 40 0 @ replicate 80 0xFFFFFFFF, LowRamFreeCount := 2560\<rparr>)
     (paging_state.fields ((\<lambda>a. 0)(0x1000000 + 4 * 1023 := 0x1000007, 0x1000000 + 4 * 0 := 0x1001007)) 0x1000000 0x1000000 [])"

lemma clone_demo_free: "free_pages clone_demo = {1280..<3840}"
proof -
  have "bit ((replicate 40 0 @ replicate 80 (0xFFFFFFFF :: u32)) ! (p div 32)) (p mod 32) \<longleftrightarrow> 1280 \<le> p" if "p < 3840" for p
  proof (cases "p < 1280")
    case True
    then have "p div 32 < 40" by simp
    then show ?thesis using True by (simp add: nth_append)
  next
    case False
    then have "40 \<le> p div 32" "p div 32 < 120" using that by simp_all
    moreover have "bit (0xFFFFFFFF :: u32) (p mod 32)"
    proof -
      have "(0xFFFFFFFF :: u32) = - 1" by simp
      then show ?thesis by (simp only: bit_minus_1_iff) simp
    qed
    ultimately show ?thesis using False by (simp add: nth_append)
  qed
  then show ?thesis
    by (auto simp: in_free_pages clone_demo_def pa_state.extend_def)
qed

lemma clone_demo_pde:
  assumes "unat i < 1024"
  shows "pde (phys clone_demo) (cr3 clone_demo) i = (if i = 0 then 0x1001007 else if i = 1023 then 0x1000007 else 0)"
proof -
  have f: "frame 0x1000000 = 0x1000000" by (simp add: frame_def)
  have "0x1000000 + 4 * i = 0x1000000 + 4 * (1023 :: u32) \<longleftrightarrow> i = 1023" "0x1000000 + 4 * i = 0x1000000 + 4 * (0 :: u32) \<longleftrightarrow> i = 0"
    using slot_inject [of "0x1000000" "0x1000000" i 1023] slot_inject [of "0x1000000" "0x1000000" i 0] assms by (simp_all del: mult_zero_right)
  then show ?thesis
    by (simp add: pde_def clone_demo_def pa_state.extend_def paging_state.fields_def f fun_upd_apply del: mult_zero_right)
qed

lemma clone_demo_inv: "pg_inv clone_demo"
proof -
  have c: "cr3 clone_demo = 0x1000000" by (simp add: clone_demo_def pa_state.extend_def paging_state.fields_def)
  have fr: "frame 0x1001007 = 0x1001000" "frame 0x1000007 = 0x1000000" "frame 0x1000000 = 0x1000000"
    "present 0x1001007" "present 0x1000007" "\<not> present 0"
    by (simp_all add: frame_def present_def)
  have wf: "pa_wf clone_demo"
    unfolding pa_wf_def clone_demo_free by (simp add: clone_demo_def pa_state.extend_def PM_LOW_PAGE_COUNT_def)
  have self: "self_map (phys clone_demo) (cr3 clone_demo)"
    using clone_demo_pde [of 1023] by (simp add: self_map_def pde_def c fr)
  have tabs: "tables (phys clone_demo) (cr3 clone_demo) \<subseteq> {0x1001000, 0x1000000}"
    using clone_demo_pde fr by (auto simp: tables_def split: if_splits)
  have "page_addr p \<notin> tables (phys clone_demo) (cr3 clone_demo)" if "p \<in> free_pages clone_demo" for p
  proof
    assume "page_addr p \<in> tables (phys clone_demo) (cr3 clone_demo)"
    then have "unat (page_addr p) \<in> {0x1001000, 0x1000000}" using tabs by auto
    then show False using that page_addr_props(1) [of p] by (auto simp: clone_demo_free)
  qed
  moreover have "frame (pde (phys clone_demo) (cr3 clone_demo) i) \<noteq> frame (cr3 clone_demo)"
    if "unat i < 1023" "present (pde (phys clone_demo) (cr3 clone_demo) i)" for i
  proof -
    have "i \<noteq> 1023" using that(1) by auto
    then show ?thesis using that clone_demo_pde [of i] fr by (auto simp: c split: if_splits)
  qed
  ultimately show ?thesis using wf self by (simp add: pg_inv_def clone_demo_free)
qed

text \<open>C28. \<open>clone_actual_directory\<close> with enough free pages clones no table. When the directory has a table for every entry
  (but possibly that of the window), it returns the lowest free page with a copy of the directory's entries, so both directories share
  every table, and even the recursive entry leads back to the old directory. When a table is absent,
  its test does not see it: the copy faults on that table, and the caller gets no directory.\<close>

theorem clone_directory_copies_no_table:
  fixes s :: "'a paging_state_scheme"
  assumes inv: "pg_inv s" and room: "1026 \<le> card (free_pages s)"
  shows "if \<forall>k. unat k < 1024 \<and> k \<noteq> 1016 \<longrightarrow> present (pde (phys s) (cr3 s) k)
    then \<exists>s'. clone_actual_directory s = ret (page_addr (Min (free_pages s)), s') \<and> pg_inv s' \<and> cr3 s' = cr3 s \<and>
      (\<forall>k. unat k < 1024 \<longrightarrow> pde (phys s') (page_addr (Min (free_pages s))) k = pde (phys s') (cr3 s) k \<and>
         (k \<noteq> 1016 \<longrightarrow> pde (phys s') (cr3 s) k = pde (phys s) (cr3 s) k))
    else \<exists>k. unat k < 1024 \<and> k \<noteq> 1016 \<and> \<not> present (pde (phys s) (cr3 s) k) \<and>
      clone_actual_directory s = fail (PageFault (pt_va k 0))"
proof -
  define n where "n = Min (free_pages s)"
  obtain s3 where s3: "clone_actual_directory s = bnd (clone_tables PM_DIR_CLONE_ADDR 0 s3) (\<lambda>s. ret (page_addr n, s))"
    "clone_mapped s n s3" "free_pages s3 \<subseteq> free_pages s - {n}" "1024 \<le> card (free_pages s3)"
    "\<forall>k. unat k < 1024 \<longrightarrow> phys s3 (page_addr n + 4 * k) = pde (phys s3) (cr3 s) k"
    using clone_start [OF inv room n_def] by (elim exE conjE) (rule that)
  note d3 = clone_mappedD [OF s3(2)]
  have room3: "1024 \<le> 0 + card (free_pages s3)" using s3(4) by simp
  have win: "present (pde (phys s3) (cr3 s3) 1016)" using d3(2,8) by simp
  note loop = clone_tables_loop [OF d3(1) win room3]
  have pde3: "pde (phys s3) (cr3 s) k = pde (phys s) (cr3 s) k" if "unat k < 1024" "k \<noteq> 1016" for k
    using s3(2) that unfolding clone_mapped_def by blast
  have all: "(\<forall>k. 0 \<le> unat k \<and> unat k < 1024 \<longrightarrow> present (pde (phys s3) (cr3 s3) k)) \<longleftrightarrow>
      (\<forall>k. unat k < 1024 \<and> k \<noteq> 1016 \<longrightarrow> present (pde (phys s) (cr3 s) k))"
    using pde3 d3(2,8) by (metis zero_le)
  show ?thesis
  proof (cases "\<forall>k. unat k < 1024 \<and> k \<noteq> 1016 \<longrightarrow> present (pde (phys s) (cr3 s) k)")
    case True
    obtain s' where s': "clone_tables PM_DIR_CLONE_ADDR 0 s3 = ret s'" "pg_inv s'" "cr3 s' = cr3 s3"
      "\<forall>f j. unat f mod 4096 = 0 \<longrightarrow> unat j < 1024 \<longrightarrow> f \<notin> page_addr ` free_pages s3 \<longrightarrow>
         f \<noteq> frame (pde (phys s3) (cr3 s3) 1016) \<longrightarrow> phys s' (f + 4 * j) = phys s3 (f + 4 * j)"
      using loop [unfolded all if_P [OF True]] by (elim exE conjE) (rule that)
    note dirs = clone_loop_dirs [OF s3(2,3) s'(4)]
    have "pde (phys s') (page_addr n) k = pde (phys s') (cr3 s) k" if "unat k < 1024" for k
      using dirs [OF that] s3(5) that page_addr_props(2) [OF d3(3)] by (simp add: pde_def)
    then show ?thesis
      unfolding if_P [OF True] n_def [symmetric] s3(1) s'(1)
      using s'(2,3) d3(2) dirs(1) pde3 by (intro exI [of _ s']) simp
  next
    case False
    obtain k where k: "unat k < 1024" "\<not> present (pde (phys s3) (cr3 s3) k)"
      "clone_tables PM_DIR_CLONE_ADDR 0 s3 = fail (PageFault (pt_va k 0))"
      using loop [unfolded all if_not_P [OF False]] by (elim exE conjE) (rule that)
    then have "k \<noteq> 1016" using win by auto
    then show ?thesis
      unfolding if_not_P [OF False] s3(1) k(3) using k(1,2) pde3 d3(2) by (intro exI [of _ k]) simp
  qed
qed

theorem clone_directory_copies_no_table_witness:
  "\<exists>k. k \<noteq> 0 \<and> clone_actual_directory clone_demo = fail (PageFault (pt_va k 0))"
proof -
  have p: "present 0x1001007" "\<not> present 0" by (simp_all add: present_def)
  have "\<not> (\<forall>k. unat k < 1024 \<and> k \<noteq> 1016 \<longrightarrow> present (pde (phys clone_demo) (cr3 clone_demo) k))"
    using clone_demo_pde [of 1] p by (intro notI) (drule spec [of _ 1], simp)
  moreover have "1026 \<le> card (free_pages clone_demo)" by (simp add: clone_demo_free)
  ultimately have "\<exists>k. unat k < 1024 \<and> k \<noteq> 1016 \<and> \<not> present (pde (phys clone_demo) (cr3 clone_demo) k) \<and>
      clone_actual_directory clone_demo = fail (PageFault (pt_va k 0))"
    using clone_directory_copies_no_table [OF clone_demo_inv] by (simp only: if_False)
  then obtain k where k: "unat k < 1024" "\<not> present (pde (phys clone_demo) (cr3 clone_demo) k)"
      "clone_actual_directory clone_demo = fail (PageFault (pt_va k 0))"
    by (elim exE conjE) (rule that)
  then have "k \<noteq> 0" using clone_demo_pde [of k] p by auto
  then show ?thesis using k(3) by blast
qed

end
