(* ===== verification/PageOps.thy ===== *)
theory PageOps
  imports HeapPages
begin

text \<open>
  mm.c, the operations on pages and tables in any order, as a small language: each keeps the memory of the tables well typed (\<open>pg_inv\<close>: a
  page is free or the directory or a page table, and not two of these), and goes wrong only where \<open>page_error\<close> says so, by the two
  errors that the code has, an empty page allocator and a table that is not there.
\<close>

section \<open>Operations and runs\<close>

datatype page_op = Alloc | Free u32 | Map u32 u32 u32 | Unmap u32 | Lookup u32

definition page_do :: "page_op \<Rightarrow> 'a paging_state_scheme \<Rightarrow> 'a paging_state_scheme outcome" where
  "page_do op s = (case op of
       Alloc \<Rightarrow> bnd (pa_alloc s) (\<lambda>(p, s). ret s)
     | Free p \<Rightarrow> pa_free p s
     | Map p va fl \<Rightarrow> bnd (mm_map p va fl s) (\<lambda>(v, s). ret s)
     | Unmap va \<Rightarrow> mm_unmap va s
     | Lookup va \<Rightarrow> bnd (get_physaddr va s) (\<lambda>p. ret s))"

text \<open>What callers must keep to: the window of the tables is not mapped, and a page that is freed is one of the
  allocator's, not page 0, the directory or a table.\<close>

definition page_ok :: "page_op \<Rightarrow> 'a paging_state_scheme \<Rightarrow> bool" where
  "page_ok op s = (case op of
       Alloc \<Rightarrow> True
     | Free p \<Rightarrow> unat p < 0xF00000 \<and> page_of p \<noteq> 0 \<and> page_addr (page_of p) \<notin> tables (phys s) (cr3 s)
     | Map p va fl \<Rightarrow> pdindex va \<noteq> 1023
     | Unmap va \<Rightarrow> pdindex va \<noteq> 1023
     | Lookup va \<Rightarrow> True)"

primrec page_run :: "page_op list \<Rightarrow> 'a paging_state_scheme \<Rightarrow> 'a paging_state_scheme outcome" where
  "page_run [] s = ret s"
| "page_run (op # ops) s = bnd (page_do op s) (page_run ops)"

primrec run_ok :: "page_op list \<Rightarrow> 'a paging_state_scheme \<Rightarrow> bool" where
  "run_ok [] s \<longleftrightarrow> True"
| "run_ok (op # ops) s \<longleftrightarrow> page_ok op s \<and> (case page_do op s of Some (Inr s') \<Rightarrow> run_ok ops s' | _ \<Rightarrow> True)"

section \<open>Each operation\<close>

text \<open>The one error that an operation may end with, and when: there is no free page for it or for the table that it needs, or it
  unmaps under a table that is not there.\<close>

definition page_error :: "page_op \<Rightarrow> 'a paging_state_scheme \<Rightarrow> kerr option" where
  "page_error op s = (case op of
       Alloc \<Rightarrow> if free_pages s = {} then Some (Panic ''out of memory.'') else None
     | Free p \<Rightarrow> None
     | Map p va fl \<Rightarrow>
         if p \<noteq> 0 \<and> \<not> present (pde (phys s) (cr3 s) (pdindex va)) \<and> free_pages s = {} then Some (Panic ''out of memory.'') else None
     | Unmap va \<Rightarrow> if present (pde (phys s) (cr3 s) (pdindex va)) then None else Some (PageFault (pt_va (pdindex va) (ptindex va)))
     | Lookup va \<Rightarrow> None)"

text \<open>The first error of a sequence.\<close>

primrec run_error :: "page_op list \<Rightarrow> 'a paging_state_scheme \<Rightarrow> kerr option" where
  "run_error [] s = None"
| "run_error (op # ops) s = (case page_error op s of Some e \<Rightarrow> Some e
     | None \<Rightarrow> (case page_do op s of Some (Inr s') \<Rightarrow> run_error ops s' | _ \<Rightarrow> None))"

lemma run_error_step:
  "page_error op s = None \<Longrightarrow> page_do op s = ret s1 \<Longrightarrow> run_error (op # ops) s = run_error ops s1"
  by (simp add: ret_def)

text \<open>An operation ends with that error, or else well.\<close>

definition page_safe :: "'a paging_state_scheme \<Rightarrow> kerr option \<Rightarrow> 'a paging_state_scheme outcome \<Rightarrow> bool" where
  "page_safe s e x \<longleftrightarrow> (case e of None \<Rightarrow> \<exists>s'. x = ret s' \<and> pg_inv s' \<and> cr3 s' = cr3 s | Some e \<Rightarrow> x = fail e)"

lemma page_safe_intros:
  "pg_inv s' \<Longrightarrow> cr3 s' = cr3 s \<Longrightarrow> page_safe s None (ret s')" "page_safe s (Some e) (fail e)"
  by (simp_all add: page_safe_def)

lemma alloc_safe: "pg_inv s \<Longrightarrow> page_safe s (page_error Alloc s) (bnd (pa_alloc s) (\<lambda>(p, s). ret s))"
proof (cases "free_pages s = {}")
  case True
  assume "pg_inv s"
  then have "pa_alloc s = fail (Panic ''out of memory.'')" using True pa_alloc_correct [of s] by (simp add: pg_inv_def)
  then show ?thesis using True by (simp add: page_safe_intros page_error_def)
next
  case False
  assume "pg_inv s"
  from pa_alloc_inv [OF this False] obtain p s1 where "pa_alloc s = ret (p, s1)" "pg_inv s1" "cr3 s1 = cr3 s" by blast
  then show ?thesis using False by (simp add: page_safe_intros page_error_def)
qed

lemma free_safe:
  assumes inv: "pg_inv s" and ok: "unat p < 0xF00000" "page_of p \<noteq> 0" "page_addr (page_of p) \<notin> tables (phys s) (cr3 s)"
  shows "page_safe s None (pa_free p s)"
proof -
  have wf: "pa_wf s" using inv by (simp add: pg_inv_def)
  from pa_free_correct [OF wf ok(1)] obtain s' where s': "pa_free p s = ret s'" "pa_wf s'"
    "free_pages s' = insert (page_of p) (free_pages s)" "pa_state.more s' = pa_state.more s" by blast
  have same: "phys s' = phys s \<and> cr3 s' = cr3 s" using s'(4) by (cases s, cases s') simp
  have "pg_inv s'" using inv ok(2,3) s'(2,3) same by (auto simp: pg_inv_def)
  then show ?thesis using s'(1) same by (simp add: page_safe_intros)
qed

lemma map_safe:
  assumes inv: "pg_inv s" and va: "pdindex va \<noteq> 1023"
  shows "page_safe s (page_error (Map p va fl) s) (bnd (mm_map p va fl s) (\<lambda>(v, s). ret s))"
proof (cases "p = 0")
  case True
  then show ?thesis using inv by (simp add: mm_map_null page_safe_intros page_error_def)
next
  case nz: False
  show ?thesis
  proof (cases "present (pde (phys s) (cr3 s) (pdindex va)) \<or> free_pages s \<noteq> {}")
    case True
    obtain s' where "mm_map p va fl s = ret (va, s')" "pg_inv s'" "cr3 s' = cr3 s"
      using mm_map_maps [OF inv va nz True, of fl] by (elim exE conjE) (rule that)
    then show ?thesis using True by (auto simp: page_safe_intros page_error_def)
  next
    case False
    then show ?thesis using mm_map_no_memory [OF inv nz, of va fl] nz by (simp add: page_safe_intros page_error_def)
  qed
qed

lemma unmap_safe:
  assumes inv: "pg_inv s" and va: "pdindex va \<noteq> 1023"
  shows "page_safe s (page_error (Unmap va) s) (mm_unmap va s)"
proof (cases "present (pde (phys s) (cr3 s) (pdindex va))")
  case True
  obtain s' where "mm_unmap va s = ret s'" "pg_inv s'" "cr3 s' = cr3 s"
    using mm_unmap_unmaps [OF inv va True] by (elim exE conjE) (rule that)
  then show ?thesis using True by (simp add: page_safe_intros page_error_def)
next
  case False
  then show ?thesis using mm_unmap_fault [OF inv False] by (simp add: page_safe_intros page_error_def)
qed

lemma page_do_safe:
  assumes inv: "pg_inv s" and ok: "page_ok op s"
  shows "page_safe s (page_error op s) (page_do op s)"
proof (cases op)
  case (Lookup va)
  have "get_physaddr va s = ret (case translate (phys s) (cr3 s) va of None \<Rightarrow> 0 | Some pa \<Rightarrow> pa)"
    using inv by (intro get_physaddr_translate) (simp add: pg_inv_def)
  then show ?thesis using Lookup inv by (simp add: page_do_def page_error_def page_safe_intros)
qed (use ok alloc_safe [OF inv] free_safe [OF inv] map_safe [OF inv] unmap_safe [OF inv] in
  \<open>simp_all add: page_do_def page_ok_def page_error_def [of "Free _"]\<close>)

section \<open>Properties\<close>

text \<open>C26. The page and mapping operations in any order, as long as nothing is mapped or unmapped at the window of the tables and no
  page is freed that is not the caller's: one of the allocator's, not page 0, the directory or a table. The sequence ends, with the memory of the tables well formed and the same directory, unless
  one of its operations cannot be done, and then it stops at the first of these: an allocation, or a mapping that needs a table,
  with no page free panics, and an unmapping under an absent table faults at the address of the table entry. No other
  operation faults or panics; none indexes outside the bitmap or gets lost in a search.\<close>

theorem page_run_safe:
  assumes "pg_inv s" and "run_ok ops s"
  shows "case run_error ops s of
      None \<Rightarrow> \<exists>s'. page_run ops s = ret s' \<and> pg_inv s' \<and> cr3 s' = cr3 s
    | Some e \<Rightarrow> page_run ops s = fail e"
  using assms
proof (induction ops arbitrary: s)
  case (Cons op ops)
  have safe: "page_safe s (page_error op s) (page_do op s)" using Cons.prems by (intro page_do_safe) simp_all
  show ?case
  proof (cases "page_error op s")
    case None
    then obtain s1 where s1: "page_do op s = ret s1" "pg_inv s1" "cr3 s1 = cr3 s" using safe by (auto simp: page_safe_def)
    have "run_ok ops s1" using Cons.prems(2) s1(1) by (simp add: ret_def)
    from Cons.IH [OF s1(2) this] show ?thesis unfolding run_error_step [OF None s1(1)] using s1(1,3) by (cases "run_error ops s1") simp_all
  next
    case (Some e)
    then show ?thesis using safe by (simp add: page_safe_def)
  qed
qed simp

text \<open>Three operations that can be done, and an unmapping that cannot.\<close>

theorem page_run_safe_witness:
  "(\<exists>s'. page_run [Alloc, Map 0x3000 0xC0405000 6, Lookup 0xC0405000] small_paging = ret s' \<and> pg_inv s' \<and> cr3 s' = 0x100000) \<and>
   page_run [Unmap 0x40000000] small_paging = fail (PageFault 0xFFD00000)"
proof
  let ?ops = "[Alloc, Map 0x3000 0xC0405000 6, Lookup 0xC0405000]"
  have idx: "pdindex 0xC0405000 = 769" by (simp add: pdindex_def drop_bit_eq_div)
  have free: "free_pages small_paging \<noteq> {}" by (simp add: small_paging_simps)
  from pa_alloc_inv [OF small_paging_inv this] obtain p s1 where
    s1: "pa_alloc small_paging = ret (p, s1)" "pg_inv s1" "phys s1 = phys small_paging" "cr3 s1 = cr3 small_paging" by blast
  have tab: "present (pde (phys s1) (cr3 s1) (pdindex 0xC0405000))"
    using small_paging_pde [of 769] s1(3,4) by (simp add: idx present_def)
  then obtain s2 where s2: "mm_map 0x3000 0xC0405000 6 s1 = ret (0xC0405000, s2)" "pg_inv s2"
    using mm_map_maps [OF s1(2), of "0xC0405000" "0x3000" 6] idx by auto
  have "page_do Alloc small_paging = ret s1" "page_do (Map 0x3000 0xC0405000 6) s1 = ret s2" "page_do (Lookup 0xC0405000) s2 = ret s2"
    using s1(1) s2 by (simp_all add: page_do_def get_physaddr_translate pg_inv_def [of s2])
  moreover have "page_error Alloc small_paging = None" "page_error (Map 0x3000 0xC0405000 6) s1 = None" "page_error (Lookup 0xC0405000) s2 = None"
    using free tab by (simp_all add: page_error_def)
  ultimately have none: "run_error ?ops small_paging = None" by (simp only: run_error_step run_error.simps(1))
  have "run_ok ?ops small_paging"
    using idx by (simp add: page_ok_def split: option.split sum.split)
  from page_run_safe [OF small_paging_inv this] none
  show "\<exists>s'. page_run ?ops small_paging = ret s' \<and> pg_inv s' \<and> cr3 s' = 0x100000"
    by (simp add: small_paging_simps)
  have i2: "pdindex 0x40000000 = 256" "ptindex 0x40000000 = 0" by (simp_all add: pdindex_def ptindex_def drop_bit_eq_div)
  have "\<not> present (pde (phys small_paging) (cr3 small_paging) 256)" using small_paging_pde [of 256] by (simp add: present_def)
  then have err: "run_error [Unmap 0x40000000] small_paging = Some (PageFault 0xFFD00000)" by (simp add: page_error_def i2 pt_va_def)
  have "run_ok [Unmap 0x40000000] small_paging" using i2 by (simp add: page_ok_def split: option.split sum.split)
  from page_run_safe [OF small_paging_inv this] err show "page_run [Unmap 0x40000000] small_paging = fail (PageFault 0xFFD00000)" by simp
qed

end
