(* ===== verification/PageCalls.thy ===== *)
theory PageCalls
  imports Services
begin

text \<open>
  mm.c, \<open>dos_mm_map\<close> and \<open>dos_mm_unmap\<close>: the mapping operations as system calls. The arguments of \<open>dos_mm_map\<close> are a structure
  of three words on the stack of the caller, at \<open>stack_var\<close>; the kernel leaves the result in the second.
\<close>

section \<open>The calls\<close>

definition dos_mm_map :: "'a kernel_state_scheme sys \<Rightarrow> u32 \<Rightarrow> u32 \<Rightarrow> u32 \<Rightarrow> 'a kernel_state_scheme \<Rightarrow> (u32 \<times> 'a kernel_state_scheme) outcome" where
  "dos_mm_map W physaddr virtualaddr flags s =
    (let args = stack_var W s;
         s = upd args physaddr s;
         s = upd (args + 4) virtualaddr s;
         s = upd (args + 8) flags s
     in bnd (system_call W SYSCALL_MMMAP args s) (\<lambda>s. ret (mem s (args + 4), s)))"

definition dos_mm_unmap :: "'a kernel_state_scheme sys \<Rightarrow> u32 \<Rightarrow> 'a kernel_state_scheme \<Rightarrow> 'a kernel_state_scheme outcome" where
  "dos_mm_unmap W virtualaddr s = system_call W SYSCALL_MMUNMAP virtualaddr s"

section \<open>The traps\<close>

lemma trap_mm_map:
  fixes s :: "'a kernel_state_scheme"
  assumes "can_trap W K s" and "s1 = call_state W SYSCALL_MMMAP arg s"
  shows "trap W SYSCALL_MMMAP arg s =
    bnd (mm_map (mem s1 arg) (mem s1 (arg + 4)) (mem s1 (arg + 8)) s1) (\<lambda>(v, s'). end_call W s (upd (arg + 4) v s'))"
proof -
  have "interrupt_handlers s ! 255 = Some Syscall" "255 < length (interrupt_handlers s)"
    using can_trapD(1,2) [OF assms(1)] by simp_all
  then show ?thesis
    by (simp add: trap_def idt_handler_def handler_of_def soft_call_def syscall_def push_frame_regs disable_def enable_def
      Let_def bnd_assoc assms(2) call_state_def end_call_def SYSCALL_KMALLOC_def SYSCALL_YIELD_def SYSCALL_KFREE_def SYSCALL_MMMAP_def
      case_prod_unfold)
qed

lemma trap_mm_unmap:
  fixes s :: "'a kernel_state_scheme"
  assumes "can_trap W K s"
  shows "trap W SYSCALL_MMUNMAP va s = bnd (mm_unmap va (call_state W SYSCALL_MMUNMAP va s)) (end_call W s)"
proof -
  have "interrupt_handlers s ! 255 = Some Syscall" "255 < length (interrupt_handlers s)"
    using can_trapD(1,2) [OF assms] by simp_all
  then show ?thesis
    by (simp add: trap_def idt_handler_def handler_of_def soft_call_def syscall_def push_frame_regs disable_def enable_def
      Let_def bnd_assoc call_state_def end_call_def [abs_def] SYSCALL_KMALLOC_def SYSCALL_YIELD_def SYSCALL_KFREE_def SYSCALL_MMMAP_def
      SYSCALL_MMUNMAP_def)
qed

section \<open>What they do\<close>

lemma pg_inv_same:
  "phys s' = phys s \<Longrightarrow> cr3 s' = cr3 s \<Longrightarrow> LowRamBitF s' = LowRamBitF s \<Longrightarrow> LowRamFreeCount s' = LowRamFreeCount s \<Longrightarrow>
   pg_inv s' = pg_inv s \<and> free_pages s' = free_pages s"
  by (simp add: pg_inv_def pa_wf_def free_pages_def page_free_def [abs_def])

text \<open>The structure of the arguments is on the stack of the caller, apart from the frame of the call.\<close>

definition args_ok :: "'a kernel_state_scheme sys \<Rightarrow> u32 set \<Rightarrow> bool" where
  "args_ok W K \<longleftrightarrow> (\<forall>s s'. {stack_var W s, stack_var W s + 4, stack_var W s + 8} \<subseteq> K - span (frame W s') 64)"

definition call_same :: "'a kernel_state_scheme sys \<Rightarrow> u32 set \<Rightarrow> u32 set \<Rightarrow> u32 set \<Rightarrow> (u32 \<Rightarrow> u32 list) \<Rightarrow>
   'a kernel_state_scheme \<Rightarrow> 'a kernel_state_scheme \<Rightarrow> bool" where
  "call_same W T LS K q s s' \<longleftrightarrow> active W T LS K q s' \<and> can_trap W K s' \<and> no_switch s' \<and> same_tasks s s' \<and>
     (\<forall>c. c \<notin> K \<longrightarrow> mem s' c = mem s c)"

lemma dos_mm_map_call:
  fixes s :: "'a kernel_state_scheme"
  assumes act: "active W T LS K q s" and user: "can_trap W K s" and quiet: "no_switch s" and args: "args_ok W K"
    and inv: "pg_inv s" and va: "pdindex va \<noteq> 1023" and pa: "physaddr \<noteq> 0"
    and room: "present (pde (phys s) (cr3 s) (pdindex va)) \<or> free_pages s \<noteq> {}"
  shows "\<exists>s'. dos_mm_map W physaddr va flags s = ret (va, s') \<and> call_same W T LS K q s s' \<and> pg_inv s' \<and> cr3 s' = cr3 s \<and>
    translate (phys s') (cr3 s') va = Some (Paging.frame physaddr + (va AND 0xFFF)) \<and>
    (\<forall>va'. pdindex va' \<noteq> 1023 \<longrightarrow> \<not> aliases (phys s') (cr3 s') va va' \<longrightarrow>
       translate (phys s') (cr3 s') va' = translate (phys s) (cr3 s) va') \<and>
    present (pde (phys s') (cr3 s') (pdindex va)) \<and>
    free_pages s' = free_pages s - (if present (pde (phys s) (cr3 s) (pdindex va)) then {} else {Min (free_pages s)})"
proof -
  let ?a = "stack_var W s"
  define s0 where "s0 = upd (?a + 8) flags (upd (?a + 4) va (upd ?a physaddr s))"
  define s1 where "s1 = call_state W SYSCALL_MMMAP ?a s0"
  note lay = tasks_invD(1) [OF activeD(1) [OF act]]
  have K: "?a \<in> K" "?a + 4 \<in> K" "?a + 8 \<in> K"
    and off: "?a \<notin> span (frame W s0) 64" "?a + 4 \<notin> span (frame W s0) 64" "?a + 8 \<notin> span (frame W s0) 64"
    using args unfolding args_ok_def by blast+
  have m0: "mem s0 c = mem s c" if "c \<notin> K" for c using that K by (auto simp: s0_def upd_def)
  have user0: "can_trap W K s0" using user by (subst can_trap_same [of _ s]) (simp_all add: s0_def upd_def)
  have act0: "active W T LS K q s0" using stack_write_active [OF act, of "mem s0"] m0 by (simp add: s0_def upd_def)
  have quiet0: "no_switch s0" using quiet by (simp add: no_switch_def s0_def upd_def)
  have m1: "mem s1 c = mem s0 c" if "c \<notin> K" for c
    using push_on_stack [OF can_trapD(3) [OF user0]] that by (simp add: s1_def call_state_def)
  have a1: "mem s1 ?a = physaddr" "mem s1 (?a + 4) = va" "mem s1 (?a + 8) = flags"
    using push_frame_other [OF off(1)] push_frame_other [OF off(2)] push_frame_other [OF off(3)]
    by (simp_all add: s1_def call_state_def s0_def upd_def)
  have pg: "phys s1 = phys s" "cr3 s1 = cr3 s" "pg_inv s1" "free_pages s1 = free_pages s"
    using inv pg_inv_same [of s1 s] by (simp_all add: s1_def s0_def call_state_def upd_def)
  have room1: "present (pde (phys s1) (cr3 s1) (pdindex va)) \<or> free_pages s1 \<noteq> {}" using room pg by simp
  obtain s2 where s2: "mm_map physaddr va flags s1 = ret (va, s2)" "pg_inv s2"
    "translate (phys s2) (cr3 s2) va = Some (Paging.frame physaddr + (va AND 0xFFF))"
    "\<forall>va'. pdindex va' \<noteq> 1023 \<longrightarrow> \<not> aliases (phys s2) (cr3 s2) va va' \<longrightarrow>
       translate (phys s2) (cr3 s2) va' = translate (phys s1) (cr3 s1) va'"
    "free_pages s2 = free_pages s1 - (if present (pde (phys s1) (cr3 s1) (pdindex va)) then {} else {Min (free_pages s1)})"
    "cr3 s2 = cr3 s1" "mem s2 = mem s1" "present (pde (phys s2) (cr3 s1) (pdindex va))"
    using mm_map_maps [OF pg(3) va pa room1, of flags] by (elim exE conjE) (rule that)
  have rest: "rest_same (call_state W SYSCALL_MMMAP ?a s0) s2"
    using mm_map_rest [of s1 physaddr va flags] s2(1) by (simp add: yields_def s1_def)
  define m2 where "m2 = (mem s2)(?a + 4 := va)"
  have m: "m2 c = mem s c" if "c \<notin> K" for c using that K(2) s2(7) m1 m0 by (auto simp: m2_def)
  have "m2 c = mem s0 c" if "c \<in> task_area T LS" for c
    using m m0 that task_area_stack [OF lay] by fastforce
  note e = end_call_rest [OF act0 user0 quiet0 rest this refl]
  let ?s' = "s2\<lparr>mem := m2, k_reenter := k_reenter s2 - 1, iflag := iflag s0\<rparr>"
  have st: "same_tasks s ?s'" using e(3) by (simp add: same_tasks_def same_kernel_def s0_def upd_def)
  have "running_task ?s' = running_task s0" using e(3) by (simp add: same_tasks_def same_kernel_def)
  moreover have "upd (?a + 4) va s2 = s2\<lparr>mem := m2\<rparr>" by (simp add: upd_def m2_def)
  ultimately have "system_call W SYSCALL_MMMAP ?a s0 = ret ?s'"
    using trap_mm_map [OF user0 s1_def] s2(1) a1 e(1) by (simp add: system_call_def)
  then have "dos_mm_map W physaddr va flags s = ret (va, ?s')"
    by (simp add: dos_mm_map_def Let_def s0_def m2_def)
  moreover have "call_same W T LS K q s ?s'"
    using e(2) st m same_tasks_ready(2,5) [OF st] user quiet unfolding call_same_def by simp
  moreover have "pg_inv ?s' \<and> free_pages ?s' = free_pages s2" using pg_inv_same [of ?s' s2] s2(2) by simp
  ultimately show ?thesis
    using s2(3-6,8) pg by (intro exI [of _ ?s']) simp
qed

lemma dos_mm_unmap_call:
  fixes s :: "'a kernel_state_scheme"
  assumes act: "active W T LS K q s" and user: "can_trap W K s" and quiet: "no_switch s"
    and inv: "pg_inv s" and va: "pdindex va \<noteq> 1023" and tab: "present (pde (phys s) (cr3 s) (pdindex va))"
  shows "\<exists>s'. dos_mm_unmap W va s = ret s' \<and> call_same W T LS K q s s' \<and> pg_inv s' \<and> cr3 s' = cr3 s \<and>
    translate (phys s') (cr3 s') va = None \<and>
    (\<forall>va'. \<not> aliases (phys s) (cr3 s) va va' \<longrightarrow>
       translate (phys s') (cr3 s') va' = translate (phys s) (cr3 s) va') \<and>
    free_pages s' = free_pages s"
proof -
  define s1 where "s1 = call_state W SYSCALL_MMUNMAP va s"
  note lay = tasks_invD(1) [OF activeD(1) [OF act]]
  have m1: "mem s1 c = mem s c" if "c \<notin> K" for c
    using push_on_stack [OF can_trapD(3) [OF user]] that by (simp add: s1_def call_state_def)
  have pg: "phys s1 = phys s" "cr3 s1 = cr3 s" "pg_inv s1" "free_pages s1 = free_pages s"
    using inv pg_inv_same [of s1 s] by (simp_all add: s1_def call_state_def)
  have tab1: "present (pde (phys s1) (cr3 s1) (pdindex va))" using tab pg by simp
  obtain s2 where s2: "mm_unmap va s1 = ret s2" "pg_inv s2" "translate (phys s2) (cr3 s2) va = None"
    "\<forall>va'. \<not> aliases (phys s2) (cr3 s2) va va' \<longrightarrow>
       translate (phys s2) (cr3 s2) va' = translate (phys s1) (cr3 s1) va'"
    "free_pages s2 = free_pages s1" "cr3 s2 = cr3 s1" "mem s2 = mem s1"
    "\<forall>k. unat k < 1024 \<longrightarrow> pde (phys s2) (cr3 s1) k = pde (phys s1) (cr3 s1) k"
    using mm_unmap_unmaps [OF pg(3) va tab1] by (elim exE conjE) (rule that)
  have ali: "aliases (phys s2) (cr3 s2) va va' = aliases (phys s) (cr3 s) va va'" for va'
    using s2(6,8) pg by (simp add: aliases_def pdindex_bound)
  have rest: "rest_same (call_state W SYSCALL_MMUNMAP va s) s2"
    using mm_unmap_rest [of s1 va] s2(1) by (simp add: yields_def s1_def)
  have "mem s2 c = mem s c" if "c \<in> task_area T LS" for c
    using m1 s2(7) that task_area_stack [OF lay] by fastforce
  note e = end_call_rest [OF act user quiet rest this refl]
  let ?s' = "s2\<lparr>mem := mem s2, k_reenter := k_reenter s2 - 1, iflag := iflag s\<rparr>"
  have "running_task ?s' = running_task s" using e(3) by (simp add: same_tasks_def same_kernel_def)
  then have "dos_mm_unmap W va s = ret ?s'"
    using trap_mm_unmap [OF user, of va] s2(1) e(1) by (simp add: system_call_def dos_mm_unmap_def s1_def)
  moreover have "call_same W T LS K q s ?s'"
    using e(2,3) m1 s2(7) same_tasks_ready(2,5) [OF e(3)] user quiet unfolding call_same_def by simp
  moreover have "pg_inv ?s' \<and> free_pages ?s' = free_pages s2" using pg_inv_same [of ?s' s2] s2(2) by simp
  ultimately show ?thesis
    using s2(3-6) pg ali by (intro exI [of _ ?s']) simp
qed

section \<open>Properties\<close>

text \<open>C27. A task, or the kernel, maps a page and unmaps it again with system calls. \<open>dos_mm_map\<close> returns the address; the
  processor then translates it to the page, and every address of another table entry as before. \<open>dos_mm_unmap\<close> takes that
  translation away and no other. Both calls keep the tables, the tasks and all memory but the stack well formed, and the only page
  that is not free again afterwards is that of a new table.\<close>

theorem dos_mm_map_unmap:
  fixes s :: "'a kernel_state_scheme"
  assumes act: "active W T LS K q s" and user: "can_trap W K s" and quiet: "no_switch s" and args: "args_ok W K"
    and inv: "pg_inv s" and va: "pdindex va \<noteq> 1023" and pa: "physaddr \<noteq> 0"
    and room: "present (pde (phys s) (cr3 s) (pdindex va)) \<or> free_pages s \<noteq> {}"
  shows "\<exists>s1 s2. dos_mm_map W physaddr va flags s = ret (va, s1) \<and> dos_mm_unmap W va s1 = ret s2 \<and>
    call_same W T LS K q s s1 \<and> call_same W T LS K q s s2 \<and> pg_inv s1 \<and> pg_inv s2 \<and>
    translate (phys s1) (cr3 s1) va = Some (Paging.frame physaddr + (va AND 0xFFF)) \<and>
    translate (phys s2) (cr3 s2) va = None \<and>
    (\<forall>va'. pdindex va' \<noteq> 1023 \<longrightarrow> \<not> aliases (phys s1) (cr3 s1) va va' \<longrightarrow>
       translate (phys s1) (cr3 s1) va' = translate (phys s) (cr3 s) va' \<and>
       translate (phys s2) (cr3 s2) va' = translate (phys s) (cr3 s) va') \<and>
    free_pages s2 = free_pages s - (if present (pde (phys s) (cr3 s) (pdindex va)) then {} else {Min (free_pages s)})"
proof -
  obtain s1 where s1: "dos_mm_map W physaddr va flags s = ret (va, s1)" "call_same W T LS K q s s1" "pg_inv s1" "cr3 s1 = cr3 s"
    "translate (phys s1) (cr3 s1) va = Some (Paging.frame physaddr + (va AND 0xFFF))"
    "\<forall>va'. pdindex va' \<noteq> 1023 \<longrightarrow> \<not> aliases (phys s1) (cr3 s1) va va' \<longrightarrow>
       translate (phys s1) (cr3 s1) va' = translate (phys s) (cr3 s) va'"
    "present (pde (phys s1) (cr3 s1) (pdindex va))"
    "free_pages s1 = free_pages s - (if present (pde (phys s) (cr3 s) (pdindex va)) then {} else {Min (free_pages s)})"
    using dos_mm_map_call [OF assms, of flags] by (elim exE conjE) (rule that)
  have st1: "active W T LS K q s1" "can_trap W K s1" "no_switch s1" using s1(2) by (simp_all add: call_same_def)
  obtain s2 where s2: "dos_mm_unmap W va s1 = ret s2" "call_same W T LS K q s1 s2" "pg_inv s2"
    "translate (phys s2) (cr3 s2) va = None"
    "\<forall>va'. \<not> aliases (phys s1) (cr3 s1) va va' \<longrightarrow>
       translate (phys s2) (cr3 s2) va' = translate (phys s1) (cr3 s1) va'" "free_pages s2 = free_pages s1"
    using dos_mm_unmap_call [OF st1 s1(3) va s1(7)] by (elim exE conjE) (rule that)
  have "call_same W T LS K q s s2"
    using s1(2) s2(2) same_tasks_trans [of s s1 s2] by (simp add: call_same_def)
  then show ?thesis using s1 s2 by (intro exI [of _ s1] exI [of _ s2]) simp
qed

theorem dos_mm_map_unmap_witness:
  "\<exists>(s :: kernel_state) s1 s2. dos_mm_map demo_sys 0x7000 0x80000000 6 s = ret (0x80000000, s1) \<and>
    translate (phys s1) (cr3 s1) 0x80000000 = Some 0x7000 \<and>
    dos_mm_unmap demo_sys 0x80000000 s1 = ret s2 \<and> translate (phys s2) (cr3 s2) 0x80000000 = None"
proof -
  obtain s :: kernel_state where s: "heap_even (k_heap_start demo_sys) s {}" "no_switch s" "8 \<le> card (free_pages s)" "clock_ready demo_sys demo_stack s"
    "active demo_sys {0x10000} {0x20000, 0x20100} demo_stack (\<lambda>L. []) s"
    using demo_boot by (elim exE conjE) (rule that)
  have "user_mode demo_sys demo_stack s" using s(4) by (simp add: clock_ready_def)
  then have trap: "can_trap demo_sys demo_stack s" by (rule can_trap_user)
  have args: "args_ok demo_sys demo_stack" by (simp add: args_ok_def demo_sys_def demo_stack_def span_def)
  have inv: "pg_inv s" using s(1) by (auto simp: heap_even_def heap_inv_def pages_ok_def)
  have "free_pages s \<noteq> {}" using s(3) by auto
  then have room: "present (pde (phys s) (cr3 s) (pdindex 0x80000000)) \<or> free_pages s \<noteq> {}" ..
  have idx: "pdindex 0x80000000 \<noteq> 1023" by (simp add: pdindex_def drop_bit_eq_div)
  have pa: "(0x7000 :: u32) \<noteq> 0" by simp
  have fr: "Paging.frame 0x7000 + (0x80000000 AND 0xFFF) = 0x7000" by (simp add: Paging.frame_def)
  obtain s1 s2 where "dos_mm_map demo_sys 0x7000 0x80000000 6 s = ret (0x80000000, s1)" "dos_mm_unmap demo_sys 0x80000000 s1 = ret s2"
    "translate (phys s1) (cr3 s1) 0x80000000 = Some (Paging.frame 0x7000 + (0x80000000 AND 0xFFF))"
    "translate (phys s2) (cr3 s2) 0x80000000 = None"
    using dos_mm_map_unmap [OF s(5) trap s(2) args inv idx pa room, of 6] by (elim exE conjE) (rule that)
  then show ?thesis unfolding fr by blast
qed

end
