(* ===== verification/StepCalls.thy ===== *)
theory StepCalls
  imports Keyboard PageCalls
begin

text \<open>
  The pieces of the steps of the kernel: the way out of a trap or an interrupt through the scheduler, whichever task it dispatches
  (\<open>reschedule_keeps\<close>), and the services in between: the heap, mappings outside the heap, a task that is entered in the ready list or
  taken out of its list, and the keyboard.
\<close>

section \<open>Through the scheduler\<close>

text \<open>The kernel was entered from a task.\<close>

definition kernel_at :: "'a kernel_state_scheme sys \<Rightarrow> u32 set \<Rightarrow> 'a kernel_state_scheme \<Rightarrow> bool" where
  "kernel_at W K s \<longleftrightarrow> k_reenter s = 0 \<and> length (interrupt_handlers s) = 256 \<and> interrupt_handlers s ! 255 = Some Syscall \<and>
     interrupt_handlers s ! 32 = Some Timer_callback \<and> (\<forall>s. on_stack K (frame W s)) \<and> wait_lock s = 0 \<and> counters_ok s \<and> frames_apart W"

lemma kernel_at_same:
  "k_reenter s' = k_reenter s \<Longrightarrow> interrupt_handlers s' = interrupt_handlers s \<Longrightarrow> wait_lock s' = wait_lock s \<Longrightarrow> counters_ok s' \<Longrightarrow>
    kernel_at W K s \<Longrightarrow> kernel_at W K s'"
  by (simp add: kernel_at_def)

lemma kernel_at_ready:
  "clock_ready W K s \<Longrightarrow> k_reenter s' = 0 \<Longrightarrow> interrupt_handlers s' = interrupt_handlers s \<Longrightarrow> wait_lock s' = wait_lock s \<Longrightarrow>
    counters_ok s' \<Longrightarrow> kernel_at W K s'"
  by (simp add: kernel_at_def clock_ready_def user_mode_def)

lemma kernel_at_leave:
  "kernel_at W K s \<Longrightarrow> k_reenter s' = k_reenter s - 1 \<Longrightarrow> interrupt_handlers s' = interrupt_handlers s \<Longrightarrow> wait_lock s' = wait_lock s \<Longrightarrow>
    forbid_counter s' = forbid_counter s \<Longrightarrow> clock_ready W K s'"
  by (simp add: kernel_at_def clock_ready_def user_mode_def counters_ok_def)

lemma reschedule_keeps:
  assumes act: "active W T LS K q s" and k: "kernel_at W K s" and regs: "on_stack K regs"
    and r: "reschedule (clocked W) regs s = ret s'"
  shows "\<exists>q'. active W T LS K q' s' \<and> kernel_at W K s' \<and> step_frames T s (Some (regs, frame_at (mem s) regs)) s' \<and>
    elsewhere (task_area T LS \<union> K) s s'"
proof (cases "sint (forbid_counter s) > 0 \<or> sched_state s AND NEED_SCHEDULE = 0")
  case True
  then have "reschedule (clocked W) regs s = ret s"
    using reschedule_forbidden [of s "clocked W" regs] by (auto simp: reschedule_def)
  then have "s' = s" using r by simp
  then show ?thesis using act k by (auto simp: step_frames_def elsewhere_refl)
next
  case False
  have "sint (forbid_counter s) = 0" using False k by (simp add: kernel_at_def counters_ok_def)
  then have "forbid_counter s = 0" by (intro signed_word_eqI) simp
  then have "kernel_idle W K s" using k by (simp add: kernel_at_def kernel_idle_def)
  from reschedule_result [OF disjI1 [OF act] regs this _ r] False obtain q' where
    q': "active W T LS K q' s'" "kernel_idle W K s'" "elsewhere (task_area T LS \<union> K) s s'"
    "contexts T regs (frame_at (mem s) regs) (mem s) (running_task s) (running_task s') (mem s')" by blast
  have "kernel_at W K s'" using q'(2) k by (simp add: kernel_at_def kernel_idle_def counters_ok_def)
  then show ?thesis using q' step_frames_contexts [of T regs "frame_at (mem s) regs" s s'] by blast
qed

text \<open>The way out of a trap: \<open>s2\<close> is the state that the service of the call leaves.\<close>

lemma step_frames_via:
  assumes "step_frames T s2 l s'" and "running_task s2 = running_task s"
    and "\<And>t. t \<in> T \<Longrightarrow> frame_at (mem s2) (task_state t) = frame_at (mem s) (task_state t)" and "running_task s' \<in> T"
  shows "step_frames T s l s'"
  using assms by (auto simp: step_frames_def split: option.splits if_splits)

lemma step_frames_cong: "mem s'' = mem s' \<Longrightarrow> running_task s'' = running_task s' \<Longrightarrow> step_frames T s l s'' = step_frames T s l s'"
  by (cases l) (auto simp: step_frames_def)

lemma end_call_keeps:
  assumes act: "active W T LS K q s2" and k: "kernel_at W K s2" and regs: "on_stack K (frame W s0)"
    and run: "running_task s2 = running_task s" and f: "frame_at (mem s2) (frame W s0) = f"
    and same: "\<And>t. t \<in> T \<Longrightarrow> frame_at (mem s2) (task_state t) = frame_at (mem s) (task_state t)"
    and r: "end_call (clocked W) s0 s2 = ret s'"
  shows "\<exists>q'. active W T LS K q' s' \<and> clock_ready W K s' \<and> step_frames T s (Some (frame W s0, f)) s' \<and>
    elsewhere (task_area T LS \<union> K) s2 s'"
proof -
  obtain s3 where s3: "reschedule (clocked W) (frame W s0) (disable s2) = ret s3" "s' = s3\<lparr>k_reenter := k_reenter s3 - 1, iflag := iflag s0\<rparr>"
    using r by (auto simp: end_call_def bnd_eq_ret)
  have act2: "active W T LS K q (disable s2)" using act by (subst active_same [of _ s2]) simp_all
  have "kernel_at W K (disable s2)" using k by (simp add: kernel_at_def counters_ok_def)
  from reschedule_keeps [OF act2 this regs s3(1)] obtain q' where q': "active W T LS K q' s3" "kernel_at W K s3"
    "step_frames T (disable s2) (Some (frame W s0, f)) s3" "elsewhere (task_area T LS \<union> K) (disable s2) s3" unfolding disable_simps f by blast
  have "active W T LS K q' s'" using q'(1) by (subst active_same [of _ s3]) (simp_all add: s3(2))
  moreover have "clock_ready W K s'" by (rule kernel_at_leave [OF q'(2)]) (simp_all add: s3(2))
  moreover have "step_frames T s (Some (frame W s0, f)) s3"
    using step_frames_via [OF q'(3) _ _ tasks_invD(6) [OF activeD(1) [OF q'(1)]]] run same by simp
  then have "step_frames T s (Some (frame W s0, f)) s'" by (subst step_frames_cong [of _ s3]) (simp_all add: s3(2))
  moreover have "elsewhere (task_area T LS \<union> K) s2 s'" using q'(4) by (simp add: elsewhere_def s3(2))
  ultimately show ?thesis by blast
qed

text \<open>The way out of a hardware interrupt.\<close>

lemma end_interrupt_keeps:
  assumes act: "active W T LS K q s2" and k: "kernel_at W K s2" and regs: "on_stack K (frame W s)"
    and run: "running_task s2 = running_task s" and f: "frame_at (mem s2) (frame W s) = f"
    and same: "\<And>t. t \<in> T \<Longrightarrow> frame_at (mem s2) (task_state t) = frame_at (mem s) (task_state t)"
    and r: "bnd (reschedule (clocked W) (frame W s) (disable s2)) (\<lambda>s2. ret (end_of_interrupt s2\<lparr>iflag := iflag s\<rparr>)) = ret s'"
  shows "\<exists>q'. active W T LS K q' s' \<and> clock_ready W K s' \<and> step_frames T s (Some (frame W s, f)) s' \<and>
    elsewhere (task_area T LS \<union> K) s2 s'"
proof -
  obtain s3 where s3: "reschedule (clocked W) (frame W s) (disable s2) = ret s3" "s' = end_of_interrupt s3\<lparr>iflag := iflag s\<rparr>"
    using r by (auto simp: bnd_eq_ret)
  have act2: "active W T LS K q (disable s2)" using act by (subst active_same [of _ s2]) simp_all
  have "kernel_at W K (disable s2)" using k by (simp add: kernel_at_def counters_ok_def)
  from reschedule_keeps [OF act2 this regs s3(1)] obtain q' where q': "active W T LS K q' s3" "kernel_at W K s3"
    "step_frames T (disable s2) (Some (frame W s, f)) s3" "elsewhere (task_area T LS \<union> K) (disable s2) s3" unfolding disable_simps f by blast
  have "active W T LS K q' s'" using q'(1) by (subst active_same [of _ s3]) (simp_all add: s3(2))
  moreover have "clock_ready W K s'" by (rule kernel_at_leave [OF q'(2)]) (simp_all add: s3(2))
  moreover have "step_frames T s (Some (frame W s, f)) s3"
    using step_frames_via [OF q'(3) _ _ tasks_invD(6) [OF activeD(1) [OF q'(1)]]] run same by simp
  then have "step_frames T s (Some (frame W s, f)) s'" by (subst step_frames_cong [of _ s3]) (simp_all add: s3(2))
  moreover have "elsewhere (task_area T LS \<union> K) s2 s'" using q'(4) by (simp add: elsewhere_def s3(2) end_of_interrupt_def outb_def)
  ultimately show ?thesis by blast
qed

section \<open>A call\<close>

lemma clocked_calls [simp]:
  "k_heap_start (clocked W) = k_heap_start W" "stack_var (clocked W) = stack_var W" "can_trap (clocked W) = can_trap W"
  "call_state (clocked W) = call_state W" "lit (clocked W) = lit W" "kbuf (clocked W) = kbuf W" "cr2 (clocked W) = cr2 W"
proof -
  show "can_trap (clocked W) = can_trap W" by (intro ext) (simp add: can_trap_def in_kernel_def)
  show "call_state (clocked W) = call_state W" by (intro ext) (simp add: call_state_def)
qed (simp_all add: clocked_def)

definition call_frame :: "'a kernel_state_scheme sys \<Rightarrow> u32 \<Rightarrow> u32 \<Rightarrow> 'a kernel_state_scheme \<Rightarrow> u32 list" where
  "call_frame W n arg s = map (trap_frame n arg (registers W s)) [0..<16]"

text \<open>The invariant of the kernel between two steps: the tasks are well formed, the heap is regular with used blocks \<open>L\<close>, and it
  leaves the tasks, the lists and the stack alone.\<close>

definition placed :: "'a kernel_state_scheme sys \<Rightarrow> u32 set \<Rightarrow> u32 set \<Rightarrow> u32 set \<Rightarrow> 'a kernel_state_scheme \<Rightarrow> (u32 \<times> u32) set \<Rightarrow> bool" where
  "placed W T LS K s L \<longleftrightarrow> heap_even (k_heap_start W) s L \<and> task_area T LS \<union> K \<subseteq> even_heap.kept (k_heap_start W) L"

definition kernel_ok :: "'a kernel_state_scheme sys \<Rightarrow> u32 set \<Rightarrow> u32 set \<Rightarrow> u32 set \<Rightarrow> 'a kernel_state_scheme \<Rightarrow> bool" where
  "kernel_ok W LS K T s \<longleftrightarrow> clock_ready W K s \<and> (\<exists>q. active W T LS K q s) \<and> (\<exists>L. placed W T LS K s L)"

lemma placed_else:
  "elsewhere (task_area T LS \<union> K) s s' \<Longrightarrow> placed W T LS K s L \<Longrightarrow> placed W T LS K s' L"
  using heap_even_else [of "task_area T LS \<union> K" s s' "k_heap_start W" L] by (simp add: placed_def)

lemma task_frames_same:
  assumes "\<And>c. c \<in> task_area T LS \<Longrightarrow> m' c = m c" and "t \<in> T"
  shows "frame_at m' (task_state t) = frame_at m (task_state t)"
  using task_area_parts(2) [OF assms(2), of LS] task_state_span [of t] by (intro frame_at_frame assms(1)) blast

lemma call_step:
  fixes s :: "'a kernel_state_scheme"
  assumes act: "active W T LS K q s" and ready: "clock_ready W K s"
    and rest: "rest_same (call_state W n arg s) s2" and pl: "placed W T LS K s2 L"
    and area: "\<And>c. c \<in> task_area T LS \<Longrightarrow> mem s2 c = mem s c"
    and stack: "\<And>c. c \<in> span (frame W s) 64 \<Longrightarrow> mem s2 c = mem (call_state W n arg s) c"
    and r: "end_call (clocked W) s s2 = ret s'"
  shows "kernel_ok W LS K T s' \<and> step_frames T s (Some (frame W s, call_frame W n arg s)) s'"
proof -
  have u: "user_mode W K s" using ready by (simp add: clock_ready_def)
  note rk = rest_same_kernel [OF rest]
  have e: "running_task s2 = running_task s" "k_reenter s2 = 0" "wait_lock s2 = wait_lock s" "forbid_counter s2 = forbid_counter s"
    "interrupt_handlers s2 = interrupt_handlers s" using rk user_modeD(1) [OF u] by (simp_all add: call_state_def)
  have "active W T LS K q (s\<lparr>mem := mem s2\<rparr>)" using area by (intro memory_step(1) [OF act]) (simp add: task_area_def)
  then have act2: "active W T LS K q s2" using e(1) by (subst active_same [of _ "s\<lparr>mem := mem s2\<rparr>"]) simp_all
  have k2: "kernel_at W K s2" using e ready by (intro kernel_at_ready [OF ready]) (simp_all add: clock_ready_def counters_ok_def)
  have "frame_at (mem s2) (frame W s) = frame_at (mem (call_state W n arg s)) (frame W s)" by (rule frame_at_frame [OF stack])
  then have f: "frame_at (mem s2) (frame W s) = call_frame W n arg s" by (simp add: call_state_def push_frame_at call_frame_def)
  have fr: "frame_at (mem s2) (task_state t) = frame_at (mem s) (task_state t)" if "t \<in> T" for t
    using area that by (rule task_frames_same)
  from end_call_keeps [OF act2 k2 user_modeD(2) [OF u] e(1) f fr r] obtain q' where
    q': "active W T LS K q' s'" "clock_ready W K s'" "step_frames T s (Some (frame W s, call_frame W n arg s)) s'"
    "elsewhere (task_area T LS \<union> K) s2 s'" by blast
  have "placed W T LS K s' L" by (rule placed_else [OF q'(4) pl])
  then show ?thesis using q' unfolding kernel_ok_def by blast
qed

text \<open>The arguments of a call, written on the stack.\<close>

lemma stack_args:
  fixes s :: "'a kernel_state_scheme"
  assumes act: "active W T LS K q s" and ready: "clock_ready W K s" and pl: "placed W T LS K s L"
    and same: "\<And>c. c \<notin> K \<Longrightarrow> m c = mem s c"
  shows "active W T LS K q (s\<lparr>mem := m\<rparr>)" "clock_ready W K (s\<lparr>mem := m\<rparr>)" "placed W T LS K (s\<lparr>mem := m\<rparr>) L"
    "step_frames T (s\<lparr>mem := m\<rparr>) l s' \<Longrightarrow> running_task s' \<in> T \<Longrightarrow> step_frames T s l s'"
proof -
  show "active W T LS K q (s\<lparr>mem := m\<rparr>)" using same by (intro stack_write_active [OF act]) blast
  show "clock_ready W K (s\<lparr>mem := m\<rparr>)" using ready by (simp add: clock_ready_def user_mode_def counters_ok_def)
  have "elsewhere (task_area T LS \<union> K) s (s\<lparr>mem := m\<rparr>)" using same by (simp add: elsewhere_def)
  from placed_else [OF this pl] show "placed W T LS K (s\<lparr>mem := m\<rparr>) L" .
  have K: "\<forall>c. c \<notin> K \<longrightarrow> m c = mem s c" using same by blast
  show "step_frames T (s\<lparr>mem := m\<rparr>) l s' \<Longrightarrow> running_task s' \<in> T \<Longrightarrow> step_frames T s l s'"
    using stack_write(6) [OF tasks_invD(1) [OF activeD(1) [OF act]] K] by (rule_tac step_frames_via [of T "s\<lparr>mem := m\<rparr>"]) simp_all
qed

lemma kernel_okD: "kernel_ok W LS K T s \<Longrightarrow> running_task s \<in> T \<and> clock_ready W K s"
  unfolding kernel_ok_def using tasks_invD(6) [OF activeD(1)] by blast

section \<open>kmalloc and kfree\<close>

lemma kmalloc_step:
  fixes s :: "'a kernel_state_scheme"
  assumes ok: "kernel_ok W LS K T s" and vars: "vars_ok W K" and sz: "even_size sz"
    and s0: "s0 = upd (stack_var W s) sz s" and r: "trap (clocked W) SYSCALL_KMALLOC (stack_var W s) s0 = ret s'"
  shows "kernel_ok W LS K T s' \<and> step_frames T s (Some (frame W s0, call_frame W SYSCALL_KMALLOC (stack_var W s) s0)) s'"
proof -
  let ?hp = "k_heap_start W" and ?aux = "stack_var W s"
  obtain q L where st: "active W T LS K q s" "clock_ready W K s" "placed W T LS K s L" using ok unfolding kernel_ok_def by blast
  have aux: "?aux \<in> K" "?aux \<notin> span (frame W s0) 64" using vars by (simp_all add: vars_ok_def)
  have "((mem s)(?aux := sz)) c = mem s c" if "c \<notin> K" for c using that aux(1) by auto
  note st0 = stack_args [OF st this, folded upd_def, folded s0]
  define s1 where "s1 = call_state W SYSCALL_KMALLOC ?aux s0"
  have u: "user_mode W K s0" using st0(2) by (simp add: clock_ready_def)
  have K: "K \<subseteq> even_heap.kept ?hp L" "task_area T LS \<subseteq> even_heap.kept ?hp L" and live: "heap_even ?hp s0 L"
    using st0(3) by (auto simp: placed_def)
  note cs = call_state_heap [OF can_trap_user [OF u] live K(1), where n = SYSCALL_KMALLOC and arg = ?aux, folded s1_def]
  have arg: "mem s1 ?aux = sz" using push_frame_other [OF aux(2)] by (simp add: s1_def call_state_def s0)
  obtain p s2 where s2: "kern_kmalloc ?hp sz s1 = ret (p, s2)" "end_call (clocked W) s0 (upd ?aux p s2) = ret s'"
    using r trap_kmalloc [of "clocked W" K s0 ?aux] can_trap_user [OF u] by (auto simp: arg bnd_eq_ret simp flip: s1_def)
  from even_heap.alloc_kept [OF cs(1) sz] s2(1) obtain n where
    n: "heap_even ?hp s2 (insert (p, n) L)" "\<forall>x \<in> even_heap.kept ?hp L. mem s2 x = mem s1 x" by auto
  let ?s2 = "upd ?aux p s2"
  have rest: "rest_same (call_state W SYSCALL_KMALLOC ?aux s0) ?s2"
    using kmalloc_rest [of s1 ?hp sz] s2(1) by (simp add: yields_def s1_def upd_def rest_same_def)
  have sub: "even_heap.kept ?hp L \<subseteq> even_heap.kept ?hp (insert (p, n) L)" by (rule kept_mono)
  have "heap_even ?hp (s2\<lparr>mem := (mem s2)(?aux := p)\<rparr>) (insert (p, n) L)"
    using aux(1) K(1) sub by (intro heap_even_write [OF n(1)]) auto
  then have pl: "placed W T LS K ?s2 (insert (p, n) L)" using K sub by (auto simp: placed_def upd_def)
  have area: "mem ?s2 c = mem s0 c" if c: "c \<in> task_area T LS" for c
  proof -
    have "c \<notin> K" using task_area_stack [OF tasks_invD(1) [OF activeD(1) [OF st(1)]]] c by blast
    moreover have "c \<noteq> ?aux" using aux(1) calculation by blast
    ultimately show ?thesis using n(2) K(2) c cs(2) by auto
  qed
  have stack: "mem ?s2 c = mem (call_state W SYSCALL_KMALLOC ?aux s0) c" if c: "c \<in> span (frame W s0) 64" for c
  proof -
    have "c \<in> K" using c user_modeD(2) [OF u, of s0] by (auto simp: on_stack_def)
    moreover have "c \<noteq> ?aux" using c aux(2) by blast
    ultimately show ?thesis using n(2) K(1) by (auto simp flip: s1_def)
  qed
  from call_step [OF st0(1,2) rest pl area stack s2(2)] show ?thesis using st0(4) kernel_okD by blast
qed

lemma kfree_step:
  fixes s :: "'a kernel_state_scheme"
  assumes act: "active W T LS K q s" and ready: "clock_ready W K s" and pl: "placed W T LS K s L"
    and b: "(p, n) \<in> L" "block_mem (p, n) \<inter> (task_area T LS \<union> K) = {}"
    and r: "trap (clocked W) SYSCALL_KFREE p s = ret s'"
  shows "kernel_ok W LS K T s' \<and> step_frames T s (Some (frame W s, call_frame W SYSCALL_KFREE p s)) s'"
proof -
  let ?hp = "k_heap_start W" and ?L = "L - {(p, n)}"
  define s1 where "s1 = call_state W SYSCALL_KFREE p s"
  have u: "user_mode W K s" using ready by (simp add: clock_ready_def)
  have K: "task_area T LS \<union> K \<subseteq> even_heap.kept ?hp ?L" and K1: "K \<subseteq> even_heap.kept ?hp L" and live: "heap_even ?hp s L"
    using pl b(2) kept_remove [of ?hp L "(p, n)"] by (auto simp: placed_def)
  note cs = call_state_heap [OF can_trap_user [OF u] live K1, where n = SYSCALL_KFREE and arg = p, folded s1_def]
  obtain s2 where s2: "kern_kfree ?hp p s1 = ret s2" "heap_even ?hp s2 ?L" "\<forall>x \<in> even_heap.kept ?hp ?L. mem s2 x = mem s1 x"
    using even_heap.release_kept [OF cs(1) b(1)] by blast
  have e: "end_call (clocked W) s s2 = ret s'"
    using r trap_kfree [of "clocked W" K s p] can_trap_user [OF u] s2(1) by (simp flip: s1_def)
  have rest: "rest_same (call_state W SYSCALL_KFREE p s) s2"
    using kfree_rest [of s1 ?hp p] s2(1) by (simp add: yields_def s1_def)
  have pl2: "placed W T LS K s2 ?L" using s2(2) K by (simp add: placed_def)
  have area: "mem s2 c = mem s c" if c: "c \<in> task_area T LS" for c
    using c K cs(2) s2(3) task_area_stack [OF tasks_invD(1) [OF activeD(1) [OF act]]] by fastforce
  have stack: "mem s2 c = mem (call_state W SYSCALL_KFREE p s) c" if c: "c \<in> span (frame W s) 64" for c
    using c user_modeD(2) [OF u, of s] K s2(3) by (auto simp: on_stack_def simp flip: s1_def)
  show ?thesis by (rule call_step [OF act ready rest pl2 area stack e])
qed

section \<open>Mappings outside the heap\<close>

text \<open>An address below the heap's range, whose page table serves no address of that range.\<close>

definition outside_heap :: "'a paging_state_scheme \<Rightarrow> u32 \<Rightarrow> bool" where
  "outside_heap s va \<longleftrightarrow> unat (pdindex va) < 769 \<and>
     (\<forall>i. 769 \<le> unat i \<and> unat i < 1023 \<and> present (pde (phys s) (cr3 s) i) \<and> present (pde (phys s) (cr3 s) (pdindex va)) \<longrightarrow>
        Paging.frame (pde (phys s) (cr3 s) (pdindex va)) \<noteq> Paging.frame (pde (phys s) (cr3 s) i))"

lemma heap_present:
  assumes "heap_frames s fr np" and "k < np"
  shows "present (pde (phys s) (cr3 s) (pdindex (heap_va k)))" "769 \<le> unat (pdindex (heap_va k))" "unat (pdindex (heap_va k)) < 1023"
    "pdindex (heap_va k) \<noteq> 1023"
proof -
  have "k \<le> 3840" using heap_pages_bound [OF assms(1)] assms(2) by linarith
  then show "769 \<le> unat (pdindex (heap_va k))" "unat (pdindex (heap_va k)) < 1023" "pdindex (heap_va k) \<noteq> 1023"
    using heap_pd_range heap_va_props(5) by blast+
  show "present (pde (phys s) (cr3 s) (pdindex (heap_va k)))"
    using assms translate_present unfolding heap_frames_def by metis
qed

lemma map_pages_ok:
  assumes ok: "pages_ok s np" and out: "outside_heap s va" and r: "mm_map pa va fl s = ret (v, s')"
  shows "pages_ok s' np \<and> mem s' = mem s \<and> paging_state.more s' = paging_state.more s"
proof (cases "pa = 0")
  case True
  then show ?thesis using r ok mm_map_null [of va fl s] by simp
next
  case False
  let ?i = "pdindex va"
  obtain fr where fr: "heap_frames s fr np" and inv: "pg_inv s" and inj: "tables_inj s" using ok by (auto simp: pages_ok_def)
  have va: "?i \<noteq> 1023" using out by (auto simp: outside_heap_def)
  have room: "present (pde (phys s) (cr3 s) ?i) \<or> free_pages s \<noteq> {}"
    using r mm_map_no_memory [OF inv False, of va fl] by auto
  define m where "m = Min (free_pages s)"
  obtain s2 where s2: "mm_map pa va fl s = ret (va, s2)" "pg_inv s2"
    "\<forall>va'. pdindex va' \<noteq> 1023 \<longrightarrow> \<not> aliases (phys s2) (cr3 s2) va va' \<longrightarrow>
       translate (phys s2) (cr3 s2) va' = translate (phys s) (cr3 s) va'"
    "free_pages s2 = free_pages s - (if present (pde (phys s) (cr3 s) ?i) then {} else {m})"
    "cr3 s2 = cr3 s" "mem s2 = mem s" "paging_state.more s2 = paging_state.more s" "present (pde (phys s2) (cr3 s) ?i)"
    "Paging.frame (pde (phys s2) (cr3 s) ?i) = (if present (pde (phys s) (cr3 s) ?i) then Paging.frame (pde (phys s) (cr3 s) ?i) else page_addr m)"
    "\<forall>k. unat k < 1024 \<longrightarrow> k \<noteq> ?i \<longrightarrow> pde (phys s2) (cr3 s) k = pde (phys s) (cr3 s) k"
    using mm_map_maps [OF inv va False room, of fl] unfolding m_def [symmetric] by (elim exE conjE) (rule that)
  have m: "m \<in> free_pages s" if "\<not> present (pde (phys s) (cr3 s) ?i)" using room that Min_in [of "free_pages s"] by (auto simp: m_def)
  have low: "k \<noteq> ?i" if "769 \<le> unat k" for k using out that by (auto simp: outside_heap_def)
  have dir: "pde (phys s2) (cr3 s) k = pde (phys s) (cr3 s) k" if "769 \<le> unat k" "unat k < 1023" for k
    using s2(10) low [OF that(1)] that by simp
  have inj2: "tables_inj s2" using inj unfolding tables_inj_def s2(5) by (simp add: dir)
  have tab: "t \<in> tables (phys s) (cr3 s) \<or> \<not> present (pde (phys s) (cr3 s) ?i) \<and> t = page_addr m" if t: "t \<in> tables (phys s2) (cr3 s)" for t
  proof -
    obtain k where k: "unat k < 1024" "present (pde (phys s2) (cr3 s) k)" "t = Paging.frame (pde (phys s2) (cr3 s) k)"
      using t unfolding tables_def by blast
    show ?thesis
    proof (cases "k = ?i")
      case True
      then show ?thesis using k s2(9) unfolding tables_def by (cases "present (pde (phys s) (cr3 s) ?i)") auto
    next
      case False
      then show ?thesis using k s2(10) unfolding tables_def by auto
    qed
  qed
  have trans: "translate (phys s2) (cr3 s2) (heap_va k) = translate (phys s) (cr3 s) (heap_va k)" if k: "k < np" for k
  proof -
    note h = heap_present [OF fr k]
    have "Paging.frame (pde (phys s2) (cr3 s) ?i) \<noteq> Paging.frame (pde (phys s) (cr3 s) (pdindex (heap_va k)))"
      using s2(9) out h pg_inv_table_frame [OF inv h(3,1) m] by (auto simp: outside_heap_def)
    then have "\<not> aliases (phys s2) (cr3 s2) va (heap_va k)" using dir [OF h(2,3)] s2(5) by (auto simp: aliases_def)
    then show ?thesis using s2(3) h(4) by simp
  qed
  have "heap_frames s2 fr np"
    unfolding heap_frames_def
  proof (intro conjI allI impI)
    show "inj_on fr {..<np}" using fr by (simp add: heap_frames_def)
    fix k assume k: "k < np"
    then have f: "0 < fr k" "fr k < 3840" "fr k \<notin> free_pages s" "page_addr (fr k) \<notin> tables (phys s) (cr3 s)"
      "translate (phys s) (cr3 s) (heap_va k) = Some (page_addr (fr k))" using fr by (auto simp: heap_frames_def)
    have "page_addr (fr k) \<noteq> page_addr m" if "\<not> present (pde (phys s) (cr3 s) ?i)"
      using m [OF that] f(2,3) page_addr_inj [of "fr k" m] by (auto simp: in_free_pages)
    then show "page_addr (fr k) \<notin> tables (phys s2) (cr3 s2)" using tab f(4) unfolding s2(5) by blast
    show "0 < fr k" "fr k < 3840" "fr k \<notin> free_pages s2" "translate (phys s2) (cr3 s2) (heap_va k) = Some (page_addr (fr k))"
      using f s2(4) trans [OF k] by auto
  qed
  then have "pages_ok s2 np" using s2(2) inj2 unfolding pages_ok_def by blast
  then show ?thesis using r s2(1,6,7) by simp
qed

lemma unmap_pages_ok:
  assumes ok: "pages_ok s np" and out: "outside_heap s va" and r: "mm_unmap va s = ret s'"
  shows "pages_ok s' np \<and> mem s' = mem s \<and> paging_state.more s' = paging_state.more s"
proof -
  let ?i = "pdindex va"
  obtain fr where fr: "heap_frames s fr np" and inv: "pg_inv s" and inj: "tables_inj s" using ok by (auto simp: pages_ok_def)
  have va: "?i \<noteq> 1023" using out by (auto simp: outside_heap_def)
  have pr: "present (pde (phys s) (cr3 s) ?i)" using r mm_unmap_fault [OF inv, of va] by auto
  obtain s2 where s2: "mm_unmap va s = ret s2" "pg_inv s2"
    "\<forall>va'. \<not> aliases (phys s2) (cr3 s2) va va' \<longrightarrow> translate (phys s2) (cr3 s2) va' = translate (phys s) (cr3 s) va'"
    "free_pages s2 = free_pages s" "cr3 s2 = cr3 s" "mem s2 = mem s" "paging_state.more s2 = paging_state.more s"
    "\<forall>k. unat k < 1024 \<longrightarrow> pde (phys s2) (cr3 s) k = pde (phys s) (cr3 s) k"
    using mm_unmap_unmaps [OF inv va pr] by (elim exE conjE) (rule that)
  have tab: "tables (phys s2) (cr3 s2) = tables (phys s) (cr3 s)" using dir_unchanged(2) s2(5,8) by metis
  have inj2: "tables_inj s2" using inj s2(5,8) unfolding tables_inj_def by simp
  have trans: "translate (phys s2) (cr3 s2) (heap_va k) = translate (phys s) (cr3 s) (heap_va k)" if k: "k < np" for k
  proof -
    note h = heap_present [OF fr k]
    have "\<not> aliases (phys s2) (cr3 s2) va (heap_va k)"
      using s2(5,8) out h pr pdindex_bound by (auto simp: aliases_def outside_heap_def)
    then show ?thesis using s2(3) by simp
  qed
  have "heap_frames s2 fr np" using fr trans tab s2(4) unfolding heap_frames_def by simp
  then have "pages_ok s2 np" using s2(2) inj2 unfolding pages_ok_def by blast
  then show ?thesis using r s2(1,6,7) by simp
qed

lemma heap_even_paging:
  fixes s s' :: "'a heap_state_scheme"
  assumes "heap_even hp s L" and "\<And>np. pages_ok s np \<Longrightarrow> pages_ok s' np" and "mem s' = mem s" "k_heap_end s' = k_heap_end s"
  shows "heap_even hp s' L"
  using assms unfolding heap_even_def heap_inv_def by metis

lemma same_heap_end: "paging_state.more s' = paging_state.more s \<Longrightarrow> k_heap_end s' = k_heap_end s"
  by (cases s; cases s') simp

lemma map_step:
  fixes s :: "'a kernel_state_scheme"
  assumes ok: "kernel_ok W LS K T s" and args: "args_ok W K" and out: "outside_heap s va"
    and s0: "s0 = upd (stack_var W s + 8) fl (upd (stack_var W s + 4) va (upd (stack_var W s) pa s))"
    and r: "trap (clocked W) SYSCALL_MMMAP (stack_var W s) s0 = ret s'"
  shows "kernel_ok W LS K T s' \<and> step_frames T s (Some (frame W s0, call_frame W SYSCALL_MMMAP (stack_var W s) s0)) s'"
proof -
  let ?hp = "k_heap_start W" and ?a = "stack_var W s"
  obtain q L where st: "active W T LS K q s" "clock_ready W K s" "placed W T LS K s L" using ok unfolding kernel_ok_def by blast
  have a: "?a \<in> K" "?a + 4 \<in> K" "?a + 8 \<in> K"
    and off: "?a \<notin> span (frame W s0) 64" "?a + 4 \<notin> span (frame W s0) 64" "?a + 8 \<notin> span (frame W s0) 64"
    using args unfolding args_ok_def by blast+
  have "mem s0 c = mem s c" if "c \<notin> K" for c using that a by (auto simp: s0)
  note st0 = stack_args [OF st this]
  have e0: "s\<lparr>mem := mem s0\<rparr> = s0" by (simp add: s0 upd_def)
  note st0 = st0 [unfolded e0]
  define s1 where "s1 = call_state W SYSCALL_MMMAP ?a s0"
  have u: "user_mode W K s0" using st0(2) by (simp add: clock_ready_def)
  have K: "K \<subseteq> even_heap.kept ?hp L" and live: "heap_even ?hp s0 L" using st0(3) by (auto simp: placed_def)
  note cs = call_state_heap [OF can_trap_user [OF u] live K, where n = SYSCALL_MMMAP and arg = ?a, folded s1_def]
  have arg: "mem s1 ?a = pa" "mem s1 (?a + 4) = va" "mem s1 (?a + 8) = fl"
    using push_frame_other [OF off(1)] push_frame_other [OF off(2)] push_frame_other [OF off(3)] by (simp_all add: s1_def call_state_def s0)
  obtain v s2 where s2: "mm_map pa va fl s1 = ret (v, s2)" "end_call (clocked W) s0 (upd (?a + 4) v s2) = ret s'"
  proof -
    have "trap (clocked W) SYSCALL_MMMAP ?a s0 = bnd (mm_map pa va fl s1) (\<lambda>(v, s'). end_call (clocked W) s0 (upd (?a + 4) v s'))"
      using trap_mm_map [of "clocked W" K s0 s1 ?a] can_trap_user [OF u] by (simp add: arg flip: s1_def)
    then have "bnd (mm_map pa va fl s1) (\<lambda>(v, s'). end_call (clocked W) s0 (upd (?a + 4) v s')) = ret s'" using r by simp
    then show ?thesis using that by (auto simp: bnd_eq_ret)
  qed
  have "phys s1 = phys s" "cr3 s1 = cr3 s" by (simp_all add: s1_def call_state_def s0 upd_def)
  then have out1: "outside_heap s1 va" using out by (simp add: outside_heap_def)
  obtain np where "pages_ok s1 np" using cs(1) by (auto simp: heap_even_def heap_inv_def)
  then have m2: "mem s2 = mem s1" "k_heap_end s2 = k_heap_end s1" using map_pages_ok [OF _ out1 s2(1)] same_heap_end by blast+
  have live2: "heap_even ?hp s2 L" using map_pages_ok [OF _ out1 s2(1)] m2 by (intro heap_even_paging [OF cs(1)]) blast+
  let ?s2 = "upd (?a + 4) v s2"
  have rest: "rest_same (call_state W SYSCALL_MMMAP ?a s0) ?s2"
    using mm_map_rest [of s1 pa va fl] s2(1) by (simp add: yields_def s1_def upd_def rest_same_def)
  have "heap_even ?hp (s2\<lparr>mem := (mem s2)(?a + 4 := v)\<rparr>) L" using a(2) K by (intro heap_even_write [OF live2]) auto
  then have pl: "placed W T LS K ?s2 L" using st0(3) by (simp add: placed_def upd_def)
  have area: "mem ?s2 c = mem s0 c" if c: "c \<in> task_area T LS" for c
  proof -
    have "c \<notin> K" using task_area_stack [OF tasks_invD(1) [OF activeD(1) [OF st(1)]]] c by blast
    moreover have "c \<noteq> ?a + 4" using a(2) calculation by blast
    ultimately show ?thesis using m2(1) cs(2) by auto
  qed
  have stack: "mem ?s2 c = mem (call_state W SYSCALL_MMMAP ?a s0) c" if c: "c \<in> span (frame W s0) 64" for c
    using c off(2) m2(1) by (auto simp flip: s1_def)
  from call_step [OF st0(1,2) rest pl area stack s2(2)] show ?thesis using st0(4) kernel_okD by blast
qed

lemma unmap_step:
  fixes s :: "'a kernel_state_scheme"
  assumes ok: "kernel_ok W LS K T s" and out: "outside_heap s va" and r: "trap (clocked W) SYSCALL_MMUNMAP va s = ret s'"
  shows "kernel_ok W LS K T s' \<and> step_frames T s (Some (frame W s, call_frame W SYSCALL_MMUNMAP va s)) s'"
proof -
  let ?hp = "k_heap_start W"
  obtain q L where st: "active W T LS K q s" "clock_ready W K s" "placed W T LS K s L" using ok unfolding kernel_ok_def by blast
  define s1 where "s1 = call_state W SYSCALL_MMUNMAP va s"
  have u: "user_mode W K s" using st(2) by (simp add: clock_ready_def)
  have K: "K \<subseteq> even_heap.kept ?hp L" and live: "heap_even ?hp s L" using st(3) by (auto simp: placed_def)
  note cs = call_state_heap [OF can_trap_user [OF u] live K, where n = SYSCALL_MMUNMAP and arg = va, folded s1_def]
  obtain s2 where s2: "mm_unmap va s1 = ret s2" "end_call (clocked W) s s2 = ret s'"
    using r trap_mm_unmap [of "clocked W" K s va] can_trap_user [OF u] by (auto simp: bnd_eq_ret simp flip: s1_def)
  have "phys s1 = phys s" "cr3 s1 = cr3 s" by (simp_all add: s1_def call_state_def)
  then have out1: "outside_heap s1 va" using out by (simp add: outside_heap_def)
  obtain np where "pages_ok s1 np" using cs(1) by (auto simp: heap_even_def heap_inv_def)
  then have m2: "mem s2 = mem s1" "k_heap_end s2 = k_heap_end s1" using unmap_pages_ok [OF _ out1 s2(1)] same_heap_end by blast+
  have live2: "heap_even ?hp s2 L" using unmap_pages_ok [OF _ out1 s2(1)] m2 by (intro heap_even_paging [OF cs(1)]) blast+
  have rest: "rest_same (call_state W SYSCALL_MMUNMAP va s) s2"
    using mm_unmap_rest [of s1 va] s2(1) by (simp add: yields_def s1_def)
  have pl: "placed W T LS K s2 L" using live2 st(3) by (simp add: placed_def)
  have area: "mem s2 c = mem s c" if c: "c \<in> task_area T LS" for c
    using c m2(1) cs(2) task_area_stack [OF tasks_invD(1) [OF activeD(1) [OF st(1)]]] by auto
  have stack: "mem s2 c = mem (call_state W SYSCALL_MMUNMAP va s) c" if c: "c \<in> span (frame W s) 64" for c
    using m2(1) by (simp flip: s1_def)
  show ?thesis by (rule call_step [OF st(1,2) rest pl area stack s2(2)])
qed

section \<open>The calls of task.c and the clock\<close>

lemma kernel_okI:
  assumes "active W T LS K q' s'" and "clock_ready W K s'" and "elsewhere (task_area T LS \<union> K) s s'" and "placed W T LS K s L"
  shows "kernel_ok W LS K T s'"
  using assms placed_else unfolding kernel_ok_def by blast

lemma else_areas:
  "elsewhere (task_area T LS) s s' \<Longrightarrow> elsewhere (task_area T LS \<union> K) s s'"
  by (erule elsewhere_mono) blast

lemma yield_step:
  assumes ok: "kernel_ok W LS K T s" and r: "trap (clocked W) SYSCALL_YIELD 0 s = ret s'"
  shows "kernel_ok W LS K T s' \<and> step_frames T s (Some (frame W s, yield_frame W s)) s'"
proof -
  obtain q L where st: "active W T LS K q s" "clock_ready W K s" "placed W T LS K s L" using ok unfolding kernel_ok_def by blast
  have "trap_ready W K s" using st(2) by (simp add: clock_ready_trap)
  from yield_returns [OF disjI1 [OF st(1)] this r] show ?thesis using kernel_okI [OF _ _ _ st(3)] step_frames_contexts by blast
qed

lemma wait_step:
  assumes ok: "kernel_ok W LS K T s" and w: "one_signal sigs" "WL \<in> LS" "WL \<noteq> tasks_ready W" "wait_enter sigs WL s = ret s1"
    and r: "trap (clocked W) SYSCALL_YIELD 0 s1 = ret s'"
  shows "kernel_ok W LS K T s' \<and> step_frames T s (Some (frame W s1, yield_frame W s1)) s'"
proof -
  obtain q L where st: "active W T LS K q s" "clock_ready W K s" "placed W T LS K s L" using ok unfolding kernel_ok_def by blast
  note we = wait_enter_step [OF st(1) w]
  obtain q1 where q1: "parked W T LS K q1 s1 \<and> waiting LS (tasks_ready W) q1 (running_task s1)" using we(1) by blast
  have "trap_ready W K s1" using st(2) trap_ready_same [OF we(2)] by (simp add: clock_ready_trap)
  from yield_returns [OF disjI2 [OF q1] this r] obtain q' where q': "active W T LS K q' s'" "clock_ready W K s'"
    "contexts T (frame W s1) (yield_frame W s1) (mem s1) (running_task s1) (running_task s') (mem s')"
    "elsewhere (task_area T LS \<union> K) s1 s'" by blast
  have e: "elsewhere (task_area T LS \<union> K) s s'" using elsewhere_trans [OF else_areas [OF wait_enter_else [OF st(1) w]] q'(4)] .
  have "running_task s1 = running_task s" using we(2) by (simp add: same_kernel_def)
  then have "step_frames T s (Some (frame W s1, yield_frame W s1)) s'"
    using step_frames_via [OF step_frames_contexts [OF q'(3)] _ _ tasks_invD(6) [OF activeD(1) [OF q'(1)]]] we(3) by blast
  then show ?thesis using kernel_okI [OF q'(1,2) e st(3)] by blast
qed

lemma signal_enter_keeps:
  assumes act: "active W T LS K q s" and t: "t \<in> T" and sig: "mem s (sigs_waiting t) AND sigs \<noteq> 0"
    and r: "signal_enter W t sigs s = ret s1"
  shows "elsewhere (task_area T LS) s s1"
proof -
  note iv = tasks_invD [OF activeD(1) [OF act]]
  have "waiting LS (tasks_ready W) q t" using iv(7) [OF t] sig by (auto simp: task_ok_def split: if_splits)
  then obtain L where "L \<in> LS" "L \<noteq> tasks_ready W" "t \<in> set (q L)" by (auto simp: waiting_def)
  then show ?thesis using signal_enter_else [OF activeD(1) [OF act] _ _ _ sig r] by blast
qed

lemma signal_step:
  assumes ok: "kernel_ok W LS K T s" and t: "t \<in> T" "mem s (sigs_waiting t) AND sigs \<noteq> 0" and r: "signal_enter W t sigs s = ret s'"
  shows "kernel_ok W LS K T s' \<and> step_frames T s None s'"
proof -
  obtain q L where st: "active W T LS K q s" "clock_ready W K s" "placed W T LS K s L" using ok unfolding kernel_ok_def by blast
  note se = signal_enter_step [OF st(1) t r]
  obtain q1 where q1: "active W T LS K q1 s'" using se(1) by blast
  have "forbid_counter s' = forbid_counter s"
    using se(3) permit_forbid [of s] st(2) by (simp add: clock_ready_def counters_ok_def)
  then have "clock_ready W K s'" using st(2) trap_ready_same [OF se(2)] by (simp add: clock_ready_trap counters_ok_def)
  from kernel_okI [OF q1 this else_areas [OF signal_enter_keeps [OF st(1) t r]] st(3)] show ?thesis
    using se(2,4) by (auto simp: step_frames_def same_kernel_def)
qed

lemma signal_yield_step:
  assumes ok: "kernel_ok W LS K T s" and t: "t \<in> T" "mem s (sigs_waiting t) AND sigs \<noteq> 0" and r1: "signal_enter W t sigs s = ret s1"
    and r: "trap (clocked W) SYSCALL_YIELD 0 s1 = ret s'"
  shows "kernel_ok W LS K T s' \<and> step_frames T s (Some (frame W s1, yield_frame W s1)) s'"
proof -
  obtain q L where st: "active W T LS K q s" "clock_ready W K s" "placed W T LS K s L" using ok unfolding kernel_ok_def by blast
  note s1 = signal_step [OF ok t r1] and se = signal_enter_step [OF st(1) t r1]
  from yield_step [OF conjunct1 [OF s1] r] have y: "kernel_ok W LS K T s'" "step_frames T s1 (Some (frame W s1, yield_frame W s1)) s'" by blast+
  have "step_frames T s (Some (frame W s1, yield_frame W s1)) s'"
    using se(2,4) kernel_okD [OF y(1)] by (intro step_frames_via [OF y(2)]) (simp_all add: same_kernel_def)
  then show ?thesis using y(1) by blast
qed

lemma forbid_step:
  assumes ok: "kernel_ok W LS K T s" and small: "sint (forbid_counter s) < 2 ^ 31 - 2"
  shows "kernel_ok W LS K T (forbid s) \<and> step_frames T s None (forbid s)"
proof -
  obtain q L where st: "active W T LS K q s" "clock_ready W K s" "placed W T LS K s L" using ok unfolding kernel_ok_def by blast
  have "counters_ok (forbid s)" using small st(2) sint_add_1 [of "forbid_counter s"]
    by (simp add: clock_ready_def counters_ok_def forbid_def)
  then have r: "clock_ready W K (forbid s)" using st(2) by (simp add: clock_ready_def forbid_def user_mode_def)
  have a: "active W T LS K q (forbid s)" using st(1) by (subst active_same [of _ s]) (simp_all add: forbid_def)
  have "elsewhere (task_area T LS \<union> K) s (forbid s)" by (simp add: elsewhere_def forbid_def)
  from kernel_okI [OF a r this st(3)] show ?thesis by (simp add: step_frames_def forbid_def)
qed

lemma permit_step:
  assumes ok: "kernel_ok W LS K T s"
  shows "kernel_ok W LS K T (permit s) \<and> step_frames T s None (permit s)"
proof -
  obtain q L where st: "active W T LS K q s" "clock_ready W K s" "placed W T LS K s L" using ok unfolding kernel_ok_def by blast
  have "counters_ok (permit s)" using st(2) permit_small [of s] by (simp add: clock_ready_def counters_ok_def)
  then have r: "clock_ready W K (permit s)" using st(2) by (simp add: clock_ready_def permit_def user_mode_def)
  have a: "active W T LS K q (permit s)" using st(1) by (subst active_same [of _ s]) (simp_all add: permit_def)
  have "elsewhere (task_area T LS \<union> K) s (permit s)" by (simp add: elsewhere_def permit_def)
  from kernel_okI [OF a r this st(3)] show ?thesis by (simp add: step_frames_def permit_def)
qed

lemma delay_step:
  assumes ok: "kernel_ok W LS K T s" and s': "s' = upd (task_delay (running_task s)) ticks s"
  shows "kernel_ok W LS K T s' \<and> step_frames T s None s'"
proof -
  obtain q L where st: "active W T LS K q s" "clock_ready W K s" "placed W T LS K s L" using ok unfolding kernel_ok_def by blast
  have r: "clock_ready W K s'" using st(2) by (simp add: s' clock_ready_def upd_def user_mode_def counters_ok_def)
  note d = set_delay_step [where v = ticks, OF st(1), folded s']
  have "elsewhere (task_area T LS) s s'" unfolding s' by (rule set_delay_else) (use kernel_okD [OF ok] in blast)
  from kernel_okI [OF d(1) r else_areas [OF this] st(3)] show ?thesis using d(2) by (simp add: step_frames_def s' upd_def)
qed

text \<open>A task computes: it writes memory of its own, in the heap too, in the blocks in use and not in the headers between them, uses
  ports and the screen. The variables of the scheduler, the heap and the pages stay.\<close>

definition own_work :: "u32 set \<Rightarrow> 'a kernel_state_scheme \<Rightarrow> 'a kernel_state_scheme \<Rightarrow> bool" where
  "own_work A s s' \<longleftrightarrow> (\<forall>c. c \<notin> A \<longrightarrow> mem s' c = mem s c) \<and> heap_same s s' \<and> running_task s' = running_task s \<and>
     k_reenter s' = k_reenter s \<and> forbid_counter s' = forbid_counter s \<and> wait_lock s' = wait_lock s \<and>
     sched_state s' = sched_state s \<and> system_tick s' = system_tick s \<and> interrupt_handlers s' = interrupt_handlers s \<and> tss s' = tss s"

lemma work_step:
  fixes s s' :: "'a kernel_state_scheme"
  assumes act: "active W T LS K q s" and ready: "clock_ready W K s" and pl: "placed W T LS K s L"
    and A: "A \<subseteq> even_heap.kept (k_heap_start W) L - (task_area T LS \<union> K)" and work: "own_work A s s'"
  shows "kernel_ok W LS K T s' \<and> step_frames T s None s'"
proof -
  have same: "\<And>c. c \<notin> A \<Longrightarrow> mem s' c = mem s c" and v: "running_task s' = running_task s" "heap_same s s'"
    using work by (simp_all add: own_work_def)
  have r: "clock_ready W K s'" using ready work by (simp add: own_work_def clock_ready_def user_mode_def counters_ok_def)
  have sm: "mem s' c = mem s c" if "c \<in> (\<Union>t \<in> T. span t 140) \<union> (\<Union>L \<in> LS. span L 12)" for c
    using that A same by (auto simp: task_area_def)
  note w = memory_step [OF act sm]
  have "active W T LS K q s'" using w(1) v(1) by (subst active_same [of _ "s\<lparr>mem := mem s'\<rparr>"]) simp_all
  moreover have "heap_even (k_heap_start W) (s\<lparr>mem := mem s'\<rparr>) L"
    using pl A same by (intro heap_even_write [of _ s]) (auto simp: placed_def)
  then have "heap_even (k_heap_start W) s' L" using v(2) by (subst heap_even_cong [of _ "s\<lparr>mem := mem s'\<rparr>"]) (simp_all add: heap_same_def)
  then have "placed W T LS K s' L" using pl by (simp add: placed_def)
  ultimately have "kernel_ok W LS K T s'" using r unfolding kernel_ok_def by blast
  then show ?thesis using w(2) v(1) by (simp add: step_frames_def)
qed

lemma clock_step:
  assumes ok: "kernel_ok W LS K T s" and r: "interrupt (clocked W) (clock_isr (clocked W)) 32 s = ret s'"
  shows "kernel_ok W LS K T s' \<and> step_frames T s (Some (frame W s, irq_frame W 32 s)) s'"
proof -
  let ?W = "clocked W"
  obtain q L where st: "active W T LS K q s" "clock_ready W K s" "placed W T LS K s L" using ok unfolding kernel_ok_def by blast
  have cr: "user_mode ?W K s" "counters_ok s" "wait_lock s = 0" "frames_apart ?W" "interrupt_handlers s ! 32 = Some Timer_callback"
    using st(2) by (simp_all add: clock_ready_def)
  note u = user_modeD [OF cr(1)]
  have inv: "tasks_inv ?W T LS K q s" using activeD(1) [OF st(1)] by simp
  have ker: "in_kernel ?W K (irq_state ?W 32 s)" using cr(1) by (simp add: in_kernel_def user_mode_def irq_state_def)
  from clock_inv [OF inv cr(1-4)] obtain s1 where s1: "timer_callback ?W (irq_state ?W 32 s) = ret s1" "tasks_inv ?W T LS K (ticked ?W q (mem s)) s1"
    "\<forall>r. run_flags T (mem s1) r = run_flags T (mem s) r" "running_task s1 = running_task s" "k_reenter s1 = 0"
    "interrupt_handlers s1 = interrupt_handlers s" "wait_lock s1 = 0" "counters_ok s1" "frame_at (mem s1) (frame ?W s) = irq_frame ?W 32 s"
    "\<forall>t \<in> T. frame_at (mem s1) (task_state t) = frame_at (mem s) (task_state t)" by blast
  from clock_core [OF inv ker cr(2,3)] s1(1) have "\<forall>c. c \<notin> link_area T LS \<union> kframes ?W \<union> (\<Union>t \<in> T. span (t + 112) 28) \<longrightarrow>
      mem s1 c = push_frame (frame ?W s) ((registers ?W s)(9 := 32, 10 := 0)) (mem s) c" by auto
  from clock_else [OF tasks_invD(1) [OF inv] ker s1(1) this] have e: "elsewhere (task_area T LS \<union> K) s s1" .
  have act1: "active W T LS K (ticked ?W q (mem s)) s1" using clock_active [of ?W, OF _ s1(2-4)] st(1) by simp
  have k1: "kernel_at W K s1" using s1(5-8) by (intro kernel_at_ready [OF st(2)]) (simp_all add: cr(3))
  have int: "bnd (reschedule ?W (frame ?W s) (disable s1)) (\<lambda>s2. ret (end_of_interrupt s2\<lparr>iflag := iflag s\<rparr>)) = ret s'"
    using r interrupt_clock [OF u(4) cr(5), of ?W] s1(1) by simp
  from end_interrupt_keeps [OF act1 k1 _ s1(4) _ _ int [unfolded clocked_simps]] show ?thesis
    using u(2) s1(9,10) elsewhere_trans [OF e] kernel_okI [OF _ _ _ st(3)] by simp blast
qed

section \<open>A task is started or destroyed\<close>

lemma field_frames:
  assumes "\<And>c. c \<notin> link_area T LS \<Longrightarrow> m c = mem s c" and "layout_ok T LS K" and "t \<in> T"
  shows "frame_at m (task_state t) = frame_at (mem s) (task_state t)"
  using layout_state(1) [OF assms(2,3)] by (intro frame_at_frame assms(1)) blast

text \<open>The task structure lies in a block of its own.\<close>

lemma start_step:
  fixes s :: "'a kernel_state_scheme"
  assumes act: "active W T LS K q s" and ready: "clock_ready W K s" and pl: "placed W T LS K s L"
    and b: "(t, n) \<in> L" "140 \<le> unat n" "block_mem (t, n) \<inter> (task_area T LS \<union> K) = {}"
    and f: "mem s (task_flags t) = TS_READY" "mem s (sigs_waiting t) = 0" and r: "enter_list (tasks_ready W) t s = ret s'"
  shows "kernel_ok W LS K (insert t T) s' \<and> step_frames T s None s'"
proof -
  let ?T = "insert t T" and ?hp = "k_heap_start W" and ?R = "tasks_ready W"
  have live: "heap_even ?hp s L" and K: "task_area T LS \<union> K \<subseteq> even_heap.kept ?hp L" using pl by (auto simp: placed_def)
  note ba = blocks_apart_span [OF heap_even_apart [OF live] b(1), simplified]
  have sp: "span t 140 \<subseteq> block_mem (t, n)" unfolding ba(1) by (rule span_mono) (use b(2) in simp)
  have lay: "layout_ok ?T LS K" using b(3) sp ba(2,5) by (intro layout_ok_insert [OF tasks_invD(1) [OF activeD(1) [OF act]]]) auto
  have "t \<in> span t 140" by simp
  then have t: "t \<notin> T" using sp b(3) unfolding task_area_def by blast
  obtain m' where m': "enqueue (mem s) ?R t = Some m'" "\<forall>c. c \<notin> link_area ?T LS \<longrightarrow> m' c = mem s c"
    "active W ?T LS K (q(?R := ins_pri (node_pri (mem s)) t (q ?R))) (s\<lparr>mem := m'\<rparr>)"
    using new_task_active [OF act lay t refl refl f] by blast
  have s': "s' = s\<lparr>mem := m'\<rparr>" using r m'(1) by (simp add: enter_list_def ret_def)
  have link: "link_area ?T LS \<subseteq> task_area T LS \<union> span t 140" using link_area_tasks [of T LS] span_mono [of 8 140 t] by (auto simp: link_area_def)
  have area: "task_area ?T LS = span t 140 \<union> task_area T LS" by (auto simp: task_area_def)
  have kept: "task_area ?T LS \<subseteq> even_heap.kept ?hp L" using K sp b(1) unfolding area by (auto simp: even_heap.kept_def)
  have "heap_even ?hp s' L" unfolding s' using m'(2) kept link area by (intro heap_even_write [OF live]) blast
  then have pl': "placed W ?T LS K s' L" using kept K by (simp add: placed_def)
  have "clock_ready W K s'" using ready by (simp add: s' clock_ready_def user_mode_def counters_ok_def)
  then have ok: "kernel_ok W LS K ?T s'" using m'(3) pl' unfolding kernel_ok_def s' by blast
  have "frame_at m' (task_state x) = frame_at (mem s) (task_state x)" if "x \<in> T" for x
    using m'(2) that by (intro field_frames [of ?T LS, OF _ lay]) auto
  then show ?thesis using ok by (simp add: step_frames_def s')
qed

text \<open>A task other than the running one leaves its list, whichever it is in.\<close>

lemma remove_step:
  fixes s :: "'a kernel_state_scheme"
  assumes act: "active W T LS K q s" and ready: "clock_ready W K s" and pl: "placed W T LS K s L"
    and t: "t \<in> T" "t \<noteq> running_task s" and s': "s' = s\<lparr>mem := remove_node (mem s) t\<rparr>"
  shows "kernel_ok W LS K (T - {t}) s' \<and> step_frames T s None s'"
proof -
  let ?T = "T - {t}" and ?hp = "k_heap_start W" and ?R = "tasks_ready W" and ?m = "remove_node (mem s) t"
  note iv = tasks_invD [OF activeD(1) [OF act]] and act' = activeD [OF act]
  obtain M where M: "M \<in> LS" "t \<in> set (q M)" using act'(3) t by (auto simp: listed_def)
  let ?q = "q(M := remove1 t (q M))"
  have rem: "lists_ok T LS ?m ?q" "\<forall>c. c \<notin> link_area T LS \<longrightarrow> ?m c = mem s c"
    using lists_ok_remove [OF iv(1,5) M] by blast+
  have "distinct (q M)" using dll_facts [OF lists_okD(1) [OF iv(5) M(1)]] by simp
  then have sM: "set (?q M) = set (q M) - {t}" by simp
  have sN: "t \<notin> set (q N)" if "N \<in> LS" "N \<noteq> M" for N using lists_disjoint [OF iv(5)] that M by blast
  have set: "set (?q N) = set (q N) - {t}" if "N \<in> LS" for N using sM sN [OF that] by (cases "N = M") auto
  have f: "?m (x + k) = mem s (x + k)" if "x \<in> T" "8 \<le> unat k" "unat k < 140" for x k
    using layout_field(1) [OF iv(1) that] rem(2) by blast
  have w: "waiting LS ?R ?q x = waiting LS ?R q x" if "x \<noteq> t" for x using set that by (auto simp: waiting_def)
  have ff: "?m (task_flags x) = mem s (task_flags x)" "?m (sigs_waiting x) = mem s (sigs_waiting x)" if "x \<in> T" for x
    using f [of x 116] f [of x 120] that by (simp_all add: task_defs)
  have "task_ok ?m (waiting LS ?R ?q x) x" if "x \<in> ?T" for x
    using iv(7) [of x] w [of x] ff [of x] that by (simp add: task_ok_def)
  moreover have "lists_ok ?T LS ?m ?q" using rem(1) set lists_okD(3) [OF rem(1)] unfolding lists_ok_def by blast
  moreover have "layout_ok ?T LS K" using iv(1) by (simp add: layout_ok_def)
  ultimately have inv: "tasks_inv W ?T LS K ?q s'" using iv t by (simp add: tasks_inv_def s')
  have li: "listed LS ?q = listed LS q - {t}" using set by (auto simp: listed_def)
  have "run_flags ?T ?m (Some (running_task s))" using act'(4) ff by (simp add: run_flags_def)
  then have "active W ?T LS K ?q s'" using inv act'(2,3) t unfolding active_def li by (auto simp: s')
  moreover have "elsewhere (task_area T LS) s s'" using rem(2) task_area_parts(1) [of T LS] by (auto simp: elsewhere_def s')
  then have "placed W T LS K s' L" using placed_else [OF else_areas pl] by blast
  then have "placed W ?T LS K s' L" by (auto simp: placed_def task_area_def)
  moreover have "clock_ready W K s'" using ready by (simp add: s' clock_ready_def user_mode_def counters_ok_def)
  ultimately have "kernel_ok W LS K ?T s'" unfolding kernel_ok_def by blast
  moreover have "frame_at ?m (task_state x) = frame_at (mem s) (task_state x)" if "x \<in> T" for x
    using rem(2) that by (intro field_frames [of T LS, OF _ iv(1)]) auto
  ultimately show ?thesis by (simp add: step_frames_def s')
qed

section \<open>The keyboard\<close>

text \<open>A signal from inside the kernel: to a task that waits for it or not, of whatever priority.\<close>

lemma inside_signal:
  fixes s :: "'a kernel_state_scheme"
  assumes act: "active W T LS K q s" and ker: "in_kernel W K s" and small: "counters_ok s" and t: "t \<in> T"
    and r: "signal W t sigs s = ret (v, s')"
  shows "\<exists>q'. active W T LS K q' s'" "counters_ok s'" "running_task s' = running_task s" "k_reenter s' = k_reenter s"
    "interrupt_handlers s' = interrupt_handlers s" "wait_lock s' = wait_lock s" "elsewhere (task_area T LS \<union> kframes W) s s'"
    "x \<in> T \<Longrightarrow> frame_at (mem s') (task_state x) = frame_at (mem s) (task_state x)"
proof -
  have "(\<exists>q'. active W T LS K q' s') \<and> counters_ok s' \<and> running_task s' = running_task s \<and> k_reenter s' = k_reenter s \<and>
    interrupt_handlers s' = interrupt_handlers s \<and> wait_lock s' = wait_lock s \<and> elsewhere (task_area T LS \<union> kframes W) s s' \<and>
    (\<forall>x \<in> T. frame_at (mem s') (task_state x) = frame_at (mem s) (task_state x))"
  proof (cases "sigs \<noteq> 0 \<and> mem s (sigs_waiting t) AND sigs \<noteq> 0")
    case False
    then have "s' = s" using r by (auto simp: signal_def)
    then show ?thesis using act small elsewhere_refl by blast
  next
    case True
    note lay = tasks_invD(1) [OF activeD(1) [OF act]]
    from True obtain s1 where s1: "signal_enter W t sigs s = ret s1"
      "(if node_pri (mem s1) (running_task s1) \<le> node_pri (mem s1) t then yield W s1 else ret s1) = ret s'"
      using r by (auto simp: signal_def bnd_eq_ret)
    have sig: "mem s (sigs_waiting t) AND sigs \<noteq> 0" using True by blast
    note se = signal_enter_step [OF act t sig s1(1)]
    note k = se(2) [unfolded same_kernel_def]
    obtain q1 where q1: "active W T LS K q1 s1" using se(1) by blast
    have f: "forbid_counter s1 = forbid_counter s" using se(3) permit_forbid [of s] small by (simp add: counters_ok_def)
    have e1: "elsewhere (task_area T LS) s s1" by (rule signal_enter_keeps [OF act t sig s1(1)])
    then have e: "elsewhere (task_area T LS \<union> kframes W) s s1" by (rule elsewhere_mono) blast
    show ?thesis
    proof (cases "node_pri (mem s1) (running_task s1) \<le> node_pri (mem s1) t")
      case False
      then have "s' = s1" using s1(2) by simp
      then show ?thesis using q1 f k e se(4) small by (auto simp: counters_ok_def)
    next
      case True
      have ker1: "in_kernel W K s1" using ker k by (simp add: in_kernel_def)
      let ?m = "push_frame (frame W s1) (trap_frame SYSCALL_YIELD 0 (registers W s1)) (mem s1)"
      have s': "s' = s1\<lparr>mem := ?m, sched_state := sched_state s1 OR NEED_SCHEDULE, forbid_counter := 0\<rparr>"
        using True s1(2) nested_yield [OF ker1] by simp
      have "on_stack K (frame W s1)" using ker1 by (simp add: in_kernel_def)
      note push = push_on_stack [OF this, of "trap_frame SYSCALL_YIELD 0 (registers W s1)" "mem s1"]
      have "active W T LS K q1 (s1\<lparr>mem := ?m\<rparr>)" by (rule stack_write_active [OF q1 push])
      then have a: "active W T LS K q1 s'" by (subst active_same [of _ "s1\<lparr>mem := ?m\<rparr>"]) (simp_all add: s')
      have "0 \<le> sint (k_reenter s1)" using ker1 by (simp add: in_kernel_def)
      then have "span (frame W s1) 64 \<subseteq> kframes W" unfolding kframes_def by blast
      then have "?m c = mem s1 c" if "c \<notin> kframes W" for c using that by (intro push_frame_other) blast
      then have "elsewhere (task_area T LS \<union> kframes W) s1 s'" by (simp add: elsewhere_def s')
      moreover have "frame_at ?m (task_state x) = frame_at (mem s1) (task_state x)" if "x \<in> T" for x
        by (rule stack_write(6) [OF lay push that])
      ultimately show ?thesis using a k se(4) elsewhere_trans [OF e] by (auto simp: s' counters_ok_def)
    qed
  qed
  then show "\<exists>q'. active W T LS K q' s'" "counters_ok s'" "running_task s' = running_task s" "k_reenter s' = k_reenter s"
    "interrupt_handlers s' = interrupt_handlers s" "wait_lock s' = wait_lock s" "elsewhere (task_area T LS \<union> kframes W) s s'"
    "x \<in> T \<Longrightarrow> frame_at (mem s') (task_state x) = frame_at (mem s) (task_state x)" by blast+
qed

text \<open>In the handler of the keyboard, entered from the state \<open>s\<close>.\<close>

definition in_key :: "'a kernel_state_scheme sys \<Rightarrow> u32 set \<Rightarrow> u32 set \<Rightarrow> u32 set \<Rightarrow> 'a kernel_state_scheme \<Rightarrow> 'a kernel_state_scheme \<Rightarrow> bool" where
  "in_key W T LS K s z \<longleftrightarrow> (\<exists>q. active W T LS K q z) \<and> (\<exists>L. placed W T LS K z L) \<and> kernel_at W K z \<and> running_task z = running_task s \<and>
     frame_at (mem z) (frame W s) = irq_frame W 33 s \<and> (\<forall>t \<in> T. frame_at (mem z) (task_state t) = frame_at (mem s) (task_state t))"

lemma in_key_same:
  assumes z: "in_key W T LS K s z" and e: "mem z' = mem z" "running_task z' = running_task z" "heap_same z z'" "k_reenter z' = k_reenter z"
    "interrupt_handlers z' = interrupt_handlers z" "wait_lock z' = wait_lock z" "counters_ok z'"
  shows "in_key W T LS K s z'"
proof -
  have "active W T LS K q z' = active W T LS K q z" for q by (rule active_same [OF e(1,2)])
  moreover have "heap_even (k_heap_start W) z' L = heap_even (k_heap_start W) z L" for L
    using e(1,3) by (intro heap_even_cong) (simp_all add: heap_same_def)
  moreover have "kernel_at W K z'" using z e(4-7) kernel_at_same [of z' z] by (simp add: in_key_def)
  ultimately show ?thesis using z e(1,2) by (simp add: in_key_def placed_def)
qed

lemma in_key_signal:
  fixes s z :: "'a kernel_state_scheme"
  assumes z: "in_key W T LS K s z" and user: "user_mode W K s" and t: "t \<in> T" and r: "signal W t sigs z = ret (v, z')"
  shows "in_key W T LS K s z'"
proof -
  obtain q L where q: "active W T LS K q z" "placed W T LS K z L" "kernel_at W K z" "running_task z = running_task s"
    "frame_at (mem z) (frame W s) = irq_frame W 33 s" "\<forall>t \<in> T. frame_at (mem z) (task_state t) = frame_at (mem s) (task_state t)"
    using z unfolding in_key_def by blast
  note u = user_modeD [OF user]
  have ker: "in_kernel W K z" and cnt: "counters_ok z" using q(3) by (simp_all add: kernel_at_def in_kernel_def)
  note i = inside_signal [OF q(1) ker cnt t r]
  have "kernel_at W K z'" by (rule kernel_at_same [OF i(4,5,6,2) q(3)])
  moreover have "kframes W \<subseteq> K" using ker by (auto simp: kframes_def in_kernel_def on_stack_def)
  then have "elsewhere (task_area T LS \<union> K) z z'" using i(7) elsewhere_mono by blast
  then have "placed W T LS K z' L" using placed_else q(2) by blast
  moreover have "frame_at (mem z') (frame W s) = frame_at (mem z) (frame W s)"
  proof (rule frame_at_frame)
    fix c assume c: "c \<in> span (frame W s) 64"
    have "span (frame W s) 64 \<inter> kframes W = {}" using q(3) u(1) by (simp add: kernel_at_def frames_apart_def)
    moreover have "span (frame W s) 64 \<subseteq> K" using u(2) by (simp add: on_stack_def)
    ultimately have "c \<notin> task_area T LS \<union> kframes W"
      using c task_area_stack [OF tasks_invD(1) [OF activeD(1) [OF q(1)]]] by blast
    then show "mem z' c = mem z c" using i(7) by (simp add: elsewhere_def)
  qed
  ultimately show ?thesis using i(1,3,8) q unfolding in_key_def by auto
qed

text \<open>What the handler of the keyboard needs: its queue, pages for the two blocks of a message, and its variable outside the heap.\<close>

definition keys_ok ::
  "'a console_state_scheme sys \<Rightarrow> u32 set \<Rightarrow> u32 set \<Rightarrow> u32 set \<Rightarrow> console_mem \<Rightarrow> 'a console_state_scheme \<Rightarrow> bool" where
  "keys_ok W LS K T C s \<longleftrightarrow> interrupt_handlers s ! 33 = Some Keypress_isr \<and> 4 \<le> card (free_pages s) \<and>
     sint (forbid_counter s) < 2 ^ 31 - 2 \<and> aligned (isr_scancode C) \<and> isr_scancode C \<noteq> 0 \<and>
     isr_scancode C \<in> even_heap.kept (k_heap_start W) {} - K - task_area T LS \<and>
     (\<exists>q L Q cap own ms. queue_inv W T LS K q L Q cap 4 own ms s \<and> keybd_queue s = fst Q)"

lemma key_handler:
  fixes s :: "'a console_state_scheme"
  assumes ready: "clock_ready W K s" and vars: "vars_ok W K" and keys: "keys_ok W LS K T C s"
    and r: "keypress_isr env C W (irq_state W 33 s) = ret s1"
  shows "in_key W T LS K s s1"
proof -
  let ?hp = "k_heap_start W" and ?v = "env (io s) 0x60"
  obtain q L Q cap own ms where inv: "queue_inv W T LS K q L Q cap 4 own ms s" and Q: "keybd_queue s = fst Q"
    and room: "4 \<le> card (free_pages s)" and small: "sint (forbid_counter s) < 2 ^ 31 - 2"
    and scan: "aligned (isr_scancode C)" "isr_scancode C \<noteq> 0" "isr_scancode C \<in> even_heap.kept ?hp {} - K - task_area T LS"
    using keys unfolding keys_ok_def by blast
  define sk where "sk = key_state ?v C W s"
  have user: "user_mode W K s" and wl: "wait_lock s = 0" and cnt: "counters_ok s" using ready by (simp_all add: clock_ready_def)
  note u = user_modeD [OF user] and iv0 = queue_invD [OF inv]
  have lay: "layout_ok T LS K" by (rule tasks_invD(1) [OF activeD(1) [OF iv0(1)]])
  note ks = key_state_queue(1-4) [OF inv user scan(1,3), where v = ?v, folded sk_def] and bytes = key_state_queue(5) [OF inv user scan(1,3)]
  note kq = queue_invD [OF ks(1)]
  have k: "running_task sk = running_task s" "k_reenter sk = 0" "forbid_counter sk = forbid_counter s"
    "interrupt_handlers sk = interrupt_handlers s" "wait_lock sk = 0" using u(1) wl by (simp_all add: sk_def key_state_def irq_state_def disable_def upd_def)
  have ka: "kernel_at W K z" if "k_reenter z = 0" "interrupt_handlers z = interrupt_handlers s" "wait_lock z = 0" "counters_ok z"
    for z :: "'a console_state_scheme" using that wl by (intro kernel_at_ready [OF ready]) simp_all
  have mt: "mem sk c = mem s c" if "c \<in> task_area T LS" for c
    using that task_area_stack [OF lay] scan(3) by (intro ks(3)) blast+
  have "\<forall>t \<in> T. frame_at (mem sk) (task_state t) = frame_at (mem s) (task_state t)" using task_frames_same [of T LS "mem sk" "mem s"] mt by blast
  then have sk: "in_key W T LS K s sk"
    using kq(1,4,5) ka [OF k(2,4,5) kq(3)] k(1) ks(4) unfolding in_key_def placed_def by blast
  have fsmall: "counters_ok (forbid sk)" using cnt small sint_add_1 [of "forbid_counter s"] k(3) by (simp add: counters_ok_def forbid_def)
  show ?thesis
  proof (cases "?v AND 0x80 = 0")
    case False
    have "(ucast ?v :: u32) AND 0x80 = ucast (?v AND 0x80)" by (rule bit_word_eqI) (auto simp: bit_simps dest: bit_imp_le_length)
    moreover have "(ucast w :: u32) \<noteq> 0" if "w \<noteq> 0" for w :: u8
    proof
      assume "(ucast w :: u32) = 0"
      moreover have "ucast (ucast w :: u32) = w" by (rule bit_word_eqI) (auto simp: bit_simps dest: bit_imp_le_length)
      ultimately show False using that by simp
    qed
    ultimately have "(ucast ?v :: u32) AND 0x80 \<noteq> 0" using False by metis
    then have "s1 = upd (isr_scancode C) (ucast ?v) (irq_state W 33 s\<lparr>io := io s @ [InB 0x60 ?v]\<rparr>)"
      using r by (simp add: keypress_isr_def inb_def Let_def irq_state_def)
    then show ?thesis using kq(3)
      by (intro in_key_same [OF sk]) (simp_all add: sk_def key_state_def upd_def disable_def heap_same_def counters_ok_def)
  next
    case True
    note run = keypress_sends [of env s ?v, OF refl True, of C W, folded sk_def, unfolded Q]
    show ?thesis
    proof (cases "length ms < unat cap")
      case False
      have "length ms \<le> unat cap" using iv0(8) by (simp add: queue_rep_def)
      then have "queue_send W (fst Q) (isr_scancode C) QM_NONBLOCKING sk = ret (0, forbid sk)"
        using False by (intro queue_returns_early(1) [OF queue_holdsI [OF ks(1) refl]]) (simp_all add: QM_NONBLOCKING_def QM_BLOCKING_def)
      then have "s1 = enable (forbid sk)" using r run by simp
      then show ?thesis using fsmall
        by (intro in_key_same [OF sk]) (simp_all add: heap_same_def enable_def forbid_def counters_ok_def)
    next
      case len: True
      have sz: "even_size 4" "unat (4 :: u32) \<le> 2032" by (simp_all add: even_size_def align_size_def)
      have room': "4 \<le> card (free_pages sk)" using room by (simp add: sk_def)
      have bc: "byte_cells (isr_scancode C) (unat (4 :: u32)) \<subseteq> even_heap.kept ?hp L - K" using bytes by simp
      obtain b d s5 where
        send: "queue_send W (fst Q) (isr_scancode C) QM_NONBLOCKING sk =
            bnd (if ms = [] then bnd (signal W own TB_QUEUE s5) (\<lambda>(r, s). ret s) else ret s5) (\<lambda>s. ret (fst b, permit s))"
        and s5: "same_tasks (forbid sk) s5" "settled W T LS K q (insert d (insert b L)) s5"
          "\<forall>c \<in> even_heap.kept ?hp L - call_stack W K sk - queue_area Q ms. mem s5 c = mem sk c"
        using queue_send_enters [OF ks(1) vars room' sz len scan(2) bc, of QM_NONBLOCKING] by (elim exE conjE) (rule that)
      have t5: "running_task s5 = running_task s" "k_reenter s5 = 0" "interrupt_handlers s5 = interrupt_handlers s" "wait_lock s5 = 0"
        "forbid_counter s5 = forbid_counter (forbid sk)"
        using s5(1) k by (simp_all add: same_tasks_def same_kernel_def forbid_def)
      have cs: "call_stack W K sk = kframes W \<union> range (stack_var W)" using k(2) by (simp add: call_stack_def)
      have csK: "call_stack W K sk \<subseteq> K" using kq(2) vars by (rule call_stack_on)
      have area: "task_area T LS \<inter> (K \<union> queue_area Q ms) = {}" "task_area T LS \<union> K \<subseteq> even_heap.kept ?hp L"
        "K \<inter> queue_area Q ms = {}" using iv0(5,9) task_area_stack [OF lay] by blast+
      have m5: "mem s5 c = mem s c" if c: "c \<in> task_area T LS" for c
      proof -
        have "mem s5 c = mem sk c" using s5(3) c area csK by blast
        then show ?thesis using mt [OF c] by simp
      qed
      have fK: "span (frame W s) 64 \<subseteq> K" using u(2) by (simp add: on_stack_def)
      have "span (frame W s) 64 \<inter> kframes W = {}" using ready u(1) by (simp add: clock_ready_def frames_apart_def)
      moreover have "span (frame W s) 64 \<inter> range (stack_var W) = {}" using vars by (auto simp: vars_ok_def)
      ultimately have "mem s5 c = mem sk c" if "c \<in> span (frame W s) 64" for c using that s5(3) fK area(2,3) unfolding cs by blast
      then have f5: "frame_at (mem s5) (frame W s) = irq_frame W 33 s" using ks(4) frame_at_frame [of "frame W s" "mem s5" "mem sk"] by simp
      have c5: "counters_ok s5" using fsmall t5(5) by (simp add: counters_ok_def)
      have "\<forall>t \<in> T. frame_at (mem s5) (task_state t) = frame_at (mem s) (task_state t)" using task_frames_same [of T LS "mem s5" "mem s"] m5 by blast
      then have z5: "in_key W T LS K s s5"
        using settledD(1,4,5) [OF s5(2)] ka [OF t5(2,3,4) c5] t5(1) f5 unfolding in_key_def placed_def by blast
      obtain s6 where s6: "in_key W T LS K s s6" "s1 = enable (permit s6)"
      proof (cases "ms = []")
        case True
        then obtain v s6 where "signal W own TB_QUEUE s5 = ret (v, s6)" "s1 = enable (permit s6)"
          using r unfolding run send by (auto simp: bnd_eq_ret)
        then show ?thesis using that in_key_signal [OF z5 user iv0(6)] by blast
      next
        case False
        then have "s1 = enable (permit s5)" using r unfolding run send by simp
        then show ?thesis using that z5 by blast
      qed
      have "counters_ok s6" using s6(1) by (simp add: in_key_def kernel_at_def)
      then have "counters_ok (permit s6)" using permit_small [of s6] by (simp add: counters_ok_def)
      then show ?thesis unfolding s6(2)
        by (intro in_key_same [OF s6(1)]) (simp_all add: heap_same_def enable_def permit_def counters_ok_def)
    qed
  qed
qed

lemma clocked_queues [simp]:
  "queue_inv (clocked W) = queue_inv W" "vars_ok (clocked W) = vars_ok W" "keys_ok (clocked W) = keys_ok W"
proof -
  show q: "queue_inv (clocked W) = queue_inv W" by (intro ext) (simp add: queue_inv_def)
  show "vars_ok (clocked W) = vars_ok W" by (intro ext) (simp add: vars_ok_def)
  show "keys_ok (clocked W) = keys_ok W" by (intro ext) (simp add: keys_ok_def q)
qed

lemma key_step:
  fixes s :: "'a console_state_scheme"
  assumes ok: "kernel_ok W LS K T s" and vars: "vars_ok W K" and keys: "keys_ok W LS K T C s"
    and r: "interrupt (clocked W) (hardware_call env C (clocked W)) 33 s = ret s'"
  shows "kernel_ok W LS K T s' \<and> step_frames T s (Some (frame W s, irq_frame W 33 s)) s'"
proof -
  let ?W = "clocked W"
  have ready: "clock_ready W K s" using kernel_okD [OF ok] by blast
  have u: "length (interrupt_handlers s) = 256" "\<And>s. on_stack K (frame W s)" using ready by (simp_all add: clock_ready_def user_mode_def)
  have irq: "interrupt_handlers s ! 33 = Some Keypress_isr" using keys by (simp add: keys_ok_def)
  obtain s1 where s1: "keypress_isr env C ?W (irq_state ?W 33 s) = ret s1"
    "bnd (reschedule ?W (frame W s) (disable s1)) (\<lambda>s2. ret (end_of_interrupt s2\<lparr>iflag := iflag s\<rparr>)) = ret s'"
    using r interrupt_keys [OF u(1) irq, of ?W env C] by (auto simp: bnd_eq_ret)
  have "in_key ?W T LS K s s1" using ready vars keys by (intro key_handler [OF _ _ _ s1(1)]) simp_all
  then obtain q L where z: "active W T LS K q s1" "placed W T LS K s1 L" "kernel_at W K s1" "running_task s1 = running_task s"
    "frame_at (mem s1) (frame W s) = irq_frame W 33 s" "\<And>t. t \<in> T \<Longrightarrow> frame_at (mem s1) (task_state t) = frame_at (mem s) (task_state t)"
    by (auto simp: in_key_def placed_def kernel_at_def)
  from end_interrupt_keeps [OF z(1,3) u(2) z(4,5,6) s1(2)] show ?thesis using kernel_okI [OF _ _ _ z(2)] by blast
qed

end
