(* ===== verification/KRuns.thy ===== *)
theory KRuns
  imports StepCalls KeyRead
begin

text \<open>
  Runs of the kernel: one inductive relation with a clause for each system call, each routine of task.c and each interrupt, under
  the conditions the caller has to keep, and its closure. The set of the tasks is a part of the configuration, since tasks are
  started and destroyed. Every step keeps the invariant of the kernel, and a task that is dispatched again gets the register frame
  it was stopped with.
\<close>

section \<open>Steps\<close>

text \<open>\<open>kstep W LS K C T s l T' s'\<close>: with the tasks \<open>T\<close>, a step leads from \<open>s\<close> to \<open>s'\<close> and to the tasks \<open>T'\<close>. The label says where a
  step that traps pushes which frame. \<open>create_task\<close> is the steps kmalloc, kmalloc, work, forbid, start and permit; \<open>destroy_task\<close> of
  another task is forbid, remove, kfree, kfree and permit; \<open>queue_send\<close> on a queue that is not full is forbid, kmalloc and work, twice, signal
  and permit.\<close>

inductive kstep ::
  "'a console_state_scheme sys \<Rightarrow> u32 set \<Rightarrow> u32 set \<Rightarrow> console_mem \<Rightarrow>
   u32 set \<Rightarrow> 'a console_state_scheme \<Rightarrow> (u32 \<times> u32 list) option \<Rightarrow> u32 set \<Rightarrow> 'a console_state_scheme \<Rightarrow> bool"
  for W LS K C where
  step_yield: "trap W SYSCALL_YIELD 0 s = ret s' \<Longrightarrow> kstep W LS K C T s (Some (frame W s, yield_frame W s)) T s'"
| step_wait: "one_signal sigs \<Longrightarrow> L \<in> LS \<Longrightarrow> L \<noteq> tasks_ready W \<Longrightarrow> wait_enter sigs L s = ret s1 \<Longrightarrow>
    trap W SYSCALL_YIELD 0 s1 = ret s' \<Longrightarrow> kstep W LS K C T s (Some (frame W s1, yield_frame W s1)) T s'"
| step_signal: "t \<in> T \<Longrightarrow> mem s (sigs_waiting t) AND sigs \<noteq> 0 \<Longrightarrow> signal_enter W t sigs s = ret s' \<Longrightarrow>
    \<not> node_pri (mem s') (running_task s') \<le> node_pri (mem s') t \<Longrightarrow> kstep W LS K C T s None T s'"
| step_signal_yield: "t \<in> T \<Longrightarrow> mem s (sigs_waiting t) AND sigs \<noteq> 0 \<Longrightarrow> signal_enter W t sigs s = ret s1 \<Longrightarrow>
    node_pri (mem s1) (running_task s1) \<le> node_pri (mem s1) t \<Longrightarrow> trap W SYSCALL_YIELD 0 s1 = ret s' \<Longrightarrow>
    kstep W LS K C T s (Some (frame W s1, yield_frame W s1)) T s'"
| step_clock: "interrupt W (clock_isr W) 32 s = ret s' \<Longrightarrow> kstep W LS K C T s (Some (frame W s, irq_frame W 32 s)) T s'"
| step_key: "keys_ok W LS K T C s \<Longrightarrow> interrupt W (hardware_call env C W) 33 s = ret s' \<Longrightarrow>
    kstep W LS K C T s (Some (frame W s, irq_frame W 33 s)) T s'"
| step_forbid: "sint (forbid_counter s) < 2 ^ 31 - 2 \<Longrightarrow> kstep W LS K C T s None T (forbid s)"
| step_permit: "kstep W LS K C T s None T (permit s)"
| step_set_delay: "kstep W LS K C T s None T (upd (task_delay (running_task s)) ticks s)"
| step_work: "placed W T LS K s L \<Longrightarrow> A \<subseteq> even_heap.kept (k_heap_start W) L - (task_area T LS \<union> K) \<Longrightarrow> own_work A s s' \<Longrightarrow>
    kstep W LS K C T s None T s'"
| step_kmalloc: "even_size sz \<Longrightarrow> s0 = upd (stack_var W s) sz s \<Longrightarrow> trap W SYSCALL_KMALLOC (stack_var W s) s0 = ret s' \<Longrightarrow>
    kstep W LS K C T s (Some (frame W s0, call_frame W SYSCALL_KMALLOC (stack_var W s) s0)) T s'"
| step_kfree: "placed W T LS K s L \<Longrightarrow> (p, n) \<in> L \<Longrightarrow> block_mem (p, n) \<inter> (task_area T LS \<union> K) = {} \<Longrightarrow>
    trap W SYSCALL_KFREE p s = ret s' \<Longrightarrow> kstep W LS K C T s (Some (frame W s, call_frame W SYSCALL_KFREE p s)) T s'"
| step_map: "outside_heap s va \<Longrightarrow> s0 = upd (stack_var W s + 8) fl (upd (stack_var W s + 4) va (upd (stack_var W s) pa s)) \<Longrightarrow>
    trap W SYSCALL_MMMAP (stack_var W s) s0 = ret s' \<Longrightarrow>
    kstep W LS K C T s (Some (frame W s0, call_frame W SYSCALL_MMMAP (stack_var W s) s0)) T s'"
| step_unmap: "outside_heap s va \<Longrightarrow> trap W SYSCALL_MMUNMAP va s = ret s' \<Longrightarrow>
    kstep W LS K C T s (Some (frame W s, call_frame W SYSCALL_MMUNMAP va s)) T s'"
| step_start: "placed W T LS K s L \<Longrightarrow> (t, n) \<in> L \<Longrightarrow> 140 \<le> unat n \<Longrightarrow> block_mem (t, n) \<inter> (task_area T LS \<union> K) = {} \<Longrightarrow>
    mem s (task_flags t) = TS_READY \<Longrightarrow> mem s (sigs_waiting t) = 0 \<Longrightarrow> enter_list (tasks_ready W) t s = ret s' \<Longrightarrow>
    kstep W LS K C T s None (insert t T) s'"
| step_remove: "t \<in> T \<Longrightarrow> t \<noteq> running_task s \<Longrightarrow> kstep W LS K C T s None (T - {t}) (s\<lparr>mem := remove_node (mem s) t\<rparr>)"

lemma clocked_steps [simp]:
  "placed (clocked W) = placed W" "call_frame (clocked W) = call_frame W"
proof -
  show "placed (clocked W) = placed W" by (intro ext) (simp add: placed_def)
  show "call_frame (clocked W) = call_frame W" by (intro ext) (simp add: call_frame_def clocked_def)
qed

lemma kstep_keeps:
  fixes s :: "'a console_state_scheme"
  assumes "kstep (clocked W) LS K C T s l T' s'" and ok: "kernel_ok W LS K T s" and vars: "vars_ok W K" "args_ok W K"
  shows "kernel_ok W LS K T' s' \<and> step_frames (T \<inter> T') s l s'"
proof -
  obtain q where st: "active W T LS K q s" "clock_ready W K s" using ok unfolding kernel_ok_def by blast
  have mono: "step_frames T s l s' \<Longrightarrow> step_frames (T \<inter> U) s l s'" for U l s' by (simp add: step_frames_def)
  show ?thesis
    using assms(1)
  proof cases
    case step_yield
    then show ?thesis using yield_step [OF ok] by simp
  next
    case (step_wait sigs WL s1)
    then show ?thesis using wait_step [OF ok, of sigs WL s1 s'] by simp
  next
    case (step_signal t sigs)
    then show ?thesis using signal_step [OF ok, of t sigs s'] by simp
  next
    case (step_signal_yield t sigs s1)
    then show ?thesis using signal_yield_step [OF ok, of t sigs s1 s'] by simp
  next
    case step_clock
    then show ?thesis using clock_step [OF ok] by simp
  next
    case (step_key env)
    then show ?thesis using key_step [OF ok vars(1), of C env s'] by simp
  next
    case step_forbid
    then show ?thesis using forbid_step [OF ok] by simp
  next
    case step_permit
    then show ?thesis using permit_step [OF ok] by simp
  next
    case (step_set_delay ticks)
    then show ?thesis using delay_step [OF ok step_set_delay(3)] by simp
  next
    case (step_work L A)
    then show ?thesis using work_step [OF st, of L A s'] by simp
  next
    case (step_kmalloc sz s0)
    then show ?thesis using kmalloc_step [OF ok vars(1), of sz s0 s'] by simp
  next
    case (step_kfree L p n)
    then show ?thesis using kfree_step [OF st, of L p n s'] by simp
  next
    case (step_map va s0 fl pa)
    then show ?thesis using map_step [OF ok vars(2), of va s0 fl pa s'] by simp
  next
    case (step_unmap va)
    then show ?thesis using unmap_step [OF ok, of va s'] by simp
  next
    case (step_start L t n)
    then show ?thesis using start_step [OF st, of L t n s'] by (simp add: Int_absorb2 subset_insertI)
  next
    case (step_remove t)
    obtain L where L: "placed W T LS K s L" using ok unfolding kernel_ok_def by blast
    show ?thesis using remove_step [OF st L step_remove(4,5,3)] mono unfolding step_remove(1,2) by blast
  qed
qed

section \<open>Runs\<close>

inductive krun ::
  "'a console_state_scheme sys \<Rightarrow> u32 set \<Rightarrow> u32 set \<Rightarrow> console_mem \<Rightarrow> u32 set \<Rightarrow> 'a console_state_scheme \<Rightarrow>
   u32 set \<Rightarrow> 'a console_state_scheme \<Rightarrow> bool"
  for W LS K C T s where
  krun_start: "krun W LS K C T s T s"
| krun_step: "krun W LS K C T s T1 s1 \<Longrightarrow> kstep W LS K C T1 s1 l T2 s2 \<Longrightarrow> krun W LS K C T s T2 s2"

text \<open>Runs in which a task exists and does not run.\<close>

inductive absent ::
  "'a console_state_scheme sys \<Rightarrow> u32 set \<Rightarrow> u32 set \<Rightarrow> console_mem \<Rightarrow> u32 \<Rightarrow> u32 set \<Rightarrow> 'a console_state_scheme \<Rightarrow>
   u32 set \<Rightarrow> 'a console_state_scheme \<Rightarrow> bool"
  for W LS K C t T s where
  absent_start: "running_task s \<noteq> t \<Longrightarrow> t \<in> T \<Longrightarrow> absent W LS K C t T s T s"
| absent_step: "absent W LS K C t T s T1 s1 \<Longrightarrow> kstep W LS K C T1 s1 l T2 s2 \<Longrightarrow> running_task s2 \<noteq> t \<Longrightarrow> t \<in> T2 \<Longrightarrow>
    absent W LS K C t T s T2 s2"

lemma krun_keeps:
  "krun (clocked W) LS K C T s T' s' \<Longrightarrow> kernel_ok W LS K T s \<Longrightarrow> vars_ok W K \<Longrightarrow> args_ok W K \<Longrightarrow> kernel_ok W LS K T' s'"
proof (induction rule: krun.induct)
  case (krun_step T1 s1 l T2 s2)
  then show ?case using kstep_keeps [OF krun_step.hyps(2)] by blast
qed

lemma absent_there: "absent W LS K C t T s T' s' \<Longrightarrow> t \<in> T \<and> t \<in> T' \<and> running_task s \<noteq> t \<and> running_task s' \<noteq> t"
  by (induction rule: absent.induct) auto

lemma absent_frame:
  "absent (clocked W) LS K C t T s T' s' \<Longrightarrow> kernel_ok W LS K T s \<Longrightarrow> vars_ok W K \<Longrightarrow> args_ok W K \<Longrightarrow>
    kernel_ok W LS K T' s' \<and> frame_at (mem s') (task_state t) = frame_at (mem s) (task_state t)"
proof (induction rule: absent.induct)
  case (absent_step T1 s1 l T2 s2)
  then have k: "kernel_ok W LS K T1 s1" "frame_at (mem s1) (task_state t) = frame_at (mem s) (task_state t)" by blast+
  have "kernel_ok W LS K T2 s2" "step_frames (T1 \<inter> T2) s1 l s2"
    using kstep_keeps [OF absent_step.hyps(2) k(1) absent_step.prems(2,3)] by blast+
  then show ?case using k(2) absent_step.hyps(4) absent_there [OF absent_step.hyps(1)] by (auto simp: step_frames_def)
qed blast

section \<open>Runs of a concrete kernel\<close>

lemma queue_kernel_ok:
  assumes "queue_holds W T LS K q L A queue cap sz own xs s" and "clock_ready W K s"
  shows "kernel_ok W LS K T s" and "active W T LS K q s"
proof -
  obtain Q ms where "queue_inv W T LS K q L Q cap sz own ms s" using assms(1) by (rule queue_holdsE) blast
  note iv = queue_invD [OF this]
  show "active W T LS K q s" by (rule iv(1))
  have "placed W T LS K s L" using iv(4,5) by (simp add: placed_def)
  then show "kernel_ok W LS K T s" using iv(1) assms(2) unfolding kernel_ok_def by blast
qed

lemma key_args: "args_ok key_sys demo_stack"
  by (simp add: args_ok_def key_sys_def demo_stack_def span_def)

lemma key_yields:
  fixes s :: console_state
  assumes ok: "kernel_ok key_sys demo_lists demo_stack demo_tasks s" and act: "active key_sys demo_tasks demo_lists demo_stack q s"
    and q: "q 0x20000 = [n]" and pri: "node_pri (mem s) n = 0" "node_pri (mem s) (running_task s) = 0"
  shows "\<exists>s'. kstep (clocked key_sys) demo_lists demo_stack C demo_tasks s (Some (frame key_sys s, yield_frame key_sys s)) demo_tasks s' \<and>
    running_task s' = n \<and> active key_sys demo_tasks demo_lists demo_stack (q(0x20000 := [running_task s])) s' \<and>
    kernel_ok key_sys demo_lists demo_stack demo_tasks s' \<and> (\<forall>t \<in> demo_tasks. node_pri (mem s') t = node_pri (mem s) t)"
proof -
  have a: "active (clocked key_sys) demo_tasks demo_lists demo_stack q s" "user_mode (clocked key_sys) demo_stack s"
    using act kernel_okD [OF ok] by (simp_all add: clock_ready_def)
  have "ins_pri (node_pri (mem s)) (running_task s) (q (tasks_ready (clocked key_sys))) = [n, running_task s]" using q pri by simp
  from yield_ready [OF a this] obtain s' where s': "trap (clocked key_sys) SYSCALL_YIELD 0 s = ret s'" "running_task s' = n"
    "active key_sys demo_tasks demo_lists demo_stack (q(0x20000 := [running_task s])) s'" "data_same demo_tasks (mem s) (mem s')"
    by (auto simp: dispatched_def)
  have "kstep (clocked key_sys) demo_lists demo_stack C demo_tasks s (Some (frame key_sys s, yield_frame key_sys s)) demo_tasks s'"
    using kstep.step_yield [OF s'(1), of demo_lists demo_stack C demo_tasks] by simp
  then show ?thesis using s' data_sameD(4) [OF s'(4)] yield_step [OF ok s'(1)] by blast
qed

section \<open>Properties\<close>

text \<open>C6. The kernel invariant, between the steps of a run. The steps are exactly these: a clock or a keyboard interrupt that is taken
  in a task (the latter while four pages are free and the variables of its queue are well formed); the system call yield; \<open>wait\<close> for
  one signal on a list other than the ready list; \<open>signal\<close> to a task that waits for it; \<open>forbid\<close> short of its overflow, \<open>permit\<close>, and
  the running task setting its delay; its use of ports, of the screen and of memory apart from the kernel stack, the tasks, the lists
  and the heap's own words; \<open>kmalloc\<close> of an odd multiple of 16 after rounding; \<open>kfree\<close> of a block in use that holds no task; \<open>mm_map\<close> and
  \<open>mm_unmap\<close> of an address outside the range and the page tables of the heap; the entry of a new task in the ready list; the
  removal of a task other than the running one. Each call is one step: a run has no interrupt inside a call, where the invariant
  need not hold (C37 shows a clock interrupt inside \<open>wait\<close> break it), and while the scheduler halts only the clock interrupts. A
  call that panics or faults ends the run. From a state with the invariant, every run leads to a state in which every task but
  the running one is in exactly one list, lists are doubly linked and ordered by priority, a task in the ready list is ready and
  one in another list is not, only the running task has \<open>TS_RUN\<close>, the kernel is ready for the next trap, and the heap is regular
  and apart from the tasks, the lists and the stack.\<close>

theorem kernel_invariant:
  fixes s :: "'a console_state_scheme"
  assumes "kernel_ok W LS K T s" and "vars_ok W K" and "args_ok W K" and "krun (clocked W) LS K C T s T' s'"
  shows "clock_ready W K s' \<and> running_task s' \<in> T' \<and>
    (\<exists>q'. (\<forall>L \<in> LS. dll (mem s') L (q' L) \<and> by_pri (node_pri (mem s')) (q' L)) \<and>
      (\<forall>t \<in> T'. if t = running_task s' then \<forall>L \<in> LS. t \<notin> set (q' L) else \<exists>!L. L \<in> LS \<and> t \<in> set (q' L)) \<and>
      (\<forall>t \<in> T'. (mem s' (task_flags t) AND TS_RUN \<noteq> 0) = (t = running_task s')) \<and>
      (\<forall>t \<in> T'. (mem s' (task_flags t) AND TS_READY \<noteq> 0) = (t = running_task s' \<or> t \<in> set (q' (tasks_ready W))))) \<and>
    (\<exists>L. heap_even (k_heap_start W) s' L \<and> task_area T' LS \<union> K \<subseteq> even_heap.kept (k_heap_start W) L)"
proof -
  obtain q' L where q': "active W T' LS K q' s'" "clock_ready W K s'" "placed W T' LS K s' L"
    using krun_keeps [OF assms(4,1-3)] unfolding kernel_ok_def by blast
  note act = activeD [OF q'(1)] and iv = tasks_invD [OF activeD(1) [OF q'(1)]]
  note lists = lists_okD [OF iv(5)]
  have one: "\<exists>!L. L \<in> LS \<and> t \<in> set (q' L)" if "t \<in> T'" "t \<noteq> running_task s'" for t
    using act(3) that lists_disjoint [OF iv(5)] by (auto simp: listed_def)
  have none: "t \<notin> set (q' L)" if "t = running_task s'" "L \<in> LS" for t L using act(2) that by (auto simp: listed_def)
  have wait: "waiting LS (tasks_ready W) q' t \<longleftrightarrow> t \<noteq> running_task s' \<and> t \<notin> set (q' (tasks_ready W))" if "t \<in> T'" for t
    using one [OF that] none iv(2) unfolding waiting_def by metis
  have ready: "(mem s' (task_flags t) AND TS_READY \<noteq> 0) = (t = running_task s' \<or> t \<in> set (q' (tasks_ready W)))" if "t \<in> T'" for t
    using iv(7) [OF that] wait [OF that] by (auto simp: task_ok_def split: if_splits)
  have run: "(mem s' (task_flags t) AND TS_RUN \<noteq> 0) = (t = running_task s')" if "t \<in> T'" for t
    using act(4) that by (auto simp: run_flags_def)
  have heap: "\<exists>L. heap_even (k_heap_start W) s' L \<and> task_area T' LS \<union> K \<subseteq> even_heap.kept (k_heap_start W) L"
    using q'(3) unfolding placed_def by blast
  show ?thesis using q'(2) iv(6) lists(1,2) one none ready run by (intro conjI heap exI [of _ q']) auto
qed

theorem kernel_invariant_witness:
  "\<exists>(s :: console_state) C s'. krun (clocked key_sys) demo_lists demo_stack C demo_tasks s demo_tasks s' \<and> running_task s = 0x11000 \<and>
    running_task s' = 0x10000 \<and> (\<forall>t \<in> demo_tasks. (mem s' (task_flags t) AND TS_RUN \<noteq> 0) = (t = running_task s'))"
proof -
  let ?W = "clocked key_sys" and ?C = "\<lparr>keybd_device = 0x90000, isr_scancode = 0x42000, key_var = 0x90200, iorq_var = 0x90300\<rparr>"
  obtain s :: console_state and L A where
    s: "queue_holds key_sys demo_tasks demo_lists demo_stack key_q L A (keybd_queue s) 1 4 0x10000 [] s"
      "clock_ready key_sys demo_stack s" "interrupt_handlers s ! 33 = Some Keypress_isr" "4 \<le> card (free_pages s)"
    and f: "forbid_counter s = 0" "running_task s = 0x11000" "mem s (sigs_waiting 0x10000) = TB_QUEUE"
      "node_pri (mem s) 0x10000 = 0" "node_pri (mem s) 0x11000 = 0"
    using key_kernel_queue by (elim exE conjE) (rule that)
  obtain Q ms where Q: "keybd_queue s = fst Q" "queue_inv key_sys demo_tasks demo_lists demo_stack key_q L Q 1 4 0x10000 [] s"
    using s(1) by (rule queue_holdsE) simp
  have C: "aligned (isr_scancode ?C)" "isr_scancode ?C \<noteq> 0"
    "isr_scancode ?C \<in> even_heap.kept (k_heap_start ?W) {} - demo_stack - task_area demo_tasks demo_lists"
    using key_placed(2) by (simp_all add: aligned_def)
  have inv: "queue_inv ?W demo_tasks demo_lists demo_stack key_q L Q 1 4 0x10000 [] s" "user_mode ?W demo_stack s" "frames_apart ?W" "vars_ok ?W demo_stack"
    using Q(2) s(2) key_frames key_vars by (simp_all add: clock_ready_def)
  have h: "0 < unat (1 :: u32)" "sint (forbid_counter s) < 2 ^ 31 - 2" "(30 :: u8) AND 0x80 = 0" "0x10000 \<in> set (key_q (tasks_wait ?W))"
    "mem s (sigs_waiting 0x10000) AND TB_QUEUE \<noteq> 0" "node_pri (mem s) (running_task s) \<le> node_pri (mem s) 0x10000"
    "ins_pri (node_pri (mem s)) (running_task s) (ins_pri (node_pri (mem s)) 0x10000 (key_q (tasks_ready ?W))) = 0x10000 # [0x11000]"
    using f by (simp_all add: key_q_def TB_QUEUE_def)
  from keyboard_dispatches [where env = "\<lambda>_ _. 30", OF inv(1,2) s(3) inv(3,4) s(4) h(1) C refl h(3) Q(1) h(2,4-7)] obtain s' where
    s': "interrupt ?W (hardware_call (\<lambda>_ _. 30) ?C ?W) 33 s = ret s'" "running_task s' = 0x10000"
    by (elim exE conjE) (rule that)
  have "keys_ok ?W demo_lists demo_stack demo_tasks ?C s"
    using s(3,4) h(2) C Q inv(1) unfolding keys_ok_def by blast
  then have "krun ?W demo_lists demo_stack ?C demo_tasks s demo_tasks s'"
    by (rule krun_step [OF krun_start kstep.step_key [OF _ s'(1)]])
  moreover from kernel_invariant [OF queue_kernel_ok(1) [OF s(1,2)] key_vars key_args this]
  have "\<forall>t \<in> demo_tasks. (mem s' (task_flags t) AND TS_RUN \<noteq> 0) = (t = running_task s')" by blast
  ultimately show ?thesis using f(2) s'(2) by blast
qed

text \<open>C5. Context switching, over the steps that C6 lists: calls as a whole, and clock and keyboard interrupts between calls. A task that
  a step stops, and that exists and does not run while any number of steps are made by other tasks (which may allocate, map, and
  start and destroy tasks), gets back, when a step dispatches it again, the sixteen register words that were on the stack when it
  was stopped.\<close>

theorem context_restored:
  fixes s :: "'a console_state_scheme"
  assumes "kernel_ok W LS K T s" and "vars_ok W K" and "args_ok W K"
    and "kstep (clocked W) LS K C T s (Some (regs, f)) T1 s1" and "absent (clocked W) LS K C (running_task s) T1 s1 T2 s2"
    and "kstep (clocked W) LS K C T2 s2 (Some (regs', f')) T' s'" and "running_task s' = running_task s"
  shows "frame_at (mem s') regs' = f"
proof -
  let ?t = "running_task s"
  have k1: "kernel_ok W LS K T1 s1" "step_frames (T \<inter> T1) s (Some (regs, f)) s1" using kstep_keeps [OF assms(4,1-3)] by blast+
  note t = absent_there [OF assms(5)]
  have saved: "frame_at (mem s1) (task_state ?t) = f" using k1(2) t by (simp add: step_frames_def)
  have k2: "kernel_ok W LS K T2 s2" "frame_at (mem s2) (task_state ?t) = frame_at (mem s1) (task_state ?t)"
    using absent_frame [OF assms(5) k1(1) assms(2,3)] by blast+
  have "step_frames (T2 \<inter> T') s2 (Some (regs', f')) s'" using kstep_keeps [OF assms(6) k2(1) assms(2,3)] by blast
  then show ?thesis using assms(7) k2(2) saved t by (auto simp: step_frames_def)
qed

theorem context_restored_witness:
  "\<exists>(s :: console_state) C s1 s2. kstep (clocked key_sys) demo_lists demo_stack C demo_tasks s (Some (frame key_sys s, yield_frame key_sys s)) demo_tasks s1 \<and>
    running_task s = 0x10000 \<and> running_task s1 = 0x11000 \<and>
    kstep (clocked key_sys) demo_lists demo_stack C demo_tasks s1 (Some (frame key_sys s1, yield_frame key_sys s1)) demo_tasks s2 \<and>
    running_task s2 = 0x10000 \<and> frame_at (mem s2) (frame key_sys s1) = yield_frame key_sys s"
proof -
  let ?C = "\<lparr>keybd_device = 0x90000, isr_scancode = 0x42000, key_var = 0x90200, iorq_var = 0x90300\<rparr>"
  obtain s :: console_state and L A where
    s: "queue_holds key_sys demo_tasks demo_lists demo_stack ready_q L A (keybd_queue s) 1 4 0x10000 [] s"
      "clock_ready key_sys demo_stack s" "running_task s = 0x10000"
    and m: "\<forall>k. unat k < 140 \<longrightarrow> mem s (0x10000 + k) = ready_mem (0x10000 + k) \<and> mem s (0x11000 + k) = ready_mem (0x11000 + k)"
    using key_kernel_at [OF key_ready] by (elim exE conjE) (rule that)
  have p: "node_pri (mem s) 0x10000 = 0" "node_pri (mem s) 0x11000 = 0"
    using m [rule_format, of 12] by (simp_all add: ready_mem_def node_pri_def)
  have q: "ready_q 0x20000 = [0x11000]" by (simp add: ready_q_def)
  note ok = queue_kernel_ok [OF s(1,2)]
  have d: "0x10000 \<in> demo_tasks" "0x11000 \<in> demo_tasks" by (simp_all add: demo_tasks_def)
  from key_yields [OF ok q p(2), of ?C] p(1) obtain s1 where
    s1: "kstep (clocked key_sys) demo_lists demo_stack ?C demo_tasks s (Some (frame key_sys s, yield_frame key_sys s)) demo_tasks s1"
    "running_task s1 = 0x11000" "active key_sys demo_tasks demo_lists demo_stack (ready_q(0x20000 := [0x10000])) s1"
    "kernel_ok key_sys demo_lists demo_stack demo_tasks s1" "\<forall>t \<in> demo_tasks. node_pri (mem s1) t = node_pri (mem s) t"
    unfolding s(3) by blast
  have "node_pri (mem s1) 0x10000 = 0" "node_pri (mem s1) (running_task s1) = 0" using s1(2,5) p d by simp_all
  from key_yields [OF s1(4,3) fun_upd_same this, of ?C] obtain s2 where
    s2: "kstep (clocked key_sys) demo_lists demo_stack ?C demo_tasks s1 (Some (frame key_sys s1, yield_frame key_sys s1)) demo_tasks s2"
    "running_task s2 = 0x10000" by blast
  have "absent (clocked key_sys) demo_lists demo_stack ?C (running_task s) demo_tasks s1 demo_tasks s1"
    by (rule absent_start) (use s1(2) s(3) d in simp_all)
  from context_restored [OF ok(1) key_vars key_args s1(1) this s2(1)] s2(2) s(3)
  have "frame_at (mem s2) (frame key_sys s1) = yield_frame key_sys s" by simp
  then show ?thesis using s(3) s1(1,2) s2 by (intro exI [of _ s] exI [of _ ?C] exI [of _ s1] exI [of _ s2] conjI)
qed

end
