(* ===== verification/Spec2Isabelle.thy ===== *)
theory Spec2Isabelle
  imports KList HeapProps KeyRead DeviceList Editor TimerTask CloneDir PageOps PageCalls KRuns
begin

text \<open>
  Krypton OS, a small preemptive kernel for 32-bit x86 in C: page allocation, paging, a kernel heap, prioritised tasks with
  signals and delays, message queues, devices, a text console and a keyboard. This library models its C code, but for what is named at the end, and
  proves what the parts promise to each other.

  \<^bold>\<open>The program.\<close> \<open>init\<close> (kernel_main.c) sets up the page allocator and the page tables (mm.c), the descriptor and interrupt
  tables (cpu.c, idt.c), the screen (monitor.c), the heap (kmalloc.c) and the clock (timer.c), makes itself the first task, and
  creates the console (console.c) and the timer task. Tasks enter the kernel with \<open>int 0xFF\<close> (syscalls.c); the handlers of
  idt.c end in the scheduler (task.c), which saves and restores register frames. Tasks, queues (queue.c), devices (device.c)
  and free heap chunks are nodes of the lists of list.c; strings go through common.c, vsprintf.c and kprintf.c.

  \<^bold>\<open>Machine and state.\<close> \<open>Prelude\<close> and \<open>Memory\<close>: memory is a function from aligned addresses to 32-bit words, with byte access
  on top of it; words wrap as in C. A routine returns an \<open>outcome\<close>: \<open>None\<close> when it never returns, an error when the machine
  panics, faults, or the C code has no meaning, else its value. The kernel state is one record, extended by each component
  with its static variables: \<open>machine\<close> (memory and the log of port accesses), \<open>cpu_state\<close> (descriptor tables, the interrupt flag),
  \<open>idt_state\<close>, \<open>pa_state\<close> (the bitmap of pages), \<open>paging_state\<close> (\<open>phys\<close>, the memory that holds the page tables, and \<open>cr3\<close>),
  \<open>heap_state\<close>, \<open>monitor_state\<close> (the video memory), \<open>kernel_state\<close> (the running task and the counters of the scheduler),
  \<open>console_state\<close>. Structures that the C code links by pointers (list nodes, chunks, tasks, queues, requests) are cells of memory
  at their real offsets; structures of the hardware (gates, descriptors) are records.

  What the C code does not determine is a parameter: \<open>symbols\<close>, \<open>main_mem\<close> and \<open>console_mem\<close> are addresses chosen by the linker;
  \<open>env\<close> is what a port answers, from the log of accesses before; \<open>sys\<close> has the place of the next register frame on the kernel stack
  (\<open>frame\<close>), the registers at a trap, the address of a stack variable, the interrupt that ends a halt, and the run of the other tasks
  while one is not dispatched (\<open>others\<close>). The properties hold for every choice, under layout conditions that their statements name.

  \<^bold>\<open>Theories and sources.\<close>
  \<^item> common.c: \<open>Common\<close> (ports, memory and string routines). list.c: \<open>KList\<close>; the predicate \<open>dll\<close> relates memory to a sequence of
    nodes, the locales \<open>fifo_store\<close> and \<open>pri_store\<close> are what queues and the scheduler rely on.
  \<^item> cpu.c: \<open>Cpu\<close>. idt.c: \<open>Idt\<close> (tables, gates, registration); the two common handlers are in \<open>Task\<close>, after what they call.
  \<^item> mm.c: \<open>PageAlloc\<close> (bitmap, locale \<open>page_allocator\<close>), \<open>Paging\<close> (\<open>translate\<close> is the walk of the processor; \<open>mm_map\<close>, \<open>mm_unmap\<close>,
    \<open>get_physaddr\<close> through the recursive window), \<open>MmInit\<close> (\<open>mm_init\<close> from the memory map of the boot loader), \<open>PageOps\<close>
    (the operations in any order), \<open>PageCalls\<close> (\<open>dos_mm_map\<close>, \<open>dos_mm_unmap\<close>), \<open>CloneDir\<close> (\<open>clone_actual_directory\<close>).
  \<^item> kmalloc.c: \<open>Kmalloc\<close> has the operations, \<open>HeapPages\<close> growth and shrinking by pages, \<open>HeapLayout\<close> the tiling of the heap by blocks
    and the operations on it, \<open>HeapSpec\<close> the contract of clients (locales \<open>heap_store\<close> and \<open>framed_heap\<close>), \<open>HeapProps\<close> the properties.
  \<^item> monitor.c: \<open>Monitor\<close>, with \<open>Digits\<close>. vsprintf.c: \<open>Vsprintf\<close>, and \<open>FormatSpec\<close>, its reference on lists of characters.
    kprintf.c, panic.c and the fault reports of mm.c and kmalloc.c: \<open>Kprintf\<close>.
  \<^item> task.c, timer.c, syscalls.c: \<open>Task\<close> has the operations; \<open>TaskInv\<close> (tasks in memory), \<open>Sched\<close> (the invariant of the tasks and one
    reschedule), \<open>Elsewhere\<close> (what the scheduler leaves alone), \<open>TaskSteps\<close> (traps), \<open>Clock\<close> (the clock interrupt), \<open>Idle\<close> (the halted processor; locale \<open>idle_interrupts\<close>),
    \<open>TaskProps\<close> (properties of one step), \<open>KSteps\<close> (the steps of a task between two interrupts), \<open>Sleep\<close> (delays), \<open>Race\<close> (the race in
    \<open>wait\<close>). \<open>StepCalls\<close> and \<open>KRuns\<close> put all calls and interrupts together: the step relation \<open>kstep\<close> and its runs.
  \<^item> \<open>HeapCalls\<close> and \<open>Services\<close>: \<open>kmalloc\<close> and \<open>kfree\<close> as system calls of a task or of an interrupt handler, in a kernel with tasks.
  \<^item> queue.c: \<open>Queue\<close> has the operations, \<open>QueueSpec\<close> the representation, \<open>QueueProps\<close> the operations on it, \<open>QueueFifo\<close> the properties.
  \<^item> device.c: \<open>Device\<close>, \<open>DeviceList\<close>. console.c: \<open>Console\<close>, \<open>Editor\<close> (the line editor), \<open>Keyboard\<close> (the interrupt),
    \<open>KeyRead\<close> (a blocking read, from the wait to the key).
  \<^item> kernel_main.c: \<open>KernelMain\<close>, \<open>TimerTask\<close>, \<open>Boot\<close> (the start up to the first task), \<open>NewTask\<close> (\<open>create_task\<close>, and \<open>init\<close> up to its
    first delay).

  \<^bold>\<open>What is shown.\<close> The page allocator gives each free page once; mapping changes the translation of one page only, also as a system
  call; any sequence of these operations keeps the tables well formed, and the boot establishes this. The heap is tiled by blocks, a block
  that \<open>kmalloc\<close> returns overlaps no block in use, and \<open>kfree\<close> takes out just the block it is given, for requests that keep every
  free chunk large enough for a header (\<open>even_size\<close>: after rounding, an odd multiple of 16 bytes); other requests can lead to a
  heap whose last block is in use, and there \<open>kmalloc_overlaps_used_block\<close> exhibits a block that overlaps it. The invariant of
  the tasks, \<open>active\<close>, says that each task but the running one is in exactly one list, the ready list is sorted by priority, and
  flags and signals agree with the lists. It holds between the steps of \<open>kstep\<close>: the clock and the keyboard interrupt taken between two
  calls, and, as a whole, yield, wait, signal, forbid, permit, kmalloc of such a size, kfree of a block of the caller, mapping and unmapping
  outside the heap, the entry of a new task and the removal of another one; over their runs, a task that is dispatched
  again has the frame it was stopped with. It is not kept by an interrupt inside \<open>wait\<close> (\<open>wait_clock_race\<close>), nor claimed for one inside any other call.
  Queues hold a sequence of byte strings, first in, first out, and a read of the keyboard that has to wait returns the key. From the power-on state, \<open>init\<close>
  establishes the invariants of the page tables, the heap and the tasks and dispatches the timer task. The other properties are about single routines: printing, formatting, comparing, editing, searching.
  Where the code does not do what it means to, the property says what it does; several of these are the error properties.

  \<^bold>\<open>Termination and bounds.\<close> No fuel is used. Loops over a counter are functions with a measure; loops that end only for well-formed
  data, like those over lists, the search for memory or the scheduler waiting for an interrupt, are \<open>partial_function (option)\<close>, so that
  not returning is the value \<open>None\<close>, and the properties state that they return. \<open>delay_sleeps\<close> is by induction on the ticks of the clock.
  The forbid counter is a signed 32-bit integer; \<open>counters_ok\<close> bounds it away from overflow. A small request takes at most two pages
  from the allocator, a message at most four.

  \<^bold>\<open>Assumptions.\<close> C code runs without an interruption except where an interrupt is a step: between the steps of \<open>kstep\<close>, in the
  halted processor (where in \<open>kstep\<close> only the clock ticks), and at the one place in \<open>wait\<close> that \<open>Race\<close> looks at; so \<open>syscall\<close> and \<open>irq_handler\<close> are not interrupted
  after their \<open>sti\<close>, nor are \<open>wait\<close>, \<open>signal\<close> and the list operations of a task. \<open>kstep\<close> leaves out \<open>destroy_task\<close> of the running task (a
  finding) and calls that panic or fault, which end a run. \<open>trap\<close> and \<open>interrupt\<close> push sixteen words also when the kernel itself is interrupted,
  where the processor pushes no \<open>esp\<close> and \<open>ss\<close>: the two more words lie in the stack region.
  Register frames and stack variables lie in a region \<open>K\<close>
  apart from tasks, lists, heap and static data. Data memory is flat: the page tables are modelled in \<open>phys\<close>, and the kernel range that
  holds all other data is taken to be mapped; a page fault arises where mm.c itself reads through the window on the tables.

  \<^bold>\<open>Not modelled.\<close> The assembler of boot.asm and idt_s.asm, but for the register frames that the stubs push and pop and
  the return of \<open>enter_user_mode\<close>; the layout of linker.ld; the declarations of headers that no code uses (multiboot modules, VESA
  structures, the older interfaces pmm.h and sysbase.h); \<open>keyboard_reset_on_panic\<close>, which nothing calls; the code behind the endless
  loop of the prompt. The effect of \<open>invlpg\<close> is a log: the walk reads the tables each time. Calls that wait in \<open>wait_for_msg\<close> or \<open>wait_for_slot\<close>
  are modelled; the properties of queues are about calls that do not have to wait, but for the read of the console in \<open>KeyRead\<close>.
\<close>

end
